(* ===== verification/Prelude.thy ===== *)
theory Prelude
  imports Main "HOL-Library.Word" "HOL-Library.List_Lexorder" "HOL-Library.AList"
    "HOL-Library.Multiset" "HOL-Library.Product_Lexorder"
begin

text \<open>
  Shared vocabulary of the development: bytes and little-endian encodings, the wrapping
  arithmetic of the release build, the hash maps, ordered maps and ordered sets of the
  Rust standard library, the reversed order used by the descending sorts, and the lemmas on
  them that every component uses.

  A hash map is an association list with distinct keys; the position of an entry is its
  (unspecified) place in the iteration order. A \<open>BTreeMap\<close> is an association list with
  strictly ascending keys, a \<open>BTreeSet\<close> a strictly ascending list.
\<close>

named_theorems wrap_simps \<open>wrapping arithmetic below the bound\<close>
named_theorems hmap \<open>hash-map operations seen through lookup and key set\<close>
named_theorems btree \<open>ordered maps and sets\<close>

type_synonym byte = "8 word"
type_synonym bytes = "byte list"

text \<open>
  The three ways a Rust call can end: \<open>Ok\<close> and \<open>Err\<close> are the constructors of \<open>Result\<close>;
  \<open>Panic\<close> is a failed \<open>expect\<close>, \<open>unwrap\<close>, index or slice, or an explicit \<open>panic!\<close>,
  which ends the task.
\<close>

datatype ('a, 'e) outcome = Ok 'a | Err 'e | Panic

fun outcome_map :: "('a \<Rightarrow> 'b) \<Rightarrow> ('a, 'e) outcome \<Rightarrow> ('b, 'e) outcome" where
  "outcome_map f (Ok a) = Ok (f a)"
| "outcome_map f (Err e) = Err e"
| "outcome_map f Panic = Panic"

fun outcome_map_err :: "('e \<Rightarrow> 'd) \<Rightarrow> ('a, 'e) outcome \<Rightarrow> ('a, 'd) outcome" where
  "outcome_map_err f (Ok a) = Ok a"
| "outcome_map_err f (Err e) = Err (f e)"
| "outcome_map_err f Panic = Panic"

text \<open>\<open>and_then\<close> is the \<open>?\<close> operator: the rest runs on \<open>Ok\<close>, everything else is returned.\<close>

fun and_then :: "('a, 'e) outcome \<Rightarrow> ('a \<Rightarrow> ('b, 'e) outcome) \<Rightarrow> ('b, 'e) outcome" where
  "and_then (Ok a) f = f a"
| "and_then (Err e) f = Err e"
| "and_then Panic f = Panic"

definition ensure :: "bool \<Rightarrow> 'e \<Rightarrow> (unit, 'e) outcome" where
  "ensure b e = (if b then Ok () else Err e)"

lemma and_then_Ok [simp]: "and_then x f = Ok b \<longleftrightarrow> (\<exists>a. x = Ok a \<and> f a = Ok b)"
  by (cases x) auto

lemma and_then_Panic: "and_then x f = Panic \<longleftrightarrow> x = Panic \<or> (\<exists>a. x = Ok a \<and> f a = Panic)"
  by (cases x) auto

lemma ensure_Ok [simp]: "ensure b e = Ok u \<longleftrightarrow> b"
  by (simp add: ensure_def)

lemma ensure_not_Panic [simp]: "ensure b e \<noteq> Panic"
  by (simp add: ensure_def)

lemma outcome_map_err_Ok [simp]: "outcome_map_err f x = Ok a \<longleftrightarrow> x = Ok a"
  by (cases x) auto

lemma outcome_map_err_Panic [simp]: "outcome_map_err f x = Panic \<longleftrightarrow> x = Panic"
  by (cases x) auto

section \<open>Bytes of an unsigned integer\<close>

text \<open>\<open>le_bytes k n\<close> is \<open>n.to_le_bytes()\<close> for an unsigned integer of \<open>k\<close> bytes.\<close>

fun le_bytes :: "nat \<Rightarrow> nat \<Rightarrow> bytes" where
  "le_bytes 0 n = []"
| "le_bytes (Suc k) n = word_of_nat (n mod 256) # le_bytes k (n div 256)"

fun of_le_bytes :: "bytes \<Rightarrow> nat" where
  "of_le_bytes [] = 0"
| "of_le_bytes (b # bs) = unat b + 256 * of_le_bytes bs"

lemma length_le_bytes [simp]: "length (le_bytes k n) = k"
  by (induction k arbitrary: n) auto

lemma unat_byte_mod [simp]: "unat (word_of_nat (n mod 256) :: byte) = n mod 256"
  by (simp add: unat_of_nat)

lemma of_le_bytes_le_bytes: "n < 256 ^ k \<Longrightarrow> of_le_bytes (le_bytes k n) = n"
proof (induction k arbitrary: n)
  case 0
  then show ?case by simp
next
  case (Suc k)
  from Suc.prems have "n div 256 < 256 ^ k"
    by (simp add: less_mult_imp_div_less mult.commute)
  then have "of_le_bytes (le_bytes k (n div 256)) = n div 256"
    by (rule Suc.IH)
  then show ?case by simp
qed

lemma le_bytes_of_le_bytes: "le_bytes (length bs) (of_le_bytes bs) = bs"
proof (induction bs)
  case Nil
  then show ?case by simp
next
  case (Cons b bs)
  have "unat b < 256" using unsigned_less [of b] by simp
  with Cons.IH show ?case by (simp add: mod_add_eq)
qed

lemma of_le_bytes_bound: "of_le_bytes bs < 256 ^ length bs"
proof (induction bs)
  case Nil
  then show ?case by simp
next
  case (Cons b bs)
  have "unat b < 256" using unsigned_less [of b] by simp
  with Cons.IH show ?case by simp
qed

lemma le_bytes_inj:
  assumes "m < 256 ^ k" "n < 256 ^ k" "le_bytes k m = le_bytes k n"
  shows "m = n"
  using assms by (metis of_le_bytes_le_bytes)

text \<open>Concatenated blocks of one length can be cut apart again.\<close>

lemma concat_map_inj:
  assumes "\<forall>x \<in> set xs. P x \<and> length (f x) = k" "\<forall>y \<in> set ys. P y \<and> length (f y) = k" "0 < k"
    and "\<And>x y. P x \<Longrightarrow> P y \<Longrightarrow> f x = f y \<Longrightarrow> x = y"
    and "concat (map f xs) = concat (map f ys)"
  shows "xs = ys"
  using assms(1,2,5)
proof (induction xs arbitrary: ys)
  case Nil
  then show ?case using assms(3) by (cases ys) auto
next
  case (Cons x xs)
  have "f x \<noteq> []" using Cons.prems(1) assms(3) by auto
  with Cons.prems(3) obtain y ys' where ys: "ys = y # ys'" by (cases ys) auto
  have len: "length (f x) = length (f y)" using Cons.prems(1,2) ys by simp
  with Cons.prems(3) ys have split: "f x = f y" "concat (map f xs) = concat (map f ys')"
    by simp_all
  have "P x" "P y" using Cons.prems(1,2) ys by simp_all
  then have xy: "x = y" using split(1) by (rule assms(4))
  have "xs = ys'" by (rule Cons.IH) (use Cons.prems ys split(2) in simp_all)
  with xy show ?case by (simp add: ys)
qed

section \<open>Wrapping arithmetic\<close>

text \<open>
  The node is built with \<open>cargo build --release\<close> and no \<open>overflow-checks\<close>: unsigned
  arithmetic wraps. Values of type \<open>u64\<close> are natural numbers below \<open>2 ^ 64\<close>.
\<close>

definition u64_add :: "nat \<Rightarrow> nat \<Rightarrow> nat" where
  "u64_add a b = (a + b) mod 2 ^ 64"

definition u64_sub :: "nat \<Rightarrow> nat \<Rightarrow> nat" where
  "u64_sub a b = (if b \<le> a then a - b else a + 2 ^ 64 - b)"

lemma u64_add_small [wrap_simps]: "a + b < 2 ^ 64 \<Longrightarrow> u64_add a b = a + b"
  by (simp add: u64_add_def)

lemma u64_sub_small [wrap_simps]: "b \<le> a \<Longrightarrow> u64_sub a b = a - b"
  by (simp add: u64_sub_def)

lemma u64_add_bound: "u64_add a b < 2 ^ 64"
  by (simp add: u64_add_def)

lemma u64_sub_bound: "a < 2 ^ 64 \<Longrightarrow> u64_sub a b < 2 ^ 64"
  by (auto simp: u64_sub_def)

lemma unat_sum_list:
  fixes ws :: "'a::len word list"
  assumes "sum_list (map unat ws) < 2 ^ LENGTH('a)"
  shows "unat (sum_list ws) = sum_list (map unat ws)"
  using assms
proof (induction ws)
  case Nil
  then show ?case by simp
next
  case (Cons w ws)
  then have "unat (sum_list ws) = sum_list (map unat ws)" by simp
  with Cons.prems show ?case by (simp add: unat_word_ariths)
qed

lemma unat_sum_list_le: "unat (sum_list (ws :: 'a::len word list)) \<le> sum_list (map unat ws)"
proof (induction ws)
  case Nil
  then show ?case by simp
next
  case (Cons w ws)
  have "unat (w + sum_list ws) \<le> unat w + unat (sum_list ws)"
    by (simp add: unat_word_ariths)
  with Cons.IH show ?case by simp
qed

section \<open>Hash maps\<close>

type_synonym ('k, 'v) hash_map = "('k \<times> 'v) list"

definition hm_retain :: "('k \<Rightarrow> 'v \<Rightarrow> bool) \<Rightarrow> ('k, 'v) hash_map \<Rightarrow> ('k, 'v) hash_map" where
  "hm_retain P m = filter (\<lambda>(k, v). P k v) m"

definition hm_collect :: "('k \<times> 'v) list \<Rightarrow> ('k, 'v) hash_map" where
  "hm_collect kvs = foldl (\<lambda>m (k, v). AList.update k v m) [] kvs"

text \<open>\<open>entry(k).or_insert(d)\<close> followed by a change of the value found there.\<close>

definition hm_entry :: "'k \<Rightarrow> 'v \<Rightarrow> ('v \<Rightarrow> 'v) \<Rightarrow> ('k, 'v) hash_map \<Rightarrow> ('k, 'v) hash_map" where
  "hm_entry k d f m = (case map_of m k of
     None \<Rightarrow> AList.update k (f d) m
   | Some v \<Rightarrow> AList.update k (f v) m)"

text \<open>Lookups stay lookups: membership in the list is introduced by hand, with \<open>map_of_in_set\<close>.\<close>

declare map_of_eq_Some_iff [simp del]

abbreviation hm_wf :: "('k, 'v) hash_map \<Rightarrow> bool" where
  "hm_wf m \<equiv> distinct (map fst m)"

lemma map_of_update [hmap, simp]: "map_of (AList.update k v m) = (map_of m)(k \<mapsto> v)"
  by (simp add: update_conv')

lemma hm_wf_update [hmap, simp]: "hm_wf m \<Longrightarrow> hm_wf (AList.update k v m)"
  by (rule distinct_update)

lemma hm_wf_delete [hmap, simp]: "hm_wf m \<Longrightarrow> hm_wf (AList.delete k m)"
  by (rule distinct_delete)

lemma map_of_delete [hmap, simp]: "map_of (AList.delete k m) = (map_of m)(k := None)"
  by (simp add: delete_conv')

lemma hm_wf_retain [hmap, simp]: "hm_wf m \<Longrightarrow> hm_wf (hm_retain P m)"
  by (induction m) (auto simp: hm_retain_def)

lemma hm_wf_filter [hmap]: "hm_wf m \<Longrightarrow> hm_wf (filter P m)"
  by (induction m) auto

lemma set_hm_retain [hmap]: "set (hm_retain P m) = {(k, v) \<in> set m. P k v}"
  by (auto simp: hm_retain_def)

lemma map_of_filter_distinct:
  "hm_wf m \<Longrightarrow> map_of (filter P m) k =
     (case map_of m k of None \<Rightarrow> None | Some v \<Rightarrow> if P (k, v) then Some v else None)"
proof (induction m)
  case Nil
  then show ?case by simp
next
  case (Cons kv m)
  then have nin: "fst kv \<notin> dom (map_of m)" by (simp add: dom_map_of_conv_image_fst)
  with Cons show ?case
    by (cases kv) (auto split: option.splits simp: domIff)
qed

lemma map_of_retain [hmap]:
  "hm_wf m \<Longrightarrow> map_of (hm_retain P m) k =
     (case map_of m k of None \<Rightarrow> None | Some v \<Rightarrow> if P k v then Some v else None)"
  by (simp add: hm_retain_def map_of_filter_distinct split: option.splits)

lemma map_of_entry [hmap]:
  "map_of (hm_entry k d f m) = (map_of m)(k \<mapsto> f (case map_of m k of None \<Rightarrow> d | Some v \<Rightarrow> v))"
  by (simp add: hm_entry_def split: option.splits)

lemma hm_wf_entry [hmap, simp]: "hm_wf m \<Longrightarrow> hm_wf (hm_entry k d f m)"
  by (simp add: hm_entry_def split: option.splits)

lemma fst_set_update: "fst ` set (AList.update k v m) = insert k (fst ` set m)"
  by (induction m) auto

lemma set_update_subset: "set (AList.update k v m) \<subseteq> insert (k, v) (set m)"
  by (induction m) auto

lemma set_update_distinct:
  "hm_wf m \<Longrightarrow> set (AList.update k v m) = insert (k, v) {(k', v') \<in> set m. k' \<noteq> k}"
proof (induction m)
  case Nil
  then show ?case by simp
next
  case (Cons kv m)
  obtain k' v' where kv: "kv = (k', v')" by (cases kv)
  from Cons.prems kv have "(k', w) \<notin> set m" for w by force
  with Cons kv show ?case by (cases "k' = k") auto
qed

lemma map_of_in_set: "hm_wf m \<Longrightarrow> map_of m k = Some v \<longleftrightarrow> (k, v) \<in> set m"
  by (rule map_of_eq_Some_iff)

lemma foldl_update_wf: "hm_wf m \<Longrightarrow> hm_wf (foldl (\<lambda>m (k, v). AList.update k v m) m kvs)"
  by (induction kvs arbitrary: m) auto

lemma hm_wf_collect [hmap, simp]: "hm_wf (hm_collect kvs)"
  by (simp add: hm_collect_def foldl_update_wf)

lemma foldl_update_map_of:
  "map_of (foldl (\<lambda>m (k, v). AList.update k v m) m kvs) = map_of m ++ map_of (rev kvs)"
proof (induction kvs arbitrary: m)
  case Nil
  then show ?case by simp
next
  case (Cons kv kvs)
  then show ?case by (cases kv) (auto simp: fun_eq_iff map_add_def split: option.splits)
qed

lemma map_of_collect [hmap]: "map_of (hm_collect kvs) = map_of (rev kvs)"
  by (simp add: hm_collect_def foldl_update_map_of)

lemma set_hm_collect: "set (hm_collect kvs) \<subseteq> set kvs"
proof -
  have "set (foldl (\<lambda>m (k, v). AList.update k v m) m kvs) \<subseteq> set m \<union> set kvs" for m
  proof (induction kvs arbitrary: m)
    case Nil
    then show ?case by simp
  next
    case (Cons kv kvs)
    obtain k v where "kv = (k, v)" by (cases kv)
    with Cons.IH [of "AList.update k v m"] set_update_subset [of k v m] show ?case by auto
  qed
  from this [of "[]"] show ?thesis by (simp add: hm_collect_def)
qed

section \<open>Ordered maps and sets\<close>

type_synonym ('k, 'v) btree_map = "('k \<times> 'v) list"
type_synonym 'a btree_set = "'a list"

fun bt_insert :: "'k::linorder \<Rightarrow> 'v \<Rightarrow> ('k, 'v) btree_map \<Rightarrow> ('k, 'v) btree_map" where
  "bt_insert k v [] = [(k, v)]"
| "bt_insert k v ((k', v') # m) =
     (if k < k' then (k, v) # (k', v') # m
      else if k = k' then (k, v) # m
      else (k', v') # bt_insert k v m)"

definition bt_collect :: "('k::linorder \<times> 'v) list \<Rightarrow> ('k, 'v) btree_map" where
  "bt_collect kvs = foldl (\<lambda>m (k, v). bt_insert k v m) [] kvs"

definition bs_collect :: "'a::linorder list \<Rightarrow> 'a btree_set" where
  "bs_collect xs = sort (remdups xs)"

abbreviation strict_sorted_list :: "'a::linorder list \<Rightarrow> bool" where
  "strict_sorted_list \<equiv> sorted_wrt (<)"

abbreviation bt_wf :: "('k::linorder, 'v) btree_map \<Rightarrow> bool" where
  "bt_wf m \<equiv> strict_sorted_list (map fst m)"

lemma strict_sorted_distinct: "strict_sorted_list xs \<Longrightarrow> distinct xs"
  by (simp add: strict_sorted_iff)

lemma fst_bt_insert [btree]: "fst ` set (bt_insert k v m) = insert k (fst ` set m)"
  by (induction k v m rule: bt_insert.induct) auto

lemma bt_wf_insert [btree]: "bt_wf m \<Longrightarrow> bt_wf (bt_insert k v m)"
proof (induction k v m rule: bt_insert.induct)
  case (1 k v)
  then show ?case by simp
next
  case (2 k v k' v' m)
  have fs: "fst ` set (bt_insert k v m) = insert k (fst ` set m)" by (rule fst_bt_insert)
  have "\<forall>x \<in> set (map fst (bt_insert k v m)). k' < x" if "k' < k"
    using that "2.prems" fs by auto
  with 2 show ?case by auto
qed

lemma map_of_bt_insert [btree]: "map_of (bt_insert k v m) = (map_of m)(k \<mapsto> v)"
  by (induction k v m rule: bt_insert.induct) auto

lemma bt_wf_collect [btree, simp]: "bt_wf (bt_collect kvs)"
proof -
  have "bt_wf m \<Longrightarrow> bt_wf (foldl (\<lambda>m (k, v). bt_insert k v m) m kvs)" for m
    by (induction kvs arbitrary: m) (auto simp: bt_wf_insert)
  then show ?thesis by (simp add: bt_collect_def)
qed

lemma map_of_bt_collect [btree]: "map_of (bt_collect kvs) = map_of (rev kvs)"
proof -
  have "map_of (foldl (\<lambda>m (k, v). bt_insert k v m) m kvs) = map_of m ++ map_of (rev kvs)" for m
    by (induction kvs arbitrary: m) (auto simp: map_of_bt_insert)
  then show ?thesis by (simp add: bt_collect_def)
qed

lemma set_bs_collect [btree, simp]: "set (bs_collect xs) = set xs"
  by (simp add: bs_collect_def)

lemma bs_collect_sorted [btree, simp]: "strict_sorted_list (bs_collect xs)"
  by (simp add: bs_collect_def strict_sorted_iff)

lemma bs_collect_distinct [simp]: "distinct (bs_collect xs)"
  by (simp add: bs_collect_def)

lemma strict_sorted_equal:
  "strict_sorted_list xs \<Longrightarrow> strict_sorted_list ys \<Longrightarrow> set xs = set ys \<Longrightarrow> xs = ys"
  by (simp add: strict_sorted_equal)

section \<open>The reversed order\<close>

text \<open>Sorting by \<open>b.cmp(a)\<close> is sorting by the reversed order of the key.\<close>

datatype 'a down = Down (undown: 'a)

instantiation down :: (linorder) linorder
begin

definition less_eq_down :: "'a down \<Rightarrow> 'a down \<Rightarrow> bool" where
  "less_eq_down a b \<longleftrightarrow> undown b \<le> undown a"

definition less_down :: "'a down \<Rightarrow> 'a down \<Rightarrow> bool" where
  "less_down a b \<longleftrightarrow> undown b < undown a"

instance
  by standard (auto simp: less_eq_down_def less_down_def down.expand)

end

lemma down_le [simp]: "Down a \<le> Down b \<longleftrightarrow> b \<le> a"
  by (simp add: less_eq_down_def)

lemma down_less [simp]: "Down a < Down b \<longleftrightarrow> b < a"
  by (simp add: less_down_def)

section \<open>Lists\<close>

text \<open>\<open>step_by(2)\<close>: the first element and every second one after it.\<close>

fun step_by_2 :: "'a list \<Rightarrow> 'a list" where
  "step_by_2 [] = []"
| "step_by_2 [x] = [x]"
| "step_by_2 (x # y # xs) = x # step_by_2 xs"

lemma set_step_by_2: "set (step_by_2 xs) \<subseteq> set xs"
  by (induction xs rule: step_by_2.induct) auto

lemma in_map_filter: "y \<in> set (List.map_filter f xs) \<longleftrightarrow> (\<exists>x \<in> set xs. f x = Some y)"
  by (induction xs) (auto simp: List.map_filter_def)

text \<open>The sub-list of the entries whose keys are new, in order of first appearance.\<close>

fun dedup_by :: "('a \<Rightarrow> 'b) \<Rightarrow> 'b set \<Rightarrow> 'a list \<Rightarrow> 'a list" where
  "dedup_by f seen [] = []"
| "dedup_by f seen (x # xs) =
     (if f x \<in> seen then dedup_by f seen xs else x # dedup_by f (insert (f x) seen) xs)"

lemma dedup_by_keys: "f ` set (dedup_by f seen xs) = f ` set xs - seen"
  by (induction f seen xs rule: dedup_by.induct) auto

lemma dedup_by_distinct: "distinct (map f (dedup_by f seen xs))"
  by (induction f seen xs rule: dedup_by.induct) (auto simp: dedup_by_keys)

lemma dedup_by_subset: "set (dedup_by f seen xs) \<subseteq> set xs"
  by (induction f seen xs rule: dedup_by.induct) auto

lemma dedup_by_nil: "dedup_by f {} xs = [] \<longleftrightarrow> xs = []"
  by (cases xs) auto

lemma sum_list_distinct_le:
  fixes f :: "'a \<Rightarrow> nat"
  assumes "distinct xs" "set xs \<subseteq> set ys" "distinct ys"
  shows "sum_list (map f xs) \<le> sum_list (map f ys)"
  using assms by (simp add: sum_list_distinct_conv_sum_set sum_mono2)

lemma fold_max_ge: "a \<le> fold max xs (a::'a::linorder)"
proof (induction xs arbitrary: a)
  case Nil
  then show ?case by simp
next
  case (Cons x xs)
  from Cons.IH [of "max x a"] show ?case by simp
qed

lemma fold_max_in: "x \<in> set xs \<Longrightarrow> x \<le> fold max xs (a::'a::linorder)"
proof (induction xs arbitrary: a)
  case Nil
  then show ?case by simp
next
  case (Cons y xs)
  from fold_max_ge [of "max y a" xs] Cons show ?case by auto
qed

lemma fold_max_cases: "fold max xs (a::'a::linorder) = a \<or> fold max xs a \<in> set xs"
proof (induction xs arbitrary: a)
  case Nil
  then show ?case by simp
next
  case (Cons x xs)
  from Cons.IH [of "max x a"] show ?case by (auto simp: max_def split: if_splits)
qed

end
