(* ===== verification/Crypto.thy ===== *)
theory Crypto
  imports Prelude
begin

text \<open>
  The crate \<open>crypto\<close> (crypto/src/lib.rs): digests, keys, signatures and the signing service.
  The hash function, the signature scheme and the base64 codec are third-party crates
  (ed25519-dalek, base64): they are the fields of the record \<open>crypto\<close>, a parameter of
  every definition that hashes, signs or verifies.
\<close>

section \<open>Digests, keys and signatures\<close>

datatype digest = Digest (digest_bytes: bytes)

datatype public_key = PublicKey (key_bytes: bytes)

datatype secret_key = SecretKey (secret_bytes: bytes)

datatype signature = Signature (part1: bytes) (part2: bytes)

text \<open>The derived \<open>Ord\<close> of the byte arrays is the lexicographic order of their bytes.\<close>

instantiation digest :: linorder
begin

definition less_eq_digest :: "digest \<Rightarrow> digest \<Rightarrow> bool" where
  "less_eq_digest a b \<longleftrightarrow> digest_bytes a \<le> digest_bytes b"

definition less_digest :: "digest \<Rightarrow> digest \<Rightarrow> bool" where
  "less_digest a b \<longleftrightarrow> digest_bytes a < digest_bytes b"

instance
  by standard (auto simp: less_eq_digest_def less_digest_def digest.expand)

end

instantiation public_key :: linorder
begin

definition less_eq_public_key :: "public_key \<Rightarrow> public_key \<Rightarrow> bool" where
  "less_eq_public_key a b \<longleftrightarrow> key_bytes a \<le> key_bytes b"

definition less_public_key :: "public_key \<Rightarrow> public_key \<Rightarrow> bool" where
  "less_public_key a b \<longleftrightarrow> key_bytes a < key_bytes b"

instance
  by standard (auto simp: less_eq_public_key_def less_public_key_def public_key.expand)

end

lemma digest_le [simp]: "Digest a \<le> Digest b \<longleftrightarrow> a \<le> b"
  by (simp add: less_eq_digest_def)

lemma digest_less [simp]: "Digest a < Digest b \<longleftrightarrow> a < b"
  by (simp add: less_digest_def)

lemma public_key_le [simp]: "PublicKey a \<le> PublicKey b \<longleftrightarrow> a \<le> b"
  by (simp add: less_eq_public_key_def)

lemma public_key_less [simp]: "PublicKey a < PublicKey b \<longleftrightarrow> a < b"
  by (simp add: less_public_key_def)

definition default_digest :: digest where
  "default_digest = Digest (replicate 32 0)"

definition default_key :: public_key where
  "default_key = PublicKey (replicate 32 0)"

definition default_signature :: signature where
  "default_signature = Signature (replicate 32 0) (replicate 32 0)"

text \<open>The Rust types fix the lengths of the arrays.\<close>

definition wf_digest :: "digest \<Rightarrow> bool" where
  "wf_digest d \<longleftrightarrow> length (digest_bytes d) = 32"

definition wf_key :: "public_key \<Rightarrow> bool" where
  "wf_key k \<longleftrightarrow> length (key_bytes k) = 32"

definition digest_to_vec :: "digest \<Rightarrow> bytes" where
  "digest_to_vec d = digest_bytes d"

definition digest_size :: "digest \<Rightarrow> nat" where
  "digest_size d = length (digest_bytes d)"

text \<open>\<open>TryFrom<&[u8]>\<close>: a slice of any other length is refused.\<close>

datatype crypto_error = TryFromSliceError | SignatureError | DecodeError | InvalidLength

definition digest_try_from :: "bytes \<Rightarrow> (digest, crypto_error) outcome" where
  "digest_try_from item = (if length item = 32 then Ok (Digest item) else Err TryFromSliceError)"

section \<open>The third-party functions\<close>

record crypto =
  sha512 :: "bytes \<Rightarrow> bytes"
  b64_encode :: "bytes \<Rightarrow> string"
  b64_decode :: "string \<Rightarrow> bytes option"
  keypair_parses :: "bytes \<Rightarrow> bool"
  dalek_sign :: "bytes \<Rightarrow> bytes \<Rightarrow> bytes"
  signature_parses :: "bytes \<Rightarrow> bool"
  key_parses :: "bytes \<Rightarrow> bool"
  dalek_verify_strict :: "bytes \<Rightarrow> bytes \<Rightarrow> bytes \<Rightarrow> bool"
  dalek_verify_batch :: "bytes list \<Rightarrow> bytes list \<Rightarrow> bytes list \<Rightarrow> bool"

text \<open>
  \<open>Digest(Sha512::...finalize().as_slice()[..32])\<close>: every digest of the code is the first
  32 bytes of the hash of the concatenation of what was fed to the hasher.
\<close>

definition hash_bytes :: "crypto \<Rightarrow> bytes \<Rightarrow> digest" where
  "hash_bytes cr bs = Digest (take 32 (sha512 cr bs))"

text \<open>Documented behaviour of the codec and of the hash: what a theorem may assume of them.\<close>

definition base64_roundtrips :: "crypto \<Rightarrow> bool" where
  "base64_roundtrips cr \<longleftrightarrow> (\<forall>bs. b64_decode cr (b64_encode cr bs) = Some bs)"

definition sha512_size :: "crypto \<Rightarrow> bool" where
  "sha512_size cr \<longleftrightarrow> (\<forall>bs. length (sha512 cr bs) = 64)"

section \<open>Keys in base64\<close>

definition encode_base64_key :: "crypto \<Rightarrow> public_key \<Rightarrow> string" where
  "encode_base64_key cr k = b64_encode cr (key_bytes k)"

text \<open>\<open>bytes[..32]\<close> panics when fewer than 32 bytes were decoded; the rest is dropped.\<close>

definition decode_base64_key :: "crypto \<Rightarrow> string \<Rightarrow> (public_key, crypto_error) outcome" where
  "decode_base64_key cr s = (case b64_decode cr s of
     None \<Rightarrow> Err DecodeError
   | Some bs \<Rightarrow> if length bs < 32 then Panic else Ok (PublicKey (take 32 bs)))"

definition encode_base64_secret :: "crypto \<Rightarrow> secret_key \<Rightarrow> string" where
  "encode_base64_secret cr k = b64_encode cr (secret_bytes k)"

definition decode_base64_secret :: "crypto \<Rightarrow> string \<Rightarrow> (secret_key, crypto_error) outcome" where
  "decode_base64_secret cr s = (case b64_decode cr s of
     None \<Rightarrow> Err DecodeError
   | Some bs \<Rightarrow> if length bs < 64 then Panic else Ok (SecretKey (take 64 bs)))"

section \<open>Signing and verifying\<close>

definition signature_new :: "crypto \<Rightarrow> digest \<Rightarrow> secret_key \<Rightarrow> (signature, crypto_error) outcome" where
  "signature_new cr d secret =
     (if \<not> keypair_parses cr (secret_bytes secret) then Panic
      else let sig = dalek_sign cr (secret_bytes secret) (digest_bytes d)
           in Ok (Signature (take 32 sig) (take 32 (drop 32 sig))))"

definition signature_flatten :: "signature \<Rightarrow> bytes" where
  "signature_flatten s = part1 s @ part2 s"

definition signature_verify ::
    "crypto \<Rightarrow> signature \<Rightarrow> digest \<Rightarrow> public_key \<Rightarrow> (unit, crypto_error) outcome" where
  "signature_verify cr s d k =
     (if \<not> signature_parses cr (signature_flatten s) then Err SignatureError
      else if \<not> key_parses cr (key_bytes k) then Err SignatureError
      else if dalek_verify_strict cr (key_bytes k) (digest_bytes d) (signature_flatten s)
           then Ok () else Err SignatureError)"

text \<open>The loop of \<open>verify_batch\<close>, with the three vectors as accumulators.\<close>

fun verify_batch_loop ::
    "crypto \<Rightarrow> digest \<Rightarrow> (public_key \<times> signature) list \<Rightarrow> bytes list \<Rightarrow> bytes list \<Rightarrow> bytes list
      \<Rightarrow> (unit, crypto_error) outcome" where
  "verify_batch_loop cr d [] messages signatures keys =
     (if dalek_verify_batch cr messages signatures keys then Ok () else Err SignatureError)"
| "verify_batch_loop cr d ((key, sig) # votes) messages signatures keys =
     (if \<not> signature_parses cr (signature_flatten sig) then Err SignatureError
      else if \<not> key_parses cr (key_bytes key) then Err SignatureError
      else verify_batch_loop cr d votes (messages @ [digest_bytes d])
             (signatures @ [signature_flatten sig]) (keys @ [key_bytes key]))"

definition verify_batch ::
    "crypto \<Rightarrow> digest \<Rightarrow> (public_key \<times> signature) list \<Rightarrow> (unit, crypto_error) outcome" where
  "verify_batch cr d votes = verify_batch_loop cr d votes [] [] []"

text \<open>
  \<open>SignatureService\<close>: the task answers every request with \<open>Signature::new(&digest, &secret)\<close>;
  a request is one call of this function.
\<close>

definition request_signature :: "crypto \<Rightarrow> secret_key \<Rightarrow> digest \<Rightarrow> (signature, crypto_error) outcome" where
  "request_signature cr secret d = signature_new cr d secret"

section \<open>Lemmas\<close>

lemma wf_hash_bytes: "sha512_size cr \<Longrightarrow> wf_digest (hash_bytes cr bs)"
  by (simp add: sha512_size_def hash_bytes_def wf_digest_def)

lemma wf_default_digest [simp]: "wf_digest default_digest"
  by (simp add: default_digest_def wf_digest_def)

lemma verify_batch_loop_spec:
  "verify_batch_loop cr d votes ms ss ks = Ok () \<longleftrightarrow>
     (\<forall>(k, s) \<in> set votes. signature_parses cr (signature_flatten s) \<and> key_parses cr (key_bytes k)) \<and>
     dalek_verify_batch cr (ms @ replicate (length votes) (digest_bytes d))
       (ss @ map (signature_flatten \<circ> snd) votes) (ks @ map (key_bytes \<circ> fst) votes)"
  by (induction cr d votes ms ss ks rule: verify_batch_loop.induct) auto

lemma verify_batch_not_Panic [simp]: "verify_batch cr d votes \<noteq> Panic"
proof -
  have "verify_batch_loop cr d votes ms ss ks \<noteq> Panic" for ms ss ks
    by (induction cr d votes ms ss ks rule: verify_batch_loop.induct) auto
  then show ?thesis by (simp add: verify_batch_def)
qed

lemma signature_verify_not_Panic [simp]: "signature_verify cr s d k \<noteq> Panic"
  by (simp add: signature_verify_def)

text \<open>
  Every vote of a batch is checked against the one digest and against its own key: the
  three vectors handed to the batch verifier stay aligned.
\<close>

lemma verify_batch_spec:
  "verify_batch cr d votes = Ok () \<longleftrightarrow>
     (\<forall>(k, s) \<in> set votes. signature_parses cr (signature_flatten s) \<and> key_parses cr (key_bytes k)) \<and>
     dalek_verify_batch cr (replicate (length votes) (digest_bytes d))
       (map (signature_flatten \<circ> snd) votes) (map (key_bytes \<circ> fst) votes)"
  by (simp add: verify_batch_def verify_batch_loop_spec)

lemma decode_encode_key:
  assumes "base64_roundtrips cr" "wf_key k"
  shows "decode_base64_key cr (encode_base64_key cr k) = Ok k"
  using assms by (cases k) (simp add: base64_roundtrips_def wf_key_def decode_base64_key_def encode_base64_key_def)

lemma signature_flatten_new:
  assumes "keypair_parses cr (secret_bytes sk)" "length (dalek_sign cr (secret_bytes sk) (digest_bytes d)) = 64"
    and "signature_new cr d sk = Ok s"
  shows "signature_flatten s = dalek_sign cr (secret_bytes sk) (digest_bytes d)"
proof -
  let ?sig = "dalek_sign cr (secret_bytes sk) (digest_bytes d)"
  from assms have s: "s = Signature (take 32 ?sig) (take 32 (drop 32 ?sig))"
    by (simp add: signature_new_def Let_def)
  have "take 32 (drop 32 ?sig) = drop 32 ?sig" using assms(2) by simp
  then show ?thesis by (simp add: s signature_flatten_def)
qed

end
