(* ===== verification/Config.thy ===== *)
theory Config
  imports Crypto
begin

text \<open>
  The crate \<open>config\<close> (config/src/lib.rs): parameters, addresses and the committee with its
  two stake thresholds. Stakes are \<open>u32\<close> and wrap; \<open>committee_ok\<close> is the range in which
  the thresholds do not. Reading and writing the JSON files (\<open>Import\<close>, \<open>Export\<close>) is I/O and
  is not modelled.
\<close>

section \<open>Data\<close>

type_synonym stake = "32 word"
type_synonym worker_id = nat

datatype config_error = NotInCommittee public_key | UnknownWorker worker_id
  | ImportError string string | ExportError string string

record parameters =
  header_size :: nat
  max_header_delay :: nat
  gc_depth :: nat
  sync_retry_delay :: nat
  sync_retry_nodes :: nat
  batch_size :: nat
  max_batch_delay :: nat

definition default_parameters :: parameters where
  "default_parameters = \<lparr> header_size = 1000, max_header_delay = 100, gc_depth = 50,
     sync_retry_delay = 5000, sync_retry_nodes = 3, batch_size = 500000, max_batch_delay = 100 \<rparr>"

datatype socket_addr = SocketAddr (ip: bytes) (port: nat)

record primary_addresses =
  primary_to_primary :: socket_addr
  worker_to_primary :: socket_addr

record worker_addresses =
  transactions :: socket_addr
  worker_to_worker :: socket_addr
  primary_to_worker :: socket_addr

record authority =
  auth_stake :: stake
  auth_primary :: primary_addresses
  auth_workers :: "(worker_id, worker_addresses) hash_map"

record committee =
  authorities :: "(public_key, authority) btree_map"

section \<open>Operations of the committee\<close>

definition committee_size :: "committee \<Rightarrow> nat" where
  "committee_size c = length (authorities c)"

definition stake_of :: "committee \<Rightarrow> public_key \<Rightarrow> stake" where
  "stake_of c name = (case map_of (authorities c) name of None \<Rightarrow> 0 | Some a \<Rightarrow> auth_stake a)"

definition others_stake :: "committee \<Rightarrow> public_key \<Rightarrow> (public_key \<times> stake) list" where
  "others_stake c myself =
     map (\<lambda>(name, a). (name, auth_stake a)) (filter (\<lambda>(name, a). name \<noteq> myself) (authorities c))"

definition total_votes :: "committee \<Rightarrow> stake" where
  "total_votes c = sum_list (map (auth_stake \<circ> snd) (authorities c))"

definition quorum_threshold :: "committee \<Rightarrow> stake" where
  "quorum_threshold c = 2 * total_votes c div 3 + 1"

definition validity_threshold :: "committee \<Rightarrow> stake" where
  "validity_threshold c = (total_votes c + 2) div 3"

definition primary_of :: "committee \<Rightarrow> public_key \<Rightarrow> (primary_addresses, config_error) outcome" where
  "primary_of c to = (case map_of (authorities c) to of
     None \<Rightarrow> Err (NotInCommittee to) | Some a \<Rightarrow> Ok (auth_primary a))"

definition others_primaries :: "committee \<Rightarrow> public_key \<Rightarrow> (public_key \<times> primary_addresses) list" where
  "others_primaries c myself =
     map (\<lambda>(name, a). (name, auth_primary a)) (filter (\<lambda>(name, a). name \<noteq> myself) (authorities c))"

text \<open>Both failures of \<open>worker\<close> are reported as \<open>NotInCommittee\<close>.\<close>

definition worker_of :: "committee \<Rightarrow> public_key \<Rightarrow> worker_id \<Rightarrow> (worker_addresses, config_error) outcome" where
  "worker_of c to wid = (case find (\<lambda>(name, a). name = to) (authorities c) of
     None \<Rightarrow> Err (NotInCommittee to)
   | Some (_, a) \<Rightarrow>
       (case find (\<lambda>(worker_id, w). worker_id = wid) (auth_workers a) of
          None \<Rightarrow> Err (NotInCommittee to)
        | Some (_, w) \<Rightarrow> Ok w))"

definition our_workers :: "committee \<Rightarrow> public_key \<Rightarrow> (worker_addresses list, config_error) outcome" where
  "our_workers c myself = (case find (\<lambda>(name, a). name = myself) (authorities c) of
     None \<Rightarrow> Err (NotInCommittee myself)
   | Some (_, a) \<Rightarrow> Ok (map snd (auth_workers a)))"

definition others_workers :: "committee \<Rightarrow> public_key \<Rightarrow> worker_id \<Rightarrow> (public_key \<times> worker_addresses) list" where
  "others_workers c myself wid = List.map_filter
     (\<lambda>(name, a). map_option (\<lambda>(_, addresses). (name, addresses))
                    (find (\<lambda>(worker_id, w). worker_id = wid) (auth_workers a)))
     (filter (\<lambda>(name, a). name \<noteq> myself) (authorities c))"

section \<open>Stake of a set of authorities\<close>

abbreviation members :: "committee \<Rightarrow> public_key set" where
  "members c \<equiv> fst ` set (authorities c)"

definition weight_of :: "committee \<Rightarrow> public_key \<Rightarrow> nat" where
  "weight_of c name = unat (stake_of c name)"

definition total_weight :: "committee \<Rightarrow> nat" where
  "total_weight c = sum (weight_of c) (members c)"

text \<open>A committee as the map type gives it, with fewer than \<open>2 ^ 31\<close> votes in all.\<close>

definition committee_ok :: "committee \<Rightarrow> bool" where
  "committee_ok c \<longleftrightarrow> bt_wf (authorities c) \<and> authorities c \<noteq> [] \<and> total_weight c < 2 ^ 31"

lemma committee_ok_distinct: "committee_ok c \<Longrightarrow> distinct (map fst (authorities c))"
  by (simp add: committee_ok_def strict_sorted_iff)

lemma weight_nonmember: "name \<notin> members c \<Longrightarrow> weight_of c name = 0"
proof -
  assume "name \<notin> members c"
  then have "map_of (authorities c) name = None" by (simp add: map_of_eq_None_iff)
  then show ?thesis by (simp add: weight_of_def stake_of_def)
qed

lemma stake_pos_member: "0 < stake_of c name \<Longrightarrow> name \<in> members c"
  using weight_nonmember [of name c] by (cases "name \<in> members c") (simp_all add: weight_of_def unat_eq_0)

lemma auth_stake_weight:
  assumes "bt_wf (authorities c)" "(name, a) \<in> set (authorities c)"
  shows "unat (auth_stake a) = weight_of c name"
  using assms by (simp add: weight_of_def stake_of_def map_of_in_set strict_sorted_iff)

lemma total_weight_sum_list:
  assumes "bt_wf (authorities c)"
  shows "total_weight c = sum_list (map (unat \<circ> auth_stake \<circ> snd) (authorities c))"
proof -
  have d: "distinct (map fst (authorities c))" using assms by (simp add: strict_sorted_iff)
  have "total_weight c = sum_list (map (weight_of c) (map fst (authorities c)))"
    using sum_list_distinct_conv_sum_set [OF d, of "weight_of c"] by (simp add: total_weight_def)
  also have "map (weight_of c) (map fst (authorities c)) = map (unat \<circ> auth_stake \<circ> snd) (authorities c)"
    using auth_stake_weight [OF assms] by (auto simp: comp_def)
  finally show ?thesis .
qed

lemma unat_total_votes:
  assumes "committee_ok c"
  shows "unat (total_votes c) = total_weight c"
proof -
  have "total_weight c = sum_list (map unat (map (auth_stake \<circ> snd) (authorities c)))"
    using assms by (simp add: committee_ok_def total_weight_sum_list comp_assoc)
  moreover have "total_weight c < 2 ^ LENGTH(32)" using assms by (simp add: committee_ok_def)
  ultimately show ?thesis
    by (simp add: total_votes_def unat_sum_list del: map_map)
qed

lemma unat_quorum_threshold:
  assumes "committee_ok c"
  shows "unat (quorum_threshold c) = 2 * total_weight c div 3 + 1"
proof -
  have lt: "total_weight c < 2 ^ 31" using assms by (simp add: committee_ok_def)
  have "unat (2 * total_votes c) = 2 * total_weight c"
    using lt by (simp add: unat_word_ariths unat_total_votes [OF assms])
  then have "unat (2 * total_votes c div 3) = 2 * total_weight c div 3"
    by (simp add: unat_div)
  then show ?thesis using lt by (simp add: quorum_threshold_def unat_word_ariths)
qed

lemma unat_validity_threshold:
  assumes "committee_ok c"
  shows "unat (validity_threshold c) = (total_weight c + 2) div 3"
proof -
  have "unat (total_votes c + 2) = total_weight c + 2"
    using assms by (simp add: unat_word_ariths unat_total_votes [OF assms] committee_ok_def)
  then show ?thesis by (simp add: validity_threshold_def unat_div)
qed

lemma unat_stake_sum:
  assumes "committee_ok c" "distinct names"
  shows "unat (sum_list (map (stake_of c) names)) = sum (weight_of c) (set names)"
proof -
  have "sum (weight_of c) (set names) = sum (weight_of c) (set names \<inter> members c)"
    using weight_nonmember [of _ c] by (intro sum.mono_neutral_right) auto
  also have "\<dots> \<le> total_weight c"
    unfolding total_weight_def by (rule sum_mono2) auto
  finally have le: "sum (weight_of c) (set names) \<le> total_weight c" .
  have eq: "sum_list (map unat (map (stake_of c) names)) = sum (weight_of c) (set names)"
    using assms(2) by (simp add: sum_list_distinct_conv_sum_set weight_of_def comp_def)
  show ?thesis
    using le eq assms(1) by (simp add: unat_sum_list committee_ok_def del: map_map)
qed

lemma weight_inter_members:
  assumes "finite S"
  shows "sum (weight_of c) S = sum (weight_of c) (S \<inter> members c)"
  using assms weight_nonmember [of _ c] by (intro sum.mono_neutral_right) auto

lemma weight_le_total:
  assumes "finite S"
  shows "sum (weight_of c) S \<le> total_weight c"
proof -
  have "sum (weight_of c) (S \<inter> members c) \<le> total_weight c"
    unfolding total_weight_def by (rule sum_mono2) auto
  with weight_inter_members [OF assms] show ?thesis by simp
qed

lemma weight_disjoint:
  assumes "finite S" "finite T" "S \<inter> T = {}"
  shows "sum (weight_of c) S + sum (weight_of c) T \<le> total_weight c"
  using weight_le_total [of "S \<union> T" c] assms by (simp add: sum.union_disjoint)

section \<open>Quorum systems\<close>

text \<open>
  What the protocol needs of the two thresholds. Every lemma about overlapping quorums is
  proved here once and reaches the code's thresholds through the interpretation below.
\<close>

locale quorum_system =
  fixes valid :: "'c \<Rightarrow> bool"
    and members :: "'c \<Rightarrow> 'a set"
    and weight :: "'c \<Rightarrow> 'a \<Rightarrow> nat"
    and quorum :: "'c \<Rightarrow> nat"
    and validity :: "'c \<Rightarrow> nat"
  assumes finite_members: "valid c \<Longrightarrow> finite (members c)"
    and validity_le: "valid c \<Longrightarrow> sum (weight c) (members c) + validity c \<le> 2 * quorum c"
    and quorum_validity: "valid c \<Longrightarrow> sum (weight c) (members c) < quorum c + validity c"
    and quorum_once: "valid c \<Longrightarrow> sum (weight c) (members c) < 2 * quorum c"
begin

definition has_quorum :: "'c \<Rightarrow> 'a set \<Rightarrow> bool" where
  "has_quorum c S \<longleftrightarrow> S \<subseteq> members c \<and> quorum c \<le> sum (weight c) S"

definition has_validity :: "'c \<Rightarrow> 'a set \<Rightarrow> bool" where
  "has_validity c S \<longleftrightarrow> S \<subseteq> members c \<and> validity c \<le> sum (weight c) S"

lemma overlap_weight:
  assumes "valid c" "S \<subseteq> members c" "T \<subseteq> members c"
  shows "sum (weight c) S + sum (weight c) T \<le> sum (weight c) (members c) + sum (weight c) (S \<inter> T)"
proof -
  have fin: "finite S" "finite T"
    using assms finite_members finite_subset by blast+
  have "sum (weight c) S + sum (weight c) T = sum (weight c) (S \<union> T) + sum (weight c) (S \<inter> T)"
    using fin by (simp add: sum.union_inter)
  also have "sum (weight c) (S \<union> T) \<le> sum (weight c) (members c)"
    by (rule sum_mono2) (use assms finite_members in auto)
  finally show ?thesis by simp
qed

lemma quorum_intersection:
  assumes "valid c" "has_quorum c S" "has_quorum c T"
  shows "validity c \<le> sum (weight c) (S \<inter> T)"
  using overlap_weight [OF assms(1), of S T] assms validity_le [OF assms(1)]
  by (auto simp: has_quorum_def)

lemma quorum_meets_validity:
  assumes "valid c" "has_quorum c S" "has_validity c T"
  shows "\<exists>x \<in> S \<inter> T. 0 < weight c x"
proof (rule ccontr)
  assume "\<not> ?thesis"
  then have "sum (weight c) (S \<inter> T) = 0" by simp
  with overlap_weight [OF assms(1), of S T] assms quorum_validity [OF assms(1)]
  show False by (auto simp: has_quorum_def has_validity_def)
qed

lemma disjoint_not_both_quorums:
  assumes "valid c" "has_quorum c S" "T \<subseteq> members c" "S \<inter> T = {}"
  shows "sum (weight c) T < quorum c"
  using overlap_weight [OF assms(1), of S T] assms quorum_once [OF assms(1)]
  by (auto simp: has_quorum_def)

end

interpretation cq: quorum_system committee_ok members weight_of
    "unat \<circ> quorum_threshold" "unat \<circ> validity_threshold"
proof unfold_locales
  fix c :: committee
  assume ok: "committee_ok c"
  note th = unat_quorum_threshold [OF ok] unat_validity_threshold [OF ok] total_weight_def [symmetric]
  show "finite (members c)" by simp
  show "sum (weight_of c) (members c) + (unat \<circ> validity_threshold) c \<le> 2 * (unat \<circ> quorum_threshold) c"
    by (simp add: th)
  show "sum (weight_of c) (members c) < (unat \<circ> quorum_threshold) c + (unat \<circ> validity_threshold) c"
    by (simp add: th)
  show "sum (weight_of c) (members c) < 2 * (unat \<circ> quorum_threshold) c"
    by (simp add: th)
qed

end
