(* ===== verification/F64.thy ===== *)
theory F64
  imports Config Complex_Main
begin

text \<open>
  The \<open>f64\<close> arithmetic behind the attack roles. A finite double is the rational it denotes;
  every operation is the exact one followed by rounding to 53 bits, to nearest, ties to even
  (IEEE 754). Subnormal results, infinities and NaN do not arise for the ratios between 0 and
  1 and the committee sizes these functions are used with, and are not modelled.
\<close>

type_synonym f64 = rat

section \<open>Rounding\<close>

function bit_length :: "int \<Rightarrow> int" where
  "bit_length n = (if n \<le> 0 then 0 else 1 + bit_length (n div 2))"
  by auto
termination by (relation "measure nat") auto

declare bit_length.simps [simp del]

text \<open>The nearest integer to \<open>a / b\<close> for positive \<open>b\<close>, ties to even.\<close>

definition nearest_even :: "int \<Rightarrow> int \<Rightarrow> int" where
  "nearest_even a b =
     (let q = a div b; r = a mod b
      in if 2 * r < b then q else if b < 2 * r then q + 1 else if even q then q else q + 1)"

definition scale :: "int \<Rightarrow> int" where
  "scale k = (if 0 \<le> k then 2 ^ nat k else 1)"

text \<open>A positive \<open>p / q\<close> is scaled by a power of two to an integer part of 53 bits and rounded there.\<close>

definition round_pos :: "int \<Rightarrow> int \<Rightarrow> rat" where
  "round_pos p q =
     (let k0 = 53 - (bit_length p - bit_length q);
          k = (if p * scale k0 div (q * scale (- k0)) < 2 ^ 53 then k0 else k0 - 1)
      in Fract (nearest_even (p * scale k) (q * scale (- k)) * scale (- k)) (scale k))"

definition f64_of :: "rat \<Rightarrow> f64" where
  "f64_of x = (let (p, q) = quotient_of x
     in if p = 0 then 0 else if 0 < p then round_pos p q else - round_pos (- p) q)"

definition f64_mul :: "f64 \<Rightarrow> f64 \<Rightarrow> f64" where
  "f64_mul a b = f64_of (a * b)"

definition f64_add :: "f64 \<Rightarrow> f64 \<Rightarrow> f64" where
  "f64_add a b = f64_of (a + b)"

definition f64_sub :: "f64 \<Rightarrow> f64 \<Rightarrow> f64" where
  "f64_sub a b = f64_of (a - b)"

definition f64_div :: "f64 \<Rightarrow> f64 \<Rightarrow> f64" where
  "f64_div a b = f64_of (a / b)"

text \<open>\<open>x as usize\<close> drops the fraction and saturates at zero; \<open>x.floor() as usize\<close> is the same for finite \<open>x\<close>.\<close>

definition f64_as_nat :: "f64 \<Rightarrow> nat" where
  "f64_as_nat x = nat \<lfloor>x\<rfloor>"

text \<open>\<open>x.round()\<close>: half-way cases away from zero.\<close>

definition f64_round_nat :: "f64 \<Rightarrow> nat" where
  "f64_round_nat x = (if x < 0 then 0 else nat \<lfloor>x + 1 / 2\<rfloor>)"

end
