(* ===== verification/Messages.thy ===== *)
theory Messages
  imports Config
begin

text \<open>
  The messages of the primary (primary/src/messages.rs) and their errors
  (primary/src/error.rs): headers, votes and certificates, the digests that name them and
  the checks a node makes before it uses them.
\<close>

type_synonym round = nat

datatype dag_error = InvalidSignature crypto_error | StoreError | SerializationError
  | InvalidHeaderId | MalformedHeader digest | UnknownAuthority public_key
  | AuthorityReuse public_key | UnexpectedVote digest | CertificateRequiresQuorum
  | HeaderRequiresQuorum digest | TooOld digest round

section \<open>Headers\<close>

record header =
  h_author :: public_key
  h_round :: round
  h_payload :: "(digest, worker_id) btree_map"
  h_parents :: "digest btree_set"
  h_id :: digest
  h_signature :: signature

definition default_header :: header where
  "default_header = \<lparr> h_author = default_key, h_round = 0, h_payload = [], h_parents = [],
     h_id = default_digest, h_signature = default_signature \<rparr>"

text \<open>The bytes fed to the hasher, in order.\<close>

definition payload_entry_bytes :: "digest \<times> worker_id \<Rightarrow> bytes" where
  "payload_entry_bytes p = (case p of (x, y) \<Rightarrow> digest_bytes x @ le_bytes 4 y)"

definition header_preimage :: "header \<Rightarrow> bytes" where
  "header_preimage h = key_bytes (h_author h) @ le_bytes 8 (h_round h) @
     concat (map payload_entry_bytes (h_payload h)) @ concat (map digest_bytes (h_parents h))"

definition header_digest :: "crypto \<Rightarrow> header \<Rightarrow> digest" where
  "header_digest cr h = hash_bytes cr (header_preimage h)"

definition header_new ::
    "crypto \<Rightarrow> secret_key \<Rightarrow> public_key \<Rightarrow> round \<Rightarrow> (digest, worker_id) btree_map \<Rightarrow> digest btree_set
      \<Rightarrow> (header, dag_error) outcome" where
  "header_new cr secret author r payload parents =
     (let h = \<lparr> h_author = author, h_round = r, h_payload = payload, h_parents = parents,
                h_id = default_digest, h_signature = default_signature \<rparr>;
          i = header_digest cr h
      in and_then (outcome_map_err InvalidSignature (request_signature cr secret i))
           (\<lambda>s. Ok (h\<lparr>h_id := i, h_signature := s\<rparr>)))"

text \<open>The loop over \<open>payload.values()\<close>: the first unknown worker id ends it.\<close>

fun check_workers :: "committee \<Rightarrow> header \<Rightarrow> worker_id list \<Rightarrow> (unit, dag_error) outcome" where
  "check_workers c h [] = Ok ()"
| "check_workers c h (w # ws) =
     and_then (outcome_map_err (\<lambda>_. MalformedHeader (h_id h)) (worker_of c (h_author h) w))
       (\<lambda>_. check_workers c h ws)"

definition header_verify :: "crypto \<Rightarrow> committee \<Rightarrow> header \<Rightarrow> (unit, dag_error) outcome" where
  "header_verify cr c h =
     and_then (ensure (header_digest cr h = h_id h) InvalidHeaderId) (\<lambda>_.
     and_then (ensure (0 < stake_of c (h_author h)) (UnknownAuthority (h_author h))) (\<lambda>_.
     and_then (check_workers c h (map snd (h_payload h))) (\<lambda>_.
     outcome_map_err InvalidSignature (signature_verify cr (h_signature h) (h_id h) (h_author h)))))"

section \<open>Votes\<close>

record vote =
  v_id :: digest
  v_round :: round
  v_origin :: public_key
  v_author :: public_key
  v_signature :: signature

definition vote_preimage :: "vote \<Rightarrow> bytes" where
  "vote_preimage v = digest_bytes (v_id v) @ le_bytes 8 (v_round v) @ key_bytes (v_origin v)"

definition vote_digest :: "crypto \<Rightarrow> vote \<Rightarrow> digest" where
  "vote_digest cr v = hash_bytes cr (vote_preimage v)"

definition vote_new ::
    "crypto \<Rightarrow> secret_key \<Rightarrow> header \<Rightarrow> public_key \<Rightarrow> (vote, dag_error) outcome" where
  "vote_new cr secret h author =
     (let v = \<lparr> v_id = h_id h, v_round = h_round h, v_origin = h_author h, v_author = author,
                v_signature = default_signature \<rparr>
      in and_then (outcome_map_err InvalidSignature (request_signature cr secret (vote_digest cr v)))
           (\<lambda>s. Ok (v\<lparr>v_signature := s\<rparr>)))"

definition vote_verify :: "crypto \<Rightarrow> committee \<Rightarrow> vote \<Rightarrow> (unit, dag_error) outcome" where
  "vote_verify cr c v =
     and_then (ensure (0 < stake_of c (v_author v)) (UnknownAuthority (v_author v))) (\<lambda>_.
     outcome_map_err InvalidSignature (signature_verify cr (v_signature v) (vote_digest cr v) (v_author v)))"

section \<open>Certificates\<close>

record certificate =
  c_header :: header
  c_votes :: "(public_key \<times> signature) list"

definition cert_round :: "certificate \<Rightarrow> round" where
  "cert_round x = h_round (c_header x)"

definition cert_origin :: "certificate \<Rightarrow> public_key" where
  "cert_origin x = h_author (c_header x)"

abbreviation cert_parents :: "certificate \<Rightarrow> digest btree_set" where
  "cert_parents x \<equiv> h_parents (c_header x)"

definition genesis :: "committee \<Rightarrow> certificate list" where
  "genesis c = map (\<lambda>name. \<lparr> c_header = default_header\<lparr>h_author := name\<rparr>, c_votes = [] \<rparr>)
     (map fst (authorities c))"

text \<open>\<open>PartialEq\<close> compares the header id, the round and the origin, and nothing else.\<close>

definition cert_eq :: "certificate \<Rightarrow> certificate \<Rightarrow> bool" where
  "cert_eq a b \<longleftrightarrow> h_id (c_header a) = h_id (c_header b) \<and> cert_round a = cert_round b \<and>
     cert_origin a = cert_origin b"

definition cert_preimage :: "certificate \<Rightarrow> bytes" where
  "cert_preimage x = digest_bytes (h_id (c_header x)) @ le_bytes 8 (cert_round x) @ key_bytes (cert_origin x)"

definition cert_digest :: "crypto \<Rightarrow> certificate \<Rightarrow> digest" where
  "cert_digest cr x = hash_bytes cr (cert_preimage x)"

text \<open>The loop over the votes, with \<open>weight\<close> and \<open>used\<close> as accumulators.\<close>

fun weigh_votes ::
    "committee \<Rightarrow> (public_key \<times> signature) list \<Rightarrow> stake \<Rightarrow> public_key set \<Rightarrow> (stake, dag_error) outcome" where
  "weigh_votes c [] weight used = Ok weight"
| "weigh_votes c ((name, _) # votes) weight used =
     and_then (ensure (name \<notin> used) (AuthorityReuse name)) (\<lambda>_.
     and_then (ensure (0 < stake_of c name) (UnknownAuthority name)) (\<lambda>_.
     weigh_votes c votes (weight + stake_of c name) (insert name used)))"

definition cert_verify :: "crypto \<Rightarrow> committee \<Rightarrow> certificate \<Rightarrow> (unit, dag_error) outcome" where
  "cert_verify cr c x =
     (if \<exists>g \<in> set (genesis c). cert_eq g x then Ok ()
      else and_then (header_verify cr c (c_header x)) (\<lambda>_.
           and_then (weigh_votes c (c_votes x) 0 {}) (\<lambda>weight.
           and_then (ensure (quorum_threshold c \<le> weight) CertificateRequiresQuorum) (\<lambda>_.
           outcome_map_err InvalidSignature (verify_batch cr (cert_digest cr x) (c_votes x))))))"

section \<open>Causal order\<close>

text \<open>A sequence in which every parent is in \<open>seen\<close> or the digest of an earlier certificate.\<close>

fun parents_first :: "crypto \<Rightarrow> digest set \<Rightarrow> certificate list \<Rightarrow> bool" where
  "parents_first cr seen [] \<longleftrightarrow> True"
| "parents_first cr seen (x # xs) \<longleftrightarrow>
     set (cert_parents x) \<subseteq> seen \<and> parents_first cr (insert (cert_digest cr x) seen) xs"

definition genesis_digests :: "crypto \<Rightarrow> committee \<Rightarrow> digest set" where
  "genesis_digests cr c = cert_digest cr ` set (genesis c)"

lemma parents_first_snoc:
  "parents_first cr seen (xs @ [x]) \<longleftrightarrow>
     parents_first cr seen xs \<and> set (cert_parents x) \<subseteq> seen \<union> cert_digest cr ` set xs"
  by (induction xs arbitrary: seen) auto

section \<open>Digests bind the content of a message\<close>

text \<open>
  A kind of message whose bytes determine its content. Two messages with one digest then
  have one content, unless the two byte strings are a collision of the hash.
\<close>

locale hashed_message =
  fixes wf :: "'m \<Rightarrow> bool"
    and preimage :: "'m \<Rightarrow> bytes"
    and contents :: "'m \<Rightarrow> 'c"
  assumes preimage_inj: "wf a \<Longrightarrow> wf b \<Longrightarrow> preimage a = preimage b \<Longrightarrow> contents a = contents b"
begin

lemma digest_binds:
  assumes "wf a" "wf b" "hash_bytes cr (preimage a) = hash_bytes cr (preimage b)"
    and "inj_on (hash_bytes cr) (preimage ` {a, b})"
  shows "contents a = contents b"
proof -
  from assms(4,3) have "preimage a = preimage b" by (rule inj_onD) simp_all
  with assms(1,2) show ?thesis by (rule preimage_inj)
qed

end

definition wf_header :: "header \<Rightarrow> bool" where
  "wf_header h \<longleftrightarrow> wf_key (h_author h) \<and> h_round h < 2 ^ 64 \<and>
     (\<forall>(d, w) \<in> set (h_payload h). wf_digest d \<and> w < 2 ^ 32) \<and>
     (\<forall>d \<in> set (h_parents h). wf_digest d) \<and> wf_digest (h_id h)"

definition header_content ::
    "header \<Rightarrow> public_key \<times> round \<times> (digest, worker_id) btree_map \<times> digest btree_set" where
  "header_content h = (h_author h, h_round h, h_payload h, h_parents h)"

definition cert_key :: "certificate \<Rightarrow> digest \<times> round \<times> public_key" where
  "cert_key x = (h_id (c_header x), cert_round x, cert_origin x)"

definition vote_key :: "vote \<Rightarrow> digest \<times> round \<times> public_key" where
  "vote_key v = (v_id v, v_round v, v_origin v)"

lemma cert_eq_key: "cert_eq a b \<longleftrightarrow> cert_key a = cert_key b"
  by (auto simp: cert_eq_def cert_key_def)

lemma u64_bytes_inj: "m < 2 ^ 64 \<Longrightarrow> n < 2 ^ 64 \<Longrightarrow> le_bytes 8 m = le_bytes 8 n \<Longrightarrow> m = n"
  by (rule le_bytes_inj [of _ 8]) simp_all

lemma u32_bytes_inj: "m < 2 ^ 32 \<Longrightarrow> n < 2 ^ 32 \<Longrightarrow> le_bytes 4 m = le_bytes 4 n \<Longrightarrow> m = n"
  by (rule le_bytes_inj [of _ 4]) simp_all

lemma payload_entries_inj:
  assumes "\<forall>(d, w) \<in> set xs. wf_digest d \<and> w < 2 ^ 32" "\<forall>(d, w) \<in> set ys. wf_digest d \<and> w < 2 ^ 32"
    and "concat (map payload_entry_bytes xs) = concat (map payload_entry_bytes ys)"
  shows "xs = ys"
proof (rule concat_map_inj [where P = "\<lambda>(d, w). wf_digest d \<and> w < 2 ^ 32" and k = 36])
  show "\<forall>x \<in> set xs. (case x of (d, w) \<Rightarrow> wf_digest d \<and> w < 2 ^ 32) \<and> length (payload_entry_bytes x) = 36"
    using assms(1) by (auto simp: payload_entry_bytes_def wf_digest_def)
  show "\<forall>x \<in> set ys. (case x of (d, w) \<Rightarrow> wf_digest d \<and> w < 2 ^ 32) \<and> length (payload_entry_bytes x) = 36"
    using assms(2) by (auto simp: payload_entry_bytes_def wf_digest_def)
  show "concat (map payload_entry_bytes xs) = concat (map payload_entry_bytes ys)" by (rule assms(3))
  fix x y :: "digest \<times> worker_id"
  assume "case x of (d, w) \<Rightarrow> wf_digest d \<and> w < 2 ^ 32" "case y of (d, w) \<Rightarrow> wf_digest d \<and> w < 2 ^ 32"
    and "payload_entry_bytes x = payload_entry_bytes y"
  then show "x = y"
    by (cases x; cases y)
      (auto simp: payload_entry_bytes_def wf_digest_def append_eq_append_conv digest.expand u32_bytes_inj)
qed simp

lemma parents_inj:
  assumes "\<forall>d \<in> set xs. wf_digest d" "\<forall>d \<in> set ys. wf_digest d"
    and "concat (map digest_bytes xs) = concat (map digest_bytes ys)"
  shows "xs = ys"
  by (rule concat_map_inj [where P = wf_digest and k = 32, OF _ _ _ _ assms(3)])
    (use assms in \<open>auto simp: wf_digest_def digest.expand\<close>)

lemma length_payload_bytes:
  "\<forall>(d, w) \<in> set xs. wf_digest d \<and> w < 2 ^ 32 \<Longrightarrow> length (concat (map payload_entry_bytes xs)) = 36 * length xs"
  by (induction xs) (auto simp: payload_entry_bytes_def wf_digest_def)

lemma header_preimage_inj:
  assumes "wf_header a" "wf_header b" "length (h_payload a) = length (h_payload b)"
    and eq: "header_preimage a = header_preimage b"
  shows "header_content a = header_content b"
proof -
  have len: "length (concat (map payload_entry_bytes (h_payload a))) =
      length (concat (map payload_entry_bytes (h_payload b)))"
    using assms(1-3) length_payload_bytes by (simp add: wf_header_def)
  from eq have parts: "key_bytes (h_author a) = key_bytes (h_author b)"
      "le_bytes 8 (h_round a) = le_bytes 8 (h_round b)"
      "concat (map payload_entry_bytes (h_payload a)) = concat (map payload_entry_bytes (h_payload b))"
      "concat (map digest_bytes (h_parents a)) = concat (map digest_bytes (h_parents b))"
    using assms(1,2) len by (auto simp: header_preimage_def wf_header_def wf_key_def append_eq_append_conv)
  then show ?thesis
    using assms(1,2) u64_bytes_inj payload_entries_inj parents_inj
    by (auto simp: header_content_def wf_header_def public_key.expand)
qed

interpretation hh: hashed_message "\<lambda>h. wf_header h \<and> length (h_payload h) = n" header_preimage header_content
  for n
  by unfold_locales (auto intro: header_preimage_inj)

interpretation hv: hashed_message
  "\<lambda>v. wf_digest (v_id v) \<and> v_round v < 2 ^ 64 \<and> wf_key (v_origin v)" vote_preimage vote_key
  by unfold_locales
    (auto simp: vote_preimage_def vote_key_def wf_digest_def wf_key_def append_eq_append_conv
      digest.expand public_key.expand u64_bytes_inj)

interpretation hc: hashed_message
  "\<lambda>x. wf_digest (h_id (c_header x)) \<and> cert_round x < 2 ^ 64 \<and> wf_key (cert_origin x)" cert_preimage cert_key
  by unfold_locales
    (auto simp: cert_preimage_def cert_key_def wf_digest_def wf_key_def append_eq_append_conv
      digest.expand public_key.expand u64_bytes_inj)

section \<open>What the checks establish\<close>

lemma weigh_votes_Ok:
  "weigh_votes c votes w used = Ok w' \<longleftrightarrow>
     distinct (map fst votes) \<and> set (map fst votes) \<inter> used = {} \<and>
     (\<forall>name \<in> set (map fst votes). 0 < stake_of c name) \<and>
     w' = w + sum_list (map (stake_of c) (map fst votes))"
proof (induction c votes w used rule: weigh_votes.induct)
  case (1 c weight used)
  then show ?case by auto
next
  case (2 c name s votes weight used)
  show ?case
  proof (cases "name \<notin> used \<and> 0 < stake_of c name")
    case True
    with "2.IH" show ?thesis by (auto simp: ensure_def add.assoc)
  next
    case False
    then show ?thesis by (auto simp: ensure_def)
  qed
qed

lemma weigh_votes_not_Panic [simp]: "weigh_votes c votes w used \<noteq> Panic"
  by (induction c votes w used rule: weigh_votes.induct) (auto simp: ensure_def)

lemma worker_of_not_Panic [simp]: "worker_of c to wid \<noteq> Panic"
  by (simp add: worker_of_def split: option.splits prod.splits)

lemma check_workers_not_Panic [simp]: "check_workers c h ws \<noteq> Panic"
  by (induction c h ws rule: check_workers.induct) (auto simp: and_then_Panic)

lemma check_workers_Ok:
  "check_workers c h ws = Ok () \<longleftrightarrow> (\<forall>w \<in> set ws. \<exists>a. worker_of c (h_author h) w = Ok a)"
  by (induction c h ws rule: check_workers.induct) auto

lemma header_verify_Ok:
  "header_verify cr c h = Ok () \<longleftrightarrow>
     header_digest cr h = h_id h \<and> 0 < stake_of c (h_author h) \<and>
     (\<forall>w \<in> snd ` set (h_payload h). \<exists>a. worker_of c (h_author h) w = Ok a) \<and>
     signature_verify cr (h_signature h) (h_id h) (h_author h) = Ok ()"
  by (auto simp: header_verify_def check_workers_Ok)

text \<open>The authorities whose votes a certificate carries.\<close>

definition cert_voters :: "certificate \<Rightarrow> public_key set" where
  "cert_voters x = fst ` set (c_votes x)"

definition is_genesis :: "committee \<Rightarrow> certificate \<Rightarrow> bool" where
  "is_genesis c x \<longleftrightarrow> (\<exists>g \<in> set (genesis c). cert_eq g x)"

lemma is_genesis_iff:
  "is_genesis c x \<longleftrightarrow>
     h_id (c_header x) = default_digest \<and> cert_round x = 0 \<and> cert_origin x \<in> members c"
  by (simp add: is_genesis_def genesis_def cert_eq_def cert_round_def cert_origin_def default_header_def image_iff)
    (metis)

lemma cert_verify_not_Panic [simp]: "cert_verify cr c x \<noteq> Panic"
  by (simp add: cert_verify_def header_verify_def and_then_Panic)

lemma cert_verify_Ok_iff:
  assumes "committee_ok c"
  shows "cert_verify cr c x = Ok () \<longleftrightarrow>
    is_genesis c x \<or>
    (header_verify cr c (c_header x) = Ok () \<and> distinct (map fst (c_votes x)) \<and>
     (\<forall>name \<in> cert_voters x. 0 < stake_of c name) \<and>
     cq.has_quorum c (cert_voters x) \<and>
     verify_batch cr (cert_digest cr x) (c_votes x) = Ok ())"
proof -
  let ?names = "map fst (c_votes x)"
  have q: "quorum_threshold c \<le> sum_list (map (stake_of c) ?names) \<longleftrightarrow>
      unat (quorum_threshold c) \<le> sum (weight_of c) (cert_voters x)" if "distinct ?names"
    using unat_stake_sum [OF assms that] by (simp add: word_le_nat_alt cert_voters_def)
  have m: "cert_voters x \<subseteq> members c" if "\<forall>name \<in> cert_voters x. 0 < stake_of c name"
    using that stake_pos_member by blast
  show ?thesis
    using q m
    by (auto simp: cert_verify_def is_genesis_def [symmetric] weigh_votes_Ok cq.has_quorum_def
        cert_voters_def simp del: map_map)
qed

text \<open>
  \<open>Certificate::verify\<close> accepts a certificate exactly when it has the id, round
  and origin of a genesis certificate, or its header is valid, its voters are distinct
  members that carry a quorum of the stake, and the batch of signatures verifies. The stakes
  are added as wrapping \<open>u32\<close>, the quorum is stated of their exact sum.
\<close>

theorem cert_verify_Ok:
  assumes "committee_ok c"
  shows "cert_verify cr c x = Ok () \<longleftrightarrow>
    is_genesis c x \<or>
    (header_verify cr c (c_header x) = Ok () \<and> distinct (map fst (c_votes x)) \<and>
     (\<forall>name \<in> cert_voters x. 0 < stake_of c name) \<and>
     cq.has_quorum c (cert_voters x) \<and>
     verify_batch cr (cert_digest cr x) (c_votes x) = Ok ())"
  by (rule cert_verify_Ok_iff [OF assms])

text \<open>
  C26: any two valid certificates beyond the genesis were signed
  by common authorities that carry at least the validity threshold of the stake (\<open>f + 1\<close>), so
  at least one honest authority signed both.
\<close>

theorem valid_certificates_share_voters:
  assumes "committee_ok c" "cert_verify cr c x = Ok ()" "cert_verify cr c y = Ok ()"
    and "\<not> is_genesis c x" "\<not> is_genesis c y"
  shows "unat (validity_threshold c) \<le> sum (weight_of c) (cert_voters x \<inter> cert_voters y)"
  using cq.quorum_intersection [OF assms(1), of "cert_voters x" "cert_voters y"] assms
  by (simp add: cert_verify_Ok_iff)

text \<open>
  Among headers with equally many batches, the id determines author, round,
  payload and parents, unless the two byte strings collide under the hash.
\<close>

theorem header_id_binds:
  assumes "wf_header a" "wf_header b" "length (h_payload a) = length (h_payload b)"
    and "inj_on (hash_bytes cr) {header_preimage a, header_preimage b}"
    and "header_digest cr a = header_digest cr b"
  shows "header_content a = header_content b"
  using hh.digest_binds [of a "length (h_payload b)" b cr] assms by (simp add: header_digest_def)

text \<open>
  The digest of a certificate determines its header id, round and
  origin unless the hash collides, so the DAG and the store, which are keyed by it, never
  confuse two certificates that differ under \<open>PartialEq\<close>.
\<close>

theorem certificate_digest_binds:
  assumes "wf_header (c_header x)" "wf_header (c_header y)"
    and "inj_on (hash_bytes cr) {cert_preimage x, cert_preimage y}"
    and "cert_digest cr x = cert_digest cr y"
  shows "cert_eq x y"
  using hc.digest_binds [of x y cr] assms
  by (simp add: cert_digest_def cert_eq_key wf_header_def cert_round_def cert_origin_def)

end
