(* ===== verification/Consensus.thy ===== *)
theory Consensus
  imports Messages
begin

text \<open>
  The Tusk consensus (consensus/src/lib.rs): the local DAG, its cleaning, the leaders and the
  order in which certificates are output. \<open>None\<close> is a failed \<open>expect\<close>, which ends the task.
  The crate is compiled without \<open>cfg(test)\<close>, so the coin of a round is the round.
\<close>

section \<open>State\<close>

type_synonym round_map = "(public_key, digest \<times> certificate) hash_map"
type_synonym dag = "(round, round_map) hash_map"

record consensus_state =
  last_committed_round :: round
  last_committed :: "(public_key, round) hash_map"
  dag :: dag

definition state_new :: "crypto \<Rightarrow> certificate list \<Rightarrow> consensus_state" where
  "state_new cr gen =
     (let g = hm_collect (map (\<lambda>x. (cert_origin x, (cert_digest cr x, x))) gen)
      in \<lparr> last_committed_round = 0,
           last_committed = hm_collect (map (\<lambda>(x, (_, y)). (x, cert_round y)) g),
           dag = [(0, g)] \<rparr>)"

text \<open>One round of the loop over \<open>last_committed\<close>: the nested \<open>retain\<close> for one authority.\<close>

definition retain_authority :: "round \<Rightarrow> round \<Rightarrow> public_key \<Rightarrow> round \<Rightarrow> dag \<Rightarrow> dag" where
  "retain_authority depth lcr name rd d = List.map_filter
     (\<lambda>(r, auths). let auths' = hm_retain (\<lambda>n _. n \<noteq> name \<or> rd \<le> r) auths
                   in if auths' \<noteq> [] \<and> lcr \<le> u64_add r depth then Some (r, auths') else None) d"

definition state_update :: "consensus_state \<Rightarrow> certificate \<Rightarrow> round \<Rightarrow> consensus_state" where
  "state_update s x depth =
     (let lc = (case map_of (last_committed s) (cert_origin x) of
                  Some r \<Rightarrow> AList.update (cert_origin x) (max r (cert_round x)) (last_committed s)
                | None \<Rightarrow> AList.update (cert_origin x) (cert_round x) (last_committed s));
          lcr = fold max (map snd lc) 0
      in \<lparr> last_committed_round = lcr, last_committed = lc,
           dag = foldl (\<lambda>d (name, rd). retain_authority depth lcr name rd d) (dag s) lc \<rparr>)"

section \<open>Leaders\<close>

text \<open>Round robin over the sorted keys, for a committee with at least one authority.\<close>

definition leader_name :: "committee \<Rightarrow> round \<Rightarrow> public_key" where
  "leader_name c r = sort (map fst (authorities c)) ! (r mod committee_size c)"

definition leader_at :: "committee \<Rightarrow> round \<Rightarrow> dag \<Rightarrow> (digest \<times> certificate) option" where
  "leader_at c r d = (case map_of d r of None \<Rightarrow> None | Some m \<Rightarrow> map_of m (leader_name c r))"

text \<open>The loop of \<open>linked\<close> over the rounds, newest first.\<close>

fun linked_loop :: "dag \<Rightarrow> certificate list \<Rightarrow> round list \<Rightarrow> certificate list option" where
  "linked_loop d parents [] = Some parents"
| "linked_loop d parents (r # rs) = (case map_of d r of
     None \<Rightarrow> None
   | Some m \<Rightarrow> linked_loop d
       (map (\<lambda>(_, _, x). x) (filter (\<lambda>(_, digest, _). \<exists>x \<in> set parents. digest \<in> set (cert_parents x)) m)) rs)"

definition linked :: "certificate \<Rightarrow> certificate \<Rightarrow> dag \<Rightarrow> bool option" where
  "linked leader prev_leader d =
     map_option (\<lambda>ps. \<exists>p \<in> set ps. cert_eq p prev_leader)
       (linked_loop d [leader] (rev [cert_round prev_leader ..< cert_round leader]))"

fun order_leaders_loop ::
    "committee \<Rightarrow> dag \<Rightarrow> certificate list \<Rightarrow> certificate \<Rightarrow> round list \<Rightarrow> certificate list option" where
  "order_leaders_loop c d to_commit leader [] = Some to_commit"
| "order_leaders_loop c d to_commit leader (r # rs) = (case leader_at c r d of
     None \<Rightarrow> order_leaders_loop c d to_commit leader rs
   | Some (_, prev_leader) \<Rightarrow> (case linked leader prev_leader d of
       None \<Rightarrow> None
     | Some True \<Rightarrow> order_leaders_loop c d (to_commit @ [prev_leader]) prev_leader rs
     | Some False \<Rightarrow> order_leaders_loop c d to_commit leader rs))"

definition leader_rounds :: "round \<Rightarrow> round \<Rightarrow> round list" where
  "leader_rounds lcr r = step_by_2 (rev [u64_add lcr 2 ..< r])"

definition order_leaders :: "committee \<Rightarrow> certificate \<Rightarrow> consensus_state \<Rightarrow> certificate list option" where
  "order_leaders c leader s =
     order_leaders_loop c (dag s) [leader] leader (leader_rounds (last_committed_round s) (cert_round leader))"

section \<open>Flattening a sub-DAG\<close>

definition already_committed :: "consensus_state \<Rightarrow> certificate \<Rightarrow> bool" where
  "already_committed s x = (case map_of (last_committed s) (cert_origin x) of
     Some r \<Rightarrow> cert_round x \<le> r | None \<Rightarrow> False)"

text \<open>The parents found in the DAG, by descending digest.\<close>

definition find_parent :: "dag \<Rightarrow> certificate \<Rightarrow> digest \<Rightarrow> (digest \<times> certificate) option" where
  "find_parent d x parent_digest = (case map_of d (u64_sub (cert_round x) 1) of
     None \<Rightarrow> None
   | Some m \<Rightarrow> find (\<lambda>(dg, _). dg = parent_digest) (map snd m))"

definition dag_parents :: "crypto \<Rightarrow> dag \<Rightarrow> certificate \<Rightarrow> certificate list" where
  "dag_parents cr d x =
     map snd (sort_key (\<lambda>(_, y). Down (cert_digest cr y)) (List.map_filter (find_parent d x) (cert_parents x)))"

fun fold_option :: "('a \<Rightarrow> 'b \<Rightarrow> 'b option) \<Rightarrow> 'a list \<Rightarrow> 'b \<Rightarrow> 'b option" where
  "fold_option f [] acc = Some acc"
| "fold_option f (x # xs) acc = (case f x acc of None \<Rightarrow> None | Some acc' \<Rightarrow> fold_option f xs acc')"

text \<open>
  \<open>traverse\<close> returns \<open>None\<close> when the fuel is spent; \<open>Suc (cert_round x)\<close> is enough, since a
  parent is one round below (\<open>traverse_total\<close>).
\<close>

fun traverse ::
    "nat \<Rightarrow> crypto \<Rightarrow> consensus_state \<Rightarrow> certificate \<Rightarrow> digest set \<times> certificate list
      \<Rightarrow> (digest set \<times> certificate list) option" where
  "traverse 0 cr s x vo = None"
| "traverse (Suc n) cr s x vo =
     (let digest = cert_digest cr x
      in if digest \<in> fst vo then Some vo
         else if already_committed s x then Some vo
         else map_option (\<lambda>(visited, ordered). (insert digest visited, ordered @ [x]))
                (fold_option (traverse n cr s) (dag_parents cr (dag s) x) vo))"

definition order_dag :: "crypto \<Rightarrow> round \<Rightarrow> certificate \<Rightarrow> consensus_state \<Rightarrow> certificate list option" where
  "order_dag cr depth leader s =
     map_option (\<lambda>(_, ordered).
         sort_key (\<lambda>x. (cert_round x, Down (cert_digest cr x)))
           (filter (\<lambda>x. last_committed_round s \<le> u64_add (cert_round x) depth) ordered))
       (traverse (Suc (cert_round leader)) cr s leader ({}, []))"

section \<open>The main loop\<close>

text \<open>The loop over the leaders, oldest first, with the sequence as accumulator.\<close>

fun commit_leaders ::
    "crypto \<Rightarrow> round \<Rightarrow> certificate list \<Rightarrow> consensus_state \<Rightarrow> certificate list
      \<Rightarrow> (consensus_state \<times> certificate list) option" where
  "commit_leaders cr depth [] s sequence = Some (s, sequence)"
| "commit_leaders cr depth (leader # leaders) s sequence = (case order_dag cr depth leader s of
     None \<Rightarrow> None
   | Some xs \<Rightarrow> commit_leaders cr depth leaders (foldl (\<lambda>s x. state_update s x depth) s xs) (sequence @ xs))"

definition dag_insert :: "crypto \<Rightarrow> certificate \<Rightarrow> dag \<Rightarrow> dag" where
  "dag_insert cr x d = hm_entry (cert_round x) [] (AList.update (cert_origin x) (cert_digest cr x, x)) d"

definition leader_support :: "committee \<Rightarrow> digest \<Rightarrow> round_map \<Rightarrow> stake" where
  "leader_support c leader_digest m =
     sum_list (map (\<lambda>(_, _, x). stake_of c (cert_origin x))
       (filter (\<lambda>(_, _, x). leader_digest \<in> set (cert_parents x)) m))"

text \<open>One certificate received from the primary: the new state and the sequence output.\<close>

definition consensus_step ::
    "crypto \<Rightarrow> committee \<Rightarrow> round \<Rightarrow> consensus_state \<Rightarrow> certificate
      \<Rightarrow> (consensus_state \<times> certificate list) option" where
  "consensus_step cr c depth s0 x =
     (let s = s0\<lparr>dag := dag_insert cr x (dag s0)\<rparr>;
          r = u64_sub (cert_round x) 1
      in if r mod 2 \<noteq> 0 \<or> r < 4 then Some (s, [])
         else let leader_round = r - 2
         in if leader_round \<le> last_committed_round s then Some (s, [])
            else case leader_at c leader_round (dag s) of
              None \<Rightarrow> Some (s, [])
            | Some (leader_digest, leader) \<Rightarrow>
              (case map_of (dag s) (r - 1) of
                 None \<Rightarrow> None
               | Some children \<Rightarrow>
                   if leader_support c leader_digest children < validity_threshold c then Some (s, [])
                   else case order_leaders c leader s of
                          None \<Rightarrow> None
                        | Some leaders \<Rightarrow> commit_leaders cr depth (rev leaders) s []))"

fun consensus_run ::
    "crypto \<Rightarrow> committee \<Rightarrow> round \<Rightarrow> consensus_state \<Rightarrow> certificate list
      \<Rightarrow> (consensus_state \<times> certificate list) option" where
  "consensus_run cr c depth s [] = Some (s, [])"
| "consensus_run cr c depth s (x # xs) = (case consensus_step cr c depth s x of
     None \<Rightarrow> None
   | Some (s1, o1) \<Rightarrow> (case consensus_run cr c depth s1 xs of
       None \<Rightarrow> None
     | Some (s2, o2) \<Rightarrow> Some (s2, o1 @ o2)))"

definition consensus_start :: "crypto \<Rightarrow> committee \<Rightarrow> consensus_state" where
  "consensus_start cr c = state_new cr (genesis c)"

section \<open>Well-formed DAGs\<close>

definition round_map_wf :: "crypto \<Rightarrow> round \<Rightarrow> round_map \<Rightarrow> bool" where
  "round_map_wf cr r m \<longleftrightarrow> hm_wf m \<and>
     (\<forall>(n, d, x) \<in> set m. cert_round x = r \<and> cert_origin x = n \<and> d = cert_digest cr x)"

definition dag_wf :: "crypto \<Rightarrow> dag \<Rightarrow> bool" where
  "dag_wf cr d \<longleftrightarrow> hm_wf d \<and> (\<forall>(r, m) \<in> set d. round_map_wf cr r m)"

text \<open>The certificates of a DAG.\<close>

definition dag_certs :: "dag \<Rightarrow> certificate set" where
  "dag_certs d = {x. \<exists>r m n dg. (r, m) \<in> set d \<and> (n, dg, x) \<in> set m}"

lemma dag_wf_nil [simp]: "dag_wf cr []"
  by (simp add: dag_wf_def)

lemma round_map_wf_nil [simp]: "round_map_wf cr r []"
  by (simp add: round_map_wf_def)

lemma dag_wf_round: "dag_wf cr d \<Longrightarrow> map_of d r = Some m \<Longrightarrow> round_map_wf cr r m"
  by (auto simp: dag_wf_def dest!: map_of_SomeD)

lemma round_map_entry:
  "round_map_wf cr r m \<Longrightarrow> (n, dg, x) \<in> set m \<Longrightarrow> cert_round x = r \<and> cert_origin x = n \<and> dg = cert_digest cr x"
  by (auto simp: round_map_wf_def)

lemma dag_certs_lookup: "map_of d r = Some m \<Longrightarrow> (n, dg, x) \<in> set m \<Longrightarrow> x \<in> dag_certs d"
  by (auto simp: dag_certs_def dest!: map_of_SomeD)

lemma dag_slot:
  assumes "dag_wf cr d" "x \<in> dag_certs d"
  obtains m where "map_of d (cert_round x) = Some m" "(cert_origin x, cert_digest cr x, x) \<in> set m" "hm_wf m"
proof -
  from assms(2) obtain r m n dg where m: "(r, m) \<in> set d" "(n, dg, x) \<in> set m"
    by (auto simp: dag_certs_def)
  with assms(1) have wf: "hm_wf d" "round_map_wf cr r m" by (auto simp: dag_wf_def)
  have e: "cert_round x = r" "cert_origin x = n" "dg = cert_digest cr x"
    using round_map_entry [OF wf(2) m(2)] by simp_all
  have "map_of d r = Some m" using m(1) wf(1) by (simp add: map_of_in_set)
  then show thesis using that [of m] m(2) e wf(2) by (auto simp: round_map_wf_def)
qed

text \<open>One certificate per authority and round.\<close>

lemma dag_certs_unique:
  assumes "dag_wf cr d" "x \<in> dag_certs d" "y \<in> dag_certs d"
    and "cert_round x = cert_round y" "cert_origin x = cert_origin y"
  shows "x = y"
proof -
  obtain m where m: "map_of d (cert_round x) = Some m" "(cert_origin x, cert_digest cr x, x) \<in> set m" "hm_wf m"
    using assms(1,2) by (rule dag_slot)
  obtain m' where m': "map_of d (cert_round y) = Some m'" "(cert_origin y, cert_digest cr y, y) \<in> set m'"
    using assms(1,3) by (rule dag_slot)
  from m m' assms(4,5) have "(cert_origin x, cert_digest cr y, y) \<in> set m" by simp
  with m(2,3) show ?thesis using eq_key_imp_eq_value by fastforce
qed

lemma dag_wf_insert:
  assumes "dag_wf cr d"
  shows "dag_wf cr (dag_insert cr x d)" and "dag_certs (dag_insert cr x d) \<subseteq> insert x (dag_certs d)"
proof -
  let ?m = "case map_of d (cert_round x) of None \<Rightarrow> [] | Some m \<Rightarrow> m"
  let ?m' = "AList.update (cert_origin x) (cert_digest cr x, x) ?m"
  have wfm: "round_map_wf cr (cert_round x) ?m"
    using dag_wf_round [OF assms] by (auto split: option.splits)
  then have hm: "hm_wf ?m" by (simp add: round_map_wf_def)
  have eq: "dag_insert cr x d = AList.update (cert_round x) ?m' d"
    by (simp add: dag_insert_def hm_entry_def split: option.splits)
  have set': "set ?m' \<subseteq> insert (cert_origin x, cert_digest cr x, x) (set ?m)"
    by (rule set_update_subset)
  have wfm': "round_map_wf cr (cert_round x) ?m'"
    unfolding round_map_wf_def
  proof (intro conjI ballI, goal_cases)
    case 1
    show ?case using hm by simp
  next
    case (2 e)
    with set' have "e = (cert_origin x, cert_digest cr x, x) \<or> e \<in> set ?m" by auto
    then show ?case using wfm by (auto simp: round_map_wf_def)
  qed
  have setd: "set (AList.update (cert_round x) ?m' d) \<subseteq> insert (cert_round x, ?m') (set d)"
    by (rule set_update_subset)
  show "dag_wf cr (dag_insert cr x d)"
    unfolding eq dag_wf_def using assms setd wfm' by (auto simp: dag_wf_def)
  have "set ?m \<subseteq> {(n, dg, y). y \<in> dag_certs d}"
    by (cases "map_of d (cert_round x)") (auto intro: dag_certs_lookup)
  with set' have "set ?m' \<subseteq> {(n, dg, y). y \<in> insert x (dag_certs d)}" by auto
  moreover have "set m \<subseteq> {(n, dg, y). y \<in> dag_certs d}" if "(r, m) \<in> set d" for r m
    using that by (auto simp: dag_certs_def)
  ultimately have "set m \<subseteq> {(n, dg, y). y \<in> insert x (dag_certs d)}" if "(r, m) \<in> set (dag_insert cr x d)" for r m
    using that setd unfolding eq by blast
  then show "dag_certs (dag_insert cr x d) \<subseteq> insert x (dag_certs d)"
    by (fastforce simp: dag_certs_def [of "dag_insert cr x d"])
qed

lemma dag_insert_certs: "x \<in> dag_certs (dag_insert cr x d)"
proof (rule dag_certs_lookup)
  show "map_of (dag_insert cr x d) (cert_round x) = Some (AList.update (cert_origin x) (cert_digest cr x, x)
      (case map_of d (cert_round x) of None \<Rightarrow> [] | Some m \<Rightarrow> m))"
    by (simp add: dag_insert_def map_of_entry)
  show "(cert_origin x, cert_digest cr x, x) \<in> set (AList.update (cert_origin x) (cert_digest cr x, x)
      (case map_of d (cert_round x) of None \<Rightarrow> [] | Some m \<Rightarrow> m))"
    by (rule map_of_SomeD) simp
qed

section \<open>Cleaning\<close>

lemma map_of_filter_map:
  "hm_wf m \<Longrightarrow> map_of (List.map_filter (\<lambda>(k, v). map_option (Pair k) (f k v)) m) k =
     (case map_of m k of None \<Rightarrow> None | Some v \<Rightarrow> f k v)"
proof (induction m)
  case Nil
  then show ?case by (simp add: List.map_filter_def)
next
  case (Cons kv m)
  obtain k' v where kv: "kv = (k', v)" by (cases kv)
  have "map_of m k' = None" using Cons.prems kv by (simp add: map_of_eq_None_iff)
  with Cons kv show ?case
    by (cases "f k' v") (auto simp: List.map_filter_def split: option.splits)
qed

definition retain_round :: "round \<Rightarrow> round \<Rightarrow> public_key \<Rightarrow> round \<Rightarrow> round \<Rightarrow> round_map \<Rightarrow> round_map option" where
  "retain_round depth lcr name rd r m =
     (let m' = hm_retain (\<lambda>n _. n \<noteq> name \<or> rd \<le> r) m
      in if m' \<noteq> [] \<and> lcr \<le> u64_add r depth then Some m' else None)"

lemma retain_authority_alt:
  "retain_authority depth lcr name rd d =
     List.map_filter (\<lambda>(r, m). map_option (Pair r) (retain_round depth lcr name rd r m)) d"
  unfolding retain_authority_def retain_round_def
  by (rule arg_cong [where f = "\<lambda>f. List.map_filter f d"]) (auto simp: Let_def)

lemma map_of_retain_authority:
  "hm_wf d \<Longrightarrow> map_of (retain_authority depth lcr name rd d) r =
     (case map_of d r of None \<Rightarrow> None | Some m \<Rightarrow> retain_round depth lcr name rd r m)"
  by (simp add: retain_authority_alt map_of_filter_map)

lemma hm_wf_filter_map:
  "hm_wf m \<Longrightarrow> hm_wf (List.map_filter (\<lambda>(k, v). map_option (Pair k) (f k v)) m)"
proof (induction m)
  case Nil
  then show ?case by (simp add: List.map_filter_def)
next
  case (Cons kv m)
  obtain k v where kv: "kv = (k, v)" by (cases kv)
  have "fst ` set (List.map_filter (\<lambda>(k, v). map_option (Pair k) (f k v)) m) \<subseteq> fst ` set m"
    by (force simp: in_map_filter)
  with Cons kv show ?case by (cases "f k v") (auto simp: List.map_filter_simps)
qed

lemma hm_wf_retain_authority: "hm_wf d \<Longrightarrow> hm_wf (retain_authority depth lcr name rd d)"
  by (simp add: retain_authority_alt hm_wf_filter_map)

lemma dag_wf_retain:
  assumes "dag_wf cr d"
  shows "dag_wf cr (retain_authority depth lcr name rd d)"
    and "dag_certs (retain_authority depth lcr name rd d) \<subseteq> dag_certs d"
proof -
  have wf: "hm_wf d" using assms by (simp add: dag_wf_def)
  have "round_map_wf cr r m" if m: "(r, m) \<in> set (retain_authority depth lcr name rd d)" for r m
  proof -
    from m wf have "map_of (retain_authority depth lcr name rd d) r = Some m"
      using hm_wf_retain_authority map_of_in_set by metis
    then obtain m0 where m0: "map_of d r = Some m0" "retain_round depth lcr name rd r m0 = Some m"
      by (auto simp: map_of_retain_authority [OF wf] split: option.splits)
    from dag_wf_round [OF assms m0(1)] m0(2) show ?thesis
      by (auto simp: round_map_wf_def retain_round_def Let_def set_hm_retain split: if_splits)
  qed
  then show "dag_wf cr (retain_authority depth lcr name rd d)"
    using hm_wf_retain_authority [OF wf] by (auto simp: dag_wf_def)
  show "dag_certs (retain_authority depth lcr name rd d) \<subseteq> dag_certs d"
  proof
    fix x
    assume "x \<in> dag_certs (retain_authority depth lcr name rd d)"
    then obtain r m n dg where "(r, m) \<in> set d" "(n, dg, x) \<in> set (hm_retain (\<lambda>n _. n \<noteq> name \<or> rd \<le> r) m)"
      by (auto simp: dag_certs_def retain_authority_def in_map_filter Let_def split: if_splits)
    then show "x \<in> dag_certs d" by (auto simp: dag_certs_def hm_retain_def)
  qed
qed

lemma dag_wf_retain_all:
  "dag_wf cr d \<Longrightarrow> dag_wf cr (foldl (\<lambda>d (name, rd). retain_authority depth lcr name rd d) d lc) \<and>
     dag_certs (foldl (\<lambda>d (name, rd). retain_authority depth lcr name rd d) d lc) \<subseteq> dag_certs d"
proof (induction lc arbitrary: d)
  case Nil
  then show ?case by simp
next
  case (Cons nr lc)
  obtain n r where nr: "nr = (n, r)" by (cases nr)
  from dag_wf_retain [OF Cons.prems, of depth lcr n r] Cons.IH show ?case unfolding nr by fastforce
qed

section \<open>What a traversal collects\<close>

text \<open>The certificates reached from a leader through uncommitted parents of the DAG.\<close>

inductive causal :: "crypto \<Rightarrow> consensus_state \<Rightarrow> certificate \<Rightarrow> certificate \<Rightarrow> bool"
  for cr s x where
    causal_self: "\<not> already_committed s x \<Longrightarrow> causal cr s x x"
  | causal_parent: "causal cr s x y \<Longrightarrow> p \<in> set (dag_parents cr (dag s) y) \<Longrightarrow> \<not> already_committed s p
      \<Longrightarrow> causal cr s x p"

lemma causal_uncommitted: "causal cr s x y \<Longrightarrow> \<not> already_committed s y"
  by (induction rule: causal.induct) auto

lemma find_parent_entry:
  assumes "dag_wf cr d" "find_parent d x pd = Some (dg, p)"
  shows "p \<in> dag_certs d \<and> cert_digest cr p = pd \<and> dg = pd \<and> cert_round p = u64_sub (cert_round x) 1"
proof -
  from assms(2) obtain m where m: "map_of d (u64_sub (cert_round x) 1) = Some m"
    and f: "find (\<lambda>(dg, _). dg = pd) (map snd m) = Some (dg, p)"
    by (auto simp: find_parent_def split: option.splits)
  from f obtain n where n: "(n, dg, p) \<in> set m" "dg = pd" by (auto simp: find_Some_iff in_set_conv_nth)
      (metis nth_mem prod.collapse snd_conv)
  from round_map_entry [OF dag_wf_round [OF assms(1) m] n(1)] n m show ?thesis
    by (auto intro: dag_certs_lookup)
qed

lemma set_dag_parents:
  "set (dag_parents cr d x) = {p. \<exists>pd \<in> set (cert_parents x). \<exists>dg. find_parent d x pd = Some (dg, p)}"
  by (force simp: dag_parents_def in_map_filter)

lemma dag_parents_round:
  assumes "dag_wf cr d" "p \<in> set (dag_parents cr d x)" "cert_round x \<noteq> 0"
  shows "p \<in> dag_certs d \<and> Suc (cert_round p) = cert_round x \<and> cert_digest cr p \<in> set (cert_parents x)"
proof -
  from assms(2) obtain pd dg where "pd \<in> set (cert_parents x)" "find_parent d x pd = Some (dg, p)"
    by (auto simp: set_dag_parents)
  with find_parent_entry [OF assms(1)] assms(3) show ?thesis by (auto simp: u64_sub_def)
qed

lemma fold_option_inv:
  assumes step: "\<And>x acc acc'. x \<in> set xs \<Longrightarrow> I acc \<Longrightarrow> f x acc = Some acc' \<Longrightarrow> I acc' \<and> le acc acc' \<and> Q x acc'"
    and le: "\<And>a. le a a" "\<And>a b c. le a b \<Longrightarrow> le b c \<Longrightarrow> le a c" "\<And>x a b. Q x a \<Longrightarrow> le a b \<Longrightarrow> Q x b"
    and run: "I acc" "fold_option f xs acc = Some acc'"
  shows "I acc' \<and> le acc acc' \<and> (\<forall>x \<in> set xs. Q x acc')"
  using step run
proof (induction xs arbitrary: acc)
  case Nil
  then show ?case using le(1) by simp
next
  case (Cons x xs)
  from Cons.prems(3) obtain acc1 where a: "f x acc = Some acc1" "fold_option f xs acc1 = Some acc'"
    by (auto split: option.splits)
  have 1: "I acc1 \<and> le acc acc1 \<and> Q x acc1" using Cons.prems(1) [of x acc acc1] Cons.prems(2) a(1) by simp
  have "I acc' \<and> le acc1 acc' \<and> (\<forall>x \<in> set xs. Q x acc')"
    by (rule Cons.IH) (use Cons.prems(1) 1 a(2) in auto)
  with 1 le show ?case by (metis set_ConsD)
qed

lemma fold_option_total:
  assumes "\<And>x acc. x \<in> set xs \<Longrightarrow> f x acc \<noteq> None"
  shows "fold_option f xs acc \<noteq> None"
  using assms by (induction xs arbitrary: acc) (auto split: option.splits)

text \<open>
  \<open>A\<close> is a set of certificates whose uncommitted parents stay in it, one round or more below.
\<close>

definition descending :: "crypto \<Rightarrow> consensus_state \<Rightarrow> certificate set \<Rightarrow> bool" where
  "descending cr s A \<longleftrightarrow> (\<forall>y \<in> A. \<not> already_committed s y \<longrightarrow> (\<forall>p \<in> set (dag_parents cr (dag s) y).
     cert_round p < cert_round y \<and> (already_committed s p \<or> p \<in> A)))"

definition traverse_inv ::
    "crypto \<Rightarrow> consensus_state \<Rightarrow> certificate set \<Rightarrow> digest set \<times> certificate list \<Rightarrow> bool" where
  "traverse_inv cr s A vo \<longleftrightarrow> fst vo = cert_digest cr ` set (snd vo) \<and> distinct (snd vo) \<and>
     (\<forall>y \<in> set (snd vo). y \<in> A \<and> \<not> already_committed s y \<and>
        (\<forall>p \<in> set (dag_parents cr (dag s) y). already_committed s p \<or> cert_digest cr p \<in> fst vo))"

lemma traverse_total:
  assumes "descending cr s A"
  shows "x \<in> A \<or> already_committed s x \<Longrightarrow> cert_round x < n \<Longrightarrow> traverse n cr s x vo \<noteq> None"
proof (induction n arbitrary: x vo)
  case 0
  then show ?case by simp
next
  case (Suc n)
  show ?case
  proof (cases "already_committed s x")
    case True
    then show ?thesis by (simp add: Let_def)
  next
    case False
    with Suc.prems(1) have xA: "x \<in> A" by simp
    have "fold_option (traverse n cr s) (dag_parents cr (dag s) x) vo \<noteq> None"
    proof (rule fold_option_total)
      fix p acc
      assume "p \<in> set (dag_parents cr (dag s) x)"
      with assms xA False have "cert_round p < cert_round x" "already_committed s p \<or> p \<in> A"
        by (auto simp: descending_def)
      with Suc.prems(2) show "traverse n cr s p acc \<noteq> None"
        by (intro Suc.IH) auto
    qed
    then show ?thesis by (auto simp: Let_def)
  qed
qed

lemma traverse_inv_step:
  assumes A: "descending cr s A"
  shows "traverse_inv cr s A vo \<Longrightarrow> x \<in> A \<or> already_committed s x \<Longrightarrow> traverse n cr s x vo = Some vo' \<Longrightarrow>
     traverse_inv cr s A vo' \<and>
     (set (snd vo) \<subseteq> set (snd vo') \<and> fst vo \<subseteq> fst vo' \<and>
      (\<forall>y \<in> set (snd vo') - set (snd vo). cert_round y \<le> cert_round x)) \<and>
     (already_committed s x \<or> cert_digest cr x \<in> fst vo')"
proof (induction n arbitrary: x vo vo')
  case 0
  then show ?case by simp
next
  case (Suc n)
  let ?d = "cert_digest cr x"
  consider (skip) "?d \<in> fst vo \<or> already_committed s x"
    | (visit) "?d \<notin> fst vo" "\<not> already_committed s x" by blast
  then show ?case
  proof cases
    case skip
    with Suc.prems(3) have "vo' = vo" by (auto simp: Let_def split: if_splits)
    with Suc.prems(1) skip show ?thesis by auto
  next
    case visit
    with Suc.prems(2) have xA: "x \<in> A" by simp
    from Suc.prems(3) visit obtain v o1 where
      f: "fold_option (traverse n cr s) (dag_parents cr (dag s) x) vo = Some (v, o1)"
      and vo': "vo' = (insert ?d v, o1 @ [x])"
      by (auto simp: Let_def)
    define le where "le a b \<longleftrightarrow> set (snd a) \<subseteq> set (snd b) \<and> fst a \<subseteq> fst b \<and>
        (\<forall>y \<in> set (snd b) - set (snd a). cert_round y < cert_round x)"
      for a b :: "digest set \<times> certificate list"
    have "traverse_inv cr s A (v, o1) \<and> le vo (v, o1) \<and>
        (\<forall>p \<in> set (dag_parents cr (dag s) x). already_committed s p \<or> cert_digest cr p \<in> fst (v, o1))"
    proof (rule fold_option_inv [where I = "traverse_inv cr s A" and le = le and acc = vo and
          Q = "\<lambda>p acc. already_committed s p \<or> cert_digest cr p \<in> fst acc" and f = "traverse n cr s"])
      fix p acc acc'
      assume p: "p \<in> set (dag_parents cr (dag s) x)" and inv: "traverse_inv cr s A acc"
        and t: "traverse n cr s p acc = Some acc'"
      from A xA visit(2) p have pr: "cert_round p < cert_round x" "p \<in> A \<or> already_committed s p"
        by (auto simp: descending_def)
      from Suc.IH [OF inv pr(2) t] pr(1)
      show "traverse_inv cr s A acc' \<and> le acc acc' \<and> (already_committed s p \<or> cert_digest cr p \<in> fst acc')"
        unfolding le_def by (metis le_less_trans)
    next
      show "le a c" if "le a b" "le b c" for a b c using that unfolding le_def by blast
    qed (use Suc.prems(1) f in \<open>auto simp: le_def\<close>)
    then have inv: "traverse_inv cr s A (v, o1)" and le: "le vo (v, o1)"
      and ps: "\<forall>p \<in> set (dag_parents cr (dag s) x). already_committed s p \<or> cert_digest cr p \<in> v"
      by auto
    have "x \<notin> set (snd vo)" using visit(1) Suc.prems(1) by (auto simp: traverse_inv_def)
    with le have "x \<notin> set o1" unfolding le_def by fastforce
    with inv xA visit(2) ps have "traverse_inv cr s A vo'"
      by (auto simp: traverse_inv_def vo')
    moreover have "set (snd vo) \<subseteq> set (snd vo') \<and> fst vo \<subseteq> fst vo' \<and>
        (\<forall>y \<in> set (snd vo') - set (snd vo). cert_round y \<le> cert_round x)"
      using le by (auto simp: le_def vo' intro: less_imp_le)
    ultimately show ?thesis by (simp add: vo')
  qed
qed

text \<open>The certificates of round 0 are committed from the start.\<close>

definition genesis_done :: "consensus_state \<Rightarrow> bool" where
  "genesis_done s \<longleftrightarrow> (\<forall>x \<in> dag_certs (dag s). cert_round x = 0 \<longrightarrow> already_committed s x)"

lemma causal_in_dag:
  assumes "dag_wf cr (dag s)" "genesis_done s" "cert_round leader = 0 \<longrightarrow> already_committed s leader" "causal cr s leader y"
  shows "(y = leader \<or> y \<in> dag_certs (dag s)) \<and> 0 < cert_round y"
  using assms(4)
proof (induction rule: causal.induct)
  case causal_self
  then show ?case using assms(3) by simp
next
  case (causal_parent y p)
  then have "p \<in> dag_certs (dag s)" using dag_parents_round [OF assms(1)] by auto
  with causal_parent.hyps(3) assms(2) show ?case by (auto simp: genesis_done_def)
qed

lemma causal_descending:
  assumes "dag_wf cr (dag s)" "genesis_done s" "cert_round leader = 0 \<longrightarrow> already_committed s leader"
  shows "descending cr s {y. causal cr s leader y}"
  unfolding descending_def
proof (intro ballI impI conjI, goal_cases)
  case (1 y p)
  then have "0 < cert_round y" using causal_in_dag [OF assms] by simp
  with dag_parents_round [OF assms(1) 1(3)] show ?case by simp
next
  case (2 y p)
  then show ?case by (auto intro: causal_parent)
qed

lemma order_dag_basic:
  assumes "dag_wf cr (dag s)" "genesis_done s" "cert_round leader = 0 \<longrightarrow> already_committed s leader"
  shows "\<exists>vo. traverse (Suc (cert_round leader)) cr s leader ({}, []) = Some vo \<and>
    traverse_inv cr s {y. causal cr s leader y} vo \<and>
    (already_committed s leader \<or> cert_digest cr leader \<in> fst vo) \<and>
    order_dag cr depth leader s = Some (sort_key (\<lambda>x. (cert_round x, Down (cert_digest cr x)))
      (filter (\<lambda>x. last_committed_round s \<le> u64_add (cert_round x) depth) (snd vo)))"
proof -
  note A = causal_descending [OF assms]
  have leader: "leader \<in> {y. causal cr s leader y} \<or> already_committed s leader"
    by (auto intro: causal_self)
  obtain vo where vo: "traverse (Suc (cert_round leader)) cr s leader ({}, []) = Some vo"
    using traverse_total [OF A leader lessI] by blast
  have "traverse_inv cr s {y. causal cr s leader y} ({}, [])" by (simp add: traverse_inv_def)
  from traverse_inv_step [OF A this leader vo] vo show ?thesis
    by (auto simp: order_dag_def split_def simp del: traverse.simps)
qed

lemma order_dag_spec:
  assumes "dag_wf cr (dag s)" "genesis_done s" "cert_round leader = 0 \<longrightarrow> already_committed s leader"
  obtains xs where "order_dag cr depth leader s = Some xs"
    "distinct xs" "sorted (map (\<lambda>x. (cert_round x, Down (cert_digest cr x))) xs)"
    "\<And>x. x \<in> set xs \<Longrightarrow> causal cr s leader x"
proof -
  obtain vo where vo: "traverse_inv cr s {y. causal cr s leader y} vo"
    "order_dag cr depth leader s = Some (sort_key (\<lambda>x. (cert_round x, Down (cert_digest cr x)))
      (filter (\<lambda>x. last_committed_round s \<le> u64_add (cert_round x) depth) (snd vo)))"
    using order_dag_basic [OF assms] by blast
  show thesis
    by (rule that [OF vo(2)]) (use vo(1) in \<open>auto simp: traverse_inv_def\<close>)
qed

lemma causal_visited:
  assumes "traverse_inv cr s A vo" "already_committed s leader \<or> cert_digest cr leader \<in> fst vo"
    and "inj_on (cert_digest cr) C" "A \<subseteq> C" "\<And>y. causal cr s leader y \<Longrightarrow> y \<in> C"
    and "causal cr s leader y"
  shows "y \<in> set (snd vo)"
proof -
  have found: "z \<in> set (snd vo)" if "cert_digest cr z \<in> fst vo" "z \<in> C" for z
  proof -
    from that(1) assms(1) obtain w where w: "w \<in> set (snd vo)" "cert_digest cr w = cert_digest cr z" "w \<in> A"
      by (auto simp: traverse_inv_def)
    with inj_onD [OF assms(3) w(2)] that(2) assms(4) show ?thesis by auto
  qed
  from assms(6) show ?thesis
  proof (induction rule: causal.induct)
    case causal_self
    with assms(2) have "cert_digest cr leader \<in> fst vo" by simp
    moreover have "leader \<in> C" using assms(5) causal.causal_self [OF causal_self] by blast
    ultimately show ?case by (rule found)
  next
    case (causal_parent y p)
    with assms(1) have "cert_digest cr p \<in> fst vo" unfolding traverse_inv_def by blast
    moreover have "p \<in> C" using assms(5) causal.causal_parent [OF causal_parent.hyps] by blast
    ultimately show ?case by (rule found)
  qed
qed

text \<open>
  C18: \<open>order_dag\<close> outputs exactly the uncommitted causal history of the
  leader inside the garbage-collection window, every certificate once, by ascending round
  and, within a round, descending digest; the recursion of \<open>traverse\<close> ends within
  \<open>round + 1\<close> calls.
\<close>

theorem order_dag_history:
  assumes "dag_wf cr (dag s)" "genesis_done s" "cert_round leader = 0 \<longrightarrow> already_committed s leader"
    and "inj_on (cert_digest cr) (insert leader (dag_certs (dag s)))"
  shows "\<exists>xs. order_dag cr depth leader s = Some xs \<and> distinct xs \<and>
    sorted (map (\<lambda>x. (cert_round x, Down (cert_digest cr x))) xs) \<and>
    set xs = {y. causal cr s leader y \<and> last_committed_round s \<le> u64_add (cert_round y) depth}"
proof -
  let ?A = "{y. causal cr s leader y}"
  obtain vo where inv: "traverse_inv cr s ?A vo"
    and leader: "already_committed s leader \<or> cert_digest cr leader \<in> fst vo"
    and eq: "order_dag cr depth leader s = Some (sort_key (\<lambda>x. (cert_round x, Down (cert_digest cr x)))
      (filter (\<lambda>x. last_committed_round s \<le> u64_add (cert_round x) depth) (snd vo)))"
    using order_dag_basic [OF assms(1-3)] by blast
  have sub: "?A \<subseteq> insert leader (dag_certs (dag s))"
    using causal_in_dag [OF assms(1-3)] by blast
  have "set (snd vo) = ?A"
  proof
    show "set (snd vo) \<subseteq> ?A" using inv by (auto simp: traverse_inv_def)
    show "?A \<subseteq> set (snd vo)"
      using causal_visited [OF inv leader assms(4) sub] sub by blast
  qed
  with inv eq show ?thesis by (auto simp: traverse_inv_def)
qed

section \<open>Updates\<close>

lemma already_committed_update:
  "already_committed (state_update s x depth) y \<longleftrightarrow>
     already_committed s y \<or> (cert_origin y = cert_origin x \<and> cert_round y \<le> cert_round x)"
  by (auto simp: already_committed_def state_update_def Let_def split: option.splits)

lemma dag_update:
  assumes "dag_wf cr (dag s)"
  shows "dag_wf cr (dag (state_update s x depth))" "dag_certs (dag (state_update s x depth)) \<subseteq> dag_certs (dag s)"
  using dag_wf_retain_all [OF assms] by (simp_all add: state_update_def Let_def)

abbreviation update_all :: "round \<Rightarrow> consensus_state \<Rightarrow> certificate list \<Rightarrow> consensus_state" where
  "update_all depth s xs \<equiv> foldl (\<lambda>s x. state_update s x depth) s xs"

lemma already_committed_update_all:
  "already_committed (update_all depth s xs) y \<longleftrightarrow>
     already_committed s y \<or> (\<exists>x \<in> set xs. cert_origin y = cert_origin x \<and> cert_round y \<le> cert_round x)"
  by (induction xs arbitrary: s) (auto simp: already_committed_update)

text \<open>A state whose DAG is part of the well-formed DAG \<open>d\<close>.\<close>

definition state_within :: "crypto \<Rightarrow> dag \<Rightarrow> consensus_state \<Rightarrow> bool" where
  "state_within cr d s \<longleftrightarrow> dag_wf cr d \<and> dag_wf cr (dag s) \<and> dag_certs (dag s) \<subseteq> dag_certs d \<and>
     (\<forall>x \<in> dag_certs d. cert_round x = 0 \<longrightarrow> already_committed s x)"

lemma state_within_update_all: "state_within cr d s \<Longrightarrow> state_within cr d (update_all depth s xs)"
proof (induction xs arbitrary: s)
  case Nil
  then show ?case by simp
next
  case (Cons x xs)
  then have "state_within cr d (state_update s x depth)"
    using dag_update [of cr s x depth] by (auto simp: state_within_def already_committed_update)
  with Cons.IH show ?case by simp
qed

text \<open>The committed rounds of one authority only grow along a sequence.\<close>

definition grows_per_author :: "certificate list \<Rightarrow> bool" where
  "grows_per_author xs \<longleftrightarrow> sorted_wrt (\<lambda>x y. cert_origin x = cert_origin y \<longrightarrow> cert_round x < cert_round y) xs"

lemma order_dag_grows:
  assumes "state_within cr d s" "leader \<in> dag_certs d"
    and "order_dag cr depth leader s = Some xs"
  shows "grows_per_author xs" "\<And>x. x \<in> set xs \<Longrightarrow> \<not> already_committed s x \<and> x \<in> dag_certs d"
proof -
  from assms(1) have wf: "dag_wf cr (dag s)" "genesis_done s" "dag_wf cr d" "dag_certs (dag s) \<subseteq> dag_certs d"
    and leader: "cert_round leader = 0 \<longrightarrow> already_committed s leader"
    using assms(2) by (auto simp: state_within_def genesis_done_def)
  have xs: "distinct xs" "sorted (map (\<lambda>x. (cert_round x, Down (cert_digest cr x))) xs)"
    "\<And>x. x \<in> set xs \<Longrightarrow> causal cr s leader x"
    by (rule order_dag_spec [OF wf(1,2) leader, of depth]; use assms(3) in simp)+
  show in_d: "\<not> already_committed s x \<and> x \<in> dag_certs d" if "x \<in> set xs" for x
    using xs(3) [OF that] causal_in_dag [OF wf(1,2) leader] causal_uncommitted wf(4) assms(2) by blast
  have "cert_round x < cert_round y" if ij: "i < j" "j < length xs" "x = xs ! i" "y = xs ! j"
    and o: "cert_origin x = cert_origin y" for i j x y
  proof -
    have "cert_round x \<le> cert_round y"
      using sorted_nth_mono [OF xs(2), of i j] ij by (auto simp: less_eq_prod_def)
    moreover have "cert_round x \<noteq> cert_round y"
    proof
      assume "cert_round x = cert_round y"
      moreover have "x \<in> dag_certs d" "y \<in> dag_certs d" using in_d ij by auto
      ultimately have "x = y" using dag_certs_unique [OF wf(3)] o by blast
      with ij xs(1) show False by (auto simp: nth_eq_iff_index_eq)
    qed
    ultimately show ?thesis by simp
  qed
  then show "grows_per_author xs"
    by (auto simp: grows_per_author_def sorted_wrt_iff_nth_less)
qed

lemma grows_append:
  "grows_per_author (xs @ ys) \<longleftrightarrow> grows_per_author xs \<and> grows_per_author ys \<and>
     (\<forall>x \<in> set xs. \<forall>y \<in> set ys. cert_origin x = cert_origin y \<longrightarrow> cert_round x < cert_round y)"
  by (simp add: grows_per_author_def sorted_wrt_append)

lemma already_committed_slot:
  assumes "already_committed s x" "cert_origin x = cert_origin y" "\<not> already_committed s y"
  shows "cert_round x < cert_round y"
  using assms by (auto simp: already_committed_def split: option.splits)

lemma commit_leaders_grows:
  assumes "commit_leaders cr depth leaders s sequence = Some (s', xs)"
    and "state_within cr d s" "set leaders \<subseteq> dag_certs d"
    and "grows_per_author (out @ sequence)" "\<forall>x \<in> set (out @ sequence). already_committed s x"
  shows "state_within cr d s' \<and> grows_per_author (out @ xs) \<and> (\<forall>x \<in> set (out @ xs). already_committed s' x) \<and>
    set xs \<subseteq> set sequence \<union> {x \<in> dag_certs d. \<not> already_committed s x}"
  using assms
proof (induction leaders arbitrary: s sequence)
  case Nil
  then show ?case by auto
next
  case (Cons leader leaders)
  from Cons.prems(1) obtain ys where ys: "order_dag cr depth leader s = Some ys"
    and rest: "commit_leaders cr depth leaders (update_all depth s ys) (sequence @ ys) = Some (s', xs)"
    by (auto split: option.splits)
  from Cons.prems(3) have "leader \<in> dag_certs d" by simp
  note g = order_dag_grows [OF Cons.prems(2) this ys]
  have "grows_per_author (out @ sequence @ ys)"
    using Cons.prems(4,5) g already_committed_slot by (fastforce simp: grows_append)
  moreover have "\<forall>x \<in> set (out @ sequence @ ys). already_committed (update_all depth s ys) x"
    using Cons.prems(5) by (auto simp: already_committed_update_all)
  ultimately have "state_within cr d s' \<and> grows_per_author (out @ xs) \<and>
      (\<forall>x \<in> set (out @ xs). already_committed s' x) \<and>
      set xs \<subseteq> set (sequence @ ys) \<union> {x \<in> dag_certs d. \<not> already_committed (update_all depth s ys) x}"
    using Cons.prems(2,3) by (intro Cons.IH [OF rest]) (auto intro: state_within_update_all)
  with g(2) show ?case by (auto simp: already_committed_update_all)
qed

lemma commit_leaders_already:
  "commit_leaders cr depth leaders s sequence = Some (s', xs) \<Longrightarrow> already_committed s y \<Longrightarrow> already_committed s' y"
  by (induction leaders arbitrary: s sequence) (auto simp: already_committed_update_all split: option.splits)

lemma leader_at_certs: "leader_at c r d = Some (dg, x) \<Longrightarrow> x \<in> dag_certs d"
  by (auto simp: leader_at_def dest!: map_of_SomeD split: option.splits intro: dag_certs_lookup)
    (force simp: dag_certs_def)

lemma order_leaders_loop_certs:
  "order_leaders_loop c d acc leader rs = Some ls \<Longrightarrow> set ls \<subseteq> set acc \<union> dag_certs d"
proof (induction rs arbitrary: acc leader)
  case Nil
  then show ?case by auto
next
  case (Cons r rs)
  show ?case
  proof (cases "leader_at c r d")
    case None
    with Cons show ?thesis by auto
  next
    case (Some p)
    obtain dg x where p: "p = (dg, x)" by (cases p)
    with Some have x: "x \<in> dag_certs d" using leader_at_certs by simp
    from Cons.prems Some p consider
      "order_leaders_loop c d (acc @ [x]) x rs = Some ls" | "order_leaders_loop c d acc leader rs = Some ls"
      by (auto split: option.splits bool.splits)
    then show ?thesis using Cons.IH x by cases fastforce+
  qed
qed

lemma order_leaders_certs:
  "order_leaders c leader s = Some ls \<Longrightarrow> set ls \<subseteq> insert leader (dag_certs (dag s))"
  using order_leaders_loop_certs unfolding order_leaders_def by fastforce

section \<open>Steps and runs\<close>

lemma consensus_step_cases:
  assumes "consensus_step cr c depth s0 x = Some (s', xs)"
  obtains (none) "s' = s0\<lparr>dag := dag_insert cr x (dag s0)\<rparr>" "xs = []"
  | (commit) s leader dg children leaders where "s = s0\<lparr>dag := dag_insert cr x (dag s0)\<rparr>"
      "cert_round x mod 2 = 1" "5 \<le> cert_round x" "last_committed_round s0 < cert_round x - 3"
      "leader_at c (cert_round x - 3) (dag s) = Some (dg, leader)"
      "map_of (dag s) (cert_round x - 2) = Some children"
      "validity_threshold c \<le> leader_support c dg children"
      "order_leaders c leader s = Some leaders"
      "commit_leaders cr depth (rev leaders) s [] = Some (s', xs)"
proof -
  let ?s = "s0\<lparr>dag := dag_insert cr x (dag s0)\<rparr>" and ?r = "u64_sub (cert_round x) 1"
  show thesis
  proof (cases "?r mod 2 \<noteq> 0 \<or> ?r < 4 \<or> ?r - 2 \<le> last_committed_round s0")
    case True
    with assms show ?thesis by (intro none) (auto simp: consensus_step_def Let_def split: if_splits)
  next
    case False
    have "u64_sub 0 1 = 18446744073709551615" by (simp add: u64_sub_def)
    with False have r: "cert_round x \<noteq> 0" by (intro notI) simp
    then have "?r = cert_round x - 1" by (simp add: u64_sub_def)
    with False have R: "cert_round x mod 2 = 1" "5 \<le> cert_round x" "last_committed_round s0 < cert_round x - 3"
      "?r - 2 = cert_round x - 3" "?r - 1 = cert_round x - 2"
      by presburger+
    show ?thesis
    proof (cases "leader_at c (cert_round x - 3) (dag ?s)")
      case None
      with False R(4) assms show ?thesis by (intro none) (auto simp: consensus_step_def Let_def)
    next
      case (Some p)
      obtain dg leader where p: "p = (dg, leader)" by (cases p)
      from assms False R(4,5) Some p obtain children where ch: "map_of (dag ?s) (cert_round x - 2) = Some children"
        by (auto simp: consensus_step_def Let_def split: option.splits)
      show ?thesis
      proof (cases "leader_support c dg children < validity_threshold c")
        case True
        with assms False R(4,5) Some p ch show ?thesis
          by (intro none) (auto simp: consensus_step_def Let_def)
      next
        case sup: False
        with assms False R(4,5) Some p ch obtain ls where
          "order_leaders c leader ?s = Some ls" "commit_leaders cr depth (rev ls) ?s [] = Some (s', xs)"
          by (auto simp: consensus_step_def Let_def split: option.splits)
        with R(1-3) Some p ch sup show ?thesis by (intro commit [of ?s dg leader children ls]) auto
      qed
    qed
  qed
qed

definition consensus_inv :: "crypto \<Rightarrow> committee \<Rightarrow> certificate set \<Rightarrow> consensus_state \<Rightarrow> certificate list \<Rightarrow> bool" where
  "consensus_inv cr c S s out \<longleftrightarrow> dag_wf cr (dag s) \<and> dag_certs (dag s) \<subseteq> set (genesis c) \<union> S \<and>
     (\<forall>x. cert_round x = 0 \<and> cert_origin x \<in> members c \<longrightarrow> already_committed s x) \<and>
     grows_per_author out \<and> (\<forall>x \<in> set out. already_committed s x) \<and> set out \<subseteq> S \<and> (\<forall>x \<in> S. cert_origin x \<in> members c)"

lemma already_committed_dag [simp]: "already_committed (s\<lparr>dag := d\<rparr>) x = already_committed s x"
  by (simp add: already_committed_def)

lemma genesis_entries:
  "x \<in> set (genesis c) \<Longrightarrow> cert_round x = 0 \<and> cert_origin x \<in> members c"
  by (force simp: genesis_def cert_round_def cert_origin_def default_header_def)

lemma genesis_origins: "cert_origin ` set (genesis c) = members c"
  by (auto simp: genesis_def cert_origin_def image_image)

lemma keys_of_values: "fst ` set (map (\<lambda>(x, (_, y)). (x, f y)) g) = fst ` set g"
  by (induction g) auto

lemma consensus_start_inv: "consensus_inv cr c {} (consensus_start cr c) []"
proof -
  let ?kvs = "map (\<lambda>x. (cert_origin x, (cert_digest cr x, x))) (genesis c)"
  let ?g = "hm_collect ?kvs"
  have sub: "set ?g \<subseteq> set ?kvs" by (rule set_hm_collect)
  have wf: "round_map_wf cr 0 ?g"
    using sub genesis_entries by (fastforce simp: round_map_wf_def)
  have names: "fst ` set ?g = members c"
  proof -
    have "fst ` set ?g = dom (map_of ?g)" by (simp add: dom_map_of_conv_image_fst)
    also have "\<dots> = fst ` set ?kvs" by (simp add: map_of_collect dom_map_of_conv_image_fst)
    also have "\<dots> = cert_origin ` set (genesis c)" by (force simp: image_image)
    finally show ?thesis by (simp add: genesis_origins)
  qed
  let ?lc = "hm_collect (map (\<lambda>(x, (_, y)). (x, cert_round y)) ?g)"
  have "dom (map_of ?lc) = fst ` set (map (\<lambda>(x, (_, y)). (x, cert_round y)) ?g)"
    by (simp only: map_of_collect dom_map_of_conv_image_fst set_rev)
  also have "\<dots> = fst ` set ?g" by (rule keys_of_values)
  also note names
  finally have lc: "map_of ?lc n \<noteq> None" if "n \<in> members c" for n
    using that by (simp only: domIff [symmetric])
  have start: "consensus_start cr c = \<lparr> last_committed_round = 0, last_committed = ?lc, dag = [(0, ?g)] \<rparr>"
    by (simp add: consensus_start_def state_new_def Let_def)
  have committed: "already_committed (consensus_start cr c) x"
    if "cert_round x = 0" "cert_origin x \<in> members c" for x
    using lc [OF that(2)] that(1) by (auto simp: already_committed_def start simp del: map_map)
  have "dag_certs [(0, ?g)] \<subseteq> set (genesis c)" using sub by (auto simp: dag_certs_def)
  with wf have "dag_wf cr (dag (consensus_start cr c))"
      "dag_certs (dag (consensus_start cr c)) \<subseteq> set (genesis c)"
    by (simp_all add: start dag_wf_def)
  with committed show ?thesis by (simp add: consensus_inv_def grows_per_author_def)
qed

lemma consensus_inv_insert:
  assumes "consensus_inv cr c S s out" "cert_origin x \<in> members c"
  shows "consensus_inv cr c (insert x S) (s\<lparr>dag := dag_insert cr x (dag s)\<rparr>) out"
  using assms dag_wf_insert [of cr "dag s" x] by (auto simp: consensus_inv_def)

lemma consensus_inv_within:
  assumes "consensus_inv cr c S s out"
  shows "state_within cr (dag s) s"
proof -
  have "cert_origin y \<in> members c" if "y \<in> dag_certs (dag s)" for y
    using that assms genesis_entries [of y c] unfolding consensus_inv_def by blast
  then show ?thesis using assms by (auto simp: state_within_def consensus_inv_def)
qed

lemma consensus_step_inv:
  assumes inv: "consensus_inv cr c S s0 out" and x: "cert_origin x \<in> members c"
    and step: "consensus_step cr c depth s0 x = Some (s', xs)"
  shows "consensus_inv cr c (insert x S) s' (out @ xs)"
proof -
  let ?s = "s0\<lparr>dag := dag_insert cr x (dag s0)\<rparr>"
  have base: "consensus_inv cr c (insert x S) ?s out" by (rule consensus_inv_insert [OF inv x])
  show ?thesis
    using step
  proof (cases rule: consensus_step_cases)
    case none
    with base show ?thesis by simp
  next
    case (commit s leader dg children leaders)
    have "leader \<in> dag_certs (dag s)" using leader_at_certs [OF commit(5)] .
    with order_leaders_certs [OF commit(8)] have ls: "set (rev leaders) \<subseteq> dag_certs (dag s)" by auto
    note base' = base [folded commit(1), unfolded consensus_inv_def]
    have "state_within cr (dag s) s"
      using consensus_inv_within [OF base] by (simp add: commit(1))
    from commit_leaders_grows [OF commit(9) this ls, of out] base'
    have after: "state_within cr (dag s) s'" "grows_per_author (out @ xs)"
        "\<forall>y \<in> set (out @ xs). already_committed s' y"
        "set xs \<subseteq> {y \<in> dag_certs (dag s). \<not> already_committed s y}"
      by simp_all
    have "set xs \<subseteq> insert x S"
      using after(4) base' genesis_entries by blast
    moreover have "already_committed s' y" if "cert_round y = 0" "cert_origin y \<in> members c" for y
      using commit_leaders_already [OF commit(9)] base' that by blast
    ultimately show ?thesis
      using after(1-3) base' unfolding consensus_inv_def state_within_def by auto
  qed
qed

lemma consensus_run_inv:
  "consensus_run cr c depth s xs = Some (s', out') \<Longrightarrow> consensus_inv cr c S s out \<Longrightarrow>
     \<forall>x \<in> set xs. cert_origin x \<in> members c \<Longrightarrow> consensus_inv cr c (S \<union> set xs) s' (out @ out')"
proof (induction xs arbitrary: s S out out')
  case Nil
  then show ?case by simp
next
  case (Cons x xs)
  from Cons.prems(1) obtain s1 o1 o2 where 1: "consensus_step cr c depth s x = Some (s1, o1)"
    and 2: "consensus_run cr c depth s1 xs = Some (s', o2)" and out': "out' = o1 @ o2"
    by (auto split: option.splits)
  have "consensus_inv cr c (insert x S) s1 (out @ o1)"
    using consensus_step_inv [OF Cons.prems(2) _ 1] Cons.prems(3) by simp
  from Cons.IH [OF 2 this] Cons.prems(3) out' show ?case by simp
qed

lemma consensus_run_grows:
  assumes "consensus_run cr c depth (consensus_start cr c) xs = Some (s, out)"
    and "\<forall>x \<in> set xs. cert_origin x \<in> members c"
  shows "set out \<subseteq> set xs \<and>
    sorted_wrt (\<lambda>x y. cert_origin x = cert_origin y \<longrightarrow> cert_round x < cert_round y) out"
  using consensus_run_inv [OF assms(1) consensus_start_inv assms(2)]
  by (auto simp: consensus_inv_def grows_per_author_def)

text \<open>
  C19: whatever certificates of committee members arrive, in whatever
  order and with whatever repetitions, the consensus outputs only certificates it received,
  and for every authority in strictly ascending rounds; so it never commits a certificate,
  nor two certificates of one authority and round, twice.
\<close>

theorem commits_grow_per_author:
  assumes "consensus_run cr c depth (consensus_start cr c) xs = Some (s, out)"
    and "\<forall>x \<in> set xs. cert_origin x \<in> members c"
  shows "set out \<subseteq> set xs \<and>
    sorted_wrt (\<lambda>x y. cert_origin x = cert_origin y \<longrightarrow> cert_round x < cert_round y) out"
  by (rule consensus_run_grows [OF assms])

section \<open>The last committed round\<close>

definition lcr_ok :: "consensus_state \<Rightarrow> bool" where
  "lcr_ok s \<longleftrightarrow> hm_wf (last_committed s) \<and> last_committed_round s = fold max (map snd (last_committed s)) 0"

lemma fold_max_le: "fold max xs (a::'a::linorder) \<le> b \<longleftrightarrow> a \<le> b \<and> (\<forall>x \<in> set xs. x \<le> b)"
  by (induction xs arbitrary: a) auto

lemma consensus_start_lcr: "lcr_ok (consensus_start cr c)"
proof -
  let ?g = "hm_collect (map (\<lambda>x. (cert_origin x, (cert_digest cr x, x))) (genesis c))"
  let ?kvs = "map (\<lambda>(x, (_, y)). (x, cert_round y)) ?g"
  have "set ?g \<subseteq> set (map (\<lambda>x. (cert_origin x, (cert_digest cr x, x))) (genesis c))"
    by (rule set_hm_collect)
  then have "\<forall>e \<in> set ?g. cert_round (snd (snd e)) = 0" using genesis_entries by fastforce
  then have "\<forall>e \<in> set ?kvs. snd e = 0" by auto
  then have "\<forall>e \<in> set (hm_collect ?kvs). snd e = 0" using set_hm_collect [of ?kvs] by blast
  then have "fold max (map snd (hm_collect ?kvs)) 0 \<le> (0::nat)" unfolding fold_max_le by auto
  then show ?thesis by (simp add: lcr_ok_def consensus_start_def state_new_def Let_def)
qed

lemma lcr_bound: "lcr_ok s \<Longrightarrow> (n, r) \<in> set (last_committed s) \<Longrightarrow> r \<le> last_committed_round s"
  unfolding lcr_ok_def by (metis fold_max_in image_eqI set_map snd_conv)

lemma fold_max_update:
  assumes "hm_wf m" "\<And>v0. (k, v0) \<in> set m \<Longrightarrow> v0 \<le> v"
  shows "fold max (map snd (AList.update k v m)) 0 = max (fold max (map snd m) 0) (v::nat)"
proof (rule antisym)
  let ?m = "AList.update k v m"
  have set': "set ?m = insert (k, v) {(k', v') \<in> set m. k' \<noteq> k}"
    by (rule set_update_distinct [OF assms(1)])
  have bound: "w \<le> fold max (map snd l) 0" if "(k', w) \<in> set l" for k' and w :: nat and l :: "('a \<times> nat) list"
    using image_eqI [of w snd "(k', w)" "set l"] that by (intro fold_max_in) simp
  show "fold max (map snd ?m) 0 \<le> max (fold max (map snd m) 0) v"
  proof (unfold fold_max_le, intro conjI ballI)
    fix w
    assume "w \<in> set (map snd ?m)"
    then obtain k' where "(k', w) \<in> set ?m" by auto
    then have "w = v \<or> (k', w) \<in> set m" unfolding set' by auto
    then show "w \<le> max (fold max (map snd m) 0) v" using bound [of k' w m] by (auto simp: le_max_iff_disj)
  qed simp
  have "v' \<le> fold max (map snd ?m) 0" if m: "(k', v') \<in> set m" for k' v'
  proof (cases "k' = k")
    case True
    then have "v' \<le> v" using assms(2) m by simp
    moreover have "v \<le> fold max (map snd ?m) 0" using bound [of k v ?m] set' by simp
    ultimately show ?thesis by simp
  next
    case False
    then show ?thesis using bound [of k' v' ?m] set' m by simp
  qed
  then have "fold max (map snd m) 0 \<le> fold max (map snd ?m) 0" by (subst fold_max_le) auto
  moreover have "v \<le> fold max (map snd ?m) 0" using bound [of k v ?m] set' by simp
  ultimately show "max (fold max (map snd m) 0) v \<le> fold max (map snd ?m) 0" by simp
qed

lemma lcr_update:
  assumes "lcr_ok s"
  shows "lcr_ok (state_update s x depth)"
    and "last_committed_round (state_update s x depth) = max (last_committed_round s) (cert_round x)"
proof -
  let ?o = "cert_origin x" and ?s = "state_update s x depth"
  define v where "v = (case map_of (last_committed s) ?o of None \<Rightarrow> cert_round x | Some v0 \<Rightarrow> max v0 (cert_round x))"
  have lc: "last_committed ?s = AList.update ?o v (last_committed s)"
    by (simp add: state_update_def Let_def v_def split: option.splits)
  have lcr: "last_committed_round ?s = fold max (map snd (last_committed ?s)) 0"
    by (simp add: state_update_def Let_def)
  show "lcr_ok ?s" using assms lc by (simp add: lcr_ok_def lcr)
  have wf: "hm_wf (last_committed s)" using assms by (simp add: lcr_ok_def)
  have v_ge: "v0 \<le> v" if "(?o, v0) \<in> set (last_committed s)" for v0
  proof -
    have "map_of (last_committed s) ?o = Some v0" using that map_of_in_set [OF wf] by blast
    then show ?thesis by (simp add: v_def)
  qed
  have "last_committed_round ?s = max (last_committed_round s) v"
    using fold_max_update [of "last_committed s" ?o v, OF wf v_ge] assms
    unfolding lcr lc by (simp add: lcr_ok_def)
  also have "\<dots> = max (last_committed_round s) (cert_round x)"
  proof (cases "map_of (last_committed s) ?o")
    case None
    then show ?thesis by (simp add: v_def)
  next
    case (Some v0)
    then have "v0 \<le> last_committed_round s" by (intro lcr_bound [OF assms]) (rule map_of_SomeD)
    with Some show ?thesis by (simp add: v_def)
  qed
  finally show "last_committed_round ?s = max (last_committed_round s) (cert_round x)" .
qed

text \<open>
  \<open>State::update\<close> keeps \<open>last_committed_round\<close> equal to the
  maximum over the authorities, and raises it exactly to the round of the certificate when
  that is newer.
\<close>

theorem update_tracks_last_round:
  assumes "lcr_ok s"
  shows "lcr_ok (state_update s x depth) \<and>
    last_committed_round (state_update s x depth) = max (last_committed_round s) (cert_round x)"
  using lcr_update [OF assms] by simp

lemma retain_authority_keeps:
  assumes "dag_wf cr d" "y \<in> dag_certs d" "cert_origin y = name \<longrightarrow> rd \<le> cert_round y"
    and "lcr \<le> u64_add (cert_round y) depth"
  shows "y \<in> dag_certs (retain_authority depth lcr name rd d)"
proof -
  obtain m where m: "map_of d (cert_round y) = Some m" "(cert_origin y, cert_digest cr y, y) \<in> set m"
    using assms(1,2) by (rule dag_slot)
  let ?m = "hm_retain (\<lambda>n _. n \<noteq> name \<or> rd \<le> cert_round y) m"
  have in': "(cert_origin y, cert_digest cr y, y) \<in> set ?m"
    using m(2) assms(3) by (auto simp: hm_retain_def)
  then have "?m \<noteq> []" by auto
  with m(1) assms(1,4) have "map_of (retain_authority depth lcr name rd d) (cert_round y) = Some ?m"
    by (simp add: map_of_retain_authority dag_wf_def retain_round_def Let_def)
  then show ?thesis using in' by (rule dag_certs_lookup)
qed

lemma state_update_keeps:
  assumes "dag_wf cr (dag s)" "y \<in> dag_certs (dag s)" "lcr_ok s"
    and "last_committed_round (state_update s x depth) < cert_round y" "cert_round y + depth < 2 ^ 64"
  shows "y \<in> dag_certs (dag (state_update s x depth))"
proof -
  let ?s = "state_update s x depth"
  let ?lcr = "last_committed_round ?s"
  have keep: "dag_wf cr d \<Longrightarrow> y \<in> dag_certs d \<Longrightarrow> \<forall>(n, r) \<in> set lc. r \<le> cert_round y \<Longrightarrow>
      y \<in> dag_certs (foldl (\<lambda>d (name, rd). retain_authority depth ?lcr name rd d) d lc)" for d lc
  proof (induction lc arbitrary: d)
    case Nil
    then show ?case by simp
  next
    case (Cons nr lc)
    obtain n r where nr: "nr = (n, r)" by (cases nr)
    have "?lcr \<le> u64_add (cert_round y) depth" using assms(4,5) by (simp add: u64_add_small)
    with Cons.prems nr have "y \<in> dag_certs (retain_authority depth ?lcr n r d)"
      by (intro retain_authority_keeps) auto
    with Cons nr dag_wf_retain show ?case by simp
  qed
  have "\<forall>(n, r) \<in> set (last_committed ?s). r \<le> cert_round y"
    using lcr_bound [OF lcr_update(1) [OF assms(3)]] assms(4) by fastforce
  from keep [OF assms(1,2) this] show ?thesis
    by (simp add: state_update_def Let_def)
qed

lemma update_all_wf: "dag_wf cr (dag s) \<Longrightarrow> dag_wf cr (dag (update_all depth s xs))"
  by (induction xs arbitrary: s) (simp_all add: dag_update)

lemma update_all_lcr:
  "lcr_ok s \<Longrightarrow> lcr_ok (update_all depth s xs) \<and> last_committed_round s \<le> last_committed_round (update_all depth s xs)"
proof (induction xs arbitrary: s)
  case Nil
  then show ?case by simp
next
  case (Cons x xs)
  note l = lcr_update [OF Cons.prems, of x depth]
  from Cons.IH [OF l(1)] l(2) show ?case by simp
qed

lemma update_all_keeps:
  "dag_wf cr (dag s) \<Longrightarrow> y \<in> dag_certs (dag s) \<Longrightarrow> lcr_ok s \<Longrightarrow> cert_round y + depth < 2 ^ 64 \<Longrightarrow>
     lcr_ok (update_all depth s xs) \<and> last_committed_round s \<le> last_committed_round (update_all depth s xs) \<and>
     (last_committed_round (update_all depth s xs) < cert_round y \<longrightarrow> y \<in> dag_certs (dag (update_all depth s xs)))"
proof (induction xs arbitrary: s)
  case Nil
  then show ?case by simp
next
  case (Cons x xs)
  let ?s = "state_update s x depth"
  note l = lcr_update [OF Cons.prems(3), of x depth]
  have sub: "lcr_ok (update_all depth ?s xs) \<and> last_committed_round ?s \<le> last_committed_round (update_all depth ?s xs)"
    using l(1) by (rule update_all_lcr)
  show ?case
  proof (cases "last_committed_round ?s < cert_round y")
    case True
    have y: "y \<in> dag_certs (dag ?s)"
      by (rule state_update_keeps [OF Cons.prems(1-3) True Cons.prems(4)])
    from Cons.IH [OF dag_update(1) [OF Cons.prems(1)] y l(1) Cons.prems(4)] l(2)
    show ?thesis by simp
  next
    case False
    with sub l show ?thesis by auto
  qed
qed

section \<open>No panic under causal delivery\<close>

lemma commit_leaders_total:
  "state_within cr d s \<Longrightarrow> set leaders \<subseteq> dag_certs d \<Longrightarrow> commit_leaders cr depth leaders s sequence \<noteq> None"
proof (induction leaders arbitrary: s sequence)
  case Nil
  then show ?case by simp
next
  case (Cons leader leaders)
  from Cons.prems have "dag_wf cr (dag s)" "genesis_done s" "cert_round leader = 0 \<longrightarrow> already_committed s leader"
    by (auto simp: state_within_def genesis_done_def)
  then obtain xs where "order_dag cr depth leader s = Some xs"
    by (rule order_dag_spec)
  moreover have "commit_leaders cr depth leaders (update_all depth s xs) (sequence @ xs) \<noteq> None"
    using Cons.prems by (intro Cons.IH) (auto intro: state_within_update_all)
  ultimately show ?case by simp
qed

lemma commit_leaders_keeps:
  "commit_leaders cr depth leaders s sequence = Some (s', xs) \<Longrightarrow> dag_wf cr (dag s) \<Longrightarrow> lcr_ok s \<Longrightarrow>
     lcr_ok s' \<and> last_committed_round s \<le> last_committed_round s' \<and>
     (y \<in> dag_certs (dag s) \<longrightarrow> cert_round y + depth < 2 ^ 64 \<longrightarrow> last_committed_round s' < cert_round y \<longrightarrow>
        y \<in> dag_certs (dag s'))"
proof (induction leaders arbitrary: s sequence)
  case Nil
  then show ?case by simp
next
  case (Cons leader leaders)
  from Cons.prems(1) obtain ys where
    rest: "commit_leaders cr depth leaders (update_all depth s ys) (sequence @ ys) = Some (s', xs)"
    by (auto split: option.splits)
  let ?s = "update_all depth s ys"
  have wf: "dag_wf cr (dag ?s)" using Cons.prems(2) by (rule update_all_wf)
  note l = update_all_lcr [OF Cons.prems(3), of depth ys]
  from Cons.IH [OF rest wf] l update_all_keeps [OF Cons.prems(2) _ Cons.prems(3), of y depth ys]
  show ?case by (meson le_less_trans le_trans)
qed

lemma linked_loop_total:
  "\<forall>r \<in> set rs. map_of d r \<noteq> None \<Longrightarrow> linked_loop d ps rs \<noteq> None"
  by (induction rs arbitrary: ps) auto

lemma leader_at_round: "dag_wf cr d \<Longrightarrow> leader_at c r d = Some (dg, x) \<Longrightarrow> cert_round x = r \<and> dg = cert_digest cr x"
  by (auto simp: leader_at_def split: option.splits dest!: dag_wf_round map_of_SomeD [of _ "leader_name c r"]
      dest: round_map_entry)

lemma order_leaders_loop_total:
  assumes "dag_wf cr d" "\<And>k. lo \<le> k \<Longrightarrow> k < hi \<Longrightarrow> map_of d k \<noteq> None"
  shows "\<forall>r \<in> set rs. lo \<le> r \<and> r < hi \<Longrightarrow> cert_round leader \<le> hi \<Longrightarrow> order_leaders_loop c d acc leader rs \<noteq> None"
proof (induction rs arbitrary: acc leader)
  case Nil
  then show ?case by simp
next
  case (Cons r rs)
  show ?case
  proof (cases "leader_at c r d")
    case None
    with Cons show ?thesis by simp
  next
    case (Some p)
    obtain dg x where p: "p = (dg, x)" by (cases p)
    with Some have x: "cert_round x = r" using leader_at_round [OF assms(1)] by simp
    have "linked_loop d [leader] (rev [cert_round x ..< cert_round leader]) \<noteq> None"
      using assms(2) Cons.prems x by (intro linked_loop_total) auto
    then obtain b where "linked leader x d = Some b" by (auto simp: linked_def)
    with Some p Cons x show ?thesis by (cases b) auto
  qed
qed

lemma leader_rounds_subset: "set (leader_rounds lcr r) \<subseteq> {u64_add lcr 2 ..< r}"
  using set_step_by_2 [of "rev [u64_add lcr 2 ..< r]"] by (auto simp: leader_rounds_def)

text \<open>Rounds arrive in order: a certificate of round \<open>r\<close> comes after one of round \<open>r - 1\<close>.\<close>

fun rounds_in_order :: "round set \<Rightarrow> certificate list \<Rightarrow> bool" where
  "rounds_in_order R [] \<longleftrightarrow> True"
| "rounds_in_order R (x # xs) \<longleftrightarrow>
     (cert_round x \<le> 1 \<or> cert_round x - 1 \<in> R) \<and> rounds_in_order (insert (cert_round x) R) xs"

definition rounds_present :: "round \<Rightarrow> consensus_state \<Rightarrow> round set \<Rightarrow> bool" where
  "rounds_present depth s R \<longleftrightarrow> (\<forall>r \<in> R. \<forall>k. 1 \<le> k \<and> k \<le> r \<longrightarrow> k \<in> R) \<and> (\<forall>r \<in> R. r + depth < 2 ^ 64) \<and>
     (\<forall>r \<in> R. last_committed_round s < r \<longrightarrow> (\<exists>y \<in> dag_certs (dag s). cert_round y = r))"

lemma rounds_present_insert:
  assumes "rounds_present depth s R" "cert_round x \<le> 1 \<or> cert_round x - 1 \<in> R" "cert_round x + depth < 2 ^ 64"
    and "dag_wf cr (dag s)"
  shows "rounds_present depth (s\<lparr>dag := dag_insert cr x (dag s)\<rparr>) (insert (cert_round x) R)"
proof -
  have keep: "\<exists>z \<in> dag_certs (dag_insert cr x (dag s)). cert_round z = cert_round y" if y: "y \<in> dag_certs (dag s)" for y
  proof (cases "cert_round y = cert_round x \<and> cert_origin y = cert_origin x")
    case True
    then show ?thesis using dag_insert_certs [of x cr "dag s"] by metis
  next
    case False
    obtain m where m: "map_of (dag s) (cert_round y) = Some m" "(cert_origin y, cert_digest cr y, y) \<in> set m" "hm_wf m"
      using assms(4) y by (rule dag_slot)
    show ?thesis
    proof (cases "cert_round y = cert_round x")
      case True
      then show ?thesis using dag_insert_certs [of x cr "dag s"] by metis
    next
      case False
      with m have "map_of (dag_insert cr x (dag s)) (cert_round y) = Some m"
        by (simp add: dag_insert_def map_of_entry)
      then show ?thesis using m(2) dag_certs_lookup by blast
    qed
  qed
  have new: "x \<in> dag_certs (dag_insert cr x (dag s))" by (rule dag_insert_certs)
  have "k \<in> insert (cert_round x) R" if "1 \<le> k" "k \<le> cert_round x" for k
  proof (cases "k = cert_round x")
    case False
    with that have "k \<le> cert_round x - 1" "\<not> cert_round x \<le> 1" by auto
    with assms(1,2) that(1) show ?thesis by (auto simp: rounds_present_def)
  qed simp
  moreover have "\<exists>z \<in> dag_certs (dag_insert cr x (dag s)). cert_round z = r"
    if "r \<in> R" "last_committed_round s < r" for r
    using that assms(1) keep unfolding rounds_present_def by metis
  ultimately show ?thesis
    using assms(1,3) new unfolding rounds_present_def by auto
qed

lemma consensus_step_total:
  assumes inv: "consensus_inv cr c S s0 out" "lcr_ok s0" "rounds_present depth s0 R"
    and x: "cert_origin x \<in> members c" "cert_round x \<le> 1 \<or> cert_round x - 1 \<in> R" "cert_round x + depth < 2 ^ 64"
  shows "\<exists>s' xs. consensus_step cr c depth s0 x = Some (s', xs) \<and> lcr_ok s' \<and>
    rounds_present depth s' (insert (cert_round x) R)"
proof -
  let ?s = "s0\<lparr>dag := dag_insert cr x (dag s0)\<rparr>" and ?R = "insert (cert_round x) R"
  from inv(1) have wf0: "dag_wf cr (dag s0)" by (simp add: consensus_inv_def)
  have pres: "rounds_present depth ?s ?R" by (rule rounds_present_insert [OF inv(3) x(2,3) wf0])
  have lcr: "lcr_ok ?s" using inv(2) by (simp add: lcr_ok_def)
  have wf: "dag_wf cr (dag ?s)" using dag_wf_insert(1) [OF wf0] by simp
  have down: "\<forall>r \<in> ?R. \<forall>k. 1 \<le> k \<and> k \<le> r \<longrightarrow> k \<in> ?R"
    and there: "\<forall>r \<in> ?R. last_committed_round ?s < r \<longrightarrow> (\<exists>y \<in> dag_certs (dag ?s). cert_round y = r)"
    using pres unfolding rounds_present_def by blast+
  have round_in: "map_of (dag ?s) k \<noteq> None" if k: "last_committed_round ?s < k" "k \<le> cert_round x" for k
  proof -
    have "k \<in> ?R" using down [rule_format, of "cert_round x" k] k by simp
    with there k(1) obtain y where y: "y \<in> dag_certs (dag ?s)" "cert_round y = k" by blast
    obtain m where "map_of (dag ?s) (cert_round y) = Some m" using wf y(1) by (rule dag_slot)
    with y(2) show ?thesis by simp
  qed
  show ?thesis
  proof (cases "consensus_step cr c depth s0 x")
    case None
    let ?r = "u64_sub (cert_round x) 1"
    from None have r: "?r mod 2 = 0" "4 \<le> ?r" "last_committed_round s0 < ?r - 2"
      by (auto simp: consensus_step_def Let_def split: if_splits)
    have "u64_sub 0 1 = 18446744073709551615" by (simp add: u64_sub_def)
    with r(1) have "cert_round x \<noteq> 0" by (intro notI) simp
    then have R: "?r = cert_round x - 1" "?r - 2 = cert_round x - 3" "?r - 1 = cert_round x - 2"
      by (simp_all add: u64_sub_def)
    then have big: "5 \<le> cert_round x" "last_committed_round ?s < cert_round x - 3" using r by auto
    obtain children where ch: "map_of (dag ?s) (cert_round x - 2) = Some children"
    proof -
      have "last_committed_round ?s < cert_round x - 2" using big by linarith
      from round_in [OF this] that show thesis by auto
    qed
    from None R r ch obtain dg leader where l: "leader_at c (cert_round x - 3) (dag ?s) = Some (dg, leader)"
      and fail: "order_leaders c leader ?s = None \<or>
        (\<exists>ls. order_leaders c leader ?s = Some ls \<and> commit_leaders cr depth (rev ls) ?s [] = None)"
      by (auto simp: consensus_step_def Let_def split: option.splits if_splits)
    have lr: "cert_round leader = cert_round x - 3" using leader_at_round [OF wf l] by simp
    have small: "u64_add (last_committed_round ?s) 2 = last_committed_round ?s + 2"
      using x(3) big by (simp add: u64_add_small)
    have "order_leaders c leader ?s \<noteq> None"
      unfolding order_leaders_def
    proof (rule order_leaders_loop_total [where lo = "last_committed_round ?s + 2" and hi = "cert_round leader", OF wf])
      show "map_of (dag ?s) k \<noteq> None" if "last_committed_round ?s + 2 \<le> k" "k < cert_round leader" for k
        using that lr by (intro round_in) auto
      show "\<forall>r \<in> set (leader_rounds (last_committed_round ?s) (cert_round leader)).
          last_committed_round ?s + 2 \<le> r \<and> r < cert_round leader"
        using leader_rounds_subset [of "last_committed_round ?s" "cert_round leader"] small by auto
    qed simp
    with fail obtain ls where ls: "order_leaders c leader ?s = Some ls" "commit_leaders cr depth (rev ls) ?s [] = None"
      by auto
    have "state_within cr (dag ?s) ?s"
      using consensus_inv_within [OF consensus_inv_insert [OF inv(1) x(1)]] .
    moreover have "set (rev ls) \<subseteq> dag_certs (dag ?s)"
      using order_leaders_certs [OF ls(1)] leader_at_certs [OF l] by auto
    ultimately show ?thesis using commit_leaders_total ls(2) by blast
  next
    case (Some r)
    obtain s' xs where r: "r = (s', xs)" by (cases r)
    with Some have step: "consensus_step cr c depth s0 x = Some (s', xs)" by simp
    then show ?thesis
    proof (cases rule: consensus_step_cases)
      case none
      with step pres lcr show ?thesis by auto
    next
      case (commit s leader dg children leaders)
      note k = commit_leaders_keeps [OF commit(9) wf [folded commit(1)] lcr [folded commit(1)]]
      have "rounds_present depth s' ?R"
        unfolding rounds_present_def
      proof (intro conjI)
        show "\<forall>r \<in> ?R. \<forall>k. 1 \<le> k \<and> k \<le> r \<longrightarrow> k \<in> ?R" by (rule down)
        show bound: "\<forall>r \<in> ?R. r + depth < 2 ^ 64" using pres by (simp add: rounds_present_def)
        show "\<forall>r \<in> ?R. last_committed_round s' < r \<longrightarrow> (\<exists>y \<in> dag_certs (dag s'). cert_round y = r)"
        proof (intro ballI impI)
          fix r
          assume r: "r \<in> ?R" "last_committed_round s' < r"
          have "last_committed_round s \<le> last_committed_round s'" using k by blast
          with r(2) have "last_committed_round ?s < r" by (simp add: commit(1))
          with there r(1) obtain y where "y \<in> dag_certs (dag s)" "cert_round y = r"
            unfolding commit(1) by blast
          moreover have "r + depth < 2 ^ 64" using bound r(1) by blast
          ultimately show "\<exists>y \<in> dag_certs (dag s'). cert_round y = r" using k [of y] r(2) by blast
        qed
      qed
      with step k show ?thesis by blast
    qed
  qed
qed

lemma consensus_never_panics_run:
  assumes "\<forall>x \<in> set xs. cert_origin x \<in> members c \<and> cert_round x + depth < 2 ^ 64"
    and "rounds_in_order {} xs"
  shows "\<exists>s out. consensus_run cr c depth (consensus_start cr c) xs = Some (s, out)"
proof -
  have "\<exists>s' out'. consensus_run cr c depth s xs = Some (s', out')"
    if "consensus_inv cr c S s out" "lcr_ok s" "rounds_present depth s R" "rounds_in_order R xs"
      "\<forall>x \<in> set xs. cert_origin x \<in> members c \<and> cert_round x + depth < 2 ^ 64" for S s out R
    using that
  proof (induction xs arbitrary: S s out R)
    case Nil
    then show ?case by simp
  next
    case (Cons x xs)
    then have x: "cert_origin x \<in> members c" "cert_round x \<le> 1 \<or> cert_round x - 1 \<in> R" "cert_round x + depth < 2 ^ 64"
      by simp_all
    from consensus_step_total [OF Cons.prems(1-3) x] obtain s1 o1 where
      s1: "consensus_step cr c depth s x = Some (s1, o1)" "lcr_ok s1" "rounds_present depth s1 (insert (cert_round x) R)"
      by blast
    from Cons.IH [OF consensus_step_inv [OF Cons.prems(1) x(1) s1(1)] s1(2,3)] Cons.prems(4,5) s1(1)
    show ?case by auto
  qed
  moreover have "lcr_ok (consensus_start cr c)" by (rule consensus_start_lcr)
  moreover have "rounds_present depth (consensus_start cr c) {}" by (simp add: rounds_present_def)
  ultimately show ?thesis using consensus_start_inv assms by blast
qed

text \<open>
  C20: when the primary delivers the rounds in causal order, every
  \<open>expect\<close> of the consensus holds: it processes any sequence of certificates of members.
\<close>

theorem consensus_never_panics:
  assumes "\<forall>x \<in> set xs. cert_origin x \<in> members c \<and> cert_round x + depth < 2 ^ 64"
    and "rounds_in_order {} xs"
  shows "\<exists>s out. consensus_run cr c depth (consensus_start cr c) xs = Some (s, out)"
  by (rule consensus_never_panics_run [OF assms])

end
