(* ===== verification/Samples.thy ===== *)
theory Samples
  imports Messages
begin

text \<open>
  Concrete inputs: a toy instance of the third-party functions, a committee of four equal
  authorities, and headers and certificates signed by them. The witnesses evaluate the
  definitions of the development on these. The toy hash keeps the bytes at which the sample
  messages differ: the last one and those at 31 and 32; the toy signature is the message
  behind the secret key.
\<close>

definition toy_sha :: "bytes \<Rightarrow> bytes" where
  "toy_sha bs = take 64 (take 1 (rev bs) @ take 1 (drop 32 bs) @ take 1 (drop 31 bs) @ replicate 64 0)"

definition toy_sign :: "bytes \<Rightarrow> bytes \<Rightarrow> bytes" where
  "toy_sign k m = take 64 (take 32 k @ m @ replicate 64 0)"

definition toy_crypto :: crypto where
  "toy_crypto = \<lparr> sha512 = toy_sha, b64_encode = map (\<lambda>b. char_of (unat b)),
     b64_decode = (\<lambda>s. Some (map (\<lambda>ch. word_of_nat (of_char ch)) s)),
     keypair_parses = (\<lambda>k. length k = 64), dalek_sign = toy_sign,
     signature_parses = (\<lambda>s. length s = 64), key_parses = (\<lambda>k. length k = 32),
     dalek_verify_strict = (\<lambda>k m s. s = toy_sign k m),
     dalek_verify_batch = (\<lambda>ms ss ks. ss = map2 toy_sign ks ms) \<rparr>"

definition sample_key :: "nat \<Rightarrow> public_key" where
  "sample_key i = PublicKey (replicate 31 0 @ [word_of_nat i])"

definition sample_secret :: "nat \<Rightarrow> secret_key" where
  "sample_secret i = SecretKey (key_bytes (sample_key i) @ replicate 32 0)"

definition sample_addr :: "nat \<Rightarrow> nat \<Rightarrow> socket_addr" where
  "sample_addr i p = SocketAddr [10, 0, 0, word_of_nat i] p"

definition sample_authority :: "stake \<Rightarrow> nat \<Rightarrow> authority" where
  "sample_authority s i = \<lparr> auth_stake = s,
     auth_primary = \<lparr> primary_to_primary = sample_addr i 1, worker_to_primary = sample_addr i 2 \<rparr>,
     auth_workers = [(0, \<lparr> transactions = sample_addr i 3, worker_to_worker = sample_addr i 4,
                          primary_to_worker = sample_addr i 5 \<rparr>)] \<rparr>"

definition sample_committee :: committee where
  "sample_committee = \<lparr> authorities = map (\<lambda>i. (sample_key i, sample_authority 1 i)) [1, 2, 3, 4] \<rparr>"

lemma sample_key_inj [simp]:
  "i < 256 \<Longrightarrow> j < 256 \<Longrightarrow> sample_key i = sample_key j \<longleftrightarrow> i = j"
proof -
  assume "i < 256" "j < 256"
  then have "unat (word_of_nat i :: byte) = i" "unat (word_of_nat j :: byte) = j"
    by (simp_all add: unat_of_nat)
  then have "(word_of_nat i :: byte) = word_of_nat j \<longleftrightarrow> i = j" by metis
  then show ?thesis by (simp add: sample_key_def)
qed

lemma wf_sample_key [simp]: "wf_key (sample_key i)"
  by (simp add: sample_key_def wf_key_def)

lemma map_of_sample_committee:
  "map_of (authorities sample_committee) =
     [sample_key 1 \<mapsto> sample_authority 1 1, sample_key 2 \<mapsto> sample_authority 1 2,
      sample_key 3 \<mapsto> sample_authority 1 3, sample_key 4 \<mapsto> sample_authority 1 4]"
  by (simp add: sample_committee_def fun_upd_twist)

lemma members_sample: "members sample_committee = {sample_key 1, sample_key 2, sample_key 3, sample_key 4}"
  by (simp add: sample_committee_def)

lemma stake_sample:
  "stake_of sample_committee k = (if k \<in> {sample_key 1, sample_key 2, sample_key 3, sample_key 4} then 1 else 0)"
  by (simp add: stake_of_def map_of_sample_committee sample_authority_def)

lemma weight_sample:
  "weight_of sample_committee k = (if k \<in> {sample_key 1, sample_key 2, sample_key 3, sample_key 4} then 1 else 0)"
  by (simp add: weight_of_def stake_sample)

lemma total_weight_sample: "total_weight sample_committee = 4"
  by (simp add: total_weight_def members_sample weight_sample)

lemma sample_committee_sorted: "bt_wf (authorities sample_committee)"
  by code_simp

lemma sample_committee_ok: "committee_ok sample_committee"
  using sample_committee_sorted
  by (simp add: committee_ok_def total_weight_sample) (simp add: sample_committee_def)

lemma quorum_sample: "quorum_threshold sample_committee = 3"
  by (simp add: quorum_threshold_def total_votes_def sample_committee_def sample_authority_def)

lemma validity_sample: "validity_threshold sample_committee = 2"
  by (simp add: validity_threshold_def total_votes_def sample_committee_def sample_authority_def)

section \<open>Sample messages\<close>

definition unwrap_or :: "'a \<Rightarrow> ('a, 'e) outcome \<Rightarrow> 'a" where
  "unwrap_or d x = (case x of Ok a \<Rightarrow> a | _ \<Rightarrow> d)"

definition sample_header :: "nat \<Rightarrow> round \<Rightarrow> digest list \<Rightarrow> header" where
  "sample_header i r ps =
     unwrap_or default_header (header_new toy_crypto (sample_secret i) (sample_key i) r [] ps)"

definition sample_cert :: "nat \<Rightarrow> round \<Rightarrow> digest list \<Rightarrow> nat list \<Rightarrow> certificate" where
  "sample_cert i r ps voters =
     (let x = \<lparr> c_header = sample_header i r ps, c_votes = [] \<rparr>
      in x\<lparr>c_votes := map (\<lambda>j. (sample_key j,
            unwrap_or default_signature (signature_new toy_crypto (cert_digest toy_crypto x) (sample_secret j)))) voters\<rparr>)"

abbreviation "sample_x \<equiv> sample_cert 1 1 [] [1, 2, 3]"
abbreviation "sample_y \<equiv> sample_cert 2 1 [] [2, 3, 4]"

lemma sample_certs_verify:
  "cert_verify toy_crypto sample_committee sample_x = Ok ()"
  "cert_verify toy_crypto sample_committee sample_y = Ok ()"
  by code_simp+

lemma sample_certs_not_genesis:
  "\<not> is_genesis sample_committee sample_x" "\<not> is_genesis sample_committee sample_y"
  by code_simp+

lemma toy_sha_size: "sha512_size toy_crypto"
proof -
  have "length (toy_sha bs) = 64" for bs
    unfolding toy_sha_def length_take length_append length_replicate by (simp add: min_def)
  then show ?thesis by (simp add: sha512_size_def toy_crypto_def)
qed

lemma sample_header_simps [simp]:
  "h_author (sample_header i r ps) = sample_key i" "h_round (sample_header i r ps) = r"
  "h_payload (sample_header i r ps) = []" "h_parents (sample_header i r ps) = ps"
  "wf_digest (h_id (sample_header i r ps))"
  by (simp_all add: sample_header_def header_new_def Let_def request_signature_def signature_new_def
      unwrap_or_def toy_crypto_def [THEN arg_cong, of keypair_parses] sample_secret_def
      sample_key_def header_digest_def wf_hash_bytes toy_sha_size)

lemma sample_cert_simps [simp]:
  "c_header (sample_cert i r ps vs) = sample_header i r ps"
  "map fst (c_votes (sample_cert i r ps vs)) = map sample_key vs"
  by (simp_all add: sample_cert_def Let_def)

lemma wf_sample_header: "r < 2 ^ 64 \<Longrightarrow> \<forall>d \<in> set ps. wf_digest d \<Longrightarrow> wf_header (sample_header i r ps)"
  by (simp add: wf_header_def)

lemma sample_voters: "cert_voters (sample_cert i r ps vs) = sample_key ` set vs"
proof -
  have "cert_voters (sample_cert i r ps vs) = set (map fst (c_votes (sample_cert i r ps vs)))"
    by (simp add: cert_voters_def del: sample_cert_simps)
  then show ?thesis by (simp only: sample_cert_simps set_map)
qed

theorem cert_verify_Ok_witness:
  "cert_verify toy_crypto sample_committee sample_x = Ok () \<and>
   cq.has_quorum sample_committee (cert_voters sample_x)"
  using cert_verify_Ok [OF sample_committee_ok, of toy_crypto sample_x]
    sample_certs_verify(1) sample_certs_not_genesis(1) by simp

theorem valid_certificates_share_voters_witness:
  "unat (validity_threshold sample_committee)
     \<le> sum (weight_of sample_committee) ({sample_key 2, sample_key 3})"
proof -
  have "cert_voters sample_x \<inter> cert_voters sample_y = {sample_key 2, sample_key 3}"
    unfolding sample_voters by auto
  with valid_certificates_share_voters [OF sample_committee_ok sample_certs_verify sample_certs_not_genesis]
  show ?thesis by simp
qed

theorem header_id_binds_witness:
  "header_content (sample_header 1 1 []) = header_content (sample_header 1 1 [])"
proof (rule header_id_binds [where cr = toy_crypto])
  show "wf_header (sample_header 1 1 [])" "wf_header (sample_header 1 1 [])"
    by (simp_all add: wf_sample_header)
qed simp_all

theorem certificate_digest_binds_witness:
  "cert_eq sample_x (sample_cert 1 1 [] [1, 2, 4])"
proof (rule certificate_digest_binds [where cr = toy_crypto])
  have eq: "cert_preimage sample_x = cert_preimage (sample_cert 1 1 [] [1, 2, 4])"
    by (simp add: cert_preimage_def cert_round_def cert_origin_def)
  then show "inj_on (hash_bytes toy_crypto) {cert_preimage sample_x, cert_preimage (sample_cert 1 1 [] [1, 2, 4])}"
    by simp
  show "cert_digest toy_crypto sample_x = cert_digest toy_crypto (sample_cert 1 1 [] [1, 2, 4])"
    by (simp only: cert_digest_def eq)
  show "wf_header (c_header sample_x)" "wf_header (c_header (sample_cert 1 1 [] [1, 2, 4]))"
    by (simp_all add: wf_sample_header)
qed

section \<open>What header ids do not determine\<close>

text \<open>
  Eight payload entries and nine parents fill the same 288 bytes: chunk \<open>i\<close> below is 32 times
  the byte \<open>i + 1\<close>, and cutting the nine chunks every 36 bytes gives eight ascending
  digest/worker pairs.
\<close>

definition amb_parents :: "digest list" where
  "amb_parents = map (\<lambda>i. Digest (replicate 32 (word_of_nat (i + 1)))) [0..<9]"

definition amb_payload :: "(digest \<times> worker_id) list" where
  "amb_payload = map (\<lambda>i. (Digest (replicate (32 - 4 * i) (word_of_nat (i + 1)) @ replicate (4 * i) (word_of_nat (i + 2))),
     of_le_bytes (replicate 4 (word_of_nat (i + 2))))) [0..<8]"

definition amb_a :: header where
  "amb_a = default_header\<lparr>h_author := sample_key 1, h_round := 1, h_payload := amb_payload\<rparr>"

definition amb_b :: header where
  "amb_b = default_header\<lparr>h_author := sample_key 1, h_round := 1, h_parents := amb_parents\<rparr>"

lemma amb_chunks:
  "concat (map (\<lambda>i. replicate (32 - 4 * i) (word_of_nat (i + 1) :: byte) @ replicate (4 * i) (word_of_nat (i + 2)) @
      replicate 4 (word_of_nat (i + 2))) [0..<8]) =
   concat (map (\<lambda>i. replicate 32 (word_of_nat (i + 1))) [0..<9])"
  by code_simp

lemma amb_bytes: "concat (map payload_entry_bytes amb_payload) = concat (map digest_bytes amb_parents)"
  using amb_chunks le_bytes_of_le_bytes [of "replicate 4 _"]
  by (simp add: amb_payload_def amb_parents_def payload_entry_bytes_def comp_def)

lemma amb_payload_keys: "strict_sorted_list (map fst amb_payload)"
proof -
  have "map fst amb_payload = map (\<lambda>i. Digest (replicate (32 - 4 * i) (word_of_nat (i + 1)) @
      replicate (4 * i) (word_of_nat (i + 2)))) [0..<8]"
    by (simp add: amb_payload_def)
  also have "strict_sorted_list \<dots>" by code_simp
  finally show ?thesis .
qed

lemma amb_wf: "wf_header amb_a" "wf_header amb_b" "bt_wf amb_payload" "strict_sorted_list amb_parents"
proof -
  have "of_le_bytes (replicate 4 b) < 2 ^ 32" for b
    using of_le_bytes_bound [of "replicate 4 b"] by simp
  then show "wf_header amb_a"
    by (auto simp: wf_header_def amb_a_def default_header_def amb_payload_def wf_digest_def default_digest_def)
  show "wf_header amb_b"
    by (auto simp: wf_header_def amb_b_def default_header_def amb_parents_def wf_digest_def default_digest_def)
  show "bt_wf amb_payload" by (rule amb_payload_keys)
  show "strict_sorted_list amb_parents" by code_simp
qed

text \<open>
  The bytes hashed into a header id carry no lengths, so a header with
  eight batches and no parents and a header with no batch and nine parents have one id under
  every hash function: the hypothesis on the payload length in \<open>header_id_binds\<close> is needed.
\<close>

theorem header_id_ambiguous:
  "\<exists>a b. wf_header a \<and> wf_header b \<and> bt_wf (h_payload a) \<and> bt_wf (h_payload b) \<and>
     strict_sorted_list (h_parents a) \<and> strict_sorted_list (h_parents b) \<and>
     header_content a \<noteq> header_content b \<and> (\<forall>cr. header_digest cr a = header_digest cr b)"
proof (intro exI conjI allI)
  show "header_content amb_a \<noteq> header_content amb_b"
    by (simp add: header_content_def amb_a_def amb_b_def default_header_def amb_payload_def)
  show "header_digest cr amb_a = header_digest cr amb_b" for cr
    using amb_bytes
    by (simp add: header_digest_def header_preimage_def amb_a_def amb_b_def default_header_def)
qed (use amb_wf in \<open>simp_all add: amb_a_def amb_b_def default_header_def\<close>)

end
