(* ===== verification/Roles.thy ===== *)
theory Roles
  imports F64 Consensus Samples
begin

text \<open>
  Who attacks and who is a victim: the same committee is divided by the core
  (primary/src/core.rs), the proposer (primary/src/proposer.rs) and the consensus
  (consensus/src/lib.rs), from the environment variables \<open>ATTACK_MODE\<close>, \<open>ATTACKER_RATIO\<close>,
  \<open>VICTIM_RATIO\<close> and \<open>VICTIM_COUNT\<close>; and the attack success rate the consensus logs.
  An unset or unparsable variable is \<open>None\<close>.
\<close>

record attack_env =
  env_mode :: string
  env_attacker_ratio :: "f64 option"
  env_victim_ratio :: "f64 option"
  env_victim_count :: "nat option"
  env_asr_window :: "int option"
  env_asr_threshold :: "nat option"

definition option_or :: "'a option \<Rightarrow> 'a \<Rightarrow> 'a" where
  "option_or m d = (case m of None \<Rightarrow> d | Some x \<Rightarrow> x)"

definition attack_active :: "string \<Rightarrow> bool" where
  "attack_active mode \<longleftrightarrow> mode = ''fissure'' \<or> mode = ''speculative'' \<or> mode = ''sluggish''"

definition node_names :: "committee \<Rightarrow> public_key list" where
  "node_names c = sort (map fst (authorities c))"

section \<open>Core\<close>

definition core_attacker_count :: "committee \<Rightarrow> f64 \<Rightarrow> nat" where
  "core_attacker_count c attacker_ratio = f64_as_nat (f64_mul (of_nat (committee_size c)) attacker_ratio)"

definition core_resolve_victim_count :: "committee \<Rightarrow> f64 \<Rightarrow> f64 \<Rightarrow> nat option \<Rightarrow> nat" where
  "core_resolve_victim_count c attacker_ratio victim_ratio env_count =
     (let total_nodes = committee_size c; attacker_count = core_attacker_count c attacker_ratio
      in min (option_or env_count (f64_as_nat (f64_mul (of_nat total_nodes) victim_ratio)))
             (total_nodes - attacker_count))"

definition core_victim_nodes :: "committee \<Rightarrow> f64 \<Rightarrow> f64 \<Rightarrow> nat option \<Rightarrow> public_key set" where
  "core_victim_nodes c attacker_ratio victim_ratio env_count =
     (let attacker_count = core_attacker_count c attacker_ratio;
          victim_count = core_resolve_victim_count c attacker_ratio victim_ratio env_count
      in set (take victim_count (drop attacker_count (node_names c))))"

text \<open>\<open>iter().position(..)\<close>.\<close>

fun position :: "('a \<Rightarrow> bool) \<Rightarrow> 'a list \<Rightarrow> nat option" where
  "position P [] = None"
| "position P (x # xs) = (if P x then Some 0 else map_option Suc (position P xs))"

definition core_is_attacker :: "string \<Rightarrow> public_key \<Rightarrow> committee \<Rightarrow> f64 \<Rightarrow> bool" where
  "core_is_attacker mode name c attacker_ratio \<longleftrightarrow> attack_active mode \<and>
     option_or (position (\<lambda>n. n = name) (node_names c)) (committee_size c) < core_attacker_count c attacker_ratio"

section \<open>Proposer\<close>

definition proposer_attacker_count :: "committee \<Rightarrow> f64 \<Rightarrow> nat" where
  "proposer_attacker_count c attacker_ratio = f64_as_nat (f64_mul (of_nat (length (authorities c))) attacker_ratio)"

definition is_attacker_node :: "public_key \<Rightarrow> committee \<Rightarrow> f64 \<Rightarrow> bool" where
  "is_attacker_node name c attacker_ratio \<longleftrightarrow>
     (\<exists>n \<in> set (take (proposer_attacker_count c attacker_ratio) (node_names c)). n = name)"

definition get_attacker_nodes :: "committee \<Rightarrow> f64 \<Rightarrow> public_key set" where
  "get_attacker_nodes c attacker_ratio = set (take (proposer_attacker_count c attacker_ratio) (node_names c))"

definition get_victim_nodes :: "committee \<Rightarrow> f64 \<Rightarrow> f64 \<Rightarrow> nat option \<Rightarrow> public_key set" where
  "get_victim_nodes c attacker_ratio victim_ratio env_count =
     (let total_nodes = length (authorities c);
          attacker_count = proposer_attacker_count c attacker_ratio;
          victim_count = min (option_or env_count (f64_as_nat (f64_mul (of_nat total_nodes) victim_ratio)))
                             (total_nodes - attacker_count)
      in set (take victim_count (drop attacker_count (node_names c))))"

section \<open>Consensus\<close>

definition resolve_ratio_count :: "nat \<Rightarrow> f64 \<Rightarrow> nat" where
  "resolve_ratio_count n ratio =
     (if ratio \<le> 0 then 0 else f64_round_nat (f64_mul (of_nat n) ratio))"

definition resolve_victim_count :: "nat \<Rightarrow> nat \<Rightarrow> f64 \<Rightarrow> nat option \<Rightarrow> nat" where
  "resolve_victim_count n attacker_count victim_ratio env_count =
     min (option_or env_count (resolve_ratio_count n victim_ratio)) (n - attacker_count)"

text \<open>Attackers and victims for given ratios: the selection of \<open>spawn\<close> and of both ASR functions.\<close>

definition consensus_roles :: "committee \<Rightarrow> f64 \<Rightarrow> f64 \<Rightarrow> nat option \<Rightarrow> public_key set \<times> public_key set" where
  "consensus_roles c attacker_ratio victim_ratio env_count =
     (let n = committee_size c; attacker_count = resolve_ratio_count n attacker_ratio;
          victim_count = resolve_victim_count n attacker_count victim_ratio env_count
      in (set (take attacker_count (node_names c)), set (take victim_count (drop attacker_count (node_names c)))))"

definition consensus_spawn_roles :: "attack_env \<Rightarrow> committee \<Rightarrow> public_key set \<times> public_key set" where
  "consensus_spawn_roles e c =
     (if attack_active (env_mode e) \<or> env_mode e = ''baseline''
      then consensus_roles c (option_or (env_attacker_ratio e) (f64_of (308 / 1000)))
             (option_or (env_victim_ratio e) (f64_of (231 / 1000))) (env_victim_count e)
      else ({}, {}))"

section \<open>The attack success rate\<close>

definition asr_enabled :: "string \<Rightarrow> bool" where
  "asr_enabled mode \<longleftrightarrow> mode \<in> {''speculative'', ''fissure'', ''sluggish'', ''baseline''}"

text \<open>The loop that sorts the blocks by role: attackers first, then victims.\<close>

fun blocks_by_role ::
    "public_key set \<Rightarrow> public_key set \<Rightarrow> (nat \<times> round \<times> public_key) list
      \<Rightarrow> (nat \<times> round) list \<times> (nat \<times> round) list" where
  "blocks_by_role attackers victims [] = ([], [])"
| "blocks_by_role attackers victims ((height, r, author) # blocks) =
     (let (as, vs) = blocks_by_role attackers victims blocks
      in if author \<in> attackers then ((height, r) # as, vs)
         else if author \<in> victims then (as, (height, r) # vs)
         else (as, vs))"

text \<open>The pair loop of \<open>track_asr\<close>, with \<open>successes\<close> and \<open>total_pairs\<close>.\<close>

definition track_pair :: "nat \<times> round \<Rightarrow> nat \<times> round \<Rightarrow> nat \<times> nat \<Rightarrow> nat \<times> nat" where
  "track_pair att vic counts =
     (case (att, vic, counts) of ((ah, ar), (vh, vr), (successes, pairs)) \<Rightarrow>
        if vr \<le> ar then (if ah < vh then successes + 1 else successes, pairs + 1) else counts)"

definition track_asr :: "attack_env \<Rightarrow> committee \<Rightarrow> certificate list \<Rightarrow> (nat \<times> nat) option" where
  "track_asr e c ordered =
     (if \<not> asr_enabled (env_mode e) then None
      else if length ordered < option_or (env_asr_threshold e) 10 then None
      else let (attackers, victims) = consensus_roles c (option_or (env_attacker_ratio e) (f64_of (33 / 100)))
                 (option_or (env_victim_ratio e) (f64_of (22 / 100))) (env_victim_count e);
               (as, vs) = blocks_by_role attackers victims
                 (map (\<lambda>(h, x). (h, cert_round x, cert_origin x)) (enumerate 0 ordered))
           in Some (fold (\<lambda>att counts. fold (track_pair att) vs counts) as (0, 0)))"

text \<open>
  \<open>global_finalization\<close>: every output certificate gets the next height. Rounds are below
  \<open>2 ^ 63\<close> here, so that their difference as \<open>i64\<close> is exact.
\<close>

definition finalize_all ::
    "(nat \<times> round \<times> public_key) list \<Rightarrow> certificate list \<Rightarrow> (nat \<times> round \<times> public_key) list" where
  "finalize_all gf xs = foldl (\<lambda>g x. g @ [(length g, cert_round x, cert_origin x)]) gf xs"

record asr_counts =
  successes_a :: nat
  total_a :: nat
  successes_b :: nat
  total_b :: nat

definition global_pair :: "string \<Rightarrow> int \<Rightarrow> nat \<times> round \<Rightarrow> nat \<times> round \<Rightarrow> asr_counts \<Rightarrow> asr_counts" where
  "global_pair mode window att vic n =
     (case (att, vic) of ((ah, ar), (vh, vr)) \<Rightarrow>
        let diff = int vr - int ar; win = (if ah < vh then 1 else 0)
        in if mode = ''baseline''
           then n\<lparr>total_a := total_a n + 1, successes_a := successes_a n + win\<rparr>
           else let n1 = (if diff = 0 then n\<lparr>total_b := total_b n + 1, successes_b := successes_b n + win\<rparr> else n)
                in if \<bar>diff\<bar> \<le> window \<and> (if mode = ''sluggish'' then 0 < diff else diff \<le> 0)
                   then n1\<lparr>total_a := total_a n1 + 1, successes_a := successes_a n1 + win\<rparr> else n1)"

definition calculate_global_asr ::
    "attack_env \<Rightarrow> committee \<Rightarrow> (nat \<times> round \<times> public_key) list \<Rightarrow> asr_counts option" where
  "calculate_global_asr e c gf =
     (if \<not> asr_enabled (env_mode e) then None
      else let (attackers, victims) = consensus_roles c (option_or (env_attacker_ratio e) (f64_of (33 / 100)))
                 (option_or (env_victim_ratio e) (f64_of (22 / 100))) (env_victim_count e);
               (as, vs) = blocks_by_role attackers victims gf
           in Some (fold (\<lambda>att counts. fold (global_pair (env_mode e) (option_or (env_asr_window e) 1) att) vs counts) as
                \<lparr> successes_a = 0, total_a = 0, successes_b = 0, total_b = 0 \<rparr>))"

section \<open>Properties\<close>

lemma position_take:
  "\<exists>x \<in> set xs. P x \<Longrightarrow> option_or (position P xs) (length xs) < k \<longleftrightarrow> (\<exists>x \<in> set (take k xs). P x)"
proof (induction xs arbitrary: k)
  case Nil
  then show ?case by simp
next
  case (Cons x xs)
  have pos: "position P ys = None \<longleftrightarrow> \<not> (\<exists>y \<in> set ys. P y)" for ys by (induction ys) auto
  show ?case
  proof (cases k)
    case 0
    then show ?thesis by simp
  next
    case (Suc k')
    show ?thesis
    proof (cases "P x")
      case True
      with Suc show ?thesis by (simp add: option_or_def)
    next
      case False
      with Cons.prems have ex: "\<exists>x \<in> set xs. P x" by simp
      with pos [of xs] obtain i where "position P xs = Some i" by (cases "position P xs") auto
      with Cons.IH [OF ex, of k'] Suc False show ?thesis by (simp add: option_or_def)
    qed
  qed
qed

lemma length_node_names [simp]: "length (node_names c) = committee_size c"
  by (simp add: node_names_def committee_size_def)

lemma set_node_names [simp]: "set (node_names c) = members c"
  by (simp add: node_names_def)

lemma distinct_node_names: "committee_ok c \<Longrightarrow> distinct (node_names c)"
  by (simp add: node_names_def committee_ok_distinct)

lemma take_drop_disjoint: "distinct xs \<Longrightarrow> set (take i xs) \<inter> set (take j (drop i xs)) = {}"
  using set_take_disj_set_drop_if_distinct [of xs i i] set_take_subset [of j "drop i xs"] by blast

text \<open>
  The core and the proposer of a node divide the committee in the
  same way, and no authority is both attacker and victim.
\<close>

theorem core_proposer_roles_agree:
  assumes "committee_ok c" "name \<in> members c"
  shows "(core_is_attacker mode name c ar \<longleftrightarrow> attack_active mode \<and> is_attacker_node name c ar) \<and>
    core_victim_nodes c ar vr k = get_victim_nodes c ar vr k \<and>
    get_attacker_nodes c ar \<inter> get_victim_nodes c ar vr k = {}"
proof -
  have n: "length (authorities c) = committee_size c" by (simp add: committee_size_def)
  have count: "proposer_attacker_count c ar = core_attacker_count c ar"
    by (simp add: proposer_attacker_count_def core_attacker_count_def n)
  have "core_is_attacker mode name c ar \<longleftrightarrow> attack_active mode \<and> is_attacker_node name c ar"
    using position_take [of "node_names c" "\<lambda>n. n = name" "core_attacker_count c ar"] assms(2)
    by (simp add: core_is_attacker_def is_attacker_node_def count)
  moreover have "core_victim_nodes c ar vr k = get_victim_nodes c ar vr k"
    by (simp add: core_victim_nodes_def get_victim_nodes_def core_resolve_victim_count_def count n Let_def)
  moreover have "get_attacker_nodes c ar \<inter> get_victim_nodes c ar vr k = {}"
    using take_drop_disjoint [OF distinct_node_names [OF assms(1)]]
    by (simp add: get_attacker_nodes_def get_victim_nodes_def Let_def)
  ultimately show ?thesis by simp
qed

lemma node_names_sample: "node_names sample_committee = [sample_key 1, sample_key 2, sample_key 3, sample_key 4]"
  by code_simp

lemma size_sample: "committee_size sample_committee = 4"
  by (simp add: committee_size_def sample_committee_def)

lemma ratio_counts:
  "f64_as_nat (f64_mul 4 (f64_of (33 / 100))) = 1" "f64_as_nat (f64_mul 4 (f64_of (22 / 100))) = 0"
  "f64_round_nat (f64_mul 4 (f64_of (33 / 100))) = 1" "f64_round_nat (f64_mul 4 (f64_of (22 / 100))) = 1"
  "0 < f64_of (33 / 100)" "0 < f64_of (22 / 100)"
  by code_simp+

text \<open>
  For one committee and the default ratios, the consensus, which
  rounds the counts, measures against other victims than those the core and the proposer,
  which truncate them, attack: in a committee of four the first has a victim, the others none.
\<close>

theorem consensus_roles_differ:
  "\<exists>c. committee_ok c \<and>
     snd (consensus_roles c (f64_of (33 / 100)) (f64_of (22 / 100)) None) \<noteq>
     get_victim_nodes c (f64_of (33 / 100)) (f64_of (22 / 100)) None"
proof (intro exI conjI)
  have "length (authorities sample_committee) = 4" using size_sample by (simp add: committee_size_def)
  then show "snd (consensus_roles sample_committee (f64_of (33 / 100)) (f64_of (22 / 100)) None) \<noteq>
      get_victim_nodes sample_committee (f64_of (33 / 100)) (f64_of (22 / 100)) None"
    using ratio_counts
    by (simp add: consensus_roles_def get_victim_nodes_def proposer_attacker_count_def resolve_ratio_count_def
        resolve_victim_count_def size_sample node_names_sample option_or_def Let_def)
qed (rule sample_committee_ok)

theorem core_proposer_roles_agree_witness:
  "get_attacker_nodes sample_committee (f64_of (33 / 100)) \<inter>
     get_victim_nodes sample_committee (f64_of (33 / 100)) (f64_of (22 / 100)) (Some 2) = {}"
  using core_proposer_roles_agree [OF sample_committee_ok, of "sample_key 1"] members_sample by blast

section \<open>What the rates count\<close>

lemma fold_pairs:
  assumes "\<And>a v n. f a v n = (if P a v then (if Q a v then fst n + 1 else fst n, snd n + 1) else n)"
  shows "fold (\<lambda>a n. fold (f a) vs n) as n =
    (fst n + length (filter (\<lambda>(a, v). P a v \<and> Q a v) (List.product as vs)),
     snd n + length (filter (\<lambda>(a, v). P a v) (List.product as vs)))"
proof (induction "as" arbitrary: n)
  case Nil
  then show ?case by simp
next
  case (Cons a as')
  have "fold (f a) vs n =
      (fst n + length (filter (\<lambda>v. P a v \<and> Q a v) vs), snd n + length (filter (P a) vs))" for n
    by (induction vs arbitrary: n) (auto simp: assms)
  with Cons.IH show ?case by (simp add: filter_map comp_def)
qed

text \<open>
  \<open>track_asr\<close> counts, over all pairs of an attacker block and a victim block
  of the ordered sequence with the attacker's round at least the victim's, the pairs and those
  in which the attacker comes first; the rate is never above one.
\<close>

theorem track_asr_counts:
  assumes "track_asr e c ordered = Some (successes, pairs)"
    and "consensus_roles c (option_or (env_attacker_ratio e) (f64_of (33 / 100)))
      (option_or (env_victim_ratio e) (f64_of (22 / 100))) (env_victim_count e) = (attackers, victims)"
    and "blocks_by_role attackers victims (map (\<lambda>(h, x). (h, cert_round x, cert_origin x)) (enumerate 0 ordered)) = (as, vs)"
  shows "pairs = length (filter (\<lambda>((ah, ar), (vh, vr)). vr \<le> ar) (List.product as vs)) \<and>
    successes = length (filter (\<lambda>((ah, ar), (vh, vr)). vr \<le> ar \<and> ah < vh) (List.product as vs)) \<and>
    successes \<le> pairs"
proof -
  have counts: "(successes, pairs) = fold (\<lambda>att counts. fold (track_pair att) vs counts) as (0, 0)"
    using assms by (simp add: track_asr_def split: if_splits)
  have pair: "track_pair a v n = (if snd v \<le> snd a then (if fst a < fst v then fst n + 1 else fst n, snd n + 1) else n)" for a v n
    by (simp add: track_pair_def split: prod.splits)
  have eq: "(\<lambda>(a, v). snd v \<le> snd a \<and> fst a < fst v) = (\<lambda>((ah, ar), (vh, vr)). vr \<le> ar \<and> ah < vh)"
    "(\<lambda>(a, v). snd v \<le> snd a) = (\<lambda>((ah::nat, ar::nat), (vh::nat, vr)). vr \<le> ar)"
    by (auto simp: fun_eq_iff)
  from counts have
    "pairs = length (filter (\<lambda>((ah, ar), (vh, vr)). vr \<le> ar) (List.product as vs))"
    "successes = length (filter (\<lambda>((ah, ar), (vh, vr)). vr \<le> ar \<and> ah < vh) (List.product as vs))"
    unfolding fold_pairs [OF pair] eq by simp_all
  moreover have "length (filter (\<lambda>((ah, ar), (vh, vr)). vr \<le> ar \<and> ah < vh) ps) \<le>
      length (filter (\<lambda>((ah, ar), (vh, vr)). vr \<le> ar) ps)" for ps :: "((nat \<times> nat) \<times> nat \<times> nat) list"
    by (induction ps) auto
  ultimately show ?thesis by simp
qed

definition sample_env :: attack_env where
  "sample_env = \<lparr> env_mode = ''fissure'', env_attacker_ratio = None, env_victim_ratio = None,
     env_victim_count = Some 1, env_asr_window = None, env_asr_threshold = Some 2 \<rparr>"

theorem track_asr_counts_witness:
  "(1::nat) = length (filter (\<lambda>((ah, ar), (vh, vr)). vr \<le> ar \<and> ah < vh)
     (List.product [(0::nat, 2::round)] [(1::nat, 1::round)]))"
proof -
  have roles: "consensus_roles sample_committee (option_or (env_attacker_ratio sample_env) (f64_of (33 / 100)))
      (option_or (env_victim_ratio sample_env) (f64_of (22 / 100))) (env_victim_count sample_env) =
      ({sample_key 1}, {sample_key 2})"
    using ratio_counts
    by (simp add: consensus_roles_def resolve_ratio_count_def resolve_victim_count_def size_sample
        node_names_sample option_or_def sample_env_def)
  let ?xs = "[sample_cert 1 2 [] [], sample_cert 2 1 [] []]"
  have entries: "map (\<lambda>(h, x). (h, cert_round x, cert_origin x)) (enumerate 0 ?xs) =
      [(0, 2, sample_key 1), (1, 1, sample_key 2)]"
    by (simp add: cert_round_def cert_origin_def)
  have blocks: "blocks_by_role {sample_key 1} {sample_key 2}
      (map (\<lambda>(h, x). (h, cert_round x, cert_origin x)) (enumerate 0 ?xs)) = ([(0, 2)], [(1, 1)])"
    unfolding entries by simp
  have "track_asr sample_env sample_committee ?xs = Some (1, 1)"
    unfolding track_asr_def roles using blocks
    by (simp add: asr_enabled_def sample_env_def option_or_def track_pair_def)
  from track_asr_counts [OF this roles blocks] show ?thesis by simp
qed

text \<open>\<open>finalize_all\<close> numbers the outputs consecutively.\<close>

lemma finalize_all_heights:
  "map fst gf = [0 ..< length gf] \<Longrightarrow> map fst (finalize_all gf xs) = [0 ..< length gf + length xs]"
proof (induction xs arbitrary: gf)
  case Nil
  then show ?case by (simp add: finalize_all_def)
next
  case (Cons x xs)
  from Cons.IH [of "gf @ [(length gf, cert_round x, cert_origin x)]"] Cons.prems
  show ?case by (simp add: finalize_all_def)
qed

end
