(* ===== verification/Proposer.thy ===== *)
theory Proposer
  imports Roles
begin

text \<open>
  The proposer of the primary (primary/src/proposer.rs): it collects parents from the core and
  batch digests from the workers and makes the node's headers, as an honest node or in one of
  the attack modes. Times are milliseconds of the clock; where the code reads the clock, the
  step takes the reading. The environment variables are fields of \<open>proposer_env\<close>.
\<close>

unbundle bit_operations_syntax

section \<open>Constants and state\<close>

text \<open>\<open>pe_powi\<close> is \<open>f64::powi\<close>, whose precision the standard library leaves open.\<close>

record proposer_env =
  pe_crypto :: crypto
  pe_name :: public_key
  pe_secret :: secret_key
  pe_header_size :: nat
  pe_max_header_delay :: nat
  pe_is_attacker :: bool
  pe_attacker_nodes :: "public_key set"
  pe_victim_nodes :: "public_key set"
  pe_attack_active :: bool
  pe_mode :: string
  pe_committee_size :: nat
  pe_p_max :: nat
  pe_p_max_limit :: nat
  pe_num_workers :: nat
  pe_grace_ms :: nat
  pe_refresh_parents :: bool
  pe_require_victim :: bool
  pe_network_factor :: f64
  pe_decay_rate :: f64
  pe_powi :: "f64 \<Rightarrow> nat \<Rightarrow> f64"

text \<open>\<open>pr_headers\<close> is what went to the core, oldest first; \<open>pr_deadline\<close> the timer.\<close>

record proposer_state =
  pr_round :: round
  pr_last_parents :: "(digest \<times> public_key) list"
  pr_digests :: "(digest \<times> worker_id) list"
  pr_payload_size :: nat
  pr_total_rounds :: nat
  pr_exclusions :: nat
  pr_victim_blocks :: nat
  pr_attempts :: nat
  pr_honest_round :: round
  pr_proposed :: bool
  pr_victim_round :: "round option"
  pr_victim_at :: "nat option"
  pr_deadline :: nat
  pr_headers :: "header list"

text \<open>What \<open>spawn\<close> computes: the roles, the delay of a sluggish attacker, the first state.\<close>

definition proposer_delay :: "string \<Rightarrow> bool \<Rightarrow> nat \<Rightarrow> f64 \<Rightarrow> nat" where
  "proposer_delay mode is_attacker max_delay multiplier =
     (if mode = ''sluggish'' \<and> is_attacker then f64_as_nat (f64_mul (f64_of (of_nat max_delay)) multiplier)
      else max_delay)"

definition proposer_spawn ::
    "attack_env \<Rightarrow> committee \<Rightarrow> nat \<Rightarrow> f64 \<Rightarrow> proposer_env \<Rightarrow> proposer_env" where
  "proposer_spawn a c max_delay multiplier e =
     (let mode = env_mode a;
          attacker_ratio = option_or (env_attacker_ratio a) (f64_of (33 / 100));
          victim_ratio = option_or (env_victim_ratio a) (f64_of (22 / 100));
          is_attacker = attack_active mode \<and> is_attacker_node (pe_name e) c attacker_ratio
      in e\<lparr>pe_max_header_delay := proposer_delay mode is_attacker max_delay multiplier,
           pe_is_attacker := is_attacker,
           pe_attacker_nodes := get_attacker_nodes c attacker_ratio,
           pe_victim_nodes := get_victim_nodes c attacker_ratio victim_ratio (env_victim_count a),
           pe_attack_active := attack_active mode, pe_mode := mode,
           pe_committee_size := length (authorities c)\<rparr>)"

definition proposer_start :: "proposer_env \<Rightarrow> committee \<Rightarrow> nat \<Rightarrow> proposer_state" where
  "proposer_start e c now = \<lparr> pr_round = 1,
     pr_last_parents = map (\<lambda>x. (cert_digest (pe_crypto e) x, cert_origin x)) (genesis c),
     pr_digests = [], pr_payload_size = 0, pr_total_rounds = 0, pr_exclusions = 0, pr_victim_blocks = 0,
     pr_attempts = 0, pr_honest_round = 0, pr_proposed = False, pr_victim_round = None, pr_victim_at = None,
     pr_deadline = now + pe_max_header_delay e, pr_headers = [] \<rparr>"

definition attacking :: "proposer_env \<Rightarrow> string \<Rightarrow> bool" where
  "attacking e mode \<longleftrightarrow> pe_attack_active e \<and> pe_is_attacker e \<and> pe_mode e = mode"

section \<open>Fissure: leaving out victims\<close>

text \<open>
  When every authority is a victim the code divides by zero; the infinity or NaN that results is
  then capped to the same 0.85.
\<close>

definition calculate_exclusion_probability :: "proposer_env \<Rightarrow> round \<Rightarrow> f64" where
  "calculate_exclusion_probability e r =
     (let fa = of_nat (card (pe_attacker_nodes e)); fl = of_nat (card (pe_victim_nodes e));
          n = of_nat (pe_committee_size e); cap = f64_of (85 / 100)
      in if n = fl then cap
         else let base = f64_add (1 / 2) (f64_div fa (f64_mul 2 (f64_sub n fl)));
                  adjusted = f64_mul base (pe_network_factor e)
              in min (f64_mul adjusted (pe_powi e (pe_decay_rate e) r)) cap)"

definition random_factor :: "digest \<Rightarrow> f64" where
  "random_factor d = f64_div (of_nat (unat (digest_bytes d ! 0))) 255"

definition min_parents :: "proposer_env \<Rightarrow> nat" where
  "min_parents e = 2 * ((pe_committee_size e - 1) div 3) + 1"

text \<open>The loop over the parents: how many were left out, how many victims there were, who stays.\<close>

fun exclude_victims ::
    "proposer_env \<Rightarrow> round \<Rightarrow> nat \<Rightarrow> (digest \<times> public_key) list \<Rightarrow> nat \<Rightarrow> nat \<Rightarrow> digest list
      \<Rightarrow> nat \<times> nat \<times> digest list" where
  "exclude_victims e r max_excludable [] excluded victims kept = (excluded, victims, kept)"
| "exclude_victims e r max_excludable ((d, origin) # ps) excluded victims kept =
     (let is_victim = origin \<in> pe_victim_nodes e;
          victims' = (if is_victim then victims + 1 else victims)
      in if is_victim \<and> excluded < max_excludable \<and> random_factor d < calculate_exclusion_probability e r
         then exclude_victims e r max_excludable ps (excluded + 1) victims' kept
         else exclude_victims e r max_excludable ps excluded victims' (kept @ [d]))"

definition preprocess_parents_with_origins ::
    "proposer_env \<Rightarrow> proposer_state \<Rightarrow> (digest \<times> public_key) list \<Rightarrow> proposer_state \<times> digest list" where
  "preprocess_parents_with_origins e s ps =
     (if length ps \<le> min_parents e then (s, map fst ps)
      else let (excluded, victims, kept) = exclude_victims e (pr_round s) (length ps - min_parents e) ps 0 0 []
           in (s\<lparr>pr_total_rounds := pr_total_rounds s + 1, pr_exclusions := pr_exclusions s + excluded,
                 pr_victim_blocks := pr_victim_blocks s + victims\<rparr>, kept))"

text \<open>The older variant, which guesses the author of a parent from its digest.\<close>

definition is_anchor_block :: "digest \<Rightarrow> bool" where
  "is_anchor_block d \<longleftrightarrow> digest_bytes d ! 0 = 0 \<and> digest_bytes d ! 1 = 0"

definition is_victim_block :: "proposer_env \<Rightarrow> digest \<Rightarrow> bool" where
  "is_victim_block e d =
     (let hash_sum = sum_list (map unat (take 8 (digest_bytes d)));
          node_id = hash_sum mod pe_committee_size e;
          attacker_count = card (pe_attacker_nodes e); victim_count = card (pe_victim_nodes e)
      in attacker_count \<le> node_id \<and> node_id < attacker_count + victim_count)"

definition should_exclude_parent :: "proposer_env \<Rightarrow> round \<Rightarrow> digest \<Rightarrow> bool" where
  "should_exclude_parent e r d \<longleftrightarrow> \<not> is_anchor_block d \<and> is_victim_block e d \<and>
     random_factor d < calculate_exclusion_probability e r"

fun exclude_guessed ::
    "proposer_env \<Rightarrow> round \<Rightarrow> nat \<Rightarrow> digest list \<Rightarrow> nat \<Rightarrow> nat \<Rightarrow> digest list \<Rightarrow> nat \<times> nat \<times> digest list" where
  "exclude_guessed e r max_excludable [] excluded victims kept = (excluded, victims, kept)"
| "exclude_guessed e r max_excludable (d # ds) excluded victims kept =
     (let victims' = (if is_victim_block e d then victims + 1 else victims)
      in if excluded < max_excludable \<and> should_exclude_parent e r d
         then exclude_guessed e r max_excludable ds (excluded + 1) victims' kept
         else exclude_guessed e r max_excludable ds excluded victims' (kept @ [d]))"

definition preprocess_parents_for_attack ::
    "proposer_env \<Rightarrow> proposer_state \<Rightarrow> digest list \<Rightarrow> proposer_state \<times> digest list" where
  "preprocess_parents_for_attack e s ds =
     (if length ds \<le> min_parents e then (s, ds)
      else let (excluded, victims, kept) = exclude_guessed e (pr_round s) (length ds - min_parents e) ds 0 0 []
           in (s\<lparr>pr_total_rounds := pr_total_rounds s + 1, pr_exclusions := pr_exclusions s + excluded,
                 pr_victim_blocks := pr_victim_blocks s + victims\<rparr>, kept))"

section \<open>Speculative: choosing among candidate headers\<close>

definition speculative_worker_seed :: "round \<Rightarrow> nat \<Rightarrow> nat \<Rightarrow> 64 word" where
  "speculative_worker_seed r candidate_index worker_id =
     (let seed = push_bit 32 (word_of_nat r) XOR word_of_nat candidate_index XOR
                 ((word_of_nat worker_id + 1) * 0x9E3779B97F4A7C15);
          seed = (seed XOR drop_bit 30 seed) * 0xBF58476D1CE4E5B9;
          seed = (seed XOR drop_bit 27 seed) * 0x94D049BB133111EB
      in seed XOR drop_bit 31 seed)"

text \<open>\<open>get(i)\<close> and \<open>last()\<close> as lists of at most one element.\<close>

definition get_at :: "'a list \<Rightarrow> nat \<Rightarrow> 'a list" where
  "get_at xs i = take 1 (drop i xs)"

definition last_of :: "'a list \<Rightarrow> 'a list" where
  "last_of xs = take 1 (rev xs)"

definition worker_sample :: "nat \<Rightarrow> 'a list \<Rightarrow> 'a list" where
  "worker_sample seed ds =
     (let window = min 4 (length ds); start = length ds - window; recent = drop start ds;
          alt = start + (seed div 7) mod window; alt2 = start + (seed div 17) mod window;
          variant = seed mod 6
      in if variant = 0 then last_of ds
         else if variant = 1 then take 2 (rev recent)
         else if variant = 2 then get_at ds alt @ last_of ds
         else if variant = 3 then recent
         else if variant = 4 then get_at ds alt @ get_at ds alt2
         else [])"

text \<open>The body of the loop over the workers.\<close>

definition worker_part :: "round \<Rightarrow> (digest \<times> worker_id) list \<Rightarrow> nat \<Rightarrow> nat \<Rightarrow> (digest \<times> worker_id) list" where
  "worker_part r all candidate_index worker_id =
     (let ds = filter (\<lambda>(_, wid). wid = worker_id mod 2 ^ 32) all
      in if ds = [] then [] else worker_sample (unat (speculative_worker_seed r candidate_index worker_id)) ds)"

definition sample_worker_batches ::
    "proposer_env \<Rightarrow> round \<Rightarrow> (digest \<times> worker_id) list \<Rightarrow> nat \<Rightarrow> (digest \<times> worker_id) list" where
  "sample_worker_batches e r all candidate_index =
     (let sampled = concat (map (worker_part r all candidate_index) [0 ..< pe_num_workers e]);
          unique = dedup_by fst {} sampled
      in if unique = [] then all else unique)"

definition compute_header_digest ::
    "proposer_env \<Rightarrow> round \<Rightarrow> (digest, worker_id) btree_map \<Rightarrow> digest btree_set \<Rightarrow> digest" where
  "compute_header_digest e r payload parents =
     (let header_id = take 32 (sha512 (pe_crypto e) (key_bytes (pe_name e) @ le_bytes 8 r @
            concat (map (\<lambda>(digest, worker_id). digest_bytes digest @ le_bytes 4 worker_id) payload) @
            concat (map digest_bytes parents)))
      in hash_bytes (pe_crypto e) (header_id @ le_bytes 8 r @ key_bytes (pe_name e)))"

text \<open>The loop over the zipped bytes.\<close>

fun bytes_win :: "(byte \<times> byte) list \<Rightarrow> bool" where
  "bytes_win [] \<longleftrightarrow> True"
| "bytes_win ((b1, b2) # bs) \<longleftrightarrow> (if b2 < b1 then True else if b1 < b2 then False else bytes_win bs)"

definition digest_wins_over :: "digest \<Rightarrow> digest \<Rightarrow> bool" where
  "digest_wins_over d1 d2 = bytes_win (zip (digest_bytes d1) (digest_bytes d2))"

definition candidate ::
    "proposer_env \<Rightarrow> round \<Rightarrow> (digest \<times> worker_id) list \<Rightarrow> digest btree_set \<Rightarrow> nat \<Rightarrow> digest \<times> (digest \<times> worker_id) list" where
  "candidate e r all parents i =
     (let ds = sample_worker_batches e r all i in (compute_header_digest e r (bt_collect ds) parents, ds))"

fun best_candidate ::
    "(digest \<times> 'a) option \<Rightarrow> (digest \<times> 'a) list \<Rightarrow> (digest \<times> 'a) option" where
  "best_candidate best [] = best"
| "best_candidate None (c # cs) = best_candidate (Some c) cs"
| "best_candidate (Some b) (c # cs) = best_candidate (Some (if digest_wins_over (fst c) (fst b) then c else b)) cs"

text \<open>
  \<open>late\<close> is the candidate at which the clock passes the timeout; the first one is always made.
  With no candidate the \<open>expect\<close> fails.
\<close>

definition propose_speculative_block ::
    "proposer_env \<Rightarrow> nat \<Rightarrow> proposer_state \<Rightarrow> digest list \<Rightarrow> (proposer_state \<times> header) option" where
  "propose_speculative_block e late s parents =
     (let p_max = min (pe_p_max e) (pe_p_max_limit e); all = pr_digests s; fixed_parents = bs_collect parents;
          s' = s\<lparr>pr_digests := [], pr_attempts := pr_attempts s + p_max\<rparr>
      in case best_candidate None (map (candidate e (pr_round s) all fixed_parents) [0 ..< min p_max (max 1 late)]) of
           None \<Rightarrow> None
         | Some (_, chosen) \<Rightarrow>
             (case header_new (pe_crypto e) (pe_secret e) (pe_name e) (pr_round s) (bt_collect chosen) fixed_parents of
                Ok h \<Rightarrow> Some (s', h) | _ \<Rightarrow> None))"

section \<open>Making a header\<close>

definition make_header :: "proposer_env \<Rightarrow> nat \<Rightarrow> proposer_state \<Rightarrow> proposer_state option" where
  "make_header e late s =
     (let ps = pr_last_parents s;
          (s1, parents) = (if attacking e ''fissure''
             then preprocess_parents_with_origins e (s\<lparr>pr_last_parents := []\<rparr>) ps
             else (s\<lparr>pr_last_parents := []\<rparr>, map fst ps));
          made = (if attacking e ''speculative'' then propose_speculative_block e late s1 parents
             else (case header_new (pe_crypto e) (pe_secret e) (pe_name e) (pr_round s1) (bt_collect (pr_digests s1))
                     (bs_collect parents) of
                   Ok h \<Rightarrow> Some (s1\<lparr>pr_digests := []\<rparr>, h) | _ \<Rightarrow> None))
      in map_option (\<lambda>(s2, h). s2\<lparr>pr_headers := pr_headers s2 @ [h], pr_proposed := True,
           pr_victim_round := None, pr_victim_at := None\<rparr>) made)"

section \<open>The main loop\<close>

datatype proposer_event = FromCore "(digest \<times> public_key) list" round | FromWorkers digest worker_id
  | FromVictimRound round | TimerFired

text \<open>
  The clock at the top of an iteration and when its event is handled, the candidate at which a
  speculative search times out there, and the event.
\<close>

record proposer_tick =
  tk_now :: nat
  tk_cut :: nat
  tk_later :: nat
  tk_cut_later :: nat
  tk_event :: proposer_event

definition speculative_victim_seen :: "proposer_env \<Rightarrow> proposer_state \<Rightarrow> bool" where
  "speculative_victim_seen e s \<longleftrightarrow> attacking e ''speculative'' \<and> pr_victim_round s = Some (pr_round s)"

definition should_propose :: "proposer_env \<Rightarrow> nat \<Rightarrow> proposer_state \<Rightarrow> bool" where
  "should_propose e now s =
     (let enough_parents = pr_last_parents s \<noteq> [];
          enough_digests = pe_header_size e \<le> pr_payload_size s;
          timer_expired = pr_deadline s \<le> now;
          is_sluggish = attacking e ''sluggish'';
          is_speculative = attacking e ''speculative'';
          sluggish_victim_ahead = is_sluggish \<and> (case pr_victim_round s of None \<Rightarrow> False | Some r \<Rightarrow> pr_round s < r);
          victim_triggered = speculative_victim_seen e s \<and> enough_parents \<and> pr_digests s \<noteq> [];
          victim_grace_elapsed = (case pr_victim_at s of None \<Rightarrow> False | Some seen_at \<Rightarrow> pe_grace_ms e \<le> now - seen_at);
          victim_ready = victim_triggered \<and> (timer_expired \<or> (victim_grace_elapsed \<and> enough_digests) \<or> victim_grace_elapsed)
      in if is_sluggish then enough_parents \<and> (sluggish_victim_ahead \<or> timer_expired)
         else if is_speculative \<and> pe_require_victim e then victim_ready
         else if victim_ready then True
         else (timer_expired \<or> enough_digests) \<and> enough_parents)"

definition reset_timer :: "proposer_env \<Rightarrow> nat \<Rightarrow> proposer_state \<Rightarrow> proposer_state" where
  "reset_timer e now s = s\<lparr>pr_deadline := now + pe_max_header_delay e\<rparr>"

definition make_header_now :: "proposer_env \<Rightarrow> nat \<Rightarrow> proposer_state \<Rightarrow> proposer_state option" where
  "make_header_now e late s = map_option (\<lambda>s. s\<lparr>pr_payload_size := 0\<rparr>) (make_header e late s)"

definition propose_if_due :: "proposer_env \<Rightarrow> nat \<Rightarrow> nat \<Rightarrow> proposer_state \<Rightarrow> proposer_state option" where
  "propose_if_due e now late s =
     (if should_propose e now s then map_option (reset_timer e now) (make_header_now e late s) else Some s)"

definition advance :: "(digest \<times> public_key) list \<Rightarrow> round \<Rightarrow> proposer_state \<Rightarrow> proposer_state" where
  "advance parents r s = s\<lparr>pr_round := u64_add r 1, pr_last_parents := parents, pr_proposed := False,
     pr_victim_round := None, pr_victim_at := None\<rparr>"

text \<open>
  Parents from the core. \<open>seen\<close> is \<open>speculative_victim_seen\<close> as it was at the top of the
  iteration. The sluggish attacker's sleep only passes time.
\<close>

definition from_core ::
    "proposer_env \<Rightarrow> bool \<Rightarrow> nat \<Rightarrow> (digest \<times> public_key) list \<Rightarrow> round \<Rightarrow> proposer_state \<Rightarrow> proposer_state option" where
  "from_core e seen late parents r s =
     (let is_sluggish = attacking e ''sluggish''; is_speculative = attacking e ''speculative''
      in if is_speculative \<and> pe_refresh_parents e \<and> u64_add r 1 = pr_round s \<and> \<not> pr_proposed s \<and>
            length (pr_last_parents s) < length parents
         then Some (s\<lparr>pr_last_parents := parents\<rparr>)
         else let s = s\<lparr>pr_honest_round := max r (pr_honest_round s)\<rparr>
              in if r < pr_round s then Some s
                 else Option.bind (if is_sluggish \<and> \<not> pr_proposed s \<and> pr_last_parents s \<noteq> []
                                   then make_header_now e late s else Some s) (\<lambda>s.
                      Option.bind (if is_speculative \<and> \<not> pr_proposed s \<and> pr_last_parents s \<noteq> [] \<and>
                                      pr_digests s \<noteq> [] \<and> (\<not> pe_require_victim e \<or> seen)
                                   then make_header_now e late s else Some s) (\<lambda>s.
                      Some (advance parents r s))))"

definition from_victim_round ::
    "proposer_env \<Rightarrow> nat \<Rightarrow> nat \<Rightarrow> round \<Rightarrow> proposer_state \<Rightarrow> proposer_state option" where
  "from_victim_round e now late r s =
     (if attacking e ''speculative'' then Some (s\<lparr>pr_victim_round := Some r, pr_victim_at := Some now\<rparr>)
      else if attacking e ''sluggish''
      then let s = s\<lparr>pr_victim_round := Some r\<rparr>
           in if pr_round s < r \<and> \<not> pr_proposed s \<and> pr_last_parents s \<noteq> []
              then map_option (reset_timer e now) (make_header_now e late s) else Some s
      else Some s)"

fun handle_event :: "proposer_env \<Rightarrow> bool \<Rightarrow> proposer_tick \<Rightarrow> proposer_event \<Rightarrow> proposer_state \<Rightarrow> proposer_state option" where
  "handle_event e seen t (FromCore parents r) s = from_core e seen (tk_cut_later t) parents r s"
| "handle_event e seen t (FromWorkers d w) s =
     Some (s\<lparr>pr_payload_size := pr_payload_size s + digest_size d, pr_digests := pr_digests s @ [(d, w)]\<rparr>)"
| "handle_event e seen t (FromVictimRound r) s = from_victim_round e (tk_later t) (tk_cut_later t) r s"
| "handle_event e seen t TimerFired s = Some s"

definition proposer_step :: "proposer_env \<Rightarrow> proposer_state \<Rightarrow> proposer_tick \<Rightarrow> proposer_state option" where
  "proposer_step e s t =
     (let seen = speculative_victim_seen e s
      in Option.bind (propose_if_due e (tk_now t) (tk_cut t) s) (handle_event e seen t (tk_event t)))"

fun proposer_run :: "proposer_env \<Rightarrow> proposer_state \<Rightarrow> proposer_tick list \<Rightarrow> proposer_state option" where
  "proposer_run e s [] = Some s"
| "proposer_run e s (t # ts) = Option.bind (proposer_step e s t) (\<lambda>s. proposer_run e s ts)"

section \<open>Nonces\<close>

text \<open>Helpers of the speculative attack that hash a nonce.\<close>

definition compute_candidate_digest ::
    "proposer_env \<Rightarrow> round \<Rightarrow> (digest \<times> worker_id) list \<Rightarrow> nat \<Rightarrow> digest" where
  "compute_candidate_digest e r base nonce = hash_bytes (pe_crypto e)
     (concat (map (\<lambda>(digest, worker_id). digest_bytes digest @ le_bytes 4 worker_id) base) @
      le_bytes 8 nonce @ le_bytes 8 r @ key_bytes (pe_name e))"

definition compute_nonce_digest :: "proposer_env \<Rightarrow> round \<Rightarrow> nat \<Rightarrow> digest" where
  "compute_nonce_digest e r nonce =
     hash_bytes (pe_crypto e) (le_bytes 8 nonce @ le_bytes 8 r @ key_bytes (pe_name e))"

definition nonce_salt :: bytes where
  "nonce_salt = map (\<lambda>c. of_char c) ''speculative_nonce''"

definition generate_deterministic_nonce :: "proposer_env \<Rightarrow> round \<Rightarrow> nat \<Rightarrow> nat" where
  "generate_deterministic_nonce e r attempt = of_le_bytes (take 8 (sha512 (pe_crypto e)
     (le_bytes 8 r @ key_bytes (pe_name e) @ le_bytes 8 attempt @ nonce_salt)))"

end
