(* ===== verification/ProposerProps.thy ===== *)
theory ProposerProps
  imports Proposer
begin

text \<open>
  What the proposer guarantees (primary/src/proposer.rs): one header per round at most, a quorum
  of parents even when victims are left out, and in the speculative mode a header whose
  certificate digest is the largest of the candidates tried.
\<close>

section \<open>One header per round\<close>

text \<open>Headers go out in strictly ascending rounds, and one of the current round leaves no parents.\<close>

definition headers_ascend :: "proposer_state \<Rightarrow> bool" where
  "headers_ascend s \<longleftrightarrow> strict_sorted_list (map h_round (pr_headers s)) \<and>
     (\<forall>h \<in> set (pr_headers s). h_round h \<le> pr_round s) \<and>
     ((\<exists>h \<in> set (pr_headers s). h_round h = pr_round s) \<longrightarrow> pr_proposed s \<and> pr_last_parents s = [])"

lemma header_new_round: "header_new cr sk k r pl ps = Ok h \<Longrightarrow> h_round h = r \<and> h_author h = k \<and> h_payload h = pl \<and> h_parents h = ps"
  by (auto simp: header_new_def Let_def)

lemma preprocess_same: "preprocess_parents_with_origins e s ps = (s', ds) \<Longrightarrow>
    pr_round s' = pr_round s \<and> pr_headers s' = pr_headers s \<and> pr_last_parents s' = pr_last_parents s \<and> pr_digests s' = pr_digests s"
  by (auto simp: preprocess_parents_with_origins_def split: if_splits prod.splits)

lemma speculative_same: "propose_speculative_block e late s ds = Some (s', h) \<Longrightarrow>
    h_round h = pr_round s \<and> pr_round s' = pr_round s \<and> pr_headers s' = pr_headers s \<and> pr_last_parents s' = pr_last_parents s"
  by (auto simp: propose_speculative_block_def Let_def dest: header_new_round split: option.splits prod.splits outcome.splits)

lemma make_header_effect:
  assumes "make_header e late s = Some s'"
  shows "\<exists>h. h_round h = pr_round s \<and> pr_headers s' = pr_headers s @ [h] \<and> pr_round s' = pr_round s \<and>
    pr_last_parents s' = [] \<and> pr_proposed s'"
proof -
  obtain s1 ds where s1: "(if attacking e ''fissure''
      then preprocess_parents_with_origins e (s\<lparr>pr_last_parents := []\<rparr>) (pr_last_parents s)
      else (s\<lparr>pr_last_parents := []\<rparr>, map fst (pr_last_parents s))) = (s1, ds)"
    by fastforce
  then have "pr_round s1 = pr_round s \<and> pr_headers s1 = pr_headers s \<and> pr_last_parents s1 = []"
    by (auto dest: preprocess_same split: if_splits)
  with assms s1 show ?thesis
    by (auto simp: make_header_def Let_def split: if_splits outcome.splits dest!: speculative_same header_new_round)
qed

lemma make_header_ascends:
  assumes "make_header_now e late s = Some s'" "headers_ascend s" "pr_last_parents s \<noteq> [] \<or> \<not> pr_proposed s"
  shows "headers_ascend s' \<and> pr_round s' = pr_round s \<and> pr_proposed s' \<and> pr_last_parents s' = []"
proof -
  from assms(1) obtain s1 where s1: "make_header e late s = Some s1" "s' = s1\<lparr>pr_payload_size := 0\<rparr>"
    by (auto simp: make_header_now_def)
  from make_header_effect [OF s1(1)] obtain h where
    h: "h_round h = pr_round s" "pr_headers s1 = pr_headers s @ [h]" "pr_round s1 = pr_round s"
      "pr_last_parents s1 = []" "pr_proposed s1"
    by blast
  have "\<forall>h \<in> set (pr_headers s). h_round h < pr_round s"
    using assms(2,3) by (force simp: headers_ascend_def le_less)
  with h assms(2) show ?thesis
    by (auto simp: s1(2) headers_ascend_def sorted_wrt_append)
qed

lemma headers_ascend_update:
  assumes "headers_ascend s"
  shows "headers_ascend (s\<lparr>pr_honest_round := a\<rparr>)" "headers_ascend (s\<lparr>pr_victim_round := b, pr_victim_at := c\<rparr>)"
    "headers_ascend (s\<lparr>pr_victim_round := b\<rparr>)" "headers_ascend (s\<lparr>pr_payload_size := d, pr_digests := ds\<rparr>)"
    "headers_ascend (reset_timer e now s)"
  using assms by (simp_all add: headers_ascend_def reset_timer_def)

lemma advance_ascends:
  "headers_ascend s \<Longrightarrow> pr_round s \<le> r \<Longrightarrow> r + 1 < 2 ^ 64 \<Longrightarrow> headers_ascend (advance ps r s)"
  by (force simp: headers_ascend_def advance_def u64_add_def)

lemma maybe_make_header_ascends:
  assumes "(if b \<and> \<not> pr_proposed s \<and> P then make_header_now e late s else Some s) = Some s'" "headers_ascend s"
  shows "headers_ascend s' \<and> pr_round s' = pr_round s"
  using assms make_header_ascends [of e late s s'] by (auto split: if_splits)

lemma from_core_ascends:
  assumes "from_core e seen late ps r s = Some s'" "headers_ascend s" "r + 1 < 2 ^ 64"
  shows "headers_ascend s'"
proof (cases "attacking e ''speculative'' \<and> pe_refresh_parents e \<and> u64_add r 1 = pr_round s \<and> \<not> pr_proposed s \<and>
            length (pr_last_parents s) < length ps")
  case True
  with assms show ?thesis by (auto simp: from_core_def Let_def headers_ascend_def)
next
  case False
  let ?s = "s\<lparr>pr_honest_round := max r (pr_honest_round s)\<rparr>"
  have s: "headers_ascend ?s" using assms(2) by (rule headers_ascend_update)
  show ?thesis
  proof (cases "r < pr_round s")
    case True
    with False assms(1) s show ?thesis by (auto simp: from_core_def Let_def split: if_splits)
  next
    case ahead: False
    from assms(1) False ahead obtain s1 s2 where
      s1: "(if attacking e ''sluggish'' \<and> \<not> pr_proposed ?s \<and> pr_last_parents ?s \<noteq> [] then make_header_now e late ?s else Some ?s) = Some s1"
      and s2: "(if attacking e ''speculative'' \<and> \<not> pr_proposed s1 \<and> pr_last_parents s1 \<noteq> [] \<and> pr_digests s1 \<noteq> [] \<and>
          (\<not> pe_require_victim e \<or> seen) then make_header_now e late s1 else Some s1) = Some s2"
      and s': "s' = advance ps r s2"
      unfolding from_core_def Let_def if_not_P [OF False] by (auto simp: bind_eq_Some_conv)
    from maybe_make_header_ascends [OF s1 s] have 1: "headers_ascend s1 \<and> pr_round s1 = pr_round s" by simp
    from maybe_make_header_ascends [OF s2] 1 have "headers_ascend s2 \<and> pr_round s2 = pr_round s" by simp
    with ahead assms(3) show ?thesis unfolding s' by (simp add: advance_ascends)
  qed
qed

lemma made_and_reset_ascends:
  assumes "map_option (reset_timer e now) (make_header_now e late s) = Some s'" "headers_ascend s"
    and "pr_last_parents s \<noteq> [] \<or> \<not> pr_proposed s"
  shows "headers_ascend s'"
proof -
  from assms(1) obtain s1 where s1: "make_header_now e late s = Some s1" "s' = reset_timer e now s1" by auto
  from make_header_ascends [OF s1(1) assms(2,3)] show ?thesis
    unfolding s1(2) by (intro headers_ascend_update(5)) simp
qed

lemma from_victim_round_ascends:
  assumes "from_victim_round e now late r s = Some s'" "headers_ascend s"
  shows "headers_ascend s'"
proof (cases "attacking e ''speculative''")
  case True
  with assms(1) have "s' = s\<lparr>pr_victim_round := Some r, pr_victim_at := Some now\<rparr>"
    by (simp add: from_victim_round_def)
  with headers_ascend_update(2) [OF assms(2)] show ?thesis by simp
next
  case False
  let ?s = "s\<lparr>pr_victim_round := Some r\<rparr>"
  note s = headers_ascend_update(3) [OF assms(2), of "Some r"]
  consider "s' = s" | "s' = ?s"
    | "map_option (reset_timer e now) (make_header_now e late ?s) = Some s'" "\<not> pr_proposed ?s"
    using assms(1) False by (auto simp: from_victim_round_def Let_def split: if_splits)
  then show ?thesis
  proof cases
    case 3
    with s show ?thesis by (intro made_and_reset_ascends [OF 3(1)]) simp_all
  qed (use assms(2) s in simp_all)
qed

lemma propose_if_due_ascends:
  assumes "propose_if_due e now late s = Some s'" "headers_ascend s"
  shows "headers_ascend s'"
proof (cases "should_propose e now s")
  case True
  then have parents: "pr_last_parents s \<noteq> []" by (auto simp: should_propose_def Let_def split: if_splits)
  from True assms(1) have "map_option (reset_timer e now) (make_header_now e late s) = Some s'"
    by (simp only: propose_if_due_def if_True)
  from made_and_reset_ascends [OF this assms(2)] parents show ?thesis by blast
qed (use assms in \<open>simp add: propose_if_due_def\<close>)

text \<open>The round announced with an event leaves room for the next.\<close>

fun tick_ok :: "proposer_event \<Rightarrow> bool" where
  "tick_ok (FromCore ps r) \<longleftrightarrow> r + 1 < 2 ^ 64"
| "tick_ok _ \<longleftrightarrow> True"

lemma proposer_step_ascends:
  assumes "proposer_step e s t = Some s'" "headers_ascend s" "tick_ok (tk_event t)"
  shows "headers_ascend s'"
proof -
  from assms(1) obtain s1 where s1: "propose_if_due e (tk_now t) (tk_cut t) s = Some s1"
    "handle_event e (speculative_victim_seen e s) t (tk_event t) s1 = Some s'"
    by (auto simp: proposer_step_def Let_def bind_eq_Some_conv)
  from propose_if_due_ascends [OF s1(1) assms(2)] have 1: "headers_ascend s1" .
  show ?thesis
    using s1(2) 1 assms(3) from_core_ascends from_victim_round_ascends headers_ascend_update(4) [OF 1]
    by (cases "tk_event t") auto
qed

lemma proposer_run_ascends:
  "proposer_run e s ts = Some s' \<Longrightarrow> headers_ascend s \<Longrightarrow> \<forall>t \<in> set ts. tick_ok (tk_event t) \<Longrightarrow> headers_ascend s'"
  by (induction ts arbitrary: s) (auto simp: bind_eq_Some_conv dest: proposer_step_ascends)

text \<open>
  C38: in every mode, honest or attacking, the rounds of the headers a proposer
  makes strictly increase: it never makes two headers for one round.
\<close>

theorem one_header_per_round:
  assumes "proposer_run e (proposer_start e c now) ts = Some s" "\<forall>t \<in> set ts. tick_ok (tk_event t)"
  shows "strict_sorted_list (map h_round (pr_headers s))"
proof -
  have "headers_ascend (proposer_start e c now)" by (simp add: headers_ascend_def proposer_start_def)
  with proposer_run_ascends [OF assms(1) _ assms(2)] show ?thesis by (simp add: headers_ascend_def)
qed

section \<open>Leaving out victims\<close>

lemma exclude_victims_spec:
  assumes "exclude_victims e r m ps x v kept = (x', v', ds)" "x \<le> m"
  shows "\<exists>qs. ds = kept @ qs \<and> x' \<le> m \<and> x' + length qs = x + length ps \<and>
    qs \<in> set (subseqs (map fst ps)) \<and> (\<forall>(d, origin) \<in> set ps. origin \<notin> pe_victim_nodes e \<longrightarrow> d \<in> set qs)"
  using assms
proof (induction e r m ps x v kept rule: exclude_victims.induct)
  case (1 e r m x v kept)
  then show ?case by simp
next
  case (2 e r m d origin ps x v kept)
  let ?v = "if origin \<in> pe_victim_nodes e then v + 1 else v"
  let ?out = "origin \<in> pe_victim_nodes e \<and> x < m \<and> random_factor d < calculate_exclusion_probability e r"
  show ?case
  proof (cases ?out)
    case True
    with "2.prems"(1) have "exclude_victims e r m ps (x + 1) ?v kept = (x', v', ds)" by (simp add: Let_def)
    from "2.IH"(1) [OF refl refl True this] True show ?thesis
      by (auto simp: Let_def)
  next
    case False
    with "2.prems"(1) have "exclude_victims e r m ps x ?v (kept @ [d]) = (x', v', ds)" by (auto simp: Let_def)
    from "2.IH"(2) [OF refl refl False this "2.prems"(2)] show ?thesis
      by (auto simp: Let_def)
  qed
qed

text \<open>
  Leaving out victims keeps the order of the parents, drops no
  certificate of an authority that is not a victim, and never goes below \<open>2f+1\<close> parents (or the
  number there were, when that is smaller).
\<close>

theorem fissure_keeps_parents:
  assumes "preprocess_parents_with_origins e s ps = (s', ds)"
  shows "ds \<in> set (subseqs (map fst ps)) \<and> min (length ps) (min_parents e) \<le> length ds \<and>
    {d. \<exists>origin. (d, origin) \<in> set ps \<and> origin \<notin> pe_victim_nodes e} \<subseteq> set ds"
proof (cases "length ps \<le> min_parents e")
  case True
  with assms have "ds = map fst ps" by (simp add: preprocess_parents_with_origins_def)
  with True show ?thesis by (force simp: subseqs_refl)
next
  case False
  obtain x v qs where run: "exclude_victims e (pr_round s) (length ps - min_parents e) ps 0 0 [] = (x, v, qs)"
    by (metis prod_cases3)
  with False assms have "ds = qs" by (simp add: preprocess_parents_with_origins_def)
  with exclude_victims_spec [OF run] False show ?thesis by auto
qed

text \<open>
  Among \<open>n\<close> authorities with one vote each the minimum the
  proposer keeps is never above the quorum, and reaches it only when \<open>n = 3f + 1\<close>; otherwise a
  header with the minimum of parents fails the quorum check of every other node.
\<close>

theorem fissure_minimum_below_quorum:
  assumes "committee_ok c" "\<forall>k \<in> members c. stake_of c k = 1" "pe_committee_size e = committee_size c"
  shows "min_parents e \<le> unat (quorum_threshold c) \<and>
    (min_parents e = unat (quorum_threshold c) \<longleftrightarrow> committee_size c mod 3 = 1)"
proof -
  have "total_weight c = sum (\<lambda>_. 1) (members c)"
    unfolding total_weight_def
  proof (rule sum.cong [OF refl])
    fix k
    assume "k \<in> members c"
    with assms(2) have "stake_of c k = 1" by blast
    then show "weight_of c k = 1" by (simp add: weight_of_def)
  qed
  also have "\<dots> = committee_size c"
    using distinct_card [OF committee_ok_distinct [OF assms(1)]] by (simp add: committee_size_def)
  finally have "total_weight c = committee_size c" .
  moreover have "0 < committee_size c" using assms(1) by (simp add: committee_ok_def committee_size_def)
  moreover define f k where "f = (committee_size c - 1) div 3" and "k = (committee_size c - 1) mod 3"
  ultimately have n: "committee_size c = 3 * f + k + 1" "k < 3" by simp_all
  then have q: "unat (quorum_threshold c) = 2 * f + (2 * k + 2) div 3 + 1"
    using unat_quorum_threshold [OF assms(1)] \<open>total_weight c = committee_size c\<close> by simp
  have m: "min_parents e = 2 * f + 1" using assms(3) by (simp add: min_parents_def f_def)
  from n(2) consider "k = 0" | "k = 1" | "k = 2" by linarith
  then show ?thesis by cases (simp_all add: q m n(1), presburger+)
qed

section \<open>The speculative choice\<close>

lemma bytes_win_iff: "length a = length b \<Longrightarrow> bytes_win (zip a b) \<longleftrightarrow> b \<le> a"
  by (induction a b rule: list_induct2) auto

text \<open>
  For digests of one length the hand-written comparison of the speculative
  attack is the lexicographic order by which the consensus sorts the certificates of a round.
\<close>

theorem digest_wins_over_order:
  assumes "wf_digest d1" "wf_digest d2"
  shows "digest_wins_over d1 d2 \<longleftrightarrow> d2 \<le> d1"
  using bytes_win_iff assms by (simp add: digest_wins_over_def wf_digest_def less_eq_digest_def)

text \<open>
  The digest the proposer computes for a candidate is the digest of every
  certificate that will be made of the header with that payload and those parents.
\<close>

theorem candidate_digest_exact:
  assumes "header_new (pe_crypto e) secret (pe_name e) r payload parents = Ok h"
  shows "compute_header_digest e r payload parents = cert_digest (pe_crypto e) \<lparr> c_header = h, c_votes = votes \<rparr>"
proof -
  have "h_id h = hash_bytes (pe_crypto e) (key_bytes (pe_name e) @ le_bytes 8 r @
      concat (map payload_entry_bytes payload) @ concat (map digest_bytes parents))"
    using assms by (auto simp: header_new_def Let_def header_digest_def header_preimage_def)
  moreover have "(\<lambda>(digest, worker_id). digest_bytes digest @ le_bytes 4 worker_id) = payload_entry_bytes"
    by (auto simp: payload_entry_bytes_def fun_eq_iff)
  ultimately show ?thesis
    using header_new_round [OF assms]
    by (simp add: compute_header_digest_def cert_digest_def cert_preimage_def cert_round_def cert_origin_def
        hash_bytes_def Let_def)
qed

lemma best_candidate_spec:
  assumes "best_candidate b cs = Some c" "\<And>x. b = Some x \<Longrightarrow> wf_digest (fst x)" "\<forall>x \<in> set cs. wf_digest (fst x)"
  shows "c \<in> set_option b \<union> set cs \<and> (\<forall>x \<in> set_option b \<union> set cs. fst x \<le> fst c)"
  using assms
proof (induction b cs rule: best_candidate.induct)
  case (3 b c' cs)
  let ?b = "if digest_wins_over (fst c') (fst b) then c' else b"
  have order: "digest_wins_over (fst c') (fst b) \<longleftrightarrow> fst b \<le> fst c'"
    using 3(3,4) by (intro bytes_win_iff [of "digest_bytes (fst c')" "digest_bytes (fst b)", folded digest_wins_over_def less_eq_digest_def])
      (simp add: wf_digest_def)
  have "c \<in> set_option (Some ?b) \<union> set cs \<and> (\<forall>x \<in> set_option (Some ?b) \<union> set cs. fst x \<le> fst c)"
    using 3(2-4) by (intro "3.IH") (auto split: if_splits)
  moreover have "fst b \<le> fst ?b" "fst c' \<le> fst ?b" using order by auto
  ultimately show ?case by (auto split: if_splits intro: order_trans)
qed auto

lemma best_candidate_None: "best_candidate b cs = None \<longleftrightarrow> b = None \<and> cs = []"
  by (induction b cs rule: best_candidate.induct) auto

text \<open>
  The header a speculative proposer sends carries the payload of one of
  the candidates it had time for, and the digest of its certificate is the largest among them.
\<close>

theorem speculative_header_wins:
  assumes "sha512_size (pe_crypto e)" "propose_speculative_block e late s parents = Some (s', h)"
  shows "\<exists>i < min (min (pe_p_max e) (pe_p_max_limit e)) (max 1 late).
    h_payload h = bt_collect (sample_worker_batches e (pr_round s) (pr_digests s) i) \<and>
    (\<forall>j < min (min (pe_p_max e) (pe_p_max_limit e)) (max 1 late).
       fst (candidate e (pr_round s) (pr_digests s) (bs_collect parents) j) \<le>
       cert_digest (pe_crypto e) \<lparr> c_header = h, c_votes = votes \<rparr>)"
proof -
  let ?n = "min (min (pe_p_max e) (pe_p_max_limit e)) (max 1 late)"
  let ?c = "candidate e (pr_round s) (pr_digests s) (bs_collect parents)"
  from assms(2) obtain b ds where best: "best_candidate None (map ?c [0 ..< ?n]) = Some (b, ds)"
    and h: "header_new (pe_crypto e) (pe_secret e) (pe_name e) (pr_round s) (bt_collect ds) (bs_collect parents) = Ok h"
    by (auto simp: propose_speculative_block_def Let_def split: option.splits outcome.splits)
  have "\<forall>x \<in> set (map ?c [0 ..< ?n]). wf_digest (fst x)"
    using assms(1) by (auto simp: candidate_def compute_header_digest_def Let_def wf_hash_bytes)
  from best_candidate_spec [OF best _ this] obtain i where
    i: "i < ?n" "(b, ds) = ?c i" "\<forall>j < ?n. fst (?c j) \<le> b"
    by auto
  have "b = compute_header_digest e (pr_round s) (bt_collect ds) (bs_collect parents)"
    "ds = sample_worker_batches e (pr_round s) (pr_digests s) i"
    using i(2) by (simp_all add: candidate_def Let_def)
  with candidate_digest_exact [OF h, of votes] header_new_round [OF h] i show ?thesis by auto
qed

section \<open>Sampling batches\<close>

lemma worker_sample_length: "length (worker_sample seed ds) \<le> 4"
proof -
  have one: "length (get_at ds i) \<le> 1" "length (last_of ds) \<le> 1" for i
    by (simp_all add: get_at_def last_of_def)
  have two: "length (get_at ds i) + length (get_at ds j) \<le> 4" "length (get_at ds i) + length (last_of ds) \<le> 4" for i j
    using one(1) [of i] one(1) [of j] one(2) by linarith+
  have window: "length (drop (length ds - min 4 (length ds)) ds) \<le> 4" by simp
  show ?thesis
    unfolding worker_sample_def Let_def
    using window le_trans [OF one(2), of 4] by (auto intro: two)
qed

lemma worker_sample_subset: "set (worker_sample seed ds) \<subseteq> set ds"
proof -
  have "set (take n (drop m xs)) \<subseteq> set xs" "set (take n (rev xs)) \<subseteq> set xs" for n m and xs :: "'a list"
    using set_take_subset set_drop_subset by fastforce+
  then show ?thesis
    using set_drop_subset [of _ ds] set_take_subset
    by (auto simp: worker_sample_def Let_def last_of_def get_at_def dest!: in_set_takeD in_set_dropD split: if_splits)
qed

lemma dedup_by_length: "length (dedup_by f seen xs) \<le> length xs"
  by (induction f seen xs rule: dedup_by.induct) auto

lemma concat_length_le: "\<forall>x \<in> set xs. length (f x) \<le> k \<Longrightarrow> length (concat (map f xs)) \<le> k * length xs"
  by (induction xs) auto

text \<open>
  A candidate takes batches from the queue, each digest once and at most four per worker, or the
  whole queue when nothing was drawn; it is empty only when the queue is.
\<close>

lemma sampled_batches_facts:
  "set (sample_worker_batches e r all i) \<subseteq> set all \<and>
   (sample_worker_batches e r all i = [] \<longleftrightarrow> all = []) \<and>
   (sample_worker_batches e r all i = all \<or>
     distinct (map fst (sample_worker_batches e r all i)) \<and>
     length (sample_worker_batches e r all i) \<le> 4 * pe_num_workers e)"
proof -
  let ?part = "worker_part r all i"
  define drawn where "drawn = concat (map ?part [0 ..< pe_num_workers e])"
  have eq: "sample_worker_batches e r all i = (let unique = dedup_by fst {} drawn in if unique = [] then all else unique)"
    by (simp add: sample_worker_batches_def drawn_def)
  have part: "set (?part w) \<subseteq> set all" "length (?part w) \<le> 4" for w
    using worker_sample_subset [of _ "filter (\<lambda>(_, wid). wid = w mod 2 ^ 32) all"] worker_sample_length
    by (auto simp: worker_part_def Let_def)
  have sub: "set drawn \<subseteq> set all" using part(1) by (auto simp: drawn_def)
  have "length drawn \<le> 4 * pe_num_workers e"
    unfolding drawn_def using concat_length_le [of "[0 ..< pe_num_workers e]" ?part 4] part(2) by simp
  with dedup_by_length [of fst "{}" drawn] have "length (dedup_by fst {} drawn) \<le> 4 * pe_num_workers e" by simp
  with sub dedup_by_subset [of fst "{}" drawn] dedup_by_distinct [of fst "{}" drawn] show ?thesis
    by (auto simp: eq Let_def dedup_by_nil)
qed

lemma bt_insert_length: "length (bt_insert k v m) \<le> Suc (length m)"
  by (induction k v m rule: bt_insert.induct) auto

lemma bt_collect_length: "length (bt_collect kvs) \<le> length kvs"
proof -
  have "length (foldl (\<lambda>m (k, v). bt_insert k v m) m kvs) \<le> length m + length kvs" for m
  proof (induction kvs arbitrary: m)
    case (Cons p kvs)
    from Cons.IH [of "bt_insert (fst p) (snd p) m"] bt_insert_length [of "fst p" "snd p" m] show ?case
      by (simp add: case_prod_unfold)
  qed simp
  from this [of "[]"] show ?thesis by (simp add: bt_collect_def)
qed

text \<open>
  A speculative attacker empties its whole queue of batch digests for
  every header, but the header carries at most four batches per worker unless it carries all of
  them: the rest is never proposed again.
\<close>

theorem speculative_loses_batches:
  assumes "make_header e late s = Some s'" "attacking e ''speculative''"
  shows "pr_digests s' = [] \<and> (\<exists>h. pr_headers s' = pr_headers s @ [h] \<and>
    (h_payload h = bt_collect (pr_digests s) \<or> length (h_payload h) \<le> 4 * pe_num_workers e))"
proof -
  have "\<not> attacking e ''fissure''" using assms(2) by (auto simp: attacking_def)
  with assms obtain s2 h where
    spec: "propose_speculative_block e late (s\<lparr>pr_last_parents := []\<rparr>) (map fst (pr_last_parents s)) = Some (s2, h)"
    and s': "s' = s2\<lparr>pr_headers := pr_headers s2 @ [h], pr_proposed := True, pr_victim_round := None, pr_victim_at := None\<rparr>"
    by (auto simp: make_header_def Let_def)
  from spec obtain b ds where
    best: "best_candidate None (map (candidate e (pr_round s) (pr_digests s) (bs_collect (map fst (pr_last_parents s))))
      [0 ..< min (min (pe_p_max e) (pe_p_max_limit e)) (max 1 late)]) = Some (b, ds)"
    and h: "header_new (pe_crypto e) (pe_secret e) (pe_name e) (pr_round s) (bt_collect ds) (bs_collect (map fst (pr_last_parents s))) = Ok h"
    and s2: "pr_digests s2 = []" "pr_headers s2 = pr_headers s"
    by (auto simp: propose_speculative_block_def Let_def split: option.splits outcome.splits)
  have "x \<in> set_option c \<union> set cs" if "best_candidate c cs = Some x" for x c and cs :: "(digest \<times> (digest \<times> worker_id) list) list"
    using that by (induction c cs rule: best_candidate.induct) (auto split: if_splits)
  from this [OF best] obtain i where "ds = sample_worker_batches e (pr_round s) (pr_digests s) i"
    by (auto simp: candidate_def Let_def)
  with sampled_batches_facts [of e "pr_round s" "pr_digests s" i] bt_collect_length [of ds]
  have "bt_collect ds = bt_collect (pr_digests s) \<or> length (bt_collect ds) \<le> 4 * pe_num_workers e"
    by (auto intro: le_trans)
  with header_new_round [OF h] s2 show ?thesis by (auto simp: s')
qed

end
