(* ===== verification/Leaders.thy ===== *)
theory Leaders
  imports Consensus
begin

text \<open>
  What the leaders of the consensus are worth: which rounds \<open>order_leaders\<close> visits, that
  \<open>linked\<close> decides reachability in the DAG, and that a leader with enough support is linked
  from every later certificate.
\<close>

section \<open>Rounds visited\<close>

lemma step_by_2_rev_upt: "set (step_by_2 (rev [a ..< b])) = {k. a \<le> k \<and> k < b \<and> odd (b - k)}"
proof (induction b rule: less_induct)
  case (less b)
  show ?case
  proof (cases "b \<le> Suc a")
    case True
    then consider "b \<le> a" | "b = Suc a" by linarith
    then show ?thesis by cases auto
  next
    case False
    then obtain b' where b': "b = Suc (Suc b')" "a \<le> b'" by (intro that [of "b - 2"]) auto
    then have "rev [a ..< b] = (b - 1) # (b - 2) # rev [a ..< b - 2]" by simp
    then have "set (step_by_2 (rev [a ..< b])) = insert (b - 1) {k. a \<le> k \<and> k < b - 2 \<and> odd (b - 2 - k)}"
      using less.IH [of "b - 2"] False by simp
    also have "\<dots> = {k. a \<le> k \<and> k < b \<and> odd (b - k)}"
    proof (intro set_eqI iffI)
      fix k
      assume "k \<in> {k. a \<le> k \<and> k < b \<and> odd (b - k)}"
      then have k: "a \<le> k" "k < b" "odd (b - k)" by auto
      show "k \<in> insert (b - 1) {k. a \<le> k \<and> k < b - 2 \<and> odd (b - 2 - k)}"
      proof (cases "k = b - 1")
        case False
        with k have "k < b - 2" by presburger
        with k have "odd (b - 2 - k)" by presburger
        with k \<open>k < b - 2\<close> show ?thesis by simp
      qed simp
    next
      fix k
      assume "k \<in> insert (b - 1) {k. a \<le> k \<and> k < b - 2 \<and> odd (b - 2 - k)}"
      then consider "k = b - 1" | "a \<le> k" "k < b - 2" "odd (b - 2 - k)" by auto
      then show "k \<in> {k. a \<le> k \<and> k < b \<and> odd (b - k)}"
      proof cases
        case 1
        moreover have "b - (b - 1) = 1" "a \<le> b - 1" "b - 1 < b" using False by linarith+
        ultimately show ?thesis by simp
      next
        case 2
        then have "b - k = Suc (Suc (b - 2 - k))" by simp
        with 2 show ?thesis by simp
      qed
    qed
    finally show ?thesis .
  qed
qed

lemma leader_rounds_odd:
  "even r \<Longrightarrow> k \<in> set (leader_rounds lcr r) \<Longrightarrow> odd k \<and> u64_add lcr 2 \<le> k \<and> k < r"
  by (auto simp: leader_rounds_def step_by_2_rev_upt)

lemma order_leaders_loop_rounds:
  "order_leaders_loop c d acc leader rs = Some ls \<Longrightarrow> dag_wf cr d \<Longrightarrow>
     \<exists>more. ls = acc @ more \<and> cert_round ` set more \<subseteq> set rs"
proof (induction rs arbitrary: acc leader)
  case Nil
  then show ?case by auto
next
  case (Cons r rs)
  show ?case
  proof (cases "leader_at c r d")
    case None
    with Cons show ?thesis by fastforce
  next
    case (Some p)
    obtain dg x where p: "p = (dg, x)" by (cases p)
    with Some have x: "cert_round x = r" using leader_at_round [OF Cons.prems(2)] by simp
    from Cons.prems Some p consider
      "order_leaders_loop c d (acc @ [x]) x rs = Some ls" | "order_leaders_loop c d acc leader rs = Some ls"
      by (auto split: option.splits bool.splits)
    then show ?thesis
    proof cases
      case 1
      from Cons.IH [OF this Cons.prems(2)] x show ?thesis by fastforce
    next
      case 2
      from Cons.IH [OF this Cons.prems(2)] show ?thesis by auto
    qed
  qed
qed

text \<open>
  Leaders are elected for even rounds only, but the past leaders that
  \<open>order_leaders\<close> adds all have odd rounds: the loop \<open>(lcr + 2 .. leader.round()).rev().step_by(2)\<close>
  starts at \<open>leader.round() - 1\<close>. A skipped leader of an even round is never ordered as a leader.
\<close>

theorem past_leaders_are_odd:
  assumes "dag_wf cr (dag s)" "order_leaders c leader s = Some ls" "even (cert_round leader)"
  shows "hd ls = leader \<and> (\<forall>x \<in> set (tl ls). odd (cert_round x))"
proof -
  obtain more where ls: "ls = [leader] @ more"
    and more: "cert_round ` set more \<subseteq> set (leader_rounds (last_committed_round s) (cert_round leader))"
    using order_leaders_loop_rounds [OF assms(2) [unfolded order_leaders_def] assms(1)] by blast
  with leader_rounds_odd [OF assms(3)] show ?thesis by auto
qed

section \<open>Paths\<close>

inductive dag_path :: "crypto \<Rightarrow> dag \<Rightarrow> certificate \<Rightarrow> certificate \<Rightarrow> bool" for cr d x where
  path_self: "dag_path cr d x x"
| path_parent: "dag_path cr d x y \<Longrightarrow> z \<in> dag_certs d \<Longrightarrow> Suc (cert_round z) = cert_round y \<Longrightarrow>
    cert_digest cr z \<in> set (cert_parents y) \<Longrightarrow> dag_path cr d x z"

inductive_cases dag_path_cases: "dag_path cr d x y"

lemma dag_path_round: "dag_path cr d x y \<Longrightarrow> cert_round y \<le> cert_round x"
  by (induction rule: dag_path.induct) auto

lemma dag_path_in: "dag_path cr d x y \<Longrightarrow> y = x \<or> y \<in> dag_certs d"
  by (induction rule: dag_path.induct) auto

lemma dag_path_same_round: "dag_path cr d x y \<Longrightarrow> cert_round y = cert_round x \<Longrightarrow> y = x"
  by (erule dag_path_cases) (auto dest: dag_path_round)

lemma dag_path_first:
  assumes "dag_path cr d x z" "cert_round z < cert_round x"
  obtains y where "y \<in> dag_certs d" "Suc (cert_round y) = cert_round x" "cert_digest cr y \<in> set (cert_parents x)"
    "dag_path cr d y z"
  using assms
proof (induction arbitrary: thesis rule: dag_path.induct)
  case path_self
  then show ?case by simp
next
  case (path_parent y z)
  show ?case
  proof (cases "cert_round y = cert_round x")
    case True
    then have "y = x" using dag_path_same_round path_parent.hyps(1) by blast
    with path_parent show ?thesis by (auto intro: dag_path.path_self)
  next
    case False
    then have "cert_round y < cert_round x" using dag_path_round [OF path_parent.hyps(1)] by simp
    with path_parent show ?thesis by (metis dag_path.path_parent)
  qed
qed

lemma dag_path_prepend:
  assumes "dag_path cr d y z" "y \<in> dag_certs d" "Suc (cert_round y) = cert_round x" "cert_digest cr y \<in> set (cert_parents x)"
  shows "dag_path cr d x z"
  using assms
proof (induction rule: dag_path.induct)
  case path_self
  then show ?case by (intro path_parent [OF dag_path.path_self]) auto
next
  case (path_parent w z)
  then show ?case by (intro dag_path.path_parent [of cr d x w z]) auto
qed

lemma linked_loop_paths:
  assumes "dag_wf cr d"
  shows "k \<le> R \<Longrightarrow> \<forall>p \<in> set ps. cert_round p = R \<Longrightarrow> linked_loop d ps (rev [k ..< R]) = Some qs \<Longrightarrow>
    set qs = {z. \<exists>p \<in> set ps. dag_path cr d p z \<and> cert_round z = k}"
proof (induction R arbitrary: ps)
  case 0
  then show ?case by (auto intro: path_self dest: dag_path_same_round)
next
  case (Suc R)
  show ?case
  proof (cases "k = Suc R")
    case True
    with Suc.prems show ?thesis by (auto intro: path_self dest: dag_path_same_round)
  next
    case False
    with Suc.prems(1) have k: "k \<le> R" by simp
    let ?next = "\<lambda>m. map (\<lambda>(_, _, x). x) (filter (\<lambda>(_, digest, _). \<exists>x \<in> set ps. digest \<in> set (cert_parents x)) m)"
    from Suc.prems(3) k obtain m where m: "map_of d R = Some m"
      and rest: "linked_loop d (?next m) (rev [k ..< R]) = Some qs"
      by (auto split: option.splits)
    note wf = dag_wf_round [OF assms m]
    have nxt: "set (?next m) = {y \<in> dag_certs d. cert_round y = R \<and>
        (\<exists>p \<in> set ps. cert_digest cr y \<in> set (cert_parents p))}"
    proof (intro set_eqI iffI)
      fix y
      assume "y \<in> set (?next m)"
      then obtain n dg where "(n, dg, y) \<in> set m" "\<exists>p \<in> set ps. dg \<in> set (cert_parents p)" by auto
      with round_map_entry [OF wf] dag_certs_lookup [OF m]
      show "y \<in> {y \<in> dag_certs d. cert_round y = R \<and> (\<exists>p \<in> set ps. cert_digest cr y \<in> set (cert_parents p))}"
        by fastforce
    next
      fix y
      assume "y \<in> {y \<in> dag_certs d. cert_round y = R \<and> (\<exists>p \<in> set ps. cert_digest cr y \<in> set (cert_parents p))}"
      then have y: "y \<in> dag_certs d" "cert_round y = R" "\<exists>p \<in> set ps. cert_digest cr y \<in> set (cert_parents p)" by auto
      obtain m' where "map_of d (cert_round y) = Some m'" "(cert_origin y, cert_digest cr y, y) \<in> set m'"
        using assms y(1) by (rule dag_slot)
      with m y show "y \<in> set (?next m)" by force
    qed
    then have "\<forall>p \<in> set (?next m). cert_round p = R" by simp
    from Suc.IH [OF k this rest] have "set qs = {z. \<exists>y \<in> set (?next m). dag_path cr d y z \<and> cert_round z = k}" .
    also have "\<dots> = {z. \<exists>p \<in> set ps. dag_path cr d p z \<and> cert_round z = k}"
    proof (intro set_eqI iffI)
      fix z
      assume "z \<in> {z. \<exists>y \<in> set (?next m). dag_path cr d y z \<and> cert_round z = k}"
      then obtain y p where "p \<in> set ps" "y \<in> dag_certs d" "cert_round y = R"
        "cert_digest cr y \<in> set (cert_parents p)" "dag_path cr d y z" "cert_round z = k"
        unfolding nxt by auto
      with Suc.prems(2) dag_path_prepend [of cr d y z p]
      show "z \<in> {z. \<exists>p \<in> set ps. dag_path cr d p z \<and> cert_round z = k}" by auto
    next
      fix z
      assume "z \<in> {z. \<exists>p \<in> set ps. dag_path cr d p z \<and> cert_round z = k}"
      then obtain p where p: "p \<in> set ps" "dag_path cr d p z" "cert_round z = k" by auto
      have "cert_round z < cert_round p" using p Suc.prems(2) k by simp
      with p(2) obtain y where "y \<in> dag_certs d" "Suc (cert_round y) = cert_round p"
        "cert_digest cr y \<in> set (cert_parents p)" "dag_path cr d y z"
        by (rule dag_path_first)
      with p Suc.prems(2) show "z \<in> {z. \<exists>y \<in> set (?next m). dag_path cr d y z \<and> cert_round z = k}"
        unfolding nxt by auto
    qed
    finally show ?thesis .
  qed
qed

lemma linked_decides_reachability_iff:
  assumes "dag_wf cr d" "prev \<in> dag_certs d" "cert_round prev < cert_round leader" "linked leader prev d = Some b"
  shows "b \<longleftrightarrow> dag_path cr d leader prev"
proof -
  from assms(4) obtain qs where qs: "linked_loop d [leader] (rev [cert_round prev ..< cert_round leader]) = Some qs"
    and b: "b \<longleftrightarrow> (\<exists>q \<in> set qs. cert_eq q prev)"
    by (auto simp: linked_def)
  have set_qs: "set qs = {z. dag_path cr d leader z \<and> cert_round z = cert_round prev}"
  proof -
    have "cert_round prev \<le> cert_round leader" using assms(3) by simp
    from linked_loop_paths [OF assms(1) this _ qs] show ?thesis by simp
  qed
  have "q = prev" if "q \<in> set qs" "cert_eq q prev" for q
  proof -
    from that(1) set_qs assms(3) have "q \<in> dag_certs d" using dag_path_in by fastforce
    with that(2) show ?thesis using dag_certs_unique [OF assms(1) _ assms(2)] by (auto simp: cert_eq_def)
  qed
  moreover have "cert_eq prev prev" by (simp add: cert_eq_def)
  ultimately have "b \<longleftrightarrow> prev \<in> set qs" unfolding b by blast
  then show ?thesis unfolding set_qs by simp
qed

text \<open>
  for two certificates of the DAG, \<open>linked\<close> answers whether the
  newer one reaches the older one through parents.
\<close>

theorem linked_decides_reachability:
  assumes "dag_wf cr d" "prev \<in> dag_certs d" "cert_round prev < cert_round leader" "linked leader prev d = Some b"
  shows "b \<longleftrightarrow> dag_path cr d leader prev"
  by (rule linked_decides_reachability_iff [OF assms])

section \<open>Supported leaders\<close>

definition parent_authors :: "crypto \<Rightarrow> dag \<Rightarrow> certificate \<Rightarrow> public_key set" where
  "parent_authors cr d z = cert_origin ` {p \<in> dag_certs d. Suc (cert_round p) = cert_round z \<and>
     cert_digest cr p \<in> set (cert_parents z)}"

text \<open>No authority has two certificates of one round with different parents.\<close>

definition no_equivocation :: "dag \<Rightarrow> dag \<Rightarrow> bool" where
  "no_equivocation d e \<longleftrightarrow> (\<forall>x \<in> dag_certs d. \<forall>y \<in> dag_certs e.
     cert_round x = cert_round y \<and> cert_origin x = cert_origin y \<longrightarrow> cert_parents x = cert_parents y)"

definition supporters :: "digest \<Rightarrow> round_map \<Rightarrow> public_key set" where
  "supporters dg m = {n. \<exists>d x. (n, d, x) \<in> set m \<and> dg \<in> set (cert_parents x)}"

lemma leader_support_weight:
  assumes "committee_ok c" "round_map_wf cr r m"
  shows "unat (leader_support c dg m) = sum (weight_of c) (supporters dg m)"
proof -
  let ?f = "filter (\<lambda>(_, _, x). dg \<in> set (cert_parents x)) m"
  have "map (\<lambda>(_, _, x). stake_of c (cert_origin x)) ?f = map (stake_of c) (map fst ?f)"
    using assms(2) by (auto simp: round_map_wf_def)
  then have "leader_support c dg m = sum_list (map (stake_of c) (map fst ?f))"
    by (simp only: leader_support_def)
  moreover have "distinct (map fst ?f)" using assms(2) by (simp add: round_map_wf_def hm_wf_filter)
  moreover have "set (map fst ?f) = supporters dg m" by (force simp: supporters_def)
  ultimately show ?thesis
    using unat_stake_sum [OF assms(1), of "map fst ?f"] by (simp only:)
qed

lemma supporters_validity:
  assumes "committee_ok c" "round_map_wf cr r m" "validity_threshold c \<le> leader_support c dg m"
  shows "cq.has_validity c (supporters dg m \<inter> members c)"
proof -
  have "supporters dg m \<subseteq> fst ` set m" by (force simp: supporters_def)
  then have "finite (supporters dg m)" by (rule finite_subset) simp
  then show ?thesis
    using assms(3) leader_support_weight [OF assms(1,2)] weight_inter_members [of "supporters dg m" c]
    by (simp add: cq.has_validity_def word_le_nat_alt)
qed

lemma dag_path_rounds:
  assumes "dag_wf cr d"
  shows "dag_path cr d x z \<Longrightarrow> cert_round z \<le> k \<Longrightarrow> k < cert_round x \<Longrightarrow> map_of d k \<noteq> None"
proof (induction rule: dag_path.induct)
  case path_self
  then show ?case by simp
next
  case (path_parent y z)
  show ?case
  proof (cases "k = cert_round z")
    case True
    then show ?thesis using dag_slot [OF assms path_parent.hyps(2)] by (metis option.discI)
  next
    case False
    with path_parent show ?thesis by simp
  qed
qed

lemma linked_of_path:
  assumes "dag_wf cr d" "prev \<in> dag_certs d" "cert_round prev < cert_round leader" "dag_path cr d leader prev"
  shows "linked leader prev d = Some True"
proof -
  have "linked_loop d [leader] (rev [cert_round prev ..< cert_round leader]) \<noteq> None"
    using dag_path_rounds [OF assms(1,4)] by (intro linked_loop_total) auto
  then obtain b where "linked leader prev d = Some b" by (auto simp: linked_def)
  with linked_decides_reachability_iff [OF assms(1-3)] assms(4) show ?thesis by simp
qed

lemma supported_leader_path:
  assumes ok: "committee_ok c"
    and support: "cq.has_validity c V" "\<And>z. z \<in> dag_certs d \<Longrightarrow> cert_round z = Suc (cert_round leader) \<Longrightarrow>
      cert_origin z \<in> V \<Longrightarrow> cert_digest cr leader \<in> set (cert_parents z)"
    and leader: "leader \<in> dag_certs d"
    and quorums: "\<And>z. z \<in> dag_certs d \<Longrightarrow> Suc (cert_round leader) < cert_round z \<Longrightarrow>
      cq.has_quorum c (parent_authors cr d z)"
  shows "y \<in> dag_certs d \<Longrightarrow> cert_round leader + 2 \<le> cert_round y \<Longrightarrow> dag_path cr d y leader"
proof (induction "cert_round y" arbitrary: y rule: less_induct)
  case less
  have q: "cq.has_quorum c (parent_authors cr d y)" using quorums less.prems by simp
  show ?case
  proof (cases "cert_round y = cert_round leader + 2")
    case True
    from cq.quorum_meets_validity [OF ok q support(1)] obtain a where
      a: "a \<in> parent_authors cr d y" "a \<in> V" by blast
    then obtain p where p: "p \<in> dag_certs d" "cert_origin p = a" "Suc (cert_round p) = cert_round y"
      "cert_digest cr p \<in> set (cert_parents y)"
      by (auto simp: parent_authors_def)
    have pr: "cert_round p = Suc (cert_round leader)" using True p(3) by linarith
    have "cert_digest cr leader \<in> set (cert_parents p)" using support(2) [OF p(1) pr] p(2) a(2) by blast
    then have "dag_path cr d p leader"
      by (rule path_parent [OF path_self leader pr [symmetric]])
    then show ?thesis by (rule dag_path_prepend [OF _ p(1,3,4)])
  next
    case False
    have "parent_authors cr d y \<noteq> {}"
    proof
      assume "parent_authors cr d y = {}"
      with q have "unat (quorum_threshold c) = 0" by (simp add: cq.has_quorum_def)
      then show False by (simp add: unat_quorum_threshold [OF ok])
    qed
    then obtain p where p: "p \<in> dag_certs d" "Suc (cert_round p) = cert_round y"
      "cert_digest cr p \<in> set (cert_parents y)"
      by (auto simp: parent_authors_def)
    have "dag_path cr d p leader" using less.hyps [of p] p less.prems False by simp
    then show ?thesis by (rule dag_path_prepend [OF _ p])
  qed
qed

text \<open>
  C4: a leader that one node sees supported by \<open>f + 1\<close> of the stake is
  linked, in the DAG of every node that has it, from every certificate two or more rounds
  above it: each of these has a quorum of parents, and authorities do not equivocate. This is
  what makes the commits of different nodes comparable.
\<close>

theorem supported_leader_linked:
  assumes "committee_ok c" "dag_wf cr d1" "dag_wf cr d2" "no_equivocation d1 d2"
    and "map_of d1 (Suc (cert_round leader)) = Some m"
    and "validity_threshold c \<le> leader_support c (cert_digest cr leader) m"
    and "leader \<in> dag_certs d2" "y \<in> dag_certs d2" "cert_round leader + 2 \<le> cert_round y"
    and "\<forall>z \<in> dag_certs d2. Suc (cert_round leader) < cert_round z \<longrightarrow> cq.has_quorum c (parent_authors cr d2 z)"
  shows "linked y leader d2 = Some True"
proof -
  let ?V = "supporters (cert_digest cr leader) m \<inter> members c"
  note wf = dag_wf_round [OF assms(2,5)]
  have "cert_digest cr leader \<in> set (cert_parents z)"
    if z: "z \<in> dag_certs d2" "cert_round z = Suc (cert_round leader)" "cert_origin z \<in> ?V" for z
  proof -
    from z(3) obtain dg x where x: "(cert_origin z, dg, x) \<in> set m" "cert_digest cr leader \<in> set (cert_parents x)"
      by (auto simp: supporters_def)
    from round_map_entry [OF wf x(1)] have "cert_round x = cert_round z" "cert_origin x = cert_origin z"
      using z(2) by simp_all
    moreover have "x \<in> dag_certs d1" by (rule dag_certs_lookup [OF assms(5) x(1)])
    ultimately have "cert_parents x = cert_parents z" using assms(4) z(1) by (auto simp: no_equivocation_def)
    with x(2) show ?thesis by simp
  qed
  note support = supported_leader_path [OF assms(1) supporters_validity [OF assms(1) wf assms(6)] this assms(7)]
  have "dag_path cr d2 y leader"
    by (rule support) (use assms(8,9) assms(10) [rule_format] in \<open>simp_all\<close>)
  with assms(3,7,9) show ?thesis by (intro linked_of_path) auto
qed

end
