(* ===== verification/Runs.thy ===== *)
theory Runs
  imports Leaders Samples
begin

text \<open>
  Two runs of the consensus on one set of certificates, delivered in two causal orders, and
  the witnesses of the consensus properties on them.
\<close>

section \<open>A DAG of seven rounds\<close>

definition sample_digest :: "nat \<Rightarrow> round \<Rightarrow> digest" where
  "sample_digest i r = Digest ([word_of_nat i, word_of_nat r] @ replicate 30 0)"

text \<open>
  Four authorities, the fourth only in rounds 2 and 3. Everyone references the first three of
  the round before, except in round 3, where only the third and fourth reference the third's
  certificate of round 2, which is the leader of that round.
\<close>

definition run_parent_ids :: "nat \<Rightarrow> round \<Rightarrow> nat list" where
  "run_parent_ids i r =
     (if r = 3 then if i \<le> 2 then [1, 2, 4] else if i = 3 then [1, 2, 3] else [2, 3, 4] else [1, 2, 3])"

definition run_cert :: "nat \<Rightarrow> round \<Rightarrow> certificate" where
  "run_cert i r = sample_cert i r (map (\<lambda>j. sample_digest j (r - 1)) (run_parent_ids i r)) [1, 2, 3]"

lemma sample_digest_eq [simp]:
  assumes "i < 256" "r < 256" "j < 256" "s < 256"
  shows "sample_digest i r = sample_digest j s \<longleftrightarrow> i = j \<and> r = s"
  using assms by (auto simp: sample_digest_def word_of_nat_eq_iff take_bit_eq_mod)

lemma sample_digest_le [simp]:
  assumes "i < 256" "r < 256" "j < 256" "s < 256"
  shows "sample_digest i r \<le> sample_digest j s \<longleftrightarrow> i < j \<or> (i = j \<and> r \<le> s)"
proof -
  have le: "(word_of_nat a :: byte) < word_of_nat b \<longleftrightarrow> a < b" "(word_of_nat a :: byte) = word_of_nat b \<longleftrightarrow> a = b"
    if "a < 256" "b < 256" for a b
    using that by (auto simp: word_less_nat_alt unat_of_nat word_of_nat_eq_iff take_bit_eq_mod)
  show ?thesis
    using assms by (auto simp: sample_digest_def le)
qed

lemma toy_hash_tail:
  assumes "3 \<le> k" "k < 64"
  shows "toy_sha bs ! k = 0"
proof -
  define p where "p = take 1 (rev bs) @ take 1 (drop 32 bs) @ take 1 (drop 31 bs)"
  have "length p \<le> 3" by (simp add: p_def)
  moreover have "toy_sha bs = take 64 (p @ replicate 64 0)" by (simp add: toy_sha_def p_def)
  ultimately show ?thesis using assms by (simp add: nth_append)
qed

lemma run_cert_simps [simp]:
  "cert_origin (run_cert i r) = sample_key i" "cert_round (run_cert i r) = r"
  "cert_parents (run_cert i r) = map (\<lambda>j. sample_digest j (r - 1)) (run_parent_ids i r)"
  by (simp_all add: run_cert_def cert_origin_def cert_round_def)

lemma sample_header_id: "h_id (sample_header i r ps) = hash_bytes toy_crypto (header_preimage (sample_header i r ps))"
  by (simp add: sample_header_def header_new_def Let_def request_signature_def signature_new_def
      unwrap_or_def toy_crypto_def [THEN arg_cong, of keypair_parses] sample_secret_def
      sample_key_def header_digest_def header_preimage_def)

lemma toy_digest: "cert_digest toy_crypto x = Digest (take 32 (toy_sha (cert_preimage x)))"
  by (simp add: cert_digest_def hash_bytes_def toy_crypto_def)

lemma toy_cert_digest:
  assumes "r < 256" "h_round (c_header x) = r" "h_author (c_header x) = sample_key i"
    and "length (digest_bytes (h_id (c_header x))) = 32" "digest_bytes (h_id (c_header x)) ! 31 = 0"
  shows "cert_digest toy_crypto x = sample_digest i r"
proof -
  let ?id = "digest_bytes (h_id (c_header x))"
  have "le_bytes (Suc 7) r = word_of_nat r # le_bytes 7 0"
    using assms(1) unfolding le_bytes.simps by simp
  then have le: "le_bytes 8 r = word_of_nat r # le_bytes 7 0" by simp
  have pre: "cert_preimage x = ?id @ le_bytes 8 r @ key_bytes (sample_key i)"
    using assms(2,3) by (simp add: cert_preimage_def cert_round_def cert_origin_def)
  have "take 1 (drop 31 ?id) = [0]"
    using assms(4,5) by (simp add: take_Suc_conv_app_nth Cons_nth_drop_Suc [symmetric])
  then have "toy_sha (cert_preimage x) = take 64 ([word_of_nat i, word_of_nat r, 0] @ replicate 64 0)"
    using assms(4) by (simp add: toy_sha_def pre le sample_key_def)
  moreover have "(0::byte) # replicate 29 0 = replicate (Suc 29) 0" by (simp only: replicate_Suc)
  ultimately show ?thesis by (simp add: toy_digest sample_digest_def)
qed

lemma run_cert_digest [simp]: "r < 256 \<Longrightarrow> cert_digest toy_crypto (run_cert i r) = sample_digest i r"
proof (rule toy_cert_digest)
  let ?h = "c_header (run_cert i r)"
  obtain ps where h: "?h = sample_header i r ps" by (simp add: run_cert_def)
  have "digest_bytes (h_id ?h) = take 32 (toy_sha (header_preimage ?h))"
    unfolding h sample_header_id by (simp add: hash_bytes_def toy_crypto_def)
  then show "digest_bytes (h_id ?h) ! 31 = 0" by (simp add: toy_hash_tail)
  show "length (digest_bytes (h_id ?h)) = 32" using sample_header_simps(5) by (simp add: h wf_digest_def)
  show "h_round ?h = r" "h_author ?h = sample_key i" by (simp_all add: h)
qed

definition run_genesis :: "nat \<Rightarrow> certificate" where
  "run_genesis i = \<lparr> c_header = default_header\<lparr>h_author := sample_key i\<rparr>, c_votes = [] \<rparr>"

lemma run_genesis_simps [simp]:
  "cert_origin (run_genesis i) = sample_key i" "cert_round (run_genesis i) = 0"
  "cert_digest toy_crypto (run_genesis i) = sample_digest i 0"
  by (simp_all add: run_genesis_def cert_origin_def cert_round_def default_header_def)
    (intro toy_cert_digest, simp_all add: default_digest_def)

lemma genesis_sample: "genesis sample_committee = map run_genesis [1, 2, 3, 4]"
  by (simp add: genesis_def sample_committee_def run_genesis_def)

section \<open>The DAG of a run, round by round\<close>

definition run_round :: "round \<Rightarrow> nat list \<Rightarrow> round_map" where
  "run_round r ns = map (\<lambda>i. (sample_key i, sample_digest i r, run_cert i r)) ns"

definition run_round0 :: round_map where
  "run_round0 = map (\<lambda>i. (sample_key i, sample_digest i 0, run_genesis i)) [1, 2, 3, 4]"

definition run_dag :: "(round \<times> nat list) list \<Rightarrow> dag" where
  "run_dag rs = map (\<lambda>(r, ns). (r, run_round r ns)) rs"

definition run_state :: "round \<Rightarrow> round list \<Rightarrow> dag \<Rightarrow> consensus_state" where
  "run_state lcr rs d = \<lparr> last_committed_round = lcr,
     last_committed = map (\<lambda>(i, r). (sample_key i, r)) (zip [1, 2, 3, 4] rs), dag = d \<rparr>"

lemma sample_start_eq: "consensus_start toy_crypto sample_committee = run_state 0 [0, 0, 0, 0] [(0, run_round0)]"
  by (simp add: consensus_start_def state_new_def genesis_sample hm_collect_def run_round0_def run_state_def)

abbreviation "insert_all d xs \<equiv> foldl (\<lambda>d x. dag_insert toy_crypto x d) d xs"

lemma step_skip: "1 \<le> cert_round x \<Longrightarrow> even (cert_round x) \<or> cert_round x < 5 \<or> cert_round x - 3 \<le> last_committed_round s \<Longrightarrow>
  consensus_step cr c depth s x = Some (s\<lparr>dag := dag_insert cr x (dag s)\<rparr>, [])"
  by (auto simp: consensus_step_def u64_sub_def Let_def)

lemma run_skip: "\<forall>x \<in> set xs. 1 \<le> cert_round x \<and> (even (cert_round x) \<or> cert_round x < 5 \<or> cert_round x - 3 \<le> last_committed_round s) \<Longrightarrow>
  consensus_run toy_crypto c depth s xs = Some (s\<lparr>dag := insert_all (dag s) xs\<rparr>, [])"
  by (induction xs arbitrary: s) (simp_all add: step_skip)

lemma run_append: "consensus_run cr c depth s (xs @ ys) = (case consensus_run cr c depth s xs of None \<Rightarrow> None
   | Some (s1, o1) \<Rightarrow> (case consensus_run cr c depth s1 ys of None \<Rightarrow> None | Some (s2, o2) \<Rightarrow> Some (s2, o1 @ o2)))"
  by (induction xs arbitrary: s) (auto split: option.splits)

lemma run_join: "consensus_run cr c depth s xs = Some (s1, o1) \<Longrightarrow> consensus_run cr c depth s1 ys = Some (s2, o2) \<Longrightarrow>
    consensus_run cr c depth s (xs @ ys) = Some (s2, o1 @ o2)"
  by (simp add: run_append)

text \<open>
  Certificates up to round 3 without the fourth of round 3, which the two nodes receive at
  different times; then the later rounds.
\<close>

definition early :: "certificate list" where
 "early = [run_cert 1 1, run_cert 2 1, run_cert 3 1, run_cert 1 2, run_cert 2 2, run_cert 3 2, run_cert 4 2,
   run_cert 1 3, run_cert 2 3, run_cert 3 3]"
definition mid :: "certificate list" where
 "mid = [run_cert 1 4, run_cert 2 4, run_cert 3 4]"


definition fives :: "certificate list" where
  "fives = [run_cert 1 5, run_cert 2 5, run_cert 3 5]"

definition sixes :: "certificate list" where
  "sixes = [run_cert 1 6, run_cert 2 6, run_cert 3 6]"

definition run_a :: "certificate list" where
  "run_a = (early @ [run_cert 4 3] @ mid) @ [run_cert 1 5] @ [run_cert 2 5, run_cert 3 5] @ sixes @ [run_cert 1 7]"

definition run_b :: "certificate list" where
  "run_b = (early @ mid) @ fives @ sixes @ [run_cert 1 7] @ [run_cert 4 3]"

lemma early: "insert_all [(0, run_round0)] early = (0, run_round0) # run_dag [(1, [1, 2, 3]), (2, [1, 2, 3, 4]), (3, [1, 2, 3])]"
  by (simp add: early_def dag_insert_def hm_entry_def run_dag_def run_round_def)

definition dag_a :: dag where
  "dag_a = (0, run_round0) # run_dag [(1, [1, 2, 3]), (2, [1, 2, 3, 4]), (3, [1, 2, 3, 4]), (4, [1, 2, 3]), (5, [1])]"
definition dag_b :: dag where
  "dag_b = (0, run_round0) # run_dag [(1, [1, 2, 3]), (2, [1, 2, 3, 4]), (3, [1, 2, 3]), (4, [1, 2, 3]),
  (5, [1, 2, 3]), (6, [1, 2, 3]), (7, [1])]"

lemma dag_a: "insert_all [(0, run_round0)] (early @ [run_cert 4 3] @ mid @ [run_cert 1 5]) = dag_a"
  unfolding foldl_append early
  by (simp add: mid_def dag_a_def dag_insert_def hm_entry_def run_dag_def run_round_def)

lemma dag_b: "insert_all [(0, run_round0)] (early @ mid @ fives @ sixes @ [run_cert 1 7]) = dag_b"
  unfolding foldl_append early
  by (simp add: mid_def fives_def sixes_def dag_b_def dag_insert_def hm_entry_def run_dag_def run_round_def)

lemma leader_names: "sort (map fst (authorities sample_committee)) = [sample_key 1, sample_key 2, sample_key 3, sample_key 4]"
  by code_simp

lemma sample_leader_names: "leader_name sample_committee 2 = sample_key 3" "leader_name sample_committee 3 = sample_key 4" "leader_name sample_committee 4 = sample_key 1"
  unfolding leader_name_def leader_names by (simp_all add: committee_size_def sample_committee_def)

lemma traverse_numeral: "traverse (numeral k) cr s x vo =
     (let digest = cert_digest cr x
      in if digest \<in> fst vo then Some vo
         else if already_committed s x then Some vo
         else map_option (\<lambda>(visited, ordered). (insert digest visited, ordered @ [x]))
                (fold_option (traverse (pred_numeral k) cr s) (dag_parents cr (dag s) x) vo))"
  by (simp only: numeral_eq_Suc traverse.simps)

abbreviation "small ns \<equiv> \<forall>i \<in> set ns. i < (256::nat)"

lemma find_round: "j < 256 \<Longrightarrow> r < 256 \<Longrightarrow> small ns \<Longrightarrow>
  find (\<lambda>(dg, _). dg = sample_digest j r) (map snd (run_round r ns)) =
    (if j \<in> set ns then Some (sample_digest j r, run_cert j r) else None)"
  by (induction ns) (auto simp: run_round_def)

lemma run_parents:
  assumes "map_of d (r - 1) = Some (run_round (r - 1) ns)" "0 < r" "r \<le> 255" "small ns" "small (run_parent_ids i r)"
  shows "dag_parents toy_crypto d (run_cert i r) =
    map snd (sort_key (\<lambda>(_, y). Down (cert_digest toy_crypto y))
      (map (\<lambda>j. (sample_digest j (r - 1), run_cert j (r - 1))) (filter (\<lambda>j. j \<in> set ns) (run_parent_ids i r))))"
proof -
  have f: "find_parent d (run_cert i r) (sample_digest j (r - 1)) =
      (if j \<in> set ns then Some (sample_digest j (r - 1), run_cert j (r - 1)) else None)" if "j < 256" for j
    using assms that by (simp add: find_parent_def u64_sub_def find_round)
  have "List.map_filter (find_parent d (run_cert i r)) (map (\<lambda>j. sample_digest j (r - 1)) js) =
      map (\<lambda>j. (sample_digest j (r - 1), run_cert j (r - 1))) (filter (\<lambda>j. j \<in> set ns) js)" if "small js" for js
    using that by (induction js) (simp_all add: List.map_filter_simps f [unfolded One_nat_def])
  then show ?thesis using assms(5) by (simp add: dag_parents_def)
qed

lemma run_parents_first:
  assumes "map_of d 0 = Some run_round0"
  shows "dag_parents toy_crypto d (run_cert i 1) = [run_genesis 3, run_genesis 2, run_genesis 1]"
proof -
  have "find_parent d (run_cert i 1) (sample_digest j 0) = Some (sample_digest j 0, run_genesis j)" if "j \<in> {1, 2, 3}" for j
    using that assms by (auto simp: find_parent_def u64_sub_def run_round0_def)
  then show ?thesis by (simp add: dag_parents_def run_parent_ids_def List.map_filter_simps)
qed

lemmas run_parents_eval = dag_a_def dag_b_def run_dag_def run_parent_ids_def

lemma parents_a:
  "dag_parents toy_crypto dag_a (run_cert i 2) = [run_cert 3 1, run_cert 2 1, run_cert 1 1]"
  by (subst run_parents [where ns = "[1, 2, 3]"]) (simp_all add: run_parents_eval)

lemma parents_b0: "dag_parents toy_crypto dag_b (run_cert i 2) = [run_cert 3 1, run_cert 2 1, run_cert 1 1]"
  by (subst run_parents [where ns = "[1, 2, 3]"]) (simp_all add: run_parents_eval)

lemma parents_b1: "dag_parents toy_crypto dag_b (run_cert 1 3) = [run_cert 4 2, run_cert 2 2, run_cert 1 2]"
  by (subst run_parents [where ns = "[1, 2, 3, 4]"]) (simp_all add: run_parents_eval)

lemma parents_b2: "dag_parents toy_crypto dag_b (run_cert 2 3) = [run_cert 4 2, run_cert 2 2, run_cert 1 2]"
  by (subst run_parents [where ns = "[1, 2, 3, 4]"]) (simp_all add: run_parents_eval)

lemma parents_b3: "dag_parents toy_crypto dag_b (run_cert 3 3) = [run_cert 3 2, run_cert 2 2, run_cert 1 2]"
  by (subst run_parents [where ns = "[1, 2, 3, 4]"]) (simp_all add: run_parents_eval)

lemma parents_b4: "dag_parents toy_crypto dag_b (run_cert 1 4) = [run_cert 3 3, run_cert 2 3, run_cert 1 3]"
  by (subst run_parents [where ns = "[1, 2, 3]"]) (simp_all add: run_parents_eval)

lemmas parents_b = parents_b0 parents_b1 parents_b2 parents_b3 parents_b4

lemma committed_start: "already_committed (run_state 0 [0, 0, 0, 0] d) (run_cert i r) \<longleftrightarrow> r = 0 \<and> i \<in> {1, 2, 3, 4}" if "i < 256"
  using that by (auto simp: run_state_def already_committed_def)
lemma committed_start_genesis: "i \<in> {1, 2, 3, 4} \<Longrightarrow> already_committed (run_state 0 [0, 0, 0, 0] d) (run_genesis i)"
  by (auto simp: run_state_def already_committed_def)

lemma dag_run_state [simp]: "dag (run_state l rs d) = d" "last_committed_round (run_state l rs d) = l"
  by (simp_all add: run_state_def)

lemma run_round0_lookup: "map_of dag_a 0 = Some run_round0" "map_of dag_b 0 = Some run_round0" by (simp_all add: dag_a_def dag_b_def)

lemma order_a: "order_dag toy_crypto 50 (run_cert 3 2) (run_state 0 [0, 0, 0, 0] dag_a) =
   Some [run_cert 3 1, run_cert 2 1, run_cert 1 1, run_cert 3 2]"
  by (simp add: order_dag_def traverse_numeral parents_a run_parents_first [OF run_round0_lookup(1), unfolded One_nat_def] committed_start committed_start_genesis Let_def
)
lemma order_b: "order_dag toy_crypto 50 (run_cert 1 4) (run_state 0 [0, 0, 0, 0] dag_b) =
   Some [run_cert 3 1, run_cert 2 1, run_cert 1 1, run_cert 4 2, run_cert 3 2, run_cert 2 2, run_cert 1 2,
     run_cert 3 3, run_cert 2 3, run_cert 1 3, run_cert 1 4]"
  by (simp add: order_dag_def traverse_numeral parents_b parents_b [unfolded One_nat_def]
      run_parents_first [OF run_round0_lookup(2), unfolded One_nat_def] committed_start committed_start_genesis Let_def)


lemma run_fives:
  assumes "\<forall>x \<in> set xs. cert_round x = 5" "leader_at c 2 (dag s) = Some (dg, l)" "map_of (dag s) 3 = Some ch"
    and "leader_support c dg ch < validity_threshold c" "last_committed_round s < 2"
  shows "consensus_run toy_crypto c depth s xs = Some (s\<lparr>dag := insert_all (dag s) xs\<rparr>, [])"
  using assms(1-3,5)
proof (induction xs arbitrary: s)
  case Nil
  then show ?case by simp
next
  case (Cons x xs)
  let ?s = "s\<lparr>dag := dag_insert toy_crypto x (dag s)\<rparr>"
  have same: "map_of (dag_insert toy_crypto x (dag s)) r = map_of (dag s) r" if "r \<noteq> 5" for r
    using Cons.prems(1) that by (simp add: dag_insert_def map_of_entry)
  have look: "leader_at c 2 (dag ?s) = Some (dg, l)" "map_of (dag ?s) 3 = Some ch"
    using Cons.prems(2,3) by (simp_all add: leader_at_def same)
  have "consensus_step toy_crypto c depth s x = Some (?s, [])"
    using Cons.prems(1,4) look assms(4) by (simp add: consensus_step_def u64_sub_def Let_def)
  with Cons.IH [of ?s] Cons.prems look show ?case by simp
qed

lemma support_sample:
  "small ns \<Longrightarrow> r < 255 \<Longrightarrow> leader_support sample_committee (sample_digest i r) (run_round (Suc r) ns) =
     sum_list (map (\<lambda>j. stake_of sample_committee (sample_key j))
       (filter (\<lambda>j. sample_digest i r \<in> (\<lambda>k. sample_digest k r) ` set (run_parent_ids j (Suc r))) ns))"
  unfolding leader_support_def run_round_def by (induction ns) auto

lemma support_2: "leader_support sample_committee (sample_digest 3 2) (run_round 3 [1, 2, 3]) = 1"
  "leader_support sample_committee (sample_digest 3 2) (run_round 3 [1, 2, 3, 4]) = 2"
  using support_sample [of "[1, 2, 3]" 2 3] support_sample [of "[1, 2, 3, 4]" 2 3]
  by (simp_all add: run_parent_ids_def stake_sample)

lemma support_4: "leader_support sample_committee (sample_digest 1 4) (run_round 5 [1, 2, 3]) = 3"
  using support_sample [of "[1, 2, 3]" 4 1]
  by (simp add: run_parent_ids_def stake_sample)

lemma leaders_b: "leader_at sample_committee 4 dag_b = Some (sample_digest 1 4, run_cert 1 4)"
  "leader_at sample_committee 3 dag_b = None" "map_of dag_b 5 = Some (run_round 5 [1, 2, 3])"
  unfolding leader_at_def sample_leader_names by (simp_all add: dag_b_def run_dag_def run_round_def)

lemma leaders_a: "leader_at sample_committee 2 dag_a = Some (sample_digest 3 2, run_cert 3 2)"
   "map_of dag_a 3 = Some (run_round 3 [1, 2, 3, 4])"
  unfolding leader_at_def sample_leader_names by (simp_all add: dag_a_def run_dag_def run_round_def)

abbreviation "sample_start \<equiv> consensus_start toy_crypto sample_committee"


lemma rounds_ab: "leader_rounds 0 2 = []" "leader_rounds 0 4 = [3]"
proof -
  have "u64_add 0 2 = 2" "[2..<4] = [2, 3::nat]" by (simp_all add: u64_add_def upt_conv_Cons)
  then show "leader_rounds 0 2 = []" "leader_rounds 0 4 = [3]" by (simp_all add: leader_rounds_def)
qed

lemma order_leaders_ab: "order_leaders sample_committee (run_cert 3 2) (run_state 0 [0, 0, 0, 0] dag_a) = Some [run_cert 3 2]"
  "order_leaders sample_committee (run_cert 1 4) (run_state 0 [0, 0, 0, 0] dag_b) = Some [run_cert 1 4]"
  by (simp_all add: order_leaders_def rounds_ab leaders_b)

lemma run_state_dag [simp]: "run_state l rs d\<lparr>dag := d'\<rparr> = run_state l rs d'" by (simp add: run_state_def)

text \<open>What the first commit of each node outputs.\<close>

definition out_a :: "certificate list" where
  "out_a = [run_cert 3 1, run_cert 2 1, run_cert 1 1, run_cert 3 2]"

definition out_b :: "certificate list" where
  "out_b = [run_cert 3 1, run_cert 2 1, run_cert 1 1, run_cert 4 2, run_cert 3 2, run_cert 2 2, run_cert 1 2,
     run_cert 3 3, run_cert 2 3, run_cert 1 3, run_cert 1 4]"

lemma commit_one:
  assumes "order_dag cr depth leader s = Some xs"
  shows "commit_leaders cr depth [leader] s [] = Some (update_all depth s xs, xs)"
  using assms by simp

lemma step_a:
  assumes "dag_insert toy_crypto (run_cert 1 5) d = dag_a"
  shows "\<exists>s. consensus_step toy_crypto sample_committee 50 (run_state 0 [0, 0, 0, 0] d) (run_cert 1 5) = Some (s, out_a)"
  unfolding consensus_step_def dag_run_state assms
  by (simp add: u64_sub_def Let_def leaders_a support_2 [unfolded One_nat_def] order_leaders_ab validity_sample
      order_a out_a_def)

lemma step_b:
  assumes "dag_insert toy_crypto (run_cert 1 7) d = dag_b"
  shows "\<exists>s. consensus_step toy_crypto sample_committee 50 (run_state 0 [0, 0, 0, 0] d) (run_cert 1 7) = Some (s, out_b)"
  unfolding consensus_step_def dag_run_state assms
  by (simp add: u64_sub_def Let_def leaders_b leaders_b [unfolded One_nat_def] support_4 [unfolded One_nat_def]
      order_leaders_ab order_leaders_ab [unfolded One_nat_def] validity_sample
      order_b order_b [unfolded One_nat_def] out_b_def)

text \<open>Every certificate arrives after its parents.\<close>

lemma genesis_digests_sample: "genesis_digests toy_crypto sample_committee =
    {sample_digest 1 0, sample_digest 2 0, sample_digest 3 0, sample_digest 4 0}"
  by (simp add: genesis_digests_def genesis_sample)

lemmas run_lists = run_a_def run_b_def early_def mid_def fives_def sixes_def

lemma parents_first_ab:
  "parents_first toy_crypto (genesis_digests toy_crypto sample_committee) run_a"
  "parents_first toy_crypto (genesis_digests toy_crypto sample_committee) run_b"
  by (simp_all add: run_lists genesis_digests_sample run_parent_ids_def)

lemma prefix_total:
  assumes "\<forall>x \<in> set (xs @ ys). cert_origin x \<in> members c \<and> cert_round x + depth < 2 ^ 64" "rounds_in_order {} (xs @ ys)"
    and "consensus_run cr c depth (consensus_start cr c) xs = Some (s, out)"
  shows "\<exists>s' out'. consensus_run cr c depth (consensus_start cr c) (xs @ ys) = Some (s', out @ out')"
  using consensus_never_panics_run [OF assms(1,2), of cr] assms(3)
  by (auto simp: run_append split: option.splits)


lemma member_runs: "\<forall>x \<in> set run_a. cert_origin x \<in> members sample_committee \<and> cert_round x + 50 < 2 ^ 64"
  "rounds_in_order {} run_a" "rounds_in_order {} run_b" "set run_b = set run_a"
     apply (simp add: run_lists members_sample)
    apply (simp add: run_lists)
   apply (simp add: run_lists)
  apply (simp add: run_lists insert_commute)
  done

lemma out_a_run: "\<exists>s out. consensus_run toy_crypto sample_committee 50 sample_start run_a = Some (s, out_a @ out)"
proof -
  let ?pre = "early @ [run_cert 4 3] @ mid" and ?d = "insert_all [(0, run_round0)] (early @ [run_cert 4 3] @ mid)"
  have 1: "consensus_run toy_crypto sample_committee 50 sample_start ?pre = Some (run_state 0 [0, 0, 0, 0] ?d, [])"
    unfolding sample_start_eq by (subst run_skip) (simp_all add: early_def mid_def)
  have "dag_insert toy_crypto (run_cert 1 5) ?d = dag_a" using dag_a by simp
  from step_a [OF this] obtain s where
    "consensus_step toy_crypto sample_committee 50 (run_state 0 [0, 0, 0, 0] ?d) (run_cert 1 5) = Some (s, out_a)" ..
  then have "consensus_run toy_crypto sample_committee 50 (run_state 0 [0, 0, 0, 0] ?d) [run_cert 1 5] = Some (s, out_a)"
    by simp
  from run_join [OF 1 this]
  have "consensus_run toy_crypto sample_committee 50 sample_start (?pre @ [run_cert 1 5]) = Some (s, out_a)" by simp
  from prefix_total [OF _ _ this, of "[run_cert 2 5, run_cert 3 5] @ sixes @ [run_cert 1 7]"] member_runs(1,2)
  show ?thesis by (simp add: run_a_def)
qed

lemma out_b_run: "\<exists>s out. consensus_run toy_crypto sample_committee 50 sample_start run_b = Some (s, out_b @ out)"
proof -
  let ?d1 = "insert_all [(0, run_round0)] (early @ mid)"
  let ?d2 = "insert_all ?d1 fives"
  let ?d3 = "insert_all ?d2 sixes"
  have d1: "?d1 = (0, run_round0) # run_dag [(1, [1, 2, 3]), (2, [1, 2, 3, 4]), (3, [1, 2, 3]), (4, [1, 2, 3])]"
    unfolding foldl_append early by (simp add: mid_def dag_insert_def hm_entry_def run_dag_def run_round_def)
  have 1: "consensus_run toy_crypto sample_committee 50 sample_start (early @ mid) = Some (run_state 0 [0, 0, 0, 0] ?d1, [])"
    unfolding sample_start_eq by (subst run_skip) (simp_all add: early_def mid_def)
  have 2: "consensus_run toy_crypto sample_committee 50 (run_state 0 [0, 0, 0, 0] ?d1) fives =
      Some (run_state 0 [0, 0, 0, 0] ?d2, [])"
  proof (subst run_fives)
    show "leader_at sample_committee 2 (dag (run_state 0 [0, 0, 0, 0] ?d1)) = Some (sample_digest 3 2, run_cert 3 2)"
      unfolding dag_run_state d1 leader_at_def sample_leader_names by (simp add: run_dag_def run_round_def)
    show "map_of (dag (run_state 0 [0, 0, 0, 0] ?d1)) 3 = Some (run_round 3 [1, 2, 3])"
      unfolding dag_run_state d1 by (simp add: run_dag_def)
  qed (simp_all add: fives_def support_2 [unfolded One_nat_def] validity_sample)
  have 3: "consensus_run toy_crypto sample_committee 50 (run_state 0 [0, 0, 0, 0] ?d2) sixes =
      Some (run_state 0 [0, 0, 0, 0] ?d3, [])"
    by (subst run_skip) (simp_all add: sixes_def)
  have "dag_insert toy_crypto (run_cert 1 7) ?d3 = dag_b" using dag_b by simp
  from step_b [OF this] obtain s where
    "consensus_step toy_crypto sample_committee 50 (run_state 0 [0, 0, 0, 0] ?d3) (run_cert 1 7) = Some (s, out_b)" ..
  then have 4: "consensus_run toy_crypto sample_committee 50 (run_state 0 [0, 0, 0, 0] ?d3) [run_cert 1 7] = Some (s, out_b)"
    by simp
  have "consensus_run toy_crypto sample_committee 50 sample_start ((early @ mid) @ fives @ sixes @ [run_cert 1 7]) = Some (s, out_b)"
    using run_join [OF 1 run_join [OF 2 run_join [OF 3 4]]] by simp
  moreover have b: "run_b = ((early @ mid) @ fives @ sixes @ [run_cert 1 7]) @ [run_cert 4 3]" by (simp add: run_b_def)
  moreover have "\<forall>x \<in> set run_b. cert_origin x \<in> members sample_committee \<and> cert_round x + 50 < 2 ^ 64"
    using member_runs(1,4) by (simp only:)
  ultimately show ?thesis using prefix_total member_runs(3) by metis
qed

section \<open>Two correct nodes, two sequences\<close>

lemma run_a_valid: "\<forall>x \<in> set run_a. cert_verify toy_crypto sample_committee x = Ok ()"
  by code_simp

lemma run_a_distinct: "distinct (map (\<lambda>x. (cert_origin x, cert_round x)) run_a)"
    "distinct (map (\<lambda>x. (cert_origin x, cert_round x)) run_b)"
  "\<forall>x \<in> set run_a. distinct (cert_parents x) \<and> length (cert_parents x) = 3"
proof -
  show "distinct (map (\<lambda>x. (cert_origin x, cert_round x)) run_a)" by (simp add: run_lists)
  show "distinct (map (\<lambda>x. (cert_origin x, cert_round x)) run_b)" by (simp add: run_lists)
  show "\<forall>x \<in> set run_a. distinct (cert_parents x) \<and> length (cert_parents x) = 3"
    by (simp add: run_lists run_parent_ids_def)
qed

text \<open>
  A delivery a correct primary can make: valid certificates with a quorum of parents, one per
  authority and round, each after its parents.
\<close>

definition correct_delivery :: "crypto \<Rightarrow> committee \<Rightarrow> certificate list \<Rightarrow> bool" where
  "correct_delivery cr c xs \<longleftrightarrow> (\<forall>x \<in> set xs. cert_verify cr c x = Ok ()) \<and>
     distinct (map (\<lambda>x. (cert_origin x, cert_round x)) xs) \<and>
     (\<forall>x \<in> set xs. distinct (cert_parents x) \<and> unat (quorum_threshold c) = length (cert_parents x)) \<and>
     parents_first cr (genesis_digests cr c) xs"


section \<open>Witnesses\<close>

theorem commits_grow_per_author_witness:
  "\<exists>s out. consensus_run toy_crypto sample_committee 50 sample_start run_a = Some (s, out_a @ out) \<and>
     set (out_a @ out) \<subseteq> set run_a"
proof -
  obtain s out where a: "consensus_run toy_crypto sample_committee 50 sample_start run_a = Some (s, out_a @ out)"
    using out_a_run by blast
  with commits_grow_per_author [OF a] member_runs(1) show ?thesis by blast
qed

theorem consensus_never_panics_witness:
  "\<exists>s out. consensus_run toy_crypto sample_committee 50 sample_start run_b = Some (s, out)"
  by (rule consensus_never_panics) (use member_runs in simp_all)

theorem update_tracks_last_round_witness:
  "last_committed_round (state_update sample_start (run_cert 1 4) 50) = 4"
  using update_tracks_last_round [OF consensus_start_lcr, of toy_crypto sample_committee "run_cert 1 4" 50]
  by (simp add: sample_start_eq)

lemma insert_all_wf: "dag_wf toy_crypto d \<Longrightarrow>
    dag_wf toy_crypto (insert_all d xs) \<and> dag_certs (insert_all d xs) \<subseteq> dag_certs d \<union> set xs"
proof (induction xs arbitrary: d)
  case Nil
  then show ?case by simp
next
  case (Cons x xs)
  from dag_wf_insert [OF Cons.prems, of x] Cons.IH [of "dag_insert toy_crypto x d"] show ?case by auto
qed

lemma run_round0_wf: "dag_wf toy_crypto [(0, run_round0)]" "dag_certs [(0, run_round0)] = run_genesis ` {1, 2, 3, 4}"
  by (auto simp: dag_wf_def round_map_wf_def run_round0_def dag_certs_def)

lemma run_dag_wf: "dag_wf toy_crypto dag_a" "dag_wf toy_crypto dag_b"
  unfolding dag_a [symmetric] dag_b [symmetric] using insert_all_wf run_round0_wf(1) by blast+

lemma run_dag_certs: "dag_certs dag_a \<subseteq> run_genesis ` {1, 2, 3, 4} \<union> set run_a"
  "dag_certs dag_b \<subseteq> run_genesis ` {1, 2, 3, 4} \<union> set run_a"
proof -
  have "set (early @ [run_cert 4 3] @ mid @ [run_cert 1 5]) \<subseteq> set run_a" by (auto simp: run_a_def)
  with insert_all_wf [OF run_round0_wf(1)] run_round0_wf(2)
  show "dag_certs dag_a \<subseteq> run_genesis ` {1, 2, 3, 4} \<union> set run_a" unfolding dag_a [symmetric] by blast
  have "set (early @ mid @ fives @ sixes @ [run_cert 1 7]) \<subseteq> set run_b" by (auto simp: run_b_def)
  with insert_all_wf [OF run_round0_wf(1)] run_round0_wf(2) member_runs(4)
  show "dag_certs dag_b \<subseteq> run_genesis ` {1, 2, 3, 4} \<union> set run_a" unfolding dag_b [symmetric] by blast
qed

lemma run_a_members: "x \<in> set run_a \<Longrightarrow> \<exists>i r. x = run_cert i r \<and> 1 \<le> i \<and> i \<le> 4 \<and> 1 \<le> r \<and> r \<le> 7"
proof -
  have "list_all (\<lambda>x. \<exists>i r. x = run_cert i r \<and> 1 \<le> i \<and> i \<le> 4 \<and> 1 \<le> r \<and> r \<le> 7) run_a"
    by (simp add: run_lists) (intro conjI exI, (rule refl | simp)+)
  then show "x \<in> set run_a \<Longrightarrow> \<exists>i r. x = run_cert i r \<and> 1 \<le> i \<and> i \<le> 4 \<and> 1 \<le> r \<and> r \<le> 7"
    by (auto simp: list_all_iff)
qed

lemma run_genesis_done: "genesis_done (run_state 0 [0, 0, 0, 0] dag_b)"
  unfolding genesis_done_def dag_run_state
proof (intro ballI impI)
  fix x
  assume "x \<in> dag_certs dag_b" "cert_round x = 0"
  with run_dag_certs(2) have "x \<in> run_genesis ` {1, 2, 3, 4}" using run_a_members by fastforce
  then show "already_committed (run_state 0 [0, 0, 0, 0] dag_b) x" using committed_start_genesis by blast
qed

lemma run_certs_cases:
  assumes "x \<in> run_genesis ` {1, 2, 3, 4} \<union> set run_a"
  obtains i where "x = run_genesis i" "i < 256" | i r where "x = run_cert i r" "i < 256" "0 < r" "r < 256"
  using assms run_a_members by fastforce

lemma run_digests_inj: "inj_on (cert_digest toy_crypto) (dag_certs dag_b)"
proof (rule inj_on_subset [OF _ run_dag_certs(2)], rule inj_onI)
  fix x y
  assume x: "x \<in> run_genesis ` {1, 2, 3, 4} \<union> set run_a" and y: "y \<in> run_genesis ` {1, 2, 3, 4} \<union> set run_a"
    and eq: "cert_digest toy_crypto x = cert_digest toy_crypto y"
  from x show "x = y"
  proof (cases rule: run_certs_cases)
    case (1 i)
    from y show ?thesis by (cases rule: run_certs_cases) (use eq 1 in auto)
  next
    case (2 i r)
    from y show ?thesis by (cases rule: run_certs_cases) (use eq 2 in auto)
  qed
qed

lemma run_round_certs: "map_of d r = Some (run_round r ns) \<Longrightarrow> i \<in> set ns \<Longrightarrow> run_cert i r \<in> dag_certs d"
  by (rule dag_certs_lookup [where r = r and n = "sample_key i" and dg = "sample_digest i r"])
    (auto simp: run_round_def)

lemma dag_b_certs: "i \<in> {1, 2, 3} \<Longrightarrow> r \<in> {1, 2, 3, 4, 5, 6} \<Longrightarrow> run_cert i r \<in> dag_certs dag_b"
proof -
  assume i: "i \<in> {1, 2, 3}" and r: "r \<in> {1, 2, 3, 4, 5, 6}"
  then have "\<exists>ns. map_of dag_b r = Some (run_round r ns) \<and> set ns \<supseteq> {1, 2, 3}"
    by (auto simp: dag_b_def run_dag_def)
  with i show ?thesis using run_round_certs by blast
qed

lemma run_cert_in_dag_b: "run_cert 1 4 \<in> dag_certs dag_b" "run_cert 3 2 \<in> dag_certs dag_b"
    "run_cert 3 3 \<in> dag_certs dag_b"
  by (rule dag_b_certs; simp)+

lemma quorum_parents_b:
  assumes "z \<in> dag_certs dag_b" "3 < cert_round z"
  shows "cq.has_quorum sample_committee (parent_authors toy_crypto dag_b z)"
proof -
  from assms run_dag_certs(2) have "z \<in> set run_a" by auto
  with run_a_members obtain i r where z: "z = run_cert i r" "r \<le> 7" by blast
  with assms(2) have r: "r - 1 \<in> {1, 2, 3, 4, 5, 6}" "3 < r" by auto
  have par: "cert_parents z = map (\<lambda>j. sample_digest j (r - 1)) [1, 2, 3]"
    using z r by (simp add: run_parent_ids_def)
  have key: "sample_key j \<in> parent_authors toy_crypto dag_b z" if "j \<in> {1, 2, 3}" for j
    unfolding parent_authors_def
  proof (intro image_eqI CollectI conjI)
    show "run_cert j (r - 1) \<in> dag_certs dag_b" using dag_b_certs that r(1) .
    show "cert_digest toy_crypto (run_cert j (r - 1)) \<in> set (cert_parents z)"
      unfolding par using that z by auto
  qed (use z r in simp_all)
  have mem: "parent_authors toy_crypto dag_b z \<subseteq> members sample_committee"
  proof
    fix k
    assume "k \<in> parent_authors toy_crypto dag_b z"
    then obtain p where "p \<in> dag_certs dag_b" "k = cert_origin p" by (auto simp: parent_authors_def)
    with run_dag_certs(2) have "p \<in> run_genesis ` {1, 2, 3, 4} \<union> set run_a" "k = cert_origin p" by auto
    then show "k \<in> members sample_committee"
      using member_runs(1) by (auto simp: members_sample)
  qed
  have "sum (weight_of sample_committee) {sample_key 1, sample_key 2, sample_key 3}
      \<le> sum (weight_of sample_committee) (parent_authors toy_crypto dag_b z)"
    by (rule sum_mono2) (use key mem in \<open>auto simp: members_sample intro: finite_subset\<close>)
  with mem show ?thesis by (simp add: cq.has_quorum_def quorum_sample weight_sample)
qed

theorem order_dag_history_witness:
  "{y. causal toy_crypto (run_state 0 [0, 0, 0, 0] dag_b) (run_cert 1 4) y \<and> 0 \<le> u64_add (cert_round y) 50} = set out_b"
proof -
  have inj: "inj_on (cert_digest toy_crypto) (insert (run_cert 1 4) (dag_certs dag_b))"
    using run_digests_inj run_cert_in_dag_b(1) by (simp add: insert_absorb)
  have "\<exists>xs. order_dag toy_crypto 50 (run_cert 1 4) (run_state 0 [0, 0, 0, 0] dag_b) = Some xs \<and> distinct xs \<and>
      sorted (map (\<lambda>x. (cert_round x, Down (cert_digest toy_crypto x))) xs) \<and>
      set xs = {y. causal toy_crypto (run_state 0 [0, 0, 0, 0] dag_b) (run_cert 1 4) y \<and>
        last_committed_round (run_state 0 [0, 0, 0, 0] dag_b) \<le> u64_add (cert_round y) 50}"
    by (rule order_dag_history) (use run_dag_wf run_genesis_done inj in simp_all)
  then show ?thesis unfolding order_b out_b_def [symmetric] by simp
qed

text \<open>
  From the leader of round 6 the loop finds that of round 5; the leader of round 4, which is
  linked and supported, is not among the past leaders.
\<close>

lemma order_leaders_six:
  "order_leaders sample_committee (run_cert 3 6) (run_state 0 [0, 0, 0, 0] dag_b) = Some [run_cert 3 6, run_cert 2 5]"
proof -
  have "u64_add 0 2 = 2" "[2..<6] = [2, 3, 4, 5::nat]" by (simp_all add: u64_add_def upt_conv_Cons)
  then have rounds: "leader_rounds 0 6 = [5, 3]" by (simp add: leader_rounds_def)
  have five: "leader_at sample_committee 5 dag_b = Some (sample_digest 2 5, run_cert 2 5)"
    unfolding leader_at_def leader_name_def leader_names
    by (simp add: dag_b_def run_dag_def run_round_def committee_size_def sample_committee_def)
  have "dag_path toy_crypto dag_b (run_cert 3 6) (run_cert 2 5)"
    by (rule path_parent [OF path_self]) (simp_all add: dag_b_certs run_parent_ids_def)
  then have "linked (run_cert 3 6) (run_cert 2 5) dag_b = Some True"
    by (intro linked_of_path [OF run_dag_wf(2)]) (simp_all add: dag_b_certs)
  then show ?thesis by (simp add: order_leaders_def rounds five leaders_b)
qed

theorem past_leaders_are_odd_witness:
  "odd (cert_round (run_cert 2 5))"
  using past_leaders_are_odd [OF _ order_leaders_six] run_dag_wf by simp

lemma path_b: "dag_path toy_crypto dag_b (run_cert 1 4) (run_cert 3 2)"
proof (rule dag_path_prepend [of _ _ "run_cert 3 3"])
  show "dag_path toy_crypto dag_b (run_cert 3 3) (run_cert 3 2)"
    by (rule path_parent [OF path_self run_cert_in_dag_b(2)]) (simp_all add: run_parent_ids_def)
qed (simp_all add: run_cert_in_dag_b run_parent_ids_def)

lemma linked_b: "linked (run_cert 1 4) (run_cert 3 2) dag_b = Some True"
  by (rule linked_of_path [OF run_dag_wf(2) run_cert_in_dag_b(2) _ path_b]) simp

theorem linked_decides_reachability_witness:
  "dag_path toy_crypto dag_b (run_cert 1 4) (run_cert 3 2)"
  using linked_decides_reachability [OF run_dag_wf(2) run_cert_in_dag_b(2) _ linked_b] by simp

theorem supported_leader_linked_witness:
  "linked (run_cert 1 4) (run_cert 3 2) dag_b = Some True"
proof (rule supported_leader_linked [OF sample_committee_ok run_dag_wf])
  show "no_equivocation dag_a dag_b"
    unfolding no_equivocation_def
  proof (intro ballI impI, elim conjE)
    fix x y
    assume "x \<in> dag_certs dag_a" "y \<in> dag_certs dag_b" and eq: "cert_round x = cert_round y" "cert_origin x = cert_origin y"
    then have x: "x \<in> run_genesis ` {1, 2, 3, 4} \<union> set run_a" and y: "y \<in> run_genesis ` {1, 2, 3, 4} \<union> set run_a"
      using run_dag_certs by blast+
    from x show "cert_parents x = cert_parents y"
    proof (cases rule: run_certs_cases)
      case (1 i)
      from y show ?thesis by (cases rule: run_certs_cases) (use eq 1 in auto)
    next
      case (2 i r)
      from y show ?thesis by (cases rule: run_certs_cases) (use eq 2 in auto)
    qed
  qed
  show "map_of dag_a (Suc (cert_round (run_cert 3 2))) = Some (run_round 3 [1, 2, 3, 4])"
    using leaders_a(2) by simp
  show "validity_threshold sample_committee \<le>
      leader_support sample_committee (cert_digest toy_crypto (run_cert 3 2)) (run_round 3 [1, 2, 3, 4])"
    by (simp add: validity_sample support_2 [unfolded One_nat_def])
  show "run_cert 3 2 \<in> dag_certs dag_b" "run_cert 1 4 \<in> dag_certs dag_b" using run_cert_in_dag_b by simp_all
  show "\<forall>z \<in> dag_certs dag_b. Suc (cert_round (run_cert 3 2)) < cert_round z \<longrightarrow>
      cq.has_quorum sample_committee (parent_authors toy_crypto dag_b z)"
    using quorum_parents_b by simp
qed simp

end
