(* ===== verification/ProposerRuns.thy ===== *)
theory ProposerRuns
  imports ProposerProps Runs
begin

text \<open>Concrete runs of the proposer, on which its properties are witnessed.\<close>

definition sample_proposer :: "string \<Rightarrow> public_key set \<Rightarrow> proposer_env" where
  "sample_proposer mode victims = \<lparr> pe_crypto = toy_crypto, pe_name = sample_key 1, pe_secret = sample_secret 1,
     pe_header_size = 1000, pe_max_header_delay = 100, pe_is_attacker = True,
     pe_attacker_nodes = {sample_key 1}, pe_victim_nodes = victims, pe_attack_active = attack_active mode,
     pe_mode = mode, pe_committee_size = 4, pe_p_max = 1, pe_p_max_limit = 50, pe_num_workers = 1, pe_grace_ms = 15,
     pe_refresh_parents = False, pe_require_victim = False, pe_network_factor = 1, pe_decay_rate = 1,
     pe_powi = (\<lambda>_ _. 1) \<rparr>"

abbreviation "honest \<equiv> sample_proposer [] {}"

lemma toy_header_new: "\<exists>h. header_new toy_crypto (sample_secret i) k r pl ps = Ok h"
  by (simp add: header_new_def Let_def request_signature_def signature_new_def
      toy_crypto_def [THEN arg_cong, of keypair_parses] sample_secret_def sample_key_def)

lemma honest_modes [simp]: "\<not> attacking honest mode"
  by (auto simp: attacking_def sample_proposer_def attack_active_def)

lemma honest_simps [simp]: "pe_crypto honest = toy_crypto" "pe_name honest = sample_key 1"
  "pe_secret honest = sample_secret 1" "pe_max_header_delay honest = 100" "pe_header_size honest = 1000"
  by (simp_all add: sample_proposer_def)

lemma honest_make_header:
  "\<exists>h. make_header honest late s = Some (s\<lparr>pr_last_parents := [], pr_digests := [], pr_headers := pr_headers s @ [h],
     pr_proposed := True, pr_victim_round := None, pr_victim_at := None\<rparr>) \<and> h_round h = pr_round s"
proof -
  obtain h where h: "header_new toy_crypto (sample_secret 1) (sample_key 1) (pr_round s) (bt_collect (pr_digests s))
      (bs_collect (map fst (pr_last_parents s))) = Ok h"
    using toy_header_new by blast
  then have "make_header honest late s = Some (s\<lparr>pr_last_parents := [], pr_digests := [], pr_headers := pr_headers s @ [h],
     pr_proposed := True, pr_victim_round := None, pr_victim_at := None\<rparr>)"
    by (simp add: make_header_def)
  with header_new_round [OF h] show ?thesis by blast
qed

definition two_ticks :: "proposer_tick list" where
  "two_ticks = [\<lparr> tk_now = 100, tk_cut = 1, tk_later = 101, tk_cut_later = 1, tk_event = FromCore [(Digest [7], sample_key 2)] 1 \<rparr>,
     \<lparr> tk_now = 200, tk_cut = 1, tk_later = 201, tk_cut_later = 1, tk_event = TimerFired \<rparr>]"

lemma first_header:
  "\<exists>h s. proposer_step honest (proposer_start honest sample_committee 0) (two_ticks ! 0) = Some s \<and>
     pr_headers s = [h] \<and> h_round h = 1 \<and> pr_round s = 2 \<and> pr_last_parents s = [(Digest [7], sample_key 2)] \<and>
     pr_deadline s = 200 \<and> pr_victim_round s = None \<and> pr_victim_at s = None"
proof -
  let ?s = "proposer_start honest sample_committee 0"
  have due: "should_propose honest 100 ?s"
    by (simp add: should_propose_def proposer_start_def genesis_sample)
  obtain h where "make_header honest 1 ?s = Some (?s\<lparr>pr_last_parents := [], pr_digests := [], pr_headers := pr_headers ?s @ [h],
     pr_proposed := True, pr_victim_round := None, pr_victim_at := None\<rparr>)" "h_round h = pr_round ?s"
    using honest_make_header by blast
  with due show ?thesis
    by (intro exI [of _ h])
      (simp add: two_ticks_def proposer_step_def propose_if_due_def make_header_now_def reset_timer_def from_core_def
        Let_def advance_def u64_add_def, simp add: proposer_start_def)
qed

lemma second_header:
  assumes "pr_headers s = [h1]" "pr_round s = 2" "pr_last_parents s = [(Digest [7], sample_key 2)]"
    "pr_deadline s = 200" "pr_victim_round s = None" "pr_victim_at s = None"
  shows "\<exists>h2 s2. proposer_step honest s (two_ticks ! 1) = Some s2 \<and> pr_headers s2 = [h1, h2] \<and> h_round h2 = 2"
proof -
  have due: "should_propose honest 200 s" using assms by (simp add: should_propose_def)
  obtain h2 where "make_header honest 1 s = Some (s\<lparr>pr_last_parents := [], pr_digests := [], pr_headers := pr_headers s @ [h2],
     pr_proposed := True, pr_victim_round := None, pr_victim_at := None\<rparr>)" "h_round h2 = pr_round s"
    using honest_make_header by blast
  with due assms show ?thesis
    by (intro exI [of _ h2])
      (simp add: two_ticks_def proposer_step_def propose_if_due_def make_header_now_def reset_timer_def Let_def)
qed

lemma two_headers:
  "\<exists>s. proposer_run honest (proposer_start honest sample_committee 0) two_ticks = Some s \<and> map h_round (pr_headers s) = [1, 2]"
proof -
  obtain h s where s: "proposer_step honest (proposer_start honest sample_committee 0) (two_ticks ! 0) = Some s"
    "pr_headers s = [h]" "h_round h = 1" "pr_round s = 2" "pr_last_parents s = [(Digest [7], sample_key 2)]"
    "pr_deadline s = 200" "pr_victim_round s = None" "pr_victim_at s = None"
    using first_header by blast
  obtain h2 s2 where s2: "proposer_step honest s (two_ticks ! 1) = Some s2" "pr_headers s2 = [h, h2]" "h_round h2 = 2"
    using second_header [OF s(2,4-8)] by blast
  have "two_ticks = [two_ticks ! 0, two_ticks ! 1]" by (simp add: two_ticks_def)
  then have "proposer_run honest (proposer_start honest sample_committee 0) two_ticks =
      proposer_run honest (proposer_start honest sample_committee 0) [two_ticks ! 0, two_ticks ! 1]"
    by (rule arg_cong)
  also have "\<dots> = Some s2" by (simp only: proposer_run.simps s(1) s2(1) Option.bind.bind_lunit)
  finally show ?thesis using s(3) s2(2,3) by simp
qed

theorem one_header_per_round_witness:
  "\<exists>s. proposer_run honest (proposer_start honest sample_committee 0) two_ticks = Some s \<and>
     length (pr_headers s) = 2 \<and> strict_sorted_list (map h_round (pr_headers s))"
proof -
  obtain s where s: "proposer_run honest (proposer_start honest sample_committee 0) two_ticks = Some s"
    "map h_round (pr_headers s) = [1, 2]"
    using two_headers by (elim exE conjE)
  have "\<forall>t \<in> set two_ticks. tick_ok (tk_event t)" by (simp add: two_ticks_def)
  from one_header_per_round [OF s(1) this] s(1) arg_cong [OF s(2), of length] show ?thesis by auto
qed

text \<open>Four parents of a committee of four, the second from a victim with a small digest.\<close>

definition fissure_parents :: "(digest \<times> public_key) list" where
  "fissure_parents = map (\<lambda>i. (Digest (replicate 32 (if i = 2 then 0 else 200)), sample_key i)) [1, 2, 3, 4]"

abbreviation "fissure \<equiv> sample_proposer ''fissure'' {sample_key 2}"

theorem fissure_keeps_parents_witness:
  "\<exists>s ds. preprocess_parents_with_origins fissure (proposer_start honest sample_committee 0) fissure_parents = (s, ds) \<and>
     length ds = 3 \<and> min (length fissure_parents) (min_parents fissure) \<le> length ds"
proof -
  have "length (snd (preprocess_parents_with_origins fissure (proposer_start honest sample_committee 0) fissure_parents)) = 3"
    by code_simp
  moreover obtain s ds where "preprocess_parents_with_origins fissure (proposer_start honest sample_committee 0) fissure_parents = (s, ds)"
    by fastforce
  ultimately show ?thesis using fissure_keeps_parents by force
qed

theorem fissure_minimum_below_quorum_witness:
  "min_parents honest = unat (quorum_threshold sample_committee) \<and> committee_size sample_committee mod 3 = 1"
proof -
  have size: "committee_size sample_committee = 4" by (simp add: committee_size_def sample_committee_def)
  then have "pe_committee_size honest = committee_size sample_committee" by (simp add: sample_proposer_def)
  moreover have "\<forall>k \<in> members sample_committee. stake_of sample_committee k = 1"
    unfolding members_sample by (simp add: stake_sample)
  ultimately show ?thesis
    using fissure_minimum_below_quorum [OF sample_committee_ok, of honest] size by simp
qed

theorem digest_wins_over_order_witness:
  "digest_wins_over (sample_digest 3 1) (sample_digest 2 9) \<and> sample_digest 2 9 \<le> sample_digest 3 1"
proof -
  have "wf_digest (sample_digest i r)" for i r by (simp add: sample_digest_def wf_digest_def)
  from digest_wins_over_order [OF this this, of 3 1 2 9] show ?thesis by simp
qed

theorem candidate_digest_exact_witness:
  "compute_header_digest honest 1 [] [sample_digest 1 0] =
     cert_digest toy_crypto (sample_cert 1 1 [sample_digest 1 0] [1, 2, 3])"
proof -
  obtain h where h: "header_new toy_crypto (sample_secret 1) (sample_key 1) 1 [] [sample_digest 1 0] = Ok h"
    using toy_header_new by blast
  then have "sample_header 1 1 [sample_digest 1 0] = h" by (simp add: sample_header_def unwrap_or_def)
  with candidate_digest_exact [of honest "sample_secret 1" 1 "[]" "[sample_digest 1 0]" h] h
  show ?thesis by (simp add: sample_cert_def)
qed

text \<open>Six batches of one worker in the queue.\<close>

abbreviation "speculative \<equiv> sample_proposer ''speculative'' {sample_key 2}"

definition queue_state :: proposer_state where
  "queue_state = (proposer_start honest sample_committee 0)\<lparr>pr_round := 2, pr_digests := map (\<lambda>i. (sample_digest i 9, 0)) [1, 2, 3, 4, 5, 6]\<rparr>"

lemma queue_simps [simp]: "pr_round queue_state = 2" "pr_digests queue_state = map (\<lambda>i. (sample_digest i 9, 0)) [1, 2, 3, 4, 5, 6]"
  by (simp_all add: queue_state_def proposer_start_def)

lemma queue_length: "length (pr_digests queue_state) = 6" by simp

lemma speculative_simps [simp]: "pe_crypto speculative = toy_crypto" "pe_name speculative = sample_key 1"
  "pe_secret speculative = sample_secret 1" "pe_p_max speculative = 1" "pe_p_max_limit speculative = 50" "pe_num_workers speculative = 1"
  by (simp_all add: sample_proposer_def)

lemma speculative_proposal: "\<exists>p. propose_speculative_block speculative 1 s ps = Some p"
proof -
  obtain h where "header_new toy_crypto (sample_secret 1) (sample_key 1) (pr_round s)
      (bt_collect (sample_worker_batches speculative (pr_round s) (pr_digests s) 0)) (bs_collect ps) = Ok h"
    using toy_header_new by blast
  then show ?thesis by (simp add: propose_speculative_block_def candidate_def Let_def)
qed

theorem speculative_header_wins_witness:
  "\<exists>s h. propose_speculative_block speculative 1 queue_state [] = Some (s, h) \<and>
     h_payload h = bt_collect (sample_worker_batches speculative 2 (pr_digests queue_state) 0)"
proof -
  obtain s h where p: "propose_speculative_block speculative 1 queue_state [] = Some (s, h)"
    using speculative_proposal by (metis surj_pair)
  from speculative_header_wins [OF _ p] p toy_sha_size show ?thesis
    by (auto simp del: queue_simps(2))
qed

text \<open>With this seed the draw takes at most two of the last four batches.\<close>

lemma sample_seed: "unat (speculative_worker_seed 2 0 0) = 16695506628682495282"
  by (simp add: speculative_worker_seed_def Let_def)

lemma few_sampled: "length (sample_worker_batches speculative 2 (pr_digests queue_state) 0) < 6"
proof -
  define f where "f i = (sample_digest i 9, 0 :: nat)" for i
  have q: "pr_digests queue_state = map f [1, 2, 3, 4, 5, 6]" by (simp add: f_def)
  have "filter (\<lambda>(_, wid). wid = 0 mod 2 ^ 32) (map f [1, 2, 3, 4, 5, 6]) = map f [1, 2, 3, 4, 5, 6]"
    by (simp add: f_def)
  then have part: "worker_part 2 (map f [1, 2, 3, 4, 5, 6]) 0 0 = [f 5, f 4]"
    by (simp add: worker_part_def sample_seed worker_sample_def Let_def last_of_def get_at_def)
  have drawn: "concat (map (worker_part 2 (map f [1, 2, 3, 4, 5, 6]) 0) [0 ..< pe_num_workers speculative]) = [f 5, f 4]"
    using part by (simp add: upt_rec del: One_nat_def)
  have "length (dedup_by fst {} [f 5, f 4]) < 6" using dedup_by_length [of fst "{}" "[f 5, f 4]"] by simp
  then show ?thesis unfolding q sample_worker_batches_def drawn by (simp add: Let_def dedup_by_nil)
qed

theorem speculative_loses_batches_witness:
  "\<exists>s h. make_header speculative 1 queue_state = Some s \<and> pr_digests s = [] \<and> length (pr_digests queue_state) = 6 \<and>
     pr_headers s = pr_headers queue_state @ [h] \<and>
     (h_payload h = bt_collect (pr_digests queue_state) \<or> length (h_payload h) \<le> 4)"
proof -
  let ?q = "queue_state\<lparr>pr_last_parents := []\<rparr>"
  have mode: "attacking speculative ''speculative''" "\<not> attacking speculative ''fissure''"
    by (auto simp: attacking_def sample_proposer_def attack_active_def)
  let ?p = "map fst (pr_last_parents queue_state)"
  obtain s2 h where "propose_speculative_block speculative 1 ?q ?p = Some (s2, h)"
    using speculative_proposal by (metis surj_pair)
  then obtain s where s: "make_header speculative 1 queue_state = Some s"
    using mode by (simp add: make_header_def Let_def)
  from speculative_loses_batches [OF this mode(1)] show ?thesis
    using s queue_length by (auto simp del: queue_simps(2))
qed

end
