(* ===== verification/Store.thy ===== *)
theory Store
  imports Messages
begin

text \<open>
  The crate \<open>store\<close> (store/src/lib.rs): the task that owns the database and serves writes,
  reads and blocking reads (\<open>notify_read\<close>). RocksDB is a third-party crate: the model keeps
  its contents as a map and takes, as a parameter \<open>io\<close>, the keys whose reads fail.
  A oneshot sender is the number of the request it answers. The byte codec of the stored
  messages (bincode) is the record \<open>codec\<close>.
\<close>

section \<open>The store task\<close>

record store =
  db :: "bytes \<Rightarrow> bytes option"
  obligations :: "(bytes, nat list) hash_map"

definition empty_store :: store where
  "empty_store = \<lparr> db = Map.empty, obligations = [] \<rparr>"

datatype store_command = Write bytes bytes | Read bytes nat | NotifyRead bytes nat

datatype store_reply = ReadReply nat "(bytes option, dag_error) outcome"
  | NotifyReply nat "(bytes, dag_error) outcome"

text \<open>\<open>db.get(&key)\<close>.\<close>

definition db_get :: "(bytes \<Rightarrow> bool) \<Rightarrow> store \<Rightarrow> bytes \<Rightarrow> (bytes option, dag_error) outcome" where
  "db_get io s k = (if io k then Err StoreError else Ok (db s k))"

fun store_step :: "(bytes \<Rightarrow> bool) \<Rightarrow> store \<Rightarrow> store_command \<Rightarrow> store \<times> store_reply list" where
  "store_step io s (Write k v) =
     (let s' = s\<lparr>db := (db s)(k \<mapsto> v)\<rparr>
      in case map_of (obligations s) k of
           None \<Rightarrow> (s', [])
         | Some senders \<Rightarrow> (s'\<lparr>obligations := AList.delete k (obligations s)\<rparr>,
                            map (\<lambda>n. NotifyReply n (Ok v)) senders))"
| "store_step io s (Read k n) = (s, [ReadReply n (db_get io s k)])"
| "store_step io s (NotifyRead k n) =
     (case db_get io s k of
        Ok None \<Rightarrow> (s\<lparr>obligations := hm_entry k [] (\<lambda>q. q @ [n]) (obligations s)\<rparr>, [])
      | Ok (Some v) \<Rightarrow> (s, [NotifyReply n (Ok v)])
      | Err e \<Rightarrow> (s, [NotifyReply n (Err e)])
      | Panic \<Rightarrow> (s, [NotifyReply n Panic]))"

text \<open>The task's loop over the commands of its channel.\<close>

fun store_run :: "(bytes \<Rightarrow> bool) \<Rightarrow> store \<Rightarrow> store_command list \<Rightarrow> store \<times> store_reply list" where
  "store_run io s [] = (s, [])"
| "store_run io s (c # cs) =
     (let (s1, r1) = store_step io s c; (s2, r2) = store_run io s1 cs in (s2, r1 @ r2))"

text \<open>The three client calls as they are seen by the other components.\<close>

definition store_write :: "store \<Rightarrow> bytes \<Rightarrow> bytes \<Rightarrow> store" where
  "store_write s k v = fst (store_step (\<lambda>_. False) s (Write k v))"

definition store_read :: "(bytes \<Rightarrow> bool) \<Rightarrow> store \<Rightarrow> bytes \<Rightarrow> (bytes option, dag_error) outcome" where
  "store_read io s k = db_get io s k"

text \<open>Third-party serialisation of what the primary keeps in the store.\<close>

record codec =
  ser_header :: "header \<Rightarrow> bytes"
  ser_cert :: "certificate \<Rightarrow> bytes"
  de_cert :: "bytes \<Rightarrow> certificate option"

text \<open>
  What is assumed of it: certificates round-trip, and neither the bytes of a header alone nor no
  bytes at all are those of a certificate (a certificate is a header followed by its votes).
\<close>

definition codec_ok :: "codec \<Rightarrow> bool" where
  "codec_ok cd \<longleftrightarrow> (\<forall>x. de_cert cd (ser_cert cd x) = Some x) \<and> (\<forall>h. de_cert cd (ser_header cd h) = None) \<and>
     de_cert cd [] = None"

section \<open>Invariant and replies\<close>

text \<open>A request waits only for a key that is absent, and only the listed keys have a queue.\<close>

definition store_inv :: "store \<Rightarrow> bool" where
  "store_inv s \<longleftrightarrow> hm_wf (obligations s) \<and> (\<forall>k q. map_of (obligations s) k = Some q \<longrightarrow> db s k = None)"

lemma db_get_simps [simp]:
  "db_get io s k = Ok x \<longleftrightarrow> \<not> io k \<and> x = db s k"
  "db_get io s k = Err e \<longleftrightarrow> io k \<and> e = StoreError"
  "db_get io s k \<noteq> Panic"
  by (auto simp: db_get_def)

lemma store_inv_empty: "store_inv empty_store"
  by (simp add: store_inv_def empty_store_def)

lemma store_step_inv: "store_inv s \<Longrightarrow> store_inv (fst (store_step io s c))"
  by (cases c)
    (auto simp: store_inv_def Let_def db_get_def map_of_entry hm_wf_entry split: option.splits outcome.splits)

lemma store_run_Cons:
  "store_run io s (c # cs) =
     (fst (store_run io (fst (store_step io s c)) cs),
      snd (store_step io s c) @ snd (store_run io (fst (store_step io s c)) cs))"
  by (simp add: Let_def split_def)

declare store_run.simps(2) [simp del]

lemma store_run_inv: "store_inv s \<Longrightarrow> store_inv (fst (store_run io s cs))"
  by (induction cs arbitrary: s) (simp_all add: store_run_Cons store_step_inv)

lemma db_step: "db (fst (store_step io s c)) = (case c of Write k v \<Rightarrow> (db s)(k \<mapsto> v) | _ \<Rightarrow> db s)"
  by (cases c) (auto simp: Let_def split: option.splits outcome.splits)

lemma db_store_write [simp]: "db (store_write s k v) = (db s)(k \<mapsto> v)"
  by (simp add: store_write_def db_step del: store_step.simps)

text \<open>The requests waiting for \<open>k\<close>, oldest first.\<close>

definition waiting_for :: "store \<Rightarrow> bytes \<Rightarrow> nat list" where
  "waiting_for s k = (case map_of (obligations s) k of None \<Rightarrow> [] | Some q \<Rightarrow> q)"

text \<open>The requests that got a value for their blocking read, in the order of the replies.\<close>

definition served :: "store_reply list \<Rightarrow> nat list" where
  "served rs = List.map_filter (\<lambda>r. case r of NotifyReply n (Ok v) \<Rightarrow> Some n | _ \<Rightarrow> None) rs"

definition notify_requests :: "bytes \<Rightarrow> store_command list \<Rightarrow> nat list" where
  "notify_requests k cs = List.map_filter (\<lambda>c. case c of NotifyRead k' n \<Rightarrow> if k' = k then Some n else None | _ \<Rightarrow> None) cs"

lemma served_append [simp]: "served (xs @ ys) = served xs @ served ys"
  by (simp add: served_def List.map_filter_def)

lemma served_map_ok [simp]: "served (map (\<lambda>n. NotifyReply n (Ok v)) ns) = ns"
  by (induction ns) (auto simp: served_def List.map_filter_def)

lemma served_simps [simp]: "served [] = []" "served [ReadReply n x] = []"
  "served [NotifyReply n (Ok v)] = [n]"
  by (auto simp: served_def List.map_filter_def)

lemma notify_requests_Cons:
  "notify_requests k (c # cs) =
     (case c of NotifyRead k' n \<Rightarrow> if k' = k then [n] else [] | _ \<Rightarrow> []) @ notify_requests k cs"
  by (auto simp: notify_requests_def List.map_filter_def split: store_command.splits)

lemma notify_requests_Nil [simp]: "notify_requests k [] = []"
  by (simp add: notify_requests_def List.map_filter_def)

lemma waiting_step:
  "waiting_for (fst (store_step io s c)) k =
     (case c of
        Write k' v \<Rightarrow> if k' = k then [] else waiting_for s k
      | Read k' n \<Rightarrow> waiting_for s k
      | NotifyRead k' n \<Rightarrow> waiting_for s k @ (if k' = k \<and> \<not> io k \<and> db s k = None then [n] else []))"
  by (cases c)
    (auto simp: waiting_for_def Let_def db_get_def map_of_entry split: option.splits outcome.splits)

lemma served_step:
  "served (snd (store_step io s c)) =
     (case c of
        Write k v \<Rightarrow> waiting_for s k
      | Read k n \<Rightarrow> []
      | NotifyRead k n \<Rightarrow> if \<not> io k \<and> db s k \<noteq> None then [n] else [])"
  by (cases c)
    (auto simp: waiting_for_def Let_def db_get_def served_def List.map_filter_def comp_def
      split: option.splits outcome.splits)

declare store_step.simps [simp del]

lemma waiting_absent: "store_inv s \<Longrightarrow> db s k \<noteq> None \<Longrightarrow> waiting_for s k = []"
  by (auto simp: store_inv_def waiting_for_def split: option.splits)

lemma store_run_count:
  assumes "\<forall>k. \<not> io k" "\<forall>k'. k' \<noteq> k \<longrightarrow> n \<notin> set (notify_requests k' cs)"
    and "\<forall>k'. k' \<noteq> k \<longrightarrow> n \<notin> set (waiting_for s k')"
  shows "count_list (served (snd (store_run io s cs))) n + count_list (waiting_for (fst (store_run io s cs)) k) n =
     count_list (waiting_for s k) n + count_list (notify_requests k cs) n"
  using assms(2,3)
proof (induction cs arbitrary: s)
  case Nil
  then show ?case by simp
next
  case (Cons c cs)
  let ?s = "fst (store_step io s c)"
  have others: "\<forall>k'. k' \<noteq> k \<longrightarrow> n \<notin> set (waiting_for ?s k')"
    using Cons.prems by (auto simp: waiting_step notify_requests_Cons split: store_command.splits)
  have rest: "\<forall>k'. k' \<noteq> k \<longrightarrow> n \<notin> set (notify_requests k' cs)"
    using Cons.prems(1) by (auto simp: notify_requests_Cons)
  have one: "count_list (served (snd (store_step io s c))) n + count_list (waiting_for ?s k) n =
      count_list (waiting_for s k) n + count_list (notify_requests k [c]) n"
  proof (cases c)
    case (Write k' v)
    then show ?thesis using Cons.prems(2)
      by (auto simp: waiting_step served_step notify_requests_Cons count_list_0_iff)
  next
    case (Read k' m)
    then show ?thesis by (simp add: waiting_step served_step notify_requests_Cons)
  next
    case (NotifyRead k' m)
    then have "k' = k \<or> m \<noteq> n" using Cons.prems(1) by (auto simp: notify_requests_Cons)
    with NotifyRead assms(1) show ?thesis
      by (auto simp: waiting_step served_step notify_requests_Cons)
  qed
  have "notify_requests k (c # cs) = notify_requests k [c] @ notify_requests k cs"
    by (simp add: notify_requests_Cons)
  with one Cons.IH [OF rest others] show ?case
    by (simp add: store_run_Cons)
qed

lemma store_run_unwritten:
  assumes "\<forall>k. \<not> io k" "db (fst (store_run io s cs)) k = None"
  shows "waiting_for (fst (store_run io s cs)) k = waiting_for s k @ notify_requests k cs \<and> db s k = None"
  using assms(2)
proof (induction cs arbitrary: s)
  case Nil
  then show ?case by simp
next
  case (Cons c cs)
  let ?s = "fst (store_step io s c)"
  from Cons have IH: "waiting_for (fst (store_run io ?s cs)) k = waiting_for ?s k @ notify_requests k cs"
    and none: "db ?s k = None" by (auto simp: store_run_Cons)
  from none have "db s k = None" "\<And>v. c \<noteq> Write k v"
    by (auto simp: db_step split: store_command.splits if_splits)
  moreover have "\<not> io k" using assms(1) by simp
  ultimately show ?case using IH
    by (auto simp: store_run_Cons waiting_step notify_requests_Cons split: store_command.splits)
qed

text \<open>
  Once its key has been written, a blocking read has been answered
  exactly as often as it was made; before that it has not been answered at all. No request
  is lost and none is served twice, whatever the order of writes and requests.
\<close>

theorem notify_read_answered:
  assumes "\<forall>k. \<not> io k" "store_run io empty_store cs = (s', rs)"
    and "\<forall>k'. k' \<noteq> k \<longrightarrow> n \<notin> set (notify_requests k' cs)"
  shows "count_list (served rs) n = (if db s' k = None then 0 else count_list (notify_requests k cs) n)"
proof -
  have empty: "waiting_for empty_store k' = []" for k' by (simp add: waiting_for_def empty_store_def)
  have run: "s' = fst (store_run io empty_store cs)" "rs = snd (store_run io empty_store cs)"
    using assms(2) by simp_all
  have count: "count_list (served rs) n + count_list (waiting_for s' k) n = count_list (notify_requests k cs) n"
    using store_run_count [OF assms(1,3), of empty_store] by (simp add: empty run)
  show ?thesis
  proof (cases "db s' k = None")
    case True
    then have "waiting_for s' k = notify_requests k cs"
      using store_run_unwritten [OF assms(1), of empty_store cs k] by (simp add: empty run)
    then show ?thesis using count True by simp
  next
    case False
    then have "waiting_for s' k = []"
      using waiting_absent store_run_inv [OF store_inv_empty, of io cs] by (simp add: run)
    then show ?thesis using count False by auto
  qed
qed

text \<open>Two requests for one key around its write, and one for a key never written.\<close>

theorem notify_read_answered_witness:
  "count_list (served (snd (store_run (\<lambda>_. False) empty_store
     [NotifyRead [1] 7, NotifyRead [2] 9, Write [1] [5], NotifyRead [1] 8]))) 8 = 1"
proof -
  let ?cs = "[NotifyRead [1] 7, NotifyRead [2] 9, Write [1] [5], NotifyRead [1] 8]"
  have "count_list (served (snd (store_run (\<lambda>_. False) empty_store ?cs))) 8 =
      (if db (fst (store_run (\<lambda>_. False) empty_store ?cs)) [1] = None then 0
       else count_list (notify_requests [1] ?cs) 8)"
    by (rule notify_read_answered) (auto simp: notify_requests_def List.map_filter_def)
  also have "\<dots> = 1"
    by (simp add: store_run_Cons db_step notify_requests_def List.map_filter_def)
  finally show ?thesis .
qed

section \<open>The interface the primary relies on\<close>

text \<open>
  A store of values by key: what a read returns after a write. The synchroniser and the core
  use the store through these laws only.
\<close>

locale key_value =
  fixes get :: "'s \<Rightarrow> 'k \<Rightarrow> 'v option"
    and put :: "'s \<Rightarrow> 'k \<Rightarrow> 'v \<Rightarrow> 's"
  assumes get_put: "get (put s k v) k' = (if k' = k then Some v else get s k')"
begin

lemma get_stays: "get s k \<noteq> None \<Longrightarrow> get (put s k' v) k \<noteq> None"
  by (simp add: get_put)

lemma missing_shrinks:
  "set (filter (\<lambda>k. get (put s k' v) k = None) ks) = set (filter (\<lambda>k. get s k = None) ks) - {k'}"
  by (auto simp: get_put)

lemma puts_stay: "get s k \<noteq> None \<Longrightarrow> get (foldl (\<lambda>s (k, v). put s k v) s kvs) k \<noteq> None"
  by (induction kvs arbitrary: s) (auto simp: get_put)

end

interpretation kv: key_value db store_write
  by unfold_locales simp

end
