(* ===== verification/Synchronizer.thy ===== *)
theory Synchronizer
  imports Store
begin

text \<open>
  The primary's synchroniser (primary/src/synchronizer.rs): whether the payload and the
  parents of a header are in the store, and the requests it leaves with the header waiter and
  the certificate waiter when they are not. \<open>io\<close> holds the keys whose reads fail.
\<close>

datatype waiter_message =
    SyncBatches "(digest, worker_id) hash_map" header
  | SyncParents "digest list" header

type_synonym genesis_table = "(digest \<times> certificate) list"

definition genesis_table :: "crypto \<Rightarrow> committee \<Rightarrow> genesis_table" where
  "genesis_table cr c = map (\<lambda>x. (cert_digest cr x, x)) (genesis c)"

definition payload_key :: "digest \<Rightarrow> worker_id \<Rightarrow> bytes" where
  "payload_key d w = digest_bytes d @ le_bytes 4 w"

section \<open>Payload\<close>

text \<open>The loop over the payload collects what is missing; a failed read ends it.\<close>

fun missing_batches ::
    "(bytes \<Rightarrow> bool) \<Rightarrow> store \<Rightarrow> (digest \<times> worker_id) list \<Rightarrow> (digest, worker_id) hash_map
      \<Rightarrow> ((digest, worker_id) hash_map, dag_error) outcome" where
  "missing_batches io s [] missing = Ok missing"
| "missing_batches io s ((d, w) # rest) missing =
     and_then (store_read io s (payload_key d w)) (\<lambda>v.
       missing_batches io s rest (if v = None then AList.update d w missing else missing))"

definition missing_payload ::
    "public_key \<Rightarrow> (bytes \<Rightarrow> bool) \<Rightarrow> store \<Rightarrow> header \<Rightarrow> (bool \<times> waiter_message list, dag_error) outcome" where
  "missing_payload name io s h =
     (if h_author h = name then Ok (False, [])
      else and_then (missing_batches io s (h_payload h) []) (\<lambda>missing.
        if missing = [] then Ok (False, []) else Ok (True, [SyncBatches missing h])))"

section \<open>Parents\<close>

fun collect_parents ::
    "codec \<Rightarrow> genesis_table \<Rightarrow> (bytes \<Rightarrow> bool) \<Rightarrow> store \<Rightarrow> digest list \<Rightarrow> digest list \<Rightarrow> certificate list
      \<Rightarrow> (digest list \<times> certificate list, dag_error) outcome" where
  "collect_parents cd g io s [] missing parents = Ok (missing, parents)"
| "collect_parents cd g io s (d # ds) missing parents =
     (case find (\<lambda>(x, _). x = d) g of
        Some (_, x) \<Rightarrow> collect_parents cd g io s ds missing (parents @ [x])
      | None \<Rightarrow> and_then (store_read io s (digest_to_vec d)) (\<lambda>v. case v of
            Some bs \<Rightarrow> (case de_cert cd bs of
                None \<Rightarrow> Err SerializationError
              | Some x \<Rightarrow> collect_parents cd g io s ds missing (parents @ [x]))
          | None \<Rightarrow> collect_parents cd g io s ds (missing @ [d]) parents))"

definition get_parents ::
    "codec \<Rightarrow> genesis_table \<Rightarrow> (bytes \<Rightarrow> bool) \<Rightarrow> store \<Rightarrow> header
      \<Rightarrow> (certificate list \<times> waiter_message list, dag_error) outcome" where
  "get_parents cd g io s h =
     and_then (collect_parents cd g io s (h_parents h) [] []) (\<lambda>(missing, parents).
       if missing = [] then Ok (parents, []) else Ok ([], [SyncParents missing h]))"

section \<open>Ancestors of a certificate\<close>

text \<open>\<open>True\<close> when all are there; otherwise the certificate goes to the certificate waiter.\<close>

fun ancestors_present ::
    "genesis_table \<Rightarrow> (bytes \<Rightarrow> bool) \<Rightarrow> store \<Rightarrow> digest list \<Rightarrow> (bool, dag_error) outcome" where
  "ancestors_present g io s [] = Ok True"
| "ancestors_present g io s (d # ds) =
     (if \<exists>e \<in> set g. fst e = d then ancestors_present g io s ds
      else and_then (store_read io s (digest_to_vec d)) (\<lambda>v.
        if v = None then Ok False else ancestors_present g io s ds))"

definition deliver_certificate ::
    "genesis_table \<Rightarrow> (bytes \<Rightarrow> bool) \<Rightarrow> store \<Rightarrow> certificate \<Rightarrow> (bool \<times> certificate list, dag_error) outcome" where
  "deliver_certificate g io s x =
     and_then (ancestors_present g io s (cert_parents x)) (\<lambda>b. Ok (b, if b then [] else [x]))"

section \<open>What the answers mean\<close>

lemma store_read_simps [simp]:
  "store_read io s k = Ok v \<longleftrightarrow> \<not> io k \<and> v = db s k"
  "store_read io s k \<noteq> Panic"
  by (simp_all add: store_read_def)

definition parent_known :: "genesis_table \<Rightarrow> store \<Rightarrow> digest \<Rightarrow> bool" where
  "parent_known g s d \<longleftrightarrow> d \<in> fst ` set g \<or> db s (digest_to_vec d) \<noteq> None"

lemma ancestors_present_Ok:
  "ancestors_present g io s ds = Ok True \<Longrightarrow> \<forall>d \<in> set ds. parent_known g s d"
  by (induction g io s ds rule: ancestors_present.induct) (auto simp: parent_known_def split: if_splits)

lemma ancestors_present_total:
  "\<forall>k. io k = False \<Longrightarrow> ancestors_present g io s ds = Ok (\<forall>d \<in> set ds. parent_known g s d)"
proof (induction ds)
  case Nil
  then show ?case by simp
next
  case (Cons d ds)
  have "store_read io s (digest_to_vec d) = Ok (db s (digest_to_vec d))" using Cons.prems by simp
  with Cons show ?case by (auto simp: parent_known_def)
qed

lemma find_table: "find (\<lambda>(x, _). x = d) g = None \<longleftrightarrow> d \<notin> fst ` set g"
  by (induction g) auto

lemma collect_parents_missing:
  "collect_parents cd g io s ds missing parents = Ok (m, ps) \<Longrightarrow>
     m = missing @ filter (\<lambda>d. \<not> parent_known g s d) ds \<and>
     (m = missing \<longrightarrow> length ps = length parents + length ds)"
proof (induction ds arbitrary: missing parents)
  case Nil
  then show ?case by simp
next
  case (Cons d ds)
  show ?case
  proof (cases "find (\<lambda>(x, _). x = d) g")
    case (Some e)
    then have known: "parent_known g s d" using find_table [of d g] by (auto simp: parent_known_def)
    obtain y x where "e = (y, x)" by (cases e)
    with Some Cons.prems have "collect_parents cd g io s ds missing (parents @ [x]) = Ok (m, ps)" by simp
    from Cons.IH [OF this] known show ?thesis by simp
  next
    case None
    then have new: "d \<notin> fst ` set g" using find_table by metis
    show ?thesis
    proof (cases "db s (digest_to_vec d)")
      case None': None
      then have "collect_parents cd g io s ds (missing @ [d]) parents = Ok (m, ps)"
        using Cons.prems None by simp
      from Cons.IH [OF this] new None' show ?thesis by (auto simp: parent_known_def)
    next
      case (Some bs)
      with Cons.prems None obtain x where "collect_parents cd g io s ds missing (parents @ [x]) = Ok (m, ps)"
        by (auto split: option.splits)
      from Cons.IH [OF this] Some show ?thesis by (auto simp: parent_known_def)
    qed
  qed
qed

lemma missing_batches_Ok:
  "missing_batches io s ps missing = Ok m \<Longrightarrow>
     set (map fst m) = set (map fst missing) \<union> {d. \<exists>w. (d, w) \<in> set ps \<and> db s (payload_key d w) = None}"
proof (induction ps arbitrary: missing)
  case Nil
  then show ?case by simp
next
  case (Cons p ps)
  obtain d w where p: "p = (d, w)" by (cases p)
  let ?next = "if db s (payload_key d w) = None then AList.update d w missing else missing"
  have "missing_batches io s ps ?next = Ok m" using Cons.prems by (auto simp: p)
  from Cons.IH [OF this] show ?case by (auto simp: p fst_set_update)
qed

text \<open>
  \<open>get_parents\<close> returns the certificates of all parents, or none of them
  together with one request that names exactly the parents neither in the genesis nor in the
  store.
\<close>

theorem get_parents_complete:
  assumes "get_parents cd g io s h = Ok (ps, msgs)"
  shows "(if \<exists>d \<in> set (h_parents h). \<not> parent_known g s d
          then ps = [] \<and> msgs = [SyncParents (filter (\<lambda>d. \<not> parent_known g s d) (h_parents h)) h]
          else length ps = length (h_parents h) \<and> msgs = [])"
proof -
  from assms obtain m qs where c: "collect_parents cd g io s (h_parents h) [] [] = Ok (m, qs)"
    and r: "(ps, msgs) = (if m = [] then (qs, []) else ([], [SyncParents m h]))"
    by (auto simp: get_parents_def split: if_splits)
  from collect_parents_missing [OF c] have m: "m = filter (\<lambda>d. \<not> parent_known g s d) (h_parents h)"
    "m = [] \<longrightarrow> length qs = length (h_parents h)" by simp_all
  have e: "m = [] \<longleftrightarrow> \<not> (\<exists>d \<in> set (h_parents h). \<not> parent_known g s d)"
    unfolding m(1) by (simp add: filter_empty_conv)
  show ?thesis
  proof (cases "m = []")
    case True
    with e r m(2) show ?thesis by simp
  next
    case False
    then have "ps = [] \<and> msgs = [SyncParents m h]" using r by simp
    with False e m(1) show ?thesis by simp
  qed
qed

text \<open>
  For the header of another authority, \<open>missing_payload\<close> says that
  the payload is incomplete exactly when some (batch, worker) pair is not in the store, and
  then leaves one request that names exactly the batches missing.
\<close>

theorem missing_payload_complete:
  assumes "missing_payload name io s h = Ok (b, msgs)" "h_author h \<noteq> name"
  shows "(b \<longleftrightarrow> (\<exists>(d, w) \<in> set (h_payload h). db s (payload_key d w) = None)) \<and>
    (if b then \<exists>m. msgs = [SyncBatches m h] \<and>
         set (map fst m) = {d. \<exists>w. (d, w) \<in> set (h_payload h) \<and> db s (payload_key d w) = None}
     else msgs = [])"
proof -
  from assms obtain m where m: "missing_batches io s (h_payload h) [] = Ok m"
    and r: "(b, msgs) = (if m = [] then (False, []) else (True, [SyncBatches m h]))"
    by (auto simp: missing_payload_def split: if_splits)
  have keys: "set (map fst m) = {d. \<exists>w. (d, w) \<in> set (h_payload h) \<and> db s (payload_key d w) = None}"
    using missing_batches_Ok [OF m] by simp
  have "m = [] \<longleftrightarrow> set (map fst m) = {}" by (cases m) auto
  then have e: "m = [] \<longleftrightarrow> \<not> (\<exists>(d, w) \<in> set (h_payload h). db s (payload_key d w) = None)"
    unfolding keys by auto
  show ?thesis
  proof (cases "m = []")
    case True
    with e r show ?thesis by simp
  next
    case False
    then have "b" "msgs = [SyncBatches m h]" using r by simp_all
    moreover have "\<exists>(d, w) \<in> set (h_payload h). db s (payload_key d w) = None" using False e by blast
    ultimately show ?thesis using keys by simp
  qed
qed

text \<open>A header with one parent in the genesis table and one unknown, and one unknown batch.\<close>

definition sync_header :: header where
  "sync_header = default_header\<lparr>h_author := PublicKey [7], h_parents := [Digest [1], Digest [2]],
     h_payload := [(Digest [3], 0)]\<rparr>"

definition sync_codec :: codec where
  "sync_codec = \<lparr> ser_header = (\<lambda>_. []), ser_cert = (\<lambda>_. []), de_cert = (\<lambda>_. None) \<rparr>"

abbreviation "sync_table \<equiv> [(Digest [1], \<lparr> c_header = default_header, c_votes = [] \<rparr>)]"

theorem get_parents_complete_witness:
  "get_parents sync_codec sync_table (\<lambda>_. False) empty_store sync_header = Ok ([], [SyncParents [Digest [2]] sync_header]) \<and>
   filter (\<lambda>d. \<not> parent_known sync_table empty_store d) (h_parents sync_header) = [Digest [2]]"
proof -
  have run: "get_parents sync_codec sync_table (\<lambda>_. False) empty_store sync_header =
      Ok ([], [SyncParents [Digest [2]] sync_header])"
    by (simp add: get_parents_def sync_header_def digest_to_vec_def store_read_def db_get_def empty_store_def)
  have "\<exists>d \<in> set (h_parents sync_header). \<not> parent_known sync_table empty_store d"
    by (simp add: sync_header_def parent_known_def empty_store_def)
  with get_parents_complete [OF run] run show ?thesis by simp
qed

theorem missing_payload_complete_witness:
  "\<exists>m. missing_payload (PublicKey [8]) (\<lambda>_. False) empty_store sync_header = Ok (True, [SyncBatches m sync_header]) \<and>
     set (map fst m) = {Digest [3]}"
proof -
  have run: "missing_payload (PublicKey [8]) (\<lambda>_. False) empty_store sync_header =
      Ok (True, [SyncBatches [(Digest [3], 0)] sync_header])"
    by (simp add: missing_payload_def sync_header_def store_read_def db_get_def empty_store_def)
  have "h_author sync_header \<noteq> PublicKey [8]" by (simp add: sync_header_def)
  from missing_payload_complete [OF run this] run show ?thesis
    by (auto simp: sync_header_def empty_store_def)
qed

end
