(* ===== verification/Aggregators.thy ===== *)
theory Aggregators
  imports Samples
begin

text \<open>
  The two aggregators of the primary (primary/src/aggregators.rs): votes into a certificate,
  certificates into the parents of the next header. The environment variable
  \<open>ATTACK_MODE\<close> is the parameter \<open>mode\<close>; logging is left out.
\<close>

section \<open>Votes\<close>

record votes_aggregator =
  va_weight :: stake
  va_votes :: "(public_key \<times> signature) list"
  va_used :: "public_key set"

definition va_new :: votes_aggregator where
  "va_new = \<lparr> va_weight = 0, va_votes = [], va_used = {} \<rparr>"

definition va_append ::
    "committee \<Rightarrow> header \<Rightarrow> votes_aggregator \<Rightarrow> vote
      \<Rightarrow> votes_aggregator \<times> (certificate option, dag_error) outcome" where
  "va_append c h a v =
     (let author = v_author v
      in if author \<in> va_used a then (a, Err (AuthorityReuse author))
         else let a1 = a\<lparr>va_used := insert author (va_used a),
                         va_votes := va_votes a @ [(author, v_signature v)],
                         va_weight := va_weight a + stake_of c author\<rparr>
              in if quorum_threshold c \<le> va_weight a1
                 then (a1\<lparr>va_weight := 0\<rparr>, Ok (Some \<lparr> c_header = h, c_votes = va_votes a1 \<rparr>))
                 else (a1, Ok None))"

section \<open>Certificates\<close>

record certificates_aggregator =
  ca_weight :: stake
  ca_certificates :: "(digest \<times> public_key) list"
  ca_used :: "public_key set"
  ca_quorum_reached :: bool
  ca_attack_active :: bool
  ca_is_attacker :: bool
  ca_victim_nodes :: "public_key set"
  ca_excluded_count :: nat
  ca_total_victim_seen :: nat

definition ca_new :: certificates_aggregator where
  "ca_new = \<lparr> ca_weight = 0, ca_certificates = [], ca_used = {}, ca_quorum_reached = False,
     ca_attack_active = False, ca_is_attacker = False, ca_victim_nodes = {},
     ca_excluded_count = 0, ca_total_victim_seen = 0 \<rparr>"

definition attack_modes :: "string set" where
  "attack_modes = {''fissure'', ''speculative'', ''sluggish''}"

definition ca_new_with_attack :: "string \<Rightarrow> bool \<Rightarrow> public_key set \<Rightarrow> certificates_aggregator" where
  "ca_new_with_attack mode is_attacker victims = \<lparr> ca_weight = 0, ca_certificates = [], ca_used = {},
     ca_quorum_reached = False, ca_attack_active = (mode \<in> attack_modes),
     ca_is_attacker = is_attacker, ca_victim_nodes = victims,
     ca_excluded_count = 0, ca_total_victim_seen = 0 \<rparr>"

definition ca_append ::
    "crypto \<Rightarrow> string \<Rightarrow> committee \<Rightarrow> certificates_aggregator \<Rightarrow> certificate
      \<Rightarrow> certificates_aggregator \<times> ((digest \<times> public_key) list option, dag_error) outcome" where
  "ca_append cr mode c a x =
     (let origin = cert_origin x
      in if origin \<in> ca_used a then (a, Ok None)
         else let a1 = a\<lparr>ca_used := insert origin (ca_used a),
                         ca_certificates := ca_certificates a @ [(cert_digest cr x, origin)],
                         ca_weight := ca_weight a + stake_of c origin\<rparr>
              in if ca_attack_active a1 \<and> ca_is_attacker a1 \<and> mode = ''speculative''
                 then let a2 = (if \<not> ca_quorum_reached a1 \<and> quorum_threshold c \<le> ca_weight a1
                                then a1\<lparr>ca_quorum_reached := True\<rparr> else a1)
                      in (a2, Ok (if ca_quorum_reached a2 then Some (ca_certificates a2) else None))
                 else if quorum_threshold c \<le> ca_weight a1
                 then (a1\<lparr>ca_weight := 0, ca_certificates := []\<rparr>, Ok (Some (ca_certificates a1)))
                 else (a1, Ok None))"

section \<open>Runs\<close>

fun va_run :: "committee \<Rightarrow> header \<Rightarrow> votes_aggregator \<Rightarrow> vote list \<Rightarrow> votes_aggregator \<times> certificate list" where
  "va_run c h a [] = (a, [])"
| "va_run c h a (v # vs) =
     (let (a1, r) = va_append c h a v; (a2, xs) = va_run c h a1 vs
      in (a2, (case r of Ok (Some x) \<Rightarrow> x # xs | _ \<Rightarrow> xs)))"

fun ca_run ::
    "crypto \<Rightarrow> string \<Rightarrow> committee \<Rightarrow> certificates_aggregator \<Rightarrow> certificate list
      \<Rightarrow> certificates_aggregator \<times> (digest \<times> public_key) list list" where
  "ca_run cr mode c a [] = (a, [])"
| "ca_run cr mode c a (x # xs) =
     (let (a1, r) = ca_append cr mode c a x; (a2, ps) = ca_run cr mode c a1 xs
      in (a2, (case r of Ok (Some p) \<Rightarrow> p # ps | _ \<Rightarrow> ps)))"

section \<open>Counting to a quorum once\<close>

text \<open>
  Both aggregators count the stake of distinct authorities, fire when it reaches the quorum
  and start again from zero. Since two disjoint quorums do not exist, they fire once.
\<close>

locale quorum_counter =
  fixes used :: "'a \<Rightarrow> public_key set"
    and weight :: "'a \<Rightarrow> stake"
    and step :: "committee \<Rightarrow> 'a \<Rightarrow> 'i \<Rightarrow> 'a"
    and fires :: "committee \<Rightarrow> 'a \<Rightarrow> 'i \<Rightarrow> bool"
    and key :: "'i \<Rightarrow> public_key"
    and ok :: "'a \<Rightarrow> bool"
  assumes step_old: "key i \<in> used a \<Longrightarrow> step c a i = a \<and> \<not> fires c a i"
    and step_ok: "ok a \<Longrightarrow> ok (step c a i)"
    and used_new: "ok a \<Longrightarrow> key i \<notin> used a \<Longrightarrow> used (step c a i) = insert (key i) (used a)"
    and fires_new: "ok a \<Longrightarrow> key i \<notin> used a \<Longrightarrow>
      fires c a i \<longleftrightarrow> quorum_threshold c \<le> weight a + stake_of c (key i)"
    and weight_new: "ok a \<Longrightarrow> key i \<notin> used a \<Longrightarrow>
      weight (step c a i) = (if fires c a i then 0 else weight a + stake_of c (key i))"
begin

fun fire_count :: "committee \<Rightarrow> 'a \<Rightarrow> 'i list \<Rightarrow> nat" where
  "fire_count c a [] = 0"
| "fire_count c a (i # is) = (if fires c a i then 1 else 0) + fire_count c (step c a i) is"

text \<open>Before the quorum the counter holds the exact stake of the authorities seen.\<close>

definition counting :: "committee \<Rightarrow> 'a \<Rightarrow> bool" where
  "counting c a \<longleftrightarrow> ok a \<and> finite (used a) \<and> unat (weight a) = sum (weight_of c) (used a) \<and>
     sum (weight_of c) (used a) < unat (quorum_threshold c)"

text \<open>After it, the stake of those seen since; the earlier ones carry a quorum.\<close>

definition fired :: "committee \<Rightarrow> 'a \<Rightarrow> bool" where
  "fired c a \<longleftrightarrow> ok a \<and> finite (used a) \<and> (\<exists>E \<subseteq> used a. unat (quorum_threshold c) \<le> sum (weight_of c) E \<and>
     unat (weight a) = sum (weight_of c) (used a - E))"

lemma unat_add_stake:
  assumes "committee_ok c" "finite S" "k \<notin> S" "unat w = sum (weight_of c) S"
  shows "unat (w + stake_of c k) = sum (weight_of c) (insert k S)"
proof -
  have "sum (weight_of c) (insert k S) < 2 ^ 31"
    using weight_le_total [of "insert k S" c] assms(1,2) by (simp add: committee_ok_def)
  then show ?thesis
    using assms(2-4) by (simp add: unat_word_ariths weight_of_def)
qed

lemma step_counting:
  assumes c: "committee_ok c" and a: "counting c a"
  shows "if fires c a i then fired c (step c a i) else counting c (step c a i)"
    and "fires c a i \<longleftrightarrow> unat (quorum_threshold c) \<le> sum (weight_of c) (insert (key i) (used a))"
proof -
  consider (old) "key i \<in> used a" | (new) "key i \<notin> used a" by blast
  then have "(if fires c a i then fired c (step c a i) else counting c (step c a i)) \<and>
     (fires c a i \<longleftrightarrow> unat (quorum_threshold c) \<le> sum (weight_of c) (insert (key i) (used a)))"
  proof cases
    case old
    then have "insert (key i) (used a) = used a" by blast
    then show ?thesis using step_old [OF old] a by (simp add: counting_def)
  next
    case new
    from a have ok: "ok a" and fin: "finite (used a)"
      and w: "unat (weight a) = sum (weight_of c) (used a)" by (simp_all add: counting_def)
    have sum: "unat (weight a + stake_of c (key i)) = sum (weight_of c) (insert (key i) (used a))"
      by (rule unat_add_stake [OF c fin new w])
    then have f: "fires c a i \<longleftrightarrow> unat (quorum_threshold c) \<le> sum (weight_of c) (insert (key i) (used a))"
      using fires_new [OF ok new] by (simp add: word_le_nat_alt)
    show ?thesis
    proof (cases "fires c a i")
      case True
      have "fired c (step c a i)"
        unfolding fired_def using True f fin used_new [OF ok new] weight_new [OF ok new] step_ok [OF ok]
        by (auto intro!: exI [of _ "insert (key i) (used a)"])
      with True f show ?thesis by simp
    next
      case False
      with f sum fin used_new [OF ok new] weight_new [OF ok new] step_ok [OF ok] show ?thesis
        by (simp add: counting_def)
    qed
  qed
  then show "if fires c a i then fired c (step c a i) else counting c (step c a i)"
    and "fires c a i \<longleftrightarrow> unat (quorum_threshold c) \<le> sum (weight_of c) (insert (key i) (used a))" by blast+
qed

lemma step_fired:
  assumes c: "committee_ok c" and a: "fired c a"
  shows "fired c (step c a i) \<and> \<not> fires c a i"
proof (cases "key i \<in> used a")
  case True
  then show ?thesis using step_old a by simp
next
  case new: False
  from a obtain E where E: "E \<subseteq> used a" "unat (quorum_threshold c) \<le> sum (weight_of c) E"
    "unat (weight a) = sum (weight_of c) (used a - E)" and ok: "ok a" and fin: "finite (used a)"
    by (auto simp: fired_def)
  have sum: "unat (weight a + stake_of c (key i)) = sum (weight_of c) (insert (key i) (used a - E))"
    by (rule unat_add_stake [OF c]) (use fin new E(3) in auto)
  have "sum (weight_of c) E + sum (weight_of c) (insert (key i) (used a - E)) \<le> total_weight c"
    by (rule weight_disjoint) (use fin E(1) new in \<open>auto intro: finite_subset\<close>)
  with E(2) unat_quorum_threshold [OF c]
  have "sum (weight_of c) (insert (key i) (used a - E)) < unat (quorum_threshold c)" by linarith
  with sum have nf: "\<not> fires c a i"
    using fires_new [OF ok new] by (simp add: word_le_nat_alt)
  have "insert (key i) (used a) - E = insert (key i) (used a - E)" using new E(1) by auto
  then have "fired c (step c a i)"
    unfolding fired_def
    using nf fin E(1,2) sum used_new [OF ok new] weight_new [OF ok new] step_ok [OF ok]
    by (auto intro!: exI [of _ E])
  with nf show ?thesis by simp
qed

lemma fire_count_fired: "committee_ok c \<Longrightarrow> fired c a \<Longrightarrow> fire_count c a is = 0"
  by (induction "is" arbitrary: a) (auto simp: step_fired)

lemma fire_count_counting:
  "committee_ok c \<Longrightarrow> counting c a \<Longrightarrow>
     fire_count c a is = (if unat (quorum_threshold c) \<le> sum (weight_of c) (used a \<union> key ` set is) then 1 else 0)"
proof (induction "is" arbitrary: a)
  case Nil
  then show ?case by (simp add: counting_def)
next
  case (Cons i "is")
  note st = step_counting [OF Cons.prems, of i]
  have fin: "finite (used a)" using Cons.prems(2) by (simp add: counting_def)
  show ?case
  proof (cases "fires c a i")
    case True
    with st have "fired c (step c a i)" by simp
    then have z: "fire_count c (step c a i) is = 0" using Cons.prems(1) fire_count_fired by blast
    have "sum (weight_of c) (insert (key i) (used a)) \<le> sum (weight_of c) (used a \<union> key ` set (i # is))"
      by (rule sum_mono2) (use fin in auto)
    with st True z show ?thesis by simp
  next
    case False
    with st have "counting c (step c a i)" by simp
    note IH = Cons.IH [OF Cons.prems(1) this]
    have "used (step c a i) = insert (key i) (used a)"
      using step_old [of i a c] used_new [of a i c] Cons.prems(2) by (cases "key i \<in> used a") (auto simp: counting_def)
    then have "used (step c a i) \<union> key ` set is = used a \<union> key ` set (i # is)" by auto
    with IH False show ?thesis by simp
  qed
qed

lemma fire_count_start:
  assumes "committee_ok c" "ok a" "used a = {}" "weight a = 0"
  shows "fire_count c a is = (if unat (quorum_threshold c) \<le> sum (weight_of c) (key ` set is) then 1 else 0)"
proof -
  have "counting c a" using assms by (simp add: counting_def unat_quorum_threshold)
  from fire_count_counting [OF assms(1) this] assms(3) show ?thesis by simp
qed

end

definition va_fires :: "header \<Rightarrow> committee \<Rightarrow> votes_aggregator \<Rightarrow> vote \<Rightarrow> bool" where
  "va_fires h c a v \<longleftrightarrow> (\<exists>x. snd (va_append c h a v) = Ok (Some x))"

interpretation vq: quorum_counter va_used va_weight "\<lambda>c a v. fst (va_append c h a v)" "va_fires h" v_author
    "\<lambda>_. True"
  for h
  by unfold_locales (auto simp: va_append_def va_fires_def Let_def)

definition ca_fires :: "crypto \<Rightarrow> string \<Rightarrow> committee \<Rightarrow> certificates_aggregator \<Rightarrow> certificate \<Rightarrow> bool" where
  "ca_fires cr mode c a x \<longleftrightarrow> (\<exists>ps. snd (ca_append cr mode c a x) = Ok (Some ps))"

text \<open>The aggregators that do not follow the speculative branch.\<close>

definition ca_plain :: "string \<Rightarrow> certificates_aggregator \<Rightarrow> bool" where
  "ca_plain mode a \<longleftrightarrow> \<not> (ca_attack_active a \<and> ca_is_attacker a \<and> mode = ''speculative'')"

interpretation caq: quorum_counter ca_used ca_weight "\<lambda>c a x. fst (ca_append cr mode c a x)"
    "ca_fires cr mode" cert_origin "ca_plain mode"
  for cr mode
  by unfold_locales (auto simp: ca_append_def ca_fires_def ca_plain_def Let_def)


section \<open>What the aggregators emit\<close>

lemma va_append_cases:
  obtains (reuse) "v_author v \<in> va_used a" "va_append c h a v = (a, Err (AuthorityReuse (v_author v)))"
  | (counted) r where "v_author v \<notin> va_used a"
      "va_used (fst (va_append c h a v)) = insert (v_author v) (va_used a)"
      "va_votes (fst (va_append c h a v)) = va_votes a @ [(v_author v, v_signature v)]"
      "snd (va_append c h a v) = Ok r"
      "\<And>x. r = Some x \<Longrightarrow> x = \<lparr> c_header = h, c_votes = va_votes (fst (va_append c h a v)) \<rparr>"
proof (cases "v_author v \<in> va_used a")
  case True
  then show ?thesis by (intro reuse) (simp_all add: va_append_def)
next
  case new: False
  show ?thesis
  proof (cases "quorum_threshold c \<le> va_weight a + stake_of c (v_author v)")
    case True
    with new show ?thesis by (intro counted) (auto simp add: va_append_def Let_def)
  next
    case False
    with new show ?thesis by (intro counted) (auto simp add: va_append_def Let_def)
  qed
qed

lemma va_run_Cons:
  "va_run c h a (v # vs) =
     (fst (va_run c h (fst (va_append c h a v)) vs),
      (case snd (va_append c h a v) of Ok (Some x) \<Rightarrow> [x] | _ \<Rightarrow> []) @
      snd (va_run c h (fst (va_append c h a v)) vs))"
  by (simp add: Let_def split_def split: outcome.splits option.splits)

lemma ca_run_Cons:
  "ca_run cr mode c a (x # xs) =
     (fst (ca_run cr mode c (fst (ca_append cr mode c a x)) xs),
      (case snd (ca_append cr mode c a x) of Ok (Some p) \<Rightarrow> [p] | _ \<Rightarrow> []) @
      snd (ca_run cr mode c (fst (ca_append cr mode c a x)) xs))"
  by (simp add: Let_def split_def split: outcome.splits option.splits)

declare va_run.simps(2) [simp del] ca_run.simps(2) [simp del]

lemma va_run_fire_count: "length (snd (va_run c h a vs)) = vq.fire_count h c a vs"
  by (induction vs arbitrary: a)
    (auto simp: va_run_Cons va_fires_def split: outcome.splits option.splits)

lemma ca_run_fire_count: "length (snd (ca_run cr mode c a xs)) = caq.fire_count cr mode c a xs"
  by (induction xs arbitrary: a)
    (auto simp: ca_run_Cons ca_fires_def split: outcome.splits option.splits)

text \<open>Every vote kept is one of those counted, once.\<close>

definition va_wf :: "votes_aggregator \<Rightarrow> bool" where
  "va_wf a \<longleftrightarrow> distinct (map fst (va_votes a)) \<and> set (map fst (va_votes a)) = va_used a"

lemma va_wf_append: "va_wf a \<Longrightarrow> va_wf (fst (va_append c h a v))"
  by (cases rule: va_append_cases [where v = v and a = a and c = c and h = h])
    (auto simp: va_wf_def)

lemma va_run_emits:
  "va_wf a \<Longrightarrow> x \<in> set (snd (va_run c h a vs)) \<Longrightarrow>
     c_header x = h \<and> distinct (map fst (c_votes x)) \<and>
     set (c_votes x) \<subseteq> set (va_votes a) \<union> (\<lambda>v. (v_author v, v_signature v)) ` set vs"
proof (induction vs arbitrary: a)
  case Nil
  then show ?case by simp
next
  case (Cons v vs)
  let ?a = "fst (va_append c h a v)"
  have votes: "set (va_votes ?a) \<subseteq> insert (v_author v, v_signature v) (set (va_votes a))"
    by (cases rule: va_append_cases [where v = v and a = a and c = c and h = h]) auto
  have wf: "va_wf ?a" using Cons.prems(1) by (rule va_wf_append)
  from Cons.prems(2) consider (now) "snd (va_append c h a v) = Ok (Some x)"
    | (later) "x \<in> set (snd (va_run c h ?a vs))"
    by (auto simp: va_run_Cons split: outcome.splits option.splits)
  then show ?case
  proof cases
    case now
    then have "x = \<lparr> c_header = h, c_votes = va_votes ?a \<rparr>"
      by (cases rule: va_append_cases [where v = v and a = a and c = c and h = h]) auto
    then show ?thesis using votes wf by (auto simp: va_wf_def)
  next
    case later
    with Cons.IH [OF wf] votes show ?thesis by fastforce
  qed
qed

lemma va_run_quorum:
  assumes "committee_ok c" "vq.counting c a" "va_wf a" "x \<in> set (snd (va_run c h a vs))"
  shows "unat (quorum_threshold c) \<le> sum (weight_of c) (cert_voters x)"
  using assms(2-4)
proof (induction vs arbitrary: a)
  case Nil
  then show ?case by simp
next
  case (Cons v vs)
  let ?a = "fst (va_append c h a v)"
  note st = vq.step_counting [OF assms(1) Cons.prems(1), of h v]
  have wf: "va_wf ?a" using Cons.prems(2) by (rule va_wf_append)
  show ?case
  proof (cases "va_fires h c a v")
    case True
    with st(1) have "vq.fire_count h c ?a vs = 0"
      using vq.fire_count_fired [OF assms(1)] by simp
    then have "snd (va_run c h ?a vs) = []" using va_run_fire_count by (metis length_0_conv)
    with Cons.prems(3) have "snd (va_append c h a v) = Ok (Some x)"
      by (auto simp: va_run_Cons split: outcome.splits option.splits)
    then have "cert_voters x = insert (v_author v) (va_used a)"
      by (cases rule: va_append_cases [where v = v and a = a and c = c and h = h])
        (use wf in \<open>auto simp: cert_voters_def va_wf_def image_Un\<close>)
    with st(2) True show ?thesis by simp
  next
    case False
    then have "snd (va_append c h a v) \<noteq> Ok (Some x)" by (simp add: va_fires_def)
    with Cons.prems(3) have "x \<in> set (snd (va_run c h ?a vs))"
      by (auto simp: va_run_Cons split: outcome.splits option.splits)
    with Cons.IH [OF _ wf] st False show ?thesis by simp
  qed
qed

lemma va_new_counting: "committee_ok c \<Longrightarrow> vq.counting c va_new"
  by (simp add: vq.counting_def va_new_def unat_quorum_threshold)

lemma va_wf_new: "va_wf va_new"
  by (simp add: va_wf_def va_new_def)

text \<open>
  C27: a sequence of votes handed to a fresh \<open>VotesAggregator\<close>
  gives exactly one certificate when their distinct authors carry a quorum of the stake, and
  none otherwise, in whatever order and with whatever repetitions the votes come.
\<close>

theorem votes_make_one_certificate:
  assumes "committee_ok c"
  shows "length (snd (va_run c h va_new vs)) =
    (if unat (quorum_threshold c) \<le> sum (weight_of c) (v_author ` set vs) then 1 else 0)"
  using vq.fire_count_start [OF assms, of va_new h vs]
  by (simp add: va_run_fire_count) (simp add: va_new_def)


text \<open>
  A \<open>CertificatesAggregator\<close> outside the speculative attack hands
  a parent set to the proposer exactly once per round, when the distinct origins of the
  round's certificates carry a quorum, and never without one.
\<close>

theorem parents_announced_once:
  assumes "committee_ok c" "mode \<noteq> ''speculative'' \<or> \<not> is_attacker"
  shows "length (snd (ca_run cr mode c (ca_new_with_attack mode is_attacker victims) xs)) =
    (if unat (quorum_threshold c) \<le> sum (weight_of c) (cert_origin ` set xs) then 1 else 0)"
  using caq.fire_count_start [OF assms(1), of mode "ca_new_with_attack mode is_attacker victims" cr xs] assms(2)
  by (simp add: ca_run_fire_count) (auto simp: ca_new_with_attack_def ca_plain_def)

section \<open>Witnesses\<close>

text \<open>The votes of three authorities for one header, one of them twice.\<close>

definition sample_vote :: "nat \<Rightarrow> vote" where
  "sample_vote j = unwrap_or \<lparr> v_id = default_digest, v_round = 0, v_origin = default_key,
     v_author = default_key, v_signature = default_signature \<rparr>
     (vote_new toy_crypto (sample_secret j) (sample_header 1 1 []) (sample_key j))"

abbreviation "sample_votes \<equiv> [sample_vote 1, sample_vote 2, sample_vote 2, sample_vote 3]"

lemma sample_votes_authors: "map v_author sample_votes = map sample_key [1, 2, 2, 3]"
  by code_simp

lemma sample_votes_author_set: "v_author ` set sample_votes = {sample_key 1, sample_key 2, sample_key 3}"
proof -
  have "v_author ` set sample_votes = set (map v_author sample_votes)" by (simp only: set_map)
  then show ?thesis by (simp only: sample_votes_authors) auto
qed

lemma sample_votes_cert: "snd (va_run sample_committee (sample_header 1 1 []) va_new sample_votes) = [sample_x]"
  by code_simp

theorem votes_make_one_certificate_witness:
  "length (snd (va_run sample_committee (sample_header 1 1 []) va_new sample_votes)) = 1"
  unfolding votes_make_one_certificate [OF sample_committee_ok] sample_votes_author_set
  by (simp add: quorum_sample weight_sample)


theorem parents_announced_once_witness:
  "length (snd (ca_run toy_crypto ''fissure'' sample_committee
     (ca_new_with_attack ''fissure'' True {sample_key 3})
     [sample_cert 1 1 [] [], sample_cert 2 1 [] [], sample_cert 3 1 [] [], sample_cert 4 1 [] []])) = 1"
proof -
  have "cert_origin ` set [sample_cert 1 1 [] [], sample_cert 2 1 [] [], sample_cert 3 1 [] [], sample_cert 4 1 [] []]
      = {sample_key 1, sample_key 2, sample_key 3, sample_key 4}"
    by (simp add: cert_origin_def)
  then show ?thesis
    by (simp add: parents_announced_once [OF sample_committee_ok] quorum_sample weight_sample)
qed

end
