(* ===== verification/Core.thy ===== *)
theory Core
  imports Synchronizer Aggregators Roles
begin

text \<open>
  The core of the primary (primary/src/core.rs): it checks headers, votes and certificates,
  votes, assembles certificates and passes them on. What the code sends over channels and the
  network is the log \<open>outputs\<close> of the state, oldest first. The three mutually recursive
  handlers take fuel; \<open>core_fuel\<close> calls are always enough (\<open>core_handle_returns\<close>).
\<close>

section \<open>Messages, outputs, state\<close>

datatype primary_message = HeaderMessage header | VoteMessage vote | CertificateMessage certificate
  | CertificatesRequest "digest list" public_key

datatype core_output =
    Broadcast primary_message "socket_addr list"
  | SendTo primary_message socket_addr
  | ToProposer "(digest \<times> public_key) list" round
  | ToConsensus certificate
  | ToHeaderWaiter waiter_message
  | ToCertificateWaiter certificate
  | VictimRound round

text \<open>The constants of the task; \<open>ce_env\<close> holds the environment variables of the attack.\<close>

record core_env =
  ce_crypto :: crypto
  ce_codec :: codec
  ce_committee :: committee
  ce_name :: public_key
  ce_secret :: secret_key
  ce_gc_depth :: round
  ce_env :: attack_env

definition ce_attacker_ratio :: "core_env \<Rightarrow> f64" where
  "ce_attacker_ratio e = option_or (env_attacker_ratio (ce_env e)) (f64_of (33 / 100))"

definition ce_victim_ratio :: "core_env \<Rightarrow> f64" where
  "ce_victim_ratio e = option_or (env_victim_ratio (ce_env e)) (f64_of (22 / 100))"

definition ce_mode :: "core_env \<Rightarrow> string" where
  "ce_mode e = env_mode (ce_env e)"

definition ce_attack_active :: "core_env \<Rightarrow> bool" where
  "ce_attack_active e = attack_active (ce_mode e)"

definition ce_is_attacker :: "core_env \<Rightarrow> bool" where
  "ce_is_attacker e = core_is_attacker (ce_mode e) (ce_name e) (ce_committee e) (ce_attacker_ratio e)"

definition ce_victims :: "core_env \<Rightarrow> public_key set" where
  "ce_victims e = core_victim_nodes (ce_committee e) (ce_attacker_ratio e) (ce_victim_ratio e)
     (env_victim_count (ce_env e))"

definition ce_genesis :: "core_env \<Rightarrow> genesis_table" where
  "ce_genesis e = genesis_table (ce_crypto e) (ce_committee e)"

text \<open>A cancel handler is the message it keeps being retransmitted.\<close>

record core_state =
  core_store :: store
  gc_round :: round
  last_voted :: "(round, public_key set) hash_map"
  processing :: "(round, digest set) hash_map"
  current_header :: header
  votes_agg :: votes_aggregator
  certificates_agg :: "(round, certificates_aggregator) hash_map"
  cancel_handlers :: "(round, core_output list) hash_map"
  outputs :: "core_output list"

definition core_start :: "store \<Rightarrow> core_state" where
  "core_start s = \<lparr> core_store = s, gc_round = 0, last_voted = [], processing = [],
     current_header = default_header, votes_agg = va_new, certificates_agg = [],
     cancel_handlers = [], outputs = [] \<rparr>"

section \<open>Sequencing\<close>

text \<open>
  A handler changes the state and ends in an outcome; \<open>None\<close> is fuel spent. \<open>cbind\<close> is the
  \<open>?\<close> operator, \<open>cexpect\<close> turns an error into a panic.
\<close>

type_synonym 'a handler = "core_state \<Rightarrow> (core_state \<times> ('a, dag_error) outcome) option"

definition cret :: "'a \<Rightarrow> 'a handler" where
  "cret a = (\<lambda>s. Some (s, Ok a))"

definition cbind :: "'a handler \<Rightarrow> ('a \<Rightarrow> 'b handler) \<Rightarrow> 'b handler" where
  "cbind m f = (\<lambda>s. case m s of
     None \<Rightarrow> None
   | Some (s', Ok a) \<Rightarrow> f a s'
   | Some (s', Err e) \<Rightarrow> Some (s', Err e)
   | Some (s', Panic) \<Rightarrow> Some (s', Panic))"

definition cmodify :: "(core_state \<Rightarrow> core_state) \<Rightarrow> unit handler" where
  "cmodify f = (\<lambda>s. Some (f s, Ok ()))"

definition cread :: "(core_state \<Rightarrow> ('a, dag_error) outcome) \<Rightarrow> 'a handler" where
  "cread f = (\<lambda>s. Some (s, f s))"

definition cexpect :: "'a handler \<Rightarrow> 'a handler" where
  "cexpect m = (\<lambda>s. case m s of
     None \<Rightarrow> None
   | Some (s', Ok a) \<Rightarrow> Some (s', Ok a)
   | Some (s', _) \<Rightarrow> Some (s', Panic))"

definition cout :: "core_output list \<Rightarrow> unit handler" where
  "cout ms = cmodify (\<lambda>s. s\<lparr>outputs := outputs s @ ms\<rparr>)"

text \<open>A reliable send: the message goes out and its handler is kept under the round.\<close>

definition csend :: "round \<Rightarrow> core_output \<Rightarrow> unit handler" where
  "csend r m = cmodify (\<lambda>s. s\<lparr>outputs := outputs s @ [m],
     cancel_handlers := hm_entry r [] (\<lambda>ms. ms @ [m]) (cancel_handlers s)\<rparr>)"

definition cwrite :: "bytes \<Rightarrow> bytes \<Rightarrow> unit handler" where
  "cwrite k v = cmodify (\<lambda>s. s\<lparr>core_store := store_write (core_store s) k v\<rparr>)"

definition primary_addrs :: "core_env \<Rightarrow> socket_addr list" where
  "primary_addrs e = map (\<lambda>(_, x). primary_to_primary x) (others_primaries (ce_committee e) (ce_name e))"

section \<open>Handlers\<close>

text \<open>The loop over the parents of a header.\<close>

fun parents_stake :: "committee \<Rightarrow> header \<Rightarrow> certificate list \<Rightarrow> stake \<Rightarrow> (stake, dag_error) outcome" where
  "parents_stake c h [] stake = Ok stake"
| "parents_stake c h (x # xs) stake =
     and_then (ensure (u64_add (cert_round x) 1 = h_round h) (MalformedHeader (h_id h)))
       (\<lambda>_. parents_stake c h xs (stake + stake_of c (cert_origin x)))"

definition set_of_round :: "(round, 'a set) hash_map \<Rightarrow> round \<Rightarrow> 'a set" where
  "set_of_round m r = (case map_of m r of None \<Rightarrow> {} | Some A \<Rightarrow> A)"

text \<open>The part of \<open>process_header\<close> from \<open>last_voted\<close> on: vote once per round and author.\<close>

definition vote_once :: "core_env \<Rightarrow> (vote \<Rightarrow> unit handler) \<Rightarrow> header \<Rightarrow> unit handler" where
  "vote_once e process_vote h =
     cbind (cread (\<lambda>s. Ok (h_author h \<notin> set_of_round (last_voted s) (h_round h)))) (\<lambda>fresh.
     cbind (cmodify (\<lambda>s. s\<lparr>last_voted := hm_entry (h_round h) {} (insert (h_author h)) (last_voted s)\<rparr>)) (\<lambda>_.
     if \<not> fresh then cret ()
     else cbind (cread (\<lambda>s. vote_new (ce_crypto e) (ce_secret e) h (ce_name e))) (\<lambda>v.
       if v_origin v = ce_name e then cexpect (process_vote v)
       else cbind (cexpect (cread (\<lambda>s. outcome_map_err (\<lambda>_. UnknownAuthority (h_author h))
                    (primary_of (ce_committee e) (h_author h))))) (\<lambda>a.
            csend (h_round h) (SendTo (VoteMessage v) (primary_to_primary a))))))"

definition notify_victim :: "core_env \<Rightarrow> header \<Rightarrow> unit handler" where
  "notify_victim e h =
     (if ce_attack_active e \<and> ce_is_attacker e \<and> (ce_mode e = ''speculative'' \<or> ce_mode e = ''sluggish'') \<and>
         h_author h \<noteq> ce_name e \<and> h_author h \<in> ce_victims e
      then cout [VictimRound (h_round h)] else cret ())"

text \<open>The part from the check of the payload on.\<close>

definition accept_header ::
    "core_env \<Rightarrow> (bytes \<Rightarrow> bool) \<Rightarrow> (vote \<Rightarrow> unit handler) \<Rightarrow> header \<Rightarrow> unit handler" where
  "accept_header e io process_vote h =
     cbind (cread (\<lambda>s. missing_payload (ce_name e) io (core_store s) h)) (\<lambda>(missing, reqs).
     cbind (cout (map ToHeaderWaiter reqs)) (\<lambda>_.
     if missing then cret ()
     else cbind (cwrite (digest_to_vec (h_id h)) (ser_header (ce_codec e) h)) (\<lambda>_.
     cbind (notify_victim e h) (\<lambda>_.
     vote_once e process_vote h))))"

definition process_header_with ::
    "core_env \<Rightarrow> (bytes \<Rightarrow> bool) \<Rightarrow> (vote \<Rightarrow> unit handler) \<Rightarrow> header \<Rightarrow> unit handler" where
  "process_header_with e io process_vote h =
     cbind (cmodify (\<lambda>s. s\<lparr>processing := hm_entry (h_round h) {} (insert (h_id h)) (processing s)\<rparr>)) (\<lambda>_.
     cbind (cread (\<lambda>s. get_parents (ce_codec e) (ce_genesis e) io (core_store s) h)) (\<lambda>(parents, reqs).
     cbind (cout (map ToHeaderWaiter reqs)) (\<lambda>_.
     if parents = [] then cret ()
     else cbind (cread (\<lambda>s. parents_stake (ce_committee e) h parents 0)) (\<lambda>stake.
     cbind (cread (\<lambda>s. ensure (quorum_threshold (ce_committee e) \<le> stake) (HeaderRequiresQuorum (h_id h)))) (\<lambda>_.
     accept_header e io process_vote h)))))"

text \<open>\<open>append\<close> of the votes aggregator, for the current header.\<close>

definition append_vote :: "core_env \<Rightarrow> vote \<Rightarrow> certificate option handler" where
  "append_vote e v = (\<lambda>s. case va_append (ce_committee e) (current_header s) (votes_agg s) v of
     (a, r) \<Rightarrow> Some (s\<lparr>votes_agg := a\<rparr>, r))"

definition process_vote_with :: "core_env \<Rightarrow> (certificate \<Rightarrow> unit handler) \<Rightarrow> vote \<Rightarrow> unit handler" where
  "process_vote_with e process_certificate v =
     cbind (append_vote e v) (\<lambda>r. case r of
         None \<Rightarrow> cret ()
       | Some x \<Rightarrow> cbind (csend (cert_round x) (Broadcast (CertificateMessage x) (primary_addrs e))) (\<lambda>_.
           cexpect (process_certificate x)))"

definition new_certificates_agg :: "core_env \<Rightarrow> certificates_aggregator" where
  "new_certificates_agg e =
     (if ce_attack_active e \<and> ce_is_attacker e then ca_new_with_attack (ce_mode e) True (ce_victims e) else ca_new)"

text \<open>The entry of the certificate's round, with \<open>append\<close> applied to it.\<close>

definition append_certificate :: "core_env \<Rightarrow> certificate \<Rightarrow> (digest \<times> public_key) list option handler" where
  "append_certificate e x = (\<lambda>s.
     let a = option_or (map_of (certificates_agg s) (cert_round x)) (new_certificates_agg e)
     in case ca_append (ce_crypto e) (ce_mode e) (ce_committee e) a x of
          (a', r) \<Rightarrow> Some (s\<lparr>certificates_agg := AList.update (cert_round x) a' (certificates_agg s)\<rparr>, r))"

text \<open>The part of \<open>process_certificate\<close> after the embedded header.\<close>

definition accept_certificate :: "core_env \<Rightarrow> (bytes \<Rightarrow> bool) \<Rightarrow> certificate \<Rightarrow> unit handler" where
  "accept_certificate e io x =
     cbind (cread (\<lambda>s. deliver_certificate (ce_genesis e) io (core_store s) x)) (\<lambda>(delivered, reqs).
     cbind (cout (map ToCertificateWaiter reqs)) (\<lambda>_.
     if \<not> delivered then cret ()
     else cbind (cwrite (digest_to_vec (cert_digest (ce_crypto e) x)) (ser_cert (ce_codec e) x)) (\<lambda>_.
     cbind (append_certificate e x) (\<lambda>parents.
     cbind (case parents of None \<Rightarrow> cret () | Some ps \<Rightarrow> cout [ToProposer ps (cert_round x)]) (\<lambda>_.
     cout [ToConsensus x])))))"

definition process_certificate_with ::
    "core_env \<Rightarrow> (bytes \<Rightarrow> bool) \<Rightarrow> (header \<Rightarrow> unit handler) \<Rightarrow> certificate \<Rightarrow> unit handler" where
  "process_certificate_with e io process_header x =
     cbind (cread (\<lambda>s. Ok (h_id (c_header x) \<in> set_of_round (processing s) (h_round (c_header x))))) (\<lambda>seen.
     cbind (if seen then cret () else process_header (c_header x)) (\<lambda>_.
     accept_certificate e io x))"

fun process_header :: "nat \<Rightarrow> core_env \<Rightarrow> (bytes \<Rightarrow> bool) \<Rightarrow> header \<Rightarrow> unit handler"
  and process_vote :: "nat \<Rightarrow> core_env \<Rightarrow> (bytes \<Rightarrow> bool) \<Rightarrow> vote \<Rightarrow> unit handler"
  and process_certificate :: "nat \<Rightarrow> core_env \<Rightarrow> (bytes \<Rightarrow> bool) \<Rightarrow> certificate \<Rightarrow> unit handler" where
  "process_header 0 e io h = (\<lambda>s. None)"
| "process_header (Suc n) e io h = process_header_with e io (process_vote n e io) h"
| "process_vote 0 e io v = (\<lambda>s. None)"
| "process_vote (Suc n) e io v = process_vote_with e (process_certificate n e io) v"
| "process_certificate 0 e io x = (\<lambda>s. None)"
| "process_certificate (Suc n) e io x = process_certificate_with e io (process_header n e io) x"

definition process_own_header :: "nat \<Rightarrow> core_env \<Rightarrow> (bytes \<Rightarrow> bool) \<Rightarrow> header \<Rightarrow> unit handler" where
  "process_own_header n e io h =
     cbind (cmodify (\<lambda>s. s\<lparr>current_header := h, votes_agg := va_new\<rparr>)) (\<lambda>_.
     cbind (csend (h_round h) (Broadcast (HeaderMessage h) (primary_addrs e))) (\<lambda>_.
     process_header n e io h))"

section \<open>Checks on what comes from the network\<close>

definition sanitize_header :: "core_env \<Rightarrow> core_state \<Rightarrow> header \<Rightarrow> (unit, dag_error) outcome" where
  "sanitize_header e s h =
     and_then (ensure (gc_round s \<le> h_round h) (TooOld (h_id h) (h_round h)))
       (\<lambda>_. header_verify (ce_crypto e) (ce_committee e) h)"

definition sanitize_vote :: "core_env \<Rightarrow> core_state \<Rightarrow> vote \<Rightarrow> (unit, dag_error) outcome" where
  "sanitize_vote e s v =
     and_then (ensure (h_round (current_header s) \<le> v_round v) (TooOld (vote_digest (ce_crypto e) v) (v_round v))) (\<lambda>_.
     and_then (ensure (v_id v = h_id (current_header s) \<and> v_origin v = h_author (current_header s) \<and>
                 v_round v = h_round (current_header s)) (UnexpectedVote (v_id v))) (\<lambda>_.
     vote_verify (ce_crypto e) (ce_committee e) v))"

definition sanitize_certificate :: "core_env \<Rightarrow> core_state \<Rightarrow> certificate \<Rightarrow> (unit, dag_error) outcome" where
  "sanitize_certificate e s x =
     and_then (ensure (gc_round s \<le> cert_round x) (TooOld (cert_digest (ce_crypto e) x) (cert_round x)))
       (\<lambda>_. cert_verify (ce_crypto e) (ce_committee e) x)"

section \<open>The main loop\<close>

datatype core_event = FromPrimaries primary_message | FromHeaderWaiter header
  | FromCertificateWaiter certificate | FromProposer header

definition core_fuel :: nat where
  "core_fuel = 8"

fun core_handle :: "core_env \<Rightarrow> (bytes \<Rightarrow> bool) \<Rightarrow> core_event \<Rightarrow> unit handler" where
  "core_handle e io (FromPrimaries (HeaderMessage h)) =
     cbind (cread (\<lambda>s. sanitize_header e s h)) (\<lambda>_. process_header core_fuel e io h)"
| "core_handle e io (FromPrimaries (VoteMessage v)) =
     cbind (cread (\<lambda>s. sanitize_vote e s v)) (\<lambda>_. process_vote core_fuel e io v)"
| "core_handle e io (FromPrimaries (CertificateMessage x)) =
     cbind (cread (\<lambda>s. sanitize_certificate e s x)) (\<lambda>_. process_certificate core_fuel e io x)"
| "core_handle e io (FromPrimaries (CertificatesRequest ds k)) = cread (\<lambda>s. Panic)"
| "core_handle e io (FromHeaderWaiter h) = process_header core_fuel e io h"
| "core_handle e io (FromCertificateWaiter x) = process_certificate core_fuel e io x"
| "core_handle e io (FromProposer h) = process_own_header core_fuel e io h"

definition core_cleanup :: "core_env \<Rightarrow> round \<Rightarrow> core_state \<Rightarrow> core_state" where
  "core_cleanup e consensus_round s =
     (if ce_gc_depth e < consensus_round
      then let gc = consensus_round - ce_gc_depth e
           in s\<lparr>last_voted := hm_retain (\<lambda>k _. gc \<le> k) (last_voted s),
                processing := hm_retain (\<lambda>k _. gc \<le> k) (processing s),
                certificates_agg := hm_retain (\<lambda>k _. gc \<le> k) (certificates_agg s),
                cancel_handlers := hm_retain (\<lambda>k _. gc \<le> k) (cancel_handlers s),
                gc_round := gc\<rparr>
      else s)"

text \<open>
  One iteration, with the value read from the consensus round: \<open>Some (Ok s)\<close> goes on,
  \<open>Some Panic\<close> ends the task.
\<close>

definition core_step ::
    "core_env \<Rightarrow> (bytes \<Rightarrow> bool) \<Rightarrow> round \<Rightarrow> core_event \<Rightarrow> core_state \<Rightarrow> (core_state, dag_error) outcome option" where
  "core_step e io consensus_round ev s = (case core_handle e io ev s of
     None \<Rightarrow> None
   | Some (s', r) \<Rightarrow> (case r of
       Ok _ \<Rightarrow> Some (Ok (core_cleanup e consensus_round s'))
     | Err StoreError \<Rightarrow> Some Panic
     | Err _ \<Rightarrow> Some (Ok (core_cleanup e consensus_round s'))
     | Panic \<Rightarrow> Some Panic))"

text \<open>
  A run of the task: iterations, and between them the writes of the payload receiver to the
  shared store. It has a state as long as the task is alive.
\<close>

datatype core_input = CoreEvent "bytes \<Rightarrow> bool" round core_event | PayloadStored digest worker_id

fun core_run :: "core_env \<Rightarrow> core_state \<Rightarrow> core_input list \<Rightarrow> core_state option" where
  "core_run e s [] = Some s"
| "core_run e s (CoreEvent io cr ev # evs) = (case core_step e io cr ev s of
     Some (Ok s') \<Rightarrow> core_run e s' evs | _ \<Rightarrow> None)"
| "core_run e s (PayloadStored d w # evs) =
     core_run e (s\<lparr>core_store := store_write (core_store s) (payload_key d w) []\<rparr>) evs"

end
