(* ===== verification/Pool.thy ===== *)
theory Pool
  imports Store Config
begin

text \<open>
  Waiting for keys of the store: the futures that the header waiter and the certificate waiter of
  the primary and the synchroniser of a worker keep in a \<open>FuturesUnordered\<close>, with the map of
  cancel channels beside it, as a contract that these tasks share.
\<close>

section \<open>Waiting for keys of the store\<close>

text \<open>
  A future of a \<open>FuturesUnordered\<close>: the keys it reads with \<open>notify_read\<close>, what it delivers, and
  the number of its cancel channel.
\<close>

record 'a waiter =
  wt_channel :: nat
  wt_missing :: "bytes list"
  wt_deliver :: 'a

definition waiter_ready :: "store \<Rightarrow> 'a waiter \<Rightarrow> bool" where
  "waiter_ready s w \<longleftrightarrow> (\<forall>k \<in> set (wt_missing w). db s k \<noteq> None)"

text \<open>
  The results the future may end with. When it is ready and cancelled at once, \<open>select!\<close> picks
  either branch.
\<close>

fun waiter_may :: "(bytes \<Rightarrow> bool) \<Rightarrow> store \<Rightarrow> bool \<Rightarrow> 'a waiter \<Rightarrow> ('a option, dag_error) outcome \<Rightarrow> bool" where
  "waiter_may io s cancelled w (Ok (Some _)) \<longleftrightarrow> waiter_ready s w"
| "waiter_may io s cancelled w (Ok None) \<longleftrightarrow> cancelled"
| "waiter_may io s cancelled w (Err e) \<longleftrightarrow> e = StoreError \<and> (\<exists>k \<in> set (wt_missing w). io k)"
| "waiter_may io s cancelled w Panic \<longleftrightarrow> False"

definition take_waiter :: "nat \<Rightarrow> 'a waiter list \<Rightarrow> 'a waiter list" where
  "take_waiter n ws = filter (\<lambda>w. wt_channel w \<noteq> n) ws"

text \<open>\<open>lucky_broadcast\<close>: the first \<open>nodes\<close> addresses of a shuffle.\<close>

definition lucky :: "socket_addr list \<Rightarrow> nat \<Rightarrow> socket_addr list" where
  "lucky shuffled nodes = take nodes shuffled"

lemma outcome_map_Ok: "outcome_map f x = Ok b \<longleftrightarrow> (\<exists>a. x = Ok a \<and> b = f a)"
  by (cases x) auto

lemma waiter_may_Ok: "waiter_may io s c w (Ok r) \<longleftrightarrow> (case r of None \<Rightarrow> c | Some _ \<Rightarrow> waiter_ready s w)"
  by (cases r) simp_all

section \<open>The contract\<close>

text \<open>
  A task with such a pool: \<open>channel_of\<close> is its map from keys to cancel channels, \<open>wait\<close> adds a
  waiter, \<open>finish\<close> takes one out, and \<open>deliver\<close> forgets the key of a waiter that is done.
\<close>

locale waiter_pool =
  fixes channel_of :: "'s \<Rightarrow> 'k \<Rightarrow> nat option"
    and waiting :: "'s \<Rightarrow> 'a waiter list"
    and channels :: "'s \<Rightarrow> nat"
    and key_of :: "'a \<Rightarrow> 'k"
    and wait :: "bytes list \<Rightarrow> 'a \<Rightarrow> 's \<Rightarrow> 's"
    and finish :: "nat \<Rightarrow> 's \<Rightarrow> 's"
    and deliver :: "'a \<Rightarrow> 's \<Rightarrow> 's"
  assumes wait_waiting: "waiting (wait ks x s) = waiting s @ [\<lparr> wt_channel = channels s, wt_missing = ks, wt_deliver = x \<rparr>]"
    and wait_channels: "channels (wait ks x s) = Suc (channels s)"
    and wait_channel_of: "channel_of (wait ks x s) = (channel_of s)(key_of x \<mapsto> channels s)"
    and finish_waiting: "waiting (finish n s) = take_waiter n (waiting s)"
    and finish_channels: "channels (finish n s) = channels s"
    and finish_channel_of: "channel_of (finish n s) = channel_of s"
    and deliver_waiting: "waiting (deliver x s) = waiting s"
    and deliver_channels: "channels (deliver x s) = channels s"
    and deliver_channel_of: "channel_of (deliver x s) = (channel_of s)(key_of x := None)"
begin

text \<open>Every key has its own waiter, which is not cancelled.\<close>

definition pool_ok :: "'s \<Rightarrow> bool" where
  "pool_ok s \<longleftrightarrow> distinct (map wt_channel (waiting s)) \<and> (\<forall>w \<in> set (waiting s). wt_channel w < channels s) \<and>
     (\<forall>k n. channel_of s k = Some n \<longrightarrow> (\<exists>w \<in> set (waiting s). wt_channel w = n \<and> key_of (wt_deliver w) = k))"

lemma pool_okI [intro?]:
  assumes "distinct (map wt_channel (waiting s))" "\<And>w. w \<in> set (waiting s) \<Longrightarrow> wt_channel w < channels s"
    and "\<And>k n. channel_of s k = Some n \<Longrightarrow> \<exists>w \<in> set (waiting s). wt_channel w = n \<and> key_of (wt_deliver w) = k"
  shows "pool_ok s"
  using assms by (simp add: pool_ok_def)

lemma pool_ok_empty: "waiting s = [] \<Longrightarrow> channel_of s = Map.empty \<Longrightarrow> pool_ok s"
  by (simp add: pool_ok_def)

lemma pool_ok_mono:
  "pool_ok s \<Longrightarrow> waiting s' = waiting s \<Longrightarrow> channels s' = channels s \<Longrightarrow> channel_of s' \<subseteq>\<^sub>m channel_of s \<Longrightarrow> pool_ok s'"
  by (force simp: pool_ok_def map_le_def dom_def)

lemma pool_ok_wait: "pool_ok s \<Longrightarrow> pool_ok (wait ks x s)"
  by (fastforce simp: pool_ok_def wait_waiting wait_channels wait_channel_of split: if_splits)

lemma one_waiter:
  "pool_ok s \<Longrightarrow> w \<in> set (waiting s) \<Longrightarrow> w' \<in> set (waiting s) \<Longrightarrow> wt_channel w = wt_channel w' \<Longrightarrow> w = w'"
  by (auto simp: pool_ok_def distinct_map inj_on_def)

lemma pool_waiter:
  "pool_ok s \<Longrightarrow> channel_of s k = Some n \<Longrightarrow> \<exists>w \<in> set (waiting s). wt_channel w = n \<and> key_of (wt_deliver w) = k"
  by (simp add: pool_ok_def)

lemma pool_ok_finish:
  assumes "pool_ok s" "\<And>k. channel_of s k \<noteq> Some n"
  shows "pool_ok (finish n s)"
  using assms
  by (fastforce simp: pool_ok_def finish_waiting finish_channels finish_channel_of take_waiter_def intro: distinct_map_filter)

lemma pool_ok_deliver:
  assumes "pool_ok s" "w \<in> set (waiting s)"
  shows "pool_ok (deliver (wt_deliver w) (finish (wt_channel w) s))"
proof
  show "distinct (map wt_channel (waiting (deliver (wt_deliver w) (finish (wt_channel w) s))))"
    using assms(1) by (simp add: deliver_waiting finish_waiting take_waiter_def pool_ok_def distinct_map_filter)
next
  fix v
  assume "v \<in> set (waiting (deliver (wt_deliver w) (finish (wt_channel w) s)))"
  then show "wt_channel v < channels (deliver (wt_deliver w) (finish (wt_channel w) s))"
    using assms(1) by (auto simp: deliver_waiting deliver_channels finish_waiting finish_channels take_waiter_def pool_ok_def)
next
  fix k n
  assume "channel_of (deliver (wt_deliver w) (finish (wt_channel w) s)) k = Some n"
  then have k: "k \<noteq> key_of (wt_deliver w)" "channel_of s k = Some n"
    by (auto simp: deliver_channel_of finish_channel_of split: if_splits)
  from pool_waiter [OF assms(1) k(2)] obtain v where v: "v \<in> set (waiting s)" "wt_channel v = n" "key_of (wt_deliver v) = k"
    by blast
  have "wt_channel v \<noteq> wt_channel w"
  proof
    assume "wt_channel v = wt_channel w"
    then have "w = v" using one_waiter [OF assms(1) assms(2) v(1)] by simp
    with v(3) k(1) show False by simp
  qed
  then show "\<exists>w' \<in> set (waiting (deliver (wt_deliver w) (finish (wt_channel w) s))).
      wt_channel w' = n \<and> key_of (wt_deliver w') = k"
    using v by (intro bexI [of _ v]) (simp_all add: deliver_waiting finish_waiting take_waiter_def)
qed

lemma find_waiter:
  assumes "pool_ok s" "channel_of s k = Some n"
  shows "\<exists>w. find (\<lambda>w. wt_channel w = n) (waiting s) = Some w \<and> w \<in> set (waiting s) \<and> wt_channel w = n \<and> key_of (wt_deliver w) = k"
proof -
  from pool_waiter [OF assms] obtain w where w: "w \<in> set (waiting s)" "wt_channel w = n" "key_of (wt_deliver w) = k"
    by blast
  then obtain v where v: "find (\<lambda>w. wt_channel w = n) (waiting s) = Some v"
    by (cases "find (\<lambda>w. wt_channel w = n) (waiting s)") (auto simp: find_None_iff)
  then have "v \<in> set (waiting s)" "wt_channel v = n" by (auto simp: find_Some_iff)
  with one_waiter [OF assms(1) this(1) w(1)] w(2) have "v = w" by simp
  with v w show ?thesis by simp
qed

end

end
