(* ===== verification/Waiters.thy ===== *)
theory Waiters
  imports Core Pool
begin

text \<open>
  The tasks around the core of the primary: the header waiter (header_waiter.rs), the certificate
  waiter (certificate_waiter.rs), the garbage collector (garbage_collector.rs), the helper
  (helper.rs), the payload receiver (payload_receiver.rs) and the two network handlers
  (primary.rs). A \<open>select!\<close> loop is a step on one event; what a task sends is logged in its state.
\<close>

section \<open>Messages\<close>

datatype primary_worker_message = Synchronize "digest list" public_key | Cleanup round

datatype worker_primary_message = OurBatch digest worker_id | OthersBatch digest worker_id

text \<open>A best-effort send over the network: the address and the message.\<close>

datatype waiter_output = ToWorkerOf socket_addr primary_worker_message
  | ToPrimaryOf socket_addr primary_message

section \<open>Header waiter\<close>

record header_waiter_env =
  he_name :: public_key
  he_committee :: committee
  he_gc_depth :: round
  he_sync_retry_delay :: nat
  he_sync_retry_nodes :: nat

text \<open>\<open>hw_pending\<close> holds the sender of each cancel channel; a channel without sender is closed.\<close>

record header_waiter =
  hw_parent_requests :: "(digest, round \<times> nat) hash_map"
  hw_batch_requests :: "(digest, round) hash_map"
  hw_pending :: "(digest, round \<times> nat) hash_map"
  hw_waiting :: "header waiter list"
  hw_channels :: nat
  hw_to_core :: "header list"
  hw_sent :: "waiter_output list"

definition hw_start :: header_waiter where
  "hw_start = \<lparr> hw_parent_requests = [], hw_batch_requests = [], hw_pending = [], hw_waiting = [],
     hw_channels = 0, hw_to_core = [], hw_sent = [] \<rparr>"

definition hw_cancelled :: "header_waiter \<Rightarrow> 'a waiter \<Rightarrow> bool" where
  "hw_cancelled s w \<longleftrightarrow> wt_channel w \<notin> (snd \<circ> snd) ` set (hw_pending s)"

text \<open>A new waiter for a header and its entry in \<open>pending\<close>.\<close>

definition hw_wait :: "bytes list \<Rightarrow> header \<Rightarrow> header_waiter \<Rightarrow> header_waiter" where
  "hw_wait keys h s = s\<lparr>hw_pending := AList.update (h_id h) (h_round h, hw_channels s) (hw_pending s),
     hw_waiting := hw_waiting s @ [\<lparr> wt_channel = hw_channels s, wt_missing = keys, wt_deliver = h \<rparr>],
     hw_channels := hw_channels s + 1\<rparr>"

text \<open>Which batches to request from which worker, skipping those requested before.\<close>

fun request_batches ::
    "round \<Rightarrow> (digest \<times> worker_id) list \<Rightarrow> (digest, round) hash_map \<Rightarrow> (worker_id, digest list) hash_map
      \<Rightarrow> (digest, round) hash_map \<times> (worker_id, digest list) hash_map" where
  "request_batches r [] requests sync = (requests, sync)"
| "request_batches r ((d, w) # ms) requests sync =
     (if map_of requests d \<noteq> None then request_batches r ms requests sync
      else request_batches r ms (AList.update d r requests) (hm_entry w [] (\<lambda>ds. ds @ [d]) sync))"

text \<open>One message per worker id, to the worker of the header's author. An unknown worker panics.\<close>

fun sync_messages ::
    "committee \<Rightarrow> public_key \<Rightarrow> (worker_id \<times> digest list) list \<Rightarrow> (waiter_output list, dag_error) outcome" where
  "sync_messages c author [] = Ok []"
| "sync_messages c author ((w, ds) # rest) = (case worker_of c author w of
     Ok a \<Rightarrow> outcome_map (Cons (ToWorkerOf (primary_to_worker a) (Synchronize ds author))) (sync_messages c author rest)
   | _ \<Rightarrow> Panic)"

definition hw_sync_batches ::
    "header_waiter_env \<Rightarrow> (digest, worker_id) hash_map \<Rightarrow> header \<Rightarrow> header_waiter \<Rightarrow> (header_waiter, dag_error) outcome" where
  "hw_sync_batches e missing h s =
     (let s = hw_wait (map (\<lambda>(d, w). payload_key d w) missing) h s;
          (requests, sync) = request_batches (h_round h) missing (hw_batch_requests s) []
      in outcome_map (\<lambda>ms. s\<lparr>hw_batch_requests := requests, hw_sent := hw_sent s @ ms\<rparr>)
           (sync_messages (he_committee e) (h_author h) sync))"

fun request_parents ::
    "round \<Rightarrow> nat \<Rightarrow> digest list \<Rightarrow> (digest, round \<times> nat) hash_map \<Rightarrow> digest list
      \<Rightarrow> (digest, round \<times> nat) hash_map \<times> digest list" where
  "request_parents r now [] requests sync = (requests, sync)"
| "request_parents r now (d # ds) requests sync =
     (if map_of requests d \<noteq> None then request_parents r now ds requests sync
      else request_parents r now ds (AList.update d (r, now) requests) (sync @ [d]))"

definition hw_sync_parents ::
    "header_waiter_env \<Rightarrow> nat \<Rightarrow> digest list \<Rightarrow> header \<Rightarrow> header_waiter \<Rightarrow> (header_waiter, dag_error) outcome" where
  "hw_sync_parents e now missing h s =
     (let s = hw_wait (map digest_to_vec missing) h s;
          (requests, sync) = request_parents (h_round h) now missing (hw_parent_requests s) [];
          s = s\<lparr>hw_parent_requests := requests\<rparr>
      in if sync = [] then Ok s
         else (case primary_of (he_committee e) (h_author h) of
           Ok a \<Rightarrow> Ok (s\<lparr>hw_sent := hw_sent s @
             [ToPrimaryOf (primary_to_primary a) (CertificatesRequest sync (he_name e))]\<rparr>)
         | _ \<Rightarrow> Panic))"

definition hw_cleanup :: "header_waiter_env \<Rightarrow> round \<Rightarrow> header_waiter \<Rightarrow> header_waiter" where
  "hw_cleanup e cr s =
     (if he_gc_depth e < cr
      then let gc_round = cr - he_gc_depth e
           in s\<lparr>hw_parent_requests := hm_retain (\<lambda>_ (r, _). gc_round < r) (hw_parent_requests s),
                hw_batch_requests := hm_retain (\<lambda>_ r. gc_round < r) (hw_batch_requests s),
                hw_pending := hm_retain (\<lambda>_ (r, _). gc_round < r) (hw_pending s)\<rparr>
      else s)"

text \<open>A command of the synchroniser. For a header already waiting, \<open>continue\<close> skips the clean-up.\<close>

definition hw_message ::
    "header_waiter_env \<Rightarrow> round \<Rightarrow> nat \<Rightarrow> waiter_message \<Rightarrow> header_waiter \<Rightarrow> (header_waiter, dag_error) outcome" where
  "hw_message e cr now m s = (case m of
     SyncBatches missing h \<Rightarrow>
       if map_of (hw_pending s) (h_id h) \<noteq> None then Ok s
       else outcome_map (hw_cleanup e cr) (hw_sync_batches e missing h s)
   | SyncParents missing h \<Rightarrow>
       if map_of (hw_pending s) (h_id h) \<noteq> None then Ok s
       else outcome_map (hw_cleanup e cr) (hw_sync_parents e now missing h s))"

text \<open>A header all of whose missing data has arrived.\<close>

definition hw_deliver :: "header \<Rightarrow> header_waiter \<Rightarrow> header_waiter" where
  "hw_deliver h s = s\<lparr>hw_parent_requests := hm_retain (\<lambda>d _. d \<notin> set (h_parents h)) (hw_parent_requests s),
     hw_batch_requests := hm_retain (\<lambda>d _. d \<notin> fst ` set (h_payload h)) (hw_batch_requests s),
     hw_pending := AList.delete (h_id h) (hw_pending s),
     hw_to_core := hw_to_core s @ [h]\<rparr>"

definition hw_retry :: "header_waiter_env \<Rightarrow> nat \<Rightarrow> header_waiter \<Rightarrow> digest list" where
  "hw_retry e now s =
     map fst (filter (\<lambda>(_, (_, timestamp)). timestamp + he_sync_retry_delay e < now) (hw_parent_requests s))"

definition hw_timer :: "header_waiter_env \<Rightarrow> nat \<Rightarrow> socket_addr list \<Rightarrow> header_waiter \<Rightarrow> header_waiter" where
  "hw_timer e now shuffled s = s\<lparr>hw_sent := hw_sent s @
     map (\<lambda>a. ToPrimaryOf a (CertificatesRequest (hw_retry e now s) (he_name e)))
       (lucky shuffled (he_sync_retry_nodes e))\<rparr>"

text \<open>The end of a future, the timer with the shuffled addresses, or a command with the time.\<close>

datatype header_waiter_event = HwMessage nat waiter_message
  | HwWaiter nat "(header option, dag_error) outcome" | HwTimer nat "socket_addr list"

text \<open>\<open>None\<close>: the event cannot happen here. \<open>Some Panic\<close>: the task dies.\<close>

fun hw_step ::
    "header_waiter_env \<Rightarrow> (bytes \<Rightarrow> bool) \<Rightarrow> store \<Rightarrow> round \<Rightarrow> header_waiter_event \<Rightarrow> header_waiter
      \<Rightarrow> (header_waiter, dag_error) outcome option" where
  "hw_step e io st cr (HwMessage now m) s = Some (hw_message e cr now m s)"
| "hw_step e io st cr (HwWaiter n result) s =
     (case find (\<lambda>w. wt_channel w = n) (hw_waiting s) of
        None \<Rightarrow> None
      | Some w \<Rightarrow>
          if waiter_may io st (hw_cancelled s w) w result
          then let s = s\<lparr>hw_waiting := take_waiter n (hw_waiting s)\<rparr>
               in Some (case result of
                    Ok (Some _) \<Rightarrow> Ok (hw_cleanup e cr (hw_deliver (wt_deliver w) s))
                  | Ok None \<Rightarrow> Ok (hw_cleanup e cr s)
                  | _ \<Rightarrow> Panic)
          else None)"
| "hw_step e io st cr (HwTimer now shuffled) s =
     (if mset shuffled = mset (map (\<lambda>(_, x). primary_to_primary x) (others_primaries (he_committee e) (he_name e)))
      then Some (Ok (hw_cleanup e cr (hw_timer e now shuffled s))) else None)"

text \<open>A run of the task, with the writes of the other tasks to the shared store in between.\<close>

datatype header_waiter_input = HwEvent "bytes \<Rightarrow> bool" round header_waiter_event | HwStored bytes bytes

fun hw_run ::
    "header_waiter_env \<Rightarrow> store \<times> header_waiter \<Rightarrow> header_waiter_input list \<Rightarrow> (store \<times> header_waiter) option" where
  "hw_run e (st, s) [] = Some (st, s)"
| "hw_run e (st, s) (HwEvent io cr ev # is) = (case hw_step e io st cr ev s of
     Some (Ok s') \<Rightarrow> hw_run e (st, s') is | _ \<Rightarrow> None)"
| "hw_run e (st, s) (HwStored k v # is) = hw_run e (store_write st k v, s) is"

section \<open>Certificate waiter\<close>

record certificate_waiter =
  cw_waiting :: "certificate waiter list"
  cw_channels :: nat
  cw_to_core :: "certificate list"

datatype certificate_waiter_event = CwMessage certificate
  | CwWaiter nat "(certificate option, dag_error) outcome"

text \<open>These waiters have no cancel channel: their number only names them.\<close>

fun cw_step ::
    "(bytes \<Rightarrow> bool) \<Rightarrow> store \<Rightarrow> certificate_waiter_event \<Rightarrow> certificate_waiter
      \<Rightarrow> (certificate_waiter, dag_error) outcome option" where
  "cw_step io st (CwMessage x) s = Some (Ok (s\<lparr>cw_waiting := cw_waiting s @
       [\<lparr> wt_channel = cw_channels s, wt_missing = map digest_to_vec (cert_parents x), wt_deliver = x \<rparr>],
     cw_channels := cw_channels s + 1\<rparr>))"
| "cw_step io st (CwWaiter n result) s =
     (case find (\<lambda>w. wt_channel w = n) (cw_waiting s) of
        None \<Rightarrow> None
      | Some w \<Rightarrow>
          if waiter_may io st False w result
          then Some (case result of
            Ok _ \<Rightarrow> Ok (s\<lparr>cw_waiting := take_waiter n (cw_waiting s), cw_to_core := cw_to_core s @ [wt_deliver w]\<rparr>)
          | _ \<Rightarrow> Panic)
          else None)"

section \<open>Garbage collector\<close>

text \<open>\<open>gc_consensus_round\<close> is the atomic the other tasks of the primary read.\<close>

record garbage_collector =
  last_committed_round_seen :: round
  gc_consensus_round :: round
  gc_sent :: "waiter_output list"

definition gc_addresses :: "committee \<Rightarrow> public_key \<Rightarrow> (socket_addr list, config_error) outcome" where
  "gc_addresses c name = outcome_map (map primary_to_worker) (our_workers c name)"

definition gc_step :: "socket_addr list \<Rightarrow> garbage_collector \<Rightarrow> certificate \<Rightarrow> garbage_collector" where
  "gc_step addresses s x =
     (let cr = cert_round x
      in if last_committed_round_seen s < cr
         then s\<lparr>last_committed_round_seen := cr, gc_consensus_round := cr,
                gc_sent := gc_sent s @ map (\<lambda>a. ToWorkerOf a (Cleanup cr)) addresses\<rparr>
         else s)"

section \<open>Payload receiver\<close>

text \<open>The digest of a batch of another authority is stored without a value.\<close>

definition payload_receiver_step :: "store \<Rightarrow> digest \<times> worker_id \<Rightarrow> store" where
  "payload_receiver_step st = (\<lambda>(digest, worker_id). store_write st (payload_key digest worker_id) [])"

section \<open>Helper\<close>

text \<open>The replies to one request; a value that is not a certificate panics.\<close>

fun certificate_replies ::
    "codec \<Rightarrow> (bytes \<Rightarrow> bool) \<Rightarrow> store \<Rightarrow> socket_addr \<Rightarrow> digest list \<Rightarrow> (waiter_output list, dag_error) outcome" where
  "certificate_replies cd io st address [] = Ok []"
| "certificate_replies cd io st address (d # ds) = (case store_read io st (digest_to_vec d) of
     Ok (Some data) \<Rightarrow> (case de_cert cd data of
         None \<Rightarrow> Panic
       | Some x \<Rightarrow> outcome_map (Cons (ToPrimaryOf address (CertificateMessage x)))
           (certificate_replies cd io st address ds))
   | _ \<Rightarrow> certificate_replies cd io st address ds)"

definition helper_reply ::
    "committee \<Rightarrow> codec \<Rightarrow> (bytes \<Rightarrow> bool) \<Rightarrow> store \<Rightarrow> digest list \<times> public_key \<Rightarrow> (waiter_output list, dag_error) outcome" where
  "helper_reply c cd io st = (\<lambda>(digests, origin). case primary_of c origin of
     Ok a \<Rightarrow> certificate_replies cd io st (primary_to_primary a) digests
   | _ \<Rightarrow> Ok [])"

section \<open>Network handlers\<close>

text \<open>
  \<open>de\<close> is bincode's \<open>deserialize\<close>. The first handler acknowledges every frame. An error ends the
  connection.
\<close>

datatype primary_route = ToCore primary_message | ToHelper "digest list" public_key

definition primary_dispatch ::
    "(bytes \<Rightarrow> primary_message option) \<Rightarrow> bytes \<Rightarrow> (primary_route, dag_error) outcome" where
  "primary_dispatch de serialized = (case de serialized of
     None \<Rightarrow> Err SerializationError
   | Some (CertificatesRequest missing requestor) \<Rightarrow> Ok (ToHelper missing requestor)
   | Some request \<Rightarrow> Ok (ToCore request))"

datatype worker_route = ToOurDigests digest worker_id | ToOthersDigests digest worker_id

definition workers_dispatch ::
    "(bytes \<Rightarrow> worker_primary_message option) \<Rightarrow> bytes \<Rightarrow> (worker_route, dag_error) outcome" where
  "workers_dispatch de serialized = (case de serialized of
     None \<Rightarrow> Err SerializationError
   | Some (OurBatch d w) \<Rightarrow> Ok (ToOurDigests d w)
   | Some (OthersBatch d w) \<Rightarrow> Ok (ToOthersDigests d w))"

end
