(* ===== verification/Network.thy ===== *)
theory Network
  imports Config "HOL-Library.Sublist"
begin

text \<open>
  The crate \<open>network\<close>: the reliable sender, which retransmits until a message is acknowledged or
  cancelled (reliable_sender.rs), the best-effort sender (simple_sender.rs), the receiver
  (receiver.rs) and the errors they log (error.rs). TCP is a sequence of events: whether a
  connection attempt or a write succeeds and which frames arrive. A oneshot channel is a number;
  the receiver of the acknowledgement may drop it, which cancels the message.
\<close>

section \<open>Errors\<close>

text \<open>Without the I/O error of the operating system that some of them wrap.\<close>

datatype network_error = FailedToConnect socket_addr "16 word" | FailedToListen
  | FailedToSendMessage socket_addr | FailedToReceiveMessage socket_addr
  | FailedToReceiveAck socket_addr | UnexpectedAck socket_addr

section \<open>A reliable connection\<close>

type_synonym inner_message = "bytes \<times> nat"

datatype phase = Connecting | Waiting | Up

text \<open>
  \<open>cn_pending\<close> is \<open>pending_replies\<close> of \<open>keep_alive\<close>; \<open>cn_acks\<close> what went to the cancel handlers,
  \<open>cn_written\<close> what went to the sockets, \<open>cn_errors\<close> what was logged.
\<close>

record connection =
  cn_address :: socket_addr
  cn_phase :: phase
  cn_channel :: "inner_message list"
  cn_buffer :: "inner_message list"
  cn_pending :: "inner_message list"
  cn_delay :: nat
  cn_retry :: "16 word"
  cn_acks :: "(nat \<times> bytes) list"
  cn_written :: "bytes list"
  cn_errors :: "network_error list"

definition retry_delay :: nat where
  "retry_delay = 200"

definition connection_spawn :: "socket_addr \<Rightarrow> connection" where
  "connection_spawn a = \<lparr> cn_address = a, cn_phase = Connecting, cn_channel = [], cn_buffer = [], cn_pending = [],
     cn_delay = retry_delay, cn_retry = 0, cn_acks = [], cn_written = [], cn_errors = [] \<rparr>"

text \<open>
  The loop that empties the buffer: \<open>ok i\<close> says whether the \<open>i\<close>-th write succeeds, \<open>closed\<close> which
  messages are cancelled. The result is \<open>pending_replies\<close>, the buffer, and whether all went well.
\<close>

fun transmit ::
    "(nat \<Rightarrow> bool) \<Rightarrow> (nat \<Rightarrow> bool) \<Rightarrow> nat \<Rightarrow> inner_message list \<Rightarrow> inner_message list
      \<Rightarrow> inner_message list \<times> inner_message list \<times> bool" where
  "transmit closed ok i [] pending = (pending, [], True)"
| "transmit closed ok i ((data, handler) # buffer) pending =
     (if closed handler then transmit closed ok i buffer pending
      else if ok i then transmit closed ok (i + 1) buffer (pending @ [(data, handler)])
      else (pending, (data, handler) # buffer, False))"

text \<open>The end of \<open>keep_alive\<close>: what has no acknowledgement goes back to the front of the buffer.\<close>

definition keep_alive_ends :: "network_error \<Rightarrow> connection \<Rightarrow> connection" where
  "keep_alive_ends err c = c\<lparr>cn_phase := Connecting, cn_buffer := cn_pending c @ cn_buffer c, cn_pending := [],
     cn_errors := cn_errors c @ [err]\<rparr>"

text \<open>The top of the loop of \<open>keep_alive\<close>.\<close>

definition keep_alive_sends :: "(nat \<Rightarrow> bool) \<Rightarrow> (nat \<Rightarrow> bool) \<Rightarrow> connection \<Rightarrow> connection" where
  "keep_alive_sends closed ok c = (case transmit closed ok 0 (cn_buffer c) (cn_pending c) of (pending, buffer, fine) \<Rightarrow>
     let c' = c\<lparr>cn_buffer := buffer, cn_pending := pending,
              cn_written := cn_written c @ map fst (drop (length (cn_pending c)) pending)\<rparr>
     in if fine then c' else keep_alive_ends (FailedToSendMessage (cn_address c)) c')"

datatype connection_event = ConnectSucceeds | ConnectFails | TimerExpires | MessageReceived
  | Response "bytes option"

text \<open>What happens to the connection, with the writes and cancellations at that moment.\<close>

record connection_input =
  ci_closed :: "nat \<Rightarrow> bool"
  ci_ok :: "nat \<Rightarrow> bool"
  ci_event :: connection_event

fun keep_alive_response :: "bytes option \<Rightarrow> connection \<Rightarrow> connection" where
  "keep_alive_response r c = (case cn_pending c of
     [] \<Rightarrow> keep_alive_ends (UnexpectedAck (cn_address c)) c
   | (data, handler) # pending \<Rightarrow> (case r of
        Some bs \<Rightarrow> c\<lparr>cn_pending := pending, cn_acks := cn_acks c @ [(handler, bs)]\<rparr>
      | None \<Rightarrow> keep_alive_ends (FailedToReceiveAck (cn_address c)) c))"

definition if_up :: "(connection \<Rightarrow> connection) \<Rightarrow> connection \<Rightarrow> connection" where
  "if_up f c = (if cn_phase c = Up then f c else c)"

text \<open>\<open>None\<close>: the event cannot happen in this phase.\<close>

definition connection_step :: "connection_input \<Rightarrow> connection \<Rightarrow> connection option" where
  "connection_step i c = (case (cn_phase c, ci_event i) of
     (Connecting, ConnectSucceeds) \<Rightarrow> Some (keep_alive_sends (ci_closed i) (ci_ok i)
        (c\<lparr>cn_phase := Up, cn_pending := [], cn_delay := retry_delay, cn_retry := 0\<rparr>))
   | (Connecting, ConnectFails) \<Rightarrow>
        Some (c\<lparr>cn_phase := Waiting, cn_errors := cn_errors c @ [FailedToConnect (cn_address c) (cn_retry c)]\<rparr>)
   | (Waiting, TimerExpires) \<Rightarrow>
        Some (c\<lparr>cn_phase := Connecting, cn_delay := min (2 * cn_delay c) 60000, cn_retry := cn_retry c + 1\<rparr>)
   | (Waiting, MessageReceived) \<Rightarrow> (case cn_channel c of
        [] \<Rightarrow> None
      | m # ms \<Rightarrow> Some (c\<lparr>cn_channel := ms,
          cn_buffer := filter (\<lambda>(_, handler). \<not> ci_closed i handler) (cn_buffer c @ [m])\<rparr>))
   | (Up, MessageReceived) \<Rightarrow> (case cn_channel c of
        [] \<Rightarrow> None
      | m # ms \<Rightarrow> Some (keep_alive_sends (ci_closed i) (ci_ok i) (c\<lparr>cn_channel := ms, cn_buffer := cn_buffer c @ [m]\<rparr>)))
   | (Up, Response r) \<Rightarrow> Some (if_up (keep_alive_sends (ci_closed i) (ci_ok i)) (keep_alive_response r c))
   | _ \<Rightarrow> None)"

text \<open>The run of one connection, with the messages its sender puts into the channel.\<close>

datatype link_input = Enqueue inner_message | Link connection_input

fun connection_run :: "connection \<Rightarrow> link_input list \<Rightarrow> connection option" where
  "connection_run c [] = Some c"
| "connection_run c (Enqueue m # is) = connection_run (c\<lparr>cn_channel := cn_channel c @ [m]\<rparr>) is"
| "connection_run c (Link i # is) = (case connection_step i c of Some c' \<Rightarrow> connection_run c' is | None \<Rightarrow> None)"

section \<open>Reliable sender\<close>

record reliable_sender =
  rs_connections :: "(socket_addr, connection) hash_map"
  rs_handlers :: nat

definition rs_new :: reliable_sender where
  "rs_new = \<lparr> rs_connections = [], rs_handlers = 0 \<rparr>"

definition rs_send :: "socket_addr \<Rightarrow> bytes \<Rightarrow> reliable_sender \<Rightarrow> reliable_sender \<times> nat" where
  "rs_send a data s =
     (let handler = rs_handlers s
      in (s\<lparr>rs_connections := hm_entry a (connection_spawn a)
              (\<lambda>c. c\<lparr>cn_channel := cn_channel c @ [(data, handler)]\<rparr>) (rs_connections s),
            rs_handlers := handler + 1\<rparr>, handler))"

fun rs_broadcast :: "socket_addr list \<Rightarrow> bytes \<Rightarrow> reliable_sender \<Rightarrow> reliable_sender \<times> nat list" where
  "rs_broadcast [] data s = (s, [])"
| "rs_broadcast (a # as) data s =
     (let (s, handler) = rs_send a data s; (s, handlers) = rs_broadcast as data s in (s, handler # handlers))"

definition rs_lucky_broadcast :: "socket_addr list \<Rightarrow> bytes \<Rightarrow> nat \<Rightarrow> reliable_sender \<Rightarrow> reliable_sender \<times> nat list" where
  "rs_lucky_broadcast shuffled data nodes s = rs_broadcast (take nodes shuffled) data s"

section \<open>Simple sender\<close>

datatype simple_phase = SimpleConnecting | SimpleUp | Dead

record simple_connection =
  sc_phase :: simple_phase
  sc_channel :: "bytes list"
  sc_written :: "bytes list"

definition simple_spawn :: simple_connection where
  "simple_spawn = \<lparr> sc_phase = SimpleConnecting, sc_channel = [], sc_written = [] \<rparr>"

datatype simple_event = SimpleConnect bool | SimpleMessage bool | SimpleResponse "bytes option"

definition simple_step :: "simple_event \<Rightarrow> simple_connection \<Rightarrow> simple_connection option" where
  "simple_step ev c = (case (sc_phase c, ev) of
     (SimpleConnecting, SimpleConnect ok) \<Rightarrow> Some (c\<lparr>sc_phase := if ok then SimpleUp else Dead\<rparr>)
   | (SimpleUp, SimpleMessage ok) \<Rightarrow> (case sc_channel c of
        [] \<Rightarrow> None
      | data # ms \<Rightarrow> Some (if ok then c\<lparr>sc_channel := ms, sc_written := sc_written c @ [data]\<rparr>
                     else c\<lparr>sc_phase := Dead, sc_channel := ms\<rparr>))
   | (SimpleUp, SimpleResponse (Some _)) \<Rightarrow> Some c
   | (SimpleUp, SimpleResponse None) \<Rightarrow> Some (c\<lparr>sc_phase := Dead\<rparr>)
   | _ \<Rightarrow> None)"

text \<open>Sending to a dead connection fails and opens a new one in its place.\<close>

definition ss_send ::
    "socket_addr \<Rightarrow> bytes \<Rightarrow> (socket_addr, simple_connection) hash_map \<Rightarrow> (socket_addr, simple_connection) hash_map" where
  "ss_send a data cs =
     (let fresh = simple_spawn\<lparr>sc_channel := [data]\<rparr>
      in case map_of cs a of
           Some c \<Rightarrow> if sc_phase c \<noteq> Dead then AList.update a (c\<lparr>sc_channel := sc_channel c @ [data]\<rparr>) cs
                     else AList.update a fresh cs
         | None \<Rightarrow> AList.update a fresh cs)"

fun ss_broadcast ::
    "socket_addr list \<Rightarrow> bytes \<Rightarrow> (socket_addr, simple_connection) hash_map \<Rightarrow> (socket_addr, simple_connection) hash_map" where
  "ss_broadcast [] data cs = cs"
| "ss_broadcast (a # as) data cs = ss_broadcast as data (ss_send a data cs)"

definition ss_lucky_broadcast ::
    "socket_addr list \<Rightarrow> bytes \<Rightarrow> nat \<Rightarrow> (socket_addr, simple_connection) hash_map \<Rightarrow> (socket_addr, simple_connection) hash_map" where
  "ss_lucky_broadcast shuffled data nodes cs = ss_broadcast (take nodes shuffled) data cs"

section \<open>Receiver\<close>

text \<open>
  One connection: every frame goes to the handler until a frame is broken or the handler fails. The
  result is the state of the handler and why the connection ended, if it was not closed by the peer.
\<close>

datatype 'e receiver_end = ClosedByPeer | BrokenFrame network_error | HandlerFailed 'e

fun receive_frames ::
    "(bytes \<Rightarrow> 's \<Rightarrow> 's \<times> (unit, 'e) outcome) \<Rightarrow> socket_addr \<Rightarrow> bytes option list \<Rightarrow> 's \<Rightarrow> 's \<times> 'e receiver_end option" where
  "receive_frames dispatch peer [] s = (s, Some ClosedByPeer)"
| "receive_frames dispatch peer (None # frames) s = (s, Some (BrokenFrame (FailedToReceiveMessage peer)))"
| "receive_frames dispatch peer (Some message # frames) s = (case dispatch message s of
     (s', Ok _) \<Rightarrow> receive_frames dispatch peer frames s'
   | (s', Err e) \<Rightarrow> (s', Some (HandlerFailed e))
   | (s', Panic) \<Rightarrow> (s', None))"

section \<open>Nothing is lost, and the order is kept\<close>

text \<open>What still has to be acknowledged, in the order in which it will be.\<close>

definition in_flight :: "connection \<Rightarrow> nat list" where
  "in_flight c = map snd (cn_pending c @ cn_buffer c @ cn_channel c)"

text \<open>\<open>T\<close> holds the messages given to the connection so far, \<open>X\<close> those that were cancelled.\<close>

definition delivery_inv :: "nat list \<Rightarrow> nat set \<Rightarrow> connection \<Rightarrow> bool" where
  "delivery_inv T X c \<longleftrightarrow> subseq (map fst (cn_acks c) @ in_flight c) T \<and>
     (\<forall>h \<in> set T. h \<in> fst ` set (cn_acks c) \<or> h \<in> set (in_flight c) \<or> h \<in> X) \<and>
     (cn_phase c \<noteq> Up \<longrightarrow> cn_pending c = [])"

lemma transmit_keeps:
  "transmit closed ok i buffer pending = (pending', buffer', fine) \<Longrightarrow>
     subseq (map snd (pending' @ buffer')) (map snd (pending @ buffer)) \<and>
     (\<forall>m \<in> set pending \<union> set buffer. closed (snd m) \<or> m \<in> set pending' \<union> set buffer')"
proof (induction closed ok i buffer pending rule: transmit.induct)
  case (2 closed ok i data handler buffer pending)
  have skip: "subseq (map snd (pending @ buffer)) (map snd (pending @ (data, handler) # buffer))"
    by (auto intro!: list_emb_append_mono list_emb_Cons)
  consider (closed) "closed handler" | (sent) "\<not> closed handler" "ok i" | (failed) "\<not> closed handler" "\<not> ok i" by blast
  then show ?case
  proof cases
    case closed
    with 2 skip show ?thesis by (auto intro: subseq_order.trans)
  qed (use 2 in auto)
qed auto

lemma delivery_inv_mono: "delivery_inv T X c \<Longrightarrow> X \<subseteq> X' \<Longrightarrow> delivery_inv T X' c"
  by (auto simp: delivery_inv_def)

lemma delivery_inv_ends: "delivery_inv T X c \<Longrightarrow> delivery_inv T X (keep_alive_ends err c)"
  by (simp add: delivery_inv_def keep_alive_ends_def in_flight_def)

lemma delivery_inv_same:
  "delivery_inv T X c \<Longrightarrow> cn_acks c' = cn_acks c \<Longrightarrow> in_flight c' = in_flight c \<Longrightarrow>
     cn_phase c' \<noteq> Up \<longrightarrow> cn_pending c' = [] \<Longrightarrow> delivery_inv T X c'"
  by (simp add: delivery_inv_def)

text \<open>Cancelled messages may leave; the others stay in their order.\<close>

lemma delivery_inv_shrink:
  assumes "delivery_inv T X c" "cn_acks c' = cn_acks c" "subseq (in_flight c') (in_flight c)"
    and "\<forall>h \<in> set (in_flight c). h \<in> set (in_flight c') \<or> closed h" "cn_phase c' \<noteq> Up \<longrightarrow> cn_pending c' = []"
  shows "delivery_inv T (X \<union> {h. closed h}) c'"
proof -
  have "subseq (map fst (cn_acks c') @ in_flight c') (map fst (cn_acks c) @ in_flight c)"
    using assms(2,3) by (simp add: list_emb_append_mono)
  with assms show ?thesis by (auto simp: delivery_inv_def intro: subseq_order.trans)
qed

lemma delivery_inv_sends:
  assumes "delivery_inv T X c" "cn_phase c = Up"
  shows "delivery_inv T (X \<union> {h. closed h}) (keep_alive_sends closed ok c)"
proof -
  obtain p b fine where t: "transmit closed ok 0 (cn_buffer c) (cn_pending c) = (p, b, fine)"
    by (metis prod_cases3)
  let ?c = "c\<lparr>cn_buffer := b, cn_pending := p, cn_written := cn_written c @ map fst (drop (length (cn_pending c)) p)\<rparr>"
  note keeps = transmit_keeps [OF t]
  from list_emb_append_mono [OF conjunct1 [OF keeps] subseq_order.refl, of "map snd (cn_channel c)"]
  have "subseq (in_flight ?c) (in_flight c)" by (simp add: in_flight_def)
  moreover have "\<forall>h \<in> set (in_flight c). h \<in> set (in_flight ?c) \<or> closed h"
    using keeps by (force simp: in_flight_def)
  ultimately have "delivery_inv T (X \<union> {h. closed h}) ?c"
    using assms by (intro delivery_inv_shrink [OF assms(1)]) simp_all
  with t delivery_inv_ends show ?thesis by (simp add: keep_alive_sends_def Let_def)
qed

lemma delivery_inv_response:
  assumes "delivery_inv T X c" "cn_phase c = Up"
  shows "delivery_inv T X (keep_alive_response r c)"
  using assms delivery_inv_ends [OF assms(1)]
  by (auto simp: delivery_inv_def in_flight_def split: list.splits option.splits)

lemma delivery_inv_enqueue:
  assumes "delivery_inv T X c"
  shows "delivery_inv (T @ [snd m]) X (c\<lparr>cn_channel := cn_channel c @ [m]\<rparr>)"
  using assms list_emb_append_mono [of "(=)" "map fst (cn_acks c) @ in_flight c" T "[snd m]" "[snd m]"]
  by (auto simp: delivery_inv_def in_flight_def)

lemma delivery_inv_step:
  assumes "connection_step i c = Some c'" "delivery_inv T X c"
  shows "delivery_inv T (X \<union> {h. ci_closed i h}) c'"
proof -
  consider (up) "cn_phase c = Connecting" "ci_event i = ConnectSucceeds"
    | (down) "cn_phase c = Connecting" "ci_event i = ConnectFails"
    | (timer) "cn_phase c = Waiting" "ci_event i = TimerExpires"
    | (queue) m ms where "cn_phase c = Waiting" "ci_event i = MessageReceived" "cn_channel c = m # ms"
    | (send) m ms where "cn_phase c = Up" "ci_event i = MessageReceived" "cn_channel c = m # ms"
    | (reply) r where "cn_phase c = Up" "ci_event i = Response r"
    using assms(1) by (cases "cn_phase c"; cases "ci_event i"; cases "cn_channel c") (auto simp: connection_step_def)
  then show ?thesis
  proof cases
    case up
    let ?c = "c\<lparr>cn_phase := Up, cn_pending := [], cn_delay := retry_delay, cn_retry := 0\<rparr>"
    have "cn_pending c = []" using assms(2) up by (simp add: delivery_inv_def)
    then have "delivery_inv T X ?c" by (intro delivery_inv_same [OF assms(2)]) (simp_all add: in_flight_def)
    from delivery_inv_sends [OF this, of "ci_closed i" "ci_ok i"] up assms(1) show ?thesis by (simp add: connection_step_def)
  next
    case down
    with assms show ?thesis by (auto simp: connection_step_def delivery_inv_def in_flight_def)
  next
    case timer
    with assms show ?thesis by (auto simp: connection_step_def delivery_inv_def in_flight_def)
  next
    case queue
    then have c': "c' = c\<lparr>cn_channel := ms, cn_buffer := filter (\<lambda>(_, h). \<not> ci_closed i h) (cn_buffer c @ [m])\<rparr>"
      and none: "cn_pending c = []"
      using assms by (auto simp: connection_step_def delivery_inv_def)
    have "subseq (map snd (filter (\<lambda>(_, h). \<not> ci_closed i h) (cn_buffer c @ [m]))) (map snd (cn_buffer c @ [m]))"
      by (intro subseq_map subseq_filter_left)
    from list_emb_append_mono [OF this, of "map snd ms" "map snd ms"]
    have "subseq (in_flight c') (in_flight c)" using queue none by (simp add: in_flight_def c')
    moreover have "\<forall>h \<in> set (in_flight c). h \<in> set (in_flight c') \<or> ci_closed i h"
      using queue none by (force simp: in_flight_def c')
    ultimately show ?thesis
      by (rule delivery_inv_shrink [OF assms(2), rotated]) (simp_all add: c' none)
  next
    case send
    let ?c = "c\<lparr>cn_channel := ms, cn_buffer := cn_buffer c @ [m]\<rparr>"
    have "delivery_inv T X ?c" using assms(2) send by (simp add: delivery_inv_def in_flight_def)
    from delivery_inv_sends [OF this, of "ci_closed i" "ci_ok i"] send assms(1) show ?thesis by (simp add: connection_step_def)
  next
    case reply
    from delivery_inv_response [OF assms(2) reply(1)] have "delivery_inv T X (keep_alive_response r c)" .
    with delivery_inv_sends [OF this, of "ci_closed i" "ci_ok i"] delivery_inv_mono [OF this, of "X \<union> {h. ci_closed i h}"] reply assms(1) show ?thesis
      by (auto simp: connection_step_def if_up_def split: if_splits)
  qed
qed

text \<open>The messages given to the connection, and those that were cancelled at some step.\<close>

definition enqueued :: "link_input list \<Rightarrow> nat list" where
  "enqueued is = List.map_filter (\<lambda>i. case i of Enqueue m \<Rightarrow> Some (snd m) | _ \<Rightarrow> None) is"

definition cancelled :: "link_input list \<Rightarrow> nat set" where
  "cancelled is = {h. \<exists>i. Link i \<in> set is \<and> ci_closed i h}"

lemma enqueued_simps [simp]: "enqueued [] = []" "enqueued (Enqueue m # is) = snd m # enqueued is"
  "enqueued (Link i # is) = enqueued is"
  by (simp_all add: enqueued_def List.map_filter_simps)

lemma cancelled_simps [simp]: "cancelled [] = {}" "cancelled (Enqueue m # is) = cancelled is"
  "cancelled (Link i # is) = {h. ci_closed i h} \<union> cancelled is"
  by (auto simp: cancelled_def)

lemma connection_run_inv:
  "connection_run c is = Some c' \<Longrightarrow> delivery_inv T X c \<Longrightarrow> delivery_inv (T @ enqueued is) (X \<union> cancelled is) c'"
proof (induction c "is" arbitrary: T X rule: connection_run.induct)
  case (2 c m inputs)
  from "2.IH" [OF _ delivery_inv_enqueue [OF "2.prems"(2)]] "2.prems"(1) show ?case by simp
next
  case (3 c i inputs)
  then obtain c1 where c1: "connection_step i c = Some c1" "connection_run c1 inputs = Some c'"
    by (auto split: option.splits)
  from "3.IH" [OF c1 delivery_inv_step [OF c1(1) "3.prems"(2)]] show ?case by (simp add: Un_assoc)
qed simp

text \<open>
  C40: over any sequence of connections, failures and acknowledgements, a connection acknowledges
  messages in the order in which it was given them, each at most once, and loses none: a message is acknowledged,
  or it waits to be, or its sender cancelled it.
\<close>

theorem reliable_delivery:
  assumes "connection_run (connection_spawn a) is = Some c"
  shows "subseq (map fst (cn_acks c) @ in_flight c) (enqueued is) \<and>
    set (enqueued is) \<subseteq> fst ` set (cn_acks c) \<union> set (in_flight c) \<union> cancelled is"
proof -
  have "delivery_inv [] {} (connection_spawn a)" by (simp add: delivery_inv_def connection_spawn_def in_flight_def)
  from connection_run_inv [OF assms this] show ?thesis by (auto simp: delivery_inv_def)
qed

text \<open>Two messages, of which the first is resent after a broken connection.\<close>

definition resend :: "link_input list" where
  "resend = (let link = (\<lambda>ev. Link \<lparr> ci_closed = (\<lambda>_. False), ci_ok = (\<lambda>_. True), ci_event = ev \<rparr>)
     in [Enqueue ([1], 1), Enqueue ([2], 2), link ConnectFails, link MessageReceived, link TimerExpires, link ConnectSucceeds,
         link (Response None), link ConnectSucceeds, link MessageReceived, link (Response (Some [7]))])"

theorem reliable_delivery_witness:
  "\<exists>c. connection_run (connection_spawn (SocketAddr [] 0)) resend = Some c \<and> map fst (cn_acks c) = [1] \<and> in_flight c = [2] \<and>
     cn_written c = [[1], [1], [2]] \<and> subseq (map fst (cn_acks c) @ in_flight c) (enqueued resend)"
proof -
  obtain c where "connection_run (connection_spawn (SocketAddr [] 0)) resend = Some c" "map fst (cn_acks c) = [1]"
    "in_flight c = [2]" "cn_written c = [[1], [1], [2]]"
    by (simp add: resend_def Let_def connection_step_def connection_spawn_def keep_alive_sends_def keep_alive_ends_def
        if_up_def in_flight_def)
  with conjunct1 [OF reliable_delivery [OF this(1)]] show ?thesis by (intro exI [of _ c]) simp
qed

section \<open>Reconnection delay\<close>

text \<open>The delay after \<open>k\<close> failures in a row; the counter is a \<open>u16\<close>.\<close>

definition backoff_inv :: "connection \<Rightarrow> bool" where
  "backoff_inv c \<longleftrightarrow> (\<exists>k. cn_delay c = min (retry_delay * 2 ^ k) 60000 \<and> cn_retry c = word_of_nat k)"

lemma keep_alive_delay [simp]:
  "cn_delay (keep_alive_ends err c) = cn_delay c" "cn_retry (keep_alive_ends err c) = cn_retry c"
  "cn_delay (keep_alive_sends closed ok c) = cn_delay c" "cn_retry (keep_alive_sends closed ok c) = cn_retry c"
  "cn_delay (keep_alive_response r c) = cn_delay c" "cn_retry (keep_alive_response r c) = cn_retry c"
  by (simp_all add: keep_alive_ends_def keep_alive_sends_def Let_def split: prod.splits list.splits option.splits)

lemma backoff_inv_step: "connection_step i c = Some c' \<Longrightarrow> backoff_inv c \<Longrightarrow> backoff_inv c'"
proof -
  assume step: "connection_step i c = Some c'" and inv: "backoff_inv c"
  show "backoff_inv c'"
  proof (cases "cn_phase c = Waiting \<and> ci_event i = TimerExpires")
    case True
    from inv obtain k where k: "cn_delay c = min (retry_delay * 2 ^ k) 60000" "cn_retry c = word_of_nat k"
      by (auto simp: backoff_inv_def)
    have "cn_delay c' = min (retry_delay * 2 ^ Suc k) 60000 \<and> cn_retry c' = word_of_nat (Suc k)"
      using step True k by (auto simp: connection_step_def min_def)
    then show ?thesis unfolding backoff_inv_def by blast
  next
    case False
    have "cn_delay c' = cn_delay c \<and> cn_retry c' = cn_retry c \<or> cn_delay c' = retry_delay \<and> cn_retry c' = 0"
      using step False
      by (cases "cn_phase c"; cases "ci_event i"; cases "cn_channel c")
        (auto simp: connection_step_def if_up_def simp del: keep_alive_response.simps)
    with inv show ?thesis by (auto simp: backoff_inv_def retry_delay_def intro: exI [of _ 0])
  qed
qed

lemma connection_run_backoff: "connection_run c is = Some c' \<Longrightarrow> backoff_inv c \<Longrightarrow> backoff_inv c'"
  by (induction c "is" rule: connection_run.induct)
    (auto simp: backoff_inv_def split: option.splits dest: backoff_inv_step [unfolded backoff_inv_def])

lemma reconnect_backoff:
  assumes "connection_run (connection_spawn a) is = Some c"
  shows "200 \<le> cn_delay c \<and> cn_delay c \<le> 60000"
proof -
  have "backoff_inv (connection_spawn a)"
    by (auto simp: backoff_inv_def connection_spawn_def retry_delay_def intro: exI [of _ 0])
  from connection_run_backoff [OF assms this] show ?thesis by (auto simp: backoff_inv_def retry_delay_def)
qed

end
