(* ===== verification/Worker.thy ===== *)
theory Worker
  imports Waiters Network
begin

text \<open>
  The worker (crate \<open>worker\<close>): clients' transactions become batches (batch_maker.rs), a batch waits
  for a quorum of acknowledgements (quorum_waiter.rs), is hashed and stored (processor.rs), and its
  digest goes to the primary (primary_connector.rs). Batches of other workers take the last two
  steps. The synchroniser (synchronizer.rs) fetches missing batches and the helper (helper.rs)
  serves them; worker.rs wires the tasks together.
\<close>

section \<open>Messages\<close>

type_synonym transaction = bytes
type_synonym batch = "transaction list"

datatype worker_message = Batch batch | BatchRequest "digest list" public_key

text \<open>The byte codec of the worker's messages (bincode) is a parameter.\<close>

record worker_codec =
  ser_worker :: "worker_message \<Rightarrow> bytes"
  de_worker :: "bytes \<Rightarrow> worker_message option"
  ser_digest :: "worker_primary_message \<Rightarrow> bytes"
  de_primary :: "bytes \<Rightarrow> primary_worker_message option"

text \<open>\<open>we_benchmark\<close> is the cargo feature \<open>benchmark\<close>.\<close>

record worker_env =
  we_name :: public_key
  we_id :: worker_id
  we_committee :: committee
  we_crypto :: crypto
  we_codec :: worker_codec
  we_parameters :: parameters
  we_benchmark :: bool

section \<open>Batch maker\<close>

record quorum_waiter_message =
  qm_batch :: bytes
  qm_handlers :: "(public_key \<times> nat) list"

record batch_maker =
  bm_batch :: batch
  bm_size :: nat
  bm_deadline :: nat
  bm_network :: reliable_sender
  bm_sealed :: "batch list"

definition bm_start :: "worker_env \<Rightarrow> nat \<Rightarrow> batch_maker" where
  "bm_start e now = \<lparr> bm_batch = [], bm_size = 0, bm_deadline = now + max_batch_delay (we_parameters e),
     bm_network = rs_new, bm_sealed = [] \<rparr>"

text \<open>The identifiers of sample transactions; \<open>tx[0]\<close> panics on an empty one.\<close>

fun sample_tx_ids :: "batch \<Rightarrow> (bytes list, dag_error) outcome" where
  "sample_tx_ids [] = Ok []"
| "sample_tx_ids ([] # txs) = Panic"
| "sample_tx_ids ((b # bs) # txs) =
     outcome_map (\<lambda>ids. if b = 0 \<and> 8 < length (b # bs) then take 8 bs # ids else ids) (sample_tx_ids txs)"

definition worker_peers :: "worker_env \<Rightarrow> (public_key \<times> socket_addr) list" where
  "worker_peers e = map (\<lambda>(name, a). (name, worker_to_worker a))
     (others_workers (we_committee e) (we_name e) (we_id e))"

definition seal :: "worker_env \<Rightarrow> batch_maker \<Rightarrow> (batch_maker \<times> quorum_waiter_message, dag_error) outcome" where
  "seal e s = and_then (if we_benchmark e then sample_tx_ids (bm_batch s) else Ok []) (\<lambda>_.
     let serialized = ser_worker (we_codec e) (Batch (bm_batch s));
         (net, handlers) = rs_broadcast (map snd (worker_peers e)) serialized (bm_network s)
     in Ok (s\<lparr>bm_batch := [], bm_size := 0, bm_network := net, bm_sealed := bm_sealed s @ [bm_batch s]\<rparr>,
            \<lparr> qm_batch = serialized, qm_handlers = zip (map fst (worker_peers e)) handlers \<rparr>))"

definition bm_reset :: "worker_env \<Rightarrow> nat \<Rightarrow> batch_maker \<Rightarrow> batch_maker" where
  "bm_reset e now s = s\<lparr>bm_deadline := now + max_batch_delay (we_parameters e)\<rparr>"

text \<open>The two branches of its loop, with the messages for the quorum waiter.\<close>

definition bm_transaction ::
    "worker_env \<Rightarrow> nat \<Rightarrow> transaction \<Rightarrow> batch_maker \<Rightarrow> (batch_maker \<times> quorum_waiter_message list, dag_error) outcome" where
  "bm_transaction e now tx s =
     (let s = s\<lparr>bm_batch := bm_batch s @ [tx], bm_size := bm_size s + length tx\<rparr>
      in if batch_size (we_parameters e) \<le> bm_size s
         then outcome_map (\<lambda>(s, m). (bm_reset e now s, [m])) (seal e s) else Ok (s, []))"

definition bm_timer ::
    "worker_env \<Rightarrow> nat \<Rightarrow> batch_maker \<Rightarrow> (batch_maker \<times> quorum_waiter_message list, dag_error) outcome" where
  "bm_timer e now s =
     (if bm_batch s \<noteq> [] then outcome_map (\<lambda>(s, m). (bm_reset e now s, [m])) (seal e s)
      else Ok (bm_reset e now s, []))"

section \<open>Quorum waiter\<close>

text \<open>
  \<open>qw_current\<close> is the batch in the loop, the handlers still awaited and the stake so far;
  \<open>qw_dropped\<close> the handlers given up, whose messages are thereby cancelled.
\<close>

record quorum_waiter =
  qw_queue :: "quorum_waiter_message list"
  qw_current :: "(bytes \<times> (public_key \<times> nat) list \<times> stake) option"
  qw_dropped :: "nat set"

definition qw_start :: quorum_waiter where
  "qw_start = \<lparr> qw_queue = [], qw_current = None, qw_dropped = {} \<rparr>"

text \<open>The outer loop takes a message; with no handler to wait for, the inner loop ends at once.\<close>

definition qw_next :: "worker_env \<Rightarrow> quorum_waiter \<Rightarrow> quorum_waiter option" where
  "qw_next e s = (case (qw_current s, qw_queue s) of
     (None, m # ms) \<Rightarrow> Some (s\<lparr>qw_queue := ms, qw_current :=
        if qm_handlers m = [] then None
        else Some (qm_batch m, qm_handlers m, stake_of (we_committee e) (we_name e))\<rparr>)
   | _ \<Rightarrow> None)"

text \<open>A handler completes; the batch is passed on when the stake reaches the quorum.\<close>

definition qw_ack :: "worker_env \<Rightarrow> nat \<Rightarrow> quorum_waiter \<Rightarrow> (quorum_waiter \<times> bytes list) option" where
  "qw_ack e handler s = (case qw_current s of
     None \<Rightarrow> None
   | Some (batch, handlers, got) \<Rightarrow> (case find (\<lambda>(_, h). h = handler) handlers of
        None \<Rightarrow> None
      | Some (name, _) \<Rightarrow>
          let got = got + stake_of (we_committee e) name;
              rest = filter (\<lambda>(_, h). h \<noteq> handler) handlers
          in if quorum_threshold (we_committee e) \<le> got
             then Some (s\<lparr>qw_current := None, qw_dropped := qw_dropped s \<union> snd ` set rest\<rparr>, [batch])
             else Some (s\<lparr>qw_current := if rest = [] then None else Some (batch, rest, got)\<rparr>, [])))"

section \<open>Processor\<close>

definition batch_digest :: "worker_env \<Rightarrow> bytes \<Rightarrow> digest" where
  "batch_digest e batch = hash_bytes (we_crypto e) batch"

definition processor_step :: "worker_env \<Rightarrow> bool \<Rightarrow> store \<Rightarrow> bytes \<Rightarrow> store \<times> worker_primary_message" where
  "processor_step e own_digest st batch =
     (let d = batch_digest e batch
      in (store_write st (digest_to_vec d) batch, if own_digest then OurBatch d (we_id e) else OthersBatch d (we_id e)))"

section \<open>Helper\<close>

fun batch_replies :: "(bytes \<Rightarrow> bool) \<Rightarrow> store \<Rightarrow> socket_addr \<Rightarrow> digest list \<Rightarrow> (socket_addr \<times> bytes) list" where
  "batch_replies io st address [] = []"
| "batch_replies io st address (d # ds) = (case store_read io st (digest_to_vec d) of
     Ok (Some data) \<Rightarrow> (address, data) # batch_replies io st address ds
   | _ \<Rightarrow> batch_replies io st address ds)"

definition worker_helper :: "worker_env \<Rightarrow> (bytes \<Rightarrow> bool) \<Rightarrow> store \<Rightarrow> digest list \<times> public_key \<Rightarrow> (socket_addr \<times> bytes) list" where
  "worker_helper e io st = (\<lambda>(digests, origin). case worker_of (we_committee e) origin (we_id e) of
     Ok a \<Rightarrow> batch_replies io st (worker_to_worker a) digests
   | _ \<Rightarrow> [])"

section \<open>Synchroniser\<close>

text \<open>A pending request: the round it was made in, its cancel channel, and when.\<close>

record worker_synchronizer =
  ws_round :: round
  ws_pending :: "(digest, round \<times> nat \<times> nat) hash_map"
  ws_waiting :: "digest waiter list"
  ws_channels :: nat
  ws_sent :: "(socket_addr \<times> worker_message) list"

definition ws_start :: worker_synchronizer where
  "ws_start = \<lparr> ws_round = 0, ws_pending = [], ws_waiting = [], ws_channels = 0, ws_sent = [] \<rparr>"

definition ws_wait :: "nat \<Rightarrow> bytes list \<Rightarrow> digest \<Rightarrow> worker_synchronizer \<Rightarrow> worker_synchronizer" where
  "ws_wait now keys d s = s\<lparr>ws_pending := AList.update d (ws_round s, ws_channels s, now) (ws_pending s),
     ws_waiting := ws_waiting s @ [\<lparr> wt_channel = ws_channels s, wt_missing = keys, wt_deliver = d \<rparr>],
     ws_channels := ws_channels s + 1\<rparr>"

text \<open>The loop over the digests of a request.\<close>

fun sync_missing ::
    "(bytes \<Rightarrow> bool) \<Rightarrow> store \<Rightarrow> nat \<Rightarrow> digest list \<Rightarrow> worker_synchronizer \<Rightarrow> digest list \<Rightarrow> worker_synchronizer \<times> digest list" where
  "sync_missing io st now [] s missing = (s, missing)"
| "sync_missing io st now (d # ds) s missing =
     (if map_of (ws_pending s) d \<noteq> None then sync_missing io st now ds s missing
      else (case store_read io st (digest_to_vec d) of
        Ok None \<Rightarrow> sync_missing io st now ds (ws_wait now [digest_to_vec d] d s) (missing @ [d])
      | Ok (Some _) \<Rightarrow> sync_missing io st now ds (ws_wait now [digest_to_vec d] d s) missing
      | _ \<Rightarrow> sync_missing io st now ds s missing))"

fun ws_message ::
    "worker_env \<Rightarrow> (bytes \<Rightarrow> bool) \<Rightarrow> store \<Rightarrow> nat \<Rightarrow> primary_worker_message \<Rightarrow> worker_synchronizer \<Rightarrow> worker_synchronizer" where
  "ws_message e io st now (Synchronize ds target) s =
     (let (s, missing) = sync_missing io st now ds s []
      in case worker_of (we_committee e) target (we_id e) of
           Ok a \<Rightarrow> s\<lparr>ws_sent := ws_sent s @ [(worker_to_worker a, BatchRequest missing (we_name e))]\<rparr>
         | _ \<Rightarrow> s)"
| "ws_message e io st now (Cleanup r) s =
     (let s = s\<lparr>ws_round := r\<rparr>; depth = gc_depth (we_parameters e)
      in if r < depth then s else s\<lparr>ws_pending := hm_retain (\<lambda>_ (r', _, _). r - depth < r') (ws_pending s)\<rparr>)"

definition ws_cancelled :: "worker_synchronizer \<Rightarrow> 'a waiter \<Rightarrow> bool" where
  "ws_cancelled s w \<longleftrightarrow> wt_channel w \<notin> (\<lambda>(_, _, n, _). n) ` set (ws_pending s)"

definition ws_deliver :: "digest \<Rightarrow> worker_synchronizer \<Rightarrow> worker_synchronizer" where
  "ws_deliver d s = s\<lparr>ws_pending := AList.delete d (ws_pending s)\<rparr>"

definition ws_retry :: "worker_env \<Rightarrow> nat \<Rightarrow> worker_synchronizer \<Rightarrow> digest list" where
  "ws_retry e now s = map fst
     (filter (\<lambda>(_, _, _, timestamp). timestamp + sync_retry_delay (we_parameters e) < now) (ws_pending s))"

definition ws_timer :: "worker_env \<Rightarrow> nat \<Rightarrow> socket_addr list \<Rightarrow> worker_synchronizer \<Rightarrow> worker_synchronizer" where
  "ws_timer e now shuffled s =
     (let retry = ws_retry e now s
      in if retry = [] then s
         else s\<lparr>ws_sent := ws_sent s @ map (\<lambda>a. (a, BatchRequest retry (we_name e)))
                  (lucky shuffled (sync_retry_nodes (we_parameters e)))\<rparr>)"

datatype worker_synchronizer_event = WsMessage nat primary_worker_message
  | WsWaiter nat "(digest option, dag_error) outcome" | WsTimer nat "socket_addr list"

text \<open>A failed read is only logged: the request stays pending without a future.\<close>

fun ws_step ::
    "worker_env \<Rightarrow> (bytes \<Rightarrow> bool) \<Rightarrow> store \<Rightarrow> worker_synchronizer_event \<Rightarrow> worker_synchronizer \<Rightarrow> worker_synchronizer option" where
  "ws_step e io st (WsMessage now m) s = Some (ws_message e io st now m s)"
| "ws_step e io st (WsWaiter n result) s =
     (case find (\<lambda>w. wt_channel w = n) (ws_waiting s) of
        None \<Rightarrow> None
      | Some w \<Rightarrow>
          if waiter_may io st (ws_cancelled s w) w result
          then let s = s\<lparr>ws_waiting := take_waiter n (ws_waiting s)\<rparr>
               in Some (case result of Ok (Some _) \<Rightarrow> ws_deliver (wt_deliver w) s | _ \<Rightarrow> s)
          else None)"
| "ws_step e io st (WsTimer now shuffled) s =
     (if mset shuffled = mset (map snd (worker_peers e)) then Some (ws_timer e now shuffled s) else None)"

section \<open>Network handlers\<close>

text \<open>The second and third log an error and go on; only the second acknowledges.\<close>

definition tx_dispatch :: "bytes \<Rightarrow> transaction" where
  "tx_dispatch message = message"

datatype worker_queue = ToProcessor bytes | ToWorkerHelper "digest list" public_key

definition worker_dispatch :: "worker_env \<Rightarrow> bytes \<Rightarrow> worker_queue option" where
  "worker_dispatch e serialized = (case de_worker (we_codec e) serialized of
     Some (Batch _) \<Rightarrow> Some (ToProcessor serialized)
   | Some (BatchRequest missing requestor) \<Rightarrow> Some (ToWorkerHelper missing requestor)
   | None \<Rightarrow> None)"

definition primary_message_dispatch :: "worker_env \<Rightarrow> bytes \<Rightarrow> primary_worker_message option" where
  "primary_message_dispatch e serialized = de_primary (we_codec e) serialized"

section \<open>The worker\<close>

text \<open>All tasks with the channels between them, oldest message first.\<close>

record worker =
  wk_store :: store
  wk_transactions :: "transaction list"
  wk_maker :: batch_maker
  wk_quorum :: quorum_waiter
  wk_own_batches :: "bytes list"
  wk_other_batches :: "bytes list"
  wk_requests :: "(digest list \<times> public_key) list"
  wk_commands :: "primary_worker_message list"
  wk_synchronizer :: worker_synchronizer
  wk_digests :: "bytes list"
  wk_to_primary :: "bytes list"
  wk_replies :: "(socket_addr \<times> bytes) list"

definition worker_spawn :: "worker_env \<Rightarrow> store \<Rightarrow> nat \<Rightarrow> worker" where
  "worker_spawn e st now = \<lparr> wk_store = st, wk_transactions = [], wk_maker = bm_start e now, wk_quorum = qw_start,
     wk_own_batches = [], wk_other_batches = [], wk_requests = [], wk_commands = [], wk_synchronizer = ws_start,
     wk_digests = [], wk_to_primary = [], wk_replies = [] \<rparr>"

text \<open>
  One event: a frame arrives, or a task makes a step. \<open>LinkEvent\<close> is an event of the batch maker's
  connection to an address, which sees the handlers that the quorum waiter has dropped.
\<close>

datatype worker_event = TxFrame bytes | WorkerFrame bytes | PrimaryFrame bytes
  | MakeBatch nat | BatchTimer nat | LinkEvent socket_addr "nat \<Rightarrow> bool" connection_event
  | NextBatch | Acknowledged nat | ProcessOwn | ProcessOther
  | Help "bytes \<Rightarrow> bool" | Command "bytes \<Rightarrow> bool" nat | SyncEvent "bytes \<Rightarrow> bool" worker_synchronizer_event | Report

definition maker_result ::
    "worker \<Rightarrow> (batch_maker \<times> quorum_waiter_message list, dag_error) outcome \<Rightarrow> (worker, dag_error) outcome" where
  "maker_result s r = outcome_map (\<lambda>(m, out). s\<lparr>wk_maker := m,
     wk_quorum := (wk_quorum s)\<lparr>qw_queue := qw_queue (wk_quorum s) @ out\<rparr>\<rparr>) r"

definition link_step :: "socket_addr \<Rightarrow> connection_input \<Rightarrow> batch_maker \<Rightarrow> batch_maker option" where
  "link_step a i m = (case map_of (rs_connections (bm_network m)) a of
     None \<Rightarrow> None
   | Some c \<Rightarrow> map_option (\<lambda>c'. m\<lparr>bm_network := (bm_network m)\<lparr>rs_connections :=
         AList.update a c' (rs_connections (bm_network m))\<rparr>\<rparr>) (connection_step i c))"

text \<open>The handlers to which a connection has sent the acknowledgement.\<close>

definition acknowledged :: "reliable_sender \<Rightarrow> nat set" where
  "acknowledged net = (\<Union>(_, c) \<in> set (rs_connections net). fst ` set (cn_acks c))"

fun worker_step :: "worker_env \<Rightarrow> worker_event \<Rightarrow> worker \<Rightarrow> (worker, dag_error) outcome option" where
  "worker_step e (TxFrame bs) s = Some (Ok (s\<lparr>wk_transactions := wk_transactions s @ [tx_dispatch bs]\<rparr>))"
| "worker_step e (WorkerFrame bs) s = Some (Ok (case worker_dispatch e bs of
     Some (ToProcessor b) \<Rightarrow> s\<lparr>wk_other_batches := wk_other_batches s @ [b]\<rparr>
   | Some (ToWorkerHelper missing requestor) \<Rightarrow> s\<lparr>wk_requests := wk_requests s @ [(missing, requestor)]\<rparr>
   | None \<Rightarrow> s))"
| "worker_step e (PrimaryFrame bs) s = Some (Ok (case primary_message_dispatch e bs of
     Some m \<Rightarrow> s\<lparr>wk_commands := wk_commands s @ [m]\<rparr>
   | None \<Rightarrow> s))"
| "worker_step e (MakeBatch now) s = (case wk_transactions s of
     [] \<Rightarrow> None
   | tx # txs \<Rightarrow> Some (maker_result (s\<lparr>wk_transactions := txs\<rparr>) (bm_transaction e now tx (wk_maker s))))"
| "worker_step e (BatchTimer now) s =
     (if bm_deadline (wk_maker s) \<le> now then Some (maker_result s (bm_timer e now (wk_maker s))) else None)"
| "worker_step e (LinkEvent a ok ev) s = map_option (\<lambda>m. Ok (s\<lparr>wk_maker := m\<rparr>))
     (link_step a \<lparr> ci_closed = (\<lambda>h. h \<in> qw_dropped (wk_quorum s)), ci_ok = ok, ci_event = ev \<rparr> (wk_maker s))"
| "worker_step e NextBatch s = map_option (\<lambda>q. Ok (s\<lparr>wk_quorum := q\<rparr>)) (qw_next e (wk_quorum s))"
| "worker_step e (Acknowledged h) s =
     (if h \<in> acknowledged (bm_network (wk_maker s))
      then map_option (\<lambda>(q, out). Ok (s\<lparr>wk_quorum := q, wk_own_batches := wk_own_batches s @ out\<rparr>)) (qw_ack e h (wk_quorum s))
      else None)"
| "worker_step e ProcessOwn s = (case wk_own_batches s of
     [] \<Rightarrow> None
   | b # bs \<Rightarrow> (case processor_step e True (wk_store s) b of (st, m) \<Rightarrow>
       Some (Ok (s\<lparr>wk_store := st, wk_own_batches := bs, wk_digests := wk_digests s @ [ser_digest (we_codec e) m]\<rparr>))))"
| "worker_step e ProcessOther s = (case wk_other_batches s of
     [] \<Rightarrow> None
   | b # bs \<Rightarrow> (case processor_step e False (wk_store s) b of (st, m) \<Rightarrow>
       Some (Ok (s\<lparr>wk_store := st, wk_other_batches := bs, wk_digests := wk_digests s @ [ser_digest (we_codec e) m]\<rparr>))))"
| "worker_step e (Help io) s = (case wk_requests s of
     [] \<Rightarrow> None
   | r # rs \<Rightarrow> Some (Ok (s\<lparr>wk_requests := rs, wk_replies := wk_replies s @ worker_helper e io (wk_store s) r\<rparr>)))"
| "worker_step e (Command io now) s = (case wk_commands s of
     [] \<Rightarrow> None
   | m # ms \<Rightarrow> map_option (\<lambda>y. Ok (s\<lparr>wk_commands := ms, wk_synchronizer := y\<rparr>))
       (ws_step e io (wk_store s) (WsMessage now m) (wk_synchronizer s)))"
| "worker_step e (SyncEvent io ev) s = (case ev of
     WsMessage _ _ \<Rightarrow> None
   | _ \<Rightarrow> map_option (\<lambda>y. Ok (s\<lparr>wk_synchronizer := y\<rparr>)) (ws_step e io (wk_store s) ev (wk_synchronizer s)))"
| "worker_step e Report s = (case wk_digests s of
     [] \<Rightarrow> None
   | d # ds \<Rightarrow> Some (Ok (s\<lparr>wk_digests := ds, wk_to_primary := wk_to_primary s @ [d]\<rparr>)))"

fun worker_run :: "worker_env \<Rightarrow> worker \<Rightarrow> worker_event list \<Rightarrow> worker option" where
  "worker_run e s [] = Some s"
| "worker_run e s (ev # evs) = (case worker_step e ev s of Some (Ok s') \<Rightarrow> worker_run e s' evs | _ \<Rightarrow> None)"

end
