(* ===== verification/CoreRules.thy ===== *)
theory CoreRules
  imports Core
begin

text \<open>
  Rules for the handlers of the core: a weakest precondition with one equation per
  primitive, the proof that the fuel is enough, and the locale \<open>core_invariant\<close> that carries an
  invariant from the primitives through the handlers to every run of the task.
\<close>

section \<open>Weakest preconditions\<close>

text \<open>\<open>tot\<close> asks that the handler returns; without it the claim is about runs that do.\<close>

definition wp ::
    "bool \<Rightarrow> 'a handler \<Rightarrow> (core_state \<Rightarrow> ('a, dag_error) outcome \<Rightarrow> bool) \<Rightarrow> core_state \<Rightarrow> bool" where
  "wp tot m Q s \<longleftrightarrow> (case m s of None \<Rightarrow> \<not> tot | Some (s', r) \<Rightarrow> Q s' r)"

named_theorems wp_rules \<open>weakest preconditions of the primitives of a handler\<close>

lemma wp_cret [wp_rules]: "wp tot (cret a) Q s \<longleftrightarrow> Q s (Ok a)"
  by (simp add: wp_def cret_def)

lemma wp_cbind [wp_rules]:
  "wp tot (cbind m f) Q s \<longleftrightarrow>
     wp tot m (\<lambda>s' r. case r of Ok a \<Rightarrow> wp tot (f a) Q s' | Err x \<Rightarrow> Q s' (Err x) | Panic \<Rightarrow> Q s' Panic) s"
  by (simp add: wp_def cbind_def split: option.splits prod.splits outcome.splits)

lemma wp_cmodify [wp_rules]: "wp tot (cmodify f) Q s \<longleftrightarrow> Q (f s) (Ok ())"
  by (simp add: wp_def cmodify_def)

lemma wp_cread [wp_rules]: "wp tot (cread f) Q s \<longleftrightarrow> Q s (f s)"
  by (simp add: wp_def cread_def)

lemma wp_cexpect [wp_rules]:
  "wp tot (cexpect m) Q s \<longleftrightarrow> wp tot m (\<lambda>s' r. Q s' (case r of Ok a \<Rightarrow> Ok a | _ \<Rightarrow> Panic)) s"
  by (simp add: wp_def cexpect_def split: option.splits prod.splits outcome.splits)

lemma wp_cout [wp_rules]: "wp tot (cout ms) Q s \<longleftrightarrow> Q (s\<lparr>outputs := outputs s @ ms\<rparr>) (Ok ())"
  by (simp add: cout_def wp_cmodify)

lemma wp_csend [wp_rules]:
  "wp tot (csend r m) Q s \<longleftrightarrow>
     Q (s\<lparr>outputs := outputs s @ [m],
          cancel_handlers := hm_entry r [] (\<lambda>ms. ms @ [m]) (cancel_handlers s)\<rparr>) (Ok ())"
  by (simp add: csend_def wp_cmodify)

lemma wp_cwrite [wp_rules]:
  "wp tot (cwrite k v) Q s \<longleftrightarrow> Q (s\<lparr>core_store := store_write (core_store s) k v\<rparr>) (Ok ())"
  by (simp add: cwrite_def wp_cmodify)

lemma wp_if [wp_rules]: "wp tot (if b then m else m') Q s \<longleftrightarrow> (if b then wp tot m Q s else wp tot m' Q s)"
  by simp

lemma wp_mono: "wp tot m Q s \<Longrightarrow> (\<And>s' r. Q s' r \<Longrightarrow> Q' s' r) \<Longrightarrow> wp tot m Q' s"
  by (auto simp: wp_def split: option.splits)

lemma wp_notify [wp_rules]:
  "wp tot (notify_victim e h) Q s \<longleftrightarrow>
     Q (s\<lparr>outputs := outputs s @
          (if ce_attack_active e \<and> ce_is_attacker e \<and> (ce_mode e = ''speculative'' \<or> ce_mode e = ''sluggish'') \<and>
              h_author h \<noteq> ce_name e \<and> h_author h \<in> ce_victims e
           then [VictimRound (h_round h)] else [])\<rparr>) (Ok ())"
  by (auto simp add: notify_victim_def wp_cout wp_cret)

lemma wp_append_vote [wp_rules]:
  "wp tot (append_vote e v) Q s \<longleftrightarrow>
     (case va_append (ce_committee e) (current_header s) (votes_agg s) v of (a, r) \<Rightarrow> Q (s\<lparr>votes_agg := a\<rparr>) r)"
  by (simp add: wp_def append_vote_def split: prod.splits)

lemma wp_case_option [wp_rules]:
  "wp tot (case r of None \<Rightarrow> m | Some x \<Rightarrow> f x) Q s \<longleftrightarrow> (case r of None \<Rightarrow> wp tot m Q s | Some x \<Rightarrow> wp tot (f x) Q s)"
  by (simp split: option.splits)

lemma ensure_simps [simp]: "ensure True x = Ok ()" "ensure False x = Err x"
  by (simp_all add: ensure_def)

text \<open>\<open>CertificatesAggregator::append\<close> never fails.\<close>

lemma ca_append_Ok: "\<exists>a' r. ca_append cr mode c a x = (a', Ok r)"
  by (cases "ca_append cr mode c a x") (auto simp: ca_append_def Let_def split: if_splits)

lemma wp_append_certificate [wp_rules]:
  "wp tot (append_certificate e x) Q s \<longleftrightarrow>
     (case ca_append (ce_crypto e) (ce_mode e) (ce_committee e)
        (option_or (map_of (certificates_agg s) (cert_round x)) (new_certificates_agg e)) x of
      (a', r) \<Rightarrow> Q (s\<lparr>certificates_agg := AList.update (cert_round x) a' (certificates_agg s)\<rparr>) r)"
  by (simp add: wp_def append_certificate_def Let_def split: prod.splits)

lemma va_append_simps:
  "v_author v \<in> va_used a \<Longrightarrow> va_append c h a v = (a, Err (AuthorityReuse (v_author v)))"
  "v_author v \<notin> va_used a \<Longrightarrow> \<exists>a' r. va_append c h a v = (a', Ok r) \<and>
     va_used a' = insert (v_author v) (va_used a) \<and> (\<forall>x. r = Some x \<longrightarrow> c_header x = h)"
  by (auto simp: va_append_def Let_def)

section \<open>The fuel is enough\<close>

text \<open>
  After the node's own vote was counted, its next own vote is refused; a vote gives at most
  one certificate, a certificate processes at most one header, a header casts at most one vote.
\<close>

abbreviation own_used :: "core_env \<Rightarrow> core_state \<Rightarrow> bool" where
  "own_used e s \<equiv> ce_name e \<in> va_used (votes_agg s)"

abbreviation returns :: "'a handler \<Rightarrow> core_state \<Rightarrow> bool" where
  "returns m s \<equiv> wp True m (\<lambda>_ _. True) s"

lemma vote_new_author: "vote_new cr secret h name = Ok v \<Longrightarrow>
    v_author v = name \<and> v_id v = h_id h \<and> v_round v = h_round h \<and> v_origin v = h_author h"
  by (auto simp: vote_new_def Let_def)

lemma vote_once_returns:
  assumes "\<And>v s'. v_author v = ce_name e \<Longrightarrow> votes_agg s' = votes_agg s \<Longrightarrow> returns (pv v) s'"
  shows "returns (vote_once e pv h) s"
  using assms
  by (auto simp: vote_once_def wp_rules dest: vote_new_author split: outcome.splits)

lemma process_header_with_returns:
  assumes "\<And>v s'. v_author v = ce_name e \<Longrightarrow> votes_agg s' = votes_agg s \<Longrightarrow> returns (pv v) s'"
  shows "returns (process_header_with e io pv h) s"
  using vote_once_returns [of e _ pv] assms
  by (simp add: process_header_with_def accept_header_def wp_rules split: outcome.splits prod.splits)

lemma process_vote_with_returns:
  assumes "\<And>x s'. v_author v \<in> va_used (votes_agg s') \<Longrightarrow> va_used (votes_agg s) \<subseteq> va_used (votes_agg s') \<Longrightarrow>
      v_author v \<notin> va_used (votes_agg s) \<Longrightarrow> returns (pc x) s'"
  shows "returns (process_vote_with e pc v) s"
proof (cases "v_author v \<in> va_used (votes_agg s)")
  case True
  then show ?thesis by (simp add: process_vote_with_def wp_rules va_append_simps)
next
  case False
  then obtain a r where a: "va_append (ce_committee e) (current_header s) (votes_agg s) v = (a, Ok r)"
    "va_used a = insert (v_author v) (va_used (votes_agg s))"
    using va_append_simps(2) by blast
  have "wp True (pc x) (\<lambda>s' r. True) s'" if "va_used (votes_agg s') = va_used a" for x s'
    using assms [OF _ _ False] that a(2) by auto
  then show ?thesis
    by (cases r) (simp_all add: process_vote_with_def wp_rules a(1))
qed

lemma ancestors_present_errors: "ancestors_present g io s ds = Err x \<Longrightarrow> x = StoreError" "ancestors_present g io s ds \<noteq> Panic"
  by (induction ds) (auto simp: store_read_def db_get_def and_then_Panic split: if_splits)

lemma deliver_certificate_cases:
  "(deliver_certificate g io s x = Ok (True, []) \<and> (\<forall>d \<in> set (cert_parents x). parent_known g s d)) \<or>
   deliver_certificate g io s x = Ok (False, [x]) \<or> deliver_certificate g io s x = Err StoreError"
proof (cases "ancestors_present g io s (cert_parents x)")
  case (Ok b)
  then show ?thesis
    using ancestors_present_Ok by (cases b) (simp_all add: deliver_certificate_def)
next
  case (Err y)
  then show ?thesis using ancestors_present_errors(1) [OF Err] by (simp add: deliver_certificate_def)
next
  case Panic
  then show ?thesis by (simp add: ancestors_present_errors(2))
qed

lemma accept_certificate_wp:
  assumes "Q (s\<lparr>outputs := outputs s @ [ToCertificateWaiter x]\<rparr>) (Ok ())"
    and deliver: "\<And>a ms. \<forall>d \<in> set (cert_parents x). parent_known (ce_genesis e) (core_store s) d \<Longrightarrow>
      ms = [] \<or> (\<exists>ps. ms = [ToProposer ps (cert_round x)]) \<Longrightarrow>
      Q (s\<lparr>core_store := store_write (core_store s) (digest_to_vec (cert_digest (ce_crypto e) x)) (ser_cert (ce_codec e) x),
           certificates_agg := a, outputs := outputs s @ ms @ [ToConsensus x]\<rparr>) (Ok ())"
    and "Q s (Err StoreError)"
  shows "wp tot (accept_certificate e io x) Q s"
  using deliver_certificate_cases [of "ce_genesis e" io "core_store s" x]
proof (elim disjE conjE)
  assume ok: "deliver_certificate (ce_genesis e) io (core_store s) x = Ok (True, [])"
    and known: "\<forall>d \<in> set (cert_parents x). parent_known (ce_genesis e) (core_store s) d"
  obtain a r where "ca_append (ce_crypto e) (ce_mode e) (ce_committee e)
      (option_or (map_of (certificates_agg s) (cert_round x)) (new_certificates_agg e)) x = (a, Ok r)"
    using ca_append_Ok by blast
  with ok show ?thesis
    using deliver [OF known, of "[]"] deliver [OF known, of "[ToProposer _ _]"]
    by (cases r) (simp_all add: accept_certificate_def wp_rules)
qed (use assms in \<open>simp_all add: accept_certificate_def wp_rules\<close>)

lemma process_certificate_with_returns:
  assumes "\<And>s'. votes_agg s' = votes_agg s \<Longrightarrow> returns (ph (c_header x)) s'"
  shows "returns (process_certificate_with e io ph x) s"
proof -
  have tail: "returns (accept_certificate e io x) s'" for s'
    by (rule accept_certificate_wp) simp_all
  have "case_outcome (\<lambda>_. True) (\<lambda>_. True) True = (\<lambda>_ :: (unit, dag_error) outcome. True)"
    by (auto split: outcome.splits)
  with tail assms show ?thesis
    by (simp add: process_certificate_with_def wp_rules)
qed

lemma own_vote_refused:
  "v_author v = ce_name e \<Longrightarrow> own_used e s \<Longrightarrow> returns (process_vote (Suc n) e io v) s"
  by (simp add: process_vote_with_def wp_rules va_append_simps)

lemma header_returns_used: "own_used e s \<Longrightarrow> returns (process_header (Suc (Suc n)) e io h) s"
  by (simp only: process_header.simps, rule process_header_with_returns) (simp add: own_vote_refused del: process_vote.simps)

lemma certificate_returns_used: "own_used e s \<Longrightarrow> returns (process_certificate (Suc (Suc (Suc n))) e io x) s"
  by (simp only: process_certificate.simps, rule process_certificate_with_returns)
    (simp add: header_returns_used del: process_header.simps)

lemma own_vote_returns:
  "v_author v = ce_name e \<Longrightarrow> returns (process_vote (Suc (Suc (Suc (Suc n)))) e io v) s"
  by (simp only: process_vote.simps, rule process_vote_with_returns)
    (simp add: certificate_returns_used del: process_certificate.simps)

lemma header_returns: "returns (process_header (Suc (Suc (Suc (Suc (Suc n))))) e io h) s"
  by (simp only: process_header.simps, rule process_header_with_returns)
    (simp add: own_vote_returns del: process_vote.simps)

lemma certificate_returns: "returns (process_certificate (Suc (Suc (Suc (Suc (Suc (Suc n)))))) e io x) s"
  by (simp only: process_certificate.simps, rule process_certificate_with_returns)
    (simp add: header_returns del: process_header.simps)

lemma vote_returns: "returns (process_vote (Suc (Suc (Suc (Suc (Suc (Suc (Suc n))))))) e io v) s"
  by (simp only: process_vote.simps, rule process_vote_with_returns)
    (simp add: certificate_returns del: process_certificate.simps)

section \<open>Invariants\<close>

text \<open>The facts established when the core gets to cast a vote on \<open>h\<close> with the store \<open>st\<close>.\<close>

definition votable :: "core_env \<Rightarrow> store \<Rightarrow> header \<Rightarrow> bool" where
  "votable e st h \<longleftrightarrow> (\<exists>io ps stake. get_parents (ce_codec e) (ce_genesis e) io st h = Ok (ps, []) \<and> ps \<noteq> [] \<and>
     parents_stake (ce_committee e) h ps 0 = Ok stake \<and> quorum_threshold (ce_committee e) \<le> stake \<and>
     missing_payload (ce_name e) io st h = Ok (False, []))"

fun quiet :: "core_output \<Rightarrow> bool" where
  "quiet (SendTo (VoteMessage v) a) \<longleftrightarrow> False"
| "quiet (ToConsensus x) \<longleftrightarrow> False"
| "quiet _ \<longleftrightarrow> True"

text \<open>The headers an event brings in.\<close>

fun event_headers :: "core_event \<Rightarrow> header list" where
  "event_headers (FromPrimaries (HeaderMessage h)) = [h]"
| "event_headers (FromPrimaries (VoteMessage v)) = []"
| "event_headers (FromPrimaries (CertificateMessage x)) = [c_header x]"
| "event_headers (FromPrimaries (CertificatesRequest ds k)) = []"
| "event_headers (FromHeaderWaiter h) = [h]"
| "event_headers (FromCertificateWaiter x) = [c_header x]"
| "event_headers (FromProposer h) = [h]"

text \<open>What is assumed of an input: \<open>okr\<close> of the consensus round read, \<open>ok\<close> of the headers brought in.\<close>

fun input_ok :: "(round \<Rightarrow> bool) \<Rightarrow> (header \<Rightarrow> bool) \<Rightarrow> core_input \<Rightarrow> bool" where
  "input_ok okr ok (CoreEvent io cr ev) \<longleftrightarrow> okr cr \<and> (\<forall>h \<in> set (event_headers ev). ok h)"
| "input_ok okr ok (PayloadStored d w) \<longleftrightarrow> wf_digest d"

text \<open>
  An invariant \<open>I\<close> of the core. \<open>ok\<close> is what is assumed of the headers that come in, \<open>okr\<close> of the
  consensus rounds read.
\<close>

locale core_invariant =
  fixes e :: core_env and I :: "core_state \<Rightarrow> bool" and ok :: "header \<Rightarrow> bool" and okr :: "round \<Rightarrow> bool"
  assumes inv_local: "I s \<Longrightarrow> I (s\<lparr>processing := p, current_header := h, votes_agg := a, certificates_agg := ca, cancel_handlers := c\<rparr>)"
    and inv_quiet: "I s \<Longrightarrow> \<forall>m \<in> set ms. quiet m \<Longrightarrow> I (s\<lparr>outputs := outputs s @ ms\<rparr>)"
    and inv_payload: "I s \<Longrightarrow> wf_digest d \<Longrightarrow> I (s\<lparr>core_store := store_write (core_store s) (payload_key d w) []\<rparr>)"
    and inv_header: "I s \<Longrightarrow> ok h \<Longrightarrow>
      I (s\<lparr>core_store := store_write (core_store s) (digest_to_vec (h_id h)) (ser_header (ce_codec e) h)\<rparr>)"
    and inv_voted: "I s \<Longrightarrow> I (s\<lparr>last_voted := hm_entry r {} (insert k) (last_voted s)\<rparr>)"
    and inv_vote: "I s \<Longrightarrow> I s0 \<Longrightarrow> votable e (core_store s0) h \<Longrightarrow>
      core_store s = store_write (core_store s0) (digest_to_vec (h_id h)) (ser_header (ce_codec e) h) \<Longrightarrow>
      h_author h \<notin> set_of_round (last_voted s) (h_round h) \<Longrightarrow>
      v_id v = h_id h \<Longrightarrow> v_round v = h_round h \<Longrightarrow> v_origin v = h_author h \<Longrightarrow>
      I (s\<lparr>last_voted := hm_entry (h_round h) {} (insert (h_author h)) (last_voted s),
           outputs := outputs s @ [SendTo (VoteMessage v) addr]\<rparr>)"
    and inv_deliver: "I s \<Longrightarrow> ok (c_header x) \<Longrightarrow>
      \<forall>d \<in> set (cert_parents x). parent_known (ce_genesis e) (core_store s) d \<Longrightarrow> \<forall>m \<in> set ms. quiet m \<Longrightarrow>
      I (s\<lparr>core_store := store_write (core_store s) (digest_to_vec (cert_digest (ce_crypto e) x)) (ser_cert (ce_codec e) x),
           outputs := outputs s @ ms @ [ToConsensus x]\<rparr>)"
    and inv_cleanup: "I s \<Longrightarrow> okr cr \<Longrightarrow> I (core_cleanup e cr s)"
begin

abbreviation J :: "core_state \<Rightarrow> bool" where
  "J s \<equiv> I s \<and> ok (current_header s)"

lemma inv_simps:
  "I s \<Longrightarrow> I (s\<lparr>processing := p\<rparr>)" "I s \<Longrightarrow> I (s\<lparr>votes_agg := a\<rparr>)" "I s \<Longrightarrow> I (s\<lparr>certificates_agg := ca\<rparr>)"
  "I s \<Longrightarrow> I (s\<lparr>current_header := h, votes_agg := a\<rparr>)" "I s \<Longrightarrow> I (s\<lparr>cancel_handlers := c\<rparr>)"
  using inv_local [where s = s and p = p and a = "votes_agg s" and ca = "certificates_agg s" and h = "current_header s"
      and c = "cancel_handlers s"]
    inv_local [where s = s and p = "processing s" and a = a and ca = "certificates_agg s" and h = "current_header s"
      and c = "cancel_handlers s"]
    inv_local [where s = s and p = "processing s" and a = "votes_agg s" and ca = ca and h = "current_header s"
      and c = "cancel_handlers s"]
    inv_local [where s = s and p = "processing s" and a = a and ca = "certificates_agg s" and h = h
      and c = "cancel_handlers s"]
    inv_local [where s = s and p = "processing s" and a = "votes_agg s" and ca = "certificates_agg s" and h = "current_header s"
      and c = c]
  by simp_all

lemma inv_send: "I s \<Longrightarrow> quiet m \<Longrightarrow> I (s\<lparr>outputs := outputs s @ [m], cancel_handlers := c\<rparr>)"
  using inv_simps(5) [OF inv_quiet [of s "[m]"], of c] by simp

abbreviation keeps :: "unit handler \<Rightarrow> core_state \<Rightarrow> bool" where
  "keeps m s \<equiv> wp False m (\<lambda>s' _. J s') s"

lemma vote_once_keeps:
  assumes "J s" "J s0" "votable e (core_store s0) h"
    and "core_store s = store_write (core_store s0) (digest_to_vec (h_id h)) (ser_header (ce_codec e) h)"
    and pv: "\<And>v s'. J s' \<Longrightarrow> keeps (pv v) s'"
  shows "keeps (vote_once e pv h) s"
proof -
  let ?s = "s\<lparr>last_voted := hm_entry (h_round h) {} (insert (h_author h)) (last_voted s)\<rparr>"
  have voted: "J ?s" using assms(1) inv_voted by simp
  show ?thesis
  proof (cases "h_author h \<notin> set_of_round (last_voted s) (h_round h)")
    case False
    with voted show ?thesis by (simp add: vote_once_def wp_rules)
  next
    case fresh: True
    show ?thesis
    proof (cases "vote_new (ce_crypto e) (ce_secret e) h (ce_name e)")
      case (Ok v)
      note v = vote_new_author [OF Ok]
      have sent: "J (?s\<lparr>outputs := outputs ?s @ [SendTo (VoteMessage v) a], cancel_handlers := c\<rparr>)" for a c
        using inv_simps(5) [OF inv_vote [OF _ _ assms(3,4) fresh, of v a], of c] v assms(1,2) by simp
      have "wp False (pv v) (\<lambda>s' _. J s') ?s" using pv [OF voted] .
      then show ?thesis
        using voted sent fresh Ok
        by (simp add: vote_once_def wp_rules split: outcome.splits)
    qed (use voted fresh in \<open>simp_all add: vote_once_def wp_rules\<close>)
  qed
qed

lemma quiet_keeps: "J s \<Longrightarrow> \<forall>m \<in> set ms. quiet m \<Longrightarrow> J (s\<lparr>outputs := outputs s @ ms\<rparr>)"
  using inv_quiet by simp

lemma accept_header_keeps:
  assumes "J s" "ok h" and pv: "\<And>v s'. J s' \<Longrightarrow> keeps (pv v) s'"
    and parents: "get_parents (ce_codec e) (ce_genesis e) io (core_store s) h = Ok (ps, [])" "ps \<noteq> []"
      "parents_stake (ce_committee e) h ps 0 = Ok stake" "quorum_threshold (ce_committee e) \<le> stake"
  shows "keeps (accept_header e io pv h) s"
proof (cases "missing_payload (ce_name e) io (core_store s) h")
  case payload: (Ok q)
  obtain missing reqs where q: "q = (missing, reqs)" by (cases q)
  show ?thesis
  proof (cases missing)
    case True
    with payload quiet_keeps [OF assms(1), of "map ToHeaderWaiter reqs"] show ?thesis by (simp add: accept_header_def wp_rules q)
  next
    case False
    have reqs: "reqs = []"
      using payload False by (auto simp: q missing_payload_def split: if_splits)
    have can: "votable e (core_store s) h"
      using parents payload by (auto simp: votable_def q reqs False)
    let ?s = "s\<lparr>core_store := store_write (core_store s) (digest_to_vec (h_id h)) (ser_header (ce_codec e) h)\<rparr>"
    have s: "J ?s" using assms(1,2) inv_header by simp
    have vote: "keeps (vote_once e pv h) s'" if "J s'" "core_store s' = core_store ?s" for s'
      by (rule vote_once_keeps [OF that(1) assms(1) can _ pv]) (use that(2) in simp_all)
    have "keeps (vote_once e pv h) (?s\<lparr>outputs := outputs s @ ms\<rparr>)" if "\<forall>m \<in> set ms. quiet m" for ms
      using vote [OF quiet_keeps [OF s that]] by simp
    from this [of "[VictimRound (h_round h)]"] this [of "[]"] payload show ?thesis
      by (simp add: accept_header_def wp_rules q False reqs)
  qed
qed (use assms in \<open>simp_all add: accept_header_def wp_rules\<close>)

lemma process_header_with_keeps:
  assumes "J s" "ok h" and pv: "\<And>v s'. J s' \<Longrightarrow> keeps (pv v) s'"
  shows "keeps (process_header_with e io pv h) s"
proof -
  let ?s = "s\<lparr>processing := hm_entry (h_round h) {} (insert (h_id h)) (processing s)\<rparr>"
  have s: "J ?s" using assms(1) inv_simps(1) by simp
  show ?thesis
  proof (cases "get_parents (ce_codec e) (ce_genesis e) io (core_store s) h")
    case parents: (Ok p)
    obtain ps reqs where p: "p = (ps, reqs)" by (cases p)
    have s1: "J (?s\<lparr>outputs := outputs s @ map ToHeaderWaiter reqs\<rparr>)" using quiet_keeps [OF s, of "map ToHeaderWaiter reqs"] by simp
    show ?thesis
    proof (cases "parents_stake (ce_committee e) h ps 0")
      case stake: (Ok stake)
      have "keeps (accept_header e io pv h) (?s\<lparr>outputs := outputs s @ map ToHeaderWaiter reqs\<rparr>)"
        if "ps \<noteq> []" "quorum_threshold (ce_committee e) \<le> stake"
      proof -
        have "reqs = []" using parents that(1) by (auto simp: p get_parents_def split: if_splits)
        with parents show ?thesis
          by (intro accept_header_keeps [OF s1 assms(2) pv _ that(1) stake that(2)]) (simp_all add: p)
      qed
      with s1 parents stake show ?thesis
        by (simp add: process_header_with_def wp_rules p ensure_def)
    qed (use s1 parents in \<open>simp_all add: process_header_with_def wp_rules p\<close>)
  qed (use s in \<open>simp_all add: process_header_with_def wp_rules\<close>)
qed

lemma process_vote_with_keeps:
  assumes "J s" and pc: "\<And>x s'. J s' \<Longrightarrow> ok (c_header x) \<Longrightarrow> keeps (pc x) s'"
  shows "keeps (process_vote_with e pc v) s"
proof (cases "v_author v \<in> va_used (votes_agg s)")
  case True
  with assms(1) show ?thesis by (simp add: process_vote_with_def wp_rules va_append_simps)
next
  case False
  then obtain a r where a: "va_append (ce_committee e) (current_header s) (votes_agg s) v = (a, Ok r)"
    "\<And>x. r = Some x \<Longrightarrow> c_header x = current_header s"
    using va_append_simps(2) by metis
  let ?s = "s\<lparr>votes_agg := a\<rparr>"
  have s: "J ?s" using assms(1) inv_simps(2) by simp
  show ?thesis
  proof (cases r)
    case None
    with s a(1) show ?thesis by (simp add: process_vote_with_def wp_rules)
  next
    case (Some x)
    let ?m = "Broadcast (CertificateMessage x) (primary_addrs e)"
    have sent: "J (?s\<lparr>outputs := outputs ?s @ [?m], cancel_handlers := c\<rparr>)" for c
      using s inv_send [of ?s ?m c] by simp
    have "ok (c_header x)" using a(2) [OF Some] assms(1) by simp
    with sent pc have "keeps (pc x) (?s\<lparr>outputs := outputs ?s @ [?m], cancel_handlers := c\<rparr>)" for c
      by blast
    then show ?thesis
      by (simp add: process_vote_with_def wp_rules a(1) Some)
  qed
qed

lemma process_certificate_with_keeps:
  assumes "J s" "ok (c_header x)" and ph: "\<And>s'. J s' \<Longrightarrow> keeps (ph (c_header x)) s'"
  shows "keeps (process_certificate_with e io ph x) s"
proof -
  have tail: "keeps (accept_certificate e io x) s'" if "J s'" for s'
  proof (rule accept_certificate_wp)
    show "J (s'\<lparr>outputs := outputs s' @ [ToCertificateWaiter x]\<rparr>)"
      using quiet_keeps [OF that, of "[ToCertificateWaiter x]"] by simp
    fix a ms
    assume "\<forall>d \<in> set (cert_parents x). parent_known (ce_genesis e) (core_store s') d"
      and "ms = [] \<or> (\<exists>ps. ms = [ToProposer ps (cert_round x)])"
    then have "I (s'\<lparr>core_store := store_write (core_store s') (digest_to_vec (cert_digest (ce_crypto e) x)) (ser_cert (ce_codec e) x),
        outputs := outputs s' @ ms @ [ToConsensus x]\<rparr>)"
      using that assms(2) by (intro inv_deliver) auto
    from inv_simps(3) [OF this, of a] that
    show "J (s'\<lparr>core_store := store_write (core_store s') (digest_to_vec (cert_digest (ce_crypto e) x)) (ser_cert (ce_codec e) x),
        certificates_agg := a, outputs := outputs s' @ ms @ [ToConsensus x]\<rparr>)"
      by (cases s') simp
  qed (rule that)
  have "wp False (ph (c_header x)) (\<lambda>s' r. case r of Ok a \<Rightarrow> keeps (accept_certificate e io x) s' | _ \<Rightarrow> J s') s"
    by (rule wp_mono [OF ph [OF assms(1)]]) (simp add: tail split: outcome.splits)
  with tail [OF assms(1)] show ?thesis
    by (simp add: process_certificate_with_def wp_rules)
qed

lemma handlers_keep:
  "(\<forall>h s. J s \<longrightarrow> ok h \<longrightarrow> keeps (process_header n e io h) s) \<and>
   (\<forall>v s. J s \<longrightarrow> keeps (process_vote n e io v) s) \<and>
   (\<forall>x s. J s \<longrightarrow> ok (c_header x) \<longrightarrow> keeps (process_certificate n e io x) s)"
proof (induction n)
  case 0
  then show ?case by (simp add: wp_def)
next
  case (Suc n)
  then show ?case
    by (simp add: process_header_with_keeps process_vote_with_keeps process_certificate_with_keeps)
qed

lemma own_header_keeps: "J s \<Longrightarrow> ok h \<Longrightarrow> keeps (process_own_header n e io h) s"
proof -
  assume "J s" "ok h"
  let ?s = "s\<lparr>current_header := h, votes_agg := va_new\<rparr>"
  have "J (?s\<lparr>outputs := outputs s @ [Broadcast (HeaderMessage h) as], cancel_handlers := c\<rparr>)" for as c
    using inv_send [of ?s "Broadcast (HeaderMessage h) as" c] inv_simps(4) \<open>J s\<close> \<open>ok h\<close> by simp
  with handlers_keep \<open>ok h\<close> show ?thesis by (simp add: process_own_header_def wp_rules)
qed

lemma handle_keeps:
  assumes "J s" "\<forall>h \<in> set (event_headers ev). ok h"
  shows "keeps (core_handle e io ev) s"
proof -
  note H = handlers_keep [of core_fuel io]
  show ?thesis
  proof (cases ev)
    case (FromPrimaries m)
    with assms H show ?thesis by (cases m) (simp_all add: wp_rules split: outcome.splits)
  next
    case (FromProposer h)
    with assms own_header_keeps show ?thesis by simp
  qed (use assms H in simp_all)
qed

lemma step_keeps:
  assumes "J s" "okr cr" "\<forall>h \<in> set (event_headers ev). ok h" "core_step e io cr ev s = Some (Ok s')"
  shows "J s'"
proof -
  from assms(4) obtain s1 r where s1: "core_handle e io ev s = Some (s1, r)" "s' = core_cleanup e cr s1"
    by (auto simp: core_step_def split: option.splits prod.splits outcome.splits dag_error.splits)
  from handle_keeps [OF assms(1,3), of io] s1 have "J s1" by (simp add: wp_def)
  moreover have "current_header s' = current_header s1" by (simp add: s1(2) core_cleanup_def Let_def)
  ultimately show ?thesis using inv_cleanup [OF _ assms(2)] s1(2) by simp
qed

lemma run_keeps:
  "core_run e s evs = Some s' \<Longrightarrow> J s \<Longrightarrow> \<forall>i \<in> set evs. input_ok okr ok i \<Longrightarrow> J s'"
proof (induction evs arbitrary: s)
  case (Cons i evs)
  show ?case
  proof (cases i)
    case (CoreEvent io cr ev)
    with Cons.prems(1) obtain s1 where s1: "core_step e io cr ev s = Some (Ok s1)" "core_run e s1 evs = Some s'"
      by (auto split: option.splits outcome.splits)
    have "J s1" using step_keeps [OF Cons.prems(2) _ _ s1(1)] Cons.prems(3) CoreEvent by simp
    from Cons.IH [OF s1(2) this] Cons.prems(3) show ?thesis by simp
  next
    case (PayloadStored d w)
    with Cons.prems have "J (s\<lparr>core_store := store_write (core_store s) (payload_key d w) []\<rparr>)"
      using inv_payload by simp
    from Cons.IH [OF _ this] Cons.prems PayloadStored show ?thesis by simp
  qed
qed simp

end

end
