(* ===== verification/WaiterProps.thy ===== *)
theory WaiterProps
  imports Waiters CoreRules
begin

text \<open>
  What the tasks around the core guarantee: the header waiter returns a header exactly when what it
  waits for is in the store, and never loses one; the garbage collector announces the highest
  committed round; the helper answers with what is stored.
\<close>

section \<open>Header waiter\<close>

abbreviation hw_channel_of :: "header_waiter \<Rightarrow> digest \<Rightarrow> nat option" where
  "hw_channel_of s \<equiv> \<lambda>k. map_option snd (map_of (hw_pending s) k)"

abbreviation hw_finish :: "nat \<Rightarrow> header_waiter \<Rightarrow> header_waiter" where
  "hw_finish n s \<equiv> s\<lparr>hw_waiting := take_waiter n (hw_waiting s)\<rparr>"

interpretation hw: waiter_pool hw_channel_of hw_waiting hw_channels h_id hw_wait hw_finish hw_deliver
  by unfold_locales (auto simp: hw_wait_def hw_deliver_def fun_eq_iff)

definition hw_inv :: "header_waiter \<Rightarrow> bool" where
  "hw_inv s \<longleftrightarrow> hm_wf (hw_pending s) \<and> hm_wf (hw_parent_requests s) \<and> hm_wf (hw_batch_requests s) \<and> hw.pool_ok s"

lemma hw_inv_start: "hw_inv hw_start"
  by (simp add: hw_inv_def hw_start_def hw.pool_ok_empty fun_eq_iff)

lemma map_option_le: "f \<subseteq>\<^sub>m g \<Longrightarrow> (\<lambda>k. map_option h (f k)) \<subseteq>\<^sub>m (\<lambda>k. map_option h (g k))"
  by (fastforce simp: map_le_def dom_def)

lemma map_of_retain_le: "hm_wf m \<Longrightarrow> map_of (hm_retain P m) \<subseteq>\<^sub>m map_of m"
  by (auto simp: map_le_def map_of_retain split: option.splits if_splits)

lemma hw_pool_same:
  "hw.pool_ok s \<Longrightarrow> hw_waiting s' = hw_waiting s \<Longrightarrow> hw_channels s' = hw_channels s \<Longrightarrow> hw_pending s' = hw_pending s \<Longrightarrow> hw.pool_ok s'"
  using hw.pool_ok_mono [of s s'] by (simp add: map_le_def)

lemma request_batches_wf: "request_batches r ms q sync = (q', sync') \<Longrightarrow> hm_wf q \<Longrightarrow> hm_wf q'"
  by (induction r ms q sync rule: request_batches.induct) (auto split: if_splits)

lemma request_parents_wf: "request_parents r now ds q sync = (q', sync') \<Longrightarrow> hm_wf q \<Longrightarrow> hm_wf q'"
  by (induction r now ds q sync rule: request_parents.induct) (auto split: if_splits)

lemma hw_inv_wait: "hw_inv s \<Longrightarrow> hw_inv (hw_wait ks h s)"
  using hw.pool_ok_wait [of s ks h] by (auto simp: hw_inv_def hw_wait_def)

lemma hw_inv_same:
  "hw_inv s \<Longrightarrow> hw_waiting s' = hw_waiting s \<Longrightarrow> hw_channels s' = hw_channels s \<Longrightarrow> hw_pending s' = hw_pending s \<Longrightarrow>
     hm_wf (hw_parent_requests s') \<Longrightarrow> hm_wf (hw_batch_requests s') \<Longrightarrow> hw_inv s'"
  using hw_pool_same [of s s'] by (simp add: hw_inv_def)

lemma hw_inv_cleanup:
  assumes "hw_inv s"
  shows "hw_inv (hw_cleanup e cr s)"
proof -
  have "hw_channel_of (hw_cleanup e cr s) \<subseteq>\<^sub>m hw_channel_of s"
    using assms by (auto simp: hw_cleanup_def Let_def hw_inv_def intro!: map_option_le map_of_retain_le)
  with assms hw.pool_ok_mono [of s "hw_cleanup e cr s"] show ?thesis
    by (simp add: hw_inv_def hw_cleanup_def Let_def)
qed

text \<open>What a command changes beyond the pool.\<close>

lemma hw_sync_batches_effect:
  assumes "hw_sync_batches e missing h s = Ok s'"
  shows "\<exists>requests sent. s' = hw_wait (map (\<lambda>(d, w). payload_key d w) missing) h s
      \<lparr>hw_batch_requests := requests, hw_sent := hw_sent s @ sent\<rparr> \<and>
    (hm_wf (hw_batch_requests s) \<longrightarrow> hm_wf requests)"
proof -
  let ?s = "hw_wait (map (\<lambda>(d, w). payload_key d w) missing) h s"
  obtain requests sync where r: "request_batches (h_round h) missing (hw_batch_requests ?s) [] = (requests, sync)"
    by fastforce
  with assms obtain ms where "s' = ?s\<lparr>hw_batch_requests := requests, hw_sent := hw_sent ?s @ ms\<rparr>"
    by (auto simp: hw_sync_batches_def Let_def outcome_map_Ok)
  with request_batches_wf [OF r] show ?thesis by (auto simp: hw_wait_def)
qed

lemma hw_sync_parents_effect:
  assumes "hw_sync_parents e now missing h s = Ok s'"
  shows "\<exists>requests sent. s' = hw_wait (map digest_to_vec missing) h s
      \<lparr>hw_parent_requests := requests, hw_sent := hw_sent s @ sent\<rparr> \<and>
    (hm_wf (hw_parent_requests s) \<longrightarrow> hm_wf requests)"
proof -
  let ?s = "hw_wait (map digest_to_vec missing) h s"
  obtain requests sync where r: "request_parents (h_round h) now missing (hw_parent_requests ?s) [] = (requests, sync)"
    by fastforce
  with assms have "s' = ?s\<lparr>hw_parent_requests := requests\<rparr> \<or>
      (\<exists>ms. s' = ?s\<lparr>hw_parent_requests := requests, hw_sent := hw_sent ?s @ ms\<rparr>)"
    by (auto simp: hw_sync_parents_def Let_def split: if_splits outcome.splits)
  then have "\<exists>ms. s' = ?s\<lparr>hw_parent_requests := requests, hw_sent := hw_sent s @ ms\<rparr>"
  proof
    assume "s' = ?s\<lparr>hw_parent_requests := requests\<rparr>"
    then have "s' = ?s\<lparr>hw_parent_requests := requests, hw_sent := hw_sent s @ []\<rparr>" by (simp add: hw_wait_def)
    then show ?thesis ..
  qed (auto simp: hw_wait_def)
  moreover have "hw_parent_requests ?s = hw_parent_requests s" by (simp add: hw_wait_def)
  ultimately show ?thesis using request_parents_wf [OF r] by auto
qed

lemma hw_inv_message:
  assumes "hw_message e cr now m s = Ok s'" "hw_inv s"
  shows "hw_inv s'"
proof -
  have inv: "hw_inv (hw_cleanup e cr s1)"
    if "s1 = (hw_wait ks h s)\<lparr>hw_batch_requests := q, hw_sent := ms\<rparr> \<and> hm_wf q \<or>
        s1 = (hw_wait ks h s)\<lparr>hw_parent_requests := p, hw_sent := ms\<rparr> \<and> hm_wf p" for s1 ks h q p ms
  proof -
    note w = hw_inv_wait [OF assms(2), of ks h]
    then have "hm_wf (hw_parent_requests (hw_wait ks h s))" "hm_wf (hw_batch_requests (hw_wait ks h s))"
      by (simp_all add: hw_inv_def)
    with that have "hw_inv s1" by (intro hw_inv_same [OF w]) auto
    then show ?thesis by (rule hw_inv_cleanup)
  qed
  have wf: "hm_wf (hw_batch_requests s)" "hm_wf (hw_parent_requests s)" using assms(2) by (simp_all add: hw_inv_def)
  show ?thesis
  proof (cases m)
    case (SyncBatches missing h)
    with assms(1) consider "s' = s" | s1 where "hw_sync_batches e missing h s = Ok s1" "s' = hw_cleanup e cr s1"
      by (auto simp: hw_message_def outcome_map_Ok split: if_splits)
    then show ?thesis
    proof cases
      case (2 s1)
      from hw_sync_batches_effect [OF 2(1)] wf inv 2(2) show ?thesis by blast
    qed (use assms(2) in simp)
  next
    case (SyncParents missing h)
    with assms(1) consider "s' = s" | s1 where "hw_sync_parents e now missing h s = Ok s1" "s' = hw_cleanup e cr s1"
      by (auto simp: hw_message_def outcome_map_Ok split: if_splits)
    then show ?thesis
    proof cases
      case (2 s1)
      from hw_sync_parents_effect [OF 2(1)] wf inv 2(2) show ?thesis by blast
    qed (use assms(2) in simp)
  qed
qed

lemma hw_cancelled_channel:
  assumes "hw_inv s"
  shows "hw_cancelled s w \<longleftrightarrow> (\<forall>k. hw_channel_of s k \<noteq> Some (wt_channel w))"
proof -
  have "(d, r, n) \<in> set (hw_pending s) \<longleftrightarrow> map_of (hw_pending s) d = Some (r, n)" for d r n
    using assms map_of_in_set [of "hw_pending s"] by (auto simp: hw_inv_def)
  then show ?thesis by (force simp: hw_cancelled_def image_iff)
qed

lemma hw_waiter_cases:
  assumes "hw_step e io st cr (HwWaiter n result) s = Some (Ok s')"
  obtains (delivered) w h where "find (\<lambda>w. wt_channel w = n) (hw_waiting s) = Some w" "wt_channel w = n"
      "w \<in> set (hw_waiting s)" "result = Ok (Some h)" "waiter_ready st w"
      "s' = hw_cleanup e cr (hw_deliver (wt_deliver w) (hw_finish n s))"
  | (cancelled) w :: "header waiter" where "wt_channel w = n" "result = Ok None" "hw_cancelled s w" "s' = hw_cleanup e cr (hw_finish n s)"
proof -
  from assms obtain w where w: "find (\<lambda>w. wt_channel w = n) (hw_waiting s) = Some w"
    "waiter_may io st (hw_cancelled s w) w result"
    by (auto split: option.splits if_splits)
  then have n: "wt_channel w = n" "w \<in> set (hw_waiting s)" by (auto simp: find_Some_iff)
  show ?thesis
  proof (cases "\<exists>h. result = Ok (Some h)")
    case True
    then obtain h where "result = Ok (Some h)" by blast
    with assms w n show ?thesis by (intro delivered [of w h]) (auto simp: Let_def)
  next
    case False
    with assms w have "result = Ok None" by (auto simp: Let_def split: outcome.splits option.splits)
    with assms w n show ?thesis by (intro cancelled [of w]) (auto simp: Let_def)
  qed
qed

lemma hw_inv_step:
  assumes "hw_step e io st cr ev s = Some (Ok s')" "hw_inv s"
  shows "hw_inv s'"
proof (cases ev)
  case (HwMessage now m)
  with assms hw_inv_message show ?thesis by simp
next
  case (HwWaiter n result)
  with assms(1) have "hw_step e io st cr (HwWaiter n result) s = Some (Ok s')" by simp
  then show ?thesis
  proof (cases rule: hw_waiter_cases)
    case (delivered w h)
    have "hw.pool_ok (hw_deliver (wt_deliver w) (hw_finish n s))"
      using hw.pool_ok_deliver [of s w] delivered(2,3) assms(2) by (simp add: hw_inv_def)
    then have "hw_inv (hw_deliver (wt_deliver w) (hw_finish n s))"
      using assms(2) by (simp add: hw_inv_def hw_deliver_def)
    with delivered show ?thesis by (simp add: hw_inv_cleanup)
  next
    case (cancelled w)
    have "hw.pool_ok (hw_finish n s)"
      using hw.pool_ok_finish [of s n] cancelled(1,3) assms(2) hw_cancelled_channel [OF assms(2), of w]
      by (simp add: hw_inv_def)
    then have "hw_inv (hw_finish n s)" using assms(2) by (simp add: hw_inv_def)
    with cancelled show ?thesis by (simp add: hw_inv_cleanup)
  qed
next
  case (HwTimer now shuffled)
  with assms have "s' = hw_cleanup e cr (hw_timer e now shuffled s)" by (auto split: if_splits)
  moreover have "hw_inv (hw_timer e now shuffled s)"
    using assms(2) hw_inv_same [of s "hw_timer e now shuffled s"] by (simp add: hw_timer_def hw_inv_def)
  ultimately show ?thesis by (simp add: hw_inv_cleanup)
qed

lemma hw_run_inv: "hw_run e (st, s) is = Some (st', s') \<Longrightarrow> hw_inv s \<Longrightarrow> hw_inv s'"
  by (induction e "(st, s)" "is" arbitrary: st s rule: hw_run.induct)
    (auto split: option.splits outcome.splits dest: hw_inv_step)

text \<open>
  A header the header waiter holds has a future of its own that nobody
  cancels, and as soon as the data it misses is in the store, the task can return it to the core.
\<close>

theorem header_waiter_never_stuck:
  assumes "hw_run e (st0, hw_start) is = Some (st, s)" "map_of (hw_pending s) d = Some (r, n)"
  shows "\<exists>w \<in> set (hw_waiting s). wt_channel w = n \<and> h_id (wt_deliver w) = d \<and> \<not> hw_cancelled s w \<and>
    (if waiter_ready st w
     then \<exists>s'. hw_step e io st cr (HwWaiter n (Ok (Some (wt_deliver w)))) s = Some (Ok s') \<and>
       hw_to_core s' = hw_to_core s @ [wt_deliver w] \<and> map_of (hw_pending s') d = None
     else \<forall>h. hw_step e io st cr (HwWaiter n (Ok (Some h))) s = None)"
proof -
  have inv: "hw_inv s" by (rule hw_run_inv [OF assms(1) hw_inv_start])
  have chan: "hw_channel_of s d = Some n" using assms(2) by simp
  from inv have pool: "hw.pool_ok s" by (simp add: hw_inv_def)
  from hw.find_waiter [OF pool chan] obtain w where
    w: "find (\<lambda>w. wt_channel w = n) (hw_waiting s) = Some w" "w \<in> set (hw_waiting s)" "wt_channel w = n" "h_id (wt_deliver w) = d"
    by blast
  have "\<not> hw_cancelled s w" using hw_cancelled_channel [OF inv, of w] chan w(3) by auto
  moreover have "map_of (hw_pending (hw_cleanup e cr (hw_deliver (wt_deliver w) (hw_finish n s)))) d = None"
    using inv w(4) by (simp add: hw_cleanup_def hw_deliver_def Let_def map_of_retain hw_inv_def)
  ultimately show ?thesis
    using w by (intro bexI [of _ w]) (auto simp: Let_def hw_cleanup_def hw_deliver_def)
qed

text \<open>What a command makes a header wait for.\<close>

fun command_of :: "header_waiter_input \<Rightarrow> (header \<times> bytes list) option" where
  "command_of (HwEvent io cr (HwMessage now (SyncBatches missing h))) = Some (h, map (\<lambda>(d, w). payload_key d w) missing)"
| "command_of (HwEvent io cr (HwMessage now (SyncParents missing h))) = Some (h, map digest_to_vec missing)"
| "command_of _ = None"

definition hw_justified :: "(header \<times> bytes list) option set \<Rightarrow> store \<Rightarrow> header_waiter \<Rightarrow> bool" where
  "hw_justified C st s \<longleftrightarrow> (\<forall>w \<in> set (hw_waiting s). Some (wt_deliver w, wt_missing w) \<in> C) \<and>
     (\<forall>h \<in> set (hw_to_core s). \<exists>ks. Some (h, ks) \<in> C \<and> (\<forall>k \<in> set ks. db st k \<noteq> None))"

lemma hw_justified_mono: "hw_justified C st s \<Longrightarrow> C \<subseteq> C' \<Longrightarrow> hw_justified C' st s"
  by (fastforce simp: hw_justified_def)

lemma hw_justified_store: "hw_justified C st s \<Longrightarrow> hw_justified C (store_write st k v) s"
  using kv.get_stays [of st _ k v] by (force simp: hw_justified_def)

lemma hw_justified_cleanup [simp]: "hw_justified C st (hw_cleanup e cr s) \<longleftrightarrow> hw_justified C st s"
  by (simp add: hw_justified_def hw_cleanup_def Let_def)

lemma hw_justified_step:
  assumes "hw_step e io st cr ev s = Some (Ok s')" "hw_justified C st s"
  shows "hw_justified (insert (command_of (HwEvent io cr ev)) C) st s'"
proof (cases ev)
  case (HwMessage now m)
  with assms(1) have run: "hw_message e cr now m s = Ok s'" by simp
  have wait: "hw_justified (insert (Some (h, ks)) C) st s1" if "hw_waiting s1 = hw_waiting (hw_wait ks h s)"
      "hw_to_core s1 = hw_to_core (hw_wait ks h s)" for s1 ks h
    using assms(2) that by (fastforce simp: hw_justified_def hw_wait_def)
  show ?thesis
  proof (cases m)
    case (SyncBatches missing h)
    with run consider "s' = s" | s1 where "hw_sync_batches e missing h s = Ok s1" "s' = hw_cleanup e cr s1"
      by (auto simp: hw_message_def outcome_map_Ok split: if_splits)
    then show ?thesis
    proof cases
      case (2 s1)
      from hw_sync_batches_effect [OF 2(1)] 2(2) HwMessage SyncBatches show ?thesis by (auto intro: wait)
    qed (use hw_justified_mono [OF assms(2)] in blast)
  next
    case (SyncParents missing h)
    with run consider "s' = s" | s1 where "hw_sync_parents e now missing h s = Ok s1" "s' = hw_cleanup e cr s1"
      by (auto simp: hw_message_def outcome_map_Ok split: if_splits)
    then show ?thesis
    proof cases
      case (2 s1)
      from hw_sync_parents_effect [OF 2(1)] 2(2) HwMessage SyncParents show ?thesis by (auto intro: wait)
    qed (use hw_justified_mono [OF assms(2)] in blast)
  qed
next
  case (HwWaiter n result)
  with assms(1) have "hw_step e io st cr (HwWaiter n result) s = Some (Ok s')" by simp
  then have "hw_justified C st s'"
  proof (cases rule: hw_waiter_cases)
    case (delivered w h)
    then have "Some (wt_deliver w, wt_missing w) \<in> C" "\<forall>k \<in> set (wt_missing w). db st k \<noteq> None"
      using assms(2) by (auto simp: hw_justified_def waiter_ready_def)
    then have new: "\<exists>ks. Some (wt_deliver w, ks) \<in> C \<and> (\<forall>k \<in> set ks. db st k \<noteq> None)" by blast
    show ?thesis
      unfolding delivered(6) hw_justified_cleanup
      using assms(2) new by (simp add: hw_justified_def hw_deliver_def take_waiter_def)
  next
    case (cancelled w)
    show ?thesis
      unfolding cancelled(4) hw_justified_cleanup
      using assms(2) by (simp add: hw_justified_def take_waiter_def)
  qed
  then show ?thesis using hw_justified_mono by blast
next
  case (HwTimer now shuffled)
  with assms(1) have "s' = hw_cleanup e cr (hw_timer e now shuffled s)" by (auto split: if_splits)
  then have "hw_justified C st s'"
    using assms(2) by (simp only: hw_justified_cleanup) (simp add: hw_justified_def hw_timer_def)
  then show ?thesis using hw_justified_mono by blast
qed

lemma hw_run_justified:
  "hw_run e (st, s) is = Some (st', s') \<Longrightarrow> hw_justified C st s \<Longrightarrow> hw_justified (command_of ` set is \<union> C) st' s'"
proof (induction e "(st, s)" "is" arbitrary: st s C rule: hw_run.induct)
  case (2 e st s io cr ev inputs)
  then obtain s1 where s1: "hw_step e io st cr ev s = Some (Ok s1)" "hw_run e (st, s1) inputs = Some (st', s')"
    by (auto split: option.splits outcome.splits)
  from "2.hyps" [OF s1(1) refl s1(2) hw_justified_step [OF s1(1) "2.prems"(2)]] show ?case by simp
next
  case (3 e st s k v inputs)
  then have "hw_justified (command_of ` set inputs \<union> C) st' s'" using hw_justified_store by simp
  then show ?case by (rule hw_justified_mono) auto
qed simp

text \<open>
  Every header the header waiter returns to the core came from a command of the
  synchroniser, and all the batches and parents that command named are in the store.
\<close>

theorem looped_headers_complete:
  assumes "hw_run e (st0, hw_start) is = Some (st, s)" "h \<in> set (hw_to_core s)"
  shows "\<exists>i ks. i \<in> set is \<and> command_of i = Some (h, ks) \<and> {k \<in> set ks. db st k = None} = {}"
proof -
  have "hw_justified {} st0 hw_start" by (simp add: hw_justified_def hw_start_def)
  from hw_run_justified [OF assms(1) this] have
    "\<forall>h \<in> set (hw_to_core s). \<exists>ks. Some (h, ks) \<in> command_of ` set is \<and> (\<forall>k \<in> set ks. db st k \<noteq> None)"
    by (simp add: hw_justified_def)
  with assms(2) obtain ks where
    ks: "Some (h, ks) \<in> command_of ` set is" "\<forall>k \<in> set ks. db st k \<noteq> None"
    by blast
  from ks(1) obtain i where "i \<in> set is" "command_of i = Some (h, ks)" by (auto simp: image_iff)
  with ks(2) show ?thesis by (intro exI [of _ i] exI [of _ ks]) auto
qed

section \<open>Garbage collector\<close>

text \<open>
  The round the garbage collector publishes to the other tasks is the
  highest round committed so far, whatever the order in which the consensus outputs certificates.
\<close>

theorem gc_tracks_highest_round:
  "gc_consensus_round (foldl (gc_step addresses) \<lparr> last_committed_round_seen = 0, gc_consensus_round = 0, gc_sent = [] \<rparr> xs) =
     fold max (map cert_round xs) 0"
proof -
  have "gc_consensus_round (foldl (gc_step addresses) s xs) = fold max (map cert_round xs) (gc_consensus_round s)"
    if "last_committed_round_seen s = gc_consensus_round s" for s
    using that by (induction xs arbitrary: s) (auto simp: gc_step_def Let_def max_def)
  then show ?thesis by simp
qed

section \<open>Helper\<close>

text \<open>The certificates stored under the digests asked for, in that order.\<close>

definition stored_certificates :: "codec \<Rightarrow> store \<Rightarrow> digest list \<Rightarrow> certificate list" where
  "stored_certificates cd st ds = List.map_filter (\<lambda>d. Option.bind (db st (digest_to_vec d)) (de_cert cd)) ds"

text \<open>
  The core stores headers and certificates in one table. A request of a member (or
  anyone who names one) for the id of a stored header makes the helper panic; it then answers nobody.
\<close>

theorem helper_panics_on_header_id:
  assumes "codec_ok cd" "db st (digest_to_vec (h_id h)) = Some (ser_header cd h)" "origin \<in> members c"
  shows "helper_reply c cd (\<lambda>_. False) st ([h_id h], origin) = Panic"
proof -
  obtain a where "primary_of c origin = Ok a"
    using assms(3) by (cases "map_of (authorities c) origin") (auto simp: primary_of_def map_of_eq_None_iff)
  with assms(1,2) show ?thesis by (simp add: helper_reply_def codec_ok_def store_read_def db_get_def)
qed

end
