(* ===== verification/WorkerProps.thy ===== *)
theory WorkerProps
  imports Worker WaiterProps
begin

text \<open>
  What the worker guarantees: no transaction is lost or reordered on the way into batches, a batch
  is reported as its own only after a quorum acknowledged it, what it serves hashes to what was
  asked for; and where it fails: an authority without peers never reports a batch, and the
  primary's request for missing batches goes to a worker that does not miss them.
\<close>

section \<open>Runs of a worker\<close>

lemma worker_run_inv:
  assumes "\<And>s ev s'. worker_step e ev s = Some (Ok s') \<Longrightarrow> P s \<Longrightarrow> P s'"
  shows "worker_run e s evs = Some s' \<Longrightarrow> P s \<Longrightarrow> P s'"
  by (induction evs arbitrary: s) (auto split: option.splits outcome.splits dest: assms)

lemma maker_result_Ok:
  "maker_result s r = Ok s' \<longleftrightarrow> (\<exists>m out. r = Ok (m, out) \<and> s' = s\<lparr>wk_maker := m,
     wk_quorum := (wk_quorum s)\<lparr>qw_queue := qw_queue (wk_quorum s) @ out\<rparr>\<rparr>)"
  by (auto simp: maker_result_def outcome_map_Ok)

lemma seal_Ok:
  "seal e m = Ok (m', q) \<longleftrightarrow> (\<not> we_benchmark e \<or> (\<exists>ids. sample_tx_ids (bm_batch m) = Ok ids)) \<and>
     (\<exists>net hs. rs_broadcast (map snd (worker_peers e)) (ser_worker (we_codec e) (Batch (bm_batch m))) (bm_network m) = (net, hs) \<and>
       m' = m\<lparr>bm_batch := [], bm_size := 0, bm_network := net, bm_sealed := bm_sealed m @ [bm_batch m]\<rparr> \<and>
       q = \<lparr> qm_batch = ser_worker (we_codec e) (Batch (bm_batch m)), qm_handlers = zip (map fst (worker_peers e)) hs \<rparr>)"
  by (auto simp: seal_def Let_def split: prod.splits)

text \<open>What an iteration of the batch maker does: nothing is sealed, or one batch is.\<close>

lemma bm_transaction_cases:
  assumes "bm_transaction e now tx m = Ok (m', out)"
  obtains (kept) "out = []" "m' = m\<lparr>bm_batch := bm_batch m @ [tx], bm_size := bm_size m + length tx\<rparr>"
      "bm_size m + length tx < batch_size (we_parameters e)"
  | (sealed) m1 q where "seal e (m\<lparr>bm_batch := bm_batch m @ [tx], bm_size := bm_size m + length tx\<rparr>) = Ok (m1, q)"
      "m' = bm_reset e now m1" "out = [q]"
  using assms by (auto simp: bm_transaction_def Let_def outcome_map_Ok split: if_splits)

lemma bm_timer_cases:
  assumes "bm_timer e now m = Ok (m', out)"
  obtains (idle) "out = []" "m' = bm_reset e now m"
  | (sealed) m1 q where "bm_batch m \<noteq> []" "seal e m = Ok (m1, q)" "m' = bm_reset e now m1" "out = [q]"
  using assms by (auto simp: bm_timer_def outcome_map_Ok split: if_splits)

lemma link_step_Some:
  "link_step a i m = Some m' \<Longrightarrow> \<exists>c c'. map_of (rs_connections (bm_network m)) a = Some c \<and> connection_step i c = Some c' \<and>
     m' = m\<lparr>bm_network := (bm_network m)\<lparr>rs_connections := AList.update a c' (rs_connections (bm_network m))\<rparr>\<rparr>"
  by (auto simp: link_step_def split: option.splits)

section \<open>Batches\<close>

abbreviation total_length :: "bytes list \<Rightarrow> nat" where
  "total_length txs \<equiv> sum_list (map length txs)"

definition batch_ok :: "worker_env \<Rightarrow> batch \<Rightarrow> bool" where
  "batch_ok e b \<longleftrightarrow> b \<noteq> [] \<and> (butlast b = [] \<or> total_length (butlast b) < batch_size (we_parameters e))"

definition maker_inv :: "worker_env \<Rightarrow> batch_maker \<Rightarrow> bool" where
  "maker_inv e m \<longleftrightarrow> bm_size m = total_length (bm_batch m) \<and>
     (bm_batch m = [] \<or> bm_size m < batch_size (we_parameters e)) \<and> (\<forall>b \<in> set (bm_sealed m). batch_ok e b)"

definition taken :: "worker \<Rightarrow> transaction list" where
  "taken s = concat (bm_sealed (wk_maker s)) @ bm_batch (wk_maker s) @ wk_transactions s"

fun transaction_of :: "worker_event \<Rightarrow> transaction list" where
  "transaction_of (TxFrame bs) = [bs]"
| "transaction_of _ = []"

lemma seal_effect:
  assumes "seal e m = Ok (m', q)"
  shows "bm_batch m' = [] \<and> bm_size m' = 0 \<and> bm_sealed m' = bm_sealed m @ [bm_batch m]"
proof -
  from assms obtain net where
    "m' = m\<lparr>bm_batch := [], bm_size := 0, bm_network := net, bm_sealed := bm_sealed m @ [bm_batch m]\<rparr>"
    unfolding seal_Ok by blast
  then show ?thesis by simp
qed

lemma bm_reset_simps [simp]: "bm_batch (bm_reset e now m) = bm_batch m" "bm_size (bm_reset e now m) = bm_size m"
  "bm_sealed (bm_reset e now m) = bm_sealed m" "bm_network (bm_reset e now m) = bm_network m"
  by (simp_all add: bm_reset_def)

lemma maker_inv_facts:
  assumes "maker_inv e m"
  shows "bm_size m = total_length (bm_batch m)" "bm_batch m = [] \<or> bm_size m < batch_size (we_parameters e)"
    "\<forall>b \<in> set (bm_sealed m). batch_ok e b"
  using assms unfolding maker_inv_def by blast+

lemma bm_transaction_inv:
  assumes "bm_transaction e now tx m = Ok (m', out)" "maker_inv e m"
  shows "maker_inv e m' \<and> concat (bm_sealed m') @ bm_batch m' = concat (bm_sealed m) @ bm_batch m @ [tx]"
  using assms(1)
proof (cases rule: bm_transaction_cases)
  case kept
  with maker_inv_facts [OF assms(2)] show ?thesis by (simp add: maker_inv_def)
next
  case (sealed m1 q)
  have "batch_ok e (bm_batch m @ [tx])" using maker_inv_facts(1,2) [OF assms(2)] by (auto simp: batch_ok_def)
  with seal_effect [OF sealed(1)] sealed(2) maker_inv_facts(3) [OF assms(2)] show ?thesis by (simp add: maker_inv_def)
qed

lemma bm_timer_inv:
  assumes "bm_timer e now m = Ok (m', out)" "maker_inv e m"
  shows "maker_inv e m' \<and> concat (bm_sealed m') @ bm_batch m' = concat (bm_sealed m) @ bm_batch m"
  using assms(1)
proof (cases rule: bm_timer_cases)
  case idle
  with maker_inv_facts [OF assms(2)] show ?thesis by (simp add: maker_inv_def)
next
  case (sealed m1 q)
  have "total_length (butlast (bm_batch m)) \<le> total_length (bm_batch m)"
    using arg_cong [OF append_butlast_last_id [OF sealed(1)], of total_length] by simp
  then have "batch_ok e (bm_batch m)" using maker_inv_facts(1,2) [OF assms(2)] sealed(1) by (auto simp: batch_ok_def)
  with seal_effect [OF sealed(2)] sealed(3) maker_inv_facts(3) [OF assms(2)] show ?thesis by (simp add: maker_inv_def)
qed

lemma worker_step_batches:
  assumes "worker_step e ev s = Some (Ok s')" "maker_inv e (wk_maker s)"
  shows "maker_inv e (wk_maker s') \<and> taken s' = taken s @ transaction_of ev"
proof (cases ev)
  case (MakeBatch now)
  with assms(1) obtain tx txs m out where
    "wk_transactions s = tx # txs" "bm_transaction e now tx (wk_maker s) = Ok (m, out)"
    "s' = s\<lparr>wk_transactions := txs, wk_maker := m, wk_quorum := (wk_quorum s)\<lparr>qw_queue := qw_queue (wk_quorum s) @ out\<rparr>\<rparr>"
    by (auto simp: maker_result_Ok split: list.splits)
  with bm_transaction_inv [OF this(2) assms(2)] MakeBatch show ?thesis by (auto simp: taken_def)
next
  case (BatchTimer now)
  with assms(1) obtain m out where
    "bm_timer e now (wk_maker s) = Ok (m, out)"
    "s' = s\<lparr>wk_maker := m, wk_quorum := (wk_quorum s)\<lparr>qw_queue := qw_queue (wk_quorum s) @ out\<rparr>\<rparr>"
    by (auto simp: maker_result_Ok split: if_splits)
  with bm_timer_inv [OF this(1) assms(2)] BatchTimer show ?thesis by (auto simp: taken_def)
next
  case (LinkEvent a ok ev')
  with assms show ?thesis by (auto simp: taken_def maker_inv_def dest!: link_step_Some)
qed (use assms in \<open>auto simp: taken_def tx_dispatch_def split: option.splits worker_queue.splits list.splits prod.splits
   if_splits worker_synchronizer_event.splits\<close>)

lemma worker_run_batches:
  "worker_run e s evs = Some s' \<Longrightarrow> maker_inv e (wk_maker s) \<Longrightarrow>
     maker_inv e (wk_maker s') \<and> taken s' = taken s @ concat (map transaction_of evs)"
proof (induction evs arbitrary: s)
  case (Cons ev evs)
  then obtain s1 where s1: "worker_step e ev s = Some (Ok s1)" "worker_run e s1 evs = Some s'"
    by (auto split: option.splits outcome.splits)
  from worker_step_batches [OF s1(1) Cons.prems(2)] Cons.IH [OF s1(2)] show ?case by simp
qed simp

text \<open>
  The batches a worker seals, then the open batch, then the channel hold exactly the
  transactions received, in order; no sealed batch is empty, and each would have been below the
  batch size without its last transaction.
\<close>

theorem transactions_in_batches:
  assumes "worker_run e (worker_spawn e st now) evs = Some s"
  shows "concat (bm_sealed (wk_maker s)) @ bm_batch (wk_maker s) @ wk_transactions s = concat (map transaction_of evs) \<and>
    list_all (batch_ok e) (bm_sealed (wk_maker s))"
proof -
  have "maker_inv e (wk_maker (worker_spawn e st now))" by (simp add: maker_inv_def worker_spawn_def bm_start_def)
  from worker_run_batches [OF assms this] show ?thesis
    by (simp add: taken_def worker_spawn_def bm_start_def maker_inv_def list_all_iff)
qed

section \<open>What a worker stores and serves\<close>

definition store_addressed :: "worker_env \<Rightarrow> store \<Rightarrow> bool" where
  "store_addressed e st \<longleftrightarrow> (\<forall>k v. db st k = Some v \<longrightarrow> k = digest_to_vec (batch_digest e v))"

lemma worker_step_addressed:
  "worker_step e ev s = Some (Ok s') \<Longrightarrow> store_addressed e (wk_store s) \<Longrightarrow> store_addressed e (wk_store s')"
  by (cases ev) (auto simp: store_addressed_def processor_step_def Let_def maker_result_Ok
    split: option.splits worker_queue.splits list.splits prod.splits if_splits worker_synchronizer_event.splits)

text \<open>
  What a worker sends for a request of a known authority are, in order, the batches it holds among
  those asked for, and each hashes to the digest it was asked for.
\<close>

theorem batch_replies_exact:
  assumes "worker_run e (worker_spawn e empty_store now) evs = Some s"
    and "worker_of (we_committee e) origin (we_id e) = Ok a"
  shows "map (batch_digest e \<circ> snd) (worker_helper e (\<lambda>_. False) (wk_store s) (ds, origin)) =
    filter (\<lambda>d. db (wk_store s) (digest_to_vec d) \<noteq> None) ds"
proof -
  have "store_addressed e (wk_store (worker_spawn e empty_store now))"
    by (simp add: store_addressed_def worker_spawn_def empty_store_def)
  then have addressed: "store_addressed e (wk_store s)"
    using worker_run_inv [where P = "\<lambda>s. store_addressed e (wk_store s)", OF _ assms(1)] worker_step_addressed by blast
  have "map (batch_digest e \<circ> snd) (batch_replies (\<lambda>_. False) (wk_store s) address ds) =
      filter (\<lambda>d. db (wk_store s) (digest_to_vec d) \<noteq> None) ds" for address
  proof (induction ds)
    case (Cons d ds)
    show ?case
    proof (cases "db (wk_store s) (digest_to_vec d)")
      case (Some v)
      then have "digest_to_vec d = digest_to_vec (batch_digest e v)" using addressed by (simp add: store_addressed_def)
      then have "d = batch_digest e v" by (cases d; cases "batch_digest e v") (simp add: digest_to_vec_def)
      with Some Cons show ?thesis by (simp add: store_read_def db_get_def)
    qed (use Cons in \<open>simp add: store_read_def db_get_def\<close>)
  qed simp
  with assms(2) show ?thesis by (simp add: worker_helper_def)
qed

section \<open>An authority without peers\<close>

definition never_own :: "worker_env \<Rightarrow> worker \<Rightarrow> bool" where
  "never_own e s \<longleftrightarrow> (\<forall>m \<in> set (qw_queue (wk_quorum s)). qm_handlers m = []) \<and> qw_current (wk_quorum s) = None \<and>
     wk_own_batches s = [] \<and> set (wk_digests s) \<union> set (wk_to_primary s) \<subseteq> range (\<lambda>d. ser_digest (we_codec e) (OthersBatch d (we_id e)))"

lemma worker_step_never_own:
  assumes "worker_step e ev s = Some (Ok s')" "worker_peers e = []" "never_own e s"
  shows "never_own e s'"
proof (cases ev)
  case (MakeBatch now)
  with assms show ?thesis
    by (auto simp: maker_result_Ok never_own_def seal_Ok split: list.splits elim!: bm_transaction_cases)
next
  case (BatchTimer now)
  with assms show ?thesis
    by (auto simp: maker_result_Ok never_own_def seal_Ok split: if_splits elim!: bm_timer_cases)
next
  case (Acknowledged h)
  with assms show ?thesis by (auto simp: never_own_def qw_ack_def split: if_splits)
next
  case NextBatch
  with assms show ?thesis by (auto simp: never_own_def qw_next_def split: list.splits if_splits)
qed (use assms in \<open>auto simp: never_own_def processor_step_def Let_def
   split: option.splits worker_queue.splits list.splits prod.splits if_splits worker_synchronizer_event.splits\<close>)

text \<open>
  The quorum waiter checks the stake only when an acknowledgement arrives. When no other authority
  has a worker of this id, none ever does: however much stake the authority has, none of its batches reaches the
  processor, and the primary hears only of batches of others.
\<close>

theorem lone_worker_never_reports:
  assumes "worker_run e (worker_spawn e st now) evs = Some s" "worker_peers e = []"
  shows "wk_own_batches s = [] \<and>
    set (wk_digests s @ wk_to_primary s) \<subseteq> range (\<lambda>d. ser_digest (we_codec e) (OthersBatch d (we_id e)))"
proof -
  have "never_own e (worker_spawn e st now)" by (simp add: never_own_def worker_spawn_def qw_start_def)
  then have "never_own e s"
    using worker_run_inv [where P = "never_own e", OF _ assms(1)] worker_step_never_own [OF _ assms(2)] by blast
  then show ?thesis by (simp add: never_own_def)
qed

section \<open>Requests for missing batches\<close>

lemma sync_missing_none:
  "\<forall>d \<in> set ds. db st (digest_to_vec d) \<noteq> None \<Longrightarrow> sync_missing io st now ds s missing = (s', missing') \<Longrightarrow>
     missing' = missing \<and> ws_sent s' = ws_sent s"
  by (induction io st now ds s missing arbitrary: s' missing' rule: sync_missing.induct)
    (auto simp: store_read_def db_get_def ws_wait_def split: if_splits option.splits outcome.splits)

lemma sync_messages_author:
  "sync_messages c author ms = Ok out \<Longrightarrow> m \<in> set out \<Longrightarrow>
     \<exists>w a ds. worker_of c author w = Ok a \<and> m = ToWorkerOf (primary_to_worker a) (Synchronize ds author) \<and> (w, ds) \<in> set ms"
  by (induction c author ms arbitrary: out rule: sync_messages.induct)
    (auto simp: outcome_map_Ok split: outcome.splits, blast+)

definition requested_digests :: "(socket_addr \<times> worker_message) list \<Rightarrow> digest list" where
  "requested_digests ms = concat (map (\<lambda>(_, m). case m of BatchRequest ds _ \<Rightarrow> ds | _ \<Rightarrow> []) ms)"

lemma ws_message_synchronize:
  assumes "\<forall>d \<in> set ds. db st (digest_to_vec d) \<noteq> None"
  shows "\<exists>sent. ws_sent (ws_message e io st now (Synchronize ds target) s) = ws_sent s @ sent \<and> requested_digests sent = []"
proof -
  obtain s' missing where m: "sync_missing io st now ds s [] = (s', missing)" by fastforce
  from sync_missing_none [OF assms m] m show ?thesis
    by (cases "worker_of (we_committee e) target (we_id e)") (simp_all add: requested_digests_def)
qed

abbreviation all_digests :: "(worker_id \<times> digest list) list \<Rightarrow> digest set" where
  "all_digests sync \<equiv> set (concat (map snd sync))"

lemma all_digests_entry: "all_digests (hm_entry w [] (\<lambda>ds. ds @ [d]) sync) \<subseteq> insert d (all_digests sync)"
proof
  fix x
  assume "x \<in> all_digests (hm_entry w [] (\<lambda>ds. ds @ [d]) sync)"
  then obtain v ds where v: "(v, ds) \<in> set (hm_entry w [] (\<lambda>ds. ds @ [d]) sync)" "x \<in> set ds" by auto
  let ?new = "option_or (map_of sync w) [] @ [d]"
  have "hm_entry w [] (\<lambda>ds. ds @ [d]) sync = AList.update w ?new sync"
    by (simp add: hm_entry_def option_or_def split: option.splits)
  with v(1) set_update_subset [of w ?new sync] have "(v, ds) \<in> insert (w, ?new) (set sync)" by auto
  with v(2) show "x \<in> insert d (all_digests sync)"
    by (cases "map_of sync w") (fastforce simp: option_or_def dest: map_of_SomeD)+
qed

lemma request_batches_subset:
  "request_batches r ms requests sync = (requests', sync') \<Longrightarrow> all_digests sync' \<subseteq> fst ` set ms \<union> all_digests sync"
proof (induction r ms requests sync rule: request_batches.induct)
  case (2 r d w ms requests sync)
  show ?case
  proof (cases "map_of requests d \<noteq> None")
    case True
    with 2 show ?thesis by auto
  next
    case False
    with "2.prems" have
      "request_batches r ms (AList.update d r requests) (hm_entry w [] (\<lambda>ds. ds @ [d]) sync) = (requests', sync')" by simp
    from subset_trans [OF "2.IH"(2) [OF False this] Un_mono [OF subset_refl all_digests_entry]]
    show ?thesis by (simp add: Un_assoc)
  qed
qed simp

text \<open>
  The header waiter of the primary sends the request to fetch the missing batches of a header to the
  worker of the header's author, not to its own worker. An author's worker that holds the
  batches, as it does when the author is honest, then requests nothing from anyone: the batches are not fetched.
\<close>

theorem missing_batches_asked_of_author:
  assumes "hw_sync_batches e missing h s = Ok s'" "ToWorkerOf address m \<in> set (drop (length (hw_sent s)) (hw_sent s'))"
    and "we_name we = h_author h" "\<forall>(d, w) \<in> set missing. db st (digest_to_vec d) \<noteq> None"
  shows "\<exists>w a ds sent. worker_of (he_committee e) (we_name we) w = Ok a \<and> address = primary_to_worker a \<and>
    m = Synchronize ds (we_name we) \<and> set ds \<subseteq> fst ` set missing \<and>
    ws_sent (ws_message we io st now m y) = ws_sent y @ sent \<and> requested_digests sent = []"
proof -
  let ?s = "hw_wait (map (\<lambda>(d, w). payload_key d w) missing) h s"
  obtain requests sync where r: "request_batches (h_round h) missing (hw_batch_requests ?s) [] = (requests, sync)"
    by fastforce
  with assms(1) obtain ms where ms: "sync_messages (he_committee e) (h_author h) sync = Ok ms" "hw_sent s' = hw_sent ?s @ ms"
    by (auto simp: hw_sync_batches_def Let_def outcome_map_Ok)
  with assms(2) have "ToWorkerOf address m \<in> set ms" by (simp add: hw_wait_def)
  from sync_messages_author [OF ms(1) this] obtain w a ds where
    m: "worker_of (he_committee e) (h_author h) w = Ok a" "address = primary_to_worker a" "m = Synchronize ds (h_author h)"
      "(w, ds) \<in> set sync"
    by auto
  from request_batches_subset [OF r] m(4) have ds: "set ds \<subseteq> fst ` set missing" by fastforce
  with assms(4) have "\<forall>d \<in> set ds. db st (digest_to_vec d) \<noteq> None" by fastforce
  from ws_message_synchronize [OF this, of we io now "h_author h" y] m ds assms(3) show ?thesis by metis
qed

end
