(* ===== verification/WorkerQuorum.thy ===== *)
theory WorkerQuorum
  imports WorkerProps
begin

text \<open>
  A batch that a worker reports to its primary as its own has been acknowledged by a quorum. The
  proof follows a cancel handler from the reliable sender to the quorum waiter: the broadcast of
  the \<open>k\<close>-th batch to \<open>n\<close> peers uses the handlers \<open>k * n\<close> to \<open>k * n + n - 1\<close>.
\<close>

section \<open>Handlers and connections\<close>

definition handler_ids :: "connection \<Rightarrow> nat set" where
  "handler_ids c = set (map fst (cn_acks c) @ in_flight c)"

definition acked_at :: "reliable_sender \<Rightarrow> socket_addr \<Rightarrow> nat \<Rightarrow> bool" where
  "acked_at net a h \<longleftrightarrow> (\<exists>c. map_of (rs_connections net) a = Some c \<and> h \<in> fst ` set (cn_acks c))"

text \<open>Every handler in use belongs to the connection \<open>own\<close> gives, and new ones are fresh.\<close>

definition net_ok :: "(nat \<Rightarrow> socket_addr) \<Rightarrow> reliable_sender \<Rightarrow> bool" where
  "net_ok own net \<longleftrightarrow> hm_wf (rs_connections net) \<and>
     (\<forall>a c. map_of (rs_connections net) a = Some c \<longrightarrow> (cn_phase c \<noteq> Up \<longrightarrow> cn_pending c = []) \<and>
        (\<forall>h \<in> handler_ids c. h < rs_handlers net \<and> own h = a))"

lemma acks_grow_sends [simp]: "cn_acks (keep_alive_ends err c) = cn_acks c" "cn_acks (keep_alive_sends dropped ok c) = cn_acks c"
  by (simp_all add: keep_alive_ends_def keep_alive_sends_def Let_def split: prod.splits)

lemma connection_step_acks: "connection_step i c = Some c' \<Longrightarrow> set (cn_acks c) \<subseteq> set (cn_acks c')"
  by (cases "cn_phase c"; cases "ci_event i"; cases "cn_channel c")
    (auto simp: connection_step_def if_up_def split: list.splits option.splits if_splits)

lemma subseq_set: "subseq xs ys \<Longrightarrow> set xs \<subseteq> set ys"
  by (auto elim: list_emb_set)

lemma connection_step_ids:
  assumes "connection_step i c = Some c'" "cn_phase c \<noteq> Up \<longrightarrow> cn_pending c = []"
  shows "handler_ids c' \<subseteq> handler_ids c \<and> (cn_phase c' \<noteq> Up \<longrightarrow> cn_pending c' = [])"
proof -
  have "delivery_inv (map fst (cn_acks c) @ in_flight c) UNIV c" using assms(2) by (simp add: delivery_inv_def)
  from delivery_inv_step [OF assms(1) this] show ?thesis
    unfolding delivery_inv_def handler_ids_def using subseq_set by blast
qed

lemma net_ok_link:
  assumes "net_ok own net" "map_of (rs_connections net) a = Some c" "connection_step i c = Some c'"
  shows "net_ok own (net\<lparr>rs_connections := AList.update a c' (rs_connections net)\<rparr>)"
  using assms connection_step_ids [OF assms(3)] by (auto simp: net_ok_def subset_iff)

lemma acked_at_link:
  assumes "acked_at net b h" "map_of (rs_connections net) a = Some c" "connection_step i c = Some c'"
  shows "acked_at (net\<lparr>rs_connections := AList.update a c' (rs_connections net)\<rparr>) b h"
  using assms connection_step_acks [OF assms(3)] by (auto simp: acked_at_def)

lemma rs_send_effect:
  assumes "rs_send a data net = (net', h)" "net_ok own net" "own (rs_handlers net) = a"
  shows "net_ok own net' \<and> h = rs_handlers net \<and> rs_handlers net' = Suc (rs_handlers net) \<and>
    (\<forall>b g. acked_at net b g \<longrightarrow> acked_at net' b g)"
proof -
  define c where "c = option_or (map_of (rs_connections net) a) (connection_spawn a)"
  let ?h = "rs_handlers net"
  let ?c = "c\<lparr>cn_channel := cn_channel c @ [(data, ?h)]\<rparr>"
  have conns: "map_of (rs_connections net') = (map_of (rs_connections net))(a \<mapsto> ?c)" and wf: "hm_wf (rs_connections net')"
    and h: "h = ?h" "rs_handlers net' = Suc ?h"
    using assms(1,2) by (auto simp: rs_send_def Let_def c_def option_or_def net_ok_def fun_eq_iff map_of_entry split: option.splits)
  have "cn_phase c \<noteq> Up \<longrightarrow> cn_pending c = []" "\<forall>g \<in> handler_ids c. g < ?h \<and> own g = a"
    using assms(2)
    by (auto simp: c_def option_or_def net_ok_def connection_spawn_def handler_ids_def in_flight_def split: option.splits)
  moreover have "handler_ids ?c = insert ?h (handler_ids c)" by (auto simp: handler_ids_def in_flight_def)
  ultimately have "(cn_phase ?c \<noteq> Up \<longrightarrow> cn_pending ?c = []) \<and> (\<forall>g \<in> handler_ids ?c. g < Suc ?h \<and> own g = a)"
    using assms(3) by auto
  then have "net_ok own net'"
    using assms(2) wf unfolding net_ok_def conns h(2) by (auto simp: less_Suc_eq)
  moreover have "acked_at net' b g" if "acked_at net b g" for b g
    using that by (auto simp: acked_at_def conns c_def option_or_def)
  ultimately show ?thesis using h by blast
qed

lemma rs_broadcast_effect:
  "rs_broadcast as data net = (net', hs) \<Longrightarrow> net_ok own net \<Longrightarrow> \<forall>j < length as. own (rs_handlers net + j) = as ! j \<Longrightarrow>
     net_ok own net' \<and> hs = [rs_handlers net ..< rs_handlers net + length as] \<and>
     rs_handlers net' = rs_handlers net + length as \<and> (\<forall>b g. acked_at net b g \<longrightarrow> acked_at net' b g)"
proof (induction as data net arbitrary: net' hs rule: rs_broadcast.induct)
  case (2 a as data net)
  obtain net1 h where s: "rs_send a data net = (net1, h)" by fastforce
  obtain hs1 where b: "rs_broadcast as data net1 = (net', hs1)" "hs = h # hs1"
    using "2.prems"(1) s by (auto split: prod.splits)
  have "own (rs_handlers net) = a" using "2.prems"(3) by (auto dest: spec [of _ 0])
  from rs_send_effect [OF s "2.prems"(2) this] have
    1: "net_ok own net1" "h = rs_handlers net" "rs_handlers net1 = Suc (rs_handlers net)"
      "\<forall>b g. acked_at net b g \<longrightarrow> acked_at net1 b g" by auto
  have "\<forall>j < length as. own (rs_handlers net1 + j) = as ! j"
    using "2.prems"(3) 1(3) by (auto dest: spec [of _ "Suc _"])
  from "2.IH" [OF s [symmetric] refl b(1) 1(1) this] 1 b(2) show ?case by (auto simp: upt_rec)
qed auto

section \<open>The invariant\<close>

abbreviation peer :: "worker_env \<Rightarrow> nat \<Rightarrow> public_key \<times> socket_addr" where
  "peer e i \<equiv> worker_peers e ! i"

abbreviation n_peers :: "worker_env \<Rightarrow> nat" where
  "n_peers e \<equiv> length (worker_peers e)"

definition owner :: "worker_env \<Rightarrow> nat \<Rightarrow> socket_addr" where
  "owner e h = snd (peer e (h mod n_peers e))"

abbreviation serialized_batch :: "worker_env \<Rightarrow> worker \<Rightarrow> nat \<Rightarrow> bytes" where
  "serialized_batch e s k \<equiv> ser_worker (we_codec e) (Batch (bm_sealed (wk_maker s) ! k))"

text \<open>The peers \<open>I\<close> acknowledged the \<open>k\<close>-th batch; their stake and the authority's own.\<close>

definition acked_by :: "worker_env \<Rightarrow> worker \<Rightarrow> nat \<Rightarrow> nat set \<Rightarrow> bool" where
  "acked_by e s k I \<longleftrightarrow> k < length (bm_sealed (wk_maker s)) \<and> I \<subseteq> {..<n_peers e} \<and>
     (\<forall>i \<in> I. acked_at (bm_network (wk_maker s)) (snd (peer e i)) (k * n_peers e + i))"

definition acked_weight :: "worker_env \<Rightarrow> nat set \<Rightarrow> nat" where
  "acked_weight e I = weight_of (we_committee e) (we_name e) + (\<Sum>i\<in>I. weight_of (we_committee e) (fst (peer e i)))"

definition quorate :: "worker_env \<Rightarrow> worker \<Rightarrow> bytes \<Rightarrow> bool" where
  "quorate e s b \<longleftrightarrow> (\<exists>k I. b = serialized_batch e s k \<and> acked_by e s k I \<and>
     unat (quorum_threshold (we_committee e)) \<le> acked_weight e I)"

definition handlers_of :: "worker_env \<Rightarrow> nat \<Rightarrow> (public_key \<times> nat) list" where
  "handlers_of e k = map (\<lambda>i. (fst (peer e i), k * n_peers e + i)) [0 ..< n_peers e]"

definition message_ok :: "worker_env \<Rightarrow> worker \<Rightarrow> quorum_waiter_message \<Rightarrow> bool" where
  "message_ok e s m \<longleftrightarrow> (\<exists>k < length (bm_sealed (wk_maker s)). qm_batch m = serialized_batch e s k \<and> qm_handlers m = handlers_of e k)"

definition awaiting ::
    "worker_env \<Rightarrow> worker \<Rightarrow> bytes \<Rightarrow> (public_key \<times> nat) list \<Rightarrow> stake \<Rightarrow> nat \<Rightarrow> nat set \<Rightarrow> bool" where
  "awaiting e s b rest got k I \<longleftrightarrow> b = serialized_batch e s k \<and> acked_by e s k I \<and>
     set rest \<subseteq> set (handlers_of e k) \<and> (\<forall>i \<in> I. k * n_peers e + i \<notin> snd ` set rest) \<and> unat got \<le> acked_weight e I"

fun current_ok :: "worker_env \<Rightarrow> worker \<Rightarrow> (bytes \<times> (public_key \<times> nat) list \<times> stake) option \<Rightarrow> bool" where
  "current_ok e s None \<longleftrightarrow> True"
| "current_ok e s (Some (b, rest, got)) \<longleftrightarrow> (\<exists>k I. awaiting e s b rest got k I)"

definition reported_ok :: "worker_env \<Rightarrow> worker \<Rightarrow> bytes \<Rightarrow> bool" where
  "reported_ok e s m \<longleftrightarrow> (\<exists>d. m = ser_digest (we_codec e) (OthersBatch d (we_id e))) \<or>
     (\<exists>b. m = ser_digest (we_codec e) (OurBatch (batch_digest e b) (we_id e)) \<and> quorate e s b)"

definition quorum_inv :: "worker_env \<Rightarrow> worker \<Rightarrow> bool" where
  "quorum_inv e s \<longleftrightarrow> net_ok (owner e) (bm_network (wk_maker s)) \<and>
     rs_handlers (bm_network (wk_maker s)) = length (bm_sealed (wk_maker s)) * n_peers e \<and>
     (\<forall>m \<in> set (qw_queue (wk_quorum s)). message_ok e s m) \<and> current_ok e s (qw_current (wk_quorum s)) \<and>
     (\<forall>b \<in> set (wk_own_batches s). quorate e s b) \<and>
     (\<forall>m \<in> set (wk_digests s @ wk_to_primary s). reported_ok e s m)"

text \<open>Sealing more batches and acknowledging more messages keeps what was said.\<close>

definition maker_grows :: "worker \<Rightarrow> worker \<Rightarrow> bool" where
  "maker_grows s s' \<longleftrightarrow> (\<exists>bs. bm_sealed (wk_maker s') = bm_sealed (wk_maker s) @ bs) \<and>
     (\<forall>a h. acked_at (bm_network (wk_maker s)) a h \<longrightarrow> acked_at (bm_network (wk_maker s')) a h)"

lemma maker_grows_same: "wk_maker s' = wk_maker s \<Longrightarrow> maker_grows s s'"
  by (simp add: maker_grows_def)

lemma serialized_grows:
  assumes "k < length (bm_sealed (wk_maker s))" "maker_grows s s'"
  shows "serialized_batch e s' k = serialized_batch e s k" "k < length (bm_sealed (wk_maker s'))"
proof -
  from assms(2) obtain bs where "bm_sealed (wk_maker s') = bm_sealed (wk_maker s) @ bs" by (auto simp: maker_grows_def)
  with assms(1) show "serialized_batch e s' k = serialized_batch e s k" "k < length (bm_sealed (wk_maker s'))"
    by (simp_all add: nth_append)
qed

lemma acked_by_grows:
  assumes "acked_by e s k I" "maker_grows s s'"
  shows "acked_by e s' k I" "serialized_batch e s' k = serialized_batch e s k"
proof -
  have k: "k < length (bm_sealed (wk_maker s))" using assms(1) by (simp add: acked_by_def)
  from serialized_grows [OF k assms(2)] show "serialized_batch e s' k = serialized_batch e s k" by blast
  show "acked_by e s' k I"
    using assms serialized_grows(2) [OF k assms(2)] unfolding acked_by_def maker_grows_def by blast
qed

lemma quorate_grows:
  assumes "quorate e s b" "maker_grows s s'"
  shows "quorate e s' b"
proof -
  from assms(1) obtain k I where q: "b = serialized_batch e s k" "acked_by e s k I"
    "unat (quorum_threshold (we_committee e)) \<le> acked_weight e I"
    unfolding quorate_def by blast
  with acked_by_grows [OF q(2) assms(2)] show ?thesis unfolding quorate_def by metis
qed

lemma message_ok_grows:
  assumes "message_ok e s m" "maker_grows s s'"
  shows "message_ok e s' m"
proof -
  from assms(1) obtain k where k: "k < length (bm_sealed (wk_maker s))" "qm_batch m = serialized_batch e s k"
    "qm_handlers m = handlers_of e k"
    unfolding message_ok_def by blast
  with serialized_grows [OF k(1) assms(2)] show ?thesis unfolding message_ok_def by metis
qed

lemma awaiting_grows:
  assumes "awaiting e s b rest got k I" "maker_grows s s'"
  shows "awaiting e s' b rest got k I"
proof -
  have "acked_by e s k I" using assms(1) by (simp add: awaiting_def)
  from acked_by_grows [OF this assms(2)] assms(1) show ?thesis unfolding awaiting_def by metis
qed

lemma current_ok_grows:
  assumes "current_ok e s x" "maker_grows s s'"
  shows "current_ok e s' x"
proof (cases x)
  case (Some p)
  obtain b rest got where p: "p = (b, rest, got)" by (cases p)
  from assms(1) have "\<exists>k I. awaiting e s b rest got k I" by (simp add: Some p)
  then obtain k I where "awaiting e s b rest got k I" by blast
  from awaiting_grows [OF this assms(2)] show ?thesis unfolding Some p current_ok.simps by blast
qed simp

lemma reported_ok_grows: "reported_ok e s m \<Longrightarrow> maker_grows s s' \<Longrightarrow> reported_ok e s' m"
  unfolding reported_ok_def using quorate_grows by blast

text \<open>A step that leaves the batch maker as it is keeps every part that it does not touch.\<close>

lemma quorum_inv_grows:
  assumes "quorum_inv e s" "maker_grows s s'" "net_ok (owner e) (bm_network (wk_maker s'))"
    and "rs_handlers (bm_network (wk_maker s')) = length (bm_sealed (wk_maker s')) * n_peers e"
    and "\<forall>m \<in> set (qw_queue (wk_quorum s')). m \<in> set (qw_queue (wk_quorum s)) \<or> message_ok e s' m"
    and "qw_current (wk_quorum s') = qw_current (wk_quorum s)" "wk_own_batches s' = wk_own_batches s"
    and "wk_digests s' = wk_digests s" "wk_to_primary s' = wk_to_primary s"
  shows "quorum_inv e s'"
proof -
  from assms(1) have inv:
    "\<forall>m \<in> set (qw_queue (wk_quorum s)). message_ok e s m" "current_ok e s (qw_current (wk_quorum s))"
    "\<forall>b \<in> set (wk_own_batches s). quorate e s b" "\<forall>m \<in> set (wk_digests s @ wk_to_primary s). reported_ok e s m"
    by (simp_all add: quorum_inv_def)
  have "\<forall>m \<in> set (qw_queue (wk_quorum s')). message_ok e s' m"
    using inv(1) assms(5) message_ok_grows [OF _ assms(2)] by blast
  moreover have "\<forall>b \<in> set (wk_own_batches s). quorate e s' b" using inv(3) quorate_grows [OF _ assms(2)] by blast
  moreover have "\<forall>m \<in> set (wk_digests s @ wk_to_primary s). reported_ok e s' m"
    using inv(4) reported_ok_grows [OF _ assms(2)] by blast
  ultimately show ?thesis
    unfolding quorum_inv_def assms(6-9) using assms(3,4) current_ok_grows [OF inv(2) assms(2)]
    by (intro conjI)
qed

lemma seal_grows:
  assumes "seal e m = Ok (m', q)" "net_ok (owner e) (bm_network m)"
    and "rs_handlers (bm_network m) = length (bm_sealed m) * n_peers e" "s' = s\<lparr>wk_maker := m'\<rparr>"
    and "bm_network (wk_maker s) = bm_network m" "bm_sealed (wk_maker s) = bm_sealed m"
  shows "net_ok (owner e) (bm_network m') \<and> rs_handlers (bm_network m') = length (bm_sealed m') * n_peers e \<and>
    maker_grows s s' \<and> message_ok e s' q"
proof -
  let ?as = "map snd (worker_peers e)" and ?data = "ser_worker (we_codec e) (Batch (bm_batch m))"
  from assms(1) obtain net hs where b: "rs_broadcast ?as ?data (bm_network m) = (net, hs)"
    and m': "m' = m\<lparr>bm_batch := [], bm_size := 0, bm_network := net, bm_sealed := bm_sealed m @ [bm_batch m]\<rparr>"
    and q: "q = \<lparr> qm_batch = ?data, qm_handlers = zip (map fst (worker_peers e)) hs \<rparr>"
    unfolding seal_Ok by blast
  have "\<forall>j < length ?as. owner e (rs_handlers (bm_network m) + j) = ?as ! j"
    by (simp add: assms(3) owner_def)
  from rs_broadcast_effect [OF b assms(2) this] have
    net: "net_ok (owner e) net" "hs = [rs_handlers (bm_network m) ..< rs_handlers (bm_network m) + n_peers e]"
      "rs_handlers net = rs_handlers (bm_network m) + n_peers e"
      "\<forall>a h. acked_at (bm_network m) a h \<longrightarrow> acked_at net a h"
    by simp_all
  have "zip (map fst (worker_peers e)) hs = handlers_of e (length (bm_sealed m))"
    by (rule nth_equalityI) (simp_all add: net(2) assms(3) handlers_of_def)
  then have "message_ok e s' q"
    unfolding message_ok_def by (intro exI [of _ "length (bm_sealed m)"]) (simp add: q assms(4) m')
  moreover have "maker_grows s s'" using net(4) by (simp add: maker_grows_def assms(4-6) m')
  ultimately show ?thesis using net(1,3) assms(3) by (simp add: m')
qed

text \<open>The steps of the batch maker.\<close>

lemma quorum_inv_maker:
  assumes "quorum_inv e s" "maker_result s1 r = Ok s'" "s1 = s\<lparr>wk_transactions := txs\<rparr>"
    and "r = bm_transaction e now tx (wk_maker s) \<or> r = bm_timer e now (wk_maker s)"
  shows "quorum_inv e s'"
proof -
  obtain m' out where r: "r = Ok (m', out)" and s': "s' = s1\<lparr>wk_maker := m',
      wk_quorum := (wk_quorum s1)\<lparr>qw_queue := qw_queue (wk_quorum s1) @ out\<rparr>\<rparr>"
    using assms(2) unfolding maker_result_Ok by blast
  have inv: "net_ok (owner e) (bm_network (wk_maker s))"
    "rs_handlers (bm_network (wk_maker s)) = length (bm_sealed (wk_maker s)) * n_peers e"
    using assms(1) by (simp_all add: quorum_inv_def)
  consider (kept) "out = []" "bm_network m' = bm_network (wk_maker s)" "bm_sealed m' = bm_sealed (wk_maker s)"
    | (sealed) m m1 q where "seal e m = Ok (m1, q)" "out = [q]" "bm_network m' = bm_network m1" "bm_sealed m' = bm_sealed m1"
        "bm_network m = bm_network (wk_maker s)" "bm_sealed m = bm_sealed (wk_maker s)"
  proof -
    from assms(4) r consider "bm_transaction e now tx (wk_maker s) = Ok (m', out)" | "bm_timer e now (wk_maker s) = Ok (m', out)"
      by auto
    then show thesis
    proof cases
      case 1
      then show thesis
      proof (cases rule: bm_transaction_cases)
        case kept
        then show thesis by (intro that(1)) simp_all
      next
        case (sealed m1 q)
        then show thesis by (intro that(2) [OF sealed(1)]) simp_all
      qed
    next
      case 2
      then show thesis
      proof (cases rule: bm_timer_cases)
        case idle
        then show thesis by (intro that(1)) simp_all
      next
        case (sealed m1 q)
        then show thesis by (intro that(2) [OF sealed(2)]) simp_all
      qed
    qed
  qed
  then show ?thesis
  proof cases
    case kept
    then show ?thesis
      using inv by (intro quorum_inv_grows [OF assms(1)]) (simp_all add: s' assms(3) maker_grows_def)
  next
    case sealed
    from seal_grows [OF sealed(1) inv [folded sealed(5,6)] refl sealed(5,6) [symmetric]] have
      g: "net_ok (owner e) (bm_network m1)" "rs_handlers (bm_network m1) = length (bm_sealed m1) * n_peers e"
        "maker_grows s (s\<lparr>wk_maker := m1\<rparr>)" "message_ok e (s\<lparr>wk_maker := m1\<rparr>) q"
      by blast+
    have "maker_grows s s'" using g(3) sealed(3,4) by (simp add: maker_grows_def s')
    moreover have "message_ok e s' q" using g(4) sealed(4) by (simp add: message_ok_def s')
    moreover have "net_ok (owner e) (bm_network (wk_maker s'))"
      "rs_handlers (bm_network (wk_maker s')) = length (bm_sealed (wk_maker s')) * n_peers e"
      using g(1,2) sealed(3,4) by (simp_all add: s')
    moreover have "qw_queue (wk_quorum s') = qw_queue (wk_quorum s) @ [q]" by (simp add: s' assms(3) sealed(2))
    moreover have "qw_current (wk_quorum s') = qw_current (wk_quorum s)" "wk_own_batches s' = wk_own_batches s"
      "wk_digests s' = wk_digests s" "wk_to_primary s' = wk_to_primary s"
      by (simp_all add: s' assms(3))
    ultimately show ?thesis by (intro quorum_inv_grows [OF assms(1)]) simp_all
  qed
qed

text \<open>Its connections.\<close>

lemma quorum_inv_link:
  assumes "quorum_inv e s" "link_step a i (wk_maker s) = Some m"
  shows "quorum_inv e (s\<lparr>wk_maker := m\<rparr>)"
proof -
  from link_step_Some [OF assms(2)] obtain c c' where
    c: "map_of (rs_connections (bm_network (wk_maker s))) a = Some c" "connection_step i c = Some c'"
      "m = (wk_maker s)\<lparr>bm_network := (bm_network (wk_maker s))\<lparr>rs_connections :=
         AList.update a c' (rs_connections (bm_network (wk_maker s)))\<rparr>\<rparr>"
    by blast
  have inv: "net_ok (owner e) (bm_network (wk_maker s))"
    "rs_handlers (bm_network (wk_maker s)) = length (bm_sealed (wk_maker s)) * n_peers e"
    using assms(1) by (simp_all add: quorum_inv_def)
  have "maker_grows s (s\<lparr>wk_maker := m\<rparr>)"
    using acked_at_link [OF _ c(1,2)] by (simp add: maker_grows_def c(3))
  moreover have "net_ok (owner e) (bm_network m)" using net_ok_link [OF inv(1) c(1,2)] by (simp add: c(3))
  ultimately show ?thesis using inv(2) by (intro quorum_inv_grows [OF assms(1)]) (simp_all add: c(3))
qed

text \<open>The quorum waiter: it starts with the stake of its own authority and adds that of each acknowledgement.\<close>

lemma weight_own: "unat (stake_of (we_committee e) (we_name e)) \<le> acked_weight e {}"
  by (simp add: acked_weight_def weight_of_def)

lemma quorum_inv_next:
  assumes "quorum_inv e s" "qw_next e (wk_quorum s) = Some q"
  shows "quorum_inv e (s\<lparr>wk_quorum := q\<rparr>)"
proof -
  from assms(2) obtain m ms where m: "qw_queue (wk_quorum s) = m # ms"
    and q: "q = (wk_quorum s)\<lparr>qw_queue := ms, qw_current :=
        if qm_handlers m = [] then None else Some (qm_batch m, qm_handlers m, stake_of (we_committee e) (we_name e))\<rparr>"
    by (auto simp: qw_next_def split: option.splits list.splits)
  let ?s = "s\<lparr>wk_quorum := q\<rparr>"
  have grows: "maker_grows s ?s" by (simp add: maker_grows_same)
  from assms(1) m have "message_ok e s m" by (simp add: quorum_inv_def)
  then obtain k where k: "k < length (bm_sealed (wk_maker s))" "qm_batch m = serialized_batch e s k" "qm_handlers m = handlers_of e k"
    unfolding message_ok_def by blast
  then have "awaiting e ?s (qm_batch m) (qm_handlers m) (stake_of (we_committee e) (we_name e)) k {}"
    using weight_own [of e] by (simp add: awaiting_def acked_by_def)
  then have "current_ok e ?s (Some (qm_batch m, qm_handlers m, stake_of (we_committee e) (we_name e)))"
    unfolding current_ok.simps by blast
  then have "current_ok e ?s (qw_current q)" by (cases "qm_handlers m = []") (simp_all add: q)
  moreover have "\<forall>m \<in> set (qw_queue q). message_ok e ?s m"
    using assms(1) message_ok_grows [OF _ grows] by (simp add: q m quorum_inv_def)
  moreover have "\<forall>b \<in> set (wk_own_batches s). quorate e ?s b" "\<forall>m \<in> set (wk_digests s @ wk_to_primary s). reported_ok e ?s m"
    using assms(1) quorate_grows [OF _ grows] reported_ok_grows [OF _ grows] by (simp_all add: quorum_inv_def)
  ultimately show ?thesis using assms(1) by (simp add: quorum_inv_def)
qed

lemma unat_add_le: "unat (a + b) \<le> unat a + unat (b :: 'a::len word)"
  by (simp add: unat_word_ariths)

lemma awaiting_ack:
  assumes "awaiting e s b rest got k I" "(name, h) \<in> set rest" "net_ok (owner e) (bm_network (wk_maker s))"
    and "h \<in> acknowledged (bm_network (wk_maker s))"
  shows "\<exists>J. awaiting e s b (filter (\<lambda>(_, g). g \<noteq> h) rest) (got + stake_of (we_committee e) name) k J"
proof -
  from assms(1) have facts: "acked_by e s k I" "set rest \<subseteq> set (handlers_of e k)" "\<forall>i \<in> I. k * n_peers e + i \<notin> snd ` set rest"
    "unat got \<le> acked_weight e I" "b = serialized_batch e s k"
    by (simp_all add: awaiting_def)
  from facts(2) assms(2) obtain i where i: "i < n_peers e" "name = fst (peer e i)" "h = k * n_peers e + i"
    by (auto simp: handlers_of_def)
  have mod: "h mod n_peers e = i" using i by simp
  have new: "i \<notin> I" using facts(3) i(3) assms(2) by force
  obtain a c where c: "(a, c) \<in> set (rs_connections (bm_network (wk_maker s)))" "h \<in> fst ` set (cn_acks c)"
    using assms(4) by (auto simp: acknowledged_def)
  then have conn: "map_of (rs_connections (bm_network (wk_maker s))) a = Some c"
    using assms(3) map_of_in_set by (fastforce simp: net_ok_def)
  have "h \<in> handler_ids c" using c(2) by (auto simp: handler_ids_def)
  with assms(3) conn have "owner e h = a" by (auto simp: net_ok_def)
  with mod have "a = snd (peer e i)" by (simp add: owner_def)
  with conn c(2) have acked: "acked_at (bm_network (wk_maker s)) (snd (peer e i)) (k * n_peers e + i)"
    by (auto simp: acked_at_def i(3))
  have more: "acked_by e s k (insert i I)" using facts(1) acked i(1) by (simp add: acked_by_def)
  have "finite I" using facts(1) by (auto simp: acked_by_def intro: finite_subset)
  then have "acked_weight e (insert i I) = acked_weight e I + unat (stake_of (we_committee e) name)"
    using new i(2) by (simp add: acked_weight_def weight_of_def)
  then have "unat (got + stake_of (we_committee e) name) \<le> acked_weight e (insert i I)"
    using unat_add_le [of got "stake_of (we_committee e) name"] facts(4) by linarith
  moreover have "\<forall>j \<in> insert i I. k * n_peers e + j \<notin> snd ` set (filter (\<lambda>(_, g). g \<noteq> h) rest)"
    using facts(3) i(3) by auto
  moreover have "set (filter (\<lambda>(_, g). g \<noteq> h) rest) \<subseteq> set (handlers_of e k)" using facts(2) by auto
  ultimately have "awaiting e s b (filter (\<lambda>(_, g). g \<noteq> h) rest) (got + stake_of (we_committee e) name) k (insert i I)"
    unfolding awaiting_def using more facts(5) by (intro conjI)
  then show ?thesis ..
qed

lemma quorum_inv_ack:
  assumes "quorum_inv e s" "h \<in> acknowledged (bm_network (wk_maker s))" "qw_ack e h (wk_quorum s) = Some (q, out)"
  shows "quorum_inv e (s\<lparr>wk_quorum := q, wk_own_batches := wk_own_batches s @ out\<rparr>)"
proof -
  let ?s = "s\<lparr>wk_quorum := q, wk_own_batches := wk_own_batches s @ out\<rparr>"
  from assms(3) obtain b rest got where cur: "qw_current (wk_quorum s) = Some (b, rest, got)"
    by (cases "qw_current (wk_quorum s)") (auto simp: qw_ack_def)
  with assms(3) obtain name h' where f: "find (\<lambda>(_, g). g = h) rest = Some (name, h')"
    by (cases "find (\<lambda>(_, g). g = h) rest") (auto simp: qw_ack_def)
  then have in_rest: "(name, h) \<in> set rest" by (auto simp: find_Some_iff in_set_conv_nth)
  let ?rest = "filter (\<lambda>(_, g). g \<noteq> h) rest" and ?got = "got + stake_of (we_committee e) name"
  have inv: "net_ok (owner e) (bm_network (wk_maker s))" "current_ok e s (Some (b, rest, got))"
    "\<forall>m \<in> set (qw_queue (wk_quorum s)). message_ok e s m" "\<forall>b \<in> set (wk_own_batches s). quorate e s b"
    "\<forall>m \<in> set (wk_digests s @ wk_to_primary s). reported_ok e s m"
    using assms(1) cur by (simp_all add: quorum_inv_def)
  from inv(2) obtain k I where "awaiting e s b rest got k I" unfolding current_ok.simps by blast
  from awaiting_ack [OF this in_rest inv(1) assms(2)] obtain J where J: "awaiting e s b ?rest ?got k J" by blast
  have grows: "maker_grows s ?s" by (simp add: maker_grows_same)
  have result: "qw_queue q = qw_queue (wk_quorum s) \<and> (if quorum_threshold (we_committee e) \<le> ?got
      then qw_current q = None \<and> out = [b]
      else (qw_current q = None \<or> qw_current q = Some (b, ?rest, ?got)) \<and> out = [])"
    using assms(3) f by (auto simp: qw_ack_def cur Let_def split: if_splits)
  have "quorate e s b" if "quorum_threshold (we_committee e) \<le> ?got"
  proof -
    from J have "unat ?got \<le> acked_weight e J" "b = serialized_batch e s k" "acked_by e s k J" by (simp_all add: awaiting_def)
    moreover have "unat (quorum_threshold (we_committee e)) \<le> unat ?got" using that by (simp add: word_le_nat_alt)
    ultimately show ?thesis unfolding quorate_def by (intro exI [of _ k] exI [of _ J]) simp
  qed
  then have "\<forall>b \<in> set out. quorate e s b" using result by (auto split: if_splits)
  then have "\<forall>b \<in> set (wk_own_batches s @ out). quorate e ?s b"
    using inv(4) quorate_grows [OF _ grows] by auto
  moreover have "current_ok e s (Some (b, ?rest, ?got))" unfolding current_ok.simps using J by blast
  then have c: "current_ok e ?s (Some (b, ?rest, ?got))" by (rule current_ok_grows [OF _ grows])
  have "qw_current q = None \<or> qw_current q = Some (b, ?rest, ?got)" using result by (simp split: if_splits)
  then have "current_ok e ?s (qw_current q)"
  proof
    assume "qw_current q = Some (b, ?rest, ?got)"
    with c show ?thesis by (simp only:)
  qed simp
  moreover have "\<forall>m \<in> set (qw_queue q). message_ok e ?s m" using result inv(3) message_ok_grows [OF _ grows] by simp
  moreover have "\<forall>m \<in> set (wk_digests s @ wk_to_primary s). reported_ok e ?s m" using inv(5) reported_ok_grows [OF _ grows] by blast
  ultimately show ?thesis using assms(1) by (simp add: quorum_inv_def)
qed

lemma quorum_inv_rest:
  assumes "quorum_inv e s" "wk_maker s' = wk_maker s" "wk_quorum s' = wk_quorum s"
    and "set (wk_own_batches s') \<subseteq> set (wk_own_batches s)"
    and "\<forall>m \<in> set (wk_digests s' @ wk_to_primary s'). m \<in> set (wk_digests s @ wk_to_primary s) \<or> reported_ok e s m"
  shows "quorum_inv e s'"
proof -
  have grows: "maker_grows s s'" using assms(2) by (rule maker_grows_same)
  have inv: "current_ok e s (qw_current (wk_quorum s))" "\<forall>m \<in> set (qw_queue (wk_quorum s)). message_ok e s m"
    "\<forall>b \<in> set (wk_own_batches s). quorate e s b" "\<forall>m \<in> set (wk_digests s @ wk_to_primary s). reported_ok e s m"
    "net_ok (owner e) (bm_network (wk_maker s'))"
    "rs_handlers (bm_network (wk_maker s')) = length (bm_sealed (wk_maker s')) * n_peers e"
    using assms(1,2) by (simp_all add: quorum_inv_def)
  have "\<forall>m \<in> set (wk_digests s' @ wk_to_primary s'). reported_ok e s' m"
    using inv(4) assms(5) reported_ok_grows [OF _ grows] by blast
  moreover have "\<forall>b \<in> set (wk_own_batches s'). quorate e s' b" using inv(3) assms(4) quorate_grows [OF _ grows] by blast
  moreover have "\<forall>m \<in> set (qw_queue (wk_quorum s')). message_ok e s' m"
    unfolding assms(3) using inv(2) message_ok_grows [OF _ grows] by blast
  moreover have "current_ok e s' (qw_current (wk_quorum s'))" unfolding assms(3) by (rule current_ok_grows [OF inv(1) grows])
  ultimately show ?thesis unfolding quorum_inv_def using inv(5,6) by (intro conjI)
qed

lemma worker_step_quorum:
  assumes "worker_step e ev s = Some (Ok s')" "quorum_inv e s"
  shows "quorum_inv e s'"
proof (cases ev)
  case (MakeBatch now)
  with assms(1) obtain tx txs where "maker_result (s\<lparr>wk_transactions := txs\<rparr>) (bm_transaction e now tx (wk_maker s)) = Ok s'"
    by (auto split: list.splits)
  from quorum_inv_maker [OF assms(2) this] show ?thesis by blast
next
  case (BatchTimer now)
  with assms(1) have "maker_result (s\<lparr>wk_transactions := wk_transactions s\<rparr>) (bm_timer e now (wk_maker s)) = Ok s'"
    by (auto split: if_splits)
  from quorum_inv_maker [OF assms(2) this] show ?thesis by blast
next
  case (LinkEvent a ok ev')
  with assms quorum_inv_link show ?thesis by auto
next
  case NextBatch
  with assms quorum_inv_next show ?thesis by auto
next
  case (Acknowledged h)
  with assms quorum_inv_ack show ?thesis by (auto split: if_splits)
next
  case ProcessOwn
  with assms(1) obtain b bs where b: "wk_own_batches s = b # bs" and s': "s' = s\<lparr>wk_store := store_write (wk_store s) (digest_to_vec (batch_digest e b)) b, wk_own_batches := bs,
      wk_digests := wk_digests s @ [ser_digest (we_codec e) (OurBatch (batch_digest e b) (we_id e))]\<rparr>"
    by (auto simp: processor_step_def Let_def split: list.splits)
  have "quorate e s b" using assms(2) b by (simp add: quorum_inv_def)
  then have "reported_ok e s (ser_digest (we_codec e) (OurBatch (batch_digest e b) (we_id e)))"
    unfolding reported_ok_def by blast
  then show ?thesis by (intro quorum_inv_rest [OF assms(2)]) (auto simp: s' b)
next
  case ProcessOther
  with assms(1) obtain b bs where s': "s' = s\<lparr>wk_store := store_write (wk_store s) (digest_to_vec (batch_digest e b)) b, wk_other_batches := bs,
      wk_digests := wk_digests s @ [ser_digest (we_codec e) (OthersBatch (batch_digest e b) (we_id e))]\<rparr>"
    by (auto simp: processor_step_def Let_def split: list.splits)
  have "reported_ok e s (ser_digest (we_codec e) (OthersBatch (batch_digest e b) (we_id e)))" unfolding reported_ok_def by blast
  then show ?thesis using s' by (intro quorum_inv_rest [OF assms(2)]) auto
next
  case Report
  with assms(1) obtain d ds where "wk_digests s = d # ds" "s' = s\<lparr>wk_digests := ds, wk_to_primary := wk_to_primary s @ [d]\<rparr>"
    by (auto split: list.splits)
  then show ?thesis by (intro quorum_inv_rest [OF assms(2)]) auto
qed (use assms in \<open>auto intro!: quorum_inv_rest [OF assms(2)] split: option.splits worker_queue.splits list.splits
   worker_synchronizer_event.splits\<close>)

lemma worker_run_quorum:
  assumes "worker_run e (worker_spawn e st now) evs = Some s"
  shows "quorum_inv e s"
proof -
  have "quorum_inv e (worker_spawn e st now)"
    by (simp add: quorum_inv_def worker_spawn_def bm_start_def rs_new_def qw_start_def net_ok_def)
  with worker_run_inv [where P = "quorum_inv e", OF _ assms] worker_step_quorum show ?thesis by blast
qed

text \<open>
  C39: when a worker tells its primary that a batch is its own, it has sealed that batch, and peers
  that together with its own authority carry a quorum of the stake have acknowledged it, each over
  the connection to its address.
\<close>

theorem own_batches_have_quorum:
  assumes "worker_run e (worker_spawn e st now) evs = Some s" "inj (ser_digest (we_codec e))"
    and "ser_digest (we_codec e) (OurBatch d (we_id e)) \<in> set (wk_to_primary s)"
  shows "\<exists>k I. d = batch_digest e (serialized_batch e s k) \<and> acked_by e s k I \<and>
    unat (quorum_threshold (we_committee e)) \<le> acked_weight e I"
proof -
  have "reported_ok e s (ser_digest (we_codec e) (OurBatch d (we_id e)))"
    using worker_run_quorum [OF assms(1)] assms(3) by (simp add: quorum_inv_def)
  then obtain b where "d = batch_digest e b" "quorate e s b"
    using assms(2) by (auto simp: reported_ok_def dest: injD)
  then show ?thesis unfolding quorate_def by blast
qed

end
