(* ===== verification/CoreProps.thy ===== *)
theory CoreProps
  imports CoreRules
begin

text \<open>
  What the core guarantees (primary/src/core.rs): every event is handled, one vote per round and
  author until the round is garbage-collected, votes only for headers whose parents and payload
  are there, and certificates handed to the consensus in causal order.
\<close>

text \<open>
  C33: whatever arrives in whatever state, the three mutually recursive
  handlers return: the fuel \<open>core_fuel\<close> is never spent.
\<close>

theorem core_handle_returns: "core_handle e io ev s \<noteq> None"
proof -
  have fuel: "core_fuel = Suc (Suc (Suc (Suc (Suc (Suc (Suc (Suc 0)))))))" by (simp add: core_fuel_def)
  have "returns (core_handle e io ev) s"
  proof (cases ev)
    case (FromPrimaries m)
    show ?thesis
      by (cases m)
        (simp_all add: FromPrimaries wp_rules fuel header_returns vote_returns certificate_returns
          del: process_header.simps process_vote.simps process_certificate.simps split: outcome.splits)
  qed (simp_all add: fuel process_own_header_def wp_rules header_returns certificate_returns
        del: process_header.simps process_vote.simps process_certificate.simps)
  then show ?thesis by (simp add: wp_def split: option.splits)
qed

section \<open>One vote per round and author\<close>

text \<open>The votes of round \<open>r\<close> for the author \<open>k\<close> that were sent out.\<close>

fun is_vote :: "round \<Rightarrow> public_key \<Rightarrow> core_output \<Rightarrow> bool" where
  "is_vote r k (SendTo (VoteMessage v) a) \<longleftrightarrow> v_round v = r \<and> v_origin v = k"
| "is_vote r k _ \<longleftrightarrow> False"

definition votes_sent :: "round \<Rightarrow> public_key \<Rightarrow> core_state \<Rightarrow> nat" where
  "votes_sent r k s = length (filter (is_vote r k) (outputs s))"

definition voted_once :: "round \<Rightarrow> public_key \<Rightarrow> core_state \<Rightarrow> bool" where
  "voted_once r k s \<longleftrightarrow> votes_sent r k s \<le> (if k \<in> set_of_round (last_voted s) r then 1 else 0)"

lemma set_of_round_entry:
  "set_of_round (hm_entry r {} f m) r' = (if r' = r then f (set_of_round m r) else set_of_round m r')"
  by (cases "map_of m r") (simp_all add: set_of_round_def map_of_entry)

lemma set_of_round_retain:
  assumes "P r"
  shows "set_of_round (hm_retain (\<lambda>k _. P k) m) r = set_of_round m r"
proof -
  have "map_of (filter (\<lambda>(k, v). P k) m) r = map_of m r"
    by (induction m) (use assms in auto)
  then show ?thesis by (simp add: set_of_round_def hm_retain_def)
qed

lemma quiet_no_votes: "\<forall>m \<in> set ms. quiet m \<Longrightarrow> filter (is_vote r k) ms = []"
proof -
  have "quiet m \<Longrightarrow> \<not> is_vote r k m" for m
    by (cases m rule: quiet.cases) simp_all
  then show "\<forall>m \<in> set ms. quiet m \<Longrightarrow> filter (is_vote r k) ms = []" by (simp add: filter_empty_conv)
qed

interpretation voting: core_invariant e "voted_once r k" "\<lambda>_. True" "\<lambda>cr. cr \<le> r + ce_gc_depth e"
  for e r k
proof unfold_locales
  fix s cr
  assume "voted_once r k s" "cr \<le> r + ce_gc_depth e"
  then show "voted_once r k (core_cleanup e cr s)"
    using set_of_round_retain [of "\<lambda>x. cr - ce_gc_depth e \<le> x" r "last_voted s"]
    by (auto simp: voted_once_def votes_sent_def core_cleanup_def Let_def)
qed (auto simp: voted_once_def votes_sent_def set_of_round_entry quiet_no_votes split: if_splits)

text \<open>
  C29: in every run of the core, at most one vote leaves for the headers of one author
  and round, as long as no consensus round is read that garbage-collects the round.
\<close>

theorem votes_once:
  assumes "core_run e (core_start st) evs = Some s"
    and "\<forall>i \<in> set evs. input_ok (\<lambda>cr. cr \<le> r + ce_gc_depth e) (\<lambda>_. True) i"
  shows "votes_sent r k s \<le> 1"
proof -
  have "voted_once r k (core_start st)"
    by (simp add: voted_once_def votes_sent_def core_start_def)
  then have "voted_once r k s" using voting.run_keeps [OF assms(1) _ assms(2)] by simp
  then show ?thesis by (simp add: voted_once_def split: if_splits)
qed

section \<open>Votes only for headers that are backed\<close>

text \<open>Every certificate in the store lies under its digest.\<close>

definition store_sound :: "core_env \<Rightarrow> store \<Rightarrow> bool" where
  "store_sound e st \<longleftrightarrow> (\<forall>k bs x. db st k = Some bs \<longrightarrow> de_cert (ce_codec e) bs = Some x \<longrightarrow>
     k = digest_to_vec (cert_digest (ce_crypto e) x))"

text \<open>
  What a vote must rest on: a stored header with the id, round and author voted for; certificates
  for all its parents, each in the genesis or in the store, all of the round before and with a
  quorum of stake; and its payload in the store, unless the header is our own.
\<close>

definition vote_backed :: "core_env \<Rightarrow> store \<Rightarrow> vote \<Rightarrow> bool" where
  "vote_backed e st v \<longleftrightarrow> (\<exists>(h :: header) ps. v_id v = h_id h \<and> v_round v = h_round h \<and> v_origin v = h_author h \<and>
     db st (digest_to_vec (h_id h)) \<noteq> None \<and>
     map (cert_digest (ce_crypto e)) ps = h_parents h \<and>
     (\<forall>x \<in> set ps. u64_add (cert_round x) 1 = h_round h \<and>
        (x \<in> set (genesis (ce_committee e)) \<or> db st (digest_to_vec (cert_digest (ce_crypto e) x)) \<noteq> None)) \<and>
     quorum_threshold (ce_committee e) \<le> sum_list (map (stake_of (ce_committee e) \<circ> cert_origin) ps) \<and>
     (h_author h \<noteq> ce_name e \<longrightarrow> (\<forall>d w. (d, w) \<in> set (h_payload h) \<longrightarrow> db st (payload_key d w) \<noteq> None)))"

lemma vote_backed_mono:
  assumes "vote_backed e st v" "\<And>k. db st k \<noteq> None \<Longrightarrow> db st' k \<noteq> None"
  shows "vote_backed e st' v"
proof -
  from assms(1) [unfolded vote_backed_def] obtain h :: header and ps where
    *: "v_id v = h_id h" "v_round v = h_round h" "v_origin v = h_author h"
      "db st (digest_to_vec (h_id h)) \<noteq> None" "map (cert_digest (ce_crypto e)) ps = h_parents h"
      "\<forall>x \<in> set ps. u64_add (cert_round x) 1 = h_round h \<and>
        (x \<in> set (genesis (ce_committee e)) \<or> db st (digest_to_vec (cert_digest (ce_crypto e) x)) \<noteq> None)"
      "quorum_threshold (ce_committee e) \<le> sum_list (map (stake_of (ce_committee e) \<circ> cert_origin) ps)"
      "h_author h \<noteq> ce_name e \<longrightarrow> (\<forall>d w. (d, w) \<in> set (h_payload h) \<longrightarrow> db st (payload_key d w) \<noteq> None)"
    by blast
  show ?thesis
    unfolding vote_backed_def using * assms(2) by (intro exI [of _ h] exI [of _ ps]) blast
qed

lemma parents_stake_Ok:
  "parents_stake c h ps n = Ok m \<Longrightarrow>
     (\<forall>x \<in> set ps. u64_add (cert_round x) 1 = h_round h) \<and> m = n + sum_list (map (stake_of c \<circ> cert_origin) ps)"
  by (induction c h ps n rule: parents_stake.induct) (auto simp: add.assoc)

lemma collect_parents_found:
  "collect_parents cd g io s ds missing parents = Ok (missing, ps) \<Longrightarrow>
     \<exists>qs. ps = parents @ qs \<and> list_all2 (\<lambda>d x. (d, x) \<in> set g \<or>
       (\<exists>bs. db s (digest_to_vec d) = Some bs \<and> de_cert cd bs = Some x)) ds qs"
proof (induction ds arbitrary: parents)
  case Nil
  then show ?case by simp
next
  case (Cons d ds)
  show ?case
  proof (cases "find (\<lambda>(x, _). x = d) g")
    case (Some p)
    obtain y x where p: "p = (y, x)" by (cases p)
    with Some have "(d, x) \<in> set g" by (auto simp: find_Some_iff) (metis nth_mem)
    moreover have "collect_parents cd g io s ds missing (parents @ [x]) = Ok (missing, ps)"
      using Cons.prems Some p by simp
    ultimately show ?thesis using Cons.IH [of "parents @ [x]"] by force
  next
    case None
    show ?thesis
    proof (cases "db s (digest_to_vec d)")
      case None': None
      with Cons.prems None have "collect_parents cd g io s ds (missing @ [d]) parents = Ok (missing, ps)" by simp
      from collect_parents_missing [OF this] show ?thesis by simp
    next
      case (Some bs)
      with Cons.prems None obtain x where x: "de_cert cd bs = Some x"
        "collect_parents cd g io s ds missing (parents @ [x]) = Ok (missing, ps)"
        by (auto split: option.splits)
      with Cons.IH [OF x(2)] Some show ?thesis by force
    qed
  qed
qed

lemma votable_backed:
  assumes "votable e st h" "store_sound e st"
    and "v_id v = h_id h" "v_round v = h_round h" "v_origin v = h_author h"
  shows "vote_backed e (store_write st (digest_to_vec (h_id h)) bs) v"
proof -
  from assms(1) obtain io ps stake where
    ps: "get_parents (ce_codec e) (ce_genesis e) io st h = Ok (ps, [])"
    and stake: "parents_stake (ce_committee e) h ps 0 = Ok stake" "quorum_threshold (ce_committee e) \<le> stake"
    and payload: "missing_payload (ce_name e) io st h = Ok (False, [])"
    by (auto simp: votable_def)
  from ps have "collect_parents (ce_codec e) (ce_genesis e) io st (h_parents h) [] [] = Ok ([], ps)"
    by (auto simp: get_parents_def split: if_splits)
  from collect_parents_found [OF this] have all2: "list_all2 (\<lambda>d x. (d, x) \<in> set (ce_genesis e) \<or>
      (\<exists>bs. db st (digest_to_vec d) = Some bs \<and> de_cert (ce_codec e) bs = Some x)) (h_parents h) ps"
    by simp
  have found: "d = cert_digest (ce_crypto e) x \<and>
      (x \<in> set (genesis (ce_committee e)) \<or> db st (digest_to_vec (cert_digest (ce_crypto e) x)) \<noteq> None)"
    if "(d, x) \<in> set (ce_genesis e) \<or> (\<exists>bs. db st (digest_to_vec d) = Some bs \<and> de_cert (ce_codec e) bs = Some x)" for d x
    using that assms(2)
    by (fastforce simp: ce_genesis_def genesis_table_def store_sound_def digest_to_vec_def digest.expand)
  have "list_all2 (\<lambda>d x. d = cert_digest (ce_crypto e) x) (h_parents h) ps"
    using all2 by (rule list_all2_mono) (use found in blast)
  then have ids: "map (cert_digest (ce_crypto e)) ps = h_parents h"
    by (induction rule: list_all2_induct) simp_all
  have "list_all2 (\<lambda>d x. x \<in> set (genesis (ce_committee e)) \<or> db st (digest_to_vec (cert_digest (ce_crypto e) x)) \<noteq> None)
      (h_parents h) ps"
    using all2 by (rule list_all2_mono) (use found in blast)
  then have known: "\<forall>x \<in> set ps. x \<in> set (genesis (ce_committee e)) \<or> db st (digest_to_vec (cert_digest (ce_crypto e) x)) \<noteq> None"
    by (induction rule: list_all2_induct) simp_all
  have batches: "h_author h \<noteq> ce_name e \<Longrightarrow> \<forall>d w. (d, w) \<in> set (h_payload h) \<longrightarrow> db st (payload_key d w) \<noteq> None"
    using payload by (auto simp: missing_payload_def dest!: missing_batches_Ok split: if_splits)
  show ?thesis
    unfolding vote_backed_def
    using ids known batches parents_stake_Ok [OF stake(1)] stake(2) assms(3-5)
    by (intro exI [of _ h] exI [of _ ps]) auto
qed

definition votes_backed :: "core_env \<Rightarrow> core_state \<Rightarrow> bool" where
  "votes_backed e s \<longleftrightarrow> store_sound e (core_store s) \<and>
     (\<forall>v a. SendTo (VoteMessage v) a \<in> set (outputs s) \<longrightarrow> vote_backed e (core_store s) v)"

lemma quiet_sends: "\<forall>m \<in> set ms. quiet m \<Longrightarrow> SendTo (VoteMessage v) a \<notin> set ms"
  by auto

lemma votes_backed_write:
  assumes "votes_backed e s" "\<And>x. de_cert (ce_codec e) bs = Some x \<Longrightarrow> k = digest_to_vec (cert_digest (ce_crypto e) x)"
  shows "votes_backed e (s\<lparr>core_store := store_write (core_store s) k bs\<rparr>)"
proof -
  have "vote_backed e (store_write (core_store s) k bs) v" if "vote_backed e (core_store s) v" for v
    using that by (rule vote_backed_mono) simp
  with assms show ?thesis by (auto simp: votes_backed_def store_sound_def)
qed

lemma votes_backed_out:
  "votes_backed e s \<Longrightarrow> \<forall>m \<in> set ms. quiet m \<Longrightarrow> votes_backed e (s\<lparr>outputs := outputs s @ ms\<rparr>)"
  by (auto simp: votes_backed_def dest: quiet_sends)

interpretation backing: core_invariant e "\<lambda>s. codec_ok (ce_codec e) \<and> votes_backed e s" "\<lambda>_. True" "\<lambda>_. True"
  for e
proof unfold_locales
  fix s s0 h addr and v :: vote
  assume "codec_ok (ce_codec e) \<and> votes_backed e s" "codec_ok (ce_codec e) \<and> votes_backed e s0"
    "votable e (core_store s0) h"
    and st: "core_store s = store_write (core_store s0) (digest_to_vec (h_id h)) (ser_header (ce_codec e) h)"
    and v: "v_id v = h_id h" "v_round v = h_round h" "v_origin v = h_author h"
  then have "vote_backed e (core_store s) v"
    by (simp add: votable_backed votes_backed_def)
  then show "codec_ok (ce_codec e) \<and> votes_backed e (s\<lparr>last_voted := hm_entry (h_round h) {} (insert (h_author h)) (last_voted s),
      outputs := outputs s @ [SendTo (VoteMessage v) addr]\<rparr>)"
    using \<open>codec_ok (ce_codec e) \<and> votes_backed e s\<close> by (auto simp: votes_backed_def)
next
  fix s x and ms :: "core_output list"
  assume I: "codec_ok (ce_codec e) \<and> votes_backed e s" and q: "\<forall>m \<in> set ms. quiet m"
  let ?s = "s\<lparr>core_store := store_write (core_store s) (digest_to_vec (cert_digest (ce_crypto e) x)) (ser_cert (ce_codec e) x)\<rparr>"
  have "votes_backed e ?s" using I by (intro votes_backed_write) (auto simp: codec_ok_def)
  from votes_backed_out [OF this q] I
  show "codec_ok (ce_codec e) \<and> votes_backed e (?s\<lparr>outputs := outputs s @ ms @ [ToConsensus x]\<rparr>)"
    by (auto simp: votes_backed_def)
next
  fix s h
  assume "codec_ok (ce_codec e) \<and> votes_backed e s"
  then show "codec_ok (ce_codec e) \<and> votes_backed e (s\<lparr>core_store :=
      store_write (core_store s) (digest_to_vec (h_id h)) (ser_header (ce_codec e) h)\<rparr>)"
    by (auto simp: codec_ok_def intro: votes_backed_write)
next
  fix s d w
  assume "codec_ok (ce_codec e) \<and> votes_backed e s"
  then show "codec_ok (ce_codec e) \<and> votes_backed e (s\<lparr>core_store := store_write (core_store s) (payload_key d w) []\<rparr>)"
    by (auto simp: codec_ok_def intro: votes_backed_write)
qed (simp_all add: votes_backed_out, simp_all add: votes_backed_def core_cleanup_def Let_def)

text \<open>
  C30: in every run of the core from an empty store, every vote that leaves is for
  a header that is stored, has certificates for all its parents in the genesis or the store,
  all of the round before and with a quorum of stake, and has its whole payload stored.
\<close>

theorem votes_are_backed:
  assumes "codec_ok (ce_codec e)" "core_run e (core_start empty_store) evs = Some s"
    and "\<forall>i \<in> set evs. input_ok (\<lambda>_. True) (\<lambda>_. True) i"
    and "SendTo (VoteMessage v) a \<in> set (outputs s)"
  shows "vote_backed e (core_store s) v"
proof -
  have "votes_backed e (core_start empty_store)"
    by (simp add: votes_backed_def store_sound_def core_start_def empty_store_def)
  with backing.run_keeps [OF assms(2) _ assms(3)] assms(1) have "votes_backed e s" by simp
  with assms(4) show ?thesis by (auto simp: votes_backed_def)
qed

section \<open>Certificates reach the consensus in causal order\<close>

text \<open>The certificates handed to the consensus, oldest first.\<close>

definition certs_out :: "core_output list \<Rightarrow> certificate list" where
  "certs_out ms = List.map_filter (\<lambda>m. case m of ToConsensus x \<Rightarrow> Some x | _ \<Rightarrow> None) ms"

definition forwarded :: "core_state \<Rightarrow> certificate list" where
  "forwarded s = certs_out (outputs s)"

lemma certs_out_simps [simp]:
  "certs_out [] = []" "certs_out (ms @ ms') = certs_out ms @ certs_out ms'"
  "certs_out [ToConsensus x] = [x]" "certs_out [SendTo m a] = []"
  by (simp_all add: certs_out_def List.map_filter_def)

lemma certs_out_quiet: "\<forall>m \<in> set ms. quiet m \<Longrightarrow> certs_out ms = []"
proof (induction ms)
  case (Cons m ms)
  then show ?case by (cases m) (simp_all add: certs_out_def List.map_filter_simps)
qed simp

text \<open>
  The headers in play name certificates, not headers, as their parents. (A header id that is a
  certificate digest, or a parent that is the id of a header, needs a hash collision or a quorum
  that certified it.)
\<close>

definition ids_apart :: "header set \<Rightarrow> bool" where
  "ids_apart H \<longleftrightarrow> (\<forall>h \<in> H. \<forall>d \<in> set (h_parents h). wf_digest d \<and> (\<forall>h' \<in> H. h_id h' \<noteq> d))"

definition stored_kinds :: "core_env \<Rightarrow> header set \<Rightarrow> core_state \<Rightarrow> bool" where
  "stored_kinds e H s \<longleftrightarrow> (\<forall>k. db (core_store s) k \<noteq> None \<longrightarrow>
     k \<in> (digest_to_vec \<circ> cert_digest (ce_crypto e)) ` set (forwarded s) \<or> k \<in> (digest_to_vec \<circ> h_id) ` H \<or>
     length k = 36)"

definition forwards_causally :: "core_env \<Rightarrow> header set \<Rightarrow> core_state \<Rightarrow> bool" where
  "forwards_causally e H s \<longleftrightarrow> stored_kinds e H s \<and>
     parents_first (ce_crypto e) (genesis_digests (ce_crypto e) (ce_committee e)) (forwarded s)"

lemma known_parent:
  assumes "stored_kinds e H s" "ids_apart H" "h \<in> H" "d \<in> set (h_parents h)"
    and "parent_known (ce_genesis e) (core_store s) d"
  shows "d \<in> genesis_digests (ce_crypto e) (ce_committee e) \<union> cert_digest (ce_crypto e) ` set (forwarded s)"
proof -
  have d: "wf_digest d" "\<forall>h' \<in> H. h_id h' \<noteq> d" using assms(2-4) by (auto simp: ids_apart_def)
  have inj: "digest_to_vec d = digest_to_vec d' \<Longrightarrow> d = d'" for d' by (simp add: digest_to_vec_def digest.expand)
  consider "d \<in> fst ` set (ce_genesis e)" | "db (core_store s) (digest_to_vec d) \<noteq> None"
    using assms(5) by (auto simp: parent_known_def)
  then show ?thesis
  proof cases
    case 1
    then show ?thesis by (force simp: ce_genesis_def genesis_table_def genesis_digests_def)
  next
    case 2
    have "length (digest_to_vec d) \<noteq> 36" using d(1) by (simp add: wf_digest_def digest_to_vec_def)
    with 2 assms(1) d(2) inj show ?thesis unfolding stored_kinds_def by fastforce
  qed
qed

lemma forwards_causally_store:
  assumes "forwards_causally e H s" "k \<in> (digest_to_vec \<circ> h_id) ` H \<or> length k = 36"
  shows "forwards_causally e H (s\<lparr>core_store := store_write (core_store s) k v\<rparr>)"
  using assms by (auto simp: forwards_causally_def stored_kinds_def forwarded_def split: if_splits)

lemma forwards_causally_cong:
  "forwards_causally e H s \<Longrightarrow> db (core_store s') = db (core_store s) \<Longrightarrow>
     certs_out (outputs s') = certs_out (outputs s) \<Longrightarrow> forwards_causally e H s'"
  by (simp add: forwards_causally_def stored_kinds_def forwarded_def)

lemma payload_key_length: "wf_digest d \<Longrightarrow> length (payload_key d w) = 36"
  by (simp add: payload_key_def wf_digest_def)

interpretation causality: core_invariant e "\<lambda>s. ids_apart H \<and> forwards_causally e H s" "\<lambda>h. h \<in> H" "\<lambda>_. True"
  for e H
proof unfold_locales
  fix s x and ms :: "core_output list"
  assume I: "ids_apart H \<and> forwards_causally e H s" and h: "c_header x \<in> H"
    and known: "\<forall>d \<in> set (cert_parents x). parent_known (ce_genesis e) (core_store s) d" and q: "\<forall>m \<in> set ms. quiet m"
  let ?s = "s\<lparr>core_store := store_write (core_store s) (digest_to_vec (cert_digest (ce_crypto e) x)) (ser_cert (ce_codec e) x),
      outputs := outputs s @ ms @ [ToConsensus x]\<rparr>"
  have f: "forwarded ?s = forwarded s @ [x]" by (simp add: forwarded_def certs_out_quiet [OF q])
  have "set (cert_parents x) \<subseteq> genesis_digests (ce_crypto e) (ce_committee e) \<union> cert_digest (ce_crypto e) ` set (forwarded s)"
    using known_parent [of e H s "c_header x"] I h known by (auto simp: forwards_causally_def)
  then have "parents_first (ce_crypto e) (genesis_digests (ce_crypto e) (ce_committee e)) (forwarded ?s)"
    using I by (simp add: f parents_first_snoc forwards_causally_def)
  moreover have "stored_kinds e H ?s"
    using I unfolding stored_kinds_def f forwards_causally_def by auto
  ultimately show "ids_apart H \<and> forwards_causally e H ?s" using I by (simp add: forwards_causally_def)
next
  fix s and ms :: "core_output list"
  assume "ids_apart H \<and> forwards_causally e H s" "\<forall>m \<in> set ms. quiet m"
  then show "ids_apart H \<and> forwards_causally e H (s\<lparr>outputs := outputs s @ ms\<rparr>)"
    by (auto simp: certs_out_quiet elim: forwards_causally_cong)
next
  fix s h
  assume "ids_apart H \<and> forwards_causally e H s" "h \<in> H"
  then show "ids_apart H \<and> forwards_causally e H (s\<lparr>core_store :=
      store_write (core_store s) (digest_to_vec (h_id h)) (ser_header (ce_codec e) h)\<rparr>)"
    by (auto intro: forwards_causally_store)
qed (simp_all add: forwards_causally_store payload_key_length,
     simp_all add: forwards_causally_def stored_kinds_def forwarded_def core_cleanup_def Let_def)

text \<open>
  C31: when the headers that come in name certificates as parents, the core
  hands the certificates to the consensus in causal order: each one after all its parents, back
  to the genesis.
\<close>

theorem core_forwards_causally:
  assumes "core_run e (core_start empty_store) evs = Some s"
    and "\<forall>i \<in> set evs. input_ok (\<lambda>_. True) (\<lambda>h. h \<in> H) i" "default_header \<in> H" "ids_apart H"
  shows "parents_first (ce_crypto e) (genesis_digests (ce_crypto e) (ce_committee e)) (forwarded s)"
proof -
  have "forwards_causally e H (core_start empty_store)"
    by (simp add: forwards_causally_def stored_kinds_def core_start_def empty_store_def forwarded_def)
  with causality.run_keeps [OF assms(1) _ assms(2)] assms(3,4) have "forwards_causally e H s"
    by (simp add: core_start_def)
  then show ?thesis by (simp add: forwards_causally_def)
qed

section \<open>Core and consensus together\<close>

text \<open>What a quorum of correct voters ensures of a certified header: it names a certificate of the round before.\<close>

definition links_back :: "crypto \<Rightarrow> committee \<Rightarrow> certificate list \<Rightarrow> certificate \<Rightarrow> bool" where
  "links_back cr c xs x \<longleftrightarrow> cert_round x \<le> 1 \<or>
     (\<exists>d \<in> set (cert_parents x). d \<notin> genesis_digests cr c \<and>
        (\<forall>y \<in> set xs. cert_digest cr y = d \<longrightarrow> Suc (cert_round y) = cert_round x))"

lemma causal_rounds_in_order:
  assumes "parents_first cr (genesis_digests cr c \<union> cert_digest cr ` set ys) xs"
    and "\<forall>x \<in> set xs. links_back cr c (ys @ xs) x"
  shows "rounds_in_order (cert_round ` set ys) xs"
  using assms
proof (induction xs arbitrary: ys)
  case (Cons x xs)
  have "cert_round x \<le> 1 \<or> cert_round x - 1 \<in> cert_round ` set ys"
  proof (cases "cert_round x \<le> 1")
    case False
    with Cons.prems(2) obtain d where d: "d \<in> set (cert_parents x)" "d \<notin> genesis_digests cr c"
      "\<forall>y \<in> set (ys @ x # xs). cert_digest cr y = d \<longrightarrow> Suc (cert_round y) = cert_round x"
      by (auto simp: links_back_def)
    with Cons.prems(1) obtain y where y: "y \<in> set ys" "cert_digest cr y = d" by auto
    with d(3) have "Suc (cert_round y) = cert_round x" by simp
    then have "cert_round x - 1 = cert_round y" by simp
    with y(1) show ?thesis by simp
  qed simp
  moreover have "rounds_in_order (cert_round ` set (ys @ [x])) xs"
    using Cons.prems by (intro Cons.IH) (simp_all add: insert_commute Un_commute)
  ultimately show ?case by simp
qed simp


section \<open>A certificate of its own past stops the core\<close>

text \<open>
  C34: \<open>process_vote\<close> counts every vote of the node itself for the
  header it proposed last, whatever header the vote is for. So a core that already voted for its
  current header and then receives a valid certificate of its own for another round that it does not
  remember, as it does after a restart, tries to count a second own vote, fails
  \<open>expect("Failed to process our own vote")\<close> and stops.
\<close>

theorem own_old_certificate_panics:
  assumes "sanitize_certificate e s x = Ok ()" "cert_origin x = ce_name e" "ce_name e \<in> va_used (votes_agg s)"
    and "h_id (c_header x) \<notin> set_of_round (processing s) (cert_round x)"
    and "ce_name e \<notin> set_of_round (last_voted s) (cert_round x)"
    and "get_parents (ce_codec e) (ce_genesis e) io (core_store s) (c_header x) = Ok (ps, [])" "ps \<noteq> []"
    and "parents_stake (ce_committee e) (c_header x) ps 0 = Ok stake" "quorum_threshold (ce_committee e) \<le> stake"
    and "vote_new (ce_crypto e) (ce_secret e) (c_header x) (ce_name e) = Ok v"
  shows "core_step e io cr (FromPrimaries (CertificateMessage x)) s = Some Panic"
proof -
  obtain n where fuel: "core_fuel = Suc (Suc (Suc n))"
    using that [of 5] by (simp add: core_fuel_def)
  have author: "h_author (c_header x) = ce_name e" "v_origin v = ce_name e" "v_author v = ce_name e"
    using assms(2) vote_new_author [OF assms(10)] by (simp_all add: cert_origin_def)
  have payload: "missing_payload (ce_name e) io st (c_header x) = Ok (False, [])" for st
    by (simp add: missing_payload_def author)
  have "wp True (core_handle e io (FromPrimaries (CertificateMessage x))) (\<lambda>_ r. r = Panic) s"
    using assms author payload
    by (simp add: fuel wp_rules process_certificate_with_def process_header_with_def accept_header_def
        vote_once_def process_vote_with_def va_append_simps cert_round_def)
  then show ?thesis
    by (auto simp: wp_def core_step_def split: option.splits)
qed

end
