(* ===== verification/CoreRuns.thy ===== *)
theory CoreRuns
  imports CoreProps Runs
begin

text \<open>
  Concrete runs of the core, on which its properties are witnessed: a byte codec that satisfies
  \<open>codec_ok\<close>, a node that receives a certificate of another authority, votes for its header and
  forwards it, and a node that receives its own certificate of a past life.
\<close>

section \<open>A codec\<close>

definition put_nat :: "nat \<Rightarrow> bytes" where
  "put_nat n = replicate n 1 @ [0]"

fun get_nat :: "bytes \<Rightarrow> (nat \<times> bytes) option" where
  "get_nat [] = None"
| "get_nat (b # bs) = (if b = 0 then Some (0, bs) else map_option (\<lambda>(n, r). (Suc n, r)) (get_nat bs))"

lemma get_put_nat [simp]: "get_nat (put_nat n @ r) = Some (n, r)"
  by (induction n) (simp_all add: put_nat_def)

type_synonym 'a parser = "bytes \<Rightarrow> ('a \<times> bytes) option"

fun get_many :: "'a parser \<Rightarrow> nat \<Rightarrow> 'a list parser" where
  "get_many p 0 bs = Some ([], bs)"
| "get_many p (Suc n) bs = Option.bind (p bs) (\<lambda>(x, r). map_option (\<lambda>(xs, r'). (x # xs, r')) (get_many p n r))"

definition put_list :: "('a \<Rightarrow> bytes) \<Rightarrow> 'a list \<Rightarrow> bytes" where
  "put_list f xs = put_nat (length xs) @ concat (map f xs)"

definition get_list :: "'a parser \<Rightarrow> 'a list parser" where
  "get_list p bs = Option.bind (get_nat bs) (\<lambda>(n, r). get_many p n r)"

lemma get_many_put: "(\<And>x r. p (f x @ r) = Some (x, r)) \<Longrightarrow> get_many p (length xs) (concat (map f xs) @ r) = Some (xs, r)"
  by (induction xs) simp_all

lemma get_put_list: "(\<And>x r. p (f x @ r) = Some (x, r)) \<Longrightarrow> get_list p (put_list f xs @ r) = Some (xs, r)"
  by (simp add: put_list_def get_list_def get_many_put)

definition put_byte :: "byte \<Rightarrow> bytes" where
  "put_byte b = [b]"

fun get_byte :: "byte parser" where
  "get_byte [] = None"
| "get_byte (b # bs) = Some (b, bs)"

abbreviation "put_bytes \<equiv> put_list put_byte"
abbreviation "get_bytes \<equiv> get_list get_byte"

lemma get_put_bytes [simp]: "get_bytes (put_bytes bs @ r) = Some (bs, r)"
  by (rule get_put_list) (simp add: put_byte_def)

definition put_entry :: "digest \<times> worker_id \<Rightarrow> bytes" where
  "put_entry p = put_bytes (digest_bytes (fst p)) @ put_nat (snd p)"

definition get_entry :: "(digest \<times> worker_id) parser" where
  "get_entry bs = Option.bind (get_bytes bs) (\<lambda>(d, r). map_option (\<lambda>(w, r'). ((Digest d, w), r')) (get_nat r))"

lemma get_put_entry: "get_entry (put_entry p @ r) = Some (p, r)"
  by (simp add: get_entry_def put_entry_def)

definition put_digest :: "digest \<Rightarrow> bytes" where
  "put_digest d = put_bytes (digest_bytes d)"

definition get_digest :: "digest parser" where
  "get_digest bs = map_option (\<lambda>(d, r). (Digest d, r)) (get_bytes bs)"

lemma get_put_digest [simp]: "get_digest (put_digest d @ r) = Some (d, r)"
  by (simp add: get_digest_def put_digest_def)

definition put_sig :: "signature \<Rightarrow> bytes" where
  "put_sig g = (case g of Signature a b \<Rightarrow> put_bytes a @ put_bytes b)"

definition get_sig :: "signature parser" where
  "get_sig bs = Option.bind (get_bytes bs) (\<lambda>(a, r). map_option (\<lambda>(b, r'). (Signature a b, r')) (get_bytes r))"

lemma get_put_sig [simp]: "get_sig (put_sig g @ r) = Some (g, r)"
  by (cases g) (simp add: get_sig_def put_sig_def)

definition put_header :: "header \<Rightarrow> bytes" where
  "put_header h = put_bytes (key_bytes (h_author h)) @ put_nat (h_round h) @ put_list put_entry (h_payload h) @
     put_list put_digest (h_parents h) @ put_digest (h_id h) @ put_sig (h_signature h)"

definition get_header :: "header parser" where
  "get_header bs = Option.bind (get_bytes bs) (\<lambda>(k, r). Option.bind (get_nat r) (\<lambda>(n, r).
     Option.bind (get_list get_entry r) (\<lambda>(pl, r). Option.bind (get_list get_digest r) (\<lambda>(ps, r).
     Option.bind (get_digest r) (\<lambda>(i, r). Option.bind (get_sig r) (\<lambda>(g, r).
       Some (\<lparr> h_author = PublicKey k, h_round = n, h_payload = pl, h_parents = ps, h_id = i, h_signature = g \<rparr>, r)))))))"

lemma get_put_header [simp]: "get_header (put_header h @ r) = Some (h, r)"
  by (simp add: get_header_def put_header_def get_put_list [OF get_put_entry] get_put_list [OF get_put_digest])

definition put_vote :: "public_key \<times> signature \<Rightarrow> bytes" where
  "put_vote v = put_bytes (key_bytes (fst v)) @ put_sig (snd v)"

definition get_vote :: "(public_key \<times> signature) parser" where
  "get_vote bs = Option.bind (get_bytes bs) (\<lambda>(k, r). map_option (\<lambda>(g, r'). ((PublicKey k, g), r')) (get_sig r))"

lemma get_put_vote: "get_vote (put_vote v @ r) = Some (v, r)"
  by (simp add: get_vote_def put_vote_def)

definition get_cert :: "bytes \<Rightarrow> certificate option" where
  "get_cert bs = Option.bind (get_header bs) (\<lambda>(h, r).
     map_option (\<lambda>(vs, _). \<lparr> c_header = h, c_votes = vs \<rparr>) (get_list get_vote r))"

definition sample_codec :: codec where
  "sample_codec = \<lparr> ser_header = put_header, ser_cert = (\<lambda>x. put_header (c_header x) @ put_list put_vote (c_votes x)),
     de_cert = get_cert \<rparr>"

lemma sample_codec_ok: "codec_ok sample_codec"
proof -
  have "get_cert (put_header h @ put_list put_vote vs) = Some \<lparr> c_header = h, c_votes = vs \<rparr>" for h vs
    using get_put_list [of get_vote put_vote vs "[]"] by (simp add: get_cert_def get_put_vote)
  moreover have "get_cert (put_header h) = None" for h
    using get_put_header [of h "[]"] by (simp add: get_cert_def get_list_def del: get_put_header)
  moreover have "get_cert [] = None"
    by (simp add: get_cert_def get_header_def get_list_def)
  ultimately show ?thesis by (simp add: codec_ok_def sample_codec_def)
qed

section \<open>A node that votes and forwards\<close>

definition calm_env :: attack_env where
  "calm_env = \<lparr> env_mode = [], env_attacker_ratio = None, env_victim_ratio = None,
     env_victim_count = None, env_asr_window = None, env_asr_threshold = None \<rparr>"

definition sample_core :: core_env where
  "sample_core = \<lparr> ce_crypto = toy_crypto, ce_codec = sample_codec, ce_committee = sample_committee,
     ce_name = sample_key 4, ce_secret = sample_secret 4, ce_gc_depth = 50, ce_env = calm_env \<rparr>"

lemma sample_core_simps [simp]:
  "ce_crypto sample_core = toy_crypto" "ce_codec sample_core = sample_codec"
  "ce_committee sample_core = sample_committee" "ce_name sample_core = sample_key 4"
  "ce_secret sample_core = sample_secret 4" "ce_gc_depth sample_core = 50"
  "ce_attack_active sample_core = False" "ce_mode sample_core = []"
  by (simp_all add: sample_core_def ce_attack_active_def ce_mode_def calm_env_def attack_active_def)

lemma sample_core_genesis: "ce_genesis sample_core = map (\<lambda>i. (sample_digest i 0, run_genesis i)) [1, 2, 3, 4]"
  by (simp add: ce_genesis_def genesis_table_def genesis_sample)

lemma run_cert_valid: "cert_verify toy_crypto sample_committee (run_cert 1 1) = Ok ()"
  using run_a_valid by (simp add: run_lists)

lemma run_header_simps [simp]:
  "h_author (c_header (run_cert i r)) = sample_key i" "h_round (c_header (run_cert i r)) = r"
  "h_payload (c_header (run_cert i r)) = []"
  by (simp_all add: run_cert_def)

lemma round1_parents: "cert_parents (run_cert i 1) = [sample_digest 1 0, sample_digest 2 0, sample_digest 3 0]"
  by (simp add: run_parent_ids_def)

lemma sample_vote: "\<exists>v. vote_new toy_crypto (sample_secret 4) h (sample_key 4) = Ok v"
  by (simp add: vote_new_def Let_def request_signature_def signature_new_def toy_crypto_def [THEN arg_cong, of keypair_parses]
      sample_secret_def sample_key_def)

definition sample_events :: "core_input list" where
  "sample_events = [CoreEvent (\<lambda>_. False) 0 (FromPrimaries (CertificateMessage (run_cert 1 1)))]"

lemma first_parents:
  "get_parents sample_codec (ce_genesis sample_core) io st (c_header (run_cert i 1)) =
     Ok ([run_genesis 1, run_genesis 2, run_genesis 3], [])"
  by (simp add: get_parents_def run_parent_ids_def sample_core_genesis)

lemma first_stake:
  "parents_stake sample_committee (c_header (run_cert i 1)) [run_genesis 1, run_genesis 2, run_genesis 3] 0 = Ok 3"
  by (simp add: u64_add_def stake_sample)

lemma first_delivery: "deliver_certificate (ce_genesis sample_core) io st (run_cert i 1) = Ok (True, [])"
  by (simp add: deliver_certificate_def run_parent_ids_def sample_core_genesis)

lemma first_append:
  "\<exists>a. ca_append toy_crypto [] sample_committee (new_certificates_agg sample_core) (run_cert 1 1) = (a, Ok None)"
proof -
  have "\<not> (3 :: stake) \<le> 1" by (simp add: word_le_nat_alt)
  then show ?thesis
    by (simp add: ca_append_def Let_def new_certificates_agg_def ca_new_def quorum_sample stake_sample)
qed

lemma sample_core_run:
  "\<exists>s v. core_run sample_core (core_start empty_store) sample_events = Some s \<and>
     vote_new toy_crypto (sample_secret 4) (c_header (run_cert 1 1)) (sample_key 4) = Ok v \<and>
     outputs s = [SendTo (VoteMessage v) (sample_addr 1 1), ToConsensus (run_cert 1 1)]"
proof -
  obtain v where v: "vote_new toy_crypto (sample_secret 4) (c_header (run_cert 1 1)) (sample_key 4) = Ok v"
    using sample_vote by blast
  note vote = vote_new_author [OF v]
  obtain a where a: "ca_append toy_crypto [] sample_committee (new_certificates_agg sample_core) (run_cert 1 1) = (a, Ok None)"
    using first_append by blast
  obtain n where fuel: "core_fuel = Suc (Suc (Suc n))"
    using that [of 5] by (simp add: core_fuel_def)
  have "wp True (core_handle sample_core (\<lambda>_. False) (FromPrimaries (CertificateMessage (run_cert 1 1))))
     (\<lambda>s r. r = Ok () \<and> outputs s = [SendTo (VoteMessage v) (sample_addr 1 1), ToConsensus (run_cert 1 1)])
     (core_start empty_store)"
    using v vote a
    by (simp add: fuel wp_rules sanitize_certificate_def run_cert_valid core_start_def process_certificate_with_def
        set_of_round_def process_header_with_def first_parents first_stake accept_header_def vote_once_def
        missing_payload_def missing_batches.simps(1) primary_of_def map_of_sample_committee sample_authority_def
        first_delivery accept_certificate_def option_or_def quorum_sample del: One_nat_def parents_stake.simps)
  then show ?thesis
    using v by (auto simp: wp_def sample_events_def core_step_def core_cleanup_def split: option.splits prod.splits)
qed
text \<open>The witnesses of the run properties.\<close>

abbreviation sample_headers :: "header set" where
  "sample_headers \<equiv> {default_header, c_header (run_cert 1 1)}"

lemma run_header_id: "h_id (c_header (run_cert 1 1)) = Digest ([0, 1, 1] @ replicate 29 0)"
  by code_simp

lemma sample_ids_apart: "ids_apart sample_headers"
proof -
  have "wf_digest (sample_digest j 0)" for j by (simp add: sample_digest_def wf_digest_def)
  moreover have "default_digest \<noteq> sample_digest j 0" if "j \<in> {1, 2, 3}" for j
  proof -
    have "hd (digest_bytes default_digest) = 0" by (simp add: default_digest_def)
    moreover have "hd (digest_bytes (sample_digest j 0)) \<noteq> 0" using that by (auto simp: sample_digest_def)
    ultimately show ?thesis by metis
  qed
  moreover have "h_id (c_header (run_cert 1 1)) \<noteq> sample_digest j 0" if "j \<in> {1, 2, 3}" for j
    using that by (auto simp: run_header_id [unfolded One_nat_def] sample_digest_def)
  ultimately show ?thesis
    by (simp add: ids_apart_def run_parent_ids_def default_header_def)
qed

lemma sample_inputs_ok: "\<forall>i \<in> set sample_events. input_ok (\<lambda>_. True) (\<lambda>h. h \<in> sample_headers) i"
  "\<forall>i \<in> set sample_events. input_ok (\<lambda>_. True) (\<lambda>_. True) i"
  "\<forall>i \<in> set sample_events. input_ok (\<lambda>cr. cr \<le> 1 + ce_gc_depth sample_core) (\<lambda>_. True) i"
  by (simp_all add: sample_events_def)

theorem votes_once_witness:
  "\<exists>s. core_run sample_core (core_start empty_store) sample_events = Some s \<and> votes_sent 1 (sample_key 1) s = 1"
proof -
  obtain s v where s: "core_run sample_core (core_start empty_store) sample_events = Some s"
    "vote_new toy_crypto (sample_secret 4) (c_header (run_cert 1 1)) (sample_key 4) = Ok v"
    "outputs s = [SendTo (VoteMessage v) (sample_addr 1 1), ToConsensus (run_cert 1 1)]"
    using sample_core_run by blast
  have "1 \<le> votes_sent 1 (sample_key 1) s"
    using vote_new_author [OF s(2)] by (simp add: votes_sent_def s(3))
  with votes_once [OF s(1) sample_inputs_ok(3), of "sample_key 1"] s(1) show ?thesis by auto
qed

theorem votes_are_backed_witness:
  "\<exists>s v. core_run sample_core (core_start empty_store) sample_events = Some s \<and> v_origin v = sample_key 1 \<and>
     vote_backed sample_core (core_store s) v"
proof -
  obtain s v where s: "core_run sample_core (core_start empty_store) sample_events = Some s"
    "vote_new toy_crypto (sample_secret 4) (c_header (run_cert 1 1)) (sample_key 4) = Ok v"
    "outputs s = [SendTo (VoteMessage v) (sample_addr 1 1), ToConsensus (run_cert 1 1)]"
    using sample_core_run by blast
  have "vote_backed sample_core (core_store s) v"
    by (rule votes_are_backed [OF _ s(1) sample_inputs_ok(2)]) (simp_all add: s(3) sample_codec_ok)
  with s(1) vote_new_author [OF s(2)] show ?thesis by auto
qed

theorem core_forwards_causally_witness:
  "\<exists>s. core_run sample_core (core_start empty_store) sample_events = Some s \<and> forwarded s = [run_cert 1 1] \<and>
     parents_first toy_crypto (genesis_digests toy_crypto sample_committee) (forwarded s)"
proof -
  obtain s v where s: "core_run sample_core (core_start empty_store) sample_events = Some s"
    "outputs s = [SendTo (VoteMessage v) (sample_addr 1 1), ToConsensus (run_cert 1 1)]"
    using sample_core_run by blast
  have "forwarded s = [run_cert 1 1]"
    using certs_out_simps(2) [of "[SendTo _ _]" "[ToConsensus _]"] by (simp add: forwarded_def s(2))
  with core_forwards_causally [OF s(1) sample_inputs_ok(1) _ sample_ids_apart] s(1) show ?thesis by auto
qed


section \<open>A node that meets its own past\<close>

text \<open>The store a node kept over a restart: three certificates of round 1.\<close>

definition past_store :: store where
  "past_store = foldl (\<lambda>st i. store_write st (digest_to_vec (sample_digest i 1)) (ser_cert sample_codec (run_cert i 1)))
     empty_store [1, 2, 3]"

definition own_header :: header where
  "own_header = c_header (run_cert 4 1)"

lemma past_store_db: "i \<in> {1, 2, 3} \<Longrightarrow>
    db past_store (digest_to_vec (sample_digest i 1)) = Some (ser_cert sample_codec (run_cert i 1))"
  by (auto simp: past_store_def digest_to_vec_def sample_digest_def)

lemma past_parents:
  assumes "\<And>i. i \<in> {1, 2, 3} \<Longrightarrow>
    db st (digest_to_vec (sample_digest i 1)) = Some (ser_cert sample_codec (run_cert i 1))"
  shows "get_parents sample_codec (ce_genesis sample_core) (\<lambda>_. False) st (c_header (run_cert 4 2)) =
     Ok ([run_cert 1 1, run_cert 2 1, run_cert 3 1], [])"
proof -
  have de: "de_cert sample_codec (ser_cert sample_codec x) = Some x" for x
    using sample_codec_ok by (simp add: codec_ok_def)
  have par: "cert_parents (run_cert 4 2) = [sample_digest 1 1, sample_digest 2 1, sample_digest 3 1]"
    by (simp add: run_parent_ids_def)
  have read: "store_read (\<lambda>_. False) st (digest_to_vec (sample_digest i 1)) =
      Ok (Some (ser_cert sample_codec (run_cert i 1)))" if "i \<in> {1, 2, 3}" for i
    using assms [OF that] by simp
  show ?thesis
    unfolding get_parents_def par
    by (simp add: sample_core_genesis read de del: store_read_simps One_nat_def)
qed

lemma own_header_run:
  "\<exists>s. core_run sample_core (core_start past_store) [CoreEvent (\<lambda>_. False) 0 (FromProposer own_header)] = Some s \<and>
     sample_key 4 \<in> va_used (votes_agg s) \<and> processing s = [(1, {h_id own_header})] \<and>
     last_voted s = [(1, {sample_key 4})] \<and>
     db (core_store s) = (db past_store)(digest_to_vec (h_id own_header) \<mapsto> put_header own_header) \<and> gc_round s = 0"
proof -
  obtain v where v: "vote_new toy_crypto (sample_secret 4) own_header (sample_key 4) = Ok v"
    using sample_vote by blast
  note vote = vote_new_author [OF v]
  have less: "\<not> (3 :: stake) \<le> 1" by (simp add: word_le_nat_alt)
  have counted: "va_append sample_committee own_header va_new v =
      (\<lparr> va_weight = 1, va_votes = [(sample_key 4, v_signature v)], va_used = {sample_key 4} \<rparr>, Ok None)"
    using less vote by (simp add: va_append_def va_new_def quorum_sample stake_sample Let_def)
  obtain n where fuel: "core_fuel = Suc (Suc (Suc n))"
    using that [of 5] by (simp add: core_fuel_def)
  have own: "h_author own_header = sample_key 4" "h_round own_header = 1" by (simp_all add: own_header_def)
  have "wp True (core_handle sample_core (\<lambda>_. False) (FromProposer own_header))
     (\<lambda>s r. r = Ok () \<and> sample_key 4 \<in> va_used (votes_agg s) \<and> processing s = [(1, {h_id own_header})] \<and>
        last_voted s = [(1, {sample_key 4})] \<and>
        db (core_store s) = (db past_store)(digest_to_vec (h_id own_header) \<mapsto> put_header own_header) \<and> gc_round s = 0)
     (core_start past_store)"
    using v vote counted first_parents [of _ _ 4, folded own_header_def] first_stake [of 4, folded own_header_def]
    by (simp add: fuel own wp_rules process_own_header_def core_start_def
        set_of_round_def process_header_with_def accept_header_def vote_once_def hm_entry_def
        missing_payload_def quorum_sample process_vote_with_def
        sample_codec_def [THEN arg_cong, of ser_header]
        del: One_nat_def parents_stake.simps)
  then show ?thesis
    using v by (auto simp: wp_def core_step_def core_cleanup_def split: option.splits prod.splits)
qed

lemma own_header_id: "h_id own_header = Digest ([0, 1, 4] @ replicate 29 0)"
  by code_simp

theorem own_old_certificate_panics_witness:
  "\<exists>s. core_run sample_core (core_start past_store) [CoreEvent (\<lambda>_. False) 0 (FromProposer own_header)] = Some s \<and>
     core_step sample_core (\<lambda>_. False) 0 (FromPrimaries (CertificateMessage (run_cert 4 2))) s = Some Panic"
proof -
  obtain s where s: "core_run sample_core (core_start past_store) [CoreEvent (\<lambda>_. False) 0 (FromProposer own_header)] = Some s"
    "sample_key 4 \<in> va_used (votes_agg s)" "processing s = [(1, {h_id own_header})]" "last_voted s = [(1, {sample_key 4})]"
    "db (core_store s) = (db past_store)(digest_to_vec (h_id own_header) \<mapsto> put_header own_header)" "gc_round s = 0"
    using own_header_run by blast
  have "db (core_store s) (digest_to_vec (sample_digest i 1)) = Some (ser_cert sample_codec (run_cert i 1))"
    if "i \<in> {1, 2, 3}" for i
    using past_store_db [OF that] that by (auto simp: s(5) own_header_id digest_to_vec_def sample_digest_def)
  note parents = past_parents [OF this]
  obtain v where v: "vote_new toy_crypto (sample_secret 4) (c_header (run_cert 4 2)) (sample_key 4) = Ok v"
    using sample_vote by blast
  have valid: "cert_verify toy_crypto sample_committee (run_cert 4 2) = Ok ()"
    using run_a_valid by (simp add: run_lists)
  have stake: "parents_stake sample_committee (c_header (run_cert 4 2)) [run_cert 1 1, run_cert 2 1, run_cert 3 1] 0 = Ok 3"
    by (simp add: u64_add_def stake_sample)
  have "core_step sample_core (\<lambda>_. False) 0 (FromPrimaries (CertificateMessage (run_cert 4 2))) s = Some Panic"
    by (rule own_old_certificate_panics [where v = v and stake = 3 and ps = "[run_cert 1 1, run_cert 2 1, run_cert 3 1]"])
      (use v valid stake parents in \<open>simp_all add: s(2-4,6) sanitize_certificate_def set_of_round_def quorum_sample del: parents_stake.simps\<close>)
  with s(1) show ?thesis by blast
qed

end
