(* ===== verification/WorkerRuns.thy ===== *)
theory WorkerRuns
  imports WorkerQuorum CoreRuns
begin

text \<open>
  Concrete runs of the header waiter, the helper and the worker, on which their properties are
  witnessed, with a byte codec for the worker's messages.
\<close>

section \<open>Header waiter\<close>

definition sample_waiter :: header_waiter_env where
  "sample_waiter = \<lparr> he_name = sample_key 2, he_committee = sample_committee, he_gc_depth = 50,
     he_sync_retry_delay = 5000, he_sync_retry_nodes = 3 \<rparr>"

definition waiting_header :: header where
  "waiting_header = default_header\<lparr>h_author := sample_key 3, h_round := 2, h_id := Digest [9],
     h_parents := [Digest [4]], h_payload := [(Digest [3], 0)]\<rparr>"

lemma worker_of_sample: "worker_of sample_committee (sample_key 3) 0 =
    Ok \<lparr> transactions = sample_addr 3 3, worker_to_worker = sample_addr 3 4, primary_to_worker = sample_addr 3 5 \<rparr>"
  by (simp add: worker_of_def sample_committee_def sample_authority_def)

lemma primary_of_sample: "primary_of sample_committee (sample_key 3) =
    Ok \<lparr> primary_to_primary = sample_addr 3 1, worker_to_primary = sample_addr 3 2 \<rparr>"
  by (simp add: primary_of_def map_of_sample_committee sample_authority_def)

abbreviation "wait_inputs \<equiv>
  [HwEvent (\<lambda>_. False) 0 (HwMessage 0 (SyncParents [Digest [4]] waiting_header)), HwStored [4] [1]]"

abbreviation "loop_inputs \<equiv> wait_inputs @ [HwEvent (\<lambda>_. False) 0 (HwWaiter 0 (Ok (Some waiting_header)))]"

lemmas waiter_run_simps = hw_message_def hw_sync_parents_def hw_wait_def hw_cleanup_def hw_start_def Let_def
  digest_to_vec_def take_waiter_def waiter_ready_def hw_deliver_def hm_retain_def sample_waiter_def

lemma wait_run:
  "\<exists>st s. hw_run sample_waiter (empty_store, hw_start) wait_inputs = Some (st, s) \<and> map_of (hw_pending s) (Digest [9]) = Some (2, 0) \<and>
     map wt_missing (hw_waiting s) = [[[4]]] \<and> db st [4] = Some [1]"
  by (simp add: waiter_run_simps waiting_header_def primary_of_sample)

theorem header_waiter_never_stuck_witness:
  "\<exists>st s s' w. hw_run sample_waiter (empty_store, hw_start) wait_inputs = Some (st, s) \<and>
     map_of (hw_pending s) (Digest [9]) = Some (2, 0) \<and> w \<in> set (hw_waiting s) \<and>
     hw_step sample_waiter (\<lambda>_. False) st 0 (HwWaiter 0 (Ok (Some (wt_deliver w)))) s = Some (Ok s') \<and>
     hw_to_core s' = hw_to_core s @ [wt_deliver w]"
proof -
  obtain st s where run: "hw_run sample_waiter (empty_store, hw_start) wait_inputs = Some (st, s)"
    "map_of (hw_pending s) (Digest [9]) = Some (2, 0)" "map wt_missing (hw_waiting s) = [[[4]]]" "db st [4] = Some [1]"
    using wait_run by (elim exE conjE)
  have ready: "waiter_ready st w" if "w \<in> set (hw_waiting s)" for w
    using run(3,4) that by (auto simp: waiter_ready_def)
  from header_waiter_never_stuck [OF run(1,2), of "\<lambda>_. False" 0] ready obtain w s' where
    "w \<in> set (hw_waiting s)" "hw_to_core s' = hw_to_core s @ [wt_deliver w]"
    "hw_step sample_waiter (\<lambda>_. False) st 0 (HwWaiter 0 (Ok (Some (wt_deliver w)))) s = Some (Ok s')"
    by (auto simp del: hw_step.simps)
  with run(1,2) show ?thesis by (intro exI conjI)
qed

lemma loop_run:
  "\<exists>st s. hw_run sample_waiter (empty_store, hw_start) loop_inputs = Some (st, s) \<and> hw_to_core s = [waiting_header]"
  by (simp add: waiter_run_simps waiting_header_def primary_of_sample)

theorem looped_headers_complete_witness:
  "\<exists>st s i ks. hw_run sample_waiter (empty_store, hw_start) loop_inputs = Some (st, s) \<and> hw_to_core s = [waiting_header] \<and>
     i \<in> set loop_inputs \<and> command_of i = Some (waiting_header, ks) \<and> {k \<in> set ks. db st k = None} = {}"
proof -
  obtain st s where run: "hw_run sample_waiter (empty_store, hw_start) loop_inputs = Some (st, s)" "hw_to_core s = [waiting_header]"
    using loop_run by (elim exE conjE)
  from looped_headers_complete [OF run(1), of waiting_header] run show ?thesis by auto
qed

section \<open>Helper\<close>

theorem helper_panics_on_header_id_witness:
  "helper_reply sample_committee sample_codec (\<lambda>_. False)
     (store_write empty_store (digest_to_vec (h_id waiting_header)) (ser_header sample_codec waiting_header))
     ([h_id waiting_header], sample_key 3) = Panic"
  by (rule helper_panics_on_header_id [OF sample_codec_ok]) (simp_all add: members_sample)

section \<open>Worker\<close>

definition put_message :: "worker_message \<Rightarrow> bytes" where
  "put_message m = (case m of Batch b \<Rightarrow> 0 # put_list put_bytes b
     | BatchRequest ds k \<Rightarrow> 1 # put_list put_digest ds @ put_bytes (key_bytes k))"

fun get_message :: "bytes \<Rightarrow> worker_message option" where
  "get_message [] = None"
| "get_message (b # bs) =
     (if b = 0 then map_option (Batch \<circ> fst) (get_list get_bytes bs)
      else Option.bind (get_list get_digest bs) (\<lambda>(ds, r). map_option (\<lambda>(k, _). BatchRequest ds (PublicKey k)) (get_bytes r)))"

definition put_report :: "worker_primary_message \<Rightarrow> bytes" where
  "put_report m = (case m of OurBatch d w \<Rightarrow> 0 # put_digest d @ put_nat w | OthersBatch d w \<Rightarrow> 1 # put_digest d @ put_nat w)"

lemma put_report_inj: "inj put_report"
proof (rule injI)
  fix x y
  assume eq: "put_report x = put_report y"
  have "get_digest (tl (put_report m)) = Some (case m of OurBatch d w \<Rightarrow> (d, put_nat w) | OthersBatch d w \<Rightarrow> (d, put_nat w))" for m
    by (cases m) (simp_all add: put_report_def)
  from this [of x] this [of y] eq
  have "(case x of OurBatch d w \<Rightarrow> (d, put_nat w) | OthersBatch d w \<Rightarrow> (d, put_nat w)) =
      (case y of OurBatch d w \<Rightarrow> (d, put_nat w) | OthersBatch d w \<Rightarrow> (d, put_nat w))" by simp
  moreover have "v = w" if "put_nat v = put_nat w" for v w
    using get_put_nat [of v "[]"] get_put_nat [of w "[]"] that by simp
  ultimately show "x = y" using eq by (cases x; cases y) (auto simp: put_report_def)
qed

definition sample_worker_codec :: worker_codec where
  "sample_worker_codec = \<lparr> ser_worker = put_message, de_worker = get_message, ser_digest = put_report,
     de_primary = (\<lambda>bs. Some (Cleanup (length bs))) \<rparr>"

definition sample_worker :: "committee \<Rightarrow> worker_env" where
  "sample_worker c = \<lparr> we_name = sample_key 1, we_id = 0, we_committee = c, we_crypto = toy_crypto,
     we_codec = sample_worker_codec, we_parameters = default_parameters\<lparr>batch_size := 1\<rparr>, we_benchmark = True \<rparr>"

abbreviation "link_to i ev \<equiv> LinkEvent (sample_addr i 4) (\<lambda>_. True) ev"

definition worker_events :: "worker_event list" where
  "worker_events = [TxFrame [5], MakeBatch 0, NextBatch,
     link_to 2 ConnectSucceeds, link_to 2 MessageReceived, link_to 2 (Response (Some [1])),
     link_to 3 ConnectSucceeds, link_to 3 MessageReceived, link_to 3 (Response (Some [1])),
     Acknowledged 0, Acknowledged 1, ProcessOwn, Report]"

abbreviation "four \<equiv> sample_worker sample_committee"

lemma sample_worker_simps [simp]: "we_name (sample_worker c) = sample_key 1" "we_id (sample_worker c) = 0"
  "we_committee (sample_worker c) = c" "we_codec (sample_worker c) = sample_worker_codec"
  "we_crypto (sample_worker c) = toy_crypto" "batch_size (we_parameters (sample_worker c)) = 1"
  "we_benchmark (sample_worker c) = True" "ser_worker sample_worker_codec = put_message"
  "ser_digest sample_worker_codec = put_report"
  by (simp_all add: sample_worker_def sample_worker_codec_def)

lemma sample_addr_eq [simp]: "i < 256 \<Longrightarrow> j < 256 \<Longrightarrow> sample_addr i p = sample_addr j q \<longleftrightarrow> i = j \<and> p = q"
  using sample_key_inj [of i j] by (auto simp: sample_addr_def sample_key_def)

lemma four_peers [simp]:
  "worker_peers four = [(sample_key 2, sample_addr 2 4), (sample_key 3, sample_addr 3 4), (sample_key 4, sample_addr 4 4)]"
  by (simp add: worker_peers_def others_workers_def sample_committee_def sample_authority_def List.map_filter_simps)

lemmas worker_run_defs = worker_spawn_def bm_start_def qw_start_def rs_new_def bm_transaction_def seal_def Let_def
  rs_send_def hm_entry_def connection_spawn_def maker_result_def qw_next_def link_step_def connection_step_def
  keep_alive_sends_def if_up_def acknowledged_def qw_ack_def processor_step_def bm_reset_def tx_dispatch_def stake_sample

lemma worker_reports:
  "\<exists>s. worker_run four (worker_spawn four empty_store 0) worker_events = Some s \<and>
     wk_to_primary s = [put_report (OurBatch (batch_digest four (put_message (Batch [[5]]))) 0)] \<and>
     bm_sealed (wk_maker s) = [[[5]]] \<and>
     db (wk_store s) (digest_to_vec (batch_digest four (put_message (Batch [[5]])))) \<noteq> None"
  by (simp add: worker_run_defs worker_events_def quorum_sample)

theorem own_batches_have_quorum_witness:
  "\<exists>s k I. worker_run four (worker_spawn four empty_store 0) worker_events = Some s \<and>
     batch_digest four (put_message (Batch [[5]])) = batch_digest four (serialized_batch four s k) \<and>
     acked_by four s k I \<and> 3 \<le> acked_weight four I"
proof -
  obtain s where s: "worker_run four (worker_spawn four empty_store 0) worker_events = Some s"
    "wk_to_primary s = [put_report (OurBatch (batch_digest four (put_message (Batch [[5]]))) 0)]"
    using worker_reports by (elim exE conjE)
  have "ser_digest (we_codec four) (OurBatch (batch_digest four (put_message (Batch [[5]]))) (we_id four)) \<in> set (wk_to_primary s)"
    by (simp add: s(2))
  from own_batches_have_quorum [OF s(1) _ this] s(1) show ?thesis
    by (simp add: put_report_inj quorum_sample)
qed

theorem transactions_in_batches_witness:
  "\<exists>s. worker_run four (worker_spawn four empty_store 0) worker_events = Some s \<and>
     concat (bm_sealed (wk_maker s)) @ bm_batch (wk_maker s) @ wk_transactions s = [[5]] \<and> list_all (batch_ok four) (bm_sealed (wk_maker s))"
proof -
  obtain s where s: "worker_run four (worker_spawn four empty_store 0) worker_events = Some s"
    using worker_reports by (elim exE conjE)
  have "concat (map transaction_of worker_events) = [[5]]" by (simp add: worker_events_def)
  with transactions_in_batches [OF s] s show ?thesis by simp
qed

theorem batch_replies_exact_witness:
  "\<exists>s. worker_run four (worker_spawn four empty_store 0) worker_events = Some s \<and>
     map (batch_digest four \<circ> snd) (worker_helper four (\<lambda>_. False) (wk_store s)
       ([batch_digest four (put_message (Batch [[5]]))], sample_key 3)) = [batch_digest four (put_message (Batch [[5]]))]"
proof -
  obtain s where s: "worker_run four (worker_spawn four empty_store 0) worker_events = Some s"
    "db (wk_store s) (digest_to_vec (batch_digest four (put_message (Batch [[5]])))) \<noteq> None"
    using worker_reports by (elim exE conjE)
  have known: "worker_of (we_committee four) (sample_key 3) (we_id four) =
      Ok \<lparr> transactions = sample_addr 3 3, worker_to_worker = sample_addr 3 4, primary_to_worker = sample_addr 3 5 \<rparr>"
    by (simp add: worker_of_sample)
  from batch_replies_exact [OF s(1) known, of "[batch_digest four (put_message (Batch [[5]]))]"] s show ?thesis
    by simp
qed

text \<open>An authority with all the stake and no peers seals a batch.\<close>

definition lone_committee :: committee where
  "lone_committee = \<lparr> authorities = [(sample_key 1, sample_authority 4 1)] \<rparr>"

abbreviation "lone \<equiv> sample_worker lone_committee"

abbreviation "lone_events \<equiv> [TxFrame [5], MakeBatch 0, NextBatch]"

lemma lone_peers: "worker_peers lone = []"
  by (simp add: worker_peers_def others_workers_def lone_committee_def List.map_filter_simps)

lemma lone_seals:
  "\<exists>s. worker_run lone (worker_spawn lone empty_store 0) lone_events = Some s \<and> bm_sealed (wk_maker s) = [[[5]]] \<and>
     qw_queue (wk_quorum s) = []"
  by (simp add: worker_run_defs lone_peers)

theorem lone_worker_never_reports_witness:
  "\<exists>s. worker_run lone (worker_spawn lone empty_store 0) lone_events = Some s \<and> bm_sealed (wk_maker s) = [[[5]]] \<and>
     qw_queue (wk_quorum s) = [] \<and> wk_own_batches s = [] \<and> quorum_threshold lone_committee \<le> stake_of lone_committee (sample_key 1)"
proof -
  obtain s where s: "worker_run lone (worker_spawn lone empty_store 0) lone_events = Some s"
    "bm_sealed (wk_maker s) = [[[5]]]" "qw_queue (wk_quorum s) = []"
    using lone_seals by (elim exE conjE)
  have "quorum_threshold lone_committee \<le> stake_of lone_committee (sample_key 1)"
    by (simp add: quorum_threshold_def total_votes_def stake_of_def lone_committee_def sample_authority_def)
  with lone_worker_never_reports [OF s(1) lone_peers] s show ?thesis by blast
qed

text \<open>The author of the header, with the batch in its store, gets the request of node 2.\<close>

definition author_worker :: worker_env where
  "author_worker = four\<lparr>we_name := sample_key 3\<rparr>"

theorem missing_batches_asked_of_author_witness:
  "\<exists>s sent. hw_sync_batches sample_waiter [(Digest [3], 0)] waiting_header hw_start = Ok s \<and>
     hw_sent s = [ToWorkerOf (sample_addr 3 5) (Synchronize [Digest [3]] (sample_key 3))] \<and>
     ws_sent (ws_message author_worker (\<lambda>_. False) (store_write empty_store [3] [7]) 0
       (Synchronize [Digest [3]] (sample_key 3)) ws_start) = sent \<and> requested_digests sent = []"
proof -
  obtain s where s: "hw_sync_batches sample_waiter [(Digest [3], 0)] waiting_header hw_start = Ok s"
    "hw_sent s = [ToWorkerOf (sample_addr 3 5) (Synchronize [Digest [3]] (sample_key 3))]"
    by (simp add: hw_sync_batches_def waiter_run_simps waiting_header_def worker_of_sample hm_entry_def)
  have "ToWorkerOf (sample_addr 3 5) (Synchronize [Digest [3]] (sample_key 3)) \<in> set (drop (length (hw_sent hw_start)) (hw_sent s))"
    by (simp add: s(2) hw_start_def)
  moreover have "we_name author_worker = h_author waiting_header" by (simp add: author_worker_def waiting_header_def)
  moreover have "\<forall>(d, w) \<in> set [(Digest [3], 0 :: worker_id)]. db (store_write empty_store [3] [7]) (digest_to_vec d) \<noteq> None"
    by (simp add: digest_to_vec_def)
  ultimately obtain sent where "ws_sent (ws_message author_worker (\<lambda>_. False) (store_write empty_store [3] [7]) 0
       (Synchronize [Digest [3]] (sample_key 3)) ws_start) = ws_sent ws_start @ sent" "requested_digests sent = []"
    using missing_batches_asked_of_author [OF s(1)] by blast
  with s show ?thesis by (simp add: ws_start_def)
qed

end
