(* ===== verification/MystiTypes.thy ===== *)
theory MystiTypes
  imports Config
begin

text \<open>
  Mysticeti, crate \<open>mysticeti-core\<close>: the data of the protocol (types.rs), the digest and
  the signature of a block (crypto.rs) and the bit set of authorities (types.rs).
  Unsigned integers that are only compared and counted are natural numbers; the words of
  the bit set and the stakes keep their 64 bits. BLAKE2b and ed25519 are third-party
  crates: they are the fields of the record \<open>mcrypto\<close>. In the functions that can only
  succeed or panic, \<open>None\<close> is the panic.
\<close>

unbundle bit_operations_syntax

named_theorems mysti_blocks \<open>projections of blocks and references\<close>

section \<open>References and blocks\<close>

record block_reference =
  br_authority :: nat
  br_round :: nat
  br_digest :: bytes

datatype mtransaction = Transaction (tx_data: bytes)

record transaction_locator =
  tl_block :: block_reference
  tl_offset :: nat

record locator_range =
  lr_block :: block_reference
  offset_start_inclusive :: nat
  offset_end_exclusive :: nat

datatype tx_vote = Accept | Reject "transaction_locator option"

datatype base_statement =
    Share mtransaction
  | Vote transaction_locator tx_vote
  | VoteRange locator_range

record authority_round =
  ar_authority :: nat
  ar_round :: nat

record statement_block =
  reference :: block_reference
  block_includes :: "block_reference list"
  statements :: "base_statement list"
  meta_creation_time_ns :: nat
  epoch_marker :: bool
  block_epoch :: nat
  block_signature :: bytes

definition author_round :: "block_reference \<Rightarrow> nat \<times> nat" where
  "author_round r = (br_authority r, br_round r)"

definition author_digest :: "block_reference \<Rightarrow> nat \<times> bytes" where
  "author_digest r = (br_authority r, br_digest r)"

definition block_author :: "statement_block \<Rightarrow> nat" where
  "block_author b = br_authority (reference b)"

definition block_round :: "statement_block \<Rightarrow> nat" where
  "block_round b = br_round (reference b)"

definition block_digest_of :: "statement_block \<Rightarrow> bytes" where
  "block_digest_of b = br_digest (reference b)"

text \<open>\<open>PartialEq\<close> of blocks compares the references only.\<close>

definition block_eq :: "statement_block \<Rightarrow> statement_block \<Rightarrow> bool" where
  "block_eq a b \<longleftrightarrow> reference a = reference b"

definition reference_to_slot :: "block_reference \<Rightarrow> authority_round" where
  "reference_to_slot r = \<lparr>ar_authority = br_authority r, ar_round = br_round r\<rparr>"

lemmas block_simps [mysti_blocks] =
  author_round_def author_digest_def block_author_def block_round_def block_digest_of_def

lemma block_reference_eqI:
  "br_authority (r::block_reference) = br_authority s \<Longrightarrow> br_round r = br_round s \<Longrightarrow>
     br_digest r = br_digest s \<Longrightarrow> r = s"
  by simp

text \<open>
  \<open>Ord\<close> for \<open>BlockReference\<close>: both tuples are built with \<open>self.digest\<close>, as the source has it.
\<close>

datatype cmp_ordering = Less | Equal | Greater

definition cmp_of :: "'a::linorder \<Rightarrow> 'a \<Rightarrow> cmp_ordering" where
  "cmp_of a b = (if a < b then Less else if a = b then Equal else Greater)"

definition block_reference_cmp :: "block_reference \<Rightarrow> block_reference \<Rightarrow> cmp_ordering" where
  "block_reference_cmp self other =
     cmp_of (br_round self, br_authority self, br_digest self)
            (br_round other, br_authority other, br_digest self)"

section \<open>Times\<close>

definition millis_in_nano :: nat where
  "millis_in_nano = 1000000"

definition nanos_in_sec :: nat where
  "nanos_in_sec = 1000000000"

text \<open>\<open>as u64\<close> keeps the low 64 bits.\<close>

definition meta_creation_time_ms :: "statement_block \<Rightarrow> nat" where
  "meta_creation_time_ms b = (meta_creation_time_ns b div millis_in_nano) mod 2 ^ 64"

definition meta_creation_time :: "statement_block \<Rightarrow> nat \<times> nat" where
  "meta_creation_time b =
     ((meta_creation_time_ns b div nanos_in_sec) mod 2 ^ 64,
      (meta_creation_time_ns b mod nanos_in_sec) mod 2 ^ 32)"

section \<open>Ranges of transactions\<close>

definition locator_range_one :: "transaction_locator \<Rightarrow> locator_range" where
  "locator_range_one l = \<lparr>lr_block = tl_block l, offset_start_inclusive = tl_offset l,
     offset_end_exclusive = u64_add (tl_offset l) 1\<rparr>"

definition range_locators :: "locator_range \<Rightarrow> transaction_locator list" where
  "range_locators r = map (\<lambda>k. \<lparr>tl_block = lr_block r, tl_offset = k\<rparr>)
     [offset_start_inclusive r ..< offset_end_exclusive r]"

definition range_len :: "locator_range \<Rightarrow> nat" where
  "range_len r = u64_sub (offset_end_exclusive r) (offset_start_inclusive r)"

datatype block_error =
    DigestMismatch
  | WrongEpoch
  | UnknownAuthor
  | GenesisBlock
  | BadSignature
  | UnknownIncludeAuthority block_reference
  | IncludeRoundTooHigh block_reference
  | RangeReversed
  | RangeTooLong
  | RangeEndTooLarge
  | ThresholdClockInvalid

definition max_transactions :: nat where
  "max_transactions = 1024 * 1024"

definition range_verify :: "locator_range \<Rightarrow> (unit, block_error) outcome" where
  "range_verify r =
     and_then (ensure (offset_start_inclusive r \<le> offset_end_exclusive r) RangeReversed) (\<lambda>_.
     and_then (ensure (range_len r < max_transactions) RangeTooLong) (\<lambda>_.
     ensure (offset_end_exclusive r < max_transactions) RangeEndTooLarge))"

text \<open>\<open>VoteRangeBuilder\<close> (committee.rs): its state is the open range, if any.\<close>

type_synonym vote_range_builder = "(nat \<times> nat) option"

fun vrb_add :: "vote_range_builder \<Rightarrow> nat \<Rightarrow> (nat \<times> nat) option \<times> vote_range_builder" where
  "vrb_add None offset = (None, Some (offset, u64_add offset 1))"
| "vrb_add (Some (s, e)) offset =
     (if e = offset then (None, Some (s, u64_add offset 1))
      else (Some (s, e), Some (offset, u64_add offset 1)))"

definition vrb_finish :: "vote_range_builder \<Rightarrow> (nat \<times> nat) option" where
  "vrb_finish b = b"

definition is_share :: "base_statement \<Rightarrow> bool" where
  "is_share s = (case s of Share _ \<Rightarrow> True | _ \<Rightarrow> False)"

fun shared_loop :: "nat \<Rightarrow> vote_range_builder \<Rightarrow> base_statement list \<Rightarrow> (nat \<times> nat) list" where
  "shared_loop off vrb [] = (case vrb_finish vrb of None \<Rightarrow> [] | Some r \<Rightarrow> [r])"
| "shared_loop off vrb (s # ss) =
     (if is_share s then
        (case vrb_add vrb off of
           (Some r, vrb') \<Rightarrow> r # shared_loop (Suc off) vrb' ss
         | (None, vrb') \<Rightarrow> shared_loop (Suc off) vrb' ss)
      else shared_loop (Suc off) vrb ss)"

definition shared_ranges :: "statement_block \<Rightarrow> locator_range list" where
  "shared_ranges b = map (\<lambda>(s, e). \<lparr>lr_block = reference b, offset_start_inclusive = s,
     offset_end_exclusive = e\<rparr>) (shared_loop 0 None (statements b))"

definition shared_transactions :: "statement_block \<Rightarrow> (transaction_locator \<times> mtransaction) list" where
  "shared_transactions b = List.map_filter
     (\<lambda>(pos, s). case s of Share tx \<Rightarrow> Some (\<lparr>tl_block = reference b, tl_offset = pos\<rparr>, tx) | _ \<Rightarrow> None)
     (List.enumerate 0 (statements b))"

section \<open>Digest and signature of a block\<close>

record mcrypto =
  blake2b :: "bytes \<Rightarrow> bytes"
  ed_verify :: "bytes \<Rightarrow> bytes \<Rightarrow> bytes \<Rightarrow> bool"

text \<open>\<open>to_be_bytes\<close> of an unsigned integer of \<open>k\<close> bytes.\<close>

definition be_bytes :: "nat \<Rightarrow> nat \<Rightarrow> bytes" where
  "be_bytes k n = rev (le_bytes k n)"

definition hash_reference :: "block_reference \<Rightarrow> bytes" where
  "hash_reference r = be_bytes 8 (br_authority r) @ be_bytes 8 (br_round r) @ br_digest r"

definition hash_locator :: "transaction_locator \<Rightarrow> bytes" where
  "hash_locator l = hash_reference (tl_block l) @ be_bytes 8 (tl_offset l)"

definition hash_range :: "locator_range \<Rightarrow> bytes" where
  "hash_range r = hash_reference (lr_block r) @ be_bytes 8 (offset_start_inclusive r) @
     be_bytes 8 (offset_end_exclusive r)"

definition hash_epoch_status :: "bool \<Rightarrow> bytes" where
  "hash_epoch_status e = (if e then [1] else [0])"

fun hash_statement :: "base_statement \<Rightarrow> bytes" where
  "hash_statement (Share tx) = [0] @ tx_data tx"
| "hash_statement (Vote l Accept) = [1] @ hash_locator l"
| "hash_statement (Vote l (Reject None)) = [2] @ hash_locator l"
| "hash_statement (Vote l (Reject (Some other))) = [3] @ hash_locator l @ hash_locator other"
| "hash_statement (VoteRange r) = [4] @ hash_range r"

definition digest_without_signature :: "nat \<Rightarrow> nat \<Rightarrow> block_reference list \<Rightarrow> base_statement list \<Rightarrow>
    nat \<Rightarrow> bool \<Rightarrow> nat \<Rightarrow> bytes" where
  "digest_without_signature authority rnd incs stmts time marker epoch =
     be_bytes 8 authority @ be_bytes 8 rnd @ concat (map hash_reference incs) @
     concat (map hash_statement stmts) @ be_bytes 16 time @ hash_epoch_status marker @
     be_bytes 8 epoch"

definition block_digest_new :: "mcrypto \<Rightarrow> nat \<Rightarrow> nat \<Rightarrow> block_reference list \<Rightarrow> base_statement list \<Rightarrow>
    nat \<Rightarrow> bool \<Rightarrow> nat \<Rightarrow> bytes \<Rightarrow> bytes" where
  "block_digest_new cr authority rnd incs stmts time marker epoch sig =
     blake2b cr (digest_without_signature authority rnd incs stmts time marker epoch @ sig)"

definition statement_block_new :: "mcrypto \<Rightarrow> nat \<Rightarrow> nat \<Rightarrow> block_reference list \<Rightarrow>
    base_statement list \<Rightarrow> nat \<Rightarrow> bool \<Rightarrow> nat \<Rightarrow> bytes \<Rightarrow> statement_block" where
  "statement_block_new cr authority rnd incs stmts time marker epoch sig =
     \<lparr>reference = \<lparr>br_authority = authority, br_round = rnd,
        br_digest = block_digest_new cr authority rnd incs stmts time marker epoch sig\<rparr>,
      block_includes = incs, statements = stmts, meta_creation_time_ns = time,
      epoch_marker = marker, block_epoch = epoch, block_signature = sig\<rparr>"

definition statement_block_with_signer :: "mcrypto \<Rightarrow> (bytes \<Rightarrow> bytes) \<Rightarrow> nat \<Rightarrow> nat \<Rightarrow>
    block_reference list \<Rightarrow> base_statement list \<Rightarrow> nat \<Rightarrow> bool \<Rightarrow> nat \<Rightarrow> statement_block" where
  "statement_block_with_signer cr sign authority rnd incs stmts time marker epoch =
     statement_block_new cr authority rnd incs stmts time marker epoch
       (sign (blake2b cr (digest_without_signature authority rnd incs stmts time marker epoch)))"

definition new_genesis :: "mcrypto \<Rightarrow> nat \<Rightarrow> nat \<Rightarrow> statement_block" where
  "new_genesis cr authority epoch =
     statement_block_new cr authority 0 [] [] 0 False epoch (replicate 64 0)"

definition verify_block :: "mcrypto \<Rightarrow> bytes \<Rightarrow> statement_block \<Rightarrow> bool" where
  "verify_block cr key b = ed_verify cr key (block_signature b)
     (blake2b cr (digest_without_signature (block_author b) (block_round b) (block_includes b)
        (statements b) (meta_creation_time_ns b) (epoch_marker b) (block_epoch b)))"

definition bytes_of_length :: "nat \<Rightarrow> bytes \<Rightarrow> bytes option" where
  "bytes_of_length k v = (if length v = k then Some v else None)"

text \<open>
  The hashed bytes carry no lengths: the last reference of \<open>includes\<close> and a transaction of
  the bytes that follow its first, zero, byte feed the hasher the same bytes.
\<close>

definition include_as_share :: "statement_block \<Rightarrow> statement_block" where
  "include_as_share b = b\<lparr>block_includes := butlast (block_includes b),
     statements := Share (Transaction (tl (hash_reference (last (block_includes b))))) # statements b\<rparr>"

lemma be_bytes_zero_first:
  assumes "n < 256 ^ k"
  shows "be_bytes (Suc k) n = 0 # be_bytes k n"
proof -
  have "le_bytes (Suc k) n = le_bytes k n @ [0]"
    using assms
  proof (induction k arbitrary: n)
    case 0
    then show ?case by simp
  next
    case (Suc k)
    from Suc.prems have "n div 256 < 256 ^ k"
      by (simp add: less_mult_imp_div_less mult.commute)
    then have "le_bytes (Suc k) (n div 256) = le_bytes k (n div 256) @ [0]" by (rule Suc.IH)
    then show ?case by simp
  qed
  then show ?thesis by (simp add: be_bytes_def)
qed

lemma hash_reference_zero_first:
  assumes "br_authority r < 512"
  shows "hash_reference r = 0 # tl (hash_reference r)"
proof -
  have "br_authority r < 256 ^ 7" using assms by simp
  from be_bytes_zero_first [OF this] show ?thesis by (simp add: hash_reference_def)
qed

lemma include_as_share_same_bytes:
  assumes "block_includes b \<noteq> []" "br_authority (last (block_includes b)) < 512"
  shows "digest_without_signature a n (block_includes (include_as_share b)) (statements (include_as_share b)) t m e =
         digest_without_signature a n (block_includes b) (statements b) t m e"
proof -
  from assms(1) obtain rs r where rs: "block_includes b = rs @ [r]"
    by (cases "block_includes b" rule: rev_cases) auto
  with assms(2) have "hash_reference r = 0 # tl (hash_reference r)"
    by (intro hash_reference_zero_first) simp
  then show ?thesis
    by (simp add: digest_without_signature_def include_as_share_def rs)
qed

end
