(* ===== verification/MystiCommittee.thy ===== *)
theory MystiCommittee
  imports MystiTypes
begin

text \<open>
  Mysticeti: the bit set of authorities (types.rs), the committee with its thresholds and
  leader election, and the stake aggregator (committee.rs). The weighted shuffle of the
  crate \<open>rand\<close> is a parameter of the leader election. The release profile sets no
  \<open>overflow-checks\<close>, so \<open>2 * total_stake\<close> wraps.
\<close>

section \<open>Sets of authorities\<close>

type_synonym authority_set = "64 word list"

definition as_empty :: authority_set where
  "as_empty = replicate 8 0"

definition as_insert :: "nat \<Rightarrow> authority_set \<Rightarrow> (bool \<times> authority_set) option" where
  "as_insert index s =
     (let byte_index = index div 64; bt = push_bit (index mod 64) 1 in
      if length s \<le> byte_index then None
      else if s ! byte_index AND bt \<noteq> 0 then Some (False, s)
      else Some (True, s[byte_index := s ! byte_index OR bt]))"

definition as_remove :: "nat \<Rightarrow> authority_set \<Rightarrow> (bool \<times> authority_set) option" where
  "as_remove index s =
     (let byte_index = index div 64; bt = push_bit (index mod 64) 1 in
      if length s \<le> byte_index then None
      else if s ! byte_index AND bt \<noteq> 0 then Some (True, s[byte_index := s ! byte_index XOR bt])
      else Some (False, s))"

definition as_contains :: "nat \<Rightarrow> authority_set \<Rightarrow> bool option" where
  "as_contains index s =
     (let byte_index = index div 64; bt = push_bit (index mod 64) 1 in
      if length s \<le> byte_index then None else Some (s ! byte_index AND bt \<noteq> 0))"

definition as_present :: "authority_set \<Rightarrow> nat list" where
  "as_present s = concat (map (\<lambda>(byte_index, b).
     map (\<lambda>bit_index. byte_index * 64 + bit_index)
       (filter (\<lambda>bit_index. b AND push_bit bit_index 1 \<noteq> 0) [0..<64])) (List.enumerate 0 s))"

definition as_clear :: "authority_set \<Rightarrow> authority_set" where
  "as_clear s = map (\<lambda>_. 0) s"

definition as_all_set :: authority_set where
  "as_all_set = replicate 8 (- 1)"

text \<open>The array has eight elements; the set it stands for.\<close>

definition as_wf :: "authority_set \<Rightarrow> bool" where
  "as_wf s \<longleftrightarrow> length s = 8"

definition as_members :: "authority_set \<Rightarrow> nat set" where
  "as_members s = {i. i < 512 \<and> bit (s ! (i div 64)) (i mod 64)}"

lemma and_push_bit_1: "(w :: 64 word) AND 2 ^ n = 0 \<longleftrightarrow> \<not> bit w n"
  by (simp add: and_exp_eq_0_iff_not_bit)

lemma finite_as_members [simp]: "finite (as_members s)"
  by (rule finite_subset [of _ "{..<512}"]) (auto simp: as_members_def)

lemma as_index_div: "as_wf s \<Longrightarrow> i < 512 \<Longrightarrow> i div 64 < length s"
  by (simp add: as_wf_def)

lemma as_members_update:
  assumes "as_wf s" "i < 512" "\<And>n. n < 64 \<Longrightarrow> bit w n \<longleftrightarrow> (if n = i mod 64 then b else bit (s ! (i div 64)) n)"
  shows "as_members (s[i div 64 := w]) = (if b then insert i (as_members s) else as_members s - {i})"
proof -
  have "j \<in> as_members (s[i div 64 := w]) \<longleftrightarrow> (if j = i then b else j \<in> as_members s)" for j
  proof (cases "j < 512")
    case True
    show ?thesis
    proof (cases "j div 64 = i div 64")
      case same: True
      have ji: "j mod 64 = i mod 64 \<longleftrightarrow> j = i"
      proof
        assume m: "j mod 64 = i mod 64"
        have "j = j div 64 * 64 + j mod 64" by (rule div_mult_mod_eq [symmetric])
        also have "\<dots> = i" by (simp only: m same div_mult_mod_eq)
        finally show "j = i" .
      qed simp
      have new: "j \<in> as_members (s[i div 64 := w]) \<longleftrightarrow> bit w (j mod 64)"
        using True as_index_div [OF assms(1,2)] by (simp add: as_members_def same)
      have old: "j \<in> as_members s \<longleftrightarrow> bit (s ! (i div 64)) (j mod 64)"
        using True by (simp add: as_members_def same)
      have "bit w (j mod 64) \<longleftrightarrow> (if j mod 64 = i mod 64 then b else bit (s ! (i div 64)) (j mod 64))"
        by (rule assms(3)) simp
      then show ?thesis unfolding new old ji .
    next
      case False
      then show ?thesis using True by (auto simp: as_members_def)
    qed
  next
    case False
    then have "j \<noteq> i" using assms(2) by blast
    with False show ?thesis by (simp add: as_members_def)
  qed
  then show ?thesis by (intro set_eqI) simp
qed

lemma as_insert_spec:
  assumes "as_wf s" "i < 512"
  shows "\<exists>s'. as_insert i s = Some (i \<notin> as_members s, s') \<and> as_wf s' \<and>
           as_members s' = insert i (as_members s)"
proof (cases "i \<in> as_members s")
  case True
  then show ?thesis
    using as_index_div [OF assms] assms
    by (auto simp: as_insert_def Let_def and_push_bit_1 as_members_def)
next
  case False
  have "as_members (s[i div 64 := s ! (i div 64) OR push_bit (i mod 64) 1]) = insert i (as_members s)"
    by (rule as_members_update [OF assms, where b = True, simplified])
      (auto simp: bit_or_iff bit_exp_iff)
  then show ?thesis
    using as_index_div [OF assms] assms False
    by (auto simp: as_insert_def Let_def and_push_bit_1 as_members_def as_wf_def)
qed

lemma as_remove_spec:
  assumes "as_wf s" "i < 512"
  shows "\<exists>s'. as_remove i s = Some (i \<in> as_members s, s') \<and> as_wf s' \<and>
           as_members s' = as_members s - {i}"
proof (cases "i \<in> as_members s")
  case False
  then show ?thesis
    using as_index_div [OF assms] assms
    by (auto simp: as_remove_def Let_def and_push_bit_1 as_members_def)
next
  case True
  then have b: "bit (s ! (i div 64)) (i mod 64)" by (simp add: as_members_def)
  have "as_members (s[i div 64 := s ! (i div 64) XOR push_bit (i mod 64) 1]) = as_members s - {i}"
    by (rule as_members_update [OF assms, where b = False, simplified])
      (use b in \<open>auto simp: bit_xor_iff bit_exp_iff\<close>)
  then show ?thesis
    using as_index_div [OF assms] assms True b
    by (auto simp: as_remove_def Let_def and_push_bit_1 as_wf_def)
qed

lemma as_contains_spec: "as_wf s \<Longrightarrow> i < 512 \<Longrightarrow> as_contains i s = Some (i \<in> as_members s)"
  by (simp add: as_contains_def Let_def and_push_bit_1 as_members_def as_index_div not_le)

lemma as_members_empty [simp]: "as_wf as_empty" "as_members as_empty = {}"
  by (auto simp: as_wf_def as_empty_def as_members_def)

lemma as_clear_members [simp]: "as_wf s \<Longrightarrow> as_wf (as_clear s)" "as_wf s \<Longrightarrow> as_members (as_clear s) = {}"
  by (auto simp: as_wf_def as_clear_def as_members_def)

lemma set_as_present:
  assumes "as_wf s"
  shows "set (as_present s) = as_members s"
proof -
  have "i \<in> set (as_present s) \<longleftrightarrow> i < 512 \<and> bit (s ! (i div 64)) (i mod 64)" for i
  proof -
    have "i \<in> set (as_present s) \<longleftrightarrow> (\<exists>q < 8. \<exists>r < 64. bit (s ! q) r \<and> i = q * 64 + r)"
    proof
      assume "i \<in> set (as_present s)"
      then obtain q b r where "(q, b) \<in> set (List.enumerate 0 s)" "r < 64" "bit b r" "i = q * 64 + r"
        by (auto simp: as_present_def and_push_bit_1)
      then show "\<exists>q < 8. \<exists>r < 64. bit (s ! q) r \<and> i = q * 64 + r"
        using assms by (intro exI [of _ q] conjI exI [of _ r]) (auto simp: in_set_enumerate_eq as_wf_def)
    next
      assume "\<exists>q < 8. \<exists>r < 64. bit (s ! q) r \<and> i = q * 64 + r"
      then obtain q r where qr: "q < 8" "r < 64" "bit (s ! q) r" "i = q * 64 + r" by blast
      then have "(q, s ! q) \<in> set (List.enumerate 0 s)"
        using assms by (auto simp: in_set_enumerate_eq as_wf_def)
      then show "i \<in> set (as_present s)"
        using qr by (auto simp: as_present_def and_push_bit_1 intro!: bexI [of _ "(q, s ! q)"])
    qed
    also have "\<dots> \<longleftrightarrow> i < 512 \<and> bit (s ! (i div 64)) (i mod 64)"
    proof
      assume "i < 512 \<and> bit (s ! (i div 64)) (i mod 64)"
      then show "\<exists>q < 8. \<exists>r < 64. bit (s ! q) r \<and> i = q * 64 + r"
        by (intro exI [of _ "i div 64"] conjI exI [of _ "i mod 64"]) auto
    qed auto
    finally show ?thesis .
  qed
  then show ?thesis by (auto simp: as_members_def)
qed

section \<open>The committee\<close>

record validator =
  v_stake :: "64 word"
  v_public_key :: bytes
  v_hostname :: string

record mcommittee =
  mc_authorities :: "validator list"
  mc_epoch :: nat
  mc_validity_threshold :: "64 word"
  mc_quorum_threshold :: "64 word"

fun checked_total :: "64 word \<Rightarrow> validator list \<Rightarrow> (64 word) option" where
  "checked_total t [] = Some t"
| "checked_total t (a # as) =
     (if unat t + unat (v_stake a) < 2 ^ 64 then checked_total (t + v_stake a) as else None)"

definition mc_new :: "validator list \<Rightarrow> nat \<Rightarrow> mcommittee option" where
  "mc_new as epoch =
     (if as = [] then None
      else if \<not> list_all (\<lambda>a. 0 < v_stake a) as then None
      else if 512 < length as then None
      else case checked_total 0 as of
        None \<Rightarrow> None
      | Some total_stake \<Rightarrow> Some \<lparr>mc_authorities = as, mc_epoch = epoch,
          mc_validity_threshold = total_stake div 3,
          mc_quorum_threshold = 2 * total_stake div 3\<rparr>)"

definition mc_len :: "mcommittee \<Rightarrow> nat" where
  "mc_len c = length (mc_authorities c)"

definition mc_get_stake :: "mcommittee \<Rightarrow> nat \<Rightarrow> (64 word) option" where
  "mc_get_stake c a = (if a < mc_len c then Some (v_stake (mc_authorities c ! a)) else None)"

definition mc_validity :: "mcommittee \<Rightarrow> 64 word" where
  "mc_validity c = mc_validity_threshold c + 1"

definition mc_quorum :: "mcommittee \<Rightarrow> 64 word" where
  "mc_quorum c = mc_quorum_threshold c + 1"

definition mc_get_public_key :: "mcommittee \<Rightarrow> nat \<Rightarrow> bytes option" where
  "mc_get_public_key c a = (if a < mc_len c then Some (v_public_key (mc_authorities c ! a)) else None)"

definition mc_known_authority :: "mcommittee \<Rightarrow> nat \<Rightarrow> bool" where
  "mc_known_authority c a \<longleftrightarrow> a < mc_len c"

definition mc_authority_range :: "mcommittee \<Rightarrow> nat list" where
  "mc_authority_range c = [0..<mc_len c]"

definition mc_genesis_blocks :: "mcrypto \<Rightarrow> mcommittee \<Rightarrow> nat \<Rightarrow> statement_block \<times> statement_block list" where
  "mc_genesis_blocks cr c for_authority =
     (new_genesis cr for_authority (mc_epoch c),
      List.map_filter (\<lambda>a. if a = for_authority then None else Some (new_genesis cr a (mc_epoch c)))
        (mc_authority_range c))"

definition mc_authority_safe :: "mcommittee \<Rightarrow> nat \<Rightarrow> validator option" where
  "mc_authority_safe c a = (if a < mc_len c then Some (mc_authorities c ! a) else None)"

definition mc_is_valid :: "mcommittee \<Rightarrow> 64 word \<Rightarrow> bool" where
  "mc_is_valid c amount \<longleftrightarrow> mc_validity_threshold c < amount"

definition mc_is_quorum :: "mcommittee \<Rightarrow> 64 word \<Rightarrow> bool" where
  "mc_is_quorum c amount \<longleftrightarrow> mc_quorum_threshold c < amount"

text \<open>The hash set of authorities is a list without duplicates, in iteration order.\<close>

fun mc_get_total_stake :: "mcommittee \<Rightarrow> nat list \<Rightarrow> (64 word) option" where
  "mc_get_total_stake c [] = Some 0"
| "mc_get_total_stake c (a # as) =
     (if a < mc_len c then map_option (\<lambda>t. v_stake (mc_authorities c ! a) + t) (mc_get_total_stake c as)
      else None)"

text \<open>
  \<open>StdRng::from_seed\<close> and \<open>choose_multiple_weighted\<close> are the parameter \<open>weighted\<close>: the seed,
  the choices with their stakes and the number of items asked for give the shuffled indices.
\<close>

type_synonym weighted_choice = "bytes \<Rightarrow> (nat \<times> 64 word) list \<Rightarrow> nat \<Rightarrow> nat list"

definition leader_seed :: "nat \<Rightarrow> bytes" where
  "leader_seed rnd = replicate 24 0 @ le_bytes 8 rnd"

definition leader_choices :: "mcommittee \<Rightarrow> (nat \<times> 64 word) list" where
  "leader_choices c = map (\<lambda>(index, a). (index, v_stake a)) (List.enumerate 0 (mc_authorities c))"

definition elect_leader_stake_based :: "weighted_choice \<Rightarrow> mcommittee \<Rightarrow> nat \<Rightarrow> nat \<Rightarrow> nat option" where
  "elect_leader_stake_based weighted c rnd offset =
     (if \<not> offset < mc_len c then None
      else if rnd = 0 then Some 0
      else case drop offset (weighted (leader_seed rnd) (leader_choices c) (mc_len c)) of
             [] \<Rightarrow> None
           | leader_index # _ \<Rightarrow> Some leader_index)"

text \<open>Documented: asked for all items with positive weights, the choice is a shuffle of them.\<close>

definition weighted_shuffles :: "weighted_choice \<Rightarrow> mcommittee \<Rightarrow> nat \<Rightarrow> bool" where
  "weighted_shuffles weighted c rnd \<longleftrightarrow>
     mset (weighted (leader_seed rnd) (leader_choices c) (mc_len c)) = mset [0..<mc_len c]"

section \<open>Weights and quorums\<close>

definition mc_weight :: "mcommittee \<Rightarrow> nat \<Rightarrow> nat" where
  "mc_weight c a = (if a < mc_len c then unat (v_stake (mc_authorities c ! a)) else 0)"

definition mc_members :: "mcommittee \<Rightarrow> nat set" where
  "mc_members c = {..<mc_len c}"

definition mc_total :: "mcommittee \<Rightarrow> nat" where
  "mc_total c = sum_list (map (unat \<circ> v_stake) (mc_authorities c))"

text \<open>
  The committee as \<open>Committee::new\<close> builds it, with a total stake below \<open>2 ^ 63\<close> so that
  twice the total does not wrap.
\<close>

definition mc_ok :: "mcommittee \<Rightarrow> bool" where
  "mc_ok c \<longleftrightarrow> mc_authorities c \<noteq> [] \<and> mc_len c \<le> 512 \<and> mc_total c < 2 ^ 63 \<and>
     unat (mc_validity_threshold c) = mc_total c div 3 \<and>
     unat (mc_quorum_threshold c) = 2 * mc_total c div 3"

lemma checked_total_Some:
  "checked_total t as = Some t' \<longleftrightarrow>
     unat t + sum_list (map (unat \<circ> v_stake) as) < 2 ^ 64 \<and>
     unat t' = unat t + sum_list (map (unat \<circ> v_stake) as)"
proof (induction as arbitrary: t)
  case Nil
  have "unat t < 2 ^ 64" using unsigned_less [of t] by simp
  then show ?case by (auto simp: word_unat_eq_iff)
next
  case (Cons a as)
  show ?case
  proof (cases "unat t + unat (v_stake a) < 2 ^ 64")
    case True
    then have "unat (t + v_stake a) = unat t + unat (v_stake a)" by (simp add: unat_word_ariths)
    with Cons [of "t + v_stake a"] True show ?thesis by (simp add: add.assoc)
  next
    case False
    then show ?thesis by simp
  qed
qed

lemma mc_new_ok:
  assumes "mc_new as epoch = Some c" "sum_list (map (unat \<circ> v_stake) as) < 2 ^ 63"
  shows "mc_ok c"
proof -
  from assms(1) obtain t where t: "checked_total 0 as = Some t" "as \<noteq> []" "length as \<le> 512"
    and c: "c = \<lparr>mc_authorities = as, mc_epoch = epoch, mc_validity_threshold = t div 3,
        mc_quorum_threshold = 2 * t div 3\<rparr>"
    by (auto simp: mc_new_def split: if_splits option.splits)
  from t(1) have ut: "unat t = sum_list (map (unat \<circ> v_stake) as)"
    by (simp add: checked_total_Some)
  then have "unat (2 * t) = 2 * unat t" using assms(2) by (simp add: unat_word_ariths)
  then show ?thesis
    using t assms(2) ut by (simp add: mc_ok_def c mc_len_def mc_total_def unat_div)
qed

lemma mc_total_sum: "mc_total c = sum (mc_weight c) (mc_members c)"
proof -
  have "mc_total c = sum_list (map (mc_weight c) [0..<mc_len c])"
    unfolding mc_total_def mc_len_def
    by (rule arg_cong [of _ _ sum_list]) (rule nth_equalityI, auto simp: mc_weight_def mc_len_def)
  also have "\<dots> = sum (mc_weight c) (set [0..<mc_len c])"
    by (rule sum_list_distinct_conv_sum_set) simp
  finally show ?thesis by (simp add: mc_members_def atLeast0LessThan)
qed

lemma mc_quorum_unat:
  assumes "mc_ok c"
  shows "unat (mc_quorum c) = 2 * mc_total c div 3 + 1"
proof -
  have "mc_total c < 9223372036854775808" using assms by (simp add: mc_ok_def)
  then have "Suc (2 * mc_total c div 3) < 18446744073709551616" by linarith
  then show ?thesis using assms by (simp add: mc_quorum_def unat_word_ariths mc_ok_def)
qed

lemma mc_validity_unat:
  assumes "mc_ok c"
  shows "unat (mc_validity c) = mc_total c div 3 + 1"
proof -
  have "mc_total c < 9223372036854775808" using assms by (simp add: mc_ok_def)
  then have "Suc (mc_total c div 3) < 18446744073709551616" by linarith
  then show ?thesis using assms by (simp add: mc_validity_def unat_word_ariths mc_ok_def)
qed

interpretation mq: quorum_system mc_ok mc_members mc_weight "unat \<circ> mc_quorum" "unat \<circ> mc_validity"
proof unfold_locales
  fix c :: mcommittee
  assume ok: "mc_ok c"
  note th = mc_quorum_unat [OF ok] mc_validity_unat [OF ok] mc_total_sum [symmetric]
  show "finite (mc_members c)" by (simp add: mc_members_def)
  show "sum (mc_weight c) (mc_members c) + (unat \<circ> mc_validity) c \<le> 2 * (unat \<circ> mc_quorum) c"
    by (simp add: th)
  show "sum (mc_weight c) (mc_members c) < (unat \<circ> mc_quorum) c + (unat \<circ> mc_validity) c"
    by (simp add: th)
  show "sum (mc_weight c) (mc_members c) < 2 * (unat \<circ> mc_quorum) c"
    by (simp add: th)
qed

lemma mc_weight_le: "S \<subseteq> mc_members c \<Longrightarrow> sum (mc_weight c) S \<le> mc_total c"
  by (simp add: mc_total_sum mc_members_def sum_mono2)

text \<open>The facts of the locale, over a constant of the model.\<close>

definition mc_has_quorum :: "mcommittee \<Rightarrow> nat set \<Rightarrow> bool" where
  "mc_has_quorum c S \<longleftrightarrow> S \<subseteq> mc_members c \<and> unat (mc_quorum c) \<le> sum (mc_weight c) S"

lemma mc_has_quorum_eq: "mq.has_quorum = mc_has_quorum"
  by (simp add: fun_eq_iff mq.has_quorum_def mc_has_quorum_def)

lemma mc_quorum_intersection:
  assumes "mc_ok c" "mc_has_quorum c S" "mc_has_quorum c T"
  shows "unat (mc_validity c) \<le> sum (mc_weight c) (S \<inter> T)"
  using mq.quorum_intersection [unfolded mc_has_quorum_eq, OF assms] by simp

lemma mc_has_quorum_mono:
  assumes "mc_has_quorum c S" "S \<subseteq> T" "T \<subseteq> mc_members c"
  shows "mc_has_quorum c T"
proof -
  have "finite T" using assms(3) by (rule finite_subset) (simp add: mc_members_def)
  then have "sum (mc_weight c) S \<le> sum (mc_weight c) T" using assms(2) by (intro sum_mono2) auto
  then show ?thesis using assms by (auto simp: mc_has_quorum_def)
qed

lemma mc_no_empty_quorum [simp]: "mc_ok c \<Longrightarrow> \<not> mc_has_quorum c {}"
  by (simp add: mc_has_quorum_def mc_quorum_unat)

section \<open>Stake aggregators\<close>

datatype threshold_kind = QuorumThreshold | ValidityThreshold

fun is_threshold :: "threshold_kind \<Rightarrow> mcommittee \<Rightarrow> 64 word \<Rightarrow> bool" where
  "is_threshold QuorumThreshold c amount = mc_is_quorum c amount"
| "is_threshold ValidityThreshold c amount = mc_is_valid c amount"

record stake_aggregator =
  agg_votes :: authority_set
  agg_stake :: "64 word"

definition agg_new :: stake_aggregator where
  "agg_new = \<lparr>agg_votes = as_empty, agg_stake = 0\<rparr>"

definition agg_add :: "threshold_kind \<Rightarrow> mcommittee \<Rightarrow> nat \<Rightarrow> stake_aggregator \<Rightarrow>
    (bool \<times> stake_aggregator) option" where
  "agg_add th c vote a = (case mc_get_stake c vote of
     None \<Rightarrow> None
   | Some stake \<Rightarrow>
       (case as_insert vote (agg_votes a) of
          None \<Rightarrow> None
        | Some (fresh, votes') \<Rightarrow>
            let a' = (if fresh then \<lparr>agg_votes = votes', agg_stake = agg_stake a + stake\<rparr>
                      else a\<lparr>agg_votes := votes'\<rparr>)
            in Some (is_threshold th c (agg_stake a'), a')))"

definition agg_clear :: "stake_aggregator \<Rightarrow> stake_aggregator" where
  "agg_clear a = \<lparr>agg_votes = as_clear (agg_votes a), agg_stake = 0\<rparr>"

definition agg_voters :: "stake_aggregator \<Rightarrow> nat list" where
  "agg_voters a = as_present (agg_votes a)"

definition agg_members :: "stake_aggregator \<Rightarrow> nat set" where
  "agg_members a = as_members (agg_votes a)"

definition agg_ok :: "mcommittee \<Rightarrow> stake_aggregator \<Rightarrow> bool" where
  "agg_ok c a \<longleftrightarrow> as_wf (agg_votes a) \<and> agg_members a \<subseteq> mc_members c \<and>
     unat (agg_stake a) = sum (mc_weight c) (agg_members a)"

lemma agg_new_ok [simp]: "agg_ok c agg_new" "agg_members agg_new = {}"
  by (simp_all add: agg_ok_def agg_new_def agg_members_def)

lemma agg_clear_ok [simp]: "agg_ok c a \<Longrightarrow> agg_ok c (agg_clear a)" "agg_ok c a \<Longrightarrow> agg_members (agg_clear a) = {}"
  by (simp_all add: agg_ok_def agg_clear_def agg_members_def)

lemma agg_quorum:
  assumes "mc_ok c" "agg_ok c a"
  shows "mc_is_quorum c (agg_stake a) \<longleftrightarrow> mc_has_quorum c (agg_members a)"
  using assms mc_quorum_unat [OF assms(1)]
  by (auto simp: mc_is_quorum_def word_less_nat_alt agg_ok_def mc_has_quorum_def mc_ok_def)

lemma agg_add_spec:
  assumes "mc_ok c" "agg_ok c a" "v < mc_len c"
  shows "\<exists>a'. agg_add th c v a = Some (is_threshold th c (agg_stake a'), a') \<and> agg_ok c a' \<and>
           agg_members a' = insert v (agg_members a)"
proof -
  have v: "v < 512" using assms(1,3) by (simp add: mc_ok_def)
  have wf: "as_wf (agg_votes a)" using assms(2) by (simp add: agg_ok_def)
  from as_insert_spec [OF wf v] obtain s' where s':
    "as_insert v (agg_votes a) = Some (v \<notin> agg_members a, s')" "as_wf s'"
    "as_members s' = insert v (agg_members a)"
    by (auto simp: agg_members_def)
  have sub: "insert v (agg_members a) \<subseteq> mc_members c"
    using assms(2,3) by (simp add: agg_ok_def mc_members_def)
  have fin: "finite (agg_members a)" by (simp add: agg_members_def)
  define a' where "a' = (if v \<notin> agg_members a
      then \<lparr>agg_votes = s', agg_stake = agg_stake a + v_stake (mc_authorities c ! v)\<rparr>
      else a\<lparr>agg_votes := s'\<rparr>)"
  have add: "agg_add th c v a = Some (is_threshold th c (agg_stake a'), a')"
    using assms(3) s'(1) by (simp add: agg_add_def mc_get_stake_def a'_def Let_def)
  have mem: "agg_members a' = insert v (agg_members a)"
    by (simp add: a'_def agg_members_def s'(3) [unfolded agg_members_def])
  have "unat (agg_stake a') = sum (mc_weight c) (insert v (agg_members a))"
  proof (cases "v \<in> agg_members a")
    case True
    then show ?thesis using assms(2) by (simp add: a'_def insert_absorb agg_ok_def)
  next
    case False
    have w: "unat (v_stake (mc_authorities c ! v)) = mc_weight c v"
      using assms(3) by (simp add: mc_weight_def)
    have "sum (mc_weight c) (insert v (agg_members a)) < 2 ^ 64"
      using mc_weight_le [OF sub] assms(1) by (simp add: mc_ok_def)
    then have "unat (agg_stake a) + unat (v_stake (mc_authorities c ! v)) < 2 ^ 64"
      using False fin assms(2) by (simp add: w agg_ok_def)
    then have "unat (agg_stake a + v_stake (mc_authorities c ! v)) =
        unat (agg_stake a) + unat (v_stake (mc_authorities c ! v))"
      by (simp add: unat_word_ariths)
    then show ?thesis using False fin assms(2) by (simp add: a'_def w agg_ok_def)
  qed
  moreover have "as_wf (agg_votes a')" using s'(2) by (simp add: a'_def)
  ultimately have "agg_ok c a'" using sub unfolding agg_ok_def mem by blast
  with add mem show ?thesis by blast
qed

lemma agg_add_quorum:
  assumes "mc_ok c" "agg_ok c a" "v < mc_len c"
  obtains a' where "agg_add QuorumThreshold c v a = Some (mc_has_quorum c (agg_members a'), a')"
    "agg_ok c a'" "agg_members a' = insert v (agg_members a)"
proof -
  from agg_add_spec [OF assms, of QuorumThreshold] obtain a' where a':
    "agg_add QuorumThreshold c v a = Some (mc_is_quorum c (agg_stake a'), a')" "agg_ok c a'"
    "agg_members a' = insert v (agg_members a)"
    by auto
  with agg_quorum [OF assms(1) a'(2)] show ?thesis by (intro that) simp_all
qed

end
