(* ===== verification/MystiClock.thy ===== *)
theory MystiClock
  imports MystiCommittee
begin

text \<open>
  Mysticeti: validity of a block's threshold clock and the clock of a node
  (threshold_clock.rs), verification of a received block (\<open>StatementBlock::verify\<close>,
  types.rs) and the epoch manager (epoch_close.rs). Metrics are left out; the time of the
  last quorum is a field fed by the parameter \<open>now\<close>.
\<close>

section \<open>Threshold clock of a block\<close>

fun tc_loop :: "mcommittee \<Rightarrow> nat \<Rightarrow> block_reference list \<Rightarrow> stake_aggregator \<Rightarrow> bool \<Rightarrow> bool option" where
  "tc_loop c parent_round [] aggregator is_quorum = Some is_quorum"
| "tc_loop c parent_round (i # is) aggregator is_quorum =
     (if br_round i = parent_round then
        (case agg_add QuorumThreshold c (br_authority i) aggregator of
           None \<Rightarrow> None
         | Some (q, aggregator') \<Rightarrow> tc_loop c parent_round is aggregator' q)
      else tc_loop c parent_round is aggregator is_quorum)"

definition threshold_clock_valid_non_genesis :: "statement_block \<Rightarrow> mcommittee \<Rightarrow> bool option" where
  "threshold_clock_valid_non_genesis b c =
     (if \<not> 0 < block_round b then None
      else if list_ex (\<lambda>i. block_round b \<le> br_round i) (block_includes b) then Some False
      else tc_loop c (block_round b - 1) (block_includes b) agg_new False)"

definition parent_authorities :: "statement_block \<Rightarrow> nat set" where
  "parent_authorities b = br_authority ` {i \<in> set (block_includes b). br_round i = block_round b - 1}"

lemma tc_loop_spec:
  assumes "mc_ok c" "agg_ok c a" "\<forall>i \<in> set is. br_authority i < mc_len c"
    and "q \<longleftrightarrow> mc_has_quorum c (agg_members a)"
  shows "tc_loop c r is a q = Some (mc_has_quorum c
           (agg_members a \<union> br_authority ` {i \<in> set is. br_round i = r}))"
  using assms(2-4)
proof (induction "is" arbitrary: a q)
  case Nil
  then show ?case by simp
next
  case (Cons i "is")
  show ?case
  proof (cases "br_round i = r")
    case True
    have "br_authority i < mc_len c" using Cons.prems(2) by simp
    from agg_add_quorum [OF assms(1) Cons.prems(1) this] obtain a' where a':
      "agg_add QuorumThreshold c (br_authority i) a = Some (mc_has_quorum c (agg_members a'), a')"
      "agg_ok c a'" "agg_members a' = insert (br_authority i) (agg_members a)" .
    have "br_authority ` {j \<in> set (i # is). br_round j = r} =
        insert (br_authority i) (br_authority ` {j \<in> set is. br_round j = r})"
      using True by auto
    with a' Cons.IH [OF a'(2)] Cons.prems(2) True show ?thesis by simp
  next
    case False
    then have "{j \<in> set (i # is). br_round j = r} = {j \<in> set is. br_round j = r}" by auto
    with Cons.IH [OF Cons.prems(1)] Cons.prems False show ?thesis by simp
  qed
qed

lemma threshold_clock_spec:
  assumes "mc_ok c" "0 < block_round b" "\<forall>i \<in> set (block_includes b). br_authority i < mc_len c"
    and "\<forall>i \<in> set (block_includes b). br_round i < block_round b"
  shows "threshold_clock_valid_non_genesis b c = Some (mc_has_quorum c (parent_authorities b))"
proof -
  have "\<not> list_ex (\<lambda>i. block_round b \<le> br_round i) (block_includes b)"
    using assms(4) by (auto simp: list_ex_iff)
  then show ?thesis
    using tc_loop_spec [OF assms(1) agg_new_ok(1) assms(3), of False "block_round b - 1"] assms(1,2)
    by (simp add: threshold_clock_valid_non_genesis_def parent_authorities_def)
qed

section \<open>Verification of a block\<close>

fun verify_includes :: "mcommittee \<Rightarrow> nat \<Rightarrow> block_reference list \<Rightarrow> (unit, block_error) outcome" where
  "verify_includes c rnd [] = Ok ()"
| "verify_includes c rnd (i # is) =
     and_then (ensure (mc_known_authority c (br_authority i)) (UnknownIncludeAuthority i)) (\<lambda>_.
     and_then (ensure (br_round i < rnd) (IncludeRoundTooHigh i)) (\<lambda>_.
     verify_includes c rnd is))"

fun verify_statements :: "base_statement list \<Rightarrow> (unit, block_error) outcome" where
  "verify_statements [] = Ok ()"
| "verify_statements (Share _ # ss) = verify_statements ss"
| "verify_statements (Vote _ _ # ss) = verify_statements ss"
| "verify_statements (VoteRange r # ss) = and_then (range_verify r) (\<lambda>_. verify_statements ss)"

definition verify :: "mcrypto \<Rightarrow> mcommittee \<Rightarrow> statement_block \<Rightarrow> (unit, block_error) outcome" where
  "verify cr c b =
     and_then (ensure (block_digest_new cr (block_author b) (block_round b) (block_includes b)
         (statements b) (meta_creation_time_ns b) (epoch_marker b) (block_epoch b)
         (block_signature b) = block_digest_of b) DigestMismatch) (\<lambda>_.
     and_then (ensure (block_epoch b = mc_epoch c) WrongEpoch) (\<lambda>_.
     case mc_get_public_key c (block_author b) of
       None \<Rightarrow> Err UnknownAuthor
     | Some pub_key \<Rightarrow>
         if block_round b = 0 then Err GenesisBlock
         else if \<not> verify_block cr pub_key b then Err BadSignature
         else and_then (verify_includes c (block_round b) (block_includes b)) (\<lambda>_.
              and_then (verify_statements (statements b)) (\<lambda>_.
              case threshold_clock_valid_non_genesis b c of
                None \<Rightarrow> Panic
              | Some valid \<Rightarrow> ensure valid ThresholdClockInvalid))))"

definition ranges_ok :: "base_statement list \<Rightarrow> bool" where
  "ranges_ok ss \<longleftrightarrow> (\<forall>r. VoteRange r \<in> set ss \<longrightarrow> range_verify r = Ok ())"

lemma verify_includes_Ok:
  "verify_includes c n is = Ok () \<longleftrightarrow>
     (\<forall>i \<in> set is. br_authority i < mc_len c \<and> br_round i < n)"
  by (induction "is") (auto simp: mc_known_authority_def)

lemma verify_includes_not_Panic [simp]: "verify_includes c n is \<noteq> Panic"
  by (induction "is") (auto simp: and_then_Panic)

lemma range_verify_not_Panic [simp]: "range_verify r \<noteq> Panic"
  by (simp add: range_verify_def and_then_Panic)

lemma verify_statements_Ok: "verify_statements ss = Ok () \<longleftrightarrow> ranges_ok ss"
  by (induction ss rule: verify_statements.induct) (auto simp: ranges_ok_def)

lemma verify_statements_not_Panic [simp]: "verify_statements ss \<noteq> Panic"
  by (induction ss rule: verify_statements.induct) (auto simp: and_then_Panic)

text \<open>A verified block: what every block of the dag other than genesis satisfies.\<close>

definition verified :: "mcrypto \<Rightarrow> mcommittee \<Rightarrow> statement_block \<Rightarrow> bool" where
  "verified cr c b \<longleftrightarrow>
     block_digest_new cr (block_author b) (block_round b) (block_includes b) (statements b)
       (meta_creation_time_ns b) (epoch_marker b) (block_epoch b) (block_signature b) = block_digest_of b \<and>
     block_epoch b = mc_epoch c \<and> block_author b < mc_len c \<and> 0 < block_round b \<and>
     verify_block cr (v_public_key (mc_authorities c ! block_author b)) b \<and>
     (\<forall>i \<in> set (block_includes b). br_authority i < mc_len c \<and> br_round i < block_round b) \<and>
     ranges_ok (statements b) \<and> mc_has_quorum c (parent_authorities b)"

lemma verify_Ok_iff:
  assumes "mc_ok c"
  shows "verify cr c b = Ok () \<longleftrightarrow> verified cr c b"
proof (cases "block_author b < mc_len c \<and> 0 < block_round b \<and>
    (\<forall>i \<in> set (block_includes b). br_authority i < mc_len c \<and> br_round i < block_round b)")
  case True
  then have "threshold_clock_valid_non_genesis b c = Some (mc_has_quorum c (parent_authorities b))"
    by (intro threshold_clock_spec [OF assms]) auto
  with True show ?thesis
    by (auto simp: verify_def verified_def verify_includes_Ok verify_statements_Ok mc_get_public_key_def)
next
  case False
  then show ?thesis
    by (auto simp: verify_def verified_def verify_includes_Ok mc_get_public_key_def split: if_splits)
qed

lemma verify_not_Panic:
  assumes "mc_ok c"
  shows "verify cr c b \<noteq> Panic"
proof
  assume P: "verify cr c b = Panic"
  then have *: "0 < block_round b" "verify_includes c (block_round b) (block_includes b) = Ok ()"
    "threshold_clock_valid_non_genesis b c = None"
    by (auto simp: verify_def and_then_Panic split: option.splits if_splits)
  then show False
    using threshold_clock_spec [OF assms *(1)] by (auto simp: verify_includes_Ok)
qed

section \<open>The clock of a node\<close>

record threshold_clock =
  tc_aggregator :: stake_aggregator
  tc_round :: nat
  tc_last_quorum_ts :: nat

definition tc_new :: "nat \<Rightarrow> nat \<Rightarrow> threshold_clock" where
  "tc_new rnd now = \<lparr>tc_aggregator = agg_new, tc_round = rnd, tc_last_quorum_ts = now\<rparr>"

definition tc_add_block :: "mcommittee \<Rightarrow> nat \<Rightarrow> block_reference \<Rightarrow> threshold_clock \<Rightarrow> threshold_clock option" where
  "tc_add_block c now blk t = (case cmp_of (br_round blk) (tc_round t) of
     Less \<Rightarrow> Some t
   | Greater \<Rightarrow>
       (case agg_add QuorumThreshold c (br_authority blk) (agg_clear (tc_aggregator t)) of
          None \<Rightarrow> None
        | Some (_, a) \<Rightarrow> Some (t\<lparr>tc_aggregator := a, tc_round := br_round blk\<rparr>))
   | Equal \<Rightarrow>
       (case agg_add QuorumThreshold c (br_authority blk) (tc_aggregator t) of
          None \<Rightarrow> None
        | Some (True, a) \<Rightarrow> Some \<lparr>tc_aggregator = agg_clear a, tc_round = br_round blk + 1,
            tc_last_quorum_ts = now\<rparr>
        | Some (False, a) \<Rightarrow> Some (t\<lparr>tc_aggregator := a\<rparr>)))"

text \<open>The clock after a sequence of blocks, each with the time of its arrival.\<close>

fun tc_run :: "mcommittee \<Rightarrow> (nat \<times> block_reference) list \<Rightarrow> threshold_clock \<Rightarrow> threshold_clock option" where
  "tc_run c [] t = Some t"
| "tc_run c ((now, blk) # rest) t =
     (case tc_add_block c now blk t of None \<Rightarrow> None | Some t' \<Rightarrow> tc_run c rest t')"

definition authors_at :: "block_reference set \<Rightarrow> nat \<Rightarrow> nat set" where
  "authors_at B n = br_authority ` {i \<in> B. br_round i = n}"

text \<open>
  The specification: the rounds that the blocks seen so far justify, whatever their order.
\<close>

definition justified_rounds :: "mcommittee \<Rightarrow> block_reference set \<Rightarrow> nat set" where
  "justified_rounds c B = insert 0 (br_round ` B \<union>
     Suc ` {n \<in> br_round ` B. mc_has_quorum c (authors_at B n)})"

definition clock_inv :: "mcommittee \<Rightarrow> block_reference set \<Rightarrow> threshold_clock \<Rightarrow> bool" where
  "clock_inv c B t \<longleftrightarrow> finite B \<and> agg_ok c (tc_aggregator t) \<and>
     agg_members (tc_aggregator t) = authors_at B (tc_round t) \<and>
     (\<forall>i \<in> B. br_round i \<le> tc_round t) \<and>
     \<not> mc_has_quorum c (authors_at B (tc_round t)) \<and>
     tc_round t \<in> justified_rounds c B"

definition no_single_quorum :: "mcommittee \<Rightarrow> bool" where
  "no_single_quorum c \<longleftrightarrow> (\<forall>a < mc_len c. \<not> mc_has_quorum c {a})"

lemma authors_at_insert:
  "authors_at (insert i B) n = (if br_round i = n then insert (br_authority i) (authors_at B n) else authors_at B n)"
proof -
  have "{j \<in> insert i B. br_round j = n} =
      (if br_round i = n then insert i {j \<in> B. br_round j = n} else {j \<in> B. br_round j = n})"
    by auto
  then show ?thesis by (simp add: authors_at_def)
qed

lemma authors_at_above: "\<forall>i \<in> B. br_round i < n \<Longrightarrow> authors_at B n = {}"
  by (auto simp: authors_at_def)

lemma authors_at_members: "\<forall>i \<in> B. br_authority i < mc_len c \<Longrightarrow> authors_at B n \<subseteq> mc_members c"
  by (auto simp: authors_at_def mc_members_def)

lemma justified_insert:
  assumes "\<forall>i \<in> insert x B. br_authority i < mc_len c" "n \<in> justified_rounds c B"
  shows "n \<in> justified_rounds c (insert x B)"
proof -
  have "mc_has_quorum c (authors_at (insert x B) k)" if "mc_has_quorum c (authors_at B k)" for k
    by (rule mc_has_quorum_mono [OF that])
      (use authors_at_members [OF assms(1)] in \<open>auto simp: authors_at_insert\<close>)
  then show ?thesis using assms(2) by (auto simp: justified_rounds_def)
qed

lemma clock_inv_step:
  assumes ok: "mc_ok c" "no_single_quorum c" and inv: "clock_inv c B t"
    and known: "\<forall>i \<in> insert blk B. br_authority i < mc_len c"
  shows "\<exists>t'. tc_add_block c now blk t = Some t' \<and> clock_inv c (insert blk B) t'"
proof -
  have a: "br_authority blk < mc_len c" using known by simp
  note just = justified_insert [OF known]
  note inv' = inv [unfolded clock_inv_def]
  consider (lt) "br_round blk < tc_round t" | (eq) "br_round blk = tc_round t" | (gt) "tc_round t < br_round blk"
    by (rule linorder_cases)
  then show ?thesis
  proof cases
    case lt
    then show ?thesis
      using inv' just by (auto simp: tc_add_block_def cmp_of_def clock_inv_def authors_at_insert)
  next
    case gt
    have ok': "agg_ok c (agg_clear (tc_aggregator t))" using inv' by simp
    from agg_add_quorum [OF ok(1) ok' a] obtain a' where a':
      "agg_add QuorumThreshold c (br_authority blk) (agg_clear (tc_aggregator t)) =
         Some (mc_has_quorum c (agg_members a'), a')" "agg_ok c a'"
      "agg_members a' = insert (br_authority blk) (agg_members (agg_clear (tc_aggregator t)))" .
    have single: "agg_members a' = {br_authority blk}" 
      using a'(3) inv' by (simp add: agg_clear_ok(2) [of c])
    have none: "authors_at B (br_round blk) = {}"
      by (rule authors_at_above) (use inv' gt in \<open>auto intro: le_less_trans\<close>)
    have "clock_inv c (insert blk B) (t\<lparr>tc_aggregator := a', tc_round := br_round blk\<rparr>)"
      using inv' gt a'(2) single none ok(2) a
      by (auto simp: clock_inv_def authors_at_insert no_single_quorum_def justified_rounds_def)
    then show ?thesis using gt a'(1) by (simp add: tc_add_block_def cmp_of_def)
  next
    case eq
    have oka: "agg_ok c (tc_aggregator t)" using inv' by simp
    from agg_add_quorum [OF ok(1) oka a] obtain a' where a':
      "agg_add QuorumThreshold c (br_authority blk) (tc_aggregator t) =
         Some (mc_has_quorum c (agg_members a'), a')" "agg_ok c a'"
      "agg_members a' = insert (br_authority blk) (agg_members (tc_aggregator t))" .
    have mem: "agg_members a' = authors_at (insert blk B) (br_round blk)"
      using inv' a'(3) eq by (simp add: authors_at_insert)
    show ?thesis
    proof (cases "mc_has_quorum c (agg_members a')")
      case True
      let ?t = "\<lparr>tc_aggregator = agg_clear a', tc_round = br_round blk + 1, tc_last_quorum_ts = now\<rparr>"
      have above: "authors_at (insert blk B) (br_round blk + 1) = {}"
        by (rule authors_at_above) (use inv' eq in auto)
      have "clock_inv c (insert blk B) ?t"
        using inv' a'(2) above True eq ok(1)
        by (auto simp: clock_inv_def mem justified_rounds_def agg_clear_ok(2) [of c])
      then show ?thesis using a'(1) True eq by (simp add: tc_add_block_def cmp_of_def)
    next
      case False
      have "clock_inv c (insert blk B) (t\<lparr>tc_aggregator := a'\<rparr>)"
        using inv' a'(2) mem False eq just by (auto simp: clock_inv_def)
      then show ?thesis using a'(1) False eq by (simp add: tc_add_block_def cmp_of_def)
    qed
  qed
qed

lemma clock_inv_run:
  assumes "mc_ok c" "no_single_quorum c" "clock_inv c B t"
    and "\<forall>i \<in> B \<union> snd ` set bs. br_authority i < mc_len c"
  shows "\<exists>t'. tc_run c bs t = Some t' \<and> clock_inv c (B \<union> snd ` set bs) t'"
  using assms(3,4)
proof (induction bs arbitrary: B t)
  case Nil
  then show ?case by simp
next
  case (Cons nb bs)
  obtain now blk where nb: "nb = (now, blk)" by (cases nb)
  from clock_inv_step [OF assms(1,2) Cons.prems(1), of blk now] Cons.prems(2) nb
  obtain t' where t': "tc_add_block c now blk t = Some t'" "clock_inv c (insert blk B) t'" by auto
  from Cons.IH [OF t'(2)] Cons.prems(2) nb t'(1) show ?case by simp
qed

lemma clock_inv_Max:
  assumes "clock_inv c B t"
  shows "tc_round t = Max (justified_rounds c B)"
proof (rule sym, rule Max_eqI)
  note inv' = assms [unfolded clock_inv_def]
  show "finite (justified_rounds c B)" using inv' by (auto simp: justified_rounds_def)
  show "tc_round t \<in> justified_rounds c B" using inv' by simp
  fix n assume "n \<in> justified_rounds c B"
  then consider "n = 0" | "n \<in> br_round ` B"
    | k where "n = Suc k" "k \<in> br_round ` B" "mc_has_quorum c (authors_at B k)"
    by (auto simp: justified_rounds_def)
  then show "n \<le> tc_round t"
  proof cases
    case 3
    then have "k \<le> tc_round t" "k \<noteq> tc_round t" using inv' by auto
    with 3(1) show ?thesis by simp
  qed (use inv' in auto)
qed

lemma clock_inv_new: "mc_ok c \<Longrightarrow> clock_inv c {} (tc_new 0 now)"
  by (simp add: clock_inv_def tc_new_def authors_at_def justified_rounds_def)

section \<open>The epoch manager\<close>

datatype internal_epoch_status = EpochOpen | BeginChange | SafeToClose

record epoch_manager =
  em_status :: internal_epoch_status
  em_aggregator :: stake_aggregator
  em_close_time :: nat

definition em_new :: epoch_manager where
  "em_new = \<lparr>em_status = EpochOpen, em_aggregator = agg_new, em_close_time = 0\<rparr>"

definition em_epoch_change_begun :: "epoch_manager \<Rightarrow> epoch_manager" where
  "em_epoch_change_begun e = (if em_status e = EpochOpen then e\<lparr>em_status := BeginChange\<rparr> else e)"

definition em_observe_committed_block :: "mcommittee \<Rightarrow> nat \<Rightarrow> statement_block \<Rightarrow> epoch_manager \<Rightarrow> epoch_manager option" where
  "em_observe_committed_block c now b e =
     (if \<not> epoch_marker b then Some e
      else case agg_add QuorumThreshold c (block_author b) (em_aggregator e) of
        None \<Rightarrow> None
      | Some (is_quorum, a) \<Rightarrow>
          if is_quorum \<and> em_status e \<noteq> SafeToClose then
            (if em_status e = BeginChange
             then Some \<lparr>em_status = SafeToClose, em_aggregator = a, em_close_time = now mod 2 ^ 64\<rparr>
             else None)
          else Some (e\<lparr>em_aggregator := a\<rparr>))"

definition em_changing :: "epoch_manager \<Rightarrow> bool" where
  "em_changing e \<longleftrightarrow> em_status e \<noteq> EpochOpen"

definition em_closed :: "epoch_manager \<Rightarrow> bool" where
  "em_closed e \<longleftrightarrow> em_status e = SafeToClose"

fun em_observe_all :: "mcommittee \<Rightarrow> nat \<Rightarrow> statement_block list \<Rightarrow> epoch_manager \<Rightarrow> epoch_manager option" where
  "em_observe_all c now [] e = Some e"
| "em_observe_all c now (b # bs) e =
     (case em_observe_committed_block c now b e of
        None \<Rightarrow> None | Some e' \<Rightarrow> em_observe_all c now bs e')"

text \<open>Begun, the epoch is closed exactly when a quorum of authors has marked committed blocks.\<close>

definition em_inv :: "mcommittee \<Rightarrow> statement_block set \<Rightarrow> epoch_manager \<Rightarrow> bool" where
  "em_inv c B e \<longleftrightarrow> agg_ok c (em_aggregator e) \<and> em_status e \<noteq> EpochOpen \<and>
     agg_members (em_aggregator e) = block_author ` {b \<in> B. epoch_marker b} \<and>
     (em_closed e \<longleftrightarrow> mc_has_quorum c (agg_members (em_aggregator e)))"

lemma em_inv_step:
  assumes ok: "mc_ok c" and inv: "em_inv c B e" and known: "\<forall>b \<in> insert b B. block_author b < mc_len c"
  shows "\<exists>e'. em_observe_committed_block c now b e = Some e' \<and> em_inv c (insert b B) e'"
proof (cases "epoch_marker b")
  case False
  then have "{x \<in> insert b B. epoch_marker x} = {x \<in> B. epoch_marker x}" by auto
  with False inv show ?thesis by (simp add: em_observe_committed_block_def em_inv_def)
next
  case True
  have a: "block_author b < mc_len c" using known by simp
  have oka: "agg_ok c (em_aggregator e)" using inv by (simp add: em_inv_def)
  from agg_add_quorum [OF ok oka a] obtain a' where a':
    "agg_add QuorumThreshold c (block_author b) (em_aggregator e) = Some (mc_has_quorum c (agg_members a'), a')"
    "agg_ok c a'" "agg_members a' = insert (block_author b) (agg_members (em_aggregator e))" .
  have eqn: "{x \<in> insert b B. epoch_marker x} = insert b {x \<in> B. epoch_marker x}" using True by auto
  have mem: "agg_members a' = block_author ` {x \<in> insert b B. epoch_marker x}"
    unfolding eqn using inv a'(3) by (simp add: em_inv_def)
  have mono: "mc_has_quorum c (agg_members a')" if "mc_has_quorum c (agg_members (em_aggregator e))"
    by (rule mc_has_quorum_mono [OF that]) (use a'(2,3) in \<open>auto simp: agg_ok_def\<close>)
  have st: "em_status e = BeginChange \<or> em_status e = SafeToClose"
    using inv by (cases "em_status e") (auto simp: em_inv_def)
  show ?thesis
    using True a' inv mono st mem
    by (auto simp: em_observe_committed_block_def em_inv_def em_closed_def)
qed

lemma em_inv_run:
  assumes "mc_ok c" "em_inv c B e" "\<forall>b \<in> B \<union> set bs. block_author b < mc_len c"
  shows "\<exists>e'. em_observe_all c now bs e = Some e' \<and> em_inv c (B \<union> set bs) e'"
  using assms(2,3)
proof (induction bs arbitrary: B e)
  case Nil
  then show ?case by simp
next
  case (Cons b bs)
  from em_inv_step [OF assms(1) Cons.prems(1), of b now] Cons.prems(2) obtain e' where
    e': "em_observe_committed_block c now b e = Some e'" "em_inv c (insert b B) e'" by auto
  from Cons.IH [OF e'(2)] Cons.prems(2) e'(1) show ?case by simp
qed

end
