(* ===== verification/MystiStore.thy ===== *)
theory MystiStore
  imports MystiClock
begin

text \<open>
  Mysticeti: the block store (block_store.rs), the index of all blocks a node has accepted,
  by round and by author and digest. An entry holds the block or only its position in the
  write-ahead log; \<open>bs_wal\<close> is what reading the log at a position gives back (the file and
  its encoding are not modelled). \<open>None\<close> of an operation is a failed \<open>expect\<close>, \<open>assert\<close>
  or \<open>panic!\<close>. The place of an entry in a round's list is its place in the iteration
  order of the hash map.
\<close>

datatype index_entry = WalPosition nat | Loaded nat statement_block

type_synonym round_index = "((nat \<times> bytes), index_entry) hash_map"

record block_store =
  bs_index :: "(nat, round_index) btree_map"
  bs_own_blocks :: "(nat, bytes) btree_map"
  bs_highest_round :: nat
  bs_authority :: nat
  bs_last_seen :: "nat list"
  bs_last_own_block :: "block_reference option"
  bs_wal :: "nat \<Rightarrow> statement_block option"

definition bs_new :: "mcommittee \<Rightarrow> nat \<Rightarrow> (nat \<Rightarrow> statement_block option) \<Rightarrow> block_store" where
  "bs_new c authority wal = \<lparr>bs_index = [], bs_own_blocks = [], bs_highest_round = 0,
     bs_authority = authority, bs_last_seen = map (\<lambda>_. 0) (mc_authority_range c),
     bs_last_own_block = None, bs_wal = wal\<rparr>"

section \<open>Reading\<close>

definition read_index :: "block_store \<Rightarrow> index_entry \<Rightarrow> statement_block option" where
  "read_index st e = (case e of WalPosition p \<Rightarrow> bs_wal st p | Loaded _ b \<Rightarrow> Some b)"

definition read_index_vec :: "block_store \<Rightarrow> index_entry list \<Rightarrow> statement_block list option" where
  "read_index_vec st es = those (map (read_index st) es)"

definition inner_get_block :: "block_store \<Rightarrow> block_reference \<Rightarrow> index_entry option" where
  "inner_get_block st r = (case map_of (bs_index st) (br_round r) of
     None \<Rightarrow> None | Some m \<Rightarrow> map_of m (author_digest r))"

definition get_block :: "block_store \<Rightarrow> block_reference \<Rightarrow> statement_block option option" where
  "get_block st r = (case inner_get_block st r of
     None \<Rightarrow> Some None | Some e \<Rightarrow> map_option Some (read_index st e))"

definition block_exists :: "block_store \<Rightarrow> block_reference \<Rightarrow> bool" where
  "block_exists st r = (case map_of (bs_index st) (br_round r) of
     None \<Rightarrow> False | Some m \<Rightarrow> map_of m (author_digest r) \<noteq> None)"

definition get_blocks_by_round :: "block_store \<Rightarrow> nat \<Rightarrow> statement_block list option" where
  "get_blocks_by_round st n = (case map_of (bs_index st) n of
     None \<Rightarrow> Some [] | Some m \<Rightarrow> read_index_vec st (map snd m))"

definition get_blocks_at_authority_round :: "block_store \<Rightarrow> nat \<Rightarrow> nat \<Rightarrow> statement_block list option" where
  "get_blocks_at_authority_round st a n = (case map_of (bs_index st) n of
     None \<Rightarrow> Some []
   | Some m \<Rightarrow> read_index_vec st (List.map_filter (\<lambda>((a', _), e). if a' = a then Some e else None) m))"

definition get_block_at_authority_round :: "block_store \<Rightarrow> nat \<Rightarrow> nat \<Rightarrow> statement_block option option" where
  "get_block_at_authority_round st a n =
     map_option (\<lambda>bs. case bs of [] \<Rightarrow> None | b # _ \<Rightarrow> Some b) (get_blocks_at_authority_round st a n)"

definition block_exists_at_authority_round :: "block_store \<Rightarrow> nat \<Rightarrow> nat \<Rightarrow> bool" where
  "block_exists_at_authority_round st a n = (case map_of (bs_index st) n of
     None \<Rightarrow> False | Some m \<Rightarrow> list_ex (\<lambda>((a', _), _). a' = a) m)"

definition all_blocks_exists_at_authority_round :: "block_store \<Rightarrow> nat list \<Rightarrow> nat \<Rightarrow> bool" where
  "all_blocks_exists_at_authority_round st as n = (case map_of (bs_index st) n of
     None \<Rightarrow> False | Some m \<Rightarrow> list_all (\<lambda>a. list_ex (\<lambda>((a', _), _). a' = a) m) as)"

definition get_transaction :: "block_store \<Rightarrow> transaction_locator \<Rightarrow> mtransaction option option" where
  "get_transaction st l = map_option (\<lambda>ob. case ob of
       None \<Rightarrow> None
     | Some b \<Rightarrow> if tl_offset l < length (statements b)
         then (case statements b ! tl_offset l of Share tx \<Rightarrow> Some tx | _ \<Rightarrow> None) else None)
     (get_block st (tl_block l))"

definition len_expensive :: "block_store \<Rightarrow> nat" where
  "len_expensive st = sum_list (map (length \<circ> snd) (bs_index st))"

definition last_seen_by_authority :: "block_store \<Rightarrow> nat \<Rightarrow> nat option" where
  "last_seen_by_authority st a = (if a < length (bs_last_seen st) then Some (bs_last_seen st ! a) else None)"

definition get_own_blocks :: "block_store \<Rightarrow> nat \<Rightarrow> nat \<Rightarrow> statement_block list option" where
  "get_own_blocks st from_excluded limit =
     those (map (\<lambda>(n, d). case inner_get_block st
         \<lparr>br_authority = bs_authority st, br_round = n, br_digest = d\<rparr> of
           None \<Rightarrow> None | Some e \<Rightarrow> read_index st e)
       (take limit (filter (\<lambda>(n, _). from_excluded + 1 \<le> n) (bs_own_blocks st))))"

definition get_others_blocks :: "block_store \<Rightarrow> nat \<Rightarrow> nat \<Rightarrow> nat \<Rightarrow> statement_block list option" where
  "get_others_blocks st from_excluded authority limit =
     those (map (\<lambda>r. case inner_get_block st r of None \<Rightarrow> None | Some e \<Rightarrow> read_index st e)
       (concat (map (\<lambda>(n, m). List.map_filter (\<lambda>((a, d), _).
            if a = authority then Some \<lparr>br_authority = a, br_round = n, br_digest = d\<rparr> else None) m)
         (take limit (filter (\<lambda>(n, _). from_excluded + 1 \<le> n) (bs_index st))))))"

section \<open>Links between blocks\<close>

definition linked_step :: "block_store \<Rightarrow> statement_block list \<Rightarrow> nat \<Rightarrow> statement_block list option" where
  "linked_step st parents n = map_option
     (filter (\<lambda>b. list_ex (\<lambda>x. reference b \<in> set (block_includes x)) parents)) (get_blocks_by_round st n)"

fun bs_linked_loop :: "block_store \<Rightarrow> nat list \<Rightarrow> statement_block list \<Rightarrow> statement_block list option" where
  "bs_linked_loop st [] parents = Some parents"
| "bs_linked_loop st (n # ns) parents = (case linked_step st parents n of
     None \<Rightarrow> None | Some parents' \<Rightarrow> bs_linked_loop st ns parents')"

definition bs_linked :: "block_store \<Rightarrow> statement_block \<Rightarrow> statement_block \<Rightarrow> bool option" where
  "bs_linked st later earlier = map_option (list_ex (block_eq earlier))
     (bs_linked_loop st (rev [block_round earlier ..< block_round later]) [later])"

fun linked_to_loop :: "block_store \<Rightarrow> nat list \<Rightarrow> statement_block list \<Rightarrow> statement_block list option" where
  "linked_to_loop st [] parents = Some parents"
| "linked_to_loop st (n # ns) parents = (case linked_step st parents n of
     None \<Rightarrow> None
   | Some parents' \<Rightarrow> if parents' = [] then Some [] else linked_to_loop st ns parents')"

definition linked_to_round :: "block_store \<Rightarrow> statement_block \<Rightarrow> nat \<Rightarrow> statement_block list option" where
  "linked_to_round st later earlier_round =
     linked_to_loop st (rev [earlier_round ..< block_round later]) [later]"

section \<open>Writing\<close>

definition add_own_index :: "block_reference \<Rightarrow> block_store \<Rightarrow> block_store option" where
  "add_own_index r st =
     (if br_authority r \<noteq> bs_authority st then Some st
      else if map_of (bs_own_blocks st) (br_round r) \<noteq> None then None
      else Some (st\<lparr>bs_own_blocks := bt_insert (br_round r) (br_digest r) (bs_own_blocks st),
        bs_last_own_block :=
          (if (case bs_last_own_block st of None \<Rightarrow> 0 | Some l \<Rightarrow> br_round l) < br_round r
           then Some r else bs_last_own_block st)\<rparr>))"

definition update_last_seen :: "block_reference \<Rightarrow> block_store \<Rightarrow> block_store option" where
  "update_last_seen r st =
     (if length (bs_last_seen st) \<le> br_authority r then None
      else if bs_last_seen st ! br_authority r < br_round r
      then Some (st\<lparr>bs_last_seen := (bs_last_seen st)[br_authority r := br_round r]\<rparr>)
      else Some st)"

definition index_insert :: "block_reference \<Rightarrow> index_entry \<Rightarrow> block_store \<Rightarrow> block_store" where
  "index_insert r e st = st\<lparr>bs_index := bt_insert (br_round r)
     (AList.update (author_digest r) e
       (case map_of (bs_index st) (br_round r) of None \<Rightarrow> [] | Some m \<Rightarrow> m)) (bs_index st)\<rparr>"

definition add_entry :: "block_reference \<Rightarrow> index_entry \<Rightarrow> block_store \<Rightarrow> block_store option" where
  "add_entry r e st =
     (case add_own_index r (st\<lparr>bs_highest_round := max (bs_highest_round st) (br_round r)\<rparr>) of
        None \<Rightarrow> None
      | Some st1 \<Rightarrow> map_option (index_insert r e) (update_last_seen r st1))"

definition add_unloaded :: "block_reference \<Rightarrow> nat \<Rightarrow> block_store \<Rightarrow> block_store option" where
  "add_unloaded r pos st = add_entry r (WalPosition pos) st"

definition add_loaded :: "nat \<Rightarrow> statement_block \<Rightarrow> block_store \<Rightarrow> block_store option" where
  "add_loaded pos b st = add_entry (reference b) (Loaded pos b) st"

text \<open>\<open>BlockWriter::insert_block\<close>: the block goes to the log at \<open>pos\<close>, then to the index.\<close>

definition writer_insert_block :: "nat \<Rightarrow> statement_block \<Rightarrow> block_store \<Rightarrow> block_store option" where
  "writer_insert_block pos b st = add_loaded pos b (st\<lparr>bs_wal := (bs_wal st)(pos \<mapsto> b)\<rparr>)"

fun unload_entry :: "index_entry \<Rightarrow> index_entry" where
  "unload_entry (WalPosition p) = WalPosition p"
| "unload_entry (Loaded p b) = WalPosition p"

definition unload_below_round :: "nat \<Rightarrow> block_store \<Rightarrow> block_store" where
  "unload_below_round threshold st = st\<lparr>bs_index := map (\<lambda>(n, m).
     if threshold < n then (n, m) else (n, map (\<lambda>(k, e). (k, unload_entry e)) m)) (bs_index st)\<rparr>"

definition bs_cleanup :: "nat \<Rightarrow> block_store \<Rightarrow> block_store" where
  "bs_cleanup threshold st = (if threshold = 0 then st else unload_below_round threshold st)"

section \<open>Well-formed stores\<close>

definition entry_ok :: "block_store \<Rightarrow> nat \<Rightarrow> (nat \<times> bytes) \<times> index_entry \<Rightarrow> bool" where
  "entry_ok st n = (\<lambda>((a, d), e). (case read_index st e of
     None \<Rightarrow> False
   | Some b \<Rightarrow> reference b = \<lparr>br_authority = a, br_round = n, br_digest = d\<rparr>) \<and>
     n \<le> bs_highest_round st \<and> a < length (bs_last_seen st) \<and> n \<le> bs_last_seen st ! a \<and>
     (a = bs_authority st \<longrightarrow> map_of (bs_own_blocks st) n = Some d))"

definition own_entry_ok :: "block_store \<Rightarrow> nat \<times> bytes \<Rightarrow> bool" where
  "own_entry_ok st = (\<lambda>(n, d). block_exists st \<lparr>br_authority = bs_authority st, br_round = n, br_digest = d\<rparr>)"

definition store_wf :: "block_store \<Rightarrow> bool" where
  "store_wf st \<longleftrightarrow> bt_wf (bs_index st) \<and> bt_wf (bs_own_blocks st) \<and>
     list_all (\<lambda>(n, m). hm_wf m \<and> list_all (entry_ok st n) m) (bs_index st) \<and>
     list_all (own_entry_ok st) (bs_own_blocks st)"

text \<open>The block under a reference: the abstraction of the store that the committers see.\<close>

definition block_at :: "block_store \<Rightarrow> block_reference \<Rightarrow> statement_block option" where
  "block_at st r = (case get_block st r of Some (Some b) \<Rightarrow> Some b | _ \<Rightarrow> None)"

text \<open>Cached blocks are the logged ones, so that dropping the cache loses nothing.\<close>

definition wal_ok :: "block_store \<Rightarrow> bool" where
  "wal_ok st \<longleftrightarrow> list_all (\<lambda>(n, m). list_all (\<lambda>(k, e). case e of
     WalPosition p \<Rightarrow> True | Loaded p b \<Rightarrow> bs_wal st p = Some b) m) (bs_index st)"

lemma those_Some_map: "(\<forall>x \<in> set xs. f x \<noteq> None) \<Longrightarrow> those (map f xs) = Some (map (the \<circ> f) xs)"
  by (induction xs) auto

lemma store_wf_index:
  assumes "store_wf st" "map_of (bs_index st) n = Some m"
  shows "hm_wf m" "\<forall>x \<in> set m. entry_ok st n x"
proof -
  have "(n, m) \<in> set (bs_index st)"
    using assms by (intro map_of_SomeD)
  then show "hm_wf m" "\<forall>x \<in> set m. entry_ok st n x"
    using assms(1) by (auto simp: store_wf_def list_all_iff)
qed

lemma entry_ok_read:
  assumes "entry_ok st n (ad, e)"
  obtains b where "read_index st e = Some b"
    "reference b = \<lparr>br_authority = fst ad, br_round = n, br_digest = snd ad\<rparr>"
  using assms by (auto simp: entry_ok_def split: prod.splits option.splits)

lemma inner_get_block_wf:
  assumes "store_wf st" "inner_get_block st r = Some e"
  obtains b where "read_index st e = Some b" "reference b = r"
proof -
  from assms(2) obtain m where m: "map_of (bs_index st) (br_round r) = Some m"
    "map_of m (author_digest r) = Some e"
    by (auto simp: inner_get_block_def split: option.splits)
  from m(2) have "(author_digest r, e) \<in> set m" by (rule map_of_SomeD)
  with store_wf_index(2) [OF assms(1) m(1)] have "entry_ok st (br_round r) (author_digest r, e)" by blast
  then show ?thesis
    by (rule entry_ok_read) (use that in \<open>simp add: author_digest_def\<close>)
qed

lemma get_block_wf: "store_wf st \<Longrightarrow> get_block st r = Some (block_at st r)"
  by (cases "inner_get_block st r") (auto simp: get_block_def block_at_def elim: inner_get_block_wf)

lemma block_at_Some:
  assumes "store_wf st"
  shows "block_at st r = Some b \<longleftrightarrow> (\<exists>e. inner_get_block st r = Some e \<and> read_index st e = Some b)"
  using assms by (auto simp: get_block_def block_at_def split: option.splits)

lemma block_at_reference:
  assumes "store_wf st" "block_at st r = Some b"
  shows "reference b = r"
  using assms by (auto simp: block_at_Some elim: inner_get_block_wf)

lemma block_exists_iff: "store_wf st \<Longrightarrow> block_exists st r \<longleftrightarrow> block_at st r \<noteq> None"
proof -
  assume wf: "store_wf st"
  have "block_exists st r \<longleftrightarrow> inner_get_block st r \<noteq> None"
    by (auto simp: block_exists_def inner_get_block_def split: option.splits)
  also have "\<dots> \<longleftrightarrow> block_at st r \<noteq> None"
    using wf by (auto simp: block_at_Some [OF wf] elim: inner_get_block_wf)
  finally show ?thesis .
qed

lemma read_round:
  assumes wf: "store_wf st" and m: "map_of (bs_index st) n = Some m"
  shows "set (map (the \<circ> read_index st \<circ> snd) m) = {b. block_at st (reference b) = Some b \<and> block_round b = n}"
    and "map reference (map (the \<circ> read_index st \<circ> snd) m) =
           map (\<lambda>((a, d), _). \<lparr>br_authority = a, br_round = n, br_digest = d\<rparr>) m"
    and "\<forall>x \<in> set m. read_index st (snd x) \<noteq> None"
proof -
  note ok = store_wf_index [OF wf m]
  have read: "\<exists>b. read_index st (snd x) = Some b \<and>
      reference b = \<lparr>br_authority = fst (fst x), br_round = n, br_digest = snd (fst x)\<rparr>"
    if "x \<in> set m" for x
    using ok(2) that entry_ok_read [of st n "fst x" "snd x"] by (metis prod.collapse)
  show "\<forall>x \<in> set m. read_index st (snd x) \<noteq> None" using read by fastforce
  show "map reference (map (the \<circ> read_index st \<circ> snd) m) =
      map (\<lambda>((a, d), _). \<lparr>br_authority = a, br_round = n, br_digest = d\<rparr>) m"
    using read by (fastforce simp: split_beta)
  show "set (map (the \<circ> read_index st \<circ> snd) m) = {b. block_at st (reference b) = Some b \<and> block_round b = n}"
  proof (intro set_eqI iffI)
    fix b assume "b \<in> set (map (the \<circ> read_index st \<circ> snd) m)"
    then obtain x where x: "x \<in> set m" "b = the (read_index st (snd x))" by auto
    with read [OF x(1)] have b: "read_index st (snd x) = Some b"
      "reference b = \<lparr>br_authority = fst (fst x), br_round = n, br_digest = snd (fst x)\<rparr>" by auto
    have "map_of m (fst x) = Some (snd x)" using ok(1) x(1) by (simp add: map_of_in_set)
    then have "inner_get_block st (reference b) = Some (snd x)"
      using m b(2) by (simp add: inner_get_block_def author_digest_def)
    then show "b \<in> {b. block_at st (reference b) = Some b \<and> block_round b = n}"
      using b wf by (simp add: block_at_Some block_round_def)
  next
    fix b assume "b \<in> {b. block_at st (reference b) = Some b \<and> block_round b = n}"
    then obtain e where e: "inner_get_block st (reference b) = Some e" "read_index st e = Some b"
      and n: "block_round b = n"
      using wf by (auto simp: block_at_Some)
    then have "(author_digest (reference b), e) \<in> set m"
      using m ok(1) by (simp add: inner_get_block_def block_round_def map_of_in_set)
    then show "b \<in> set (map (the \<circ> read_index st \<circ> snd) m)"
      using e(2) by (force simp: image_iff)
  qed
qed

lemma round_refs_distinct:
  assumes "hm_wf m"
  shows "distinct (map (\<lambda>((a, d), _). \<lparr>br_authority = a, br_round = n, br_digest = d\<rparr>) m)"
proof -
  have "map (\<lambda>((a, d), _). \<lparr>br_authority = a, br_round = n, br_digest = d\<rparr>) m =
      map (\<lambda>(a, d). \<lparr>br_authority = a, br_round = n, br_digest = d\<rparr>) (map fst m)"
    by (simp add: split_beta comp_def)
  moreover have "inj (\<lambda>(a, d). \<lparr>br_authority = a, br_round = n, br_digest = d\<rparr>)"
    by (auto simp: inj_on_def)
  ultimately show ?thesis using assms by (metis distinct_map inj_on_subset subset_UNIV)
qed

lemma get_blocks_by_round_spec:
  assumes wf: "store_wf st"
  shows "\<exists>bs. get_blocks_by_round st n = Some bs \<and> distinct (map reference bs) \<and>
           set bs = {b. block_at st (reference b) = Some b \<and> block_round b = n}"
proof (cases "map_of (bs_index st) n")
  case None
  then have "\<not> (block_at st (reference b) = Some b \<and> block_round b = n)" for b
    using wf by (auto simp: block_at_Some inner_get_block_def block_round_def)
  with None show ?thesis by (auto simp: get_blocks_by_round_def)
next
  case (Some m)
  note rr = read_round [OF wf Some]
  have "get_blocks_by_round st n = Some (map (the \<circ> read_index st \<circ> snd) m)"
    using rr(3) Some by (simp add: get_blocks_by_round_def read_index_vec_def those_Some_map comp_assoc)
  moreover have "distinct (map reference (map (the \<circ> read_index st \<circ> snd) m))"
    unfolding rr(2) by (rule round_refs_distinct [OF store_wf_index(1) [OF wf Some]])
  ultimately show ?thesis using rr(1) by blast
qed

lemma map_filter_slot:
  "List.map_filter (\<lambda>((a', _), e). if a' = a then Some e else None) m =
     map snd (filter (\<lambda>x. fst (fst x) = a) m)"
  by (induction m) (auto simp: List.map_filter_simps)

lemma get_blocks_at_slot_spec:
  assumes wf: "store_wf st"
  shows "\<exists>bs. get_blocks_at_authority_round st a n = Some bs \<and> distinct (map reference bs) \<and>
           set bs = {b. block_at st (reference b) = Some b \<and> block_round b = n \<and> block_author b = a}"
proof (cases "map_of (bs_index st) n")
  case None
  then have "\<not> (block_at st (reference b) = Some b \<and> block_round b = n)" for b
    using wf by (auto simp: block_at_Some inner_get_block_def block_round_def)
  with None show ?thesis by (auto simp: get_blocks_at_authority_round_def)
next
  case (Some m)
  note rr = read_round [OF wf Some]
  let ?f = "the \<circ> read_index st \<circ> snd"
  let ?bs = "map ?f (filter (\<lambda>x. fst (fst x) = a) m)"
  have author: "block_author (?f x) = fst (fst x)" if "x \<in> set m" for x
  proof -
    have "reference (?f x) = (\<lambda>((a, d), _). \<lparr>br_authority = a, br_round = n, br_digest = d\<rparr>) x"
      using rr(2) that by (simp add: map_eq_conv)
    then show ?thesis by (simp add: block_author_def split_beta)
  qed
  have eq: "?bs = filter (\<lambda>b. block_author b = a) (map ?f m)"
    using author by (simp add: filter_map comp_def cong: filter_cong)
  have "get_blocks_at_authority_round st a n = Some ?bs"
    using rr(3) Some
    by (simp add: get_blocks_at_authority_round_def map_filter_slot read_index_vec_def those_Some_map comp_assoc)
  moreover have "distinct (map reference ?bs)"
    unfolding eq
    by (rule distinct_map_filter) (simp only: rr(2) round_refs_distinct [OF store_wf_index(1) [OF wf Some]])
  moreover have "set ?bs = {b. block_at st (reference b) = Some b \<and> block_round b = n \<and> block_author b = a}"
    unfolding eq using rr(1) by auto
  ultimately show ?thesis by blast
qed

section \<open>Writing keeps the store well formed\<close>

lemma store_wf_alt:
  "store_wf st \<longleftrightarrow> bt_wf (bs_index st) \<and> bt_wf (bs_own_blocks st) \<and>
     (\<forall>n m. map_of (bs_index st) n = Some m \<longrightarrow> hm_wf m \<and> (\<forall>x \<in> set m. entry_ok st n x)) \<and>
     (\<forall>n d. map_of (bs_own_blocks st) n = Some d \<longrightarrow> own_entry_ok st (n, d))"
proof -
  have *: "bt_wf m \<Longrightarrow> (\<forall>x \<in> set m. P (fst x) (snd x)) \<longleftrightarrow> (\<forall>k v. map_of m k = Some v \<longrightarrow> P k v)"
    for m :: "('k::linorder \<times> 'v) list" and P
    using strict_sorted_distinct [of "map fst m"] by (auto simp: map_of_in_set)
  show ?thesis
    unfolding store_wf_def list_all_iff split_beta
    using * [of "bs_index st" "\<lambda>n m. hm_wf m \<and> (\<forall>x \<in> set m. entry_ok st n x)"]
      * [of "bs_own_blocks st" "\<lambda>n d. own_entry_ok st (n, d)"]
    unfolding prod.collapse by blast
qed

lemma store_wf_new: "store_wf (bs_new c a wal)"
  by (simp add: store_wf_def bs_new_def)

lemma block_at_new [simp]: "block_at (bs_new c a wal) r = None"
  by (simp add: block_at_def get_block_def inner_get_block_def bs_new_def)

text \<open>What one insertion changes.\<close>

lemma add_entry_facts:
  assumes "add_entry r e st = Some st'"
  shows "bs_index st' = bt_insert (br_round r) (AList.update (author_digest r) e
             (case map_of (bs_index st) (br_round r) of None \<Rightarrow> [] | Some m \<Rightarrow> m)) (bs_index st)"
    and "bs_wal st' = bs_wal st" "bs_authority st' = bs_authority st"
    and "bs_highest_round st' = max (bs_highest_round st) (br_round r)"
    and "br_authority r < length (bs_last_seen st)" "length (bs_last_seen st') = length (bs_last_seen st)"
    and "\<And>a. a < length (bs_last_seen st) \<Longrightarrow> bs_last_seen st' ! a =
            (if a = br_authority r then max (bs_last_seen st ! a) (br_round r) else bs_last_seen st ! a)"
    and "bs_own_blocks st' = (if br_authority r = bs_authority st
            then bt_insert (br_round r) (br_digest r) (bs_own_blocks st) else bs_own_blocks st)"
    and "br_authority r = bs_authority st \<Longrightarrow> map_of (bs_own_blocks st) (br_round r) = None"
  using assms
  by (auto simp: add_entry_def add_own_index_def update_last_seen_def index_insert_def nth_list_update
      max_def split: if_splits option.splits)

lemma add_entry_inner:
  assumes "add_entry r e st = Some st'"
  shows "inner_get_block st' s = (if s = r then Some e else inner_get_block st s)"
proof -
  have eq: "s = r \<longleftrightarrow> br_round s = br_round r \<and> author_digest s = author_digest r"
    by (auto simp: author_digest_def)
  show ?thesis
    unfolding inner_get_block_def add_entry_facts(1) [OF assms]
    by (auto simp: map_of_bt_insert eq split: option.splits)
qed

lemma add_entry_wf:
  assumes wf: "store_wf st" and add: "add_entry r e st = Some st'"
    and e: "read_index st e = Some b" "reference b = r"
  shows "store_wf st'"
  unfolding store_wf_alt
proof (intro conjI allI impI)
  note f = add_entry_facts [OF add] and wf' = wf [unfolded store_wf_alt]
  have ri: "read_index st' = read_index st"
    by (simp add: fun_eq_iff read_index_def f(2) split: index_entry.splits)
  show "bt_wf (bs_index st')" unfolding f(1) by (rule bt_wf_insert) (use wf' in blast)
  show "bt_wf (bs_own_blocks st')" using wf' by (simp add: f(8) bt_wf_insert)
  have old: "entry_ok st' n x" if "entry_ok st n x" for n x
  proof -
    obtain a d en where x: "x = ((a, d), en)" by (metis prod.collapse)
    have "map_of (bs_own_blocks st') n = Some d" if own: "a = bs_authority st"
    proof -
      have "map_of (bs_own_blocks st) n = Some d"
        using \<open>entry_ok st n x\<close> own by (simp add: entry_ok_def x)
      then show ?thesis using f(9) by (auto simp: f(8) map_of_bt_insert)
    qed
    then show ?thesis
      using that f(7) by (auto simp: entry_ok_def x ri f(3,4,6))
  qed
  have new: "entry_ok st' (br_round r) (author_digest r, e)"
    using e f(5) f(7) [OF f(5)]
    by (auto simp: entry_ok_def ri f(3,4,6,8) author_digest_def map_of_bt_insert)
  fix n m assume m: "map_of (bs_index st') n = Some m"
  let ?old = "case map_of (bs_index st) (br_round r) of None \<Rightarrow> [] | Some m \<Rightarrow> m"
  have oldwf: "hm_wf ?old" "\<forall>x \<in> set ?old. entry_ok st (br_round r) x"
    using store_wf_index [OF wf, of "br_round r"] by (cases "map_of (bs_index st) (br_round r)"; simp)+
  show "hm_wf m"
    using m wf' oldwf(1) by (auto simp: f(1) map_of_bt_insert split: if_splits)
  show "\<forall>x \<in> set m. entry_ok st' n x"
  proof (cases "n = br_round r")
    case True
    then have "set m \<subseteq> insert (author_digest r, e) (set ?old)"
      using m set_update_subset [of "author_digest r" e ?old] by (simp add: f(1) map_of_bt_insert)
    then show ?thesis using True new old oldwf(2) by blast
  next
    case False
    then show ?thesis using m wf' old by (auto simp: f(1) map_of_bt_insert)
  qed
next
  note f = add_entry_facts [OF add] and wf' = wf [unfolded store_wf_alt]
  fix n d assume own: "map_of (bs_own_blocks st') n = Some d"
  have ex: "block_exists st' s \<longleftrightarrow> s = r \<or> block_exists st s" for s
    using add_entry_inner [OF add, of s]
    by (auto simp: block_exists_def inner_get_block_def split: option.splits if_splits)
  show "own_entry_ok st' (n, d)"
  proof (cases "br_authority r = bs_authority st \<and> n = br_round r")
    case True
    then show ?thesis using own by (auto simp: own_entry_ok_def ex f(3,8) map_of_bt_insert)
  next
    case False
    then have "map_of (bs_own_blocks st) n = Some d"
      using own by (auto simp: f(8) map_of_bt_insert split: if_splits)
    then show ?thesis using wf' by (auto simp: own_entry_ok_def ex f(3))
  qed
qed

lemma add_entry_block_at:
  assumes wf: "store_wf st" and add: "add_entry r e st = Some st'"
    and e: "read_index st e = Some b" "reference b = r"
  shows "block_at st' = (block_at st)(r \<mapsto> b)"
proof -
  have ri: "read_index st' = read_index st"
    by (simp add: fun_eq_iff read_index_def add_entry_facts(2) [OF add] split: index_entry.splits)
  show ?thesis
    by (rule ext) (use e(1) in \<open>auto simp: block_at_def get_block_def add_entry_inner [OF add] ri
        split: option.splits\<close>)
qed

lemma add_entry_succeeds:
  assumes "store_wf st" "br_authority r < length (bs_last_seen st)"
    and "br_authority r = bs_authority st \<Longrightarrow> map_of (bs_own_blocks st) (br_round r) = None"
  shows "\<exists>st'. add_entry r e st = Some st'"
  using assms(2,3) by (auto simp: add_entry_def add_own_index_def update_last_seen_def)

section \<open>Dropping the cache\<close>

lemma map_of_unload:
  "map_of (bs_index (unload_below_round t st)) n = map_option
     (\<lambda>m. if t < n then m else map (\<lambda>(k, e). (k, unload_entry e)) m) (map_of (bs_index st) n)"
proof -
  have "map_of (map (\<lambda>(n, m). if t < n then (n, m) else (n, map (\<lambda>(k, e). (k, unload_entry e)) m)) xs) n =
      map_option (\<lambda>m. if t < n then m else map (\<lambda>(k, e). (k, unload_entry e)) m) (map_of xs n)" for xs
    by (induction xs) auto
  then show ?thesis by (simp add: unload_below_round_def)
qed

lemma map_of_map_unload:
  "map_of (map (\<lambda>(k, e). (k, unload_entry e)) m) k = map_option unload_entry (map_of m k)"
  by (induction m) auto

lemma inner_unload:
  "inner_get_block (unload_below_round t st) r = map_option
     (\<lambda>e. if t < br_round r then e else unload_entry e) (inner_get_block st r)"
  by (auto simp: inner_get_block_def map_of_unload map_of_map_unload option.map_ident
      split: option.splits)

lemma wal_ok_read:
  assumes "wal_ok st" "inner_get_block st r = Some e"
  shows "read_index (unload_below_round t st) (unload_entry e) = read_index st e"
proof -
  from assms(2) obtain m where m: "map_of (bs_index st) (br_round r) = Some m"
    "map_of m (author_digest r) = Some e"
    by (auto simp: inner_get_block_def split: option.splits)
  have "(br_round r, m) \<in> set (bs_index st)" "(author_digest r, e) \<in> set m"
    using m by (auto intro: map_of_SomeD)
  then have "case e of WalPosition p \<Rightarrow> True | Loaded p b \<Rightarrow> bs_wal st p = Some b"
    using assms(1) by (fastforce simp: wal_ok_def list_all_iff)
  then show ?thesis
    by (cases e) (simp_all add: read_index_def unload_below_round_def)
qed

lemma read_index_unload [simp]: "read_index (unload_below_round t st) e = read_index st e"
  by (simp add: read_index_def unload_below_round_def split: index_entry.splits)

lemma unload_get_block:
  assumes "wal_ok st"
  shows "get_block (unload_below_round t st) r = get_block st r"
  using wal_ok_read [OF assms, of r]
  by (auto simp: get_block_def inner_unload split: option.splits)

section \<open>The interface of the committers\<close>

text \<open>
  What the commit rule, the linearizer and the block manager rely on: a partial map from
  references to blocks, and the lists of the blocks of a round and of a slot.
\<close>

locale block_index =
  fixes valid :: "'s \<Rightarrow> bool"
    and lookup :: "'s \<Rightarrow> block_reference \<Rightarrow> statement_block option"
    and by_round :: "'s \<Rightarrow> nat \<Rightarrow> statement_block list option"
    and at_slot :: "'s \<Rightarrow> nat \<Rightarrow> nat \<Rightarrow> statement_block list option"
  assumes lookup_reference: "valid s \<Longrightarrow> lookup s r = Some b \<Longrightarrow> reference b = r"
    and by_round_spec: "valid s \<Longrightarrow> \<exists>bs. by_round s n = Some bs \<and> distinct (map reference bs) \<and>
          set bs = {b. lookup s (reference b) = Some b \<and> block_round b = n}"
    and at_slot_spec: "valid s \<Longrightarrow> \<exists>bs. at_slot s a n = Some bs \<and> distinct (map reference bs) \<and>
          set bs = {b. lookup s (reference b) = Some b \<and> block_round b = n \<and> block_author b = a}"
begin

definition holds :: "'s \<Rightarrow> statement_block \<Rightarrow> bool" where
  "holds s b \<longleftrightarrow> lookup s (reference b) = Some b"

lemma holds_lookup: "valid s \<Longrightarrow> lookup s r = Some b \<Longrightarrow> holds s b \<and> reference b = r"
  using lookup_reference by (simp add: holds_def)

lemma holds_unique: "holds s a \<Longrightarrow> holds s b \<Longrightarrow> reference a = reference b \<Longrightarrow> a = b"
  by (simp add: holds_def)

lemma by_roundE:
  assumes "valid s"
  obtains bs where "by_round s n = Some bs" "distinct bs" "distinct (map reference bs)"
    "\<And>b. b \<in> set bs \<longleftrightarrow> holds s b \<and> block_round b = n"
  using by_round_spec [OF assms, of n] by (auto simp: holds_def distinct_map)

lemma at_slotE:
  assumes "valid s"
  obtains bs where "at_slot s a n = Some bs" "distinct bs"
    "\<And>b. b \<in> set bs \<longleftrightarrow> holds s b \<and> block_round b = n \<and> block_author b = a"
  using at_slot_spec [OF assms, of a n] by (auto simp: holds_def distinct_map)

lemma slot_single:
  assumes "valid s" "at_slot s a n = Some bs" "P b" "b \<in> set bs"
    and "\<And>b'. b' \<in> set bs \<Longrightarrow> P b' \<Longrightarrow> b' = b"
  shows "filter P bs = [b]"
proof -
  from at_slotE [OF assms(1), of a n] assms(2) have "distinct bs" by auto
  then have d: "distinct (filter P bs)" by simp
  have s: "set (filter P bs) = {b}"
  proof (intro equalityI subsetI)
    fix x assume "x \<in> set (filter P bs)"
    then show "x \<in> {b}" using assms(5) [of x] by simp
  qed (use assms(3,4) in simp)
  then have "length (filter P bs) = 1" using distinct_card [OF d] by simp
  then obtain x where "filter P bs = [x]" by (auto simp: length_Suc_conv)
  with s show ?thesis by simp
qed

end

interpretation bs: block_index store_wf block_at get_blocks_by_round get_blocks_at_authority_round
proof unfold_locales
  fix s r b assume "store_wf s" "block_at s r = Some b"
  then show "reference b = r" by (rule block_at_reference)
qed (rule get_blocks_by_round_spec, assumption, rule get_blocks_at_slot_spec, assumption)

definition bs_holds :: "block_store \<Rightarrow> statement_block \<Rightarrow> bool" where
  "bs_holds st b \<longleftrightarrow> block_at st (reference b) = Some b"

lemma bs_holds_eq: "bs.holds = bs_holds"
  by (simp add: fun_eq_iff bs.holds_def bs_holds_def)

lemmas bs_holds_lookup = bs.holds_lookup [unfolded bs_holds_eq]
lemmas bs_holds_unique = bs.holds_unique [unfolded bs_holds_eq]
lemmas bs_by_roundE = bs.by_roundE [unfolded bs_holds_eq]
lemmas bs_at_slotE = bs.at_slotE [unfolded bs_holds_eq]
lemmas bs_slot_single = bs.slot_single

end
