(* ===== verification/MystiCommitter.thy ===== *)
theory MystiCommitter
  imports MystiStore
begin

text \<open>
  Mysticeti: the status of a leader (consensus/mod.rs) and the commit rule of one committer
  (consensus/base_committer.rs). The block store is shared by all committers: it is an
  argument. \<open>None\<close> is a panic: a missing block, an unknown authority or two certified
  leaders. The recursion of \<open>find_support\<close> follows references to lower rounds only, so its
  depth is bounded by the round of the block it starts from, which is the fuel it is given.
\<close>

section \<open>Status of a leader\<close>

datatype leader_status =
    Commit statement_block
  | Skip authority_round
  | Undecided authority_round

datatype decision = Direct | Indirect

fun ls_round :: "leader_status \<Rightarrow> nat" where
  "ls_round (Commit b) = block_round b"
| "ls_round (Skip l) = ar_round l"
| "ls_round (Undecided l) = ar_round l"

fun ls_authority :: "leader_status \<Rightarrow> nat" where
  "ls_authority (Commit b) = block_author b"
| "ls_authority (Skip l) = ar_authority l"
| "ls_authority (Undecided l) = ar_authority l"

fun is_decided :: "leader_status \<Rightarrow> bool" where
  "is_decided (Commit b) = True"
| "is_decided (Skip l) = True"
| "is_decided (Undecided l) = False"

fun into_decided_author_round :: "leader_status \<Rightarrow> authority_round option" where
  "into_decided_author_round (Commit b) = Some \<lparr>ar_authority = block_author b, ar_round = block_round b\<rparr>"
| "into_decided_author_round (Skip l) = Some l"
| "into_decided_author_round (Undecided l) = None"

fun into_committed_block :: "leader_status \<Rightarrow> statement_block option option" where
  "into_committed_block (Commit b) = Some (Some b)"
| "into_committed_block (Skip l) = Some None"
| "into_committed_block (Undecided l) = None"

definition ls_cmp :: "leader_status \<Rightarrow> leader_status \<Rightarrow> cmp_ordering" where
  "ls_cmp a b = cmp_of (ls_round a, ls_authority a) (ls_round b, ls_authority b)"

section \<open>Waves\<close>

record committer_options =
  wave_length :: nat
  leader_offset :: nat
  round_offset :: nat

definition minimum_wave_length :: nat where
  "minimum_wave_length = 3"

definition default_wave_length :: nat where
  "default_wave_length = minimum_wave_length"

definition default_options :: committer_options where
  "default_options = \<lparr>wave_length = default_wave_length, leader_offset = 0, round_offset = 0\<rparr>"

record base_committer =
  bc_committee :: mcommittee
  bc_options :: committer_options

definition bc_new :: "mcommittee \<Rightarrow> base_committer" where
  "bc_new c = \<lparr>bc_committee = c, bc_options = default_options\<rparr>"

definition bc_with_options :: "committer_options \<Rightarrow> base_committer \<Rightarrow> base_committer option" where
  "bc_with_options options bc =
     (if minimum_wave_length \<le> wave_length options then Some (bc\<lparr>bc_options := options\<rparr>) else None)"

text \<open>\<open>saturating_sub\<close> is the subtraction of natural numbers.\<close>

definition wave_number :: "base_committer \<Rightarrow> nat \<Rightarrow> nat" where
  "wave_number bc rnd = (rnd - round_offset (bc_options bc)) div wave_length (bc_options bc)"

definition leader_round :: "base_committer \<Rightarrow> nat \<Rightarrow> nat" where
  "leader_round bc wave = wave * wave_length (bc_options bc) + round_offset (bc_options bc)"

definition decision_round :: "base_committer \<Rightarrow> nat \<Rightarrow> nat" where
  "decision_round bc wave = wave * wave_length (bc_options bc) + wave_length (bc_options bc) - 1 +
     round_offset (bc_options bc)"

text \<open>Outer \<open>None\<close>: a panic of the election; inner \<open>None\<close>: no leader for this round.\<close>

definition bc_elect_leader :: "weighted_choice \<Rightarrow> base_committer \<Rightarrow> nat \<Rightarrow> authority_round option option" where
  "bc_elect_leader weighted bc rnd =
     (if leader_round bc (wave_number bc rnd) \<noteq> rnd then Some None
      else map_option (\<lambda>a. Some \<lparr>ar_authority = a, ar_round = rnd\<rparr>)
        (elect_leader_stake_based weighted (bc_committee bc) rnd (leader_offset (bc_options bc))))"

section \<open>Votes and certificates\<close>

fun find_support_upto :: "nat \<Rightarrow> block_store \<Rightarrow> nat \<times> nat \<Rightarrow> statement_block \<Rightarrow> block_reference option option"
  and support_loop :: "nat \<Rightarrow> block_store \<Rightarrow> nat \<times> nat \<Rightarrow> block_reference list \<Rightarrow> block_reference option option"
where
  "find_support_upto 0 st slot b = None"
| "find_support_upto (Suc n) st slot b =
     (if block_round b < snd slot then Some None else support_loop n st slot (block_includes b))"
| "support_loop n st slot [] = Some None"
| "support_loop n st slot (i # is) =
     (if author_round i = slot then Some (Some i)
      else if br_round i \<le> snd slot then support_loop n st slot is
      else case get_block st i of
        Some (Some b) \<Rightarrow>
          (case find_support_upto n st slot b of
             None \<Rightarrow> None
           | Some (Some support) \<Rightarrow> Some (Some support)
           | Some None \<Rightarrow> support_loop n st slot is)
      | _ \<Rightarrow> None)"

definition find_support :: "block_store \<Rightarrow> nat \<times> nat \<Rightarrow> statement_block \<Rightarrow> block_reference option option" where
  "find_support st slot b = find_support_upto (Suc (block_round b)) st slot b"

definition bc_is_vote :: "block_store \<Rightarrow> statement_block \<Rightarrow> statement_block \<Rightarrow> bool option" where
  "bc_is_vote st potential_vote leader_block = map_option (\<lambda>s. s = Some (reference leader_block))
     (find_support st (author_round (reference leader_block)) potential_vote)"

type_synonym vote_cache = "(block_reference, bool) hash_map"

definition cached_vote :: "block_store \<Rightarrow> statement_block \<Rightarrow> block_reference \<Rightarrow> vote_cache \<Rightarrow> (bool \<times> vote_cache) option" where
  "cached_vote st leader_block r all_votes = (case map_of all_votes r of
     Some v \<Rightarrow> Some (v, all_votes)
   | None \<Rightarrow>
       (case get_block st r of
          Some (Some potential_vote) \<Rightarrow>
            map_option (\<lambda>v. (v, AList.update r v all_votes)) (bc_is_vote st potential_vote leader_block)
        | _ \<Rightarrow> None))"

fun certificate_loop :: "mcommittee \<Rightarrow> block_store \<Rightarrow> statement_block \<Rightarrow> block_reference list \<Rightarrow>
    vote_cache \<Rightarrow> stake_aggregator \<Rightarrow> (bool \<times> vote_cache) option" where
  "certificate_loop c st leader_block [] all_votes agg = Some (False, all_votes)"
| "certificate_loop c st leader_block (r # rs) all_votes agg =
     (case cached_vote st leader_block r all_votes of
        None \<Rightarrow> None
      | Some (v, all_votes') \<Rightarrow>
          if v then
            (case agg_add QuorumThreshold c (br_authority r) agg of
               None \<Rightarrow> None
             | Some (q, agg') \<Rightarrow>
                 if q then Some (True, all_votes')
                 else certificate_loop c st leader_block rs all_votes' agg')
          else certificate_loop c st leader_block rs all_votes' agg)"

definition is_certificate :: "mcommittee \<Rightarrow> block_store \<Rightarrow> statement_block \<Rightarrow> statement_block \<Rightarrow>
    vote_cache \<Rightarrow> (bool \<times> vote_cache) option" where
  "is_certificate c st potential_certificate leader_block all_votes =
     certificate_loop c st leader_block (block_includes potential_certificate) all_votes agg_new"

section \<open>The rules\<close>

fun any_certificate :: "mcommittee \<Rightarrow> block_store \<Rightarrow> statement_block \<Rightarrow> statement_block list \<Rightarrow>
    vote_cache \<Rightarrow> bool option" where
  "any_certificate c st leader_block [] all_votes = Some False"
| "any_certificate c st leader_block (p # ps) all_votes =
     (case is_certificate c st p leader_block all_votes of
        None \<Rightarrow> None
      | Some (True, _) \<Rightarrow> Some True
      | Some (False, all_votes') \<Rightarrow> any_certificate c st leader_block ps all_votes')"

fun filter_opt :: "('a \<Rightarrow> bool option) \<Rightarrow> 'a list \<Rightarrow> 'a list option" where
  "filter_opt P [] = Some []"
| "filter_opt P (x # xs) = (case P x of
     None \<Rightarrow> None
   | Some v \<Rightarrow> map_option (\<lambda>ys. if v then x # ys else ys) (filter_opt P xs))"

definition decide_leader_from_anchor :: "base_committer \<Rightarrow> block_store \<Rightarrow> statement_block \<Rightarrow>
    authority_round \<Rightarrow> leader_status option" where
  "decide_leader_from_anchor bc st anchor leader =
     (case get_blocks_at_authority_round st (ar_authority leader) (ar_round leader) of
        None \<Rightarrow> None
      | Some leader_blocks \<Rightarrow>
     (case linked_to_round st anchor (decision_round bc (wave_number bc (ar_round leader))) of
        None \<Rightarrow> None
      | Some potential_certificates \<Rightarrow>
     (case filter_opt (\<lambda>l. any_certificate (bc_committee bc) st l potential_certificates []) leader_blocks of
        None \<Rightarrow> None
      | Some certified_leader_blocks \<Rightarrow>
          if 1 < length certified_leader_blocks then None
          else Some (case certified_leader_blocks of [] \<Rightarrow> Skip leader | b # _ \<Rightarrow> Commit b))))"

fun blame_loop :: "mcommittee \<Rightarrow> nat \<Rightarrow> statement_block list \<Rightarrow> stake_aggregator \<Rightarrow> bool option" where
  "blame_loop c leader [] agg = Some False"
| "blame_loop c leader (b # bs) agg =
     (if list_all (\<lambda>i. br_authority i \<noteq> leader) (block_includes b) then
        (case agg_add QuorumThreshold c (br_authority (reference b)) agg of
           None \<Rightarrow> None
         | Some (q, agg') \<Rightarrow> if q then Some True else blame_loop c leader bs agg')
      else blame_loop c leader bs agg)"

definition enough_leader_blame :: "base_committer \<Rightarrow> block_store \<Rightarrow> nat \<Rightarrow> nat \<Rightarrow> bool option" where
  "enough_leader_blame bc st voting_round leader = (case get_blocks_by_round st voting_round of
     None \<Rightarrow> None | Some bs \<Rightarrow> blame_loop (bc_committee bc) leader bs agg_new)"

fun author_stakes :: "mcommittee \<Rightarrow> statement_block list \<Rightarrow> (64 word) option" where
  "author_stakes c [] = Some 0"
| "author_stakes c (b # bs) = (case mc_get_stake c (block_author b) of
     None \<Rightarrow> None | Some s \<Rightarrow> map_option ((+) s) (author_stakes c bs))"

fun support_blocks_loop :: "mcommittee \<Rightarrow> block_store \<Rightarrow> statement_block \<Rightarrow> statement_block list \<Rightarrow>
    vote_cache \<Rightarrow> stake_aggregator \<Rightarrow> bool option" where
  "support_blocks_loop c st leader_block [] all_votes agg = Some False"
| "support_blocks_loop c st leader_block (d # ds) all_votes agg =
     (case is_certificate c st d leader_block all_votes of
        None \<Rightarrow> None
      | Some (v, all_votes') \<Rightarrow>
          if v then
            (case agg_add QuorumThreshold c (br_authority (reference d)) agg of
               None \<Rightarrow> None
             | Some (q, agg') \<Rightarrow>
                 if q then Some True else support_blocks_loop c st leader_block ds all_votes' agg')
          else support_blocks_loop c st leader_block ds all_votes' agg)"

definition enough_leader_support :: "base_committer \<Rightarrow> block_store \<Rightarrow> nat \<Rightarrow> statement_block \<Rightarrow> bool option" where
  "enough_leader_support bc st dec_round leader_block =
     (case get_blocks_by_round st dec_round of
        None \<Rightarrow> None
      | Some decision_blocks \<Rightarrow>
     (case author_stakes (bc_committee bc) decision_blocks of
        None \<Rightarrow> None
      | Some total_stake \<Rightarrow>
          if total_stake < mc_quorum (bc_committee bc) then Some False
          else support_blocks_loop (bc_committee bc) st leader_block decision_blocks [] agg_new))"

fun anchor_loop :: "base_committer \<Rightarrow> block_store \<Rightarrow> authority_round \<Rightarrow> leader_status list \<Rightarrow> leader_status option" where
  "anchor_loop bc st leader [] = Some (Undecided leader)"
| "anchor_loop bc st leader (Commit anchor # as) = decide_leader_from_anchor bc st anchor leader"
| "anchor_loop bc st leader (Skip l # as) = anchor_loop bc st leader as"
| "anchor_loop bc st leader (Undecided l # as) = Some (Undecided leader)"

definition try_indirect_decide :: "base_committer \<Rightarrow> block_store \<Rightarrow> authority_round \<Rightarrow>
    leader_status list \<Rightarrow> leader_status option" where
  "try_indirect_decide bc st leader leaders = anchor_loop bc st leader
     (filter (\<lambda>x. ar_round leader + wave_length (bc_options bc) \<le> ls_round x) leaders)"

definition try_direct_decide :: "base_committer \<Rightarrow> block_store \<Rightarrow> authority_round \<Rightarrow> leader_status option" where
  "try_direct_decide bc st leader =
     (case enough_leader_blame bc st (ar_round leader + 1) (ar_authority leader) of
        None \<Rightarrow> None
      | Some True \<Rightarrow> Some (Skip leader)
      | Some False \<Rightarrow>
     (case get_blocks_at_authority_round st (ar_authority leader) (ar_round leader) of
        None \<Rightarrow> None
      | Some leader_blocks \<Rightarrow>
     (case filter_opt (enough_leader_support bc st
             (decision_round bc (wave_number bc (ar_round leader)))) leader_blocks of
        None \<Rightarrow> None
      | Some supported \<Rightarrow>
          if 1 < length supported then None
          else Some (case supported of [] \<Rightarrow> Undecided leader | b # _ \<Rightarrow> Commit b))))"

section \<open>Stores that hold verified, causally complete blocks\<close>

definition dag_block_ok :: "mcommittee \<Rightarrow> block_store \<Rightarrow> statement_block \<Rightarrow> bool" where
  "dag_block_ok c st b \<longleftrightarrow> block_author b < mc_len c \<and>
     list_all (\<lambda>i. block_at st i \<noteq> None \<and> br_round i < block_round b) (block_includes b) \<and>
     (0 < block_round b \<longrightarrow> mc_has_quorum c (parent_authorities b))"

definition all_blocks :: "block_store \<Rightarrow> statement_block list" where
  "all_blocks st = concat (map (\<lambda>(n, m). List.map_filter (\<lambda>(k, e). read_index st e) m) (bs_index st))"

definition dag_ok :: "mcommittee \<Rightarrow> block_store \<Rightarrow> bool" where
  "dag_ok c st \<longleftrightarrow> store_wf st \<and> list_all (dag_block_ok c st) (all_blocks st)"

lemma dag_ok_wf [simp]: "dag_ok c st \<Longrightarrow> store_wf st"
  by (simp add: dag_ok_def)

lemma set_map_filter: "y \<in> set (List.map_filter f xs) \<longleftrightarrow> (\<exists>x \<in> set xs. f x = Some y)"
  by (induction xs) (auto simp: List.map_filter_simps split: option.splits)

lemma set_all_blocks:
  assumes "store_wf st"
  shows "set (all_blocks st) = {b. bs_holds st b}"
proof (intro set_eqI iffI)
  fix b assume "b \<in> set (all_blocks st)"
  then obtain nm where nm: "nm \<in> set (bs_index st)"
    "b \<in> set (List.map_filter (\<lambda>(k, e). read_index st e) (snd nm))"
    unfolding all_blocks_def by (auto simp: split_beta)
  from nm(2) obtain ke where ke: "ke \<in> set (snd nm)" "read_index st (snd ke) = Some b"
    unfolding set_map_filter by (auto simp: split_beta)
  have m: "map_of (bs_index st) (fst nm) = Some (snd nm)"
    using assms nm(1) strict_sorted_distinct [of "map fst (bs_index st)"]
    by (simp add: store_wf_def map_of_in_set)
  have "b \<in> set (map (the \<circ> read_index st \<circ> snd) (snd nm))"
    using ke by (auto intro: rev_image_eqI [of ke])
  then show "b \<in> {b. bs_holds st b}"
    unfolding read_round(1) [OF assms m] by (simp add: bs_holds_def)
next
  fix b assume "b \<in> {b. bs_holds st b}"
  then obtain e where e: "inner_get_block st (reference b) = Some e" "read_index st e = Some b"
    using assms by (auto simp: bs_holds_def block_at_Some)
  then obtain m where m: "map_of (bs_index st) (br_round (reference b)) = Some m"
    "map_of m (author_digest (reference b)) = Some e"
    by (auto simp: inner_get_block_def split: option.splits)
  have "b \<in> set (List.map_filter (\<lambda>(k, e). read_index st e) m)"
    unfolding set_map_filter using e(2) map_of_SomeD [OF m(2)] by (intro bexI) auto
  then show "b \<in> set (all_blocks st)"
    using map_of_SomeD [OF m(1)] unfolding all_blocks_def by auto
qed

lemma dag_ok_block:
  assumes "dag_ok c st" "bs_holds st b"
  shows "dag_block_ok c st b"
proof -
  have "b \<in> set (all_blocks st)" using assms by (simp add: set_all_blocks)
  with assms(1) show ?thesis by (simp add: dag_ok_def list_all_iff)
qed

lemma dag_ok_include:
  assumes "dag_ok c st" "bs_holds st b" "i \<in> set (block_includes b)"
  obtains x where "block_at st i = Some x" "bs_holds st x" "reference x = i" "br_round i < block_round b"
    "block_round x = br_round i" "br_authority i = block_author x" "block_author x < mc_len c"
proof -
  from dag_ok_block [OF assms(1,2)] assms(3) obtain x where x: "block_at st i = Some x" "br_round i < block_round b"
    by (auto simp: dag_block_ok_def list_all_iff)
  from bs_holds_lookup [OF dag_ok_wf [OF assms(1)] x(1)] have h: "bs_holds st x" "reference x = i" by auto
  from dag_ok_block [OF assms(1) h(1)] have "block_author x < mc_len c" by (simp add: dag_block_ok_def)
  with x h show ?thesis by (intro that) (auto simp: block_round_def block_author_def)
qed

end
