(* ===== verification/MystiVotes.thy ===== *)
theory MystiVotes
  imports MystiCommitter
begin

text \<open>
  Mysticeti: what the loops of the commit rule compute on a store of verified, causally
  complete blocks. A scan that stops at the first quorum decides whether the authors that
  pass its test are a quorum; the cache of votes changes nothing; with waves of three rounds
  a vote is a block of the next round whose first reference into the slot is the leader.
\<close>

section \<open>Scans for a quorum\<close>

fun quorum_scan :: "('a \<Rightarrow> 's \<Rightarrow> (bool \<times> 's) option) \<Rightarrow> ('a \<Rightarrow> nat) \<Rightarrow> mcommittee \<Rightarrow> 'a list \<Rightarrow>
    's \<Rightarrow> stake_aggregator \<Rightarrow> (bool \<times> 's) option" where
  "quorum_scan test auth c [] s agg = Some (False, s)"
| "quorum_scan test auth c (x # xs) s agg = (case test x s of
     None \<Rightarrow> None
   | Some (v, s') \<Rightarrow>
       if v then
         (case agg_add QuorumThreshold c (auth x) agg of
            None \<Rightarrow> None
          | Some (q, agg') \<Rightarrow> if q then Some (True, s') else quorum_scan test auth c xs s' agg')
       else quorum_scan test auth c xs s' agg)"

lemma quorum_scan_spec:
  assumes ok: "mc_ok c"
    and known: "\<forall>x \<in> set xs. auth x < mc_len c"
    and test: "\<And>x s. x \<in> set xs \<Longrightarrow> I s \<Longrightarrow> \<exists>s'. test x s = Some (P x, s') \<and> I s'"
    and "agg_ok c agg" "\<not> mc_has_quorum c (agg_members agg)" "I s"
  shows "\<exists>s'. quorum_scan test auth c xs s agg =
           Some (mc_has_quorum c (agg_members agg \<union> auth ` {x \<in> set xs. P x}), s') \<and> I s'"
  using known test assms(4-6)
proof (induction xs arbitrary: s agg)
  case Nil
  then show ?case by simp
next
  case (Cons x xs)
  from Cons.prems(2) [of x s] Cons.prems(5) obtain s' where s': "test x s = Some (P x, s')" "I s'" by auto
  have step: "\<exists>s''. quorum_scan test auth c xs s' a =
      Some (mc_has_quorum c (agg_members a \<union> auth ` {x \<in> set xs. P x}), s'') \<and> I s''"
    if "agg_ok c a" "\<not> mc_has_quorum c (agg_members a)" for a
    by (rule Cons.IH) (use Cons.prems(1,2) that s'(2) in auto)
  show ?case
  proof (cases "P x")
    case False
    then have "{y \<in> set (x # xs). P y} = {y \<in> set xs. P y}" by auto
    then show ?thesis using step [OF Cons.prems(3,4)] s'(1) False by simp
  next
    case True
    have a: "auth x < mc_len c" using Cons.prems(1) by simp
    from agg_add_quorum [OF ok Cons.prems(3) a] obtain agg' where agg':
      "agg_add QuorumThreshold c (auth x) agg = Some (mc_has_quorum c (agg_members agg'), agg')"
      "agg_ok c agg'" "agg_members agg' = insert (auth x) (agg_members agg)" .
    have set: "agg_members agg \<union> auth ` {y \<in> set (x # xs). P y} =
        agg_members agg' \<union> auth ` {y \<in> set xs. P y}"
      using True agg'(3) by auto
    have sub: "agg_members agg' \<union> auth ` {y \<in> set xs. P y} \<subseteq> mc_members c"
      using agg'(2) Cons.prems(1) by (auto simp: agg_ok_def mc_members_def)
    show ?thesis
    proof (cases "mc_has_quorum c (agg_members agg')")
      case q: True
      from mc_has_quorum_mono [OF q _ sub] show ?thesis
        unfolding set using s' agg'(1) q True by simp
    next
      case False
      from step [OF agg'(2) False] show ?thesis
        unfolding set using s' agg'(1) False True by simp
    qed
  qed
qed

lemma certificate_loop_scan:
  "certificate_loop c st l rs votes agg = quorum_scan (cached_vote st l) br_authority c rs votes agg"
  by (induction rs arbitrary: votes agg) (auto split: option.splits)

lemma blame_loop_scan:
  "blame_loop c a bs agg = map_option fst
     (quorum_scan (\<lambda>b s. Some (list_all (\<lambda>i. br_authority i \<noteq> a) (block_includes b), s))
       block_author c bs () agg)"
  by (induction bs arbitrary: agg) (auto simp: block_author_def split: option.splits)

lemma support_loop_scan:
  "support_blocks_loop c st l ds votes agg =
     map_option fst (quorum_scan (\<lambda>d. is_certificate c st d l) block_author c ds votes agg)"
  by (induction ds arbitrary: votes agg) (auto simp: block_author_def split: option.splits)

section \<open>Votes\<close>

definition votes_for :: "statement_block \<Rightarrow> statement_block \<Rightarrow> bool" where
  "votes_for b l \<longleftrightarrow>
     find (\<lambda>i. author_round i = author_round (reference l)) (block_includes b) = Some (reference l)"

definition vote_at :: "block_store \<Rightarrow> statement_block \<Rightarrow> block_reference \<Rightarrow> bool" where
  "vote_at st l r = (case block_at st r of None \<Rightarrow> False | Some b \<Rightarrow> votes_for b l)"

definition certifies :: "mcommittee \<Rightarrow> block_store \<Rightarrow> statement_block \<Rightarrow> statement_block \<Rightarrow> bool" where
  "certifies c st p l \<longleftrightarrow> mc_has_quorum c (br_authority ` {r \<in> set (block_includes p). vote_at st l r})"

lemma support_loop_shallow:
  "\<forall>i \<in> set is. br_round i \<le> snd slot \<Longrightarrow>
     support_loop n st slot is = Some (find (\<lambda>i. author_round i = slot) is)"
  by (induction "is") auto

lemma is_vote_shallow:
  assumes "\<forall>i \<in> set (block_includes b). br_round i < block_round b" "block_round b \<le> block_round l + 1"
  shows "bc_is_vote st b l = Some (votes_for b l)"
proof (cases "block_round b < block_round l")
  case True
  then have "find (\<lambda>i. author_round i = author_round (reference l)) (block_includes b) = None"
    using assms(1) by (auto simp: find_None_iff author_round_def block_round_def)
  with True show ?thesis
    by (simp add: bc_is_vote_def find_support_def votes_for_def block_simps)
next
  case False
  have "\<forall>i \<in> set (block_includes b). br_round i \<le> snd (author_round (reference l))"
    using assms by (fastforce simp: block_simps)
  from support_loop_shallow [OF this] False show ?thesis
    by (simp add: bc_is_vote_def find_support_def votes_for_def block_simps)
qed

lemma votes_for_round:
  assumes "votes_for b l" "\<forall>i \<in> set (block_includes b). br_round i < block_round b"
  shows "block_round l < block_round b" "reference l \<in> set (block_includes b)"
proof -
  show in_b: "reference l \<in> set (block_includes b)"
    using assms(1) by (auto simp: votes_for_def find_Some_iff)
  with assms(2) show "block_round l < block_round b" by (auto simp: block_round_def)
qed

definition cache_ok :: "block_store \<Rightarrow> statement_block \<Rightarrow> vote_cache \<Rightarrow> bool" where
  "cache_ok st l votes \<longleftrightarrow> (\<forall>r v. map_of votes r = Some v \<longrightarrow> v = vote_at st l r)"

lemma cache_ok_empty [simp]: "cache_ok st l []"
  by (simp add: cache_ok_def)

lemma dag_includes_below:
  "dag_ok c st \<Longrightarrow> bs_holds st b \<Longrightarrow> \<forall>i \<in> set (block_includes b). br_round i < block_round b"
  using dag_ok_block [of c st b] by (simp add: dag_block_ok_def list_all_iff)

lemma cached_vote_spec:
  assumes dag: "dag_ok c st" "bs_holds st p" "r \<in> set (block_includes p)"
    and rounds: "block_round p \<le> block_round l + 2" and cache: "cache_ok st l votes"
  shows "\<exists>votes'. cached_vote st l r votes = Some (vote_at st l r, votes') \<and> cache_ok st l votes'"
proof (cases "map_of votes r")
  case (Some v)
  then show ?thesis using cache by (auto simp: cached_vote_def cache_ok_def)
next
  case None
  from dag_ok_include [OF dag] obtain b where b: "block_at st r = Some b" "bs_holds st b"
    "br_round r < block_round p" "block_round b = br_round r" by metis
  have "bc_is_vote st b l = Some (votes_for b l)"
    by (rule is_vote_shallow [OF dag_includes_below [OF dag(1) b(2)]]) (use b rounds in simp)
  moreover have "get_block st r = Some (Some b)"
    using get_block_wf [OF dag_ok_wf [OF dag(1)]] b(1) by simp
  ultimately have "cached_vote st l r votes = Some (vote_at st l r, AList.update r (vote_at st l r) votes)"
    using None b(1) by (simp add: cached_vote_def vote_at_def)
  moreover have "cache_ok st l (AList.update r (vote_at st l r) votes)"
    using cache by (auto simp: cache_ok_def)
  ultimately show ?thesis by blast
qed

lemma is_certificate_spec:
  assumes "mc_ok c" "dag_ok c st" "bs_holds st p" "block_round p \<le> block_round l + 2"
    and "cache_ok st l votes"
  shows "\<exists>votes'. is_certificate c st p l votes = Some (certifies c st p l, votes') \<and> cache_ok st l votes'"
proof -
  have known: "\<forall>r \<in> set (block_includes p). br_authority r < mc_len c"
    using dag_ok_include [OF assms(2,3)] by metis
  have "\<exists>s'. quorum_scan (cached_vote st l) br_authority c (block_includes p) votes agg_new =
      Some (mc_has_quorum c (agg_members agg_new \<union> br_authority ` {r \<in> set (block_includes p). vote_at st l r}), s')
      \<and> cache_ok st l s'"
    by (rule quorum_scan_spec [OF assms(1) known])
      (use cached_vote_spec [OF assms(2,3) _ assms(4)] assms(1,5) in auto)
  then show ?thesis
    by (simp add: is_certificate_def certificate_loop_scan certifies_def)
qed

lemma any_certificate_spec:
  assumes "mc_ok c" "dag_ok c st"
    and "\<forall>p \<in> set ps. bs_holds st p \<and> block_round p \<le> block_round l + 2" "cache_ok st l votes"
  shows "any_certificate c st l ps votes = Some (\<exists>p \<in> set ps. certifies c st p l)"
  using assms(3,4)
proof (induction ps arbitrary: votes)
  case Nil
  then show ?case by simp
next
  case (Cons p ps)
  from is_certificate_spec [OF assms(1,2), of p l votes] Cons.prems obtain votes' where
    "is_certificate c st p l votes = Some (certifies c st p l, votes')" "cache_ok st l votes'" by auto
  with Cons show ?case by (cases "certifies c st p l") auto
qed

lemma filter_opt_spec:
  "(\<And>x. x \<in> set xs \<Longrightarrow> P x = Some (Q x)) \<Longrightarrow> filter_opt P xs = Some (filter Q xs)"
  by (induction xs) auto

section \<open>Blames and supports\<close>

definition blames :: "block_store \<Rightarrow> nat \<Rightarrow> nat \<Rightarrow> nat set" where
  "blames st n a = block_author ` {b. bs_holds st b \<and> block_round b = n \<and>
     (\<forall>i \<in> set (block_includes b). br_authority i \<noteq> a)}"

definition supports :: "mcommittee \<Rightarrow> block_store \<Rightarrow> nat \<Rightarrow> statement_block \<Rightarrow> nat set" where
  "supports c st n l = block_author ` {d. bs_holds st d \<and> block_round d = n \<and> certifies c st d l}"

lemma enough_leader_blame_spec:
  assumes "mc_ok (bc_committee bc)" "dag_ok (bc_committee bc) st"
  shows "enough_leader_blame bc st n a = Some (mc_has_quorum (bc_committee bc) (blames st n a))"
proof -
  let ?c = "bc_committee bc"
  from bs_by_roundE [OF dag_ok_wf [OF assms(2)], of n] obtain bs where bs:
    "get_blocks_by_round st n = Some bs" "\<And>b. b \<in> set bs \<longleftrightarrow> bs_holds st b \<and> block_round b = n"
    by metis
  have known: "\<forall>b \<in> set bs. block_author b < mc_len ?c"
    using bs(2) dag_ok_block [OF assms(2)] by (auto simp: dag_block_ok_def)
  let ?P = "\<lambda>b. list_all (\<lambda>i. br_authority i \<noteq> a) (block_includes b)"
  have "\<exists>s'. quorum_scan (\<lambda>b s. Some (?P b, s)) block_author ?c bs () agg_new =
      Some (mc_has_quorum ?c (agg_members agg_new \<union> block_author ` {b \<in> set bs. ?P b}), s') \<and> True"
    by (rule quorum_scan_spec [OF assms(1) known, where I = "\<lambda>_. True"]) (use assms(1) in auto)
  moreover have "blames st n a = block_author ` {b \<in> set bs. ?P b}"
    unfolding blames_def bs(2) list_all_iff by (rule arg_cong [of _ _ "(`) block_author"]) auto
  ultimately show ?thesis
    by (auto simp: enough_leader_blame_def bs(1) blame_loop_scan)
qed

lemma author_stakes_Some:
  "\<forall>b \<in> set bs. block_author b < mc_len c \<Longrightarrow> \<exists>s. author_stakes c bs = Some s"
  by (induction bs) (auto simp: mc_get_stake_def)

text \<open>
  The quick rejection can only refuse: when the rule accepts, a quorum of the authors of the
  decision round have certificates.
\<close>

lemma enough_leader_support_spec:
  assumes "mc_ok (bc_committee bc)" "dag_ok (bc_committee bc) st" "n \<le> block_round l + 2"
  shows "\<exists>v. enough_leader_support bc st n l = Some v \<and>
           (v \<longrightarrow> mc_has_quorum (bc_committee bc) (supports (bc_committee bc) st n l))"
proof -
  let ?c = "bc_committee bc"
  from bs_by_roundE [OF dag_ok_wf [OF assms(2)], of n] obtain bs where bs:
    "get_blocks_by_round st n = Some bs" "\<And>b. b \<in> set bs \<longleftrightarrow> bs_holds st b \<and> block_round b = n"
    by metis
  have known: "\<forall>b \<in> set bs. block_author b < mc_len ?c"
    using bs(2) dag_ok_block [OF assms(2)] by (auto simp: dag_block_ok_def)
  obtain t where t: "author_stakes ?c bs = Some t" using author_stakes_Some [OF known] by blast
  have "\<exists>s'. quorum_scan (\<lambda>d. is_certificate ?c st d l) block_author ?c bs [] agg_new =
      Some (mc_has_quorum ?c (agg_members agg_new \<union> block_author ` {d \<in> set bs. certifies ?c st d l}), s')
      \<and> cache_ok st l s'"
    by (rule quorum_scan_spec [OF assms(1) known])
      (use is_certificate_spec [OF assms(1,2)] bs(2) assms(1,3) in auto)
  moreover have "supports ?c st n l = block_author ` {d \<in> set bs. certifies ?c st d l}"
    unfolding supports_def bs(2) by (rule arg_cong [of _ _ "(`) block_author"]) auto
  ultimately show ?thesis
    by (auto simp: enough_leader_support_def bs(1) t support_loop_scan)
qed

section \<open>Layers of ancestors\<close>

text \<open>The blocks that single-round links reach, \<open>k\<close> rounds below a block.\<close>

fun layer :: "block_store \<Rightarrow> statement_block \<Rightarrow> nat \<Rightarrow> statement_block set" where
  "layer st b 0 = {b}"
| "layer st b (Suc k) = {x. bs_holds st x \<and> block_round x = block_round b - Suc k \<and>
     (\<exists>y \<in> layer st b k. reference x \<in> set (block_includes y))}"

lemma layer_holds: "bs_holds st b \<Longrightarrow> x \<in> layer st b k \<Longrightarrow> bs_holds st x \<and> block_round x = block_round b - k"
  by (cases k) auto

lemma linked_step_spec:
  assumes "store_wf st"
  shows "\<exists>ps. linked_step st parents n = Some ps \<and> set ps =
           {x. bs_holds st x \<and> block_round x = n \<and> (\<exists>y \<in> set parents. reference x \<in> set (block_includes y))}"
proof -
  from bs_by_roundE [OF assms, of n] obtain bs where
    "get_blocks_by_round st n = Some bs" "\<And>b. b \<in> set bs \<longleftrightarrow> bs_holds st b \<and> block_round b = n"
    by metis
  then show ?thesis by (auto simp: linked_step_def list_ex_iff)
qed

lemma layer_empty: "layer st b k = {} \<Longrightarrow> layer st b (k + j) = {}"
  by (induction j) auto

lemma linked_to_loop_spec:
  assumes "store_wf st" "set ps = layer st b k" "n \<le> block_round b - k" "k \<le> block_round b"
  shows "\<exists>qs. linked_to_loop st (rev [n ..< block_round b - k]) ps = Some qs \<and>
           set qs = layer st b (block_round b - n)"
  using assms(2-4)
proof (induction "block_round b - k - n" arbitrary: k ps)
  case 0
  then have e: "n = block_round b - k" by simp
  then have "block_round b - n = k" using 0 by simp
  with 0 e show ?case by simp
next
  case (Suc d)
  have lt: "n < block_round b - k" using Suc.hyps(2) by simp
  then obtain m where m: "block_round b - k = Suc m" by (cases "block_round b - k") auto
  then have m': "m = block_round b - Suc k" "n \<le> m" using lt by simp_all
  have cons: "rev [n ..< block_round b - k] = m # rev [n ..< m]" using m m'(2) by simp
  from linked_step_spec [OF assms(1), of ps m] obtain qs where qs: "linked_step st ps m = Some qs"
    "set qs = layer st b (Suc k)"
    by (auto simp: Suc.prems(1) m'(1))
  show ?case
  proof (cases "qs = []")
    case True
    then have "layer st b (Suc k + (m - n)) = {}" using qs(2) by (intro layer_empty) simp
    moreover have "Suc k + (m - n) = block_round b - n" using m' lt Suc.prems(3) by simp
    ultimately have "layer st b (block_round b - n) = {}" by (simp only:)
    then show ?thesis using True qs(1) by (simp add: cons del: layer.simps)
  next
    case False
    have "\<exists>rs. linked_to_loop st (rev [n ..< block_round b - Suc k]) qs = Some rs \<and>
        set rs = layer st b (block_round b - n)"
      by (rule Suc.hyps(1)) (use Suc.hyps(2) qs(2) m' lt in simp_all)
    then show ?thesis using False qs(1) by (simp add: cons m'(1))
  qed
qed

lemma linked_to_round_spec:
  assumes "store_wf st" "n \<le> block_round b"
  shows "\<exists>ps. linked_to_round st b n = Some ps \<and> set ps = layer st b (block_round b - n)"
  using linked_to_loop_spec [OF assms(1), of "[b]" b 0 n] assms(2) by (simp add: linked_to_round_def)

lemma layer_quorum_step:
  assumes "mc_ok c" "dag_ok c st" "y \<in> layer st b k" "bs_holds st b" "k < block_round b"
  shows "mc_has_quorum c (block_author ` layer st b (Suc k))"
proof -
  have y: "bs_holds st y" "block_round y = block_round b - k"
    using layer_holds [OF assms(4,3)] by auto
  then have pos: "0 < block_round y" using assms(5) by simp
  have ok: "dag_block_ok c st y" by (rule dag_ok_block [OF assms(2) y(1)])
  then have "mc_has_quorum c (parent_authorities y)" using pos by (simp add: dag_block_ok_def)
  moreover have "parent_authorities y \<subseteq> block_author ` layer st b (Suc k)"
  proof
    fix a assume "a \<in> parent_authorities y"
    then obtain i where i: "i \<in> set (block_includes y)" "br_round i = block_round y - 1" "a = br_authority i"
      by (auto simp: parent_authorities_def)
    from dag_ok_include [OF assms(2) y(1) i(1)] obtain x where x: "bs_holds st x" "reference x = i"
      "block_round x = br_round i" "br_authority i = block_author x" by metis
    then have "x \<in> layer st b (Suc k)" using i assms(3) y(2) by auto
    then show "a \<in> block_author ` layer st b (Suc k)" using i(3) x(4) by simp
  qed
  moreover have "block_author ` layer st b (Suc k) \<subseteq> mc_members c"
    using dag_ok_block [OF assms(2)] by (auto simp: dag_block_ok_def mc_members_def)
  ultimately show ?thesis by (rule mc_has_quorum_mono)
qed

lemma layer_quorum:
  assumes "mc_ok c" "dag_ok c st" "bs_holds st b" "k < block_round b"
  shows "mc_has_quorum c (block_author ` layer st b (Suc k))"
  using assms(4)
proof (induction k)
  case 0
  show ?case by (rule layer_quorum_step [OF assms(1,2), of b]) (use 0 assms(3) in auto)
next
  case (Suc k)
  then have "mc_has_quorum c (block_author ` layer st b (Suc k))" by simp
  then have "block_author ` layer st b (Suc k) \<noteq> {}" using assms(1) by (metis mc_no_empty_quorum)
  then obtain y where "y \<in> layer st b (Suc k)" by blast
  then show ?case by (rule layer_quorum_step [OF assms(1,2)]) (use Suc.prems assms(3) in auto)
qed

end
