(* ===== verification/MystiSafety.thy ===== *)
theory MystiSafety
  imports MystiVotes
begin

text \<open>
  Mysticeti: two nodes with different views of the dag never decide one leader slot
  differently. A view is a block store that holds verified blocks and their causal history;
  two views agree on the block behind a reference and, for the authorities outside
  \<open>byz\<close>, on the block of an authority at a round. The Byzantine authorities hold less
  stake than the validity threshold, and waves have three rounds.
\<close>

section \<open>Two views of one dag\<close>

definition views_agree :: "nat list \<Rightarrow> block_store \<Rightarrow> block_store \<Rightarrow> bool" where
  "views_agree byz s1 s2 \<longleftrightarrow> list_all (\<lambda>b1. list_all (\<lambda>b2.
     (reference b1 = reference b2 \<or>
      (block_author b1 = block_author b2 \<and> block_author b1 \<notin> set byz \<and> block_round b1 = block_round b2))
     \<longrightarrow> b1 = b2) (all_blocks s2)) (all_blocks s1)"

definition byz_bound :: "mcommittee \<Rightarrow> nat list \<Rightarrow> bool" where
  "byz_bound c byz \<longleftrightarrow> sum (mc_weight c) (set byz) < unat (mc_validity c)"

definition two_views :: "mcommittee \<Rightarrow> nat list \<Rightarrow> block_store \<Rightarrow> block_store \<Rightarrow> bool" where
  "two_views c byz s1 s2 \<longleftrightarrow> mc_ok c \<and> byz_bound c byz \<and> dag_ok c s1 \<and> dag_ok c s2 \<and>
     views_agree byz s1 s1 \<and> views_agree byz s1 s2 \<and> views_agree byz s2 s2"

lemma views_agreeD:
  assumes "views_agree byz s1 s2" "store_wf s1" "store_wf s2" "bs_holds s1 x" "bs_holds s2 y"
  shows "reference x = reference y \<Longrightarrow> x = y"
    and "block_author x = block_author y \<Longrightarrow> block_author x \<notin> set byz \<Longrightarrow> block_round x = block_round y \<Longrightarrow> x = y"
proof -
  have "x \<in> set (all_blocks s1)" "y \<in> set (all_blocks s2)"
    using assms(2-5) by (simp_all add: set_all_blocks)
  with assms(1) show "reference x = reference y \<Longrightarrow> x = y"
    "block_author x = block_author y \<Longrightarrow> block_author x \<notin> set byz \<Longrightarrow> block_round x = block_round y \<Longrightarrow> x = y"
    unfolding views_agree_def list_all_iff by blast+
qed

lemma views_agree_sym: "views_agree byz s1 s2 \<Longrightarrow> views_agree byz s2 s1"
  by (fastforce simp: views_agree_def list_all_iff)

lemma two_views_sym: "two_views c byz s1 s2 \<Longrightarrow> two_views c byz s2 s1"
  by (simp add: two_views_def views_agree_sym)

lemma two_views_self: "two_views c byz s1 s2 \<Longrightarrow> two_views c byz s1 s1"
  by (simp add: two_views_def)

lemma two_viewsD:
  assumes "two_views c byz s1 s2"
  shows "mc_ok c" "dag_ok c s1" "dag_ok c s2" "store_wf s1" "store_wf s2"
    "views_agree byz s1 s2"
  using assms by (auto simp: two_views_def)

lemma same_block:
  assumes "two_views c byz s1 s2" "bs_holds s1 x" "bs_holds s2 y" "reference x = reference y"
  shows "x = y"
  using views_agreeD(1) [of byz s1 s2 x y] assms two_viewsD [OF assms(1)] by blast

lemma honest_block:
  assumes "two_views c byz s1 s2" "bs_holds s1 x" "bs_holds s2 y"
    and "block_author x = block_author y" "block_author x \<notin> set byz" "block_round x = block_round y"
  shows "x = y"
  using views_agreeD(2) [of byz s1 s2 x y] assms two_viewsD [OF assms(1)] by blast

lemma honest_overlap:
  assumes "two_views c byz s1 s2" "mc_has_quorum c S" "mc_has_quorum c T"
  obtains h where "h \<in> S" "h \<in> T" "h \<notin> set byz"
proof -
  have "unat (mc_validity c) \<le> sum (mc_weight c) (S \<inter> T)"
    by (rule mc_quorum_intersection) (use assms two_viewsD(1) in auto)
  then have lt: "sum (mc_weight c) (set byz) < sum (mc_weight c) (S \<inter> T)"
    using assms(1) by (simp add: two_views_def byz_bound_def)
  have "\<not> S \<inter> T \<subseteq> set byz"
  proof
    assume "S \<inter> T \<subseteq> set byz"
    then have "sum (mc_weight c) (S \<inter> T) \<le> sum (mc_weight c) (set byz)" by (intro sum_mono2) auto
    with lt show False by simp
  qed
  with that show ?thesis by blast
qed

text \<open>The causal history of a block that both views hold is the same in both.\<close>

lemma shared_include:
  assumes "two_views c byz s1 s2" "bs_holds s1 b" "bs_holds s2 b" "i \<in> set (block_includes b)"
  shows "block_at s1 i = block_at s2 i"
proof -
  from dag_ok_include [OF two_viewsD(2) [OF assms(1)] assms(2,4)] obtain x where
    x: "block_at s1 i = Some x" "bs_holds s1 x" "reference x = i" by metis
  from dag_ok_include [OF two_viewsD(3) [OF assms(1)] assms(3,4)] obtain y where
    y: "block_at s2 i = Some y" "bs_holds s2 y" "reference y = i" by metis
  from same_block [OF assms(1) x(2) y(2)] x(3) y(3) have "x = y" by simp
  with x y show ?thesis by simp
qed

lemma shared_certifies:
  assumes "two_views c byz s1 s2" "bs_holds s1 p" "bs_holds s2 p"
  shows "certifies c s1 p l = certifies c s2 p l"
proof -
  have "{r \<in> set (block_includes p). vote_at s1 l r} = {r \<in> set (block_includes p). vote_at s2 l r}"
    using shared_include [OF assms] by (auto simp: vote_at_def)
  then show ?thesis by (simp add: certifies_def)
qed

lemma shared_layer:
  assumes "two_views c byz s1 s2" "bs_holds s1 b" "bs_holds s2 b"
  shows "layer s1 b k \<subseteq> layer s2 b k"
proof (induction k)
  case 0
  then show ?case by simp
next
  case (Suc k)
  show ?case
  proof
    fix x assume "x \<in> layer s1 b (Suc k)"
    then obtain y where x: "bs_holds s1 x" "block_round x = block_round b - Suc k"
      and y: "y \<in> layer s1 b k" "reference x \<in> set (block_includes y)" by auto
    have y2: "y \<in> layer s2 b k" using y(1) Suc.IH by blast
    have "block_at s1 (reference x) = block_at s2 (reference x)"
      using shared_include [OF assms(1) _ _ y(2)] layer_holds [OF assms(2) y(1)] layer_holds [OF assms(3) y2]
      by blast
    then have "bs_holds s2 x" using x(1) by (simp add: bs_holds_def)
    then show "x \<in> layer s2 b (Suc k)" using x(2) y(2) y2 by auto
  qed
qed

section \<open>Certificates are unique and exclude blames\<close>

lemma certificate_voter:
  assumes dag: "dag_ok c st" "bs_holds st p" and p: "block_round p = block_round l + 2"
    and a: "a \<in> br_authority ` {r \<in> set (block_includes p). vote_at st l r}"
  obtains b where "bs_holds st b" "block_author b = a" "block_round b = block_round l + 1" "votes_for b l"
    "reference b \<in> set (block_includes p)"
proof -
  from a obtain r where r: "r \<in> set (block_includes p)" "vote_at st l r" "a = br_authority r" by auto
  from dag_ok_include [OF dag r(1)] obtain b where b: "block_at st r = Some b" "bs_holds st b"
    "reference b = r" "br_round r < block_round p" "block_round b = br_round r" "br_authority r = block_author b"
    by metis
  have v: "votes_for b l" using r(2) b(1) by (simp add: vote_at_def)
  have "block_round l < block_round b"
    by (rule votes_for_round(1) [OF v dag_includes_below [OF dag(1) b(2)]])
  then have "block_round b = block_round l + 1" using b(4,5) p by simp
  with b v r show ?thesis by (intro that) auto
qed

lemma certificate_unique:
  assumes tv: "two_views c byz s1 s2"
    and p1: "bs_holds s1 p1" "block_round p1 = block_round l1 + 2" "certifies c s1 p1 l1"
    and p2: "bs_holds s2 p2" "block_round p2 = block_round l2 + 2" "certifies c s2 p2 l2"
    and slot: "author_round (reference l1) = author_round (reference l2)"
  shows "reference l1 = reference l2"
proof -
  from honest_overlap [OF tv p1(3) [unfolded certifies_def] p2(3) [unfolded certifies_def]] obtain h where h:
    "h \<in> br_authority ` {r \<in> set (block_includes p1). vote_at s1 l1 r}"
    "h \<in> br_authority ` {r \<in> set (block_includes p2). vote_at s2 l2 r}" "h \<notin> set byz" .
  from certificate_voter [OF two_viewsD(2) [OF tv] p1(1,2) h(1)] obtain b1 where
    b1: "bs_holds s1 b1" "block_author b1 = h" "block_round b1 = block_round l1 + 1" "votes_for b1 l1" .
  from certificate_voter [OF two_viewsD(3) [OF tv] p2(1,2) h(2)] obtain b2 where
    b2: "bs_holds s2 b2" "block_author b2 = h" "block_round b2 = block_round l2 + 1" "votes_for b2 l2" .
  have "block_round l1 = block_round l2" using slot by (simp add: block_simps)
  then have "b1 = b2" using honest_block [OF tv b1(1) b2(1)] b1 b2 h(3) by simp
  then show ?thesis using b1(4) b2(4) slot by (simp add: votes_for_def)
qed

lemma blame_excludes_certificate:
  assumes tv: "two_views c byz s1 s2"
    and blame: "mc_has_quorum c (blames s1 (block_round l + 1) (block_author l))"
    and p: "bs_holds s2 p" "block_round p = block_round l + 2"
  shows "\<not> certifies c s2 p l"
proof
  assume "certifies c s2 p l"
  from honest_overlap [OF tv blame this [unfolded certifies_def]] obtain h where h:
    "h \<in> blames s1 (block_round l + 1) (block_author l)"
    "h \<in> br_authority ` {r \<in> set (block_includes p). vote_at s2 l r}" "h \<notin> set byz" .
  from h(1) obtain b1 where b1: "bs_holds s1 b1" "block_author b1 = h" "block_round b1 = block_round l + 1"
    "\<forall>i \<in> set (block_includes b1). br_authority i \<noteq> block_author l"
    by (auto simp: blames_def)
  from certificate_voter [OF two_viewsD(3) [OF tv] p h(2)] obtain b2 where
    b2: "bs_holds s2 b2" "block_author b2 = h" "block_round b2 = block_round l + 1" "votes_for b2 l" .
  have "b1 = b2" using honest_block [OF tv b1(1) b2(1)] b1 b2 h(3) by simp
  moreover have "reference l \<in> set (block_includes b2)"
    by (rule votes_for_round(2) [OF b2(4) dag_includes_below [OF two_viewsD(3) [OF tv] b2(1)]])
  ultimately show False using b1(4) by (auto simp: block_author_def)
qed

text \<open>A quorum of certificates reaches every later block, in every view.\<close>

lemma support_reaches_anchor:
  assumes tv: "two_views c byz s1 s2"
    and sup: "mc_has_quorum c (supports c s1 (block_round l + 2) l)"
    and anchor: "bs_holds s2 anchor" "block_round l + 3 \<le> block_round anchor"
  obtains p where "p \<in> layer s2 anchor (block_round anchor - (block_round l + 2))" "certifies c s2 p l"
proof -
  define k where "k = block_round anchor - (block_round l + 3)"
  have k: "block_round anchor = block_round l + 2 + Suc k" using anchor(2) by (simp add: k_def)
  have "mc_has_quorum c (block_author ` layer s2 anchor (Suc k))"
    by (rule layer_quorum [OF two_viewsD(1,3) [OF tv] anchor(1)]) (simp add: k)
  from honest_overlap [OF tv sup this] obtain h where h: "h \<in> supports c s1 (block_round l + 2) l"
    "h \<in> block_author ` layer s2 anchor (Suc k)" "h \<notin> set byz" .
  from h(1) obtain d where d: "bs_holds s1 d" "block_author d = h" "block_round d = block_round l + 2"
    "certifies c s1 d l" by (auto simp: supports_def)
  from h(2) obtain p where p: "p \<in> layer s2 anchor (Suc k)" "block_author p = h" by auto
  from layer_holds [OF anchor(1) p(1)] have ph: "bs_holds s2 p" "block_round p = block_round l + 2"
    by (auto simp: k)
  have "d = p" using honest_block [OF tv d(1) ph(1)] d p ph h(3) by simp
  with d ph have "certifies c s2 p l" using shared_certifies [OF tv d(1)] by simp
  then show ?thesis using that [of p] p(1) by (simp add: k)
qed

section \<open>What a decision rests on\<close>

definition holds_leader :: "block_store \<Rightarrow> authority_round \<Rightarrow> statement_block \<Rightarrow> bool" where
  "holds_leader st leader l \<longleftrightarrow> bs_holds st l \<and> block_author l = ar_authority leader \<and>
     block_round l = ar_round leader"

definition anchored :: "mcommittee \<Rightarrow> block_store \<Rightarrow> statement_block \<Rightarrow> statement_block \<Rightarrow> bool" where
  "anchored c st anchor l \<longleftrightarrow>
     (\<exists>p \<in> layer st anchor (block_round anchor - (block_round l + 2)). certifies c st p l)"

fun direct_evidence :: "mcommittee \<Rightarrow> block_store \<Rightarrow> authority_round \<Rightarrow> leader_status \<Rightarrow> bool" where
  "direct_evidence c st leader (Commit l) \<longleftrightarrow>
     holds_leader st leader l \<and> mc_has_quorum c (supports c st (ar_round leader + 2) l)"
| "direct_evidence c st leader (Skip s) \<longleftrightarrow>
     s = leader \<and> mc_has_quorum c (blames st (ar_round leader + 1) (ar_authority leader))"
| "direct_evidence c st leader (Undecided s) \<longleftrightarrow> s = leader"

fun anchor_evidence :: "mcommittee \<Rightarrow> block_store \<Rightarrow> statement_block \<Rightarrow> authority_round \<Rightarrow> leader_status \<Rightarrow> bool" where
  "anchor_evidence c st anchor leader (Commit l) \<longleftrightarrow> holds_leader st leader l \<and> anchored c st anchor l"
| "anchor_evidence c st anchor leader (Skip s) \<longleftrightarrow>
     s = leader \<and> (\<forall>l. holds_leader st leader l \<longrightarrow> \<not> anchored c st anchor l)"
| "anchor_evidence c st anchor leader (Undecided s) \<longleftrightarrow> False"

lemma anchored_certificate:
  assumes "bs_holds st anchor" "block_round l + 2 \<le> block_round anchor" "anchored c st anchor l"
  obtains p where "bs_holds st p" "block_round p = block_round l + 2" "certifies c st p l"
proof -
  from assms(3) obtain p where p: "p \<in> layer st anchor (block_round anchor - (block_round l + 2))"
    "certifies c st p l" by (auto simp: anchored_def)
  from layer_holds [OF assms(1) p(1)] assms(2) p(2) show ?thesis by (intro that) auto
qed

lemma supports_certificate:
  assumes "mc_ok c" "mc_has_quorum c (supports c st n l)"
  obtains p where "bs_holds st p" "block_round p = n" "certifies c st p l"
proof -
  have "supports c st n l \<noteq> {}" using assms by (metis mc_no_empty_quorum)
  with that show ?thesis by (auto simp: supports_def)
qed

definition three_rounds :: "base_committer \<Rightarrow> authority_round \<Rightarrow> bool" where
  "three_rounds bc leader \<longleftrightarrow> wave_length (bc_options bc) = 3 \<and>
     leader_round bc (wave_number bc (ar_round leader)) = ar_round leader"

lemma three_rounds_decision:
  "three_rounds bc leader \<Longrightarrow> decision_round bc (wave_number bc (ar_round leader)) = ar_round leader + 2"
  by (auto simp: three_rounds_def decision_round_def leader_round_def)

lemma holds_leader_slot:
  "holds_leader st leader l \<Longrightarrow> holds_leader st' leader l' \<Longrightarrow>
     author_round (reference l) = author_round (reference l')"
  by (simp add: holds_leader_def block_simps)

text \<open>Both rules return, without a panic, a status with its evidence.\<close>

lemma filtered_unique:
  assumes wf: "store_wf st" and slot: "get_blocks_at_authority_round st a n = Some ls"
    and uniq: "\<And>x y. x \<in> set ls \<Longrightarrow> y \<in> set ls \<Longrightarrow> P x \<Longrightarrow> P y \<Longrightarrow> reference x = reference y"
  shows "filter P ls = [] \<or> (\<exists>l. filter P ls = [l] \<and> l \<in> set ls \<and> P l)"
proof (cases "\<exists>l \<in> set ls. P l")
  case False
  then show ?thesis by (simp add: filter_empty_conv)
next
  case True
  then obtain l where l: "l \<in> set ls" "P l" by blast
  have "y = l" if "y \<in> set ls" "P y" for y
  proof -
    have "bs_holds st y" "bs_holds st l"
      using bs_at_slotE [OF wf, of a n] slot that(1) l(1) by (metis option.inject)+
    then show ?thesis using uniq [OF that(1) l(1) that(2) l(2)] by (rule bs_holds_unique)
  qed
  then have "filter P ls = [l]" using bs_slot_single [OF wf slot, of P l] l by blast
  with l show ?thesis by blast
qed

lemma direct_decide_evidence:
  assumes tv: "two_views (bc_committee bc) byz st st" and tr: "three_rounds bc leader"
  shows "\<exists>s. try_direct_decide bc st leader = Some s \<and> direct_evidence (bc_committee bc) st leader s"
proof -
  let ?c = "bc_committee bc"
  note ok = two_viewsD(1) [OF tv] and dag = two_viewsD(2) [OF tv]
  note blame = enough_leader_blame_spec [OF ok dag]
  show ?thesis
  proof (cases "mc_has_quorum ?c (blames st (ar_round leader + 1) (ar_authority leader))")
    case True
    then show ?thesis by (simp add: try_direct_decide_def blame)
  next
    case False
    from bs_at_slotE [OF dag_ok_wf [OF dag], of "ar_authority leader" "ar_round leader"] obtain ls where
      ls: "get_blocks_at_authority_round st (ar_authority leader) (ar_round leader) = Some ls"
      "\<And>b. b \<in> set ls \<longleftrightarrow> bs_holds st b \<and> block_round b = ar_round leader \<and> block_author b = ar_authority leader"
      by metis
    let ?n = "ar_round leader + 2"
    define Q where "Q l \<longleftrightarrow> enough_leader_support bc st ?n l = Some True" for l
    have sup: "enough_leader_support bc st ?n l = Some (Q l)"
      "Q l \<Longrightarrow> mc_has_quorum ?c (supports ?c st ?n l)" if "l \<in> set ls" for l
      using enough_leader_support_spec [OF ok dag, of ?n l] that by (auto simp: Q_def ls(2))
    have "reference x = reference y" if "x \<in> set ls" "y \<in> set ls" "Q x" "Q y" for x y
    proof -
      from supports_certificate [OF ok sup(2) [OF that(1,3)]] obtain p where
        p: "bs_holds st p" "block_round p = ?n" "certifies ?c st p x" .
      from supports_certificate [OF ok sup(2) [OF that(2,4)]] obtain q where
        q: "bs_holds st q" "block_round q = ?n" "certifies ?c st q y" .
      show ?thesis
        by (rule certificate_unique [OF tv p(1) _ p(3) q(1) _ q(3)])
          (use that(1,2) p(2) q(2) in \<open>auto simp: ls(2) block_simps\<close>)
    qed
    from filtered_unique [OF dag_ok_wf [OF dag] ls(1), of Q, OF this]
    have "filter Q ls = [] \<or> (\<exists>l. filter Q ls = [l] \<and> l \<in> set ls \<and> Q l)" by blast
    moreover have "filter_opt (enough_leader_support bc st ?n) ls = Some (filter Q ls)"
      by (rule filter_opt_spec) (rule sup(1))
    ultimately show ?thesis
      using False ls sup(2)
      by (auto simp: try_direct_decide_def blame three_rounds_decision [OF tr] holds_leader_def)
  qed
qed

lemma anchor_decide_evidence:
  assumes tv: "two_views (bc_committee bc) byz st st" and tr: "three_rounds bc leader"
    and anchor: "bs_holds st anchor" "ar_round leader + 3 \<le> block_round anchor"
  shows "\<exists>s. decide_leader_from_anchor bc st anchor leader = Some s \<and>
           anchor_evidence (bc_committee bc) st anchor leader s"
proof -
  let ?c = "bc_committee bc"
  define n where "n = ar_round leader + 2"
  have dr: "decision_round bc (wave_number bc (ar_round leader)) = n"
    using three_rounds_decision [OF tr] by (simp only: n_def)
  note ok = two_viewsD(1) [OF tv] and dag = two_viewsD(2) [OF tv]
  from bs_at_slotE [OF dag_ok_wf [OF dag], of "ar_authority leader" "ar_round leader"] obtain ls where
    ls: "get_blocks_at_authority_round st (ar_authority leader) (ar_round leader) = Some ls"
    "\<And>b. b \<in> set ls \<longleftrightarrow> bs_holds st b \<and> block_round b = ar_round leader \<and> block_author b = ar_authority leader"
    by metis
  have le: "n \<le> block_round anchor" using anchor(2) by (simp add: n_def)
  from linked_to_round_spec [OF dag_ok_wf [OF dag] le] obtain ps where
    ps: "linked_to_round st anchor n = Some ps" "set ps = layer st anchor (block_round anchor - n)" by blast
  have psh: "\<forall>p \<in> set ps. bs_holds st p \<and> block_round p = n"
    using layer_holds [OF anchor(1)] le by (auto simp: ps(2))
  have any: "any_certificate ?c st l ps [] = Some (anchored ?c st anchor l)" if "l \<in> set ls" for l
  proof -
    have l: "block_round l = ar_round leader" using that by (simp add: ls(2))
    have "\<forall>p \<in> set ps. bs_holds st p \<and> block_round p \<le> block_round l + 2" using psh l by (simp add: n_def)
    from any_certificate_spec [OF ok dag this cache_ok_empty] show ?thesis
      by (simp only: anchored_def ps(2) l n_def)
  qed
  have "reference x = reference y"
    if "x \<in> set ls" "y \<in> set ls" "anchored ?c st anchor x" "anchored ?c st anchor y" for x y
  proof -
    have r: "block_round x + 2 \<le> block_round anchor" "block_round y + 2 \<le> block_round anchor"
      using that(1,2) le by (simp_all add: ls(2) n_def)
    from anchored_certificate [OF anchor(1) r(1) that(3)] obtain p where
      p: "bs_holds st p" "block_round p = block_round x + 2" "certifies ?c st p x" .
    from anchored_certificate [OF anchor(1) r(2) that(4)] obtain q where
      q: "bs_holds st q" "block_round q = block_round y + 2" "certifies ?c st q y" .
    show ?thesis
      by (rule certificate_unique [OF tv p q]) (use that(1,2) in \<open>auto simp: ls(2) block_simps\<close>)
  qed
  from filtered_unique [OF dag_ok_wf [OF dag] ls(1), of "anchored ?c st anchor", OF this]
  have "filter (anchored ?c st anchor) ls = [] \<or>
      (\<exists>l. filter (anchored ?c st anchor) ls = [l] \<and> l \<in> set ls \<and> anchored ?c st anchor l)" by blast
  moreover have "filter_opt (\<lambda>l. any_certificate ?c st l ps []) ls = Some (filter (anchored ?c st anchor) ls)"
    by (rule filter_opt_spec) (rule any)
  ultimately show ?thesis
    by (auto simp: decide_leader_from_anchor_def dr ls ps(1) holds_leader_def
        filter_empty_conv)
qed

section \<open>Decisions of one slot agree\<close>

lemma direct_direct_agree:
  assumes tv: "two_views c byz s1 s2" "direct_evidence c s1 leader a" "direct_evidence c s2 leader b"
    and dec: "is_decided a" "is_decided b"
  shows "a = b"
proof -
  have commits: "l1 = l2"
    if "direct_evidence c s1 leader (Commit l1)" "direct_evidence c s2 leader (Commit l2)" for l1 l2
  proof -
    from that have q: "mc_has_quorum c (supports c s1 (ar_round leader + 2) l1)"
      "mc_has_quorum c (supports c s2 (ar_round leader + 2) l2)"
      and h: "holds_leader s1 leader l1" "holds_leader s2 leader l2" by auto
    from supports_certificate [OF two_viewsD(1) [OF tv(1)] q(1)] obtain p1 where
      p1: "bs_holds s1 p1" "block_round p1 = ar_round leader + 2" "certifies c s1 p1 l1" .
    from supports_certificate [OF two_viewsD(1) [OF tv(1)] q(2)] obtain p2 where
      p2: "bs_holds s2 p2" "block_round p2 = ar_round leader + 2" "certifies c s2 p2 l2" .
    have "reference l1 = reference l2"
      by (rule certificate_unique [OF tv(1) p1(1) _ p1(3) p2(1) _ p2(3) holds_leader_slot [OF h]])
        (use p1(2) p2(2) h in \<open>auto simp: holds_leader_def\<close>)
    then show ?thesis using same_block [OF tv(1)] h by (auto simp: holds_leader_def)
  qed
  have mixed: False
    if "two_views c byz s s'" "direct_evidence c s leader (Skip x)" "direct_evidence c s' leader (Commit l)" for s s' x l
  proof -
    from that have q: "mc_has_quorum c (supports c s' (ar_round leader + 2) l)"
      and h: "holds_leader s' leader l"
      and bl: "mc_has_quorum c (blames s (ar_round leader + 1) (ar_authority leader))" by auto
    from supports_certificate [OF two_viewsD(1) [OF tv(1)] q] obtain p where
      p: "bs_holds s' p" "block_round p = ar_round leader + 2" "certifies c s' p l" .
    have l: "block_round l = ar_round leader" "block_author l = ar_authority leader"
      using h by (simp_all add: holds_leader_def)
    have "\<not> certifies c s' p l"
      by (rule blame_excludes_certificate [OF that(1) _ p(1)]) (simp_all only: l bl p(2))
    with p(3) show False by contradiction
  qed
  show ?thesis
  proof (cases a)
    case a: (Commit l1)
    show ?thesis
    proof (cases b)
      case (Commit l2)
      then show ?thesis using commits [of l1 l2] tv(2,3) a by simp
    next
      case (Skip x)
      then show ?thesis using mixed [OF two_views_sym [OF tv(1)], of x l1] tv(2,3) a by simp
    qed (use dec in simp)
  next
    case a: (Skip x)
    show ?thesis
    proof (cases b)
      case (Commit l2)
      then show ?thesis using mixed [OF tv(1), of x l2] tv(2,3) a by simp
    next
      case (Skip y)
      then show ?thesis using tv(2,3) a by simp
    qed (use dec in simp)
  qed (use dec in simp)
qed

lemma direct_anchor_agree:
  assumes tv: "two_views c byz s1 s2" and dir: "direct_evidence c s1 leader a" "is_decided a"
    and anc: "anchor_evidence c s2 anchor leader b"
    and anchor: "bs_holds s2 anchor" "ar_round leader + 3 \<le> block_round anchor"
  shows "a = b"
proof (cases a)
  case (Commit l)
  then have h: "holds_leader s1 leader l" and q: "mc_has_quorum c (supports c s1 (block_round l + 2) l)"
    using dir(1) by (auto simp: holds_leader_def)
  have le: "block_round l + 3 \<le> block_round anchor" using anchor(2) h by (simp add: holds_leader_def)
  from support_reaches_anchor [OF tv q anchor(1) le] have anchd: "anchored c s2 anchor l"
    by (auto simp: anchored_def)
  from anchored_certificate [OF anchor(1) _ anchd] le obtain p where
    p: "bs_holds s2 p" "block_round p = block_round l + 2" "certifies c s2 p l" by auto
  have l2: "bs_holds s2 l"
  proof -
    have "br_authority ` {r \<in> set (block_includes p). vote_at s2 l r} \<noteq> {}"
      using p(3) two_viewsD(1) [OF tv] unfolding certifies_def by (metis mc_no_empty_quorum)
    then obtain x where "x \<in> br_authority ` {r \<in> set (block_includes p). vote_at s2 l r}" by blast
    from certificate_voter [OF two_viewsD(3) [OF tv] p(1,2) this] obtain b where
      b: "bs_holds s2 b" "votes_for b l" by metis
    have "reference l \<in> set (block_includes b)"
      by (rule votes_for_round(2) [OF b(2) dag_includes_below [OF two_viewsD(3) [OF tv] b(1)]])
    from dag_ok_include [OF two_viewsD(3) [OF tv] b(1) this] obtain l' where
      l': "bs_holds s2 l'" "reference l' = reference l" by metis
    have "l = l'" using same_block [OF tv _ l'(1)] h l'(2) by (simp add: holds_leader_def)
    with l'(1) show ?thesis by simp
  qed
  then have hl2: "holds_leader s2 leader l" using h by (simp add: holds_leader_def)
  show ?thesis
  proof (cases b)
    case (Skip s)
    then show ?thesis using anc hl2 anchd by auto
  next
    case (Commit l')
    then have h': "holds_leader s2 leader l'" "anchored c s2 anchor l'" using anc by auto
    have le': "block_round l' + 2 \<le> block_round anchor" using h'(1) anchor(2) by (simp add: holds_leader_def)
    from anchored_certificate [OF anchor(1) le' h'(2)] obtain q where
      q: "bs_holds s2 q" "block_round q = block_round l' + 2" "certifies c s2 q l'" .
    have "reference l = reference l'"
      by (rule certificate_unique [OF two_views_self [OF two_views_sym [OF tv]] p q holds_leader_slot [OF hl2 h'(1)]])
    then have "l = l'" using l2 h'(1) by (auto simp: holds_leader_def intro: bs_holds_unique)
    then show ?thesis using \<open>a = Commit l\<close> \<open>b = Commit l'\<close> by simp
  qed (use anc in simp)
next
  case (Skip s)
  show ?thesis
  proof (cases b)
    case (Commit l)
    then have h: "holds_leader s2 leader l" "anchored c s2 anchor l" using anc by auto
    have le: "block_round l + 2 \<le> block_round anchor" using h(1) anchor(2) by (simp add: holds_leader_def)
    from anchored_certificate [OF anchor(1) le h(2)] obtain q where
      q: "bs_holds s2 q" "block_round q = block_round l + 2" "certifies c s2 q l" .
    from blame_excludes_certificate [OF tv _ q(1,2)] q(3) have False
      using Skip dir(1) h(1) by (simp add: holds_leader_def)
    then show ?thesis ..
  qed (use Skip dir anc in auto)
qed (use dir in auto)

lemma anchor_anchor_agree:
  assumes tv: "two_views c byz s1 s2"
    and a: "anchor_evidence c s1 anchor leader a" and b: "anchor_evidence c s2 anchor leader b"
    and anchor: "bs_holds s1 anchor" "bs_holds s2 anchor" "ar_round leader + 3 \<le> block_round anchor"
  shows "a = b"
proof -
  have transfer: "holds_leader s' leader l \<and> anchored c s' anchor l"
    if tv': "two_views c byz s s'" and hs: "bs_holds s anchor" "bs_holds s' anchor"
      and h: "holds_leader s leader l" "anchored c s anchor l" for s s' l
  proof -
    from h(2) obtain p where p: "p \<in> layer s anchor (block_round anchor - (block_round l + 2))"
      "certifies c s p l" by (auto simp: anchored_def)
    have p': "p \<in> layer s' anchor (block_round anchor - (block_round l + 2))"
      using shared_layer [OF tv' hs] p(1) by blast
    have le: "block_round l + 2 \<le> block_round anchor" using h(1) anchor(3) by (simp add: holds_leader_def)
    have hp: "bs_holds s p" "bs_holds s' p" "block_round p = block_round l + 2"
      using layer_holds [OF hs(1) p(1)] layer_holds [OF hs(2) p'] le by auto
    have cert: "certifies c s' p l" using shared_certifies [OF tv' hp(1,2)] p(2) by simp
    have "br_authority ` {r \<in> set (block_includes p). vote_at s' l r} \<noteq> {}"
      using cert two_viewsD(1) [OF tv] unfolding certifies_def by (metis mc_no_empty_quorum)
    then obtain x where "x \<in> br_authority ` {r \<in> set (block_includes p). vote_at s' l r}" by blast
    from certificate_voter [OF two_viewsD(3) [OF tv'] hp(2,3) this] obtain v where
      v: "bs_holds s' v" "votes_for v l" by metis
    have "reference l \<in> set (block_includes v)"
      by (rule votes_for_round(2) [OF v(2) dag_includes_below [OF two_viewsD(3) [OF tv'] v(1)]])
    from dag_ok_include [OF two_viewsD(3) [OF tv'] v(1) this] obtain l' where
      l': "bs_holds s' l'" "reference l' = reference l" by metis
    have "l = l'" using same_block [OF tv' _ l'(1)] h(1) l'(2) by (simp add: holds_leader_def)
    with l'(1) h(1) p' cert show ?thesis by (auto simp: holds_leader_def anchored_def)
  qed
  have commits: "l1 = l2"
    if "holds_leader s2 leader l1" "anchored c s2 anchor l1" "holds_leader s2 leader l2" "anchored c s2 anchor l2" for l1 l2
  proof -
    have le: "block_round l1 + 2 \<le> block_round anchor" "block_round l2 + 2 \<le> block_round anchor"
      using that anchor(3) by (simp_all add: holds_leader_def)
    from anchored_certificate [OF anchor(2) le(1) that(2)] obtain p where
      p: "bs_holds s2 p" "block_round p = block_round l1 + 2" "certifies c s2 p l1" .
    from anchored_certificate [OF anchor(2) le(2) that(4)] obtain q where
      q: "bs_holds s2 q" "block_round q = block_round l2 + 2" "certifies c s2 q l2" .
    have "reference l1 = reference l2"
      by (rule certificate_unique [OF two_views_self [OF two_views_sym [OF tv]] p q holds_leader_slot [OF that(1,3)]])
    then show ?thesis using that(1,3) by (auto simp: holds_leader_def intro: bs_holds_unique)
  qed
  note to2 = transfer [OF tv anchor(1,2)] and to1 = transfer [OF two_views_sym [OF tv] anchor(2,1)]
  show ?thesis
  proof (cases a)
    case (Commit l1)
    then show ?thesis using a b to2 commits by (cases b) auto
  next
    case (Skip s)
    then show ?thesis using a b to1 by (cases b) auto
  qed (use a in simp)
qed

end
