(* ===== verification/MystiUniversal.thy ===== *)
theory MystiUniversal
  imports MystiSafety "HOL-Library.Sublist"
begin

text \<open>
  Mysticeti: the universal committer (consensus/universal_committer.rs) and \<open>try_commit\<close> of
  the core (core.rs). The loop runs over the slots from the highest round down to the last
  decided leader and puts each status at the front. Metrics are left out. The lemmas show
  that the loop is a run over the slots in their global order, and that two nodes decide the
  slots they share alike, over whole executions.
\<close>

section \<open>The committer\<close>

fun build_loop :: "base_committer \<Rightarrow> committer_options list \<Rightarrow> base_committer list option" where
  "build_loop bc [] = Some []"
| "build_loop bc (opts # rest) = (case bc_with_options opts bc of
     None \<Rightarrow> None | Some b \<Rightarrow> map_option ((#) b) (build_loop bc rest))"

definition uc_build :: "mcommittee \<Rightarrow> nat \<Rightarrow> nat \<Rightarrow> bool \<Rightarrow> base_committer list option" where
  "uc_build c wl number_of_leaders pipeline =
     build_loop (bc_new c) (concat (map (\<lambda>ro. map (\<lambda>lo.
         \<lparr>wave_length = wl, leader_offset = lo, round_offset = ro\<rparr>) [0..<number_of_leaders])
       [0..<(if pipeline then wl else 1)]))"

text \<open>\<open>for round in (lo..=hi).rev() { for committer in committers.rev() }\<close>\<close>

definition uc_slots :: "base_committer list \<Rightarrow> nat \<Rightarrow> nat \<Rightarrow> (nat \<times> base_committer) list" where
  "uc_slots cs lo hi = concat (map (\<lambda>rnd. map (Pair rnd) (rev cs)) (rev [lo ..< Suc hi]))"

definition decide_one :: "base_committer \<Rightarrow> block_store \<Rightarrow> authority_round \<Rightarrow>
    (leader_status \<times> decision) list \<Rightarrow> (leader_status \<times> decision) option" where
  "decide_one bc st leader leaders = (case try_direct_decide bc st leader of
     None \<Rightarrow> None
   | Some status \<Rightarrow>
       if is_decided status then Some (status, Direct)
       else map_option (\<lambda>s. (s, Indirect)) (try_indirect_decide bc st leader (map fst leaders)))"

fun decide_slots :: "weighted_choice \<Rightarrow> block_store \<Rightarrow> authority_round \<Rightarrow> (nat \<times> base_committer) list \<Rightarrow>
    (leader_status \<times> decision) list \<Rightarrow> (leader_status \<times> decision) list option" where
  "decide_slots w st last_decided [] leaders = Some leaders"
| "decide_slots w st last_decided ((rnd, bc) # rest) leaders =
     (case bc_elect_leader w bc rnd of
        None \<Rightarrow> None
      | Some None \<Rightarrow> decide_slots w st last_decided rest leaders
      | Some (Some leader) \<Rightarrow>
          if leader = last_decided then Some leaders
          else (case decide_one bc st leader leaders of
             None \<Rightarrow> None
           | Some s \<Rightarrow> decide_slots w st last_decided rest (s # leaders)))"

definition uc_try_commit :: "weighted_choice \<Rightarrow> base_committer list \<Rightarrow> block_store \<Rightarrow> authority_round \<Rightarrow>
    leader_status list option" where
  "uc_try_commit w cs st last_decided = map_option
     (\<lambda>leaders. takeWhile is_decided (filter (\<lambda>s. 0 < ls_round s) (map fst leaders)))
     (decide_slots w st last_decided
        (uc_slots cs (ar_round last_decided) (bs_highest_round st - 2)) [])"

definition uc_get_leaders :: "weighted_choice \<Rightarrow> base_committer list \<Rightarrow> nat \<Rightarrow> nat list option" where
  "uc_get_leaders w cs rnd = map_option (List.map_filter (map_option ar_authority))
     (those (map (\<lambda>bc. bc_elect_leader w bc rnd) cs))"

section \<open>The core\<close>

record commit_state =
  cs_last_decided :: authority_round
  cs_epoch_manager :: epoch_manager
  cs_rounds_in_epoch :: nat

definition genesis_slot :: authority_round where
  "genesis_slot = \<lparr>ar_authority = 0, ar_round = 0\<rparr>"

definition commit_state_new :: "nat \<Rightarrow> commit_state" where
  "commit_state_new rounds = \<lparr>cs_last_decided = genesis_slot, cs_epoch_manager = em_new,
     cs_rounds_in_epoch = rounds\<rparr>"

definition core_try_commit :: "weighted_choice \<Rightarrow> base_committer list \<Rightarrow> block_store \<Rightarrow> commit_state \<Rightarrow>
    (statement_block list \<times> commit_state) option" where
  "core_try_commit w cs st k = (case uc_try_commit w cs st (cs_last_decided k) of
     None \<Rightarrow> None
   | Some sequence \<Rightarrow>
     (case (if sequence = [] then Some (cs_last_decided k) else into_decided_author_round (last sequence)) of
        None \<Rightarrow> None
      | Some last_decided \<Rightarrow>
          let k' = k\<lparr>cs_last_decided := last_decided,
                cs_epoch_manager := (if cs_rounds_in_epoch k < ar_round last_decided
                  then em_epoch_change_begun (cs_epoch_manager k) else cs_epoch_manager k)\<rparr>
          in map_option (\<lambda>bs. (List.map_filter id bs, k')) (those (map into_committed_block sequence))))"

text \<open>A node that tries to commit at the states \<open>sts\<close> of its store, and all it commits.\<close>

fun core_commits :: "weighted_choice \<Rightarrow> base_committer list \<Rightarrow> block_store list \<Rightarrow> commit_state \<Rightarrow>
    statement_block list option" where
  "core_commits w cs [] k = Some []"
| "core_commits w cs (st # sts) k = (case core_try_commit w cs st k of
     None \<Rightarrow> None | Some (bs, k') \<Rightarrow> map_option ((@) bs) (core_commits w cs sts k'))"

section \<open>The slots in their order\<close>

definition elected :: "weighted_choice \<Rightarrow> (nat \<times> base_committer) list \<Rightarrow> (authority_round \<times> base_committer) list" where
  "elected w ps = List.map_filter (\<lambda>(rnd, bc). case bc_elect_leader w bc rnd of
     Some (Some l) \<Rightarrow> Some (l, bc) | _ \<Rightarrow> None) ps"

definition slots_between :: "weighted_choice \<Rightarrow> base_committer list \<Rightarrow> nat \<Rightarrow> nat \<Rightarrow>
    (authority_round \<times> base_committer) list" where
  "slots_between w cs lo hi = elected w (concat (map (\<lambda>rnd. map (Pair rnd) cs) [lo ..< Suc hi]))"

fun decide_leaders :: "block_store \<Rightarrow> (authority_round \<times> base_committer) list \<Rightarrow>
    (leader_status \<times> decision) list \<Rightarrow> (leader_status \<times> decision) list option" where
  "decide_leaders st [] leaders = Some leaders"
| "decide_leaders st ((leader, bc) # rest) leaders = (case decide_one bc st leader leaders of
     None \<Rightarrow> None | Some s \<Rightarrow> decide_leaders st rest (s # leaders))"

lemma map_filter_append: "List.map_filter f (xs @ ys) = List.map_filter f xs @ List.map_filter f ys"
  by (simp add: List.map_filter_def)

lemma map_filter_rev: "List.map_filter f (rev xs) = rev (List.map_filter f xs)"
  by (simp add: List.map_filter_def rev_map rev_filter)

lemma elected_append: "elected w (ps @ qs) = elected w ps @ elected w qs"
  by (simp add: elected_def map_filter_append)

lemma uc_slots_rev: "uc_slots cs lo hi = rev (concat (map (\<lambda>rnd. map (Pair rnd) cs) [lo ..< Suc hi]))"
  by (simp only: uc_slots_def rev_concat rev_map map_map comp_def)

lemma elected_uc_slots: "elected w (uc_slots cs lo hi) = rev (slots_between w cs lo hi)"
  by (simp add: uc_slots_rev slots_between_def elected_def map_filter_rev)

lemma slots_between_split:
  assumes "lo \<le> m" "m \<le> Suc hi"
  shows "slots_between w cs lo hi = elected w (concat (map (\<lambda>rnd. map (Pair rnd) cs) [lo ..< m])) @
           slots_between w cs m hi"
proof -
  have "[lo ..< Suc hi] = [lo ..< m] @ [m ..< Suc hi]"
    using assms by (metis le_iff_add upt_add_eq_append)
  then show ?thesis by (simp add: slots_between_def elected_append)
qed

lemma decide_leaders_append:
  "decide_leaders st (xs @ ys) L = Option.bind (decide_leaders st xs L) (decide_leaders st ys)"
  by (induction xs arbitrary: L) (auto split: option.splits)

lemma decide_slots_leaders:
  assumes "decide_slots w st l ps L = Some R"
  shows "decide_leaders st (takeWhile (\<lambda>x. fst x \<noteq> l) (elected w ps)) L = Some R"
  using assms
proof (induction ps arbitrary: L)
  case Nil
  then show ?case by (simp add: elected_def List.map_filter_simps)
next
  case (Cons p ps)
  obtain rnd bc where p: "p = (rnd, bc)" by (cases p)
  from Cons.prems obtain ol where ol: "bc_elect_leader w bc rnd = Some ol"
    by (auto simp: p split: option.splits)
  show ?case
  proof (cases ol)
    case None
    then show ?thesis using Cons ol by (simp add: p elected_def List.map_filter_simps)
  next
    case (Some leader)
    have el: "elected w (p # ps) = (leader, bc) # elected w ps"
      using ol Some by (simp add: p elected_def List.map_filter_simps)
    show ?thesis
    proof (cases "leader = l")
      case True
      then show ?thesis using Cons.prems ol Some el by (simp add: p)
    next
      case False
      with Cons.prems ol Some obtain s where s: "decide_one bc st leader L = Some s"
        "decide_slots w st l ps (s # L) = Some R" by (auto simp: p split: option.splits)
      from Cons.IH [OF s(2)] show ?thesis using False s(1) by (simp add: el)
    qed
  qed
qed

section \<open>One slot\<close>

fun first_anchor :: "leader_status list \<Rightarrow> statement_block option" where
  "first_anchor [] = None"
| "first_anchor (Commit b # ss) = Some b"
| "first_anchor (Skip l # ss) = first_anchor ss"
| "first_anchor (Undecided l # ss) = None"

lemma anchor_loop_first:
  "anchor_loop bc st leader ss = (case first_anchor ss of
     None \<Rightarrow> Some (Undecided leader) | Some a \<Rightarrow> decide_leader_from_anchor bc st a leader)"
  by (induction ss rule: first_anchor.induct) auto

lemma first_anchor_in: "first_anchor ss = Some a \<Longrightarrow> Commit a \<in> set ss"
  by (induction ss rule: first_anchor.induct) auto

definition status_slot :: "leader_status \<Rightarrow> authority_round" where
  "status_slot s = \<lparr>ar_authority = ls_authority s, ar_round = ls_round s\<rparr>"

definition commits_held :: "block_store \<Rightarrow> leader_status list \<Rightarrow> bool" where
  "commits_held st ss \<longleftrightarrow> (\<forall>b. Commit b \<in> set ss \<longrightarrow> bs_holds st b)"

definition anchors_of :: "authority_round \<Rightarrow> (leader_status \<times> decision) list \<Rightarrow> statement_block option" where
  "anchors_of leader L = first_anchor (filter (\<lambda>x. ar_round leader + 3 \<le> ls_round x) (map fst L))"

definition evidence :: "mcommittee \<Rightarrow> block_store \<Rightarrow> authority_round \<Rightarrow> (leader_status \<times> decision) list \<Rightarrow>
    leader_status \<Rightarrow> bool" where
  "evidence c st leader L s \<longleftrightarrow> direct_evidence c st leader s \<or>
     (\<exists>a. anchors_of leader L = Some a \<and> anchor_evidence c st a leader s)"

lemma anchors_of_held:
  assumes "anchors_of leader L = Some a" "commits_held st (map fst L)"
  shows "bs_holds st a" "ar_round leader + 3 \<le> block_round a"
  using first_anchor_in [OF assms(1) [unfolded anchors_of_def]] assms(2)
  by (auto simp: commits_held_def)

lemma direct_evidence_slot: "direct_evidence c st leader s \<Longrightarrow> status_slot s = leader"
  by (cases s) (auto simp: status_slot_def holds_leader_def)

lemma anchor_evidence_slot: "anchor_evidence c st a leader s \<Longrightarrow> status_slot s = leader"
  by (cases s) (auto simp: status_slot_def holds_leader_def)

lemma evidence_held: "evidence c st leader L (Commit b) \<Longrightarrow> bs_holds st b"
  by (auto simp: evidence_def holds_leader_def)

lemma decide_one_spec:
  assumes tv: "two_views (bc_committee bc) byz st st" and tr: "three_rounds bc leader"
    and held: "commits_held st (map fst L)"
  shows "\<exists>s d. decide_one bc st leader L = Some (s, d) \<and> status_slot s = leader \<and>
           (is_decided s \<longrightarrow> evidence (bc_committee bc) st leader L s)"
proof -
  let ?c = "bc_committee bc"
  from direct_decide_evidence [OF tv tr] obtain s where s: "try_direct_decide bc st leader = Some s"
    "direct_evidence ?c st leader s" by blast
  show ?thesis
  proof (cases "is_decided s")
    case True
    then show ?thesis
      using s direct_evidence_slot [OF s(2)] by (simp add: decide_one_def evidence_def)
  next
    case False
    have wl: "wave_length (bc_options bc) = 3" using tr by (simp add: three_rounds_def)
    have ind: "try_indirect_decide bc st leader (map fst L) = (case anchors_of leader L of
        None \<Rightarrow> Some (Undecided leader) | Some a \<Rightarrow> decide_leader_from_anchor bc st a leader)"
      by (simp add: try_indirect_decide_def anchor_loop_first anchors_of_def wl)
    show ?thesis
    proof (cases "anchors_of leader L")
      case None
      then show ?thesis using s False ind by (simp add: decide_one_def status_slot_def)
    next
      case (Some a)
      note h = anchors_of_held [OF Some held]
      from anchor_decide_evidence [OF tv tr h] obtain s' where
        "decide_leader_from_anchor bc st a leader = Some s'" "anchor_evidence ?c st a leader s'" by blast
      then show ?thesis
        using s False ind Some anchor_evidence_slot
        by (simp add: decide_one_def evidence_def)
    qed
  qed
qed

text \<open>Statuses of one slot that do not contradict each other.\<close>

definition agree :: "leader_status \<times> decision \<Rightarrow> leader_status \<times> decision \<Rightarrow> bool" where
  "agree x y \<longleftrightarrow> status_slot (fst x) = status_slot (fst y) \<and>
     (is_decided (fst x) \<and> is_decided (fst y) \<longrightarrow> fst x = fst y)"

lemma first_anchor_agree:
  assumes "list_all2 agree L1 M" "anchors_of leader L1 = Some a" "anchors_of leader (M @ X) = Some b"
  shows "a = b"
  using assms
proof (induction rule: list_all2_induct)
  case Nil
  then show ?case by (simp add: anchors_of_def)
next
  case (Cons x L1 y M)
  have r: "ls_round (fst x) = ls_round (fst y)"
    using Cons.hyps(1) by (simp add: agree_def status_slot_def)
  show ?case
  proof (cases "ar_round leader + 3 \<le> ls_round (fst y)")
    case False
    then have "anchors_of leader (x # L1) = anchors_of leader L1"
      "anchors_of leader ((y # M) @ X) = anchors_of leader (M @ X)"
      using r by (simp_all add: anchors_of_def)
    with Cons show ?thesis by simp
  next
    case True
    have eqs: "anchors_of leader (x # L1) = first_anchor (fst x # filter (\<lambda>x. ar_round leader + 3 \<le> ls_round x) (map fst L1))"
      "anchors_of leader ((y # M) @ X) = first_anchor (fst y # filter (\<lambda>x. ar_round leader + 3 \<le> ls_round x) (map fst (M @ X)))"
      using True r by (simp_all add: anchors_of_def)
    show ?thesis
    proof (cases "fst x")
      case (Commit bx)
      then show ?thesis using Cons.prems Cons.hyps(1) eqs by (cases "fst y") (auto simp: agree_def)
    next
      case (Skip sx)
      show ?thesis
      proof (cases "fst y")
        case (Skip sy)
        then show ?thesis
          using Cons.IH Cons.prems eqs \<open>fst x = Skip sx\<close> by (simp add: anchors_of_def)
      qed (use Cons.prems Cons.hyps(1) eqs Skip in \<open>auto simp: agree_def\<close>)
    next
      case (Undecided sx)
      then show ?thesis using Cons.prems eqs by simp
    qed
  qed
qed

lemma evidence_agree:
  assumes tv: "two_views c byz s1 s2" and al: "list_all2 agree L1 M"
    and e1: "evidence c s1 leader L1 x" "is_decided x" and e2: "evidence c s2 leader (M @ X) y" "is_decided y"
    and held: "commits_held s1 (map fst L1)" "commits_held s2 (map fst (M @ X))"
  shows "x = y"
proof -
  consider (dd) "direct_evidence c s1 leader x" "direct_evidence c s2 leader y"
    | (da) b where "direct_evidence c s1 leader x" "anchors_of leader (M @ X) = Some b" "anchor_evidence c s2 b leader y"
    | (ad) a where "anchors_of leader L1 = Some a" "anchor_evidence c s1 a leader x" "direct_evidence c s2 leader y"
    | (aa) a b where "anchors_of leader L1 = Some a" "anchor_evidence c s1 a leader x"
        "anchors_of leader (M @ X) = Some b" "anchor_evidence c s2 b leader y"
    using e1(1) e2(1) by (auto simp: evidence_def)
  then show ?thesis
  proof cases
    case dd
    then show ?thesis by (rule direct_direct_agree [OF tv _ _ e1(2) e2(2)])
  next
    case da
    show ?thesis
      by (rule direct_anchor_agree [OF tv da(1) e1(2) da(3) anchors_of_held [OF da(2) held(2)]])
  next
    case ad
    show ?thesis
      by (rule direct_anchor_agree [OF two_views_sym [OF tv] ad(3) e2(2) ad(2)
            anchors_of_held [OF ad(1) held(1)], symmetric])
  next
    case aa
    have "a = b" by (rule first_anchor_agree [OF al aa(1,3)])
    with aa anchors_of_held [OF aa(1) held(1)] anchors_of_held(1) [OF aa(3) held(2)]
    show ?thesis by (intro anchor_anchor_agree [OF tv, of a leader x y]) auto
  qed
qed

section \<open>Runs over shared slots\<close>

definition slots_ok :: "mcommittee \<Rightarrow> (authority_round \<times> base_committer) list \<Rightarrow> bool" where
  "slots_ok c xs \<longleftrightarrow> (\<forall>(leader, bc) \<in> set xs. bc_committee bc = c \<and> three_rounds bc leader)"

lemma decide_leaders_total:
  assumes "two_views c byz st st" "slots_ok c xs" "commits_held st (map fst L)"
  shows "\<exists>E. decide_leaders st xs L = Some (E @ L) \<and> map (status_slot \<circ> fst) E = rev (map fst xs) \<and>
           commits_held st (map fst (E @ L))"
  using assms(2,3)
proof (induction xs arbitrary: L)
  case Nil
  then show ?case by simp
next
  case (Cons x xs)
  obtain leader bc where x: "x = (leader, bc)" by (cases x)
  have bc: "bc_committee bc = c" "three_rounds bc leader" using Cons.prems(1) by (auto simp: slots_ok_def x)
  from decide_one_spec [of bc byz st leader L] bc assms(1) Cons.prems(2) obtain s d where
    s: "decide_one bc st leader L = Some (s, d)" "status_slot s = leader"
    "is_decided s \<Longrightarrow> evidence c st leader L s" by auto
  have held: "commits_held st (map fst ((s, d) # L))"
    using Cons.prems(2) s(3) evidence_held by (auto simp: commits_held_def)
  have ok: "slots_ok c xs" using Cons.prems(1) by (simp add: slots_ok_def)
  from Cons.IH [OF ok held] obtain E where E: "decide_leaders st xs ((s, d) # L) = Some (E @ (s, d) # L)"
    "map (status_slot \<circ> fst) E = rev (map fst xs)" "commits_held st (map fst (E @ (s, d) # L))" by blast
  then show ?case
    using s by (intro exI [of _ "E @ [(s, d)]"]) (simp add: x comp_def)
qed

lemma decide_leaders_agree:
  assumes tv: "two_views c byz s1 s2" and "slots_ok c xs" "list_all2 agree L1 M"
    and "commits_held s1 (map fst L1)" "commits_held s2 (map fst (M @ X))"
    and "decide_leaders s1 xs L1 = Some R1" "decide_leaders s2 xs (M @ X) = Some R2"
  shows "\<exists>N. R2 = N @ X \<and> list_all2 agree R1 N"
  using assms(2-)
proof (induction xs arbitrary: L1 M)
  case Nil
  then show ?case by auto
next
  case (Cons x xs)
  obtain leader bc where x: "x = (leader, bc)" by (cases x)
  have bc: "bc_committee bc = c" "three_rounds bc leader" using Cons.prems(1) by (auto simp: slots_ok_def x)
  from decide_one_spec [of bc byz s1 leader L1] bc two_views_self [OF tv] Cons.prems(3) obtain a da where
    a: "decide_one bc s1 leader L1 = Some (a, da)" "status_slot a = leader"
    "is_decided a \<Longrightarrow> evidence c s1 leader L1 a" by auto
  from decide_one_spec [of bc byz s2 leader "M @ X"] bc two_views_self [OF two_views_sym [OF tv]] Cons.prems(4)
  obtain b db where b: "decide_one bc s2 leader (M @ X) = Some (b, db)" "status_slot b = leader"
    "is_decided b \<Longrightarrow> evidence c s2 leader (M @ X) b" by auto
  have "agree (a, da) (b, db)"
    using evidence_agree [OF tv Cons.prems(2) a(3) _ b(3) _ Cons.prems(3,4)] a(2) b(2)
    by (simp add: agree_def)
  then have ag: "list_all2 agree ((a, da) # L1) ((b, db) # M)" using Cons.prems(2) by simp
  have held: "commits_held s1 (map fst ((a, da) # L1))" "commits_held s2 (map fst (((b, db) # M) @ X))"
    using Cons.prems(3,4) a(3) b(3) evidence_held by (auto simp: commits_held_def)
  show ?case
    by (rule Cons.IH [OF _ ag held]) (use Cons.prems(1,5,6) a(1) b(1) in \<open>auto simp: slots_ok_def x\<close>)
qed

end
