(* ===== verification/MystiOrder.thy ===== *)
theory MystiOrder
  imports MystiUniversal
begin

text \<open>
  Mysticeti: total order. The leader slots of positive rounds have one global order; what a
  node has decided is always an initial segment of it, and two nodes decide each slot alike.
  So the blocks that two nodes commit, over whole executions, extend one another.
\<close>

section \<open>Slots are distinct\<close>

definition committers_ok :: "mcommittee \<Rightarrow> base_committer list \<Rightarrow> bool" where
  "committers_ok c cs \<longleftrightarrow> distinct cs \<and> (\<forall>bc \<in> set cs. bc_committee bc = c \<and>
     wave_length (bc_options bc) = 3 \<and> round_offset (bc_options bc) < 3)"

lemma build_loop_map:
  "build_loop bc opts = Some cs \<Longrightarrow> cs = map (\<lambda>opt. bc\<lparr>bc_options := opt\<rparr>) opts"
  by (induction opts arbitrary: cs) (auto simp: bc_with_options_def split: option.splits if_splits)

lemma uc_build_ok:
  assumes "uc_build c 3 n pipeline = Some cs"
  shows "committers_ok c cs"
proof -
  define stages :: nat where "stages = (if pipeline then 3 else 1)"
  define opts where "opts = concat (map (\<lambda>ro. map (\<lambda>lo.
      \<lparr>wave_length = 3, leader_offset = lo, round_offset = ro\<rparr>) [0..<n]) [0..<stages])"
  have cs: "cs = map (\<lambda>opt. (bc_new c)\<lparr>bc_options := opt\<rparr>) opts"
    by (rule build_loop_map) (use assms in \<open>simp add: uc_build_def opts_def stages_def\<close>)
  have "distinct (concat (map (\<lambda>ro. map (\<lambda>lo.
      \<lparr>wave_length = 3, leader_offset = lo, round_offset = ro\<rparr>) [0..<n]) xs))"
    if "distinct xs" for xs :: "nat list"
    using that by (induction xs) (auto simp: distinct_map inj_on_def)
  then have "distinct opts" by (simp add: opts_def)
  moreover have "inj (\<lambda>opt. (bc_new c)\<lparr>bc_options := opt\<rparr>)" by (auto simp: inj_on_def bc_new_def)
  ultimately have "distinct cs"
    unfolding cs by (simp add: distinct_map inj_on_subset [OF _ subset_UNIV])
  moreover have "\<forall>opt \<in> set opts. wave_length opt = 3 \<and> round_offset opt < 3"
    by (auto simp: opts_def stages_def split: if_splits)
  ultimately show ?thesis by (auto simp: committers_ok_def cs bc_new_def)
qed

lemma elect_leaderD:
  assumes "bc_elect_leader w bc r = Some (Some l)" "0 < r"
  shows "ar_round l = r" "leader_round bc (wave_number bc r) = r"
    and "\<exists>k. k = leader_offset (bc_options bc) \<and>
           k < length (w (leader_seed r) (leader_choices (bc_committee bc)) (mc_len (bc_committee bc))) \<and>
           ar_authority l = w (leader_seed r) (leader_choices (bc_committee bc)) (mc_len (bc_committee bc)) ! k"
proof -
  let ?ws = "w (leader_seed r) (leader_choices (bc_committee bc)) (mc_len (bc_committee bc))"
  let ?k = "leader_offset (bc_options bc)"
  show "leader_round bc (wave_number bc r) = r" "ar_round l = r"
    using assms by (auto simp: bc_elect_leader_def split: if_splits)
  from assms obtain a where "drop ?k ?ws = a # drop (Suc ?k) ?ws" "ar_authority l = a"
    by (auto simp: bc_elect_leader_def elect_leader_stake_based_def split: if_splits list.splits)
      (metis drop_Suc list.sel(3) tl_drop)
  then have "?k < length ?ws \<and> ar_authority l = ?ws ! ?k"
    by (metis drop_all list.distinct(1) list.sel(1) hd_drop_conv_nth not_le)
  then show "\<exists>k. k = ?k \<and> k < length ?ws \<and> ar_authority l = ?ws ! k" by blast
qed

lemma elect_round_zero:
  "bc_elect_leader w bc 0 = Some (Some l) \<Longrightarrow> l = genesis_slot"
  by (auto simp: bc_elect_leader_def elect_leader_stake_based_def genesis_slot_def split: if_splits)

lemma leader_round_offset:
  assumes "leader_round bc (wave_number bc r) = r" "wave_length (bc_options bc) = 3" "round_offset (bc_options bc) < 3"
  shows "round_offset (bc_options bc) = r mod 3"
proof -
  have "r = wave_number bc r * 3 + round_offset (bc_options bc)"
    using assms(1,2) by (simp add: leader_round_def)
  then show ?thesis using assms(3) by (metis mod_less mod_mult_self3)
qed

lemma elected_injective:
  assumes cs: "committers_ok c cs" and w: "\<forall>r. weighted_shuffles w c r"
    and "bc \<in> set cs" "bc' \<in> set cs" "0 < r" "0 < r'"
    and e: "bc_elect_leader w bc r = Some (Some l)" "bc_elect_leader w bc' r' = Some (Some l)"
  shows "(r, bc) = (r', bc')"
proof -
  note d = elect_leaderD [OF e(1) assms(5)] and d' = elect_leaderD [OF e(2) assms(6)]
  have r: "r = r'" using d(1) d'(1) by simp
  have bc: "bc_committee bc = c" "wave_length (bc_options bc) = 3" "round_offset (bc_options bc) < 3"
    "bc_committee bc' = c" "wave_length (bc_options bc') = 3" "round_offset (bc_options bc') < 3"
    using cs assms(3,4) by (auto simp: committers_ok_def)
  have ro: "round_offset (bc_options bc) = round_offset (bc_options bc')"
    using leader_round_offset [OF d(2) bc(2,3)] leader_round_offset [OF d'(2) bc(5,6)] r by simp
  let ?ws = "w (leader_seed r) (leader_choices c) (mc_len c)"
  have "mset ?ws = mset [0..<mc_len c]" using w by (simp add: weighted_shuffles_def)
  then have "distinct ?ws" by (metis distinct_upt mset_eq_imp_distinct_iff)
  then have "leader_offset (bc_options bc) = leader_offset (bc_options bc')"
    using d(3) d'(3) bc(1,4) r by (auto simp: nth_eq_iff_index_eq)
  with ro bc r show ?thesis by simp
qed

lemma distinct_map_filter_fst:
  assumes "distinct xs"
    and "\<And>x y z a b. x \<in> set xs \<Longrightarrow> y \<in> set xs \<Longrightarrow> f x = Some (z, a) \<Longrightarrow> f y = Some (z, b) \<Longrightarrow> x = y"
  shows "distinct (map fst (List.map_filter f xs))"
  using assms
proof (induction xs)
  case Nil
  then show ?case by (simp add: List.map_filter_simps)
next
  case (Cons x xs)
  have IH: "distinct (map fst (List.map_filter f xs))"
    by (rule Cons.IH) (use Cons.prems in \<open>auto intro: Cons.prems(2)\<close>)
  show ?case
  proof (cases "f x")
    case None
    then show ?thesis using IH by (simp add: List.map_filter_simps)
  next
    case (Some zb)
    have "fst zb \<notin> fst ` set (List.map_filter f xs)"
    proof
      assume "fst zb \<in> fst ` set (List.map_filter f xs)"
      then obtain y b where y: "y \<in> set xs" "f y = Some (fst zb, b)"
        by (auto simp: set_map_filter)
      have "x = y" by (rule Cons.prems(2) [of x y "fst zb" "snd zb" b]) (use y Some in auto)
      with y(1) Cons.prems(1) show False by simp
    qed
    then show ?thesis using IH Some by (simp add: List.map_filter_simps)
  qed
qed

lemma distinct_rounds_committers:
  "distinct cs \<Longrightarrow> distinct (concat (map (\<lambda>rnd. map (Pair rnd) cs) [lo ..< hi]))"
proof -
  assume d: "distinct cs"
  have "distinct (concat (map (\<lambda>rnd. map (Pair rnd) cs) xs))" if "distinct xs" for xs :: "nat list"
    using that d by (induction xs) (auto simp: distinct_map inj_on_def)
  then show ?thesis by simp
qed

lemma slots_distinct:
  assumes "committers_ok c cs" "\<forall>r. weighted_shuffles w c r"
  shows "distinct (map fst (slots_between w cs 1 hi))"
  unfolding slots_between_def elected_def
proof (rule distinct_map_filter_fst)
  show "distinct (concat (map (\<lambda>rnd. map (Pair rnd) cs) [1 ..< Suc hi]))"
    using assms(1) by (intro distinct_rounds_committers) (simp add: committers_ok_def)
  fix x y z a b
  assume xy: "x \<in> set (concat (map (\<lambda>rnd. map (Pair rnd) cs) [1 ..< Suc hi]))"
    "y \<in> set (concat (map (\<lambda>rnd. map (Pair rnd) cs) [1 ..< Suc hi]))"
    and fx: "(case x of (rnd, bc) \<Rightarrow> case bc_elect_leader w bc rnd of Some (Some l) \<Rightarrow> Some (l, bc) | _ \<Rightarrow> None) = Some (z, a)"
    and fy: "(case y of (rnd, bc) \<Rightarrow> case bc_elect_leader w bc rnd of Some (Some l) \<Rightarrow> Some (l, bc) | _ \<Rightarrow> None) = Some (z, b)"
  obtain r bc r' bc' where p: "x = (r, bc)" "y = (r', bc')" by (cases x; cases y)
  have e: "bc_elect_leader w bc r = Some (Some z)" "bc_elect_leader w bc' r' = Some (Some z)"
    using fx fy by (auto simp: p split: option.splits)
  show "x = y"
    using elected_injective [OF assms _ _ _ _ e] xy by (auto simp: p)
qed

lemma elected_slots_ok:
  assumes "committers_ok c cs" "set ps \<subseteq> UNIV \<times> set cs" "\<forall>p \<in> set ps. 0 < fst p"
  shows "slots_ok c (elected w ps)"
  unfolding slots_ok_def elected_def
proof (clarsimp simp: set_map_filter split: option.splits)
  fix l bc r assume p: "(r, bc) \<in> set ps" and e: "bc_elect_leader w bc r = Some (Some l)"
  have pos: "0 < r" and bc: "bc \<in> set cs" using p assms(2,3) by auto
  note d = elect_leaderD [OF e pos]
  show "bc_committee bc = c \<and> three_rounds bc l"
    using assms(1) bc d(1,2) by (auto simp: committers_ok_def three_rounds_def)
qed

lemma slots_between_ok:
  assumes "committers_ok c cs"
  shows "slots_ok c (slots_between w cs 1 hi)"
  unfolding slots_between_def by (rule elected_slots_ok [OF assms]) auto

lemma slots_between_rounds:
  "(l, bc) \<in> set (slots_between w cs lo hi) \<Longrightarrow> lo \<le> ar_round l \<and> ar_round l \<le> hi"
  by (auto simp: slots_between_def elected_def set_map_filter bc_elect_leader_def
      split: option.splits if_splits)

lemma slots_ok_sub: "slots_ok c xs \<Longrightarrow> set ys \<subseteq> set xs \<Longrightarrow> slots_ok c ys"
  by (auto simp: slots_ok_def)

section \<open>One slot, two nodes\<close>

text \<open>
  A status decided at some time: it is in the result of a run over the slots after some
  position up to some round.
\<close>

definition decided_at :: "weighted_choice \<Rightarrow> base_committer list \<Rightarrow> block_store \<Rightarrow> leader_status \<Rightarrow> bool" where
  "decided_at w cs st a \<longleftrightarrow> (\<exists>hi pre post R. slots_between w cs 1 hi = pre @ post \<and>
     decide_leaders st (rev post) [] = Some R \<and> a \<in> fst ` set R \<and> is_decided a)"

lemma commits_held_Nil [simp]: "commits_held st []"
  by (simp add: commits_held_def)

lemma status_in_slots:
  assumes "map (status_slot \<circ> fst) E = rev (map fst xs)" "x \<in> set E"
  shows "status_slot (fst x) \<in> fst ` set xs"
proof -
  have "status_slot (fst x) \<in> set (map (status_slot \<circ> fst) E)" using assms(2) by auto
  then show ?thesis unfolding assms(1) by auto
qed

lemma agree_same_slot:
  assumes "list_all2 agree N M" "distinct (map (status_slot \<circ> fst) M)" "x \<in> set N" "y \<in> set M"
    and "status_slot (fst x) = status_slot (fst y)" "is_decided (fst x)" "is_decided (fst y)"
  shows "fst x = fst y"
proof -
  from assms(3) obtain i where i: "i < length N" "x = N ! i" by (auto simp: in_set_conv_nth)
  from assms(4) obtain j where j: "j < length M" "y = M ! j" by (auto simp: in_set_conv_nth)
  have len: "length N = length M" using assms(1) by (rule list_all2_lengthD)
  have a: "agree (N ! i) (M ! i)" using assms(1) i(1) by (rule list_all2_nthD)
  then have "status_slot (fst (M ! i)) = status_slot (fst (M ! j))"
    using assms(5) i(2) j(2) by (simp add: agree_def)
  then have "i = j"
    using assms(2) i(1) j(1) len by (metis comp_apply length_map nth_eq_iff_index_eq nth_map)
  then show ?thesis using a assms(6,7) i(2) j(2) by (simp add: agree_def)
qed

lemma distinct_mset_sub:
  assumes "mset xs \<subseteq># mset ys" "distinct ys"
  shows "distinct xs"
proof -
  have "count (mset xs) a \<le> 1" for a
    using mset_subset_eq_count [OF assms(1), of a] assms(2) distinct_count_atmost_1 [of ys]
    by (metis count_mset_0_iff dual_order.trans le_numeral_extra(4) zero_le_one)
  then show ?thesis unfolding distinct_count_atmost_1
    by (metis (full_types) One_nat_def count_greater_zero_iff le_SucE le_zero_eq not_gr_zero set_mset_mset)
qed

lemma runs_agree:
  assumes tv: "two_views c byz s1 s2" and ok: "slots_ok c (C @ U1)" "slots_ok c (T @ C @ U2)"
    and dist: "distinct (map fst (U1 @ U2 @ T @ C))"
    and R1: "decide_leaders s1 (C @ U1) [] = Some R1"
    and R2: "decide_leaders s2 (T @ C @ U2) [] = Some R2"
    and x: "x \<in> set R1" "is_decided (fst x)" and y: "y \<in> set R2" "is_decided (fst y)"
    and slot: "status_slot (fst x) = status_slot (fst y)"
  shows "fst x = fst y"
proof -
  note tv1 = two_views_self [OF tv] and tv2 = two_views_self [OF two_views_sym [OF tv]]
  have dTC: "distinct (map fst (T @ C))" using dist by simp
  have d1: "fst ` set U1 \<inter> fst ` set (T @ C @ U2) = {}" and d2: "fst ` set U2 \<inter> fst ` set (C @ U1) = {}"
    and d3: "fst ` set T \<inter> fst ` set C = {}"
    using dist by (simp_all add: image_Un) blast+
  have oks: "slots_ok c C" "slots_ok c U1" "slots_ok c T" "slots_ok c U2"
    using ok by (auto simp: slots_ok_def)
  from decide_leaders_total [OF tv1 oks(1), of "[]"] obtain N where N:
    "decide_leaders s1 C [] = Some N" "map (status_slot \<circ> fst) N = rev (map fst C)"
    "commits_held s1 (map fst N)" by auto
  from decide_leaders_total [OF tv1 oks(2) N(3)] obtain E1 where E1:
    "decide_leaders s1 U1 N = Some (E1 @ N)" "map (status_slot \<circ> fst) E1 = rev (map fst U1)" by blast
  have r1: "R1 = E1 @ N" using R1 N(1) E1(1) by (simp add: decide_leaders_append)
  from decide_leaders_total [OF tv2 oks(3), of "[]"] obtain X where X:
    "decide_leaders s2 T [] = Some X" "map (status_slot \<circ> fst) X = rev (map fst T)"
    "commits_held s2 (map fst X)" by auto
  from decide_leaders_total [OF tv2 oks(1) X(3)] obtain M where M:
    "decide_leaders s2 C X = Some (M @ X)" "map (status_slot \<circ> fst) M = rev (map fst C)"
    "commits_held s2 (map fst (M @ X))" by blast
  from decide_leaders_total [OF tv2 oks(4) M(3)] obtain E2 where E2:
    "decide_leaders s2 U2 (M @ X) = Some (E2 @ M @ X)" "map (status_slot \<circ> fst) E2 = rev (map fst U2)" by blast
  have r2: "R2 = E2 @ M @ X" using R2 X(1) M(1) E2(1) by (simp add: decide_leaders_append)
  have "\<exists>N'. M @ X = N' @ X \<and> list_all2 agree N N'"
    by (rule decide_leaders_agree [OF tv oks(1), of "[]" "[]"]) (use N(1) M(1) X(3) in simp_all)
  then have al: "list_all2 agree N M" by simp
  have dM: "distinct (map (status_slot \<circ> fst) M)" unfolding M(2) using dTC by simp
  have sx: "status_slot (fst x) \<in> fst ` set (C @ U1)"
    using x(1) status_in_slots [OF N(2), of x] status_in_slots [OF E1(2), of x] by (auto simp: r1 image_Un)
  have sy: "status_slot (fst y) \<in> fst ` set (T @ C @ U2)"
    using y(1) status_in_slots [OF X(2), of y] status_in_slots [OF M(2), of y] status_in_slots [OF E2(2), of y]
    by (auto simp: r2 image_Un)
  have xN: "x \<in> set N"
    using x(1) status_in_slots [OF E1(2), of x] sy slot d1 by (auto simp: r1)
  then have sC: "status_slot (fst x) \<in> fst ` set C" by (rule status_in_slots [OF N(2)])
  have "y \<notin> set X"
  proof
    assume "y \<in> set X"
    from status_in_slots [OF X(2) this] sC slot d3 show False by auto
  qed
  moreover have "y \<notin> set E2"
  proof
    assume "y \<in> set E2"
    from status_in_slots [OF E2(2) this] sx slot d2 show False by auto
  qed
  ultimately have "y \<in> set M" using y(1) by (simp add: r2)
  then show ?thesis by (rule agree_same_slot [OF al dM xN _ slot x(2) y(2)])
qed

lemma slots_between_extend:
  assumes "hi \<le> hi'"
  obtains T where "slots_between w cs 1 hi' = slots_between w cs 1 hi @ T"
proof -
  have "slots_between w cs 1 hi' = elected w (concat (map (\<lambda>rnd. map (Pair rnd) cs) [1 ..< Suc hi])) @
      slots_between w cs (Suc hi) hi'"
    by (rule slots_between_split) (use assms in auto)
  with that show ?thesis by (simp add: slots_between_def)
qed

lemma decided_at_agree_le:
  assumes cs: "committers_ok c cs" and w: "\<forall>r. weighted_shuffles w c r" and tv: "two_views c byz s1 s2"
    and h1: "slots_between w cs 1 hi1 = pre1 @ post1" "decide_leaders s1 (rev post1) [] = Some R1"
    and h2: "slots_between w cs 1 hi2 = pre2 @ post2" "decide_leaders s2 (rev post2) [] = Some R2"
    and le: "hi1 \<le> hi2" and x: "x \<in> set R1" "is_decided (fst x)" and y: "y \<in> set R2" "is_decided (fst y)"
    and slot: "status_slot (fst x) = status_slot (fst y)"
  shows "fst x = fst y"
proof -
  from slots_between_extend [OF le] obtain T where T: "pre2 @ post2 = (pre1 @ post1) @ T"
    using h1(1) h2(1) by metis
  have dist: "distinct (map fst (pre1 @ post1 @ T))"
    using slots_distinct [OF cs w, of hi2] h2(1) T by simp
  have ok: "slots_ok c (pre1 @ post1 @ T)"
    using slots_between_ok [OF cs, of w hi2] h2(1) T by simp
  note tv1 = two_views_self [OF tv] and tv2 = two_views_self [OF two_views_sym [OF tv]]
  have ok1: "slots_ok c (rev post1)" by (rule slots_ok_sub [OF ok]) auto
  have ok2: "slots_ok c (rev post2)"
    by (rule slots_ok_sub [OF ok]) (use T in \<open>metis append.assoc set_append set_rev subset_iff Un_iff\<close>)
  have sx: "status_slot (fst x) \<in> fst ` set post1"
    using decide_leaders_total [OF tv1 ok1, of "[]"] h1(2) x(1) status_in_slots [of R1 "rev post1" x] by auto
  have sy: "status_slot (fst y) \<in> fst ` set post2"
    using decide_leaders_total [OF tv2 ok2, of "[]"] h2(2) y(1) status_in_slots [of R2 "rev post2" y] by auto
  from iffD1 [OF append_eq_append_conv2 T] obtain us where
    "pre2 = (pre1 @ post1) @ us \<and> us @ post2 = T \<or> pre2 @ us = pre1 @ post1 \<and> post2 = us @ T" by metis
  then show ?thesis
  proof (elim disjE conjE)
    assume "pre2 = (pre1 @ post1) @ us" "us @ post2 = T"
    then have "set post2 \<subseteq> set T" by auto
    then have "status_slot (fst x) \<in> fst ` set T" using sy slot by auto
    with sx dist show ?thesis by auto
  next
    assume us: "pre2 @ us = pre1 @ post1" "post2 = us @ T"
    from iffD1 [OF append_eq_append_conv2 us(1)] obtain D where
      "pre2 = pre1 @ D \<and> post1 = D @ us \<or> pre1 = pre2 @ D \<and> us = D @ post1" by metis
    then show ?thesis
    proof (elim disjE conjE)
      assume D: "pre2 = pre1 @ D" "post1 = D @ us"
      then have R: "decide_leaders s1 (rev us @ rev D) [] = Some R1"
        "decide_leaders s2 (rev T @ rev us @ []) [] = Some R2"
        using h1(2) h2(2) us(2) by auto
      show ?thesis
      proof (rule runs_agree [OF tv _ _ _ R x y slot])
        show "slots_ok c (rev us @ rev D)" by (rule slots_ok_sub [OF ok]) (use D in auto)
        show "slots_ok c (rev T @ rev us @ [])" by (rule slots_ok_sub [OF ok]) (use D in auto)
        have "mset (map fst (rev D @ [] @ rev T @ rev us)) \<subseteq># mset (map fst (pre1 @ post1 @ T))"
          using D by (simp add: union_ac)
        then show "distinct (map fst (rev D @ [] @ rev T @ rev us))"
          using dist by (rule distinct_mset_sub)
      qed
    next
      assume D: "pre1 = pre2 @ D" "us = D @ post1"
      then have R: "decide_leaders s1 (rev post1 @ []) [] = Some R1"
        "decide_leaders s2 (rev T @ rev post1 @ rev D) [] = Some R2"
        using h1(2) h2(2) us(2) by auto
      show ?thesis
      proof (rule runs_agree [OF tv _ _ _ R x y slot])
        show "slots_ok c (rev post1 @ [])" by (rule slots_ok_sub [OF ok]) (use D in auto)
        show "slots_ok c (rev T @ rev post1 @ rev D)" by (rule slots_ok_sub [OF ok]) (use D in auto)
        have "mset (map fst ([] @ rev D @ rev T @ rev post1)) \<subseteq># mset (map fst (pre1 @ post1 @ T))"
          using D by (simp add: union_ac)
        then show "distinct (map fst ([] @ rev D @ rev T @ rev post1))"
          using dist by (rule distinct_mset_sub)
      qed
    qed
  qed
qed

lemma decided_at_agree:
  assumes cs: "committers_ok c cs" and w: "\<forall>r. weighted_shuffles w c r" and tv: "two_views c byz s1 s2"
    and a: "decided_at w cs s1 a" and b: "decided_at w cs s2 b" and slot: "status_slot a = status_slot b"
  shows "a = b"
proof -
  from a obtain hi1 pre1 post1 R1 x where 1: "slots_between w cs 1 hi1 = pre1 @ post1"
    "decide_leaders s1 (rev post1) [] = Some R1" "x \<in> set R1" "a = fst x" "is_decided (fst x)"
    by (auto simp: decided_at_def)
  from b obtain hi2 pre2 post2 R2 y where 2: "slots_between w cs 1 hi2 = pre2 @ post2"
    "decide_leaders s2 (rev post2) [] = Some R2" "y \<in> set R2" "b = fst y" "is_decided (fst y)"
    by (auto simp: decided_at_def)
  have s: "status_slot (fst x) = status_slot (fst y)" using slot 1(4) 2(4) by simp
  show ?thesis
  proof (cases "hi1 \<le> hi2")
    case True
    from decided_at_agree_le [OF cs w tv 1(1,2) 2(1,2) this 1(3,5) 2(3,5) s] 1(4) 2(4) show ?thesis by simp
  next
    case False
    then have "hi2 \<le> hi1" by simp
    from decided_at_agree_le [OF cs w two_views_sym [OF tv] 2(1,2) 1(1,2) this 2(3,5) 1(3,5) s [symmetric]]
      1(4) 2(4) show ?thesis by simp
  qed
qed

end
