(* ===== verification/MystiCommits.thy ===== *)
theory MystiCommits
  imports MystiOrder
begin

text \<open>
  Mysticeti: the runs of a node. A call of \<open>try_commit\<close> continues the decided slots where
  the last one ended; it never panics; and the committed blocks of two nodes extend one
  another (the property is stated at the end).
\<close>

section \<open>One call\<close>

definition decided_position :: "authority_round list \<Rightarrow> authority_round \<Rightarrow> bool" where
  "decided_position P l \<longleftrightarrow> (P = [] \<and> l = genesis_slot) \<or> (P \<noteq> [] \<and> last P = l)"

lemma takeWhile_none: "\<forall>x \<in> set xs. \<not> Q x \<Longrightarrow> takeWhile Q xs = []"
  by (cases xs) auto

lemma takeWhile_split:
  "\<forall>x \<in> set xs. Q x \<Longrightarrow> \<forall>x \<in> set ys. \<not> Q x \<Longrightarrow> takeWhile Q (xs @ ys) = xs"
  using takeWhile_append2 [of xs Q ys] takeWhile_none [of ys Q] by auto

lemma set_elected:
  "(l, bc) \<in> set (elected w ps) \<longleftrightarrow> (\<exists>r. (r, bc) \<in> set ps \<and> bc_elect_leader w bc r = Some (Some l))"
proof (induction ps)
  case Nil
  then show ?case by (simp add: elected_def List.map_filter_simps)
next
  case (Cons p ps)
  obtain r b where p: "p = (r, b)" by (cases p)
  have "elected w (p # ps) = (case bc_elect_leader w b r of
      Some (Some l) \<Rightarrow> (l, b) # elected w ps | _ \<Rightarrow> elected w ps)"
    by (simp add: p elected_def List.map_filter_simps split: option.splits)
  then show ?case using Cons.IH by (auto simp: p split: option.splits)
qed

lemma slots_from_genesis:
  "takeWhile (\<lambda>x. fst x \<noteq> genesis_slot) (rev (slots_between w cs 0 hi)) = rev (slots_between w cs 1 hi)"
proof -
  let ?z = "elected w (concat (map (\<lambda>rnd. map (Pair rnd) cs) [0 ..< 1]))"
  have "slots_between w cs 0 hi = ?z @ slots_between w cs 1 hi"
    by (rule slots_between_split) auto
  moreover have "\<forall>x \<in> set (rev (slots_between w cs 1 hi)). fst x \<noteq> genesis_slot"
    using slots_between_rounds [of _ _ w cs 1 hi] by (fastforce simp: genesis_slot_def)
  moreover have "\<forall>x \<in> set (rev ?z). \<not> fst x \<noteq> genesis_slot"
    by (auto simp: set_elected elect_round_zero)
  ultimately show ?thesis
    by (simp only: rev_append takeWhile_split)
qed

lemma slots_from_last:
  assumes dist: "distinct (map fst (pre @ post))" and pre: "pre \<noteq> []" "fst (last pre) = l"
    and S: "pre @ post = A @ S" and "l \<in> fst ` set S"
  shows "takeWhile (\<lambda>x. fst x \<noteq> l) (rev S) = rev post"
proof -
  have "takeWhile (\<lambda>x. fst x \<noteq> l) (rev S) = takeWhile (\<lambda>x. fst x \<noteq> l) (rev S @ rev A)"
    using assms(5) by (auto simp: takeWhile_append1)
  also have "rev S @ rev A = rev post @ rev pre" using S by (metis rev_append)
  also have "takeWhile (\<lambda>x. fst x \<noteq> l) (rev post @ rev pre) = rev post @ takeWhile (\<lambda>x. fst x \<noteq> l) (rev pre)"
  proof (rule takeWhile_append2)
    fix x assume x: "x \<in> set (rev post)"
    have "l \<in> fst ` set pre" using pre last_in_set by blast
    then show "fst x \<noteq> l" using dist x by auto
  qed
  also have "takeWhile (\<lambda>x. fst x \<noteq> l) (rev pre) = []"
    using pre by (cases pre rule: rev_cases) auto
  finally show ?thesis by simp
qed

lemma slots_after:
  assumes cs: "committers_ok c cs" and w: "\<forall>r. weighted_shuffles w c r" and hi: "hi \<le> H"
    and P: "prefix P (map fst (slots_between w cs 1 H))" "decided_position P l"
  shows "\<exists>pre post. slots_between w cs 1 hi = pre @ post \<and> (post = [] \<or> map fst pre = P) \<and>
           takeWhile (\<lambda>x. fst x \<noteq> l) (rev (slots_between w cs (ar_round l) hi)) = rev post"
proof (cases "P = []")
  case True
  then have "l = genesis_slot" using P(2) by (simp add: decided_position_def)
  then show ?thesis using True slots_from_genesis [of w cs hi] by (auto simp: genesis_slot_def)
next
  case False
  then have l: "last P = l" using P(2) by (simp add: decided_position_def)
  from slots_between_extend [OF hi] obtain T where
    T: "slots_between w cs 1 H = slots_between w cs 1 hi @ T" by metis
  have lin: "l \<in> fst ` set (slots_between w cs 1 H)"
    using P(1) False l by (metis last_in_set list.set_map prefix_def set_append Un_iff)
  then have lpos: "1 \<le> ar_round l" using slots_between_rounds [of _ _ w cs 1 H] by fastforce
  show ?thesis
  proof (cases "ar_round l \<le> hi")
    case False
    then have "slots_between w cs (ar_round l) hi = []" by (simp add: slots_between_def elected_def List.map_filter_simps)
    then show ?thesis by (intro exI [of _ "slots_between w cs 1 hi"] exI [of _ "[]"]) simp
  next
    case le: True
    have dH: "distinct (map fst (slots_between w cs 1 H))" by (rule slots_distinct [OF cs w])
    define A where "A = elected w (concat (map (\<lambda>rnd. map (Pair rnd) cs) [1 ..< ar_round l]))"
    have A: "slots_between w cs 1 hi = A @ slots_between w cs (ar_round l) hi"
      unfolding A_def by (rule slots_between_split) (use lpos le in auto)
    have A': "slots_between w cs 1 H = A @ slots_between w cs (ar_round l) H"
      unfolding A_def by (rule slots_between_split) (use lpos le hi in auto)
    have tail: "slots_between w cs (ar_round l) H = slots_between w cs (ar_round l) hi @ T"
      using A A' T by simp
    have lT: "l \<notin> fst ` set T"
    proof -
      have "T = slots_between w cs (Suc hi) H"
      proof -
        have "slots_between w cs 1 H = elected w (concat (map (\<lambda>rnd. map (Pair rnd) cs) [1 ..< Suc hi])) @
            slots_between w cs (Suc hi) H"
          by (rule slots_between_split) (use hi in auto)
        then show ?thesis using T by (simp add: slots_between_def)
      qed
      then show ?thesis using slots_between_rounds [of _ _ w cs "Suc hi" H] le by fastforce
    qed
    have lA: "l \<notin> fst ` set A"
      by (auto simp: A_def elected_def set_map_filter bc_elect_leader_def split: option.splits if_splits)
    then have lS: "l \<in> fst ` set (slots_between w cs (ar_round l) hi)"
      using lin lT A' tail by auto
    from P(1) obtain Z where Z: "map fst (slots_between w cs 1 H) = P @ Z" by (auto simp: prefix_def)
    then obtain pre rest where pr: "slots_between w cs 1 H = pre @ rest" "map fst pre = P" "map fst rest = Z"
      by (auto simp: map_eq_append_conv)
    have ne: "pre \<noteq> []" using False pr(2) by auto
    then have "fst (last pre) = l" using l pr(2) by (metis last_map)
    note pre = ne this
    have "\<exists>post. slots_between w cs 1 hi = pre @ post"
    proof -
      from pr(1) T have "slots_between w cs 1 hi @ T = pre @ rest" by simp
      from iffD1 [OF append_eq_append_conv2 this] obtain us where
        "slots_between w cs 1 hi = pre @ us \<and> us @ T = rest \<or> slots_between w cs 1 hi @ us = pre \<and> T = us @ rest" by metis
      then show ?thesis
      proof (elim disjE conjE)
        assume u: "slots_between w cs 1 hi @ us = pre" "T = us @ rest"
        show ?thesis
        proof (cases "us = []")
          case True
          then show ?thesis using u(1) by (intro exI [of _ "[]"]) simp
        next
          case False
          then have "last pre \<in> set T" using u by (metis UnI1 last_appendR last_in_set set_append)
          then show ?thesis using lT pre(2) by blast
        qed
      qed blast
    qed
    then obtain post where post: "slots_between w cs 1 hi = pre @ post" by blast
    have dist: "distinct (map fst (pre @ post))" using slots_distinct [OF cs w, of hi] post by simp
    have "takeWhile (\<lambda>x. fst x \<noteq> l) (rev (slots_between w cs (ar_round l) hi)) = rev post"
      by (rule slots_from_last [OF dist pre trans [OF post [symmetric] A] lS])
    then show ?thesis using post pr(2) by blast
  qed
qed

lemma takeWhile_prefix_map: "prefix (map f (takeWhile Q xs)) (map f xs)"
  by (metis map_append prefixI takeWhile_dropWhile_id)

lemma uc_try_commit_spec:
  assumes cs: "committers_ok c cs" and w: "\<forall>r. weighted_shuffles w c r" and tv: "two_views c byz st st"
    and H: "bs_highest_round st \<le> H"
    and P: "prefix P (map fst (slots_between w cs 1 H))" "decided_position P l"
    and run: "uc_try_commit w cs st l = Some sequence"
  shows "prefix (P @ map status_slot sequence) (map fst (slots_between w cs 1 H)) \<and>
           (\<forall>a \<in> set sequence. decided_at w cs st a)"
proof -
  define hi where "hi = bs_highest_round st - 2"
  have hiH: "hi \<le> H" using H by (simp add: hi_def)
  from run obtain R where R: "decide_slots w st l (uc_slots cs (ar_round l) hi) [] = Some R"
    "sequence = takeWhile is_decided (filter (\<lambda>s. 0 < ls_round s) (map fst R))"
    by (auto simp: uc_try_commit_def hi_def)
  from slots_after [OF cs w hiH P] obtain pre post where pp: "slots_between w cs 1 hi = pre @ post"
    "post = [] \<or> map fst pre = P"
    "takeWhile (\<lambda>x. fst x \<noteq> l) (rev (slots_between w cs (ar_round l) hi)) = rev post" by blast
  have dl: "decide_leaders st (rev post) [] = Some R"
    using decide_slots_leaders [OF R(1)] by (simp add: elected_uc_slots pp(3))
  have ok: "slots_ok c (rev post)"
    by (rule slots_ok_sub [OF slots_between_ok [OF cs, of w hi]]) (use pp(1) in auto)
  have slots: "map (status_slot \<circ> fst) R = map fst post"
    using decide_leaders_total [OF tv ok, of "[]"] dl by (simp add: rev_map)
  have pos: "0 < ls_round (fst x)" if "x \<in> set R" for x
  proof -
    have "status_slot (fst x) \<in> set (map (status_slot \<circ> fst) R)" using that by auto
    then have "status_slot (fst x) \<in> fst ` set post" unfolding slots by simp
    then obtain bc where "(status_slot (fst x), bc) \<in> set post" by auto
    then have "(status_slot (fst x), bc) \<in> set (slots_between w cs 1 hi)" unfolding pp(1) by simp
    from slots_between_rounds [OF this] show ?thesis by (simp add: status_slot_def)
  qed
  then have "filter (\<lambda>s. 0 < ls_round s) (map fst R) = map fst R" by (auto simp: filter_id_conv)
  then have seq: "sequence = takeWhile is_decided (map fst R)" by (simp only: R(2))
  have "prefix (map status_slot sequence) (map fst post)"
    using takeWhile_prefix_map [of status_slot is_decided "map fst R"] slots by (simp add: seq comp_def)
  then have "prefix (P @ map status_slot sequence) (map fst (slots_between w cs 1 H))"
  proof (cases "post = []")
    case True
    then show ?thesis using P(1) \<open>prefix (map status_slot sequence) (map fst post)\<close> by simp
  next
    case False
    then have "prefix (P @ map status_slot sequence) (map fst (slots_between w cs 1 hi))"
      using pp(1,2) \<open>prefix (map status_slot sequence) (map fst post)\<close> by auto
    moreover from slots_between_extend [OF hiH] obtain T where
      "slots_between w cs 1 H = slots_between w cs 1 hi @ T" by metis
    ultimately show ?thesis by (metis map_append prefix_prefix)
  qed
  moreover have "decided_at w cs st a" if "a \<in> set sequence" for a
  proof -
    have "a \<in> set (map fst R)" "is_decided a"
      using that set_takeWhileD by (fastforce simp: seq)+
    then show ?thesis
      unfolding decided_at_def using pp(1) dl by (intro exI conjI) auto
  qed
  ultimately show ?thesis by blast
qed

lemma uc_try_commit_decided: "uc_try_commit w cs st l = Some sequence \<Longrightarrow> a \<in> set sequence \<Longrightarrow> is_decided a"
  by (auto simp: uc_try_commit_def dest: set_takeWhileD)

section \<open>Whole executions\<close>

fun commit_of :: "leader_status \<Rightarrow> statement_block option" where
  "commit_of (Commit b) = Some b"
| "commit_of (Skip l) = None"
| "commit_of (Undecided l) = None"

lemma into_committed_all:
  assumes "\<forall>a \<in> set xs. is_decided a"
  shows "those (map into_committed_block xs) = Some (map commit_of xs)"
  using assms
proof (induction xs)
  case Nil
  then show ?case by simp
next
  case (Cons a xs)
  then show ?case by (cases a) auto
qed

lemma map_filter_map: "List.map_filter g (map f xs) = List.map_filter (g \<circ> f) xs"
  by (induction xs) (auto simp: List.map_filter_simps split: option.splits)

lemma decided_slot: "is_decided a \<Longrightarrow> into_decided_author_round a = Some (status_slot a)"
  by (cases a) (auto simp: status_slot_def)

lemma core_try_commit_spec:
  assumes "uc_try_commit w cs st (cs_last_decided k) = Some sequence"
  shows "\<exists>k'. core_try_commit w cs st k = Some (List.map_filter commit_of sequence, k') \<and>
           cs_last_decided k' = (if sequence = [] then cs_last_decided k else status_slot (last sequence))"
proof -
  have dec: "\<forall>a \<in> set sequence. is_decided a" using uc_try_commit_decided [OF assms] by blast
  then have "sequence \<noteq> [] \<Longrightarrow> into_decided_author_round (last sequence) = Some (status_slot (last sequence))"
    by (simp add: decided_slot)
  then show ?thesis
    using assms into_committed_all [OF dec] by (simp add: core_try_commit_def Let_def map_filter_map)
qed

lemma core_commits_decided:
  assumes cs: "committers_ok c cs" and w: "\<forall>r. weighted_shuffles w c r"
    and "\<forall>st \<in> set sts. two_views c byz st st \<and> bs_highest_round st \<le> H"
    and "prefix P (map fst (slots_between w cs 1 H))" "decided_position P (cs_last_decided k)"
    and "core_commits w cs sts k = Some out"
  shows "\<exists>D. out = List.map_filter commit_of D \<and>
           prefix (P @ map status_slot D) (map fst (slots_between w cs 1 H)) \<and>
           (\<forall>a \<in> set D. \<exists>st \<in> set sts. decided_at w cs st a)"
  using assms(3-)
proof (induction sts arbitrary: P k out)
  case Nil
  then show ?case by (intro exI [of _ "[]"]) (simp add: List.map_filter_simps)
next
  case (Cons st sts)
  from Cons.prems(4) obtain bs k' rest where b: "core_try_commit w cs st k = Some (bs, k')"
    "core_commits w cs sts k' = Some rest" "out = bs @ rest"
    by (auto split: option.splits)
  from b(1) obtain sequence where seq: "uc_try_commit w cs st (cs_last_decided k) = Some sequence"
    by (auto simp: core_try_commit_def split: option.splits)
  from core_try_commit_spec [OF seq] b(1) have bs: "bs = List.map_filter commit_of sequence"
    "cs_last_decided k' = (if sequence = [] then cs_last_decided k else status_slot (last sequence))" by auto
  have st: "two_views c byz st st" "bs_highest_round st \<le> H" using Cons.prems(1) by auto
  from uc_try_commit_spec [OF cs w st Cons.prems(2,3) seq] have
    s: "prefix (P @ map status_slot sequence) (map fst (slots_between w cs 1 H))"
    "\<forall>a \<in> set sequence. decided_at w cs st a" by auto
  have pos: "decided_position (P @ map status_slot sequence) (cs_last_decided k')"
    using Cons.prems(3) bs(2) by (auto simp: decided_position_def last_map)
  have rest: "\<forall>st \<in> set sts. two_views c byz st st \<and> bs_highest_round st \<le> H" using Cons.prems(1) by simp
  from Cons.IH [OF rest s(1) pos b(2)] obtain D where D: "rest = List.map_filter commit_of D"
    "prefix ((P @ map status_slot sequence) @ map status_slot D) (map fst (slots_between w cs 1 H))"
    "\<forall>a \<in> set D. \<exists>st \<in> set sts. decided_at w cs st a" by blast
  show ?case
    using D s(2) b(3) bs(1) by (intro exI [of _ "sequence @ D"]) (auto simp: map_filter_append)
qed

lemma prefix_map_filter:
  assumes "prefix xs ys"
  shows "prefix (List.map_filter f xs) (List.map_filter f ys)"
  using assms by (auto simp: prefix_def map_filter_append)

lemma agreeing_prefixes:
  assumes "prefix (map g xs) zs" "prefix (map g ys) zs"
    and "\<And>x y. x \<in> set xs \<Longrightarrow> y \<in> set ys \<Longrightarrow> g x = g y \<Longrightarrow> x = y"
  shows "prefix xs ys \<or> prefix ys xs"
  using assms
proof (induction xs arbitrary: ys zs)
  case Nil
  then show ?case by simp
next
  case (Cons x xs)
  show ?case
  proof (cases ys)
    case Nil
    then show ?thesis by simp
  next
    case (Cons y ys')
    from Cons.prems(1) obtain z zs' where z: "zs = z # zs'" "g x = z" "prefix (map g xs) zs'"
      by (cases zs) auto
    from Cons.prems(2) \<open>ys = y # ys'\<close> z(1) have y: "g y = z" "prefix (map g ys') zs'" by auto
    have "x = y" using Cons.prems(3) [of x y] z(2) y(1) \<open>ys = y # ys'\<close> by simp
    moreover have "prefix xs ys' \<or> prefix ys' xs"
      by (rule Cons.IH [OF z(3) y(2)]) (use Cons.prems(3) \<open>ys = y # ys'\<close> in auto)
    ultimately show ?thesis using \<open>ys = y # ys'\<close> by auto
  qed
qed

lemma committed_prefixes:
  assumes cs: "committers_ok c cs" and w: "\<forall>r. weighted_shuffles w c r"
    and tv: "\<forall>s1 \<in> set sts1 \<union> set sts2. \<forall>s2 \<in> set sts1 \<union> set sts2. two_views c byz s1 s2"
    and out1: "core_commits w cs sts1 (commit_state_new n1) = Some out1"
    and out2: "core_commits w cs sts2 (commit_state_new n2) = Some out2"
  shows "prefix out1 out2 \<or> prefix out2 out1"
proof -
  define H where "H = sum_list (map bs_highest_round (sts1 @ sts2))"
  have H: "bs_highest_round st \<le> H" if "st \<in> set sts1 \<union> set sts2" for st
    using that member_le_sum_list [of "bs_highest_round st" "map bs_highest_round (sts1 @ sts2)"]
    by (auto simp: H_def)
  have start: "decided_position [] (cs_last_decided (commit_state_new n))" for n
    by (simp add: decided_position_def commit_state_new_def)
  have nil: "prefix [] (map fst (slots_between w cs 1 H))" by simp
  have 1: "\<forall>st \<in> set sts1. two_views c byz st st \<and> bs_highest_round st \<le> H"
    and 2: "\<forall>st \<in> set sts2. two_views c byz st st \<and> bs_highest_round st \<le> H"
    using tv H by auto
  from core_commits_decided [OF cs w 1 nil start out1] obtain D1 where D1:
    "out1 = List.map_filter commit_of D1" "prefix (map status_slot D1) (map fst (slots_between w cs 1 H))"
    "\<forall>a \<in> set D1. \<exists>st \<in> set sts1. decided_at w cs st a" by auto
  from core_commits_decided [OF cs w 2 nil start out2] obtain D2 where D2:
    "out2 = List.map_filter commit_of D2" "prefix (map status_slot D2) (map fst (slots_between w cs 1 H))"
    "\<forall>a \<in> set D2. \<exists>st \<in> set sts2. decided_at w cs st a" by auto
  have "a = b" if ab: "a \<in> set D1" "b \<in> set D2" "status_slot a = status_slot b" for a b
  proof -
    from D1(3) ab(1) obtain s1 where s1: "s1 \<in> set sts1" "decided_at w cs s1 a" by blast
    from D2(3) ab(2) obtain s2 where s2: "s2 \<in> set sts2" "decided_at w cs s2 b" by blast
    have "two_views c byz s1 s2" using tv s1(1) s2(1) by blast
    then show ?thesis by (rule decided_at_agree [OF cs w _ s1(2) s2(2) ab(3)])
  qed
  from agreeing_prefixes [OF D1(2) D2(2) this] have "prefix D1 D2 \<or> prefix D2 D1" by blast
  then show ?thesis
    unfolding D1(1) D2(1) using prefix_map_filter by blast
qed

section \<open>No panic\<close>

lemma elect_leader_total:
  assumes "weighted_shuffles w (bc_committee bc) r" "leader_offset (bc_options bc) < mc_len (bc_committee bc)"
  shows "bc_elect_leader w bc r \<noteq> None"
proof -
  let ?ws = "w (leader_seed r) (leader_choices (bc_committee bc)) (mc_len (bc_committee bc))"
  have "length ?ws = mc_len (bc_committee bc)"
    using assms(1) by (metis diff_zero length_upt mset_eq_length weighted_shuffles_def)
  then have "drop (leader_offset (bc_options bc)) ?ws \<noteq> []" using assms(2) by simp
  then show ?thesis
    using assms(2) by (auto simp: bc_elect_leader_def elect_leader_stake_based_def split: list.splits)
qed

lemma decide_slots_total:
  assumes "\<forall>(r, bc) \<in> set ps. bc_elect_leader w bc r \<noteq> None"
    and "decide_leaders st (takeWhile (\<lambda>x. fst x \<noteq> l) (elected w ps)) L \<noteq> None"
  shows "decide_slots w st l ps L \<noteq> None"
  using assms
proof (induction ps arbitrary: L)
  case Nil
  then show ?case by simp
next
  case (Cons p ps)
  obtain r bc where p: "p = (r, bc)" by (cases p)
  from Cons.prems(1) obtain ol where ol: "bc_elect_leader w bc r = Some ol" by (auto simp: p)
  show ?case
  proof (cases ol)
    case None
    then show ?thesis
      using Cons ol by (auto simp: p elected_def List.map_filter_simps)
  next
    case (Some leader)
    have el: "elected w (p # ps) = (leader, bc) # elected w ps"
      using ol Some by (simp add: p elected_def List.map_filter_simps)
    show ?thesis
      using Cons ol Some el by (cases "leader = l") (auto simp: p split: option.splits)
  qed
qed

lemma uc_try_commit_returns:
  assumes cs: "committers_ok c cs" and w: "\<forall>r. weighted_shuffles w c r" and tv: "two_views c byz st st"
    and off: "\<forall>bc \<in> set cs. leader_offset (bc_options bc) < mc_len c"
    and P: "prefix P (map fst (slots_between w cs 1 H))" "decided_position P l" "bs_highest_round st \<le> H"
  shows "\<exists>sequence. uc_try_commit w cs st l = Some sequence"
proof -
  define hi where "hi = bs_highest_round st - 2"
  have hiH: "hi \<le> H" using P(3) by (simp add: hi_def)
  from slots_after [OF cs w hiH P(1,2)] obtain pre post where pp: "slots_between w cs 1 hi = pre @ post"
    "takeWhile (\<lambda>x. fst x \<noteq> l) (rev (slots_between w cs (ar_round l) hi)) = rev post" by blast
  have ok: "slots_ok c (rev post)"
    by (rule slots_ok_sub [OF slots_between_ok [OF cs, of w hi]]) (use pp(1) in auto)
  have dl: "decide_leaders st (rev post) [] \<noteq> None"
    using decide_leaders_total [OF tv ok, of "[]"] by auto
  have "decide_slots w st l (uc_slots cs (ar_round l) hi) [] \<noteq> None"
  proof (rule decide_slots_total)
    show "\<forall>(r, bc) \<in> set (uc_slots cs (ar_round l) hi). bc_elect_leader w bc r \<noteq> None"
    proof
      fix p assume p: "p \<in> set (uc_slots cs (ar_round l) hi)"
      obtain r bc where pe: "p = (r, bc)" by (cases p)
      have bc: "bc \<in> set cs" using p by (auto simp: uc_slots_def pe)
      then have "bc_committee bc = c" using cs by (simp add: committers_ok_def)
      with elect_leader_total [of w bc r] w off bc
      show "case p of (r, bc) \<Rightarrow> bc_elect_leader w bc r \<noteq> None" by (simp add: pe)
    qed
  qed (simp add: elected_uc_slots pp(2) dl)
  then show ?thesis by (auto simp: uc_try_commit_def hi_def)
qed

lemma core_commits_returns:
  assumes cs: "committers_ok c cs" and w: "\<forall>r. weighted_shuffles w c r"
    and off: "\<forall>bc \<in> set cs. leader_offset (bc_options bc) < mc_len c"
    and "\<forall>st \<in> set sts. two_views c byz st st \<and> bs_highest_round st \<le> H"
    and "prefix P (map fst (slots_between w cs 1 H))" "decided_position P (cs_last_decided k)"
  shows "\<exists>out. core_commits w cs sts k = Some out"
  using assms(4-)
proof (induction sts arbitrary: P k)
  case Nil
  then show ?case by simp
next
  case (Cons st sts)
  have st: "two_views c byz st st" "bs_highest_round st \<le> H" using Cons.prems(1) by auto
  from uc_try_commit_returns [OF cs w st(1) off Cons.prems(2,3) st(2)] obtain sequence where
    seq: "uc_try_commit w cs st (cs_last_decided k) = Some sequence" by blast
  from core_try_commit_spec [OF seq] obtain k' where k': "core_try_commit w cs st k =
      Some (List.map_filter commit_of sequence, k')"
    "cs_last_decided k' = (if sequence = [] then cs_last_decided k else status_slot (last sequence))" by blast
  from uc_try_commit_spec [OF cs w st Cons.prems(2,3) seq] have
    s: "prefix (P @ map status_slot sequence) (map fst (slots_between w cs 1 H))" by blast
  have pos: "decided_position (P @ map status_slot sequence) (cs_last_decided k')"
    using Cons.prems(3) k'(2) by (auto simp: decided_position_def last_map)
  have rest: "\<forall>st \<in> set sts. two_views c byz st st \<and> bs_highest_round st \<le> H" using Cons.prems(1) by simp
  from Cons.IH [OF rest s pos] k'(1) show ?case by auto
qed

end
