(* ===== verification/MystiLinear.thy ===== *)
theory MystiLinear
  imports MystiCommits
begin

text \<open>
  Mysticeti: the linearizer (consensus/linearizer.rs), which expands committed leaders into
  sub-dags, and the commit data it is recovered from (block_store.rs). The process id that
  seeds the sort is a parameter. The hash set of committed references is a set: only
  membership and insertion are used.
\<close>

section \<open>Sub-dags\<close>

record committed_sub_dag =
  sd_anchor :: block_reference
  sd_blocks :: "statement_block list"
  sd_timestamp_ms :: nat
  sd_height :: nat

record commit_data =
  cd_leader :: block_reference
  cd_sub_dag :: "block_reference list"
  cd_height :: nat

definition commit_data_of :: "committed_sub_dag \<Rightarrow> commit_data" where
  "commit_data_of d = \<lparr>cd_leader = sd_anchor d, cd_sub_dag = map reference (sd_blocks d),
     cd_height = sd_height d\<rparr>"

text \<open>
  \<open>new_from_commit_data\<close>: the last block under the leader's reference gives the anchor and
  the timestamp; a missing block or leader is a panic.
\<close>

definition sub_dag_from_commit_data :: "block_store \<Rightarrow> commit_data \<Rightarrow> committed_sub_dag option" where
  "sub_dag_from_commit_data st cd =
     (case those (map (\<lambda>r. case get_block st r of Some (Some b) \<Rightarrow> Some b | _ \<Rightarrow> None) (cd_sub_dag cd)) of
        None \<Rightarrow> None
      | Some blocks \<Rightarrow>
          (case filter (\<lambda>(r, b). r = cd_leader cd) (zip (cd_sub_dag cd) blocks) of
             [] \<Rightarrow> None
           | l # ls \<Rightarrow> (let leader_block = snd (last (l # ls)) in
               Some \<lparr>sd_anchor = reference leader_block, sd_blocks = blocks,
                 sd_timestamp_ms = meta_creation_time_ms leader_block, sd_height = cd_height cd\<rparr>)))"

definition sort_hash :: "64 word \<Rightarrow> statement_block \<Rightarrow> 64 word" where
  "sort_hash seed x = ((seed + word_of_nat (block_round x)) * 0x9E3779B9 + word_of_nat (block_author x)) * 0x85EBCA6B"

text \<open>\<open>sort_by_key\<close> is stable, as is \<open>sort_key\<close>; the process id is 32 bits wide.\<close>

definition sub_dag_sort :: "64 word \<Rightarrow> committed_sub_dag \<Rightarrow> committed_sub_dag" where
  "sub_dag_sort pid d = d\<lparr>sd_blocks := sort_key (\<lambda>x. (block_round x, sort_hash pid x)) (sd_blocks d)\<rparr>"

section \<open>The linearizer\<close>

record linearizer =
  lz_committed :: "block_reference set"
  lz_last_height :: nat

definition lz_new :: linearizer where
  "lz_new = \<lparr>lz_committed = {}, lz_last_height = 0\<rparr>"

fun recover_loop :: "commit_data list \<Rightarrow> linearizer \<Rightarrow> linearizer option" where
  "recover_loop [] lz = Some lz"
| "recover_loop (cd # cds) lz =
     (if \<not> lz_last_height lz < cd_height cd then None
      else let lz' = \<lparr>lz_committed = lz_committed lz \<union> set (cd_sub_dag cd), lz_last_height = cd_height cd\<rparr> in
        if cd_leader cd \<notin> lz_committed lz' then None else recover_loop cds lz')"

definition lz_recover_state :: "commit_data list \<Rightarrow> linearizer \<Rightarrow> linearizer option" where
  "lz_recover_state cds lz =
     (if lz_committed lz \<noteq> {} then None else if lz_last_height lz \<noteq> 0 then None else recover_loop cds lz)"

text \<open>The inner loop of \<open>collect_sub_dag\<close>: the head of the buffer is the end of the vector.\<close>

fun push_includes :: "block_store \<Rightarrow> block_reference set \<Rightarrow> statement_block list \<Rightarrow> block_reference list \<Rightarrow>
    (block_reference set \<times> statement_block list) option" where
  "push_includes st committed buffer [] = Some (committed, buffer)"
| "push_includes st committed buffer (r # rs) = (case get_block st r of
     Some (Some b) \<Rightarrow>
       if r \<in> committed then push_includes st committed buffer rs
       else push_includes st (insert r committed) (b # buffer) rs
   | _ \<Rightarrow> None)"

definition stored_refs :: "block_store \<Rightarrow> block_reference set" where
  "stored_refs st = {r. inner_get_block st r \<noteq> None}"

lemma finite_stored_refs [simp]: "finite (stored_refs st)"
proof (rule finite_subset)
  let ?f = "\<lambda>(n, (a, d)). \<lparr>br_authority = a, br_round = n, br_digest = d\<rparr>"
  show "stored_refs st \<subseteq> ?f ` (\<Union>(n, m) \<in> set (bs_index st). (\<lambda>(k, e). (n, k)) ` set m)"
  proof
    fix r assume "r \<in> stored_refs st"
    then obtain m e where m: "map_of (bs_index st) (br_round r) = Some m" "map_of m (author_digest r) = Some e"
      by (auto simp: stored_refs_def inner_get_block_def split: option.splits)
    have "(br_round r, m) \<in> set (bs_index st)" "(author_digest r, e) \<in> set m"
      using m by (auto intro: map_of_SomeD)
    then have "(br_round r, author_digest r) \<in> (\<Union>(n, m) \<in> set (bs_index st). (\<lambda>(k, e). (n, k)) ` set m)"
      by (intro UN_I [of "(br_round r, m)"]) (auto intro: rev_image_eqI)
    moreover have "r = ?f (br_round r, author_digest r)" by (simp add: author_digest_def)
    ultimately show "r \<in> ?f ` (\<Union>(n, m) \<in> set (bs_index st). (\<lambda>(k, e). (n, k)) ` set m)"
      by (rule rev_image_eqI)
  qed
  show "finite (?f ` (\<Union>(n, m) \<in> set (bs_index st). (\<lambda>(k, e). (n, k)) ` set m))"
    by (intro finite_imageI finite_UN_I) (auto simp: split_beta)
qed

lemma get_block_stored: "get_block st r = Some (Some b) \<Longrightarrow> r \<in> stored_refs st"
  by (auto simp: get_block_def stored_refs_def split: option.splits)

lemma push_includes_measure:
  "push_includes st C buf rs = Some (C', buf') \<Longrightarrow>
     card (stored_refs st - C') + length buf' \<le> card (stored_refs st - C) + length buf"
proof (induction st C buf rs rule: push_includes.induct)
  case (1 st C buf)
  then show ?case by simp
next
  case (2 st C buf r rs)
  from "2.prems" obtain b where b: "get_block st r = Some (Some b)" by (auto split: option.splits)
  show ?case
  proof (cases "r \<in> C")
    case True
    then show ?thesis using 2 b by simp
  next
    case False
    have "r \<in> stored_refs st - C" using get_block_stored [OF b] False by simp
    moreover have "stored_refs st - insert r C = (stored_refs st - C) - {r}" by auto
    ultimately have "Suc (card (stored_refs st - insert r C)) = card (stored_refs st - C)"
      by (metis card_Suc_Diff1 finite_Diff finite_stored_refs)
    then show ?thesis using "2.IH"(2) [OF b refl] "2.prems" b False by simp
  qed
qed

text \<open>\<open>while let Some(x) = buffer.pop()\<close>: every turn removes a block or commits new ones.\<close>

function collect_loop :: "block_store \<Rightarrow> block_reference set \<Rightarrow> statement_block list \<Rightarrow>
    statement_block list \<Rightarrow> (statement_block list \<times> block_reference set) option" where
  "collect_loop st committed [] to_commit = Some (to_commit, committed)"
| "collect_loop st committed (x # buffer) to_commit =
     (case push_includes st committed buffer (block_includes x) of
        None \<Rightarrow> None
      | Some (committed', buffer') \<Rightarrow> collect_loop st committed' buffer' (to_commit @ [x]))"
  by pat_completeness auto

termination
proof (relation "measure (\<lambda>(st, C, buf, acc). card (stored_refs st - C) + length buf)")
  fix st C and x :: statement_block and buf acc :: "statement_block list" and p C' buf'
  assume "push_includes st C buf (block_includes x) = Some p" "(C', buf') = p"
  then have "push_includes st C buf (block_includes x) = Some (C', buf')" by simp
  from push_includes_measure [OF this]
  show "((st, C', buf', acc @ [x]), st, C, x # buf, acc)
      \<in> measure (\<lambda>(st, C, buf, acc). card (stored_refs st - C) + length buf)" by simp
qed auto

definition collect_sub_dag :: "block_store \<Rightarrow> statement_block \<Rightarrow> linearizer \<Rightarrow>
    (committed_sub_dag \<times> linearizer) option" where
  "collect_sub_dag st leader_block lz =
     (if reference leader_block \<in> lz_committed lz then None
      else case collect_loop st (insert (reference leader_block) (lz_committed lz)) [leader_block] [] of
        None \<Rightarrow> None
      | Some (to_commit, committed) \<Rightarrow>
          let h = lz_last_height lz + 1 in
          Some (\<lparr>sd_anchor = reference leader_block, sd_blocks = to_commit,
                  sd_timestamp_ms = meta_creation_time_ms leader_block, sd_height = h\<rparr>,
                \<lparr>lz_committed = committed, lz_last_height = h\<rparr>))"

fun lz_handle_commit :: "64 word \<Rightarrow> block_store \<Rightarrow> statement_block list \<Rightarrow> linearizer \<Rightarrow>
    (committed_sub_dag list \<times> linearizer) option" where
  "lz_handle_commit pid st [] lz = Some ([], lz)"
| "lz_handle_commit pid st (l # ls) lz = (case collect_sub_dag st l lz of
     None \<Rightarrow> None
   | Some (d, lz') \<Rightarrow>
       (case lz_handle_commit pid st ls lz' of
          None \<Rightarrow> None
        | Some (ds, lz'') \<Rightarrow> Some (sub_dag_sort pid d # ds, lz'')))"

section \<open>Causal history\<close>

definition include_rel :: "block_store \<Rightarrow> (block_reference \<times> block_reference) set" where
  "include_rel st = {(r, s). \<exists>b. block_at st r = Some b \<and> s \<in> set (block_includes b)}"

definition history :: "block_store \<Rightarrow> block_reference \<Rightarrow> block_reference set" where
  "history st r = (include_rel st)\<^sup>* `` {r}"

definition history_closed :: "block_store \<Rightarrow> block_reference set \<Rightarrow> bool" where
  "history_closed st C \<longleftrightarrow> include_rel st `` C \<subseteq> C"

lemma history_self [simp]: "r \<in> history st r"
  by (simp add: history_def)

lemma history_least:
  assumes "history_closed st C" "r \<in> C"
  shows "history st r \<subseteq> C"
proof
  fix s assume "s \<in> history st r"
  then have "(r, s) \<in> (include_rel st)\<^sup>*" by (simp add: history_def)
  then show "s \<in> C"
    using assms by (induction) (auto simp: history_closed_def)
qed

lemma history_step:
  "s \<in> history st r \<Longrightarrow> block_at st s = Some b \<Longrightarrow> t \<in> set (block_includes b) \<Longrightarrow> t \<in> history st r"
  by (auto simp: history_def include_rel_def intro: rtrancl_into_rtrancl)

text \<open>The state of the traversal: what is committed, waiting and collected.\<close>

definition collect_inv :: "block_store \<Rightarrow> block_reference set \<Rightarrow> block_reference \<Rightarrow> block_reference set \<Rightarrow>
    statement_block list \<Rightarrow> statement_block list \<Rightarrow> bool" where
  "collect_inv st C0 l C buf acc \<longleftrightarrow>
     (\<forall>b \<in> set buf \<union> set acc. bs_holds st b) \<and>
     C = C0 \<union> reference ` (set buf \<union> set acc) \<and>
     distinct (map reference (buf @ acc)) \<and>
     reference ` (set buf \<union> set acc) \<inter> C0 = {} \<and>
     reference ` (set buf \<union> set acc) \<subseteq> history st l \<and>
     (\<forall>b \<in> set acc. set (block_includes b) \<subseteq> C)"

lemma push_includes_spec:
  assumes dag: "dag_ok c st" and x: "bs_holds st x" "reference x \<in> history st l"
    and "set rs \<subseteq> set (block_includes x)"
    and "collect_inv st C0 l C buf acc"
  shows "\<exists>C' buf'. push_includes st C buf rs = Some (C', buf') \<and> collect_inv st C0 l C' buf' acc \<and>
           C \<subseteq> C' \<and> set rs \<subseteq> C'"
  using assms(4,5)
proof (induction rs arbitrary: C buf)
  case Nil
  then show ?case by simp
next
  case (Cons r rs)
  have rin: "r \<in> set (block_includes x)" using Cons.prems(1) by simp
  from dag_ok_include [OF dag x(1) rin] obtain b where
    b: "block_at st r = Some b" "bs_holds st b" "reference b = r" by metis
  have gb: "get_block st r = Some (Some b)" using get_block_wf [OF dag_ok_wf [OF dag]] b(1) by simp
  have hist: "r \<in> history st l"
    using history_step [OF x(2) _ rin] x(1) by (simp add: bs_holds_def)
  show ?case
  proof (cases "r \<in> C")
    case True
    with Cons.IH [of C buf] Cons.prems gb show ?thesis by auto
  next
    case False
    have inv: "collect_inv st C0 l (insert r C) (b # buf) acc"
      using Cons.prems(2) b hist False by (auto simp: collect_inv_def)
    from Cons.IH [OF _ inv] Cons.prems(1) obtain C' buf' where
      "push_includes st (insert r C) (b # buf) rs = Some (C', buf')" "collect_inv st C0 l C' buf' acc"
      "insert r C \<subseteq> C'" "set rs \<subseteq> C'" by auto
    then show ?thesis using gb False by auto
  qed
qed

lemma collect_loop_spec:
  assumes dag: "dag_ok c st" and "collect_inv st C0 l C buf acc"
  shows "\<exists>acc' C'. collect_loop st C buf acc = Some (acc', C') \<and> collect_inv st C0 l C' [] acc'"
  using assms
proof (induction st C buf acc rule: collect_loop.induct)
  case (1 st C acc)
  then show ?case by simp
next
  case (2 st C x buf acc)
  note inv = "2.prems"(2) [unfolded collect_inv_def]
  have x: "bs_holds st x" "reference x \<in> history st l" using inv by auto
  \<comment> \<open>\<open>x\<close> moves to the collected blocks; its includes are added afterwards\<close>
  have mid: "collect_inv st (insert (reference x) C0) l C buf acc"
    using inv by (auto simp: collect_inv_def)
  from push_includes_spec [OF "2.prems"(1) x order_refl mid] obtain C' buf' where
    p: "push_includes st C buf (block_includes x) = Some (C', buf')"
    "collect_inv st (insert (reference x) C0) l C' buf' acc" "C \<subseteq> C'" "set (block_includes x) \<subseteq> C'" by blast
  have "collect_inv st C0 l C' buf' (acc @ [x])"
    using p(2-4) inv x by (auto simp: collect_inv_def)
  from "2.IH" [OF p(1) refl "2.prems"(1) this] p(1) show ?case by simp
qed

text \<open>One sub-dag: the history of the leader, less what was committed before, each block once.\<close>

lemma collect_sub_dag_spec:
  assumes dag: "dag_ok c st" and l: "bs_holds st l" "reference l \<notin> lz_committed lz"
    and closed: "history_closed st (lz_committed lz)"
  shows "\<exists>d lz'. collect_sub_dag st l lz = Some (d, lz') \<and>
           distinct (map reference (sd_blocks d)) \<and> (\<forall>b \<in> set (sd_blocks d). bs_holds st b) \<and>
           reference ` set (sd_blocks d) = history st (reference l) - lz_committed lz \<and>
           lz_committed lz' = lz_committed lz \<union> history st (reference l) \<and>
           history_closed st (lz_committed lz') \<and>
           sd_anchor d = reference l \<and> sd_height d = lz_last_height lz + 1 \<and>
           lz_last_height lz' = lz_last_height lz + 1 \<and>
           sd_timestamp_ms d = meta_creation_time_ms l"
proof -
  let ?C = "lz_committed lz"
  have "collect_inv st ?C (reference l) (insert (reference l) ?C) [l] []"
    using l by (simp add: collect_inv_def)
  from collect_loop_spec [OF dag this] obtain acc C' where
    run: "collect_loop st (insert (reference l) ?C) [l] [] = Some (acc, C')"
    and inv: "collect_inv st ?C (reference l) C' [] acc" by blast
  note i = inv [unfolded collect_inv_def]
  have C': "C' = ?C \<union> reference ` set acc" using i by simp
  have closed': "history_closed st C'"
    unfolding history_closed_def
  proof
    fix s assume "s \<in> include_rel st `` C'"
    then obtain r b where r: "r \<in> C'" "block_at st r = Some b" "s \<in> set (block_includes b)"
      by (auto simp: include_rel_def)
    show "s \<in> C'"
    proof (cases "r \<in> ?C")
      case True
      then have "s \<in> include_rel st `` ?C" using r(2,3) by (auto simp: include_rel_def)
      then show ?thesis using closed C' by (auto simp: history_closed_def)
    next
      case False
      then obtain x where x: "x \<in> set acc" "reference x = r" using r(1) C' by auto
      then have "x = b" using i r(2) by (auto simp: bs_holds_def)
      then show ?thesis using i x(1) r(3) by auto
    qed
  qed
  have lC: "reference l \<in> C'"
  proof -
    have "C \<subseteq> C'" if "collect_loop st C buf a = Some (a', C')" for C buf a a'
      using that
    proof (induction st C buf a rule: collect_loop.induct)
      case (2 st C x buf acc)
      from "2.prems" obtain C1 b1 where p: "push_includes st C buf (block_includes x) = Some (C1, b1)"
        "collect_loop st C1 b1 (acc @ [x]) = Some (a', C')" by (auto split: option.splits)
      have mono: "push_includes st A bu rs = Some (B, bu') \<Longrightarrow> A \<subseteq> B" for A bu rs B bu'
        by (induction st A bu rs rule: push_includes.induct) (auto split: option.splits if_splits)
      show ?case using "2.IH" [OF p(1) refl p(2)] mono [OF p(1)] by blast
    qed simp
    from this [OF run] show ?thesis by blast
  qed
  have hist: "history st (reference l) \<subseteq> C'" by (rule history_least [OF closed' lC])
  have refs: "reference ` set acc = history st (reference l) - ?C"
    using i hist C' by auto
  have comm: "C' = ?C \<union> history st (reference l)" using refs C' by auto
  show ?thesis
    using run l(2) i refs comm closed' by (simp add: collect_sub_dag_def Let_def)
qed

lemma set_sub_dag_sort [simp]: "set (sd_blocks (sub_dag_sort pid d)) = set (sd_blocks d)"
  "mset (sd_blocks (sub_dag_sort pid d)) = mset (sd_blocks d)"
  "sd_anchor (sub_dag_sort pid d) = sd_anchor d" "sd_height (sub_dag_sort pid d) = sd_height d"
  "sd_timestamp_ms (sub_dag_sort pid d) = sd_timestamp_ms d"
  by (simp_all add: sub_dag_sort_def)

section \<open>A sequence of leaders\<close>

text \<open>What each leader adds, as a specification over histories.\<close>

fun new_histories :: "block_store \<Rightarrow> block_reference set \<Rightarrow> statement_block list \<Rightarrow> block_reference set list" where
  "new_histories st C [] = []"
| "new_histories st C (l # ls) =
     (history st (reference l) - C) # new_histories st (C \<union> history st (reference l)) ls"

text \<open>Leaders come in the order of their rounds, and no leader comes twice.\<close>

definition leader_before :: "statement_block \<Rightarrow> statement_block \<Rightarrow> bool" where
  "leader_before a b \<longleftrightarrow> block_round a \<le> block_round b \<and> reference a \<noteq> reference b"

definition not_after :: "block_reference set \<Rightarrow> statement_block \<Rightarrow> bool" where
  "not_after C l \<longleftrightarrow> (\<forall>r \<in> C. br_round r \<le> block_round l \<and> r \<noteq> reference l)"

lemma history_rounds:
  assumes "dag_ok c st" "bs_holds st l" "r \<in> history st (reference l)"
  shows "r = reference l \<or> br_round r < block_round l"
    and "\<exists>b. block_at st r = Some b"
proof -
  from assms(3) have "(reference l, r) \<in> (include_rel st)\<^sup>*" by (simp add: history_def)
  then have "(r = reference l \<or> br_round r < block_round l) \<and> (\<exists>b. block_at st r = Some b)"
  proof (induction)
    case base
    then show ?case using assms(2) by (auto simp: bs_holds_def)
  next
    case (step y z)
    then obtain b where b: "block_at st y = Some b" "z \<in> set (block_includes b)" by (auto simp: include_rel_def)
    from bs_holds_lookup [OF dag_ok_wf [OF assms(1)] b(1)] have h: "bs_holds st b" "reference b = y" by auto
    from dag_ok_include [OF assms(1) h(1) b(2)] obtain x where
      x: "block_at st z = Some x" "br_round z < block_round b" by metis
    have "br_round z < block_round l"
      using x(2) step.IH h(2) by (auto simp: block_round_def)
    then show ?case using x(1) by blast
  qed
  then show "r = reference l \<or> br_round r < block_round l" "\<exists>b. block_at st r = Some b" by blast+
qed

lemma handle_commit_spec:
  assumes dag: "dag_ok c st"
    and "\<forall>l \<in> set ls. bs_holds st l" "sorted_wrt leader_before ls"
    and "history_closed st (lz_committed lz)" "\<forall>l \<in> set ls. not_after (lz_committed lz) l"
  shows "\<exists>ds lz'. lz_handle_commit pid st ls lz = Some (ds, lz') \<and>
           map (\<lambda>d. reference ` set (sd_blocks d)) ds = new_histories st (lz_committed lz) ls \<and>
           (\<forall>d \<in> set ds. distinct (map reference (sd_blocks d)) \<and> (\<forall>b \<in> set (sd_blocks d). bs_holds st b)) \<and>
           map sd_anchor ds = map reference ls \<and>
           map sd_timestamp_ms ds = map meta_creation_time_ms ls \<and>
           map sd_height ds = [lz_last_height lz + 1 ..< lz_last_height lz + 1 + length ls] \<and>
           lz_committed lz' = lz_committed lz \<union> (\<Union>l \<in> set ls. history st (reference l))"
  using assms(2-)
proof (induction ls arbitrary: lz)
  case Nil
  then show ?case by simp
next
  case (Cons l ls)
  have l: "bs_holds st l" "reference l \<notin> lz_committed lz"
    using Cons.prems(1,4) by (auto simp: not_after_def)
  from collect_sub_dag_spec [OF dag l Cons.prems(3)] obtain d lz1 where
    d: "collect_sub_dag st l lz = Some (d, lz1)" "distinct (map reference (sd_blocks d))"
    "\<forall>b \<in> set (sd_blocks d). bs_holds st b"
    "reference ` set (sd_blocks d) = history st (reference l) - lz_committed lz"
    "lz_committed lz1 = lz_committed lz \<union> history st (reference l)"
    "history_closed st (lz_committed lz1)" "sd_anchor d = reference l"
    "sd_height d = lz_last_height lz + 1" "lz_last_height lz1 = lz_last_height lz + 1"
    "sd_timestamp_ms d = meta_creation_time_ms l" by blast
  have after: "\<forall>m \<in> set ls. not_after (lz_committed lz1) m"
  proof
    fix m assume m: "m \<in> set ls"
    then have lm: "leader_before l m" using Cons.prems(2) by simp
    show "not_after (lz_committed lz1) m"
      unfolding not_after_def d(5)
    proof
      fix r assume "r \<in> lz_committed lz \<union> history st (reference l)"
      then show "br_round r \<le> block_round m \<and> r \<noteq> reference m"
      proof
        assume "r \<in> lz_committed lz"
        then show ?thesis using Cons.prems(4) m by (auto simp: not_after_def)
      next
        assume "r \<in> history st (reference l)"
        from history_rounds(1) [OF dag l(1) this] lm show ?thesis
          by (auto simp: leader_before_def block_round_def)
      qed
    qed
  qed
  from Cons.IH [OF _ _ d(6) after] Cons.prems(1,2) obtain ds lz' where
    ds: "lz_handle_commit pid st ls lz1 = Some (ds, lz')"
    "map (\<lambda>d. reference ` set (sd_blocks d)) ds = new_histories st (lz_committed lz1) ls"
    "\<forall>d \<in> set ds. distinct (map reference (sd_blocks d)) \<and> (\<forall>b \<in> set (sd_blocks d). bs_holds st b)"
    "map sd_anchor ds = map reference ls" "map sd_timestamp_ms ds = map meta_creation_time_ms ls"
    "map sd_height ds = [lz_last_height lz1 + 1 ..< lz_last_height lz1 + 1 + length ls]"
    "lz_committed lz' = lz_committed lz1 \<union> (\<Union>l \<in> set ls. history st (reference l))" by auto
  have dist: "distinct (map reference (sd_blocks (sub_dag_sort pid d)))"
    using d(2) by (metis mset_eq_imp_distinct_iff mset_map set_sub_dag_sort(2))
  have hts: "[lz_last_height lz + 1 ..< lz_last_height lz + 1 + length (l # ls)] =
      (lz_last_height lz + 1) # [lz_last_height lz1 + 1 ..< lz_last_height lz1 + 1 + length ls]"
    by (simp add: d(9) upt_conv_Cons del: upt_Suc)
  show ?case
    unfolding hts using d ds dist
    by (intro exI [of _ "sub_dag_sort pid d # ds"] exI [of _ lz']) (simp add: Un_assoc)
qed

lemma new_histories_disjoint:
  assumes "i < j" "j < length (new_histories st C ls)"
  shows "new_histories st C ls ! i \<inter> new_histories st C ls ! j = {}"
  using assms
proof (induction ls arbitrary: C i j)
  case Nil
  then show ?case by simp
next
  case (Cons l ls)
  have avoid: "x \<in> set (new_histories st D ms) \<Longrightarrow> x \<inter> D = {}" for x D ms
    by (induction ms arbitrary: D) auto
  obtain j' where j: "j = Suc j'" using Cons.prems(1) by (cases j) auto
  show ?case
  proof (cases i)
    case 0
    have "new_histories st (C \<union> history st (reference l)) ls ! j' \<in>
        set (new_histories st (C \<union> history st (reference l)) ls)"
      using Cons.prems(2) j by simp
    from avoid [OF this] show ?thesis using 0 j by auto
  next
    case (Suc i')
    then show ?thesis using Cons.IH [of i' j'] Cons.prems j by simp
  qed
qed

section \<open>Two nodes\<close>

lemma shared_history:
  assumes tv: "two_views c byz s1 s2" and l: "bs_holds s1 l" "bs_holds s2 l"
  shows "history s1 (reference l) \<subseteq> history s2 (reference l) \<and>
           (\<forall>r \<in> history s1 (reference l). block_at s1 r = block_at s2 r)"
proof -
  have "r \<in> history s2 (reference l) \<and> block_at s1 r = block_at s2 r"
    if "(reference l, r) \<in> (include_rel s1)\<^sup>*" for r
    using that
  proof (induction)
    case base
    then show ?case using l by (simp add: bs_holds_def)
  next
    case (step y z)
    then obtain b where b: "block_at s1 y = Some b" "z \<in> set (block_includes b)" by (auto simp: include_rel_def)
    then have b2: "block_at s2 y = Some b" using step.IH by simp
    have h: "bs_holds s1 b" "bs_holds s2 b"
      using bs_holds_lookup [OF two_viewsD(4) [OF tv] b(1)] bs_holds_lookup [OF two_viewsD(5) [OF tv] b2] by auto
    show ?case
      using history_step [OF _ b2 b(2)] step.IH shared_include [OF tv h b(2)] by blast
  qed
  then show ?thesis by (auto simp: history_def)
qed

lemma same_history:
  assumes "two_views c byz s1 s2" "bs_holds s1 l" "bs_holds s2 l"
  shows "history s1 (reference l) = history s2 (reference l)"
  using shared_history [OF assms] shared_history [OF two_views_sym [OF assms(1)] assms(3,2)] by auto

lemma same_new_histories:
  assumes "two_views c byz s1 s2" "\<forall>l \<in> set ls. bs_holds s1 l \<and> bs_holds s2 l"
  shows "new_histories s1 C ls = new_histories s2 C ls"
  using assms(2)
proof (induction ls arbitrary: C)
  case Nil
  then show ?case by simp
next
  case (Cons l ls)
  then have "history s1 (reference l) = history s2 (reference l)"
    using same_history [OF assms(1)] by simp
  then show ?case using Cons by simp
qed

section \<open>The order within a sub-dag\<close>

lemma insort_key_cong:
  assumes "\<And>y. y \<in> set xs \<Longrightarrow> f x \<le> f y \<longleftrightarrow> g x \<le> g y"
  shows "insort_key f x xs = insort_key g x xs"
  using assms by (induction xs) auto

lemma sort_key_cong:
  assumes "\<And>x y. x \<in> set xs \<Longrightarrow> y \<in> set xs \<Longrightarrow> f x \<le> f y \<longleftrightarrow> g x \<le> g y"
  shows "sort_key f xs = sort_key g xs"
  using assms
proof (induction xs)
  case Nil
  then show ?case by simp
next
  case (Cons x xs)
  then have "sort_key f xs = sort_key g xs" by simp
  moreover have "insort_key f x (sort_key g xs) = insort_key g x (sort_key g xs)"
    by (rule insort_key_cong) (use Cons.prems in auto)
  ultimately show ?case by simp
qed

definition round_hash :: "64 word \<Rightarrow> nat \<Rightarrow> 64 word" where
  "round_hash seed n = (seed + word_of_nat n) * 0x9E3779B9 * 0x85EBCA6B"

lemma sort_hash_split:
  "sort_hash seed x = round_hash seed (block_round x) + word_of_nat (block_author x) * 0x85EBCA6B"
  by (simp add: sort_hash_def round_hash_def distrib_right)

text \<open>Unless adding the author's share wraps around, the author alone orders a round.\<close>

lemma sort_hash_order:
  assumes "block_round x = block_round y" "block_author x < 512" "block_author y < 512"
    and "unat (round_hash seed (block_round x)) + 511 * 0x85EBCA6B < 2 ^ 64"
  shows "sort_hash seed x \<le> sort_hash seed y \<longleftrightarrow> block_author x \<le> block_author y"
proof -
  have un: "unat (sort_hash seed z) = unat (round_hash seed (block_round x)) + block_author z * 2246822507"
    if "block_author z < 512" "block_round z = block_round x" for z
  proof -
    have a: "unat (word_of_nat (block_author z) :: 64 word) = block_author z"
      using that(1) by (simp add: unat_of_nat)
    have m: "unat (word_of_nat (block_author z) * 0x85EBCA6B :: 64 word) = block_author z * 2246822507"
      using that(1) by (subst unat_word_ariths) (simp add: a)
    have "block_author z * 2246822507 \<le> 511 * 2246822507" using that(1) by simp
    then have "unat (round_hash seed (block_round x)) + block_author z * 2246822507 < 2 ^ 64"
      using assms(4) by simp
    then show ?thesis
      by (simp add: sort_hash_split that(2) unat_word_ariths(1) m)
  qed
  show ?thesis
    using un [of x] un [of y] assms(1-3) by (simp add: word_le_nat_alt)
qed

end
