(* ===== verification/MystiSamples.thy ===== *)
theory MystiSamples
  imports MystiCommits
begin

text \<open>
  Mysticeti: small concrete committees and dags for the witnesses, and the simplification
  rules that evaluate the model on them.
\<close>

definition ref_of :: "nat \<Rightarrow> nat \<Rightarrow> block_reference" where
  "ref_of a n = \<lparr>br_authority = a, br_round = n, br_digest = []\<rparr>"

definition block_of :: "nat \<Rightarrow> nat \<Rightarrow> block_reference list \<Rightarrow> statement_block" where
  "block_of a n is = \<lparr>reference = ref_of a n, block_includes = is, statements = [],
     meta_creation_time_ns = 0, epoch_marker = False, block_epoch = 0, block_signature = []\<rparr>"

definition store_of :: "nat \<Rightarrow> nat \<Rightarrow> (nat \<times> statement_block list) list \<Rightarrow> block_store" where
  "store_of authority n rounds = \<lparr>
     bs_index = map (\<lambda>(r, bs). (r, map (\<lambda>b. (author_digest (reference b), Loaded 0 b)) bs)) rounds,
     bs_own_blocks = concat (map (\<lambda>(r, bs). map (\<lambda>b. (r, br_digest (reference b)))
       (filter (\<lambda>b. block_author b = authority) bs)) rounds), bs_highest_round = fold max (map fst rounds) 0, bs_authority = authority,
     bs_last_seen = replicate n (fold max (map fst rounds) 0), bs_last_own_block = None,
     bs_wal = (\<lambda>_. None)\<rparr>"

definition validator10 :: validator where
  "validator10 = \<lparr>v_stake = 10, v_public_key = [], v_hostname = []\<rparr>"

definition four :: mcommittee where
  "four = \<lparr>mc_authorities = [validator10, validator10, validator10, validator10],
     mc_epoch = 0, mc_validity_threshold = 13, mc_quorum_threshold = 26\<rparr>"

text \<open>A shuffle that keeps the order: authority \<open>k\<close> is the leader of offset \<open>k\<close>.\<close>

definition in_order :: weighted_choice where
  "in_order seed choices n = [0..<n]"

lemma in_order_shuffles: "weighted_shuffles in_order c r"
  by (simp add: weighted_shuffles_def in_order_def)

lemma mc_new_four:
  "mc_new [validator10, validator10, validator10, validator10] 0 = Some four"
  by (simp add: mc_new_def four_def validator10_def)

lemma four_ok: "mc_ok four"
  by (rule mc_new_ok [OF mc_new_four]) (simp add: validator10_def)

lemma four_bound: "byz_bound four [3]"
  by (simp add: byz_bound_def mc_validity_unat [OF four_ok])
    (simp add: mc_weight_def mc_total_def mc_len_def four_def validator10_def)

text \<open>Rounds 0 to 3 as seen by the authorities 3 and 2, who lead no slot here.\<close>

definition full :: "nat list \<Rightarrow> nat list \<Rightarrow> nat \<Rightarrow> statement_block list" where
  "full as ps n = map (\<lambda>a. block_of a n (map (\<lambda>p. ref_of p (n - 1)) ps)) as"

definition view_a :: block_store where
  "view_a = store_of 3 4 [(0, full [0, 1, 2] [] 0), (1, full [0, 1, 2] [0, 1, 2] 1),
     (2, full [0, 1, 2] [0, 1, 2] 2), (3, full [0, 1, 2] [0, 1, 2] 3)]"

definition view_b :: block_store where
  "view_b = store_of 2 4 [(0, full [0, 1, 2] [] 0), (1, full [0, 1, 2] [0, 1, 2] 1),
     (2, full [0, 1, 2] [0, 1, 2] 2), (3, full [0, 1] [0, 1, 2] 3 @ full [3] [0, 1, 2] 3)]"

definition two_leaders :: "base_committer list" where
  "two_leaders = map (\<lambda>(ro, lo). \<lparr>bc_committee = four, bc_options = \<lparr>wave_length = 3,
     leader_offset = lo, round_offset = ro\<rparr>\<rparr>) [(0, 0), (0, 1), (1, 0), (1, 1), (2, 0), (2, 1)]"

lemma two_leaders_built: "uc_build four 3 2 True = Some two_leaders"
  by code_simp

lemma dag_a_ok: "dag_ok four view_a"
  by code_simp

lemma dag_b_ok: "dag_ok four view_b"
  by code_simp

lemma dags_agree: "views_agree [3] view_a view_a" "views_agree [3] view_a view_b" "views_agree [3] view_b view_b"
  by code_simp+

lemma two_dags: "two_views four [3] view_a view_b"
  by (simp add: two_views_def four_ok four_bound dag_a_ok dag_b_ok dags_agree)

lemma dag_a_commits:
  "core_commits in_order two_leaders [view_a] (commit_state_new 10) = Some (full [0, 1] [0, 1, 2] 1)"
  by code_simp

lemma dag_b_commits:
  "core_commits in_order two_leaders [view_b] (commit_state_new 10) = Some (full [0, 1] [0, 1, 2] 1)"
  by code_simp

section \<open>Waves of four rounds\<close>

text \<open>
  Two views of one dag without any Byzantine block. In round 5 the block of authority 0 includes
  the leader of round 4, the others include only the other three blocks; the view \<open>fork_a\<close> has not
  got the one of authority 3.
\<close>

definition wave_of_four :: "nat list \<Rightarrow> (nat \<times> statement_block list) list" where
  "wave_of_four late =
     map (\<lambda>n. (n, full [0, 1, 2, 3] (if n = 0 then [] else [0, 1, 2, 3]) n)) [0..<5] @
     [(5, full [0] [0, 1, 2, 3] 5 @ full ([1, 2] @ late) [1, 2, 3] 5)] @
     map (\<lambda>n. (n, full [0, 1, 2] [0, 1, 2] n)) [6..<12]"

definition fork_a :: block_store where
  "fork_a = store_of 0 4 (wave_of_four [])"

definition fork_b :: block_store where
  "fork_b = store_of 1 4 (wave_of_four [3])"

definition long_wave :: "base_committer list" where
  "long_wave = [\<lparr>bc_committee = four, bc_options = \<lparr>wave_length = 4, leader_offset = 0, round_offset = 0\<rparr>\<rparr>]"

lemma long_wave_built: "uc_build four 4 1 False = Some long_wave"
  by code_simp

lemma fork_ok: "dag_ok four fork_a" "dag_ok four fork_b"
  by code_simp+

lemma fork_views: "views_agree [] fork_a fork_a" "views_agree [] fork_a fork_b" "views_agree [] fork_b fork_b"
  by code_simp+

lemma fork_two_views: "two_views four [] fork_a fork_b"
proof -
  have "byz_bound four []"
    using four_bound by (simp add: byz_bound_def)
  then show ?thesis by (simp add: two_views_def four_ok fork_ok fork_views)
qed

lemma fork_a_commits: "core_commits in_order long_wave [fork_a] (commit_state_new 20) =
    Some (full [0] [0, 1, 2, 3] 4 @ full [0] [0, 1, 2] 8)"
  by code_simp

lemma fork_b_commits: "core_commits in_order long_wave [fork_b] (commit_state_new 20) =
    Some (full [0] [0, 1, 2] 8)"
  by code_simp

end
