(* ===== verification/MystiManager.thy ===== *)
theory MystiManager
  imports MystiStore
begin

text \<open>
  Mysticeti: the block manager (block_manager.rs), which holds back a block until all blocks it
  includes are stored, with the placement of entries in the write-ahead log (wal.rs). The length
  of a serialised block (bincode) and the iteration order of a hash set are the parameters
  \<open>len\<close> and \<open>order\<close>. \<open>None\<close> is a failed \<open>expect\<close> or \<open>assert\<close> or an index out of range.
\<close>

section \<open>Placing entries in the log\<close>

definition map_size :: nat where
  "map_size = 0x1000000"

definition header_len_bytes :: nat where
  "header_len_bytes = 8 + 8"

definition wal_offset :: "nat \<Rightarrow> nat" where
  "wal_offset p = p - p mod map_size"

text \<open>\<open>WalWriter::writev\<close>: the position of an entry of \<open>n\<close> bytes and the new end of the log.\<close>

definition wal_write :: "nat \<Rightarrow> nat \<Rightarrow> (nat \<times> nat) option" where
  "wal_write n pos =
     (let l = n + header_len_bytes;
          start = (if wal_offset pos \<noteq> wal_offset (pos + l - 1) then wal_offset (pos + l - 1) else pos)
      in if l \<le> map_size then Some (start, start + l) else None)"

lemma wal_write_Some: "wal_write n pos \<noteq> None \<longleftrightarrow> n + header_len_bytes \<le> map_size"
  by (simp add: wal_write_def Let_def)

lemma wal_offset_le: "wal_offset p \<le> p"
  by (simp add: wal_offset_def)

lemma wal_offset_mono: "p \<le> q \<Longrightarrow> wal_offset p \<le> wal_offset q"
proof -
  assume "p \<le> q"
  then have "p div map_size * map_size \<le> q div map_size * map_size"
    by (intro mult_le_mono1 div_le_mono)
  then show ?thesis by (simp add: wal_offset_def minus_mod_eq_div_mult)
qed

lemma wal_write_later:
  assumes "wal_write n pos = Some (start, end')"
  shows "pos \<le> start" "start < end'"
proof -
  let ?q = "pos + (n + header_len_bytes) - 1"
  have "pos \<le> wal_offset ?q" if "wal_offset pos \<noteq> wal_offset ?q"
  proof -
    have "pos \<le> ?q" by (simp add: header_len_bytes_def)
    then have "wal_offset pos < wal_offset ?q" using wal_offset_mono that by (simp add: order_less_le)
    then have "pos div map_size < ?q div map_size"
      by (simp add: wal_offset_def minus_mod_eq_div_mult map_size_def)
    then have "(pos div map_size + 1) * map_size \<le> ?q div map_size * map_size"
      by (intro mult_le_mono1) simp
    moreover have "pos < (pos div map_size + 1) * map_size"
      using dividend_less_div_times [of map_size pos] by (simp add: map_size_def)
    ultimately show ?thesis by (simp add: wal_offset_def minus_mod_eq_div_mult)
  qed
  then show "pos \<le> start" "start < end'"
    using assms by (auto simp: wal_write_def Let_def header_len_bytes_def split: if_splits)
qed

text \<open>An entry never straddles the border of a memory map.\<close>

lemma wal_write_in_map:
  assumes "wal_write n pos = Some (start, end')"
  shows "start div map_size = (end' - 1) div map_size"
proof -
  let ?l = "n + header_len_bytes"
  have pos: "map_size > 0" by (simp add: map_size_def)
  have l: "0 < ?l" "?l \<le> map_size" and e: "end' = start + ?l"
    using assms by (auto simp: wal_write_def Let_def header_len_bytes_def split: if_splits)
  show ?thesis
  proof (cases "wal_offset pos = wal_offset (pos + ?l - 1)")
    case True
    then have "start = pos" using assms by (simp add: wal_write_def Let_def split: if_splits)
    moreover have "pos div map_size = (pos + ?l - 1) div map_size"
      using True pos by (simp add: wal_offset_def minus_mod_eq_div_mult)
    ultimately show ?thesis using e by simp
  next
    case False
    then have "start = wal_offset (pos + ?l - 1)"
      using assms by (simp add: wal_write_def Let_def split: if_splits)
    then obtain q where q: "start = q * map_size" by (auto simp: wal_offset_def minus_mod_eq_div_mult)
    have "(q * map_size + (?l - 1)) div map_size = q" using l pos by simp
    then show ?thesis using l q e pos by (simp add: add.assoc)
  qed
qed

section \<open>The manager\<close>

record block_manager =
  bk_pending :: "(block_reference, statement_block) hash_map"
  bk_waiting :: "(block_reference, block_reference list) hash_map"
  bk_missing :: "block_reference list list"

definition bk_new :: "mcommittee \<Rightarrow> block_manager" where
  "bk_new c = \<lparr>bk_pending = [], bk_waiting = [], bk_missing = map (\<lambda>_. []) (mc_authority_range c)\<rparr>"

text \<open>A hash set is a list without repetitions.\<close>

text \<open>The loop over the includes of the block \<open>r\<close>; the flag is \<open>processed\<close>.\<close>

fun note_includes :: "block_store \<Rightarrow> block_reference \<Rightarrow> block_reference list \<Rightarrow>
    bool \<times> block_manager \<times> block_reference list \<Rightarrow> (bool \<times> block_manager \<times> block_reference list) option" where
  "note_includes st r [] s = Some s"
| "note_includes st r (i # is) (processed, m, new) =
     (if block_exists st i then note_includes st r is (processed, m, new)
      else
        let new' = (if map_of (bk_waiting m) i = None \<and> map_of (bk_pending m) i = None
              then List.insert i new else new);
            m1 = m\<lparr>bk_waiting := hm_entry i [] (List.insert r) (bk_waiting m)\<rparr>
        in if map_of (bk_pending m) i \<noteq> None then note_includes st r is (False, m1, new')
           else if length (bk_missing m) \<le> br_authority i then None
           else note_includes st r is (False,
             m1\<lparr>bk_missing := (bk_missing m)[br_authority i := List.insert i (bk_missing m ! br_authority i)]\<rparr>, new'))"

text \<open>The loop over the blocks that waited for a stored one.\<close>

fun release :: "block_reference list \<Rightarrow> block_manager \<Rightarrow> statement_block list \<Rightarrow>
    (block_manager \<times> statement_block list) option" where
  "release [] m queue = Some (m, queue)"
| "release (w # ws) m queue = (case map_of (bk_pending m) w of
     None \<Rightarrow> None
   | Some b \<Rightarrow>
       if list_all (\<lambda>i. map_of (bk_waiting m) i = None) (block_includes b)
       then release ws (m\<lparr>bk_pending := AList.delete w (bk_pending m)\<rparr>) (b # queue)
       else release ws m queue)"

text \<open>What the loop of \<open>add_blocks\<close> works on: the queue, the store, the end of the log, the results.\<close>

record manager_run =
  mr_queue :: "statement_block list"
  mr_manager :: block_manager
  mr_store :: block_store
  mr_end :: nat
  mr_processed :: "(nat \<times> statement_block) list"
  mr_missing :: "block_reference list"

definition accept_block :: "(block_reference list \<Rightarrow> block_reference list) \<Rightarrow> (statement_block \<Rightarrow> nat) \<Rightarrow>
    statement_block \<Rightarrow> manager_run \<Rightarrow> manager_run option" where
  "accept_block order len b s = (case wal_write (len b) (mr_end s) of
     None \<Rightarrow> None
   | Some (pos, end') \<Rightarrow> (case writer_insert_block pos b (mr_store s) of
       None \<Rightarrow> None
     | Some st \<Rightarrow>
         let s1 = s\<lparr>mr_store := st, mr_end := end', mr_processed := mr_processed s @ [(pos, b)]\<rparr>;
             m = mr_manager s
         in case map_of (bk_waiting m) (reference b) of
              None \<Rightarrow> Some s1
            | Some ws \<Rightarrow> map_option (\<lambda>(m', queue). s1\<lparr>mr_manager := m', mr_queue := queue\<rparr>)
                (release (order ws) (m\<lparr>bk_waiting := AList.delete (reference b) (bk_waiting m)\<rparr>) (mr_queue s))))"

definition manager_step :: "(block_reference list \<Rightarrow> block_reference list) \<Rightarrow> (statement_block \<Rightarrow> nat) \<Rightarrow>
    statement_block \<Rightarrow> manager_run \<Rightarrow> manager_run option" where
  "manager_step order len b s =
     (let r = reference b in
      if block_exists (mr_store s) r \<or> map_of (bk_pending (mr_manager s)) r \<noteq> None then Some s
      else case note_includes (mr_store s) r (block_includes b) (True, mr_manager s, mr_missing s) of
        None \<Rightarrow> None
      | Some (processed, m, new) \<Rightarrow>
          if length (bk_missing m) \<le> br_authority r then None
          else
            let m1 = m\<lparr>bk_missing := (bk_missing m)[br_authority r := remove1 r (bk_missing m ! br_authority r)]\<rparr>;
                s1 = s\<lparr>mr_manager := m1, mr_missing := new\<rparr>
            in if processed then accept_block order len b s1
               else Some (s1\<lparr>mr_manager := m1\<lparr>bk_pending := AList.update r b (bk_pending m1)\<rparr>\<rparr>))"

section \<open>The loop ends\<close>

text \<open>The blocks that are held or queued but not stored.\<close>

definition open_refs :: "manager_run \<Rightarrow> block_reference set" where
  "open_refs s = {r \<in> reference ` (set (mr_queue s) \<union> snd ` set (bk_pending (mr_manager s))).
     \<not> block_exists (mr_store s) r}"

lemma finite_open_refs [simp]: "finite (open_refs s)"
proof -
  have "open_refs s \<subseteq> reference ` (set (mr_queue s) \<union> snd ` set (bk_pending (mr_manager s)))"
    by (auto simp: open_refs_def)
  then show ?thesis by (rule finite_subset) simp
qed

lemma note_includes_pending:
  "note_includes st r is (p, m, new) = Some (p', m', new') \<Longrightarrow> bk_pending m' = bk_pending m"
proof (induction st r "is" "(p, m, new)" arbitrary: p m new rule: note_includes.induct)
  case (2 st r i "is" p m new)
  then show ?case by (simp add: Let_def split: if_splits)
qed simp

lemma subset_insert_swap: "A \<subseteq> insert b Q \<union> D \<Longrightarrow> b \<in> P \<Longrightarrow> D \<subseteq> P \<Longrightarrow> A \<subseteq> Q \<union> P"
  by blast

lemma release_held:
  "release ws m queue = Some (m', queue') \<Longrightarrow>
     set queue' \<union> snd ` set (bk_pending m') \<subseteq> set queue \<union> snd ` set (bk_pending m)"
proof (induction ws m queue rule: release.induct)
  case (2 w ws m queue)
  then obtain b where b: "map_of (bk_pending m) w = Some b" by (auto split: option.splits)
  then have mem: "b \<in> snd ` set (bk_pending m)"
    by (metis map_of_SomeD image_eqI snd_conv)
  have del: "snd ` set (AList.delete w (bk_pending m)) \<subseteq> snd ` set (bk_pending m)"
    by (auto simp: AList.delete_eq)
  show ?case
  proof (cases "list_all (\<lambda>i. map_of (bk_waiting m) i = None) (block_includes b)")
    case True
    with 2(1) [OF b True] 2(3) b
    have "set queue' \<union> snd ` set (bk_pending m') \<subseteq>
        set (b # queue) \<union> snd ` set (AList.delete w (bk_pending m))" by simp
    then show ?thesis by (intro subset_insert_swap [OF _ mem del]) simp
  next
    case False
    with 2(2) [OF b False] 2(3) b show ?thesis by simp
  qed
qed simp

lemma exists_after_insert:
  assumes "writer_insert_block pos b st = Some st'"
  shows "block_exists st' r \<longleftrightarrow> r = reference b \<or> block_exists st r"
proof -
  have ex: "block_exists s r \<longleftrightarrow> inner_get_block s r \<noteq> None" for s
    by (auto simp: block_exists_def inner_get_block_def split: option.splits)
  have "inner_get_block (st\<lparr>bs_wal := w\<rparr>) r = inner_get_block st r" for w
    by (simp add: inner_get_block_def)
  then show ?thesis
    using add_entry_inner [OF assms [unfolded writer_insert_block_def add_loaded_def], of r]
    by (simp add: ex)
qed

lemma accept_block_held:
  assumes acc: "accept_block order len b s = Some s'"
  shows "set (mr_queue s') \<union> snd ` set (bk_pending (mr_manager s')) \<subseteq>
    set (mr_queue s) \<union> snd ` set (bk_pending (mr_manager s))"
proof (cases "map_of (bk_waiting (mr_manager s)) (reference b)")
  case None
  then have "mr_queue s' = mr_queue s" "mr_manager s' = mr_manager s"
    using acc by (auto simp: accept_block_def Let_def split: option.splits prod.splits)
  then show ?thesis by simp
next
  case (Some ws)
  let ?m = "mr_manager s\<lparr>bk_waiting := AList.delete (reference b) (bk_waiting (mr_manager s))\<rparr>"
  have "release (order ws) ?m (mr_queue s) = Some (mr_manager s', mr_queue s')"
    using acc Some by (auto simp: accept_block_def Let_def split: option.splits prod.splits)
  from release_held [OF this] show ?thesis by simp
qed

lemma manager_step_decreases:
  assumes step: "manager_step order len b (s\<lparr>mr_queue := bs\<rparr>) = Some s'" and q: "mr_queue s = b # bs"
  shows "open_refs s' \<subset> open_refs s \<or> open_refs s' \<subseteq> open_refs s \<and> length (mr_queue s') < length (mr_queue s)"
proof (cases "block_exists (mr_store s) (reference b) \<or> map_of (bk_pending (mr_manager s)) (reference b) \<noteq> None")
  case True
  then have "s' = s\<lparr>mr_queue := bs\<rparr>" using step by (simp add: manager_step_def)
  then show ?thesis using q by (auto simp: open_refs_def)
next
  case nex: False
  let ?s = "s\<lparr>mr_queue := bs\<rparr>"
  from step nex obtain p m new where ni:
    "note_includes (mr_store s) (reference b) (block_includes b) (True, mr_manager s, mr_missing s) = Some (p, m, new)"
    by (auto simp: manager_step_def Let_def split: option.splits)
  note pend = note_includes_pending [OF ni]
  have open_b: "reference b \<in> open_refs s" using nex q by (simp add: open_refs_def)
  show ?thesis
  proof (cases p)
    case False
    with ni step nex have s': "mr_queue s' = bs" "mr_store s' = mr_store s"
      "bk_pending (mr_manager s') = AList.update (reference b) b (bk_pending (mr_manager s))"
      by (auto simp: manager_step_def Let_def pend split: if_splits)
    have "open_refs s' \<subseteq> open_refs s"
      using set_update_subset [of "reference b" b "bk_pending (mr_manager s)"] q
      by (fastforce simp: open_refs_def s')
    then show ?thesis using s' q by simp
  next
    case True
    with ni step nex obtain m1 where acc:
      "accept_block order len b (?s\<lparr>mr_manager := m1, mr_missing := new\<rparr>) = Some s'"
      and m1: "bk_pending m1 = bk_pending (mr_manager s)"
      by (auto simp: manager_step_def Let_def pend split: if_splits)
    from acc obtain pos st where st: "writer_insert_block pos b (mr_store s) = Some st" "mr_store s' = st"
      by (auto simp: accept_block_def Let_def split: option.splits prod.splits)
    have held: "set (mr_queue s') \<union> snd ` set (bk_pending (mr_manager s')) \<subseteq>
        set bs \<union> snd ` set (bk_pending (mr_manager s))"
      using accept_block_held [OF acc] m1 by simp
    have "open_refs s' \<subseteq> open_refs s - {reference b}"
      using held q by (auto simp: open_refs_def st(2) exists_after_insert [OF st(1)])
    then show ?thesis using open_b by blast
  qed
qed

function manager_loop :: "(block_reference list \<Rightarrow> block_reference list) \<Rightarrow> (statement_block \<Rightarrow> nat) \<Rightarrow>
    manager_run \<Rightarrow> manager_run option" where
  "manager_loop order len s = (case mr_queue s of
     [] \<Rightarrow> Some s
   | b # bs \<Rightarrow> (case manager_step order len b (s\<lparr>mr_queue := bs\<rparr>) of
       None \<Rightarrow> None
     | Some s' \<Rightarrow> manager_loop order len s'))"
  by pat_completeness auto
termination
proof (relation "inv_image (finite_psubset <*lex*> measure length) (\<lambda>(_, _, s). (open_refs s, mr_queue s))")
  show "wf (inv_image (finite_psubset <*lex*> measure length) (\<lambda>(_, _, s). (open_refs s, mr_queue s)))"
    by (intro wf_inv_image wf_lex_prod wf_finite_psubset wf_measure)
next
  fix order len s b bs s'
  assume "mr_queue s = b # bs" "manager_step order len b (s\<lparr>mr_queue := bs\<rparr>) = Some s'"
  from manager_step_decreases [OF this(2,1)]
  show "((order, len, s'), order, len, s) \<in>
      inv_image (finite_psubset <*lex*> measure length) (\<lambda>(_, _, s). (open_refs s, mr_queue s))"
    by (auto simp: psubset_eq)
qed

declare manager_loop.simps [simp del]

text \<open>\<open>BlockManager::add_blocks\<close>, and the queries.\<close>

definition manager_start :: "statement_block list \<Rightarrow> block_manager \<Rightarrow> block_store \<Rightarrow> nat \<Rightarrow> manager_run" where
  "manager_start bs m st end' = \<lparr>mr_queue = sort_key block_round bs, mr_manager = m, mr_store = st,
     mr_end = end', mr_processed = [], mr_missing = []\<rparr>"

definition bk_add_blocks :: "(block_reference list \<Rightarrow> block_reference list) \<Rightarrow> (statement_block \<Rightarrow> nat) \<Rightarrow>
    statement_block list \<Rightarrow> block_manager \<times> block_store \<times> nat \<Rightarrow>
    (((nat \<times> statement_block) list \<times> block_reference list) \<times> block_manager \<times> block_store \<times> nat) option" where
  "bk_add_blocks order len bs = (\<lambda>(m, st, end'). map_option
     (\<lambda>s. ((mr_processed s, mr_missing s), mr_manager s, mr_store s, mr_end s))
     (manager_loop order len (manager_start bs m st end')))"

definition exists_or_pending :: "block_manager \<Rightarrow> block_store \<Rightarrow> block_reference \<Rightarrow> bool" where
  "exists_or_pending m st r \<longleftrightarrow> block_exists st r \<or> map_of (bk_pending m) r \<noteq> None"

end
