(* ===== verification/MystiCausal.thy ===== *)
theory MystiCausal
  imports MystiManager
begin

text \<open>
  What the block manager guarantees: its loop never fails, the store stays causally closed, a
  block that is not stored is pending for an include that is missing, and what is missing is
  asked for.
\<close>

section \<open>The writer\<close>

text \<open>The entries of the index lie below the end of the log, and cached blocks are the logged ones.\<close>

definition log_ok :: "block_store \<Rightarrow> nat \<Rightarrow> bool" where
  "log_ok st n \<longleftrightarrow> (\<forall>r e. inner_get_block st r = Some e \<longrightarrow> (case e of
     WalPosition p \<Rightarrow> p < n | Loaded p b \<Rightarrow> p < n \<and> bs_wal st p = Some b))"

lemma log_ok_wal_ok: "store_wf st \<Longrightarrow> log_ok st n \<Longrightarrow> wal_ok st"
  unfolding wal_ok_def list_all_iff split_beta
proof (intro ballI)
  fix x y assume wf: "store_wf st" and l: "log_ok st n" and x: "x \<in> set (bs_index st)" and y: "y \<in> set (snd x)"
  have mx: "map_of (bs_index st) (fst x) = Some (snd x)"
    using wf x strict_sorted_distinct [of "map fst (bs_index st)"] by (simp add: store_wf_def map_of_in_set)
  then have my: "map_of (snd x) (fst y) = Some (snd y)"
    using store_wf_index(1) [OF wf mx] y by (simp add: map_of_in_set)
  let ?r = "\<lparr>br_authority = fst (fst y), br_round = fst x, br_digest = snd (fst y)\<rparr>"
  have "inner_get_block st ?r = Some (snd y)"
    using mx my by (simp add: inner_get_block_def author_digest_def)
  then show "case snd y of WalPosition p \<Rightarrow> True | Loaded p b \<Rightarrow> bs_wal st p = Some b"
    using l by (fastforce simp: log_ok_def split: index_entry.splits)
qed

lemma inner_wal [simp]: "inner_get_block (st\<lparr>bs_wal := w\<rparr>) = inner_get_block st"
  by (simp add: fun_eq_iff inner_get_block_def)

lemma exists_inner: "block_exists st r \<longleftrightarrow> inner_get_block st r \<noteq> None"
  by (auto simp: block_exists_def inner_get_block_def split: option.splits)

lemma read_wal_write:
  assumes "log_ok st n" "inner_get_block st r = Some e" "n \<le> pos"
  shows "read_index (st\<lparr>bs_wal := (bs_wal st)(pos \<mapsto> b)\<rparr>) e = read_index st e"
  using assms by (fastforce simp: log_ok_def read_index_def split: index_entry.splits)

lemma wal_write_wf:
  assumes wf: "store_wf st" and l: "log_ok st n" and pos: "n \<le> pos"
  shows "store_wf (st\<lparr>bs_wal := (bs_wal st)(pos \<mapsto> b)\<rparr>)"
proof -
  let ?st = "st\<lparr>bs_wal := (bs_wal st)(pos \<mapsto> b)\<rparr>"
  have "entry_ok ?st k x" if m: "map_of (bs_index st) k = Some m" and x: "x \<in> set m" for k m x
  proof -
    have "inner_get_block st \<lparr>br_authority = fst (fst x), br_round = k, br_digest = snd (fst x)\<rparr> = Some (snd x)"
      using m x store_wf_index(1) [OF wf m] by (simp add: inner_get_block_def author_digest_def map_of_in_set)
    from read_wal_write [OF l this pos] store_wf_index(2) [OF wf m] x show ?thesis
      by (auto simp: entry_ok_def split_beta)
  qed
  moreover have "own_entry_ok ?st x = own_entry_ok st x" for x
    by (simp add: own_entry_ok_def exists_inner split_beta)
  ultimately show ?thesis
    using wf unfolding store_wf_alt by simp
qed

lemma writer_insert_spec:
  assumes wf: "store_wf st" and l: "log_ok st n" and w: "wal_write k n = Some (pos, n')"
    and a: "block_author b < length (bs_last_seen st)"
    and own: "block_author b = bs_authority st \<Longrightarrow> map_of (bs_own_blocks st) (block_round b) = None"
  shows "\<exists>st'. writer_insert_block pos b st = Some st' \<and> store_wf st' \<and> log_ok st' n' \<and>
           block_at st' = (block_at st)(reference b \<mapsto> b) \<and> bs_authority st' = bs_authority st \<and>
           length (bs_last_seen st') = length (bs_last_seen st)"
proof -
  let ?st = "st\<lparr>bs_wal := (bs_wal st)(pos \<mapsto> b)\<rparr>"
  note pos = wal_write_later [OF w]
  note wf1 = wal_write_wf [OF wf l pos(1), of b]
  from add_entry_succeeds [OF wf1, of "reference b" "Loaded pos b"] a own
  obtain st' where st': "add_entry (reference b) (Loaded pos b) ?st = Some st'"
    by (auto simp: block_author_def block_round_def)
  have read: "read_index ?st (Loaded pos b) = Some b" by (simp add: read_index_def)
  note f = add_entry_facts [OF st']
  have "block_at ?st r = block_at st r" for r
    using read_wal_write [OF l _ pos(1), of r] by (cases "inner_get_block st r") (auto simp: block_at_def get_block_def)
  then have "block_at ?st = block_at st" ..
  then have "block_at st' = (block_at st)(reference b \<mapsto> b)"
    using add_entry_block_at [OF wf1 st' read refl] by simp
  moreover have "log_ok st' n'"
    unfolding log_ok_def
  proof (intro allI impI)
    fix r e assume e: "inner_get_block st' r = Some e"
    show "case e of WalPosition p \<Rightarrow> p < n' | Loaded p b \<Rightarrow> p < n' \<and> bs_wal st' p = Some b"
    proof (cases "r = reference b")
      case True
      then have "e = Loaded pos b" using e by (simp add: add_entry_inner [OF st'])
      then show ?thesis using pos by (simp add: f(2))
    next
      case False
      then have "inner_get_block st r = Some e" using e by (simp add: add_entry_inner [OF st'])
      then show ?thesis using l pos by (fastforce simp: log_ok_def f(2) split: index_entry.splits)
    qed
  qed
  ultimately show ?thesis
    using st' add_entry_wf [OF wf1 st' read refl] f(3,6)
    by (simp add: writer_insert_block_def add_loaded_def)
qed

section \<open>The two inner loops\<close>

definition waiters :: "block_manager \<Rightarrow> block_reference \<Rightarrow> block_reference list" where
  "waiters m i = (case map_of (bk_waiting m) i of None \<Rightarrow> [] | Some ws \<Rightarrow> ws)"

lemma note_includes_none_missing:
  "\<forall>i \<in> set is. block_exists st i \<Longrightarrow> note_includes st r is (p, m, new) = Some (p, m, new)"
  by (induction "is" arbitrary: p m new) auto

lemma note_includes_spec:
  assumes "\<forall>i \<in> set is. br_authority i < length (bk_missing m)" "hm_wf (bk_waiting m)"
    and "\<forall>xs \<in> set (bk_missing m). distinct xs"
  shows "\<exists>m' new'. note_includes st r is (p, m, new) = Some (p \<and> (\<forall>i \<in> set is. block_exists st i), m', new') \<and>
     hm_wf (bk_waiting m') \<and> bk_pending m' = bk_pending m \<and>
     (\<forall>k. map_of (bk_waiting m') k = (if k \<in> set is \<and> \<not> block_exists st k
        then Some (List.insert r (waiters m k)) else map_of (bk_waiting m) k)) \<and>
     length (bk_missing m') = length (bk_missing m) \<and> (\<forall>xs \<in> set (bk_missing m'). distinct xs) \<and>
     (\<forall>a < length (bk_missing m). set (bk_missing m' ! a) = set (bk_missing m ! a) \<union>
        {k \<in> set is. \<not> block_exists st k \<and> map_of (bk_pending m) k = None \<and> br_authority k = a})"
  using assms
proof (induction "is" arbitrary: p m new)
  case Nil
  then show ?case by simp
next
  case (Cons i "is")
  show ?case
  proof (cases "block_exists st i")
    case True
    with Cons.IH [of m p new] Cons.prems obtain m' new' where
      IH: "note_includes st r is (p, m, new) = Some (p \<and> (\<forall>i \<in> set is. block_exists st i), m', new')"
      "hm_wf (bk_waiting m')" "bk_pending m' = bk_pending m"
      "\<forall>k. map_of (bk_waiting m') k = (if k \<in> set is \<and> \<not> block_exists st k
          then Some (List.insert r (waiters m k)) else map_of (bk_waiting m) k)"
      "length (bk_missing m') = length (bk_missing m)" "\<forall>xs \<in> set (bk_missing m'). distinct xs"
      "\<forall>a < length (bk_missing m). set (bk_missing m' ! a) = set (bk_missing m ! a) \<union>
        {k \<in> set is. \<not> block_exists st k \<and> map_of (bk_pending m) k = None \<and> br_authority k = a}"
      by (auto simp del: split_paired_Ex)
    show ?thesis
      using IH True by (intro exI [of _ m'] exI [of _ new']) (auto simp: conj_commute)
  next
    case False
    define new1 where "new1 = (if map_of (bk_waiting m) i = None \<and> map_of (bk_pending m) i = None
      then List.insert i new else new)"
    define miss where "miss = (if map_of (bk_pending m) i \<noteq> None then bk_missing m
      else (bk_missing m)[br_authority i := List.insert i (bk_missing m ! br_authority i)])"
    define m1 where "m1 = m\<lparr>bk_waiting := hm_entry i [] (List.insert r) (bk_waiting m), bk_missing := miss\<rparr>"
    have step: "note_includes st r (i # is) (p, m, new) = note_includes st r is (False, m1, new1)"
      using False Cons.prems(1) by (simp add: m1_def new1_def miss_def Let_def)
    have w1: "map_of (bk_waiting m1) k = (if k = i then Some (List.insert r (waiters m k)) else map_of (bk_waiting m) k)" for k
      by (simp add: m1_def map_of_entry waiters_def)
    have len: "length miss = length (bk_missing m)" by (simp add: miss_def)
    have d: "\<forall>xs \<in> set miss. distinct xs"
    proof
      fix xs assume "xs \<in> set miss"
      then have "xs \<in> set (bk_missing m) \<or> xs = List.insert i (bk_missing m ! br_authority i)"
        using set_update_subset_insert [of "bk_missing m" "br_authority i" "List.insert i (bk_missing m ! br_authority i)"]
        by (auto simp: miss_def split: if_splits simp del: set_update_memI)
      then show "distinct xs" using Cons.prems(1,3) by auto
    qed
    have s1: "set (miss ! a) = set (bk_missing m ! a) \<union>
        {k. k = i \<and> map_of (bk_pending m) k = None \<and> br_authority k = a}" if "a < length (bk_missing m)" for a
      using that Cons.prems(1) by (auto simp: miss_def nth_list_update)
    have "\<forall>i \<in> set is. br_authority i < length (bk_missing m1)" "hm_wf (bk_waiting m1)"
      "\<forall>xs \<in> set (bk_missing m1). distinct xs"
      using Cons.prems len d by (simp_all add: m1_def)
    from Cons.IH [OF this, of False new1] obtain m' new' where
      IH: "note_includes st r is (False, m1, new1) = Some (False \<and> (\<forall>i \<in> set is. block_exists st i), m', new')"
      "hm_wf (bk_waiting m')" "bk_pending m' = bk_pending m1"
      "\<forall>k. map_of (bk_waiting m') k = (if k \<in> set is \<and> \<not> block_exists st k
          then Some (List.insert r (waiters m1 k)) else map_of (bk_waiting m1) k)"
      "length (bk_missing m') = length (bk_missing m1)" "\<forall>xs \<in> set (bk_missing m'). distinct xs"
      "\<forall>a < length (bk_missing m1). set (bk_missing m' ! a) = set (bk_missing m1 ! a) \<union>
        {k \<in> set is. \<not> block_exists st k \<and> map_of (bk_pending m1) k = None \<and> br_authority k = a}"
      by (elim exE conjE) (rule that)
    have w: "map_of (bk_waiting m') k = (if k \<in> set (i # is) \<and> \<not> block_exists st k
        then Some (List.insert r (waiters m k)) else map_of (bk_waiting m) k)" for k
    proof -
      have wm: "waiters m1 k = (if k = i then List.insert r (waiters m k) else waiters m k)"
        using w1 [of k] by (simp add: waiters_def)
      show ?thesis
        using IH(4) [THEN spec, of k] False unfolding w1 wm by simp
    qed
    have s: "set (bk_missing m' ! a) = set (bk_missing m ! a) \<union>
        {k \<in> set (i # is). \<not> block_exists st k \<and> map_of (bk_pending m) k = None \<and> br_authority k = a}"
      if "a < length (bk_missing m)" for a
    proof -
      have m1: "bk_missing m1 = miss" "bk_pending m1 = bk_pending m" by (simp_all add: m1_def)
      have "set (bk_missing m' ! a) = set (miss ! a) \<union>
          {k \<in> set is. \<not> block_exists st k \<and> map_of (bk_pending m) k = None \<and> br_authority k = a}"
        using IH(7) that len unfolding m1 by simp
      then show ?thesis unfolding s1 [OF that] using False by auto
    qed
    show ?thesis
      unfolding step
      using IH(1,2,3,5,6) w s len False
      by (intro exI [of _ m'] exI [of _ new']) (simp add: m1_def)
  qed
qed

definition bk_ready :: "block_manager \<Rightarrow> statement_block \<Rightarrow> bool" where
  "bk_ready m b \<longleftrightarrow> (\<forall>i \<in> set (block_includes b). map_of (bk_waiting m) i = None)"

lemma release_spec:
  assumes "hm_wf (bk_pending m)" "distinct ws" "\<forall>w \<in> set ws. map_of (bk_pending m) w \<noteq> None"
  shows "\<exists>m'. release ws m queue = Some (m',
            rev (filter (bk_ready m) (map (\<lambda>w. the (map_of (bk_pending m) w)) ws)) @ queue) \<and>
          hm_wf (bk_pending m') \<and> bk_waiting m' = bk_waiting m \<and> bk_missing m' = bk_missing m \<and>
          (\<forall>r. map_of (bk_pending m') r =
             (if r \<in> set ws \<and> bk_ready m (the (map_of (bk_pending m) r)) then None else map_of (bk_pending m) r))"
  using assms
proof (induction ws arbitrary: m queue)
  case Nil
  then show ?case by simp
next
  case (Cons w ws)
  obtain b where b: "map_of (bk_pending m) w = Some b" using Cons.prems(3) by auto
  have ready: "list_all (\<lambda>i. map_of (bk_waiting m) i = None) (block_includes b) \<longleftrightarrow> bk_ready m b"
    by (simp add: list_all_iff bk_ready_def)
  show ?case
  proof (cases "bk_ready m b")
    case True
    let ?m = "m\<lparr>bk_pending := AList.delete w (bk_pending m)\<rparr>"
    have eq: "map (\<lambda>x. the (map_of (bk_pending ?m) x)) ws = map (\<lambda>x. the (map_of (bk_pending m) x)) ws"
      and rd: "bk_ready ?m = bk_ready m"
      using Cons.prems(2) by (auto simp: bk_ready_def fun_eq_iff)
    have "hm_wf (bk_pending ?m)" "distinct ws" "\<forall>w \<in> set ws. map_of (bk_pending ?m) w \<noteq> None"
      using Cons.prems by auto
    from Cons.IH [OF this, of "b # queue", unfolded eq rd] obtain m' where
      IH: "release ws ?m (b # queue) = Some (m',
            rev (filter (bk_ready m) (map (\<lambda>w. the (map_of (bk_pending m) w)) ws)) @ b # queue)"
      "hm_wf (bk_pending m')" "bk_waiting m' = bk_waiting m" "bk_missing m' = bk_missing m"
      "\<forall>r. map_of (bk_pending m') r =
         (if r \<in> set ws \<and> bk_ready m (the (map_of (bk_pending ?m) r)) then None else map_of (bk_pending ?m) r)"
      by auto
    have "map_of (bk_pending m') r = (if r \<in> set (w # ws) \<and> bk_ready m (the (map_of (bk_pending m) r))
        then None else map_of (bk_pending m) r)" for r
      using IH(5) Cons.prems(2) True b by auto
    then show ?thesis using IH(1-4) b True ready by (intro exI [of _ m']) simp
  next
    case False
    with Cons.IH [of m queue] Cons.prems b ready show ?thesis
      by (auto simp del: split_paired_Ex)
  qed
qed

section \<open>The invariant\<close>

text \<open>
  A block the manager can take: its entry fits a memory map, and it and its includes are of
  authorities of the committee. (\<open>StatementBlock::verify\<close> checks the authorities.)
\<close>

definition admissible :: "(statement_block \<Rightarrow> nat) \<Rightarrow> nat \<Rightarrow> statement_block \<Rightarrow> bool" where
  "admissible len n b \<longleftrightarrow> len b + header_len_bytes \<le> map_size \<and> block_author b < n \<and>
     (\<forall>i \<in> set (block_includes b). br_authority i < n)"

definition sized :: "nat \<Rightarrow> block_manager \<Rightarrow> block_store \<Rightarrow> bool" where
  "sized n m st \<longleftrightarrow> length (bs_last_seen st) = n \<and> length (bk_missing m) = n \<and>
     hm_wf (bk_pending m) \<and> hm_wf (bk_waiting m) \<and> (\<forall>xs \<in> set (bk_missing m). distinct xs) \<and>
     (\<forall>a < n. \<forall>k \<in> set (bk_missing m ! a). br_authority k = a)"

text \<open>\<open>us\<close> are the blocks at the front of the queue that were pending before.\<close>

definition pending_ok :: "(statement_block \<Rightarrow> nat) \<Rightarrow> nat \<Rightarrow> block_manager \<Rightarrow> block_store \<Rightarrow> statement_block list \<Rightarrow> bool" where
  "pending_ok len n m st us \<longleftrightarrow> (\<forall>r b. map_of (bk_pending m) r = Some b \<longrightarrow>
     reference b = r \<and> \<not> block_exists st r \<and> admissible len n b \<and> br_authority r \<noteq> bs_authority st \<and>
     r \<notin> reference ` set us \<and> (\<exists>i \<in> set (block_includes b). \<not> block_exists st i) \<and>
     (\<forall>i \<in> set (block_includes b). \<not> block_exists st i \<longrightarrow> r \<in> set (waiters m i)))"

definition waiting_ok :: "block_manager \<Rightarrow> block_store \<Rightarrow> bool" where
  "waiting_ok m st \<longleftrightarrow> (\<forall>k ws. map_of (bk_waiting m) k = Some ws \<longrightarrow>
     \<not> block_exists st k \<and> ws \<noteq> [] \<and> distinct ws \<and>
     (\<forall>w \<in> set ws. \<exists>b. map_of (bk_pending m) w = Some b \<and> k \<in> set (block_includes b)))"

definition released_ok :: "(statement_block \<Rightarrow> nat) \<Rightarrow> nat \<Rightarrow> block_store \<Rightarrow> statement_block list \<Rightarrow> bool" where
  "released_ok len n st us \<longleftrightarrow> distinct (map reference us) \<and>
     (\<forall>u \<in> set us. \<not> block_exists st (reference u) \<and> admissible len n u \<and> block_author u \<noteq> bs_authority st \<and>
       (\<forall>i \<in> set (block_includes u). block_exists st i))"

definition asked :: "block_manager \<Rightarrow> block_reference \<Rightarrow> bool" where
  "asked m k \<longleftrightarrow> br_authority k < length (bk_missing m) \<and> k \<in> set (bk_missing m ! br_authority k)"

definition missing_ok :: "block_manager \<Rightarrow> statement_block list \<Rightarrow> bool" where
  "missing_ok m us \<longleftrightarrow>
     (\<forall>k. asked m k \<longrightarrow> map_of (bk_waiting m) k \<noteq> None \<and> map_of (bk_pending m) k = None) \<and>
     (\<forall>k. map_of (bk_waiting m) k \<noteq> None \<and> map_of (bk_pending m) k = None \<and> k \<notin> reference ` set us \<longrightarrow> asked m k)"

definition manager_inv :: "(statement_block \<Rightarrow> nat) \<Rightarrow> nat \<Rightarrow> block_manager \<Rightarrow> block_store \<Rightarrow> nat \<Rightarrow>
    statement_block list \<Rightarrow> bool" where
  "manager_inv len n m st end' us \<longleftrightarrow> store_wf st \<and> log_ok st end' \<and> sized n m st \<and>
     pending_ok len n m st us \<and> waiting_ok m st \<and> released_ok len n st us \<and> missing_ok m us"

lemma pending_okD:
  assumes "pending_ok len n m st us" "map_of (bk_pending m) r = Some b"
  shows "reference b = r" "\<not> block_exists st r" "admissible len n b" "br_authority r \<noteq> bs_authority st"
    "r \<notin> reference ` set us" "\<exists>i \<in> set (block_includes b). \<not> block_exists st i"
    "i \<in> set (block_includes b) \<Longrightarrow> \<not> block_exists st i \<Longrightarrow> r \<in> set (waiters m i)"
  using assms by (auto simp: pending_ok_def)

lemma waiting_okD:
  assumes "waiting_ok m st" "map_of (bk_waiting m) k = Some ws"
  shows "\<not> block_exists st k" "distinct ws" "ws \<noteq> []"
    "w \<in> set ws \<Longrightarrow> \<exists>b. map_of (bk_pending m) w = Some b \<and> k \<in> set (block_includes b)"
  using assms unfolding waiting_ok_def by blast+

lemma waiters_iff: "r \<in> set (waiters m i) \<longleftrightarrow> (\<exists>ws. map_of (bk_waiting m) i = Some ws \<and> r \<in> set ws)"
  by (cases "map_of (bk_waiting m) i") (simp_all add: waiters_def)

text \<open>What a pending block lacks is what its includes are waited for.\<close>

lemma pending_waits:
  assumes "pending_ok len n m st us" "waiting_ok m st" "map_of (bk_pending m) r = Some b"
    and "i \<in> set (block_includes b)"
  shows "\<not> block_exists st i \<longleftrightarrow> map_of (bk_waiting m) i \<noteq> None"
  using pending_okD(7) [OF assms(1,3,4)] waiting_okD(1) [OF assms(2)] by (auto simp: waiters_iff)

text \<open>Dropping \<open>r\<close> from the missing references.\<close>

definition unask :: "block_reference \<Rightarrow> block_manager \<Rightarrow> block_manager" where
  "unask r m = m\<lparr>bk_missing := (bk_missing m)[br_authority r := remove1 r (bk_missing m ! br_authority r)]\<rparr>"

lemma unask_simps [simp]:
  "bk_pending (unask r m) = bk_pending m" "bk_waiting (unask r m) = bk_waiting m"
  "length (bk_missing (unask r m)) = length (bk_missing m)" "waiters (unask r m) = waiters m"
  by (simp_all add: unask_def waiters_def fun_eq_iff)

lemma unask_sized:
  assumes "sized n m st"
  shows "sized n (unask r m) st"
proof -
  have nth: "bk_missing (unask r m) ! a = (if a = br_authority r then remove1 r (bk_missing m ! a) else bk_missing m ! a)"
    if "a < n" for a
    using that assms by (auto simp: unask_def sized_def nth_list_update)
  have old: "distinct (bk_missing m ! a) \<and> (\<forall>k \<in> set (bk_missing m ! a). br_authority k = a)" if "a < n" for a
    using assms that unfolding sized_def by (metis nth_mem)
  have "distinct (bk_missing (unask r m) ! a) \<and> (\<forall>k \<in> set (bk_missing (unask r m) ! a). br_authority k = a)"
    if "a < n" for a
    using old [OF that] set_remove1_subset [of r "bk_missing m ! a"]
    unfolding nth [OF that] by (auto simp: distinct_remove1)
  then show ?thesis
    using assms by (simp add: sized_def all_set_conv_all_nth)
qed

lemma asked_unask:
  assumes "sized n m st" "br_authority r < n"
  shows "asked (unask r m) k \<longleftrightarrow> k \<noteq> r \<and> asked m k"
proof -
  have "distinct (bk_missing m ! br_authority r)" using assms by (simp add: sized_def)
  then show ?thesis
    using assms by (auto simp: asked_def unask_def sized_def nth_list_update set_remove1_eq)
qed

lemma waiting_ok_unask: "waiting_ok (unask r m) st = waiting_ok m st"
  by (simp add: waiting_ok_def)

lemma pending_ok_unask: "pending_ok len n (unask r m) st us = pending_ok len n m st us"
  by (simp add: pending_ok_def)

section \<open>Storing a block\<close>

lemma exists_block_at: "store_wf st \<Longrightarrow> block_at st' = (block_at st)(r \<mapsto> b) \<Longrightarrow> store_wf st' \<Longrightarrow>
    block_exists st' k \<longleftrightarrow> k = r \<or> block_exists st k"
  by (simp add: block_exists_iff)

text \<open>What was pending after a release, and what is in the queue.\<close>

lemma released_parts:
  assumes inv: "pending_ok len n m st (b # us)" "waiting_ok m st"
    and ws: "map_of (bk_waiting m) (reference b) = Some ws" and perm: "set ws' = set ws" "distinct ws'"
    and m0: "m0 = m\<lparr>bk_waiting := AList.delete (reference b) (bk_waiting m)\<rparr>"
    and vs: "vs = rev (filter (bk_ready m0) (map (\<lambda>w. the (map_of (bk_pending m) w)) ws'))"
  shows "set vs = {x. \<exists>w \<in> set ws. map_of (bk_pending m) w = Some x \<and> bk_ready m0 x}"
    and "distinct (map reference vs)"
    and "reference ` set vs = {w \<in> set ws. bk_ready m0 (the (map_of (bk_pending m) w))}"
proof -
  have p: "\<exists>x. map_of (bk_pending m) w = Some x \<and> reference x = w" if "w \<in> set ws" for w
    using waiting_okD(4) [OF inv(2) ws that] pending_okD(1) [OF inv(1)] by blast
  show set_vs: "set vs = {x. \<exists>w \<in> set ws. map_of (bk_pending m) w = Some x \<and> bk_ready m0 x}"
    using p by (force simp: vs perm(1))
  have "map reference (filter (bk_ready m0) (map (\<lambda>w. the (map_of (bk_pending m) w)) xs)) =
      filter (\<lambda>w. bk_ready m0 (the (map_of (bk_pending m) w))) xs" if "set xs \<subseteq> set ws" for xs
    using that
  proof (induction xs)
    case (Cons x xs)
    obtain y where "map_of (bk_pending m) x = Some y" "reference y = x" using p [of x] Cons.prems by auto
    with Cons show ?case by simp
  qed simp
  then have "map reference vs = rev (filter (\<lambda>w. bk_ready m0 (the (map_of (bk_pending m) w))) ws')"
    by (simp add: vs rev_map [symmetric] perm(1))
  then show "distinct (map reference vs)"
    using perm(2) by simp
  show "reference ` set vs = {w \<in> set ws. bk_ready m0 (the (map_of (bk_pending m) w))}"
    unfolding set_vs using p by force
qed

lemma missing_okI:
  assumes "\<And>k. asked m k \<Longrightarrow> map_of (bk_waiting m) k \<noteq> None" "\<And>k. asked m k \<Longrightarrow> map_of (bk_pending m) k = None"
    and "\<And>k. map_of (bk_waiting m) k \<noteq> None \<Longrightarrow> map_of (bk_pending m) k = None \<Longrightarrow>
        k \<notin> reference ` set us \<Longrightarrow> asked m k"
  shows "missing_ok m us"
  using assms unfolding missing_ok_def by blast

lemma missing_okD:
  assumes "missing_ok m us"
  shows "asked m k \<Longrightarrow> map_of (bk_waiting m) k \<noteq> None" "asked m k \<Longrightarrow> map_of (bk_pending m) k = None"
    "map_of (bk_waiting m) k \<noteq> None \<Longrightarrow> map_of (bk_pending m) k = None \<Longrightarrow>
        k \<notin> reference ` set us \<Longrightarrow> asked m k"
  using assms unfolding missing_ok_def by blast+

lemma released_ok_tail:
  assumes ro: "released_ok len n st (b # us)" and ex: "\<And>k. block_exists st' k \<longleftrightarrow> k = reference b \<or> block_exists st k"
    and auth: "bs_authority st' = bs_authority st"
  shows "released_ok len n st' us"
proof -
  have "reference u \<noteq> reference b" if "u \<in> set us" for u
    using ro imageI [OF that, of reference] by (auto simp: released_ok_def)
  then show ?thesis
    using ro by (simp add: released_ok_def ex auth)
qed

lemma manager_inv_stored:
  assumes inv: "manager_inv len n m st end' (b # us)" and na: "\<not> asked m (reference b)"
    and st': "store_wf st'" "log_ok st' end2" "block_at st' = (block_at st)(reference b \<mapsto> b)"
      "bs_authority st' = bs_authority st" "length (bs_last_seen st') = length (bs_last_seen st)"
    and none: "map_of (bk_waiting m) (reference b) = None"
  shows "manager_inv len n m st' end2 us"
proof -
  note i = inv [unfolded manager_inv_def]
  have wf: "store_wf st" and po: "pending_ok len n m st (b # us)" and wo: "waiting_ok m st"
    and ro: "released_ok len n st (b # us)" and mo: "missing_ok m (b # us)" using i by auto
  note ex = exists_block_at [OF wf st'(3,1)]
  have "pending_ok len n m st' us"
    unfolding pending_ok_def
  proof (intro allI impI)
    fix r x assume x: "map_of (bk_pending m) r = Some x"
    note d = pending_okD [OF po x]
    have w: "i \<noteq> reference b" if "i \<in> set (block_includes x)" "\<not> block_exists st i" for i
      using pending_waits [OF po wo x that(1)] that(2) none by auto
    show "reference x = r \<and> \<not> block_exists st' r \<and> admissible len n x \<and> br_authority r \<noteq> bs_authority st' \<and>
        r \<notin> reference ` set us \<and> (\<exists>i \<in> set (block_includes x). \<not> block_exists st' i) \<and>
        (\<forall>i \<in> set (block_includes x). \<not> block_exists st' i \<longrightarrow> r \<in> set (waiters m i))"
    proof (intro conjI)
      show "\<exists>i \<in> set (block_includes x). \<not> block_exists st' i" using d(6) w ex by blast
      show "\<not> block_exists st' r" "r \<notin> reference ` set us" using d(2,5) ex by auto
      show "\<forall>i \<in> set (block_includes x). \<not> block_exists st' i \<longrightarrow> r \<in> set (waiters m i)"
        using d(7) ex by blast
    qed (use d st'(4) in auto)
  qed
  moreover have "waiting_ok m st'"
    unfolding waiting_ok_def
  proof (intro allI impI)
    fix k ws assume k: "map_of (bk_waiting m) k = Some ws"
    note d = waiting_okD [OF wo k]
    have "k \<noteq> reference b" using k none by auto
    then show "\<not> block_exists st' k \<and> ws \<noteq> [] \<and> distinct ws \<and>
        (\<forall>w \<in> set ws. \<exists>b. map_of (bk_pending m) w = Some b \<and> k \<in> set (block_includes b))"
      using d ex by blast
  qed
  moreover have "released_ok len n st' us"
    by (rule released_ok_tail [OF ro ex st'(4)])
  moreover have "missing_ok m us"
  proof (rule missing_okI)
    fix k assume k: "map_of (bk_waiting m) k \<noteq> None" "map_of (bk_pending m) k = None" "k \<notin> reference ` set us"
    then have "k \<noteq> reference b" using none by auto
    with k(3) have "k \<notin> reference ` set (b # us)" by simp
    with k show "asked m k" by (intro missing_okD(3) [OF mo])
  qed (rule missing_okD [OF mo], assumption)+
  ultimately show ?thesis
    using st' i by (simp add: manager_inv_def sized_def)
qed

lemma manager_inv_released:
  assumes inv: "manager_inv len n m st end' (b # us)" and na: "\<not> asked m (reference b)"
    and st': "store_wf st'" "log_ok st' end2" "block_at st' = (block_at st)(reference b \<mapsto> b)"
      "bs_authority st' = bs_authority st" "length (bs_last_seen st') = length (bs_last_seen st)"
    and ws: "map_of (bk_waiting m) (reference b) = Some ws" and perm: "set ws' = set ws" "distinct ws'"
    and m0: "m0 = m\<lparr>bk_waiting := AList.delete (reference b) (bk_waiting m)\<rparr>"
    and vs: "vs = rev (filter (bk_ready m0) (map (\<lambda>w. the (map_of (bk_pending m) w)) ws'))"
    and m': "hm_wf (bk_pending m')" "bk_waiting m' = bk_waiting m0" "bk_missing m' = bk_missing m0"
      "\<forall>r. map_of (bk_pending m') r =
         (if r \<in> set ws' \<and> bk_ready m0 (the (map_of (bk_pending m0) r)) then None else map_of (bk_pending m0) r)"
  shows "manager_inv len n m' st' end2 (vs @ us)"
proof -
  note i = inv [unfolded manager_inv_def]
  have wf: "store_wf st" and po: "pending_ok len n m st (b # us)" and wo: "waiting_ok m st"
    and ro: "released_ok len n st (b # us)" and mo: "missing_ok m (b # us)" and sz: "sized n m st"
    using i by auto
  note ex = exists_block_at [OF wf st'(3,1)] and parts = released_parts [OF po wo ws perm m0 vs]
  have pend: "map_of (bk_pending m') r =
      (if r \<in> reference ` set vs then None else map_of (bk_pending m) r)" for r
    using m'(4) by (auto simp: parts(3) perm(1) m0)
  have wait: "map_of (bk_waiting m') k = (if k = reference b then None else map_of (bk_waiting m) k)" for k
    by (simp add: m'(2) m0)
  have wtrs: "waiters m' k = (if k = reference b then [] else waiters m k)" for k
    by (simp add: waiters_def wait)
  have ready: "bk_ready m0 x \<longleftrightarrow> (\<forall>i \<in> set (block_includes x). i = reference b \<or> map_of (bk_waiting m) i = None)" for x
    by (auto simp: bk_ready_def m0)
  have "pending_ok len n m' st' (vs @ us)"
    unfolding pending_ok_def
  proof (intro allI impI)
    fix r x assume "map_of (bk_pending m') r = Some x"
    then have x: "map_of (bk_pending m) r = Some x" and nvs: "r \<notin> reference ` set vs"
      by (auto simp: pend split: if_splits)
    note d = pending_okD [OF po x] and pw = pending_waits [OF po wo x]
    have stuck: "\<exists>i \<in> set (block_includes x). i \<noteq> reference b \<and> \<not> block_exists st i"
    proof (cases "r \<in> set ws")
      case True
      with nvs x have "\<not> bk_ready m0 x" by (simp add: parts(3))
      then show ?thesis using pw by (auto simp: ready)
    next
      case False
      then have "r \<notin> set (waiters m (reference b))" using ws by (simp add: waiters_def)
      then show ?thesis using d(6) d(7) [of "reference b"] by metis
    qed
    show "reference x = r \<and> \<not> block_exists st' r \<and> admissible len n x \<and> br_authority r \<noteq> bs_authority st' \<and>
        r \<notin> reference ` set (vs @ us) \<and> (\<exists>i \<in> set (block_includes x). \<not> block_exists st' i) \<and>
        (\<forall>i \<in> set (block_includes x). \<not> block_exists st' i \<longrightarrow> r \<in> set (waiters m' i))"
    proof (intro conjI)
      show "\<exists>i \<in> set (block_includes x). \<not> block_exists st' i" using stuck ex by blast
      show "\<not> block_exists st' r" "r \<notin> reference ` set (vs @ us)" using d(2,5) ex nvs by auto
      show "\<forall>i \<in> set (block_includes x). \<not> block_exists st' i \<longrightarrow> r \<in> set (waiters m' i)"
        using d(7) ex wtrs by auto
    qed (use d st'(4) in auto)
  qed
  moreover have "waiting_ok m' st'"
    unfolding waiting_ok_def
  proof (intro allI impI)
    fix k us' assume "map_of (bk_waiting m') k = Some us'"
    then have kb: "k \<noteq> reference b" and k: "map_of (bk_waiting m) k = Some us'"
      by (auto simp: wait split: if_splits)
    note d = waiting_okD [OF wo k]
    have "\<exists>x. map_of (bk_pending m') w = Some x \<and> k \<in> set (block_includes x)" if "w \<in> set us'" for w
    proof -
      from d(4) [OF that] obtain x where x: "map_of (bk_pending m) w = Some x" "k \<in> set (block_includes x)" by blast
      then have "\<not> bk_ready m0 x" using k kb by (auto simp: ready)
      then have "w \<notin> reference ` set vs" using x(1) by (simp add: parts(3))
      then show ?thesis using x by (simp add: pend)
    qed
    then show "\<not> block_exists st' k \<and> us' \<noteq> [] \<and> distinct us' \<and>
        (\<forall>w \<in> set us'. \<exists>b. map_of (bk_pending m') w = Some b \<and> k \<in> set (block_includes b))"
      using d(1-3) ex kb by blast
  qed
  moreover have "released_ok len n st' (vs @ us)"
    unfolding released_ok_def
  proof (intro conjI ballI)
    have old: "\<exists>w x. map_of (bk_pending m) w = Some x \<and> x = v \<and> bk_ready m0 v" if "v \<in> set vs" for v
      using that by (auto simp: parts(1))
    have "reference ` set vs \<inter> reference ` set us = {}"
      using old pending_okD(1,5) [OF po] by fastforce
    then show "distinct (map reference (vs @ us))"
      using parts(2) ro by (auto simp: released_ok_def)
    fix u assume "u \<in> set (vs @ us)"
    then consider "u \<in> set us" | x where "u \<in> set vs" "map_of (bk_pending m) x = Some u" "bk_ready m0 u"
      using old by auto
    then have "\<not> block_exists st' (reference u) \<and> admissible len n u \<and> block_author u \<noteq> bs_authority st' \<and>
        (\<forall>i \<in> set (block_includes u). block_exists st' i)"
    proof cases
      case 1
      then show ?thesis using released_ok_tail [OF ro ex st'(4)] by (simp add: released_ok_def)
    next
      case 2
      note d = pending_okD [OF po 2(2)]
      have "block_exists st' i" if "i \<in> set (block_includes u)" for i
        using 2(3) that pending_waits [OF po wo 2(2) that] ex by (auto simp: ready)
      then show ?thesis using d ex st'(4) by (auto simp: block_author_def)
    qed
    then show "\<not> block_exists st' (reference u)" "admissible len n u" "block_author u \<noteq> bs_authority st'"
      "\<And>i. i \<in> set (block_includes u) \<Longrightarrow> block_exists st' i" by auto
  qed
  moreover have "missing_ok m' (vs @ us)"
  proof -
    have ask: "asked m' k = asked m k" for k by (simp add: asked_def m'(3) m0)
    show ?thesis
    proof (rule missing_okI)
      fix k assume "asked m' k"
      then have "asked m k" "k \<noteq> reference b" using na by (auto simp: ask)
      from missing_okD(1,2) [OF mo this(1)] this(2)
      show "map_of (bk_waiting m') k \<noteq> None" "map_of (bk_pending m') k = None"
        by (simp_all add: wait pend)
    next
      fix k assume k: "map_of (bk_waiting m') k \<noteq> None" "map_of (bk_pending m') k = None"
        "k \<notin> reference ` set (vs @ us)"
      then have "k \<noteq> reference b" "map_of (bk_waiting m) k \<noteq> None" "k \<notin> reference ` set vs"
        "k \<notin> reference ` set us"
        by (auto simp: wait split: if_splits)
      then show "asked m' k"
        unfolding ask using k(2) by (intro missing_okD(3) [OF mo]) (simp_all add: pend)
    qed
  qed
  moreover have "sized n m' st'"
    using sz st'(5) m'(1) by (simp add: sized_def m'(2,3) m0)
  ultimately show ?thesis
    using st' by (simp add: manager_inv_def)
qed

section \<open>Holding a block back\<close>

lemma manager_inv_unask:
  assumes "manager_inv len n m st end' us" "br_authority r < n" "r \<in> reference ` set us \<or> map_of (bk_waiting m) r = None"
  shows "manager_inv len n (unask r m) st end' us"
proof -
  note i = assms(1) [unfolded manager_inv_def]
  then have sz: "sized n m st" and mo: "missing_ok m us" by auto
  have "missing_ok (unask r m) us"
  proof (rule missing_okI)
    fix k assume "asked (unask r m) k"
    then have k: "asked m k" by (simp add: asked_unask [OF sz assms(2)])
    show "map_of (bk_waiting (unask r m)) k \<noteq> None" "map_of (bk_pending (unask r m)) k = None"
      using missing_okD(1,2) [OF mo k] by simp_all
  next
    fix k assume k: "map_of (bk_waiting (unask r m)) k \<noteq> None" "map_of (bk_pending (unask r m)) k = None"
      "k \<notin> reference ` set us"
    then have "asked m k" by (intro missing_okD(3) [OF mo]) simp_all
    moreover have "k \<noteq> r" using k assms(3) by auto
    ultimately show "asked (unask r m) k" by (simp add: asked_unask [OF sz assms(2)])
  qed
  then show ?thesis
    using i unask_sized [OF sz] by (simp add: manager_inv_def pending_ok_unask waiting_ok_unask)
qed

lemma manager_inv_parked:
  assumes inv: "manager_inv len n m st end' []" and b: "\<not> block_exists st (reference b)"
      "map_of (bk_pending m) (reference b) = None" "admissible len n b" "block_author b \<noteq> bs_authority st"
      "\<exists>i \<in> set (block_includes b). \<not> block_exists st i"
    and ni: "note_includes st (reference b) (block_includes b) (True, m, new) = Some (p, m1, new1)"
    and m2: "m2 = (unask (reference b) m1)\<lparr>bk_pending := AList.update (reference b) b (bk_pending m1)\<rparr>"
  shows "manager_inv len n m2 st end' []"
proof -
  let ?r = "reference b"
  note i = inv [unfolded manager_inv_def]
  have po: "pending_ok len n m st []" and wo: "waiting_ok m st" and mo: "missing_ok m []" and sz: "sized n m st"
    using i by auto
  have len: "length (bk_missing m) = n" using sz by (simp add: sized_def)
  have "\<forall>i \<in> set (block_includes b). br_authority i < length (bk_missing m)" "hm_wf (bk_waiting m)"
    "\<forall>xs \<in> set (bk_missing m). distinct xs"
    using b(3) sz by (auto simp: sized_def admissible_def)
  from note_includes_spec [OF this, of st ?r True new, unfolded ni] have
    m1: "hm_wf (bk_waiting m1)" "bk_pending m1 = bk_pending m"
      "\<And>k. map_of (bk_waiting m1) k = (if k \<in> set (block_includes b) \<and> \<not> block_exists st k
          then Some (List.insert ?r (waiters m k)) else map_of (bk_waiting m) k)"
      "length (bk_missing m1) = n" "\<forall>xs \<in> set (bk_missing m1). distinct xs"
      "\<And>a. a < n \<Longrightarrow> set (bk_missing m1 ! a) = set (bk_missing m ! a) \<union>
        {k \<in> set (block_includes b). \<not> block_exists st k \<and> map_of (bk_pending m) k = None \<and> br_authority k = a}"
    unfolding len by auto
  have wtrs: "set (waiters m1 k) = (if k \<in> set (block_includes b) \<and> \<not> block_exists st k
      then insert ?r (set (waiters m k)) else set (waiters m k))" for k
  proof -
    have "waiters m1 k = (if k \<in> set (block_includes b) \<and> \<not> block_exists st k
        then List.insert ?r (waiters m k) else waiters m k)"
      by (simp add: waiters_def [of m1] m1(3)) (simp add: waiters_def)
    then show ?thesis by simp
  qed
  have sz1: "sized n m1 st"
    using sz m1(1,4,5,6) by (auto simp: sized_def m1(2))
  have ask1: "asked m1 k \<longleftrightarrow> asked m k \<or> br_authority k < n \<and> k \<in> set (block_includes b) \<and>
      \<not> block_exists st k \<and> map_of (bk_pending m) k = None" for k
    using m1(6) len by (auto simp: asked_def m1(4))
  have rn: "br_authority ?r < n" using b(3) by (simp add: admissible_def block_author_def)
  have w2: "bk_waiting m2 = bk_waiting m1" "waiters m2 = waiters m1"
    by (simp_all add: m2 waiters_def fun_eq_iff unask_def)
  have p2: "map_of (bk_pending m2) = (map_of (bk_pending m))(?r \<mapsto> b)" by (simp add: m2 m1(2))
  have ask2: "asked m2 k \<longleftrightarrow> k \<noteq> ?r \<and> asked m1 k" for k
    using asked_unask [OF sz1 rn, of k] by (simp add: m2 asked_def)
  have "sized n m2 st"
    using unask_sized [OF sz1, of ?r] by (simp add: m2 sized_def m1(2))
  moreover have "pending_ok len n m2 st []"
    unfolding pending_ok_def
  proof (intro allI impI)
    fix r x assume x: "map_of (bk_pending m2) r = Some x"
    show "reference x = r \<and> \<not> block_exists st r \<and> admissible len n x \<and> br_authority r \<noteq> bs_authority st \<and>
        r \<notin> reference ` set [] \<and> (\<exists>i \<in> set (block_includes x). \<not> block_exists st i) \<and>
        (\<forall>i \<in> set (block_includes x). \<not> block_exists st i \<longrightarrow> r \<in> set (waiters m2 i))"
    proof (cases "r = ?r")
      case True
      then show ?thesis using x b by (simp add: p2 w2 wtrs block_author_def)
    next
      case False
      then have "map_of (bk_pending m) r = Some x" using x by (simp add: p2)
      note d = pending_okD [OF po this]
      show ?thesis using d(1-4,6) d(7) by (simp add: w2 wtrs)
    qed
  qed
  moreover have "waiting_ok m2 st"
    unfolding waiting_ok_def w2 m1(3)
  proof (intro allI impI)
    fix k ws
    assume k: "(if k \<in> set (block_includes b) \<and> \<not> block_exists st k
        then Some (List.insert ?r (waiters m k)) else map_of (bk_waiting m) k) = Some ws"
    have old: "\<not> block_exists st k \<and> xs \<noteq> [] \<and> distinct xs \<and>
        (\<forall>w \<in> set xs. \<exists>x. map_of (bk_pending m2) w = Some x \<and> k \<in> set (block_includes x))"
      if "map_of (bk_waiting m) k = Some xs" for xs
      using waiting_okD [OF wo that] b(2) unfolding p2 by (metis fun_upd_apply option.distinct(1))
    show "\<not> block_exists st k \<and> ws \<noteq> [] \<and> distinct ws \<and>
        (\<forall>w \<in> set ws. \<exists>x. map_of (bk_pending m2) w = Some x \<and> k \<in> set (block_includes x))"
    proof (cases "k \<in> set (block_includes b) \<and> \<not> block_exists st k")
      case True
      then have ws: "ws = List.insert ?r (waiters m k)" using k by simp
      have "distinct (waiters m k) \<and>
          (\<forall>w \<in> set (waiters m k). \<exists>x. map_of (bk_pending m2) w = Some x \<and> k \<in> set (block_includes x))"
        using old by (cases "map_of (bk_waiting m) k") (simp_all add: waiters_def)
      then show ?thesis using True by (auto simp: ws p2 List.insert_def split: if_splits)
    next
      case False
      then have "map_of (bk_waiting m) k = Some ws" using k by presburger
      then show ?thesis by (rule old)
    qed
  qed
  moreover have "missing_ok m2 []"
  proof (rule missing_okI)
    fix k assume "asked m2 k"
    then have "k \<noteq> ?r" "asked m1 k" by (simp_all add: ask2)
    then show "map_of (bk_waiting m2) k \<noteq> None" "map_of (bk_pending m2) k = None"
      using missing_okD(1,2) [OF mo, of k] by (auto simp: ask1 w2 m1(3) p2)
  next
    fix k assume k: "map_of (bk_waiting m2) k \<noteq> None" "map_of (bk_pending m2) k = None"
    then have kr: "k \<noteq> ?r" and pk: "map_of (bk_pending m) k = None" by (auto simp: p2 split: if_splits)
    have "asked m1 k"
    proof (cases "k \<in> set (block_includes b) \<and> \<not> block_exists st k")
      case True
      then show ?thesis using b(3) pk by (simp add: ask1 admissible_def)
    next
      case False
      then have "map_of (bk_waiting m) k \<noteq> None" using k(1) unfolding w2 m1(3) by presburger
      then show ?thesis using missing_okD(3) [OF mo _ pk] by (simp add: ask1)
    qed
    then show "asked m2 k" using kr by (simp add: ask2)
  qed
  ultimately show ?thesis
    using i by (simp add: manager_inv_def)
qed

end
