(* ===== verification/MystiManagerRuns.thy ===== *)
theory MystiManagerRuns
  imports MystiCausal MystiClock
begin

text \<open>
  The loop of the block manager and sequences of calls: what is accepted, what is held back and
  what is asked for.
\<close>

section \<open>One turn of the loop\<close>

text \<open>
  A block that may be offered: an admissible one, and not a block of the node's own authority
  that its store does not have.
\<close>

definition offered :: "(statement_block \<Rightarrow> nat) \<Rightarrow> nat \<Rightarrow> block_store \<Rightarrow> statement_block \<Rightarrow> bool" where
  "offered len n st b \<longleftrightarrow> admissible len n b \<and>
     (block_author b = bs_authority st \<longrightarrow> block_exists st (reference b))"

definition stored :: "block_store \<Rightarrow> block_reference set" where
  "stored st = {r. block_exists st r}"

definition held :: "block_manager \<Rightarrow> block_store \<Rightarrow> block_reference set" where
  "held m st = {r. exists_or_pending m st r}"

lemma held_unask [simp]: "held (unask r m) st = held m st"
  by (simp add: held_def exists_or_pending_def)

text \<open>The blocks are new and come after their includes.\<close>

fun causal_from :: "block_reference set \<Rightarrow> statement_block list \<Rightarrow> bool" where
  "causal_from S [] \<longleftrightarrow> True"
| "causal_from S (b # bs) \<longleftrightarrow> reference b \<notin> S \<and> set (block_includes b) \<subseteq> S \<and>
     causal_from (insert (reference b) S) bs"

lemma causal_from_append:
  "causal_from S (bs @ cs) \<longleftrightarrow> causal_from S bs \<and> causal_from (S \<union> reference ` set bs) cs"
  by (induction bs arbitrary: S) simp_all

lemma causal_from_distinct: "causal_from S bs \<Longrightarrow> distinct (map reference bs) \<and> reference ` set bs \<inter> S = {}"
proof (induction bs arbitrary: S)
  case (Cons b bs)
  from Cons.IH [of "insert (reference b) S"] Cons.prems show ?case by auto
qed simp

definition put_blocks :: "statement_block list \<Rightarrow> (block_reference \<rightharpoonup> statement_block) \<Rightarrow> (block_reference \<rightharpoonup> statement_block)" where
  "put_blocks bs f = foldl (\<lambda>f b. f(reference b \<mapsto> b)) f bs"

lemma put_blocks_append [simp]: "put_blocks (bs @ [b]) f = (put_blocks bs f)(reference b \<mapsto> b)"
  by (simp add: put_blocks_def)

text \<open>What a turn of the loop keeps, seen from the start of the call.\<close>

definition turn_ok :: "(statement_block \<Rightarrow> nat) \<Rightarrow> nat \<Rightarrow> manager_run \<Rightarrow> manager_run \<Rightarrow> statement_block list \<Rightarrow>
    statement_block list \<Rightarrow> bool" where
  "turn_ok len n s0 s us rest \<longleftrightarrow> mr_queue s = us @ rest \<and>
     manager_inv len n (mr_manager s) (mr_store s) (mr_end s) us \<and>
     (\<forall>b \<in> set rest. offered len n (mr_store s) b) \<and>
     reference ` set (mr_queue s) \<union> held (mr_manager s) (mr_store s) =
       reference ` set (mr_queue s0) \<union> held (mr_manager s0) (mr_store s0) \<and>
     bs_authority (mr_store s) = bs_authority (mr_store s0) \<and>
     stored (mr_store s) = stored (mr_store s0) \<union> reference ` set (map snd (mr_processed s)) \<and>
     block_at (mr_store s) = put_blocks (map snd (mr_processed s)) (block_at (mr_store s0)) \<and>
     causal_from (stored (mr_store s0)) (map snd (mr_processed s))"

lemma accept_block_spec:
  assumes t: "turn_ok len n s0 (s\<lparr>mr_queue := b # us @ rest\<rparr>) (b # us) rest" and na: "\<not> asked (mr_manager s) (reference b)"
    and q: "mr_queue s = us @ rest" and order: "\<forall>xs. mset (order xs) = mset xs"
  shows "\<exists>s' us'. accept_block order len b s = Some s' \<and> turn_ok len n s0 s' us' rest"
proof -
  let ?st = "mr_store s" and ?m = "mr_manager s" and ?r = "reference b"
  note t' = t [unfolded turn_ok_def, simplified]
  have inv: "manager_inv len n ?m ?st (mr_end s) (b # us)" using t' by auto
  note i = inv [unfolded manager_inv_def]
  have wf: "store_wf ?st" and po: "pending_ok len n ?m ?st (b # us)" and wo: "waiting_ok ?m ?st"
    and ro: "released_ok len n ?st (b # us)" and sz: "sized n ?m ?st" and lg: "log_ok ?st (mr_end s)"
    using i by auto
  have adm: "admissible len n b" and own: "block_author b \<noteq> bs_authority ?st" and nex: "\<not> block_exists ?st ?r"
    and inc: "\<forall>i \<in> set (block_includes b). block_exists ?st i"
    using ro by (auto simp: released_ok_def)
  have "wal_write (len b) (mr_end s) \<noteq> None"
    using adm wal_write_Some [of "len b" "mr_end s"] by (simp add: admissible_def)
  then obtain pos end2 where w: "wal_write (len b) (mr_end s) = Some (pos, end2)" by auto
  have a: "block_author b < length (bs_last_seen ?st)" using adm sz by (simp add: admissible_def sized_def)
  obtain st' where st': "writer_insert_block pos b ?st = Some st'" "store_wf st'" "log_ok st' end2"
    "block_at st' = (block_at ?st)(?r \<mapsto> b)" "bs_authority st' = bs_authority ?st"
    "length (bs_last_seen st') = length (bs_last_seen ?st)"
    using writer_insert_spec [OF wf lg w a] own by auto
  note ex = exists_block_at [OF wf st'(4,2)]
  define s1 where "s1 = s\<lparr>mr_store := st', mr_end := end2, mr_processed := mr_processed s @ [(pos, b)]\<rparr>"
  have st_new: "stored st' = insert ?r (stored ?st)" using ex by (auto simp: stored_def)
  have rest: "\<forall>x \<in> set rest. offered len n st' x"
    using t' ex st'(5) by (auto simp: offered_def)
  have causal: "causal_from (stored (mr_store s0)) (map snd (mr_processed s) @ [b])"
  proof -
    have "stored ?st = stored (mr_store s0) \<union> reference ` set (map snd (mr_processed s))"
      "causal_from (stored (mr_store s0)) (map snd (mr_processed s))"
      using t unfolding turn_ok_def by simp_all
    moreover have "?r \<notin> stored ?st" "set (block_includes b) \<subseteq> stored ?st"
      using nex inc by (auto simp: stored_def)
    ultimately show ?thesis by (simp add: causal_from_append)
  qed
  have common: "turn_ok len n s0 (s1\<lparr>mr_manager := m', mr_queue := vs @ us @ rest\<rparr>) (vs @ us) rest"
    if m': "manager_inv len n m' st' end2 (vs @ us)"
      "reference ` set vs \<union> dom (map_of (bk_pending m')) = dom (map_of (bk_pending ?m))" for m' vs
  proof -
    have "reference ` set (vs @ us @ rest) \<union> held m' st' =
        reference ` set (b # us @ rest) \<union> held ?m ?st"
      using m'(2) ex by (auto simp: held_def exists_or_pending_def)
    then show ?thesis
      using m'(1) t' rest causal st'(4,5) st_new by (simp add: turn_ok_def s1_def)
  qed
  show ?thesis
  proof (cases "map_of (bk_waiting ?m) ?r")
    case None
    then have "accept_block order len b s = Some (s1\<lparr>mr_manager := ?m, mr_queue := [] @ us @ rest\<rparr>)"
      using w st'(1) q by (simp add: accept_block_def Let_def s1_def)
    moreover have "manager_inv len n ?m st' end2 ([] @ us)"
      using manager_inv_stored [OF inv na st'(2-6) None] by simp
    ultimately show ?thesis using common [of ?m "[]"] by auto
  next
    case (Some ws)
    define m0 where "m0 = ?m\<lparr>bk_waiting := AList.delete ?r (bk_waiting ?m)\<rparr>"
    have perm: "set (order ws) = set ws" "distinct (order ws)"
      using order waiting_okD(2) [OF wo Some] by (metis mset_eq_setD, metis mset_eq_imp_distinct_iff)
    define vs where "vs = rev (filter (bk_ready m0) (map (\<lambda>w. the (map_of (bk_pending ?m) w)) (order ws)))"
    have "hm_wf (bk_pending m0)" using sz by (simp add: m0_def sized_def)
    moreover have "\<forall>w \<in> set (order ws). map_of (bk_pending m0) w \<noteq> None"
      using waiting_okD(4) [OF wo Some] by (fastforce simp: perm(1) m0_def)
    ultimately obtain m' where m': "release (order ws) m0 (mr_queue s) = Some (m', vs @ mr_queue s)"
      "hm_wf (bk_pending m')" "bk_waiting m' = bk_waiting m0" "bk_missing m' = bk_missing m0"
      "\<forall>r. map_of (bk_pending m') r =
         (if r \<in> set (order ws) \<and> bk_ready m0 (the (map_of (bk_pending m0) r)) then None else map_of (bk_pending m0) r)"
      using release_spec [of m0 "order ws" "mr_queue s"] perm(2) by (auto simp: vs_def m0_def)
    have "accept_block order len b s = Some (s1\<lparr>mr_manager := m', mr_queue := vs @ us @ rest\<rparr>)"
      using w st'(1) q m'(1) Some by (simp add: accept_block_def Let_def s1_def m0_def)
    moreover have "manager_inv len n m' st' end2 (vs @ us)"
      by (rule manager_inv_released [OF inv na st'(2-6) Some perm m0_def vs_def m'(2-5)])
    moreover have "reference ` set vs \<union> dom (map_of (bk_pending m')) = dom (map_of (bk_pending ?m))"
    proof -
      have p: "r \<in> dom (map_of (bk_pending ?m))" if "r \<in> set ws" for r
        using waiting_okD(4) [OF wo Some that] by auto
      have refs: "reference ` set vs = {r \<in> set ws. bk_ready m0 (the (map_of (bk_pending ?m) r))}"
        by (rule released_parts(3) [OF po wo Some perm m0_def vs_def])
      have "dom (map_of (bk_pending m')) = dom (map_of (bk_pending ?m)) - reference ` set vs"
        unfolding refs
      proof (intro set_eqI)
        fix r
        have "map_of (bk_pending m') r = (if r \<in> set ws \<and> bk_ready m0 (the (map_of (bk_pending ?m) r))
            then None else map_of (bk_pending ?m) r)"
          using m'(5) [THEN spec, of r] by (simp add: m0_def perm(1))
        then show "r \<in> dom (map_of (bk_pending m')) \<longleftrightarrow> r \<in> dom (map_of (bk_pending ?m)) -
            {w \<in> set ws. bk_ready m0 (the (map_of (bk_pending ?m) w))}"
          by (simp add: domIff)
      qed
      then show ?thesis using p unfolding refs by blast
    qed
    ultimately show ?thesis using common by blast
  qed
qed

lemma manager_step_spec:
  assumes t: "turn_ok len n s0 s us rest" and q: "mr_queue s = b # bs"
    and order: "\<forall>xs. mset (order xs) = mset xs"
  shows "\<exists>s' us' rest'. manager_step order len b (s\<lparr>mr_queue := bs\<rparr>) = Some s' \<and> turn_ok len n s0 s' us' rest'"
proof -
  let ?st = "mr_store s" and ?m = "mr_manager s" and ?r = "reference b"
  note t' = t [unfolded turn_ok_def]
  have inv: "manager_inv len n ?m ?st (mr_end s) us" and qs: "mr_queue s = us @ rest"
    and off: "\<forall>x \<in> set rest. offered len n ?st x" using t' by blast+
  note i = inv [unfolded manager_inv_def]
  have po: "pending_ok len n ?m ?st us" and wo: "waiting_ok ?m ?st" and sz: "sized n ?m ?st"
    and ro: "released_ok len n ?st us" and mo: "missing_ok ?m us" using i by auto
  show ?thesis
  proof (cases "block_exists ?st ?r \<or> map_of (bk_pending ?m) ?r \<noteq> None")
    case True
    then have step: "manager_step order len b (s\<lparr>mr_queue := bs\<rparr>) = Some (s\<lparr>mr_queue := bs\<rparr>)"
      by (simp add: manager_step_def)
    have us: "us = []"
    proof (rule ccontr)
      assume "us \<noteq> []"
      then have "b \<in> set us" using q qs by (cases us) auto
      then have "?r \<in> reference ` set us" "\<not> block_exists ?st ?r" using ro by (auto simp: released_ok_def)
      then show False using True pending_okD(5) [OF po] by blast
    qed
    have "?r \<in> held ?m ?st" using True by (simp add: held_def exists_or_pending_def)
    moreover have rest: "rest = b # bs" using q qs us by simp
    ultimately have "turn_ok len n s0 (s\<lparr>mr_queue := bs\<rparr>) [] bs"
      using t' q us unfolding rest by (simp add: turn_ok_def insert_absorb)
    with step show ?thesis by blast
  next
    case False
    have fresh: "admissible len n b \<and> block_author b \<noteq> bs_authority ?st"
    proof (cases us)
      case Nil
      then show ?thesis using q qs off False by (auto simp: offered_def)
    next
      case (Cons u us')
      then show ?thesis using q qs ro by (auto simp: released_ok_def)
    qed
    have len: "length (bk_missing ?m) = n" using sz by (simp add: sized_def)
    have rn: "br_authority ?r < n" using fresh by (simp add: admissible_def block_author_def)
    show ?thesis
    proof (cases "\<forall>i \<in> set (block_includes b). block_exists ?st i")
      case True
      let ?s = "s\<lparr>mr_queue := bs, mr_manager := unask ?r ?m\<rparr>"
      have step: "manager_step order len b (s\<lparr>mr_queue := bs\<rparr>) = accept_block order len b ?s"
        using False note_includes_none_missing [OF True] len rn
        by (simp add: manager_step_def Let_def unask_def)
      obtain us' rest' where us': "b # bs = (b # us') @ rest'" "set rest' \<subseteq> set rest"
        "manager_inv len n ?m ?st (mr_end s) (b # us')"
      proof (cases us)
        case Nil
        have rest: "rest = b # bs" using q qs Nil by simp
        have one: "manager_inv len n ?m ?st (mr_end s) [b]"
        proof -
          have "pending_ok len n ?m ?st [b]"
            using po False by (auto simp: pending_ok_def Nil)
          moreover have "released_ok len n ?st [b]"
            using False True fresh by (simp add: released_ok_def)
          moreover have "missing_ok ?m [b]"
            by (rule missing_okI) (rule missing_okD [OF mo], simp_all add: Nil)+
          ultimately show ?thesis using i by (simp add: manager_inv_def)
        qed
        show ?thesis by (rule that [of "[]" bs]) (auto simp: rest one)
      next
        case (Cons u us')
        then have u: "u = b" "bs = us' @ rest" using q qs by simp_all
        show ?thesis by (rule that [of us' rest]) (use inv in \<open>simp_all add: u Cons\<close>)
      qed
      have "manager_inv len n (unask ?r ?m) ?st (mr_end s) (b # us')"
        by (rule manager_inv_unask [OF us'(3) rn]) simp
      moreover have "\<forall>x \<in> set rest'. offered len n ?st x" using off us'(2) by blast
      moreover have qb: "mr_queue s = b # us' @ rest'" using q us'(1) by simp
      moreover have "reference ` set (b # us' @ rest') \<union> held ?m ?st =
          reference ` set (mr_queue s0) \<union> held (mr_manager s0) (mr_store s0)"
        using t' unfolding qb by (elim conjE)
      ultimately have "turn_ok len n s0 (?s\<lparr>mr_queue := b # us' @ rest'\<rparr>) (b # us') rest'"
        using t' unfolding turn_ok_def by (simp only: held_unask manager_run.simps) simp
      moreover have "\<not> asked (mr_manager ?s) ?r"
        using asked_unask [OF sz rn] by simp
      moreover have "mr_queue ?s = us' @ rest'" using us'(1) by simp
      ultimately show ?thesis
        unfolding step using accept_block_spec order by blast
    next
      case nall: False
      have us: "us = []"
      proof (rule ccontr)
        assume "us \<noteq> []"
        then have "b \<in> set us" using q qs by (cases us) auto
        then show False using ro nall by (auto simp: released_ok_def)
      qed
      have pre: "\<forall>i \<in> set (block_includes b). br_authority i < length (bk_missing ?m)" "hm_wf (bk_waiting ?m)"
        "\<forall>xs \<in> set (bk_missing ?m). distinct xs"
        using fresh sz by (auto simp: sized_def admissible_def)
      from note_includes_spec [OF pre, of ?st ?r True "mr_missing s"] nall obtain m1 new1 where
        ni: "note_includes ?st ?r (block_includes b) (True, ?m, mr_missing s) = Some (False, m1, new1)"
        "length (bk_missing m1) = n" "bk_pending m1 = bk_pending ?m"
        unfolding len by (elim exE conjE) simp
      define m2 where "m2 = (unask ?r m1)\<lparr>bk_pending := AList.update ?r b (bk_pending m1)\<rparr>"
      have step: "manager_step order len b (s\<lparr>mr_queue := bs\<rparr>) =
          Some (s\<lparr>mr_queue := bs, mr_manager := m2, mr_missing := new1\<rparr>)"
        using False ni rn by (simp add: manager_step_def Let_def unask_def m2_def)
      have "manager_inv len n m2 ?st (mr_end s) []"
        by (rule manager_inv_parked [OF inv [unfolded us] _ _ _ _ _ ni(1) m2_def])
          (use False fresh nall in auto)
      moreover have "held m2 ?st = insert ?r (held ?m ?st)"
        by (auto simp: held_def exists_or_pending_def m2_def ni(3))
      moreover have rest: "rest = b # bs" using q qs us by simp
      ultimately have "turn_ok len n s0 (s\<lparr>mr_queue := bs, mr_manager := m2, mr_missing := new1\<rparr>) [] bs"
        using t' q us unfolding rest by (simp add: turn_ok_def)
      with step show ?thesis by blast
    qed
  qed
qed

lemma manager_loop_spec:
  assumes "turn_ok len n s0 s us rest" and order: "\<forall>xs. mset (order xs) = mset xs"
  shows "\<exists>s'. manager_loop order len s = Some s' \<and> turn_ok len n s0 s' [] []"
  using assms
proof (induction order len s arbitrary: us rest rule: manager_loop.induct)
  case (1 order len s)
  show ?case
  proof (cases "mr_queue s")
    case Nil
    then have "us = []" "rest = []" using 1(2) by (auto simp: turn_ok_def)
    then show ?thesis using 1(2) Nil by (simp add: manager_loop.simps [of order len s])
  next
    case (Cons b bs)
    from manager_step_spec [OF 1(2) Cons 1(3)] obtain s' us' rest' where
      s': "manager_step order len b (s\<lparr>mr_queue := bs\<rparr>) = Some s'" "turn_ok len n s0 s' us' rest'" by blast
    from 1(1) [OF Cons s'(1,2) 1(3)] show ?thesis
      by (simp add: manager_loop.simps [of order len s] Cons s'(1))
  qed
qed

section \<open>A call\<close>

lemma bk_add_blocks_spec:
  assumes inv: "manager_inv len n m st end' []" and off: "\<forall>b \<in> set bs. offered len n st b"
    and order: "\<forall>xs. mset (order xs) = mset xs"
  shows "\<exists>new missing m' st' end2. bk_add_blocks order len bs (m, st, end') = Some ((new, missing), m', st', end2) \<and>
     manager_inv len n m' st' end2 [] \<and> held m' st' = held m st \<union> reference ` set bs \<and>
     bs_authority st' = bs_authority st \<and>
     stored st' = stored st \<union> reference ` set (map snd new) \<and>
     block_at st' = put_blocks (map snd new) (block_at st) \<and> causal_from (stored st) (map snd new)"
proof -
  let ?s0 = "manager_start bs m st end'"
  have "turn_ok len n ?s0 ?s0 [] (sort_key block_round bs)"
    using inv off by (simp add: turn_ok_def manager_start_def put_blocks_def)
  from manager_loop_spec [OF this order] obtain s' where
    s': "manager_loop order len ?s0 = Some s'" "turn_ok len n ?s0 s' [] []" by blast
  then show ?thesis
    by (simp add: bk_add_blocks_def turn_ok_def) (auto simp: manager_start_def)
qed

section \<open>Sequences of calls\<close>

fun bk_run :: "(block_reference list \<Rightarrow> block_reference list) \<Rightarrow> (statement_block \<Rightarrow> nat) \<Rightarrow>
    statement_block list list \<Rightarrow> block_manager \<times> block_store \<times> nat \<Rightarrow>
    ((nat \<times> statement_block) list \<times> block_manager \<times> block_store \<times> nat) option" where
  "bk_run order len [] s = Some ([], s)"
| "bk_run order len (bs # bss) s = (case bk_add_blocks order len bs s of
     None \<Rightarrow> None
   | Some ((new, missing), s') \<Rightarrow> map_option (\<lambda>(more, s''). (new @ more, s'')) (bk_run order len bss s'))"

lemma put_blocks_app: "put_blocks (xs @ ys) f = put_blocks ys (put_blocks xs f)"
  by (simp add: put_blocks_def)

lemma manager_inv_new:
  assumes "store_wf st" "log_ok st end'" "length (bs_last_seen st) = mc_len c"
  shows "manager_inv len (mc_len c) (bk_new c) st end' []"
  using assms
  by (auto simp: manager_inv_def sized_def pending_ok_def waiting_ok_def released_ok_def missing_ok_def
      asked_def bk_new_def mc_authority_range_def)

lemma offered_later:
  assumes "offered len n st b" "bs_authority st' = bs_authority st" "stored st \<subseteq> stored st'"
  shows "offered len n st' b"
  using assms by (auto simp: offered_def stored_def)

lemma bk_run_spec:
  assumes inv: "manager_inv len n m st end' []" and off: "\<forall>bs \<in> set bss. \<forall>b \<in> set bs. offered len n st b"
    and order: "\<forall>xs. mset (order xs) = mset xs"
  shows "\<exists>new m' st' end2. bk_run order len bss (m, st, end') = Some (new, m', st', end2) \<and>
     manager_inv len n m' st' end2 [] \<and>
     held m' st' = held m st \<union> reference ` set (concat bss) \<and>
     stored st' = stored st \<union> reference ` set (map snd new) \<and>
     block_at st' = put_blocks (map snd new) (block_at st) \<and> causal_from (stored st) (map snd new)"
  using inv off
proof (induction bss arbitrary: m st end')
  case Nil
  then show ?case by (simp add: put_blocks_def)
next
  case (Cons bs bss)
  obtain new missing m1 st1 end1 where
    a: "bk_add_blocks order len bs (m, st, end') = Some ((new, missing), m1, st1, end1)"
    "manager_inv len n m1 st1 end1 []" "held m1 st1 = held m st \<union> reference ` set bs"
    "bs_authority st1 = bs_authority st" "stored st1 = stored st \<union> reference ` set (map snd new)"
    "block_at st1 = put_blocks (map snd new) (block_at st)" "causal_from (stored st) (map snd new)"
    using bk_add_blocks_spec [OF Cons.prems(1) _ order, of bs] Cons.prems(2) by (auto simp del: split_paired_Ex)
  have "\<forall>bs \<in> set bss. \<forall>b \<in> set bs. offered len n st1 b"
    using Cons.prems(2) offered_later [OF _ a(4)] a(5) by simp
  from Cons.IH [OF a(2) this] obtain more m' st' end2 where
    r: "bk_run order len bss (m1, st1, end1) = Some (more, m', st', end2)" "manager_inv len n m' st' end2 []"
    "held m' st' = held m1 st1 \<union> reference ` set (concat bss)"
    "stored st' = stored st1 \<union> reference ` set (map snd more)"
    "block_at st' = put_blocks (map snd more) (block_at st1)" "causal_from (stored st1) (map snd more)"
    by (auto simp del: split_paired_Ex)
  show ?case
  proof (intro exI conjI)
    show "bk_run order len (bs # bss) (m, st, end') = Some (new @ more, m', st', end2)"
      using a(1) r(1) by simp
    show "causal_from (stored st) (map snd (new @ more))"
      using a(7) r(6) by (simp add: causal_from_append a(5))
  qed (use r a in \<open>simp_all add: put_blocks_app Un_ac image_Un\<close>)
qed

section \<open>Nothing is held back without reason\<close>

text \<open>Rounds go down along includes, as \<open>StatementBlock::verify\<close> demands.\<close>

definition includes_below :: "statement_block \<Rightarrow> bool" where
  "includes_below b \<longleftrightarrow> (\<forall>i \<in> set (block_includes b). br_round i < block_round b)"

lemma nothing_pending:
  assumes inv: "manager_inv len n m st end' []"
    and blocks: "\<And>r b. map_of (bk_pending m) r = Some b \<Longrightarrow> includes_below b"
    and closed: "\<And>r b. map_of (bk_pending m) r = Some b \<Longrightarrow> set (block_includes b) \<subseteq> held m st"
  shows "map_of (bk_pending m) r = None"
proof (induction "br_round r" arbitrary: r rule: less_induct)
  case less
  have po: "pending_ok len n m st []" using inv by (simp add: manager_inv_def)
  show ?case
  proof (cases "map_of (bk_pending m) r")
    case (Some b)
    note d = pending_okD [OF po Some]
    from d(6) obtain i where i: "i \<in> set (block_includes b)" "\<not> block_exists st i" by blast
    have "br_round i < br_round r"
      using blocks [OF Some] i(1) d(1) by (auto simp: includes_below_def block_round_def)
    then have "map_of (bk_pending m) i = None" by (rule less)
    with i closed [OF Some] show ?thesis by (auto simp: held_def exists_or_pending_def)
  qed
qed

text \<open>What a turn of the loop writes.\<close>

lemma accept_block_writes:
  assumes "accept_block order len b s = Some s'"
  shows "\<exists>pos. mr_processed s' = mr_processed s @ [(pos, b)] \<and> wal_write (len b) (mr_end s) = Some (pos, mr_end s')"
  using assms by (auto simp: accept_block_def Let_def split: option.splits prod.splits)

lemma manager_step_writes:
  assumes "manager_step order len b s = Some s'"
  shows "(mr_processed s' = mr_processed s \<and> mr_end s' = mr_end s) \<or>
    (\<exists>pos. mr_processed s' = mr_processed s @ [(pos, b)] \<and> wal_write (len b) (mr_end s) = Some (pos, mr_end s'))"
proof (cases "block_exists (mr_store s) (reference b) \<or> map_of (bk_pending (mr_manager s)) (reference b) \<noteq> None")
  case True
  then show ?thesis using assms by (simp add: manager_step_def)
next
  case False
  then obtain p m new where "note_includes (mr_store s) (reference b) (block_includes b) (True, mr_manager s, mr_missing s) =
      Some (p, m, new)"
    using assms by (auto simp: manager_step_def Let_def split: option.splits)
  with False assms show ?thesis
    by (auto simp: manager_step_def Let_def dest: accept_block_writes split: if_splits)
qed

lemma manager_loop_keeps:
  assumes step: "\<And>s b bs s'. mr_queue s = b # bs \<Longrightarrow> manager_step order len b (s\<lparr>mr_queue := bs\<rparr>) = Some s' \<Longrightarrow> P s \<Longrightarrow> P s'"
    and "manager_loop order len s = Some s'" "P s"
  shows "P s'"
  using assms
proof (induction order len s rule: manager_loop.induct)
  case (1 order len s)
  show ?case
  proof (cases "mr_queue s")
    case Nil
    then show ?thesis using 1(3,4) by (simp add: manager_loop.simps [of order len s])
  next
    case (Cons b bs)
    with 1(3) obtain s1 where s1: "manager_step order len b (s\<lparr>mr_queue := bs\<rparr>) = Some s1"
      "manager_loop order len s1 = Some s'"
      by (simp add: manager_loop.simps [of order len s] split: option.splits)
    show ?thesis
      by (rule 1(1) [OF Cons s1(1) 1(2) s1(2) 1(2) [OF Cons s1(1) 1(4)]])
  qed
qed

text \<open>Where pending and stored blocks come from.\<close>

definition offered_from :: "statement_block set \<Rightarrow> manager_run \<Rightarrow> bool" where
  "offered_from B s \<longleftrightarrow>
     set (mr_queue s) \<union> snd ` set (bk_pending (mr_manager s)) \<union> snd ` set (mr_processed s) \<subseteq> B"

lemma offered_from_step:
  assumes q: "mr_queue s = b # bs" and step: "manager_step order len b (s\<lparr>mr_queue := bs\<rparr>) = Some s'"
    and off: "offered_from B s"
  shows "offered_from B s'"
proof -
  have b: "b \<in> B" "set bs \<subseteq> B" "snd ` set (bk_pending (mr_manager s)) \<subseteq> B" "snd ` set (mr_processed s) \<subseteq> B"
    using off q by (auto simp: offered_from_def)
  have processed: "snd ` set (mr_processed s') \<subseteq> B"
  proof -
    have "snd ` set (mr_processed s') \<subseteq> insert b (snd ` set (mr_processed s))"
      using manager_step_writes [OF step] by auto
    then show ?thesis using b by blast
  qed
  show ?thesis
  proof (cases "block_exists (mr_store s) (reference b) \<or> map_of (bk_pending (mr_manager s)) (reference b) \<noteq> None")
    case True
    then have "s' = s\<lparr>mr_queue := bs\<rparr>" using step by (simp add: manager_step_def)
    then show ?thesis using off q by (auto simp: offered_from_def)
  next
    case False
    from step False obtain p m new where ni:
      "note_includes (mr_store s) (reference b) (block_includes b) (True, mr_manager s, mr_missing s) = Some (p, m, new)"
      by (auto simp: manager_step_def Let_def split: option.splits)
    note pend = note_includes_pending [OF ni]
    show ?thesis
    proof (cases p)
      case False
      with ni step \<open>\<not> (block_exists _ _ \<or> _)\<close> have s': "mr_queue s' = bs"
        "bk_pending (mr_manager s') = AList.update (reference b) b (bk_pending (mr_manager s))"
        by (auto simp: manager_step_def Let_def pend split: if_splits)
      have "snd ` set (bk_pending (mr_manager s')) \<subseteq> insert b (snd ` set (bk_pending (mr_manager s)))"
        using set_update_subset [of "reference b" b "bk_pending (mr_manager s)"] by (force simp: s'(2))
      also have "\<dots> \<subseteq> B" using b by blast
      finally show ?thesis using b(2) processed unfolding offered_from_def s'(1) by blast
    next
      case True
      with ni step \<open>\<not> (block_exists _ _ \<or> _)\<close> obtain m1 where acc:
        "accept_block order len b (s\<lparr>mr_queue := bs, mr_manager := m1, mr_missing := new\<rparr>) = Some s'"
        and m1: "bk_pending m1 = bk_pending (mr_manager s)"
        by (auto simp: manager_step_def Let_def pend split: if_splits)
      have "set (mr_queue s') \<union> snd ` set (bk_pending (mr_manager s')) \<subseteq>
          set bs \<union> snd ` set (bk_pending (mr_manager s))"
        using accept_block_held [OF acc] m1 by simp
      also have "\<dots> \<subseteq> B" by (rule Un_least [OF b(2,3)])
      finally show ?thesis using processed unfolding offered_from_def by (rule Un_least)
    qed
  qed
qed

lemma offered_from_loop:
  "manager_loop order len s = Some s' \<Longrightarrow> offered_from B s \<Longrightarrow> offered_from B s'"
  by (rule manager_loop_keeps [of order len "offered_from B"]) (rule offered_from_step)

text \<open>Where they are written: one after the other, from the old end of the log on.\<close>

definition written_from :: "nat \<Rightarrow> manager_run \<Rightarrow> bool" where
  "written_from start s \<longleftrightarrow> start \<le> mr_end s \<and> sorted_wrt (<) (map fst (mr_processed s)) \<and>
     (\<forall>x \<in> set (mr_processed s). start \<le> fst x \<and> fst x < mr_end s)"

lemma written_from_step:
  assumes "manager_step order len b (s\<lparr>mr_queue := bs\<rparr>) = Some s'" "written_from start s"
  shows "written_from start s'"
  using manager_step_writes [OF assms(1)]
proof (elim disjE exE conjE)
  fix pos
  assume "mr_processed s' = mr_processed (s\<lparr>mr_queue := bs\<rparr>) @ [(pos, b)]"
    "wal_write (len b) (mr_end (s\<lparr>mr_queue := bs\<rparr>)) = Some (pos, mr_end s')"
  then show ?thesis
    using assms(2) wal_write_later [of "len b" "mr_end s" pos "mr_end s'"]
    by (fastforce simp: written_from_def sorted_wrt_append)
qed (use assms(2) in \<open>simp add: written_from_def\<close>)

lemma bk_add_blocks_writes:
  assumes "bk_add_blocks order len bs (m, st, end') = Some ((new, missing), m', st', end2)"
    and "set bs \<union> snd ` set (bk_pending m) \<subseteq> B"
  shows "end' \<le> end2" "sorted_wrt (<) (map fst new)" "\<forall>x \<in> set new. end' \<le> fst x \<and> fst x < end2"
    "snd ` set (bk_pending m') \<union> snd ` set new \<subseteq> B"
proof -
  from assms(1) obtain s where s: "manager_loop order len (manager_start bs m st end') = Some s"
    "new = mr_processed s" "m' = mr_manager s" "end2 = mr_end s"
    by (auto simp: bk_add_blocks_def)
  have "written_from end' s"
    by (rule manager_loop_keeps [of order len "written_from end'", OF _ s(1)])
      (rule written_from_step, assumption+, simp add: written_from_def manager_start_def)
  then show "end' \<le> end2" "sorted_wrt (<) (map fst new)" "\<forall>x \<in> set new. end' \<le> fst x \<and> fst x < end2"
    by (simp_all add: written_from_def s)
  have "offered_from B (manager_start bs m st end')"
    using assms(2) by (simp add: offered_from_def manager_start_def)
  from offered_from_loop [OF s(1) this] show "snd ` set (bk_pending m') \<union> snd ` set new \<subseteq> B"
    by (simp add: offered_from_def s)
qed

lemma bk_run_pending_from:
  assumes "bk_run order len bss (m, st, end') = Some (new, m', st', end2)" "snd ` set (bk_pending m) \<subseteq> B"
    and "set (concat bss) \<subseteq> B"
  shows "snd ` set (bk_pending m') \<subseteq> B"
  using assms
proof (induction bss arbitrary: m st end' new)
  case (Cons bs bss)
  from Cons.prems(1) obtain s where s: "manager_loop order len (manager_start bs m st end') = Some s"
    "\<exists>more. bk_run order len bss (mr_manager s, mr_store s, mr_end s) = Some (more, m', st', end2)"
    by (auto simp: bk_add_blocks_def split: option.splits)
  have "offered_from B (manager_start bs m st end')"
    using Cons.prems(2,3) by (simp add: offered_from_def manager_start_def)
  from offered_from_loop [OF s(1) this] have "snd ` set (bk_pending (mr_manager s)) \<subseteq> B"
    by (simp add: offered_from_def)
  moreover obtain more where "bk_run order len bss (mr_manager s, mr_store s, mr_end s) = Some (more, m', st', end2)"
    using s(2) by blast
  moreover have "set (concat bss) \<subseteq> B" using Cons.prems(3) by simp
  ultimately show ?case by (intro Cons.IH)
qed simp

section \<open>Properties\<close>

text \<open>A run from an empty manager, with what its blocks satisfy.\<close>

lemma fresh_run:
  assumes st: "store_wf st" "log_ok st end'" "length (bs_last_seen st) = mc_len c"
    and off: "\<forall>b \<in> set (concat bss). offered len (mc_len c) st b" and order: "\<forall>xs. mset (order xs) = mset xs"
  shows "\<exists>new m' st' end2. bk_run order len bss (bk_new c, st, end') = Some (new, m', st', end2) \<and>
     manager_inv len (mc_len c) m' st' end2 [] \<and> held m' st' = stored st \<union> reference ` set (concat bss) \<and>
     stored st' = stored st \<union> reference ` set (map snd new) \<and>
     block_at st' = put_blocks (map snd new) (block_at st) \<and> causal_from (stored st) (map snd new) \<and>
     snd ` set (bk_pending m') \<subseteq> set (concat bss)"
proof -
  have "\<forall>bs \<in> set bss. \<forall>b \<in> set bs. offered len (mc_len c) st b" using off by auto
  from bk_run_spec [OF manager_inv_new [OF st] this order] obtain new m' st' end2 where
    r: "bk_run order len bss (bk_new c, st, end') = Some (new, m', st', end2)"
    "manager_inv len (mc_len c) m' st' end2 []" "held m' st' = held (bk_new c) st \<union> reference ` set (concat bss)"
    "stored st' = stored st \<union> reference ` set (map snd new)"
    "block_at st' = put_blocks (map snd new) (block_at st)" "causal_from (stored st) (map snd new)" by blast
  have "held (bk_new c) st = stored st"
    by (simp add: held_def stored_def exists_or_pending_def bk_new_def)
  moreover have "snd ` set (bk_pending m') \<subseteq> set (concat bss)"
    by (rule bk_run_pending_from [OF r(1)]) (simp_all add: bk_new_def)
  ultimately show ?thesis using r by metis
qed

text \<open>
  C25: whatever blocks the block manager is offered, in whatever order and
  whatever the order of its hash sets, no call fails; the store afterwards is the store before
  with the returned blocks put in, each returned once, none stored before, and each after all
  the blocks it includes.
\<close>

theorem causal_acceptance:
  assumes "store_wf st" "log_ok st end'" "length (bs_last_seen st) = mc_len c"
    and "\<forall>b \<in> set (concat bss). offered len (mc_len c) st b" "\<forall>xs. mset (order xs) = mset xs"
  shows "\<exists>new m' st' end2. bk_run order len bss (bk_new c, st, end') = Some (new, m', st', end2) \<and>
     store_wf st' \<and> block_at st' = put_blocks (map snd new) (block_at st) \<and>
     causal_from (stored st) (map snd new)"
  using fresh_run [OF assms] by (auto simp: manager_inv_def simp del: split_paired_Ex)

text \<open>
  C24: when the blocks offered have the blocks they include among them
  or in the store, and rounds go down along includes, all of them are stored in the end, in
  whatever order and batches they came.
\<close>

theorem delivery_order_irrelevant:
  assumes "store_wf st" "log_ok st end'" "length (bs_last_seen st) = mc_len c"
    and "\<forall>b \<in> set (concat bss). offered len (mc_len c) st b" "\<forall>xs. mset (order xs) = mset xs"
    and below: "\<forall>b \<in> set (concat bss). includes_below b"
    and closed: "\<forall>b \<in> set (concat bss). set (block_includes b) \<subseteq> stored st \<union> reference ` set (concat bss)"
  shows "\<exists>new m' st' end2. bk_run order len bss (bk_new c, st, end') = Some (new, m', st', end2) \<and>
     stored st' = stored st \<union> reference ` set (concat bss)"
proof -
  from fresh_run [OF assms(1-5)] obtain new m' st' end2 where
    r: "bk_run order len bss (bk_new c, st, end') = Some (new, m', st', end2)"
    "manager_inv len (mc_len c) m' st' end2 []" "held m' st' = stored st \<union> reference ` set (concat bss)"
    "snd ` set (bk_pending m') \<subseteq> set (concat bss)" by (elim exE conjE) (rule that)
  have mem: "b \<in> set (concat bss)" if "map_of (bk_pending m') r = Some b" for r b
    using r(4) map_of_SomeD [OF that] by force
  have "map_of (bk_pending m') r = None" for r
  proof (rule nothing_pending [OF r(2)])
    fix q b assume "map_of (bk_pending m') q = Some b"
    then have b: "b \<in> set (concat bss)" by (rule mem)
    show "includes_below b" using below b by (rule bspec)
    show "set (block_includes b) \<subseteq> held m' st'" unfolding r(3) using closed b by (rule bspec)
  qed
  then have "held m' st' = stored st'" by (simp add: held_def stored_def exists_or_pending_def)
  then show ?thesis using r(1,3) by metis
qed

text \<open>
  After any sequence of calls the references that the block manager lists
  as missing of an authority are exactly those that a pending block includes and that are neither
  stored nor pending.
\<close>

theorem missing_blocks_exact:
  assumes "store_wf st" "log_ok st end'" "length (bs_last_seen st) = mc_len c"
    and "\<forall>b \<in> set (concat bss). offered len (mc_len c) st b" "\<forall>xs. mset (order xs) = mset xs"
    and run: "bk_run order len bss (bk_new c, st, end') = Some (new, m', st', end2)" and a: "a < mc_len c"
  shows "set (bk_missing m' ! a) = {k. br_authority k = a \<and> \<not> exists_or_pending m' st' k \<and>
     (\<exists>r b. map_of (bk_pending m') r = Some b \<and> k \<in> set (block_includes b))}"
proof -
  from fresh_run [OF assms(1-5)] run have inv: "manager_inv len (mc_len c) m' st' end2 []" by auto
  then have po: "pending_ok len (mc_len c) m' st' []" and wo: "waiting_ok m' st'" and mo: "missing_ok m' []"
    and sz: "sized (mc_len c) m' st'" by (auto simp: manager_inv_def)
  have mem: "k \<in> set (bk_missing m' ! a) \<longleftrightarrow> br_authority k = a \<and> asked m' k" for k
    using sz a by (auto simp: asked_def sized_def)
  have wait: "map_of (bk_waiting m') k \<noteq> None \<longleftrightarrow> \<not> block_exists st' k \<and>
      (\<exists>r b. map_of (bk_pending m') r = Some b \<and> k \<in> set (block_includes b))" for k
  proof (intro iffI conjI)
    assume "map_of (bk_waiting m') k \<noteq> None"
    then obtain ws where ws: "map_of (bk_waiting m') k = Some ws" by blast
    note d = waiting_okD [OF wo ws]
    show "\<not> block_exists st' k" by (rule d(1))
    obtain w where "w \<in> set ws" using d(3) by (cases ws) auto
    from d(4) [OF this] show "\<exists>r b. map_of (bk_pending m') r = Some b \<and> k \<in> set (block_includes b)" by blast
  next
    assume "\<not> block_exists st' k \<and> (\<exists>r b. map_of (bk_pending m') r = Some b \<and> k \<in> set (block_includes b))"
    then show "map_of (bk_waiting m') k \<noteq> None" using pending_waits [OF po wo] by blast
  qed
  have "asked m' k \<longleftrightarrow> map_of (bk_waiting m') k \<noteq> None \<and> map_of (bk_pending m') k = None" for k
    using missing_okD [OF mo, of k] by auto
  then show ?thesis
    unfolding set_eq_iff mem wait mem_Collect_eq by (auto simp: exists_or_pending_def)
qed

end
