(* ===== verification/MystiProps.thy ===== *)
theory MystiProps
  imports MystiLinear MystiSamples MystiManagerRuns
begin

text \<open>
  Mysticeti: the properties of the commit rule, the linearizer, the block store, the committee
  and the checks of blocks, with their witnesses on the committee \<open>four\<close> and small dags.
\<close>

section \<open>Lemmas that join the parts\<close>

lemma uc_build_offsets:
  assumes "uc_build c 3 n pipeline = Some cs" "n \<le> mc_len c"
  shows "\<forall>bc \<in> set cs. leader_offset (bc_options bc) < mc_len c"
proof -
  have "cs = map (\<lambda>opt. (bc_new c)\<lparr>bc_options := opt\<rparr>) (concat (map (\<lambda>ro. map (\<lambda>lo.
      \<lparr>wave_length = 3, leader_offset = lo, round_offset = ro\<rparr>) [0..<n]) [0..<(if pipeline then 3 else 1)]))"
    by (rule build_loop_map) (use assms(1) in \<open>simp add: uc_build_def\<close>)
  then show ?thesis using assms(2) by auto
qed

lemma blocks_from_references:
  assumes "two_views c byz s1 s2" "\<forall>b \<in> B1. bs_holds s1 b" "\<forall>b \<in> B2. bs_holds s2 b"
    and "reference ` B1 = reference ` B2"
  shows "B1 \<subseteq> B2"
proof
  fix x assume x: "x \<in> B1"
  then have "reference x \<in> reference ` B2" using assms(4) by blast
  then obtain y where y: "y \<in> B2" "reference x = reference y" by auto
  with same_block [OF assms(1), of x y] assms(2,3) x show "x \<in> B2" by blast
qed

lemma handle_commit_alike:
  assumes tv: "two_views c byz s1 s2" and l: "\<forall>l \<in> set ls. bs_holds s1 l \<and> bs_holds s2 l"
    and s: "sorted_wrt leader_before ls"
    and 1: "lz_handle_commit pid1 s1 ls lz_new = Some (ds1, lz1)"
    and 2: "lz_handle_commit pid2 s2 ls lz_new = Some (ds2, lz2)"
  shows "map (\<lambda>d. (sd_anchor d, sd_height d, set (sd_blocks d))) ds1 =
         map (\<lambda>d. (sd_anchor d, sd_height d, set (sd_blocks d))) ds2"
proof -
  have new: "history_closed st (lz_committed lz_new)" "\<forall>l \<in> set ls. not_after (lz_committed lz_new) l" for st
    by (simp_all add: lz_new_def history_closed_def not_after_def)
  have l1: "\<forall>l \<in> set ls. bs_holds s1 l" and l2: "\<forall>l \<in> set ls. bs_holds s2 l" using l by auto
  from handle_commit_spec [OF two_viewsD(2) [OF tv] l1 s new, of pid1] 1 have h1:
    "map (\<lambda>d. reference ` set (sd_blocks d)) ds1 = new_histories s1 {} ls"
    "\<forall>d \<in> set ds1. \<forall>b \<in> set (sd_blocks d). bs_holds s1 b" "map sd_anchor ds1 = map reference ls"
    "map sd_height ds1 = [1 ..< 1 + length ls]" by (auto simp: lz_new_def)
  from handle_commit_spec [OF two_viewsD(3) [OF tv] l2 s new, of pid2] 2 have h2:
    "map (\<lambda>d. reference ` set (sd_blocks d)) ds2 = new_histories s2 {} ls"
    "\<forall>d \<in> set ds2. \<forall>b \<in> set (sd_blocks d). bs_holds s2 b" "map sd_anchor ds2 = map reference ls"
    "map sd_height ds2 = [1 ..< 1 + length ls]" by (auto simp: lz_new_def)
  have len: "length ds1 = length ds2" using h1(3) h2(3) by (metis length_map)
  show ?thesis
  proof (rule nth_equalityI)
    fix i assume "i < length (map (\<lambda>d. (sd_anchor d, sd_height d, set (sd_blocks d))) ds1)"
    then have i: "i < length ds1" "i < length ds2" using len by simp_all
    have nth: "f (ds1 ! i) = g (ds2 ! i)" if "map f ds1 = map g ds2" for f g :: "committed_sub_dag \<Rightarrow> 'a"
      using that i by (metis nth_map)
    have refs: "reference ` set (sd_blocks (ds1 ! i)) = reference ` set (sd_blocks (ds2 ! i))"
      using nth_map [of i ds1 "\<lambda>d. reference ` set (sd_blocks d)"] nth_map [of i ds2 "\<lambda>d. reference ` set (sd_blocks d)"]
        h1(1) h2(1) same_new_histories [OF tv l, of "{}"] i by metis
    have "sd_anchor (ds1 ! i) = sd_anchor (ds2 ! i)" "sd_height (ds1 ! i) = sd_height (ds2 ! i)"
      using h1(3,4) h2(3,4) i by (metis nth_map)+
    moreover have "set (sd_blocks (ds1 ! i)) = set (sd_blocks (ds2 ! i))"
    proof (rule equalityI)
      show "set (sd_blocks (ds1 ! i)) \<subseteq> set (sd_blocks (ds2 ! i))"
        by (rule blocks_from_references [OF tv _ _ refs]) (use h1(2) h2(2) i in \<open>auto intro: nth_mem\<close>)
      show "set (sd_blocks (ds2 ! i)) \<subseteq> set (sd_blocks (ds1 ! i))"
        by (rule blocks_from_references [OF two_views_sym [OF tv] _ _ refs [symmetric]])
          (use h1(2) h2(2) i in \<open>auto intro: nth_mem\<close>)
    qed
    ultimately show "map (\<lambda>d. (sd_anchor d, sd_height d, set (sd_blocks d))) ds1 ! i =
        map (\<lambda>d. (sd_anchor d, sd_height d, set (sd_blocks d))) ds2 ! i"
      using i by simp
  qed (simp add: len)
qed

section \<open>The commit rule\<close>

text \<open>
  C2: in waves of three rounds, two nodes that try to commit again and again as
  their views of the dag grow commit leader blocks of which one sequence is a prefix of the other, for any
  number of leaders and with or without pipelining, when the Byzantine authorities hold less than
  the validity threshold.
\<close>

theorem leaders_totally_ordered:
  assumes "uc_build c 3 leaders pipeline = Some cs" "\<forall>r. weighted_shuffles w c r"
    and "\<forall>s1 \<in> set sts1 \<union> set sts2. \<forall>s2 \<in> set sts1 \<union> set sts2. two_views c byz s1 s2"
    and "core_commits w cs sts1 (commit_state_new n1) = Some out1"
    and "core_commits w cs sts2 (commit_state_new n2) = Some out2"
  shows "prefix out1 out2 \<or> prefix out2 out1"
  by (rule committed_prefixes [OF uc_build_ok [OF assms(1)] assms(2-5)])

lemma all_two_dags: "\<forall>s1 \<in> set [view_a] \<union> set [view_b]. \<forall>s2 \<in> set [view_a] \<union> set [view_b]. two_views four [3] s1 s2"
  using two_dags two_views_sym [OF two_dags] two_views_self [OF two_dags]
    two_views_self [OF two_views_sym [OF two_dags]] by simp

lemma leaders_totally_ordered_witness:
  "prefix (full [0, 1] [0, 1, 2] 1) (full [0, 1] [0, 1, 2] 1) \<or> prefix (full [0, 1] [0, 1, 2] 1) (full [0, 1] [0, 1, 2] 1)"
  by (rule leaders_totally_ordered [OF two_leaders_built allI [OF in_order_shuffles] all_two_dags
        dag_a_commits dag_b_commits])

text \<open>
  C3: waves of four rounds, which the options allow, break agreement without any
  Byzantine block: a node with the block of authority 3 of round 5 skips the leader of round 4, one
  without it commits this leader, and neither output is a prefix of the other.
\<close>

theorem long_waves_fork:
  "uc_build four 4 1 False = Some long_wave \<and> two_views four [] fork_a fork_b \<and>
   core_commits in_order long_wave [fork_a] (commit_state_new 20) = Some (full [0] [0, 1, 2, 3] 4 @ full [0] [0, 1, 2] 8) \<and>
   core_commits in_order long_wave [fork_b] (commit_state_new 20) = Some (full [0] [0, 1, 2] 8)"
  using long_wave_built fork_two_views fork_a_commits fork_b_commits by blast

text \<open>
  C21: on views of a dag with an honest quorum no \<open>expect\<close>, \<open>panic!\<close> or
  \<open>assert\<close> of the committers fails, over whole executions, when there are at most as many leaders per
  round as authorities.
\<close>

theorem try_commit_returns:
  assumes "uc_build c 3 leaders pipeline = Some cs" "\<forall>r. weighted_shuffles w c r" "leaders \<le> mc_len c"
    and "\<forall>st \<in> set sts. two_views c byz st st"
  shows "\<exists>out. core_commits w cs sts (commit_state_new n) = Some out"
proof -
  define H where "H = sum_list (map bs_highest_round sts)"
  have "bs_highest_round st \<le> H" if "st \<in> set sts" for st
    using that member_le_sum_list [of "bs_highest_round st" "map bs_highest_round sts"] by (auto simp: H_def)
  then have "\<forall>st \<in> set sts. two_views c byz st st \<and> bs_highest_round st \<le> H" using assms(4) by blast
  moreover have "decided_position [] (cs_last_decided (commit_state_new n))"
    by (simp add: decided_position_def commit_state_new_def)
  ultimately show ?thesis
    using core_commits_returns [OF uc_build_ok [OF assms(1)] assms(2) uc_build_offsets [OF assms(1,3)], of sts byz H "[]"]
    by simp
qed

lemma try_commit_returns_witness:
  "\<exists>out. core_commits in_order two_leaders [view_a, view_a] (commit_state_new 10) = Some out"
proof (rule try_commit_returns [OF two_leaders_built allI [OF in_order_shuffles]])
  show "2 \<le> mc_len four" by (simp add: four_def mc_len_def)
  show "\<forall>st \<in> set [view_a, view_a]. two_views four [3] st st" using two_views_self [OF two_dags] by simp
qed

section \<open>The linearizer\<close>

text \<open>
  C22: for committed leaders in ascending rounds, none of which was
  delivered before, the linearizer returns one sub-dag per leader, in order, with consecutive
  heights; a sub-dag holds, each once, exactly the blocks of the leader's causal history that no
  earlier sub-dag held.
\<close>

theorem sub_dags_partition_history:
  assumes "dag_ok c st" "\<forall>l \<in> set ls. bs_holds st l" "sorted_wrt leader_before ls"
    and "history_closed st (lz_committed lz)" "\<forall>l \<in> set ls. not_after (lz_committed lz) l"
  shows "\<exists>ds lz'. lz_handle_commit pid st ls lz = Some (ds, lz') \<and>
           map (\<lambda>d. reference ` set (sd_blocks d)) ds = new_histories st (lz_committed lz) ls \<and>
           (\<forall>d \<in> set ds. distinct (map reference (sd_blocks d)) \<and> (\<forall>b \<in> set (sd_blocks d). bs_holds st b)) \<and>
           map sd_anchor ds = map reference ls \<and>
           map sd_timestamp_ms ds = map meta_creation_time_ms ls \<and>
           map sd_height ds = [lz_last_height lz + 1 ..< lz_last_height lz + 1 + length ls] \<and>
           lz_committed lz' = lz_committed lz \<union> (\<Union>l \<in> set ls. history st (reference l))"
  by (rule handle_commit_spec [OF assms])

lemma sample_leaders:
  "\<forall>l \<in> set (full [0] [0, 1, 2] 1 @ full [0] [0, 1, 2] 2). bs_holds view_a l"
  "sorted_wrt leader_before (full [0] [0, 1, 2] 1 @ full [0] [0, 1, 2] 2)"
  by (code_simp, simp add: full_def leader_before_def block_of_def ref_of_def block_round_def)

lemma sub_dags_partition_history_witness:
  "\<exists>ds lz'. lz_handle_commit 7 view_a (full [0] [0, 1, 2] 1 @ full [0] [0, 1, 2] 2) lz_new = Some (ds, lz') \<and>
     map (\<lambda>d. reference ` set (sd_blocks d)) ds =
     new_histories view_a (lz_committed lz_new) (full [0] [0, 1, 2] 1 @ full [0] [0, 1, 2] 2)"
proof -
  have "history_closed view_a (lz_committed lz_new)"
    "\<forall>l \<in> set (full [0] [0, 1, 2] 1 @ full [0] [0, 1, 2] 2). not_after (lz_committed lz_new) l"
    by (simp_all add: lz_new_def history_closed_def not_after_def)
  from sub_dags_partition_history [OF dag_a_ok sample_leaders this, of 7] show ?thesis
    by (elim exE conjE) (intro exI conjI)
qed

text \<open>
  C23: two nodes that commit the same leaders deliver the same blocks in each
  sub-dag, whatever process ids seed their sorting.
\<close>

theorem nodes_deliver_alike:
  assumes "two_views c byz s1 s2" "\<forall>l \<in> set ls. bs_holds s1 l \<and> bs_holds s2 l" "sorted_wrt leader_before ls"
    and "lz_handle_commit pid1 s1 ls lz_new = Some (ds1, lz1)" "lz_handle_commit pid2 s2 ls lz_new = Some (ds2, lz2)"
  shows "map (\<lambda>d. (sd_anchor d, sd_height d, set (sd_blocks d))) ds1 =
         map (\<lambda>d. (sd_anchor d, sd_height d, set (sd_blocks d))) ds2"
  using handle_commit_alike [OF assms] .

lemma nodes_deliver_alike_witness:
  "\<exists>ds1 ds2 lz1 lz2. lz_handle_commit 1 view_a (full [0] [0, 1, 2] 1) lz_new = Some (ds1, lz1) \<and>
     lz_handle_commit 2 view_b (full [0] [0, 1, 2] 1) lz_new = Some (ds2, lz2) \<and>
     map (\<lambda>d. (sd_anchor d, sd_height d, set (sd_blocks d))) ds1 =
     map (\<lambda>d. (sd_anchor d, sd_height d, set (sd_blocks d))) ds2"
proof -
  let ?ls = "full [0] [0, 1, 2] 1"
  have held: "\<forall>l \<in> set ?ls. bs_holds view_a l" "\<forall>l \<in> set ?ls. bs_holds view_b l" by code_simp+
  have s: "sorted_wrt leader_before ?ls" by (simp add: full_def)
  have new: "history_closed st (lz_committed lz_new)" "\<forall>l \<in> set ?ls. not_after (lz_committed lz_new) l" for st
    by (simp_all add: lz_new_def history_closed_def not_after_def)
  from handle_commit_spec [OF dag_a_ok held(1) s new, of 1] obtain ds1 lz1 where
    1: "lz_handle_commit 1 view_a ?ls lz_new = Some (ds1, lz1)" by blast
  from handle_commit_spec [OF dag_b_ok held(2) s new, of 2] obtain ds2 lz2 where
    2: "lz_handle_commit 2 view_b ?ls lz_new = Some (ds2, lz2)" by blast
  have "\<forall>l \<in> set ?ls. bs_holds view_a l \<and> bs_holds view_b l" using held by blast
  from nodes_deliver_alike [OF two_dags this s 1 2] 1 2 show ?thesis by blast
qed

definition one_round :: committed_sub_dag where
  "one_round = \<lparr>sd_anchor = ref_of 0 2, sd_blocks = full [0, 1] [0, 1, 2] 1, sd_timestamp_ms = 0, sd_height = 1\<rparr>"

text \<open>
  Two blocks of one round in the same sub-dag come in different
  orders at two nodes whose process ids differ.
\<close>

theorem sub_dag_order_depends_on_process:
  "sd_blocks (sub_dag_sort 1 one_round) = full [0, 1] [0, 1, 2] 1 \<and>
   sd_blocks (sub_dag_sort 1425625195 one_round) = full [1, 0] [0, 1, 2] 1"
  by (simp add: one_round_def sub_dag_sort_def full_def block_of_def ref_of_def sort_hash_def
      block_round_def block_author_def)

end
