(* ===== verification/MystiCore.thy ===== *)
theory MystiCore
  imports MystiManagerRuns MystiLinear F64
begin

text \<open>
  Mysticeti: the core of a node (core.rs), which accepts blocks and proposes its own, with the
  fissure and certification-race attacks of this repository. The environment variables are
  fields of \<open>mcore_env\<close>, already parsed; the statements the block handler returns, the clock and
  the random choices of the fissure attack are arguments. \<open>None\<close> is a panic. Logging, metrics
  and \<open>fsync\<close> are left out.
\<close>

section \<open>Who attacks\<close>

datatype attack_type = Frontrun | Backrun | Sandwich

datatype mev_role = FrontAttacker | Victim | BackAttacker | Honest

record mcore_env =
  me_committee :: mcommittee
  me_authority :: nat
  me_crypto :: mcrypto
  me_sign :: "bytes \<Rightarrow> bytes"
  me_len :: "statement_block \<Rightarrow> nat"
  me_payload_len :: "base_statement list \<Rightarrow> nat"
  me_order :: "block_reference list \<Rightarrow> block_reference list"
  me_weighted :: weighted_choice
  me_committers :: "base_committer list"
  me_wave_length :: nat
  me_store_retain_rounds :: nat
  me_rounds_in_epoch :: nat
  me_attack_mode :: string
  me_attack_type :: "string option"
  me_attacker_ratio :: "f64 option"
  me_victim_ratio :: "f64 option"

definition attack_type_from_env :: "string option \<Rightarrow> attack_type" where
  "attack_type_from_env v =
     (if v = Some ''backrun'' then Backrun else if v = Some ''sandwich'' then Sandwich else Frontrun)"

definition ratio_or :: "f64 option \<Rightarrow> f64 \<Rightarrow> f64" where
  "ratio_or r d = (case r of None \<Rightarrow> d | Some x \<Rightarrow> x)"

definition attack_counts :: "mcore_env \<Rightarrow> nat \<Rightarrow> nat \<times> nat" where
  "attack_counts e n =
     (f64_as_nat (f64_mul (of_nat n) (ratio_or (me_attacker_ratio e) (f64_of (33 / 100)))),
      f64_as_nat (f64_mul (of_nat n) (ratio_or (me_victim_ratio e) (f64_of (22 / 100)))))"

definition attack_role :: "nat \<Rightarrow> nat \<Rightarrow> nat \<Rightarrow> nat \<Rightarrow> attack_type \<Rightarrow> mev_role" where
  "attack_role a n attackers victims t = (case t of
     Frontrun \<Rightarrow>
       if a < attackers then FrontAttacker else if n - victims \<le> a then Victim else Honest
   | Backrun \<Rightarrow>
       if a < victims then Victim else if a < victims + attackers then BackAttacker else Honest
   | Sandwich \<Rightarrow>
       (let front = attackers div 2; back = attackers - front
        in if a < front then FrontAttacker
           else if a < front + victims then Victim
           else if a < front + victims + back then BackAttacker
           else Honest))"

definition is_mev_attack_mode :: "string \<Rightarrow> bool" where
  "is_mev_attack_mode mode \<longleftrightarrow>
     mode \<in> {''fissure'', ''speculative'', ''sluggish'', ''certification_race''}"

definition role_of :: "mcore_env \<Rightarrow> nat \<Rightarrow> mev_role" where
  "role_of e a = (let n = mc_len (me_committee e); (ac, vc) = attack_counts e n
     in attack_role a n ac vc (attack_type_from_env (me_attack_type e)))"

text \<open>
  The certification race divides the committee by itself. The difference of \<open>usize\<close> values wraps
  in a release build when there are more victims than authorities; nobody is a victim then.
\<close>

definition race_attacker :: "mcore_env \<Rightarrow> nat \<Rightarrow> bool" where
  "race_attacker e a \<longleftrightarrow> a < fst (attack_counts e (mc_len (me_committee e)))"

definition race_victim :: "mcore_env \<Rightarrow> nat \<Rightarrow> bool" where
  "race_victim e a \<longleftrightarrow> (let n = mc_len (me_committee e); vc = snd (attack_counts e n)
     in vc \<le> n \<and> n - vc \<le> a)"

section \<open>The state\<close>

datatype meta_statement = Include block_reference | Payload "base_statement list"

record own_block_data =
  ob_next_entry :: nat
  ob_block :: statement_block

text \<open>The entries of the write-ahead log by their tags; the log is the list of entries by position.\<close>

datatype wal_entry =
    BlockEntry statement_block
  | PayloadEntry "base_statement list"
  | OwnBlockEntry own_block_data
  | StateEntry bytes
  | CommitEntry "commit_data list" bytes

record mcore =
  mo_manager :: block_manager
  mo_store :: block_store
  mo_wal :: "(nat \<times> wal_entry) list"
  mo_end :: nat
  mo_pending :: "(nat \<times> meta_statement) list"
  mo_last_own :: own_block_data
  mo_clock :: threshold_clock
  mo_commit :: commit_state
  mo_force :: bool

definition wal_position_max :: nat where
  "wal_position_max = 2 ^ 64 - 1"

definition last_proposed :: "mcore \<Rightarrow> nat" where
  "last_proposed s = block_round (ob_block (mo_last_own s))"

definition own_prev :: "mcore \<Rightarrow> block_reference" where
  "own_prev s = reference (ob_block (mo_last_own s))"

definition epoch_changing :: "mcore \<Rightarrow> bool" where
  "epoch_changing s = em_changing (cs_epoch_manager (mo_commit s))"

text \<open>\<open>write_to_wal\<close> of an own block writes eight bytes of header; then the store gets the block.\<close>

definition insert_own_block :: "(statement_block \<Rightarrow> nat) \<Rightarrow> own_block_data \<Rightarrow>
    block_store \<times> (nat \<times> wal_entry) list \<times> nat \<Rightarrow> (block_store \<times> (nat \<times> wal_entry) list \<times> nat) option" where
  "insert_own_block len d = (\<lambda>(st, wal, end'). case wal_write (8 + len (ob_block d)) end' of
     None \<Rightarrow> None
   | Some (pos, end2) \<Rightarrow> map_option (\<lambda>st'. (st', wal @ [(pos, OwnBlockEntry d)], end2))
       (writer_insert_block pos (ob_block d) st))"

text \<open>\<open>run_block_handler\<close>, with the statements the handler returns.\<close>

definition run_block_handler :: "mcore_env \<Rightarrow> base_statement list \<Rightarrow> mcore \<Rightarrow> mcore option" where
  "run_block_handler e payload s = map_option
     (\<lambda>(pos, end'). s\<lparr>mo_wal := mo_wal s @ [(pos, PayloadEntry payload)], mo_end := end',
        mo_pending := mo_pending s @ [(pos, Payload payload)]\<rparr>)
     (wal_write (me_payload_len e payload) (mo_end s))"

section \<open>Accepting blocks\<close>

fun accept_includes :: "mcommittee \<Rightarrow> nat \<Rightarrow> (nat \<times> statement_block) list \<Rightarrow>
    threshold_clock \<times> (nat \<times> meta_statement) list \<Rightarrow> (threshold_clock \<times> (nat \<times> meta_statement) list) option" where
  "accept_includes c now [] s = Some s"
| "accept_includes c now ((pos, b) # bs) (clock, pending) =
     (if mc_authority_safe c (block_author b) = None then None
      else case tc_add_block c now (reference b) clock of
        None \<Rightarrow> None
      | Some clock' \<Rightarrow> accept_includes c now bs (clock', pending @ [(pos, Include (reference b))]))"

text \<open>
  When an attacker decides to propose at once, seeing the accepted blocks: the certification race
  and the back-running attack. The rounds within a wave are computed for the log, so a wave length
  of zero panics.
\<close>

definition race_force :: "mcore_env \<Rightarrow> statement_block list \<Rightarrow> mcore \<Rightarrow> bool option" where
  "race_force e accepted s =
     (if me_attack_mode e \<noteq> ''certification_race'' \<or> \<not> race_attacker e (me_authority e) then Some False
      else if me_wave_length e = 0 then None
      else Some (list_ex (\<lambda>b. race_victim e (block_author b)) accepted \<or>
        last_proposed s < tc_round (mo_clock s) \<and> 3 \<le> tc_round (mo_clock s)))"

definition backrun_force :: "mcore_env \<Rightarrow> statement_block list \<Rightarrow> bool" where
  "backrun_force e accepted \<longleftrightarrow>
     attack_type_from_env (me_attack_type e) \<in> {Backrun, Sandwich} \<and> is_mev_attack_mode (me_attack_mode e) \<and>
     role_of e (me_authority e) = BackAttacker \<and> list_ex (\<lambda>b. role_of e (block_author b) = Victim) accepted"

definition mcore_add_blocks :: "mcore_env \<Rightarrow> nat \<Rightarrow> base_statement list \<Rightarrow> statement_block list \<Rightarrow> mcore \<Rightarrow>
    (block_reference list \<times> mcore) option" where
  "mcore_add_blocks e now payload blocks s =
     (case bk_add_blocks (me_order e) (me_len e) blocks (mo_manager s, mo_store s, mo_end s) of
        None \<Rightarrow> None
      | Some ((processed, missing), m, st, end') \<Rightarrow>
     (let processed' = sort_key (block_round \<circ> snd) processed; accepted = map snd processed'
      in case accept_includes (me_committee e) now processed' (mo_clock s, mo_pending s) of
        None \<Rightarrow> None
      | Some (clock, pending) \<Rightarrow>
     (let s1 = s\<lparr>mo_manager := m, mo_store := st,
          mo_wal := mo_wal s @ map (\<lambda>(pos, b). (pos, BlockEntry b)) processed, mo_end := end',
          mo_clock := clock, mo_pending := pending\<rparr>
      in case race_force e accepted s1 of
        None \<Rightarrow> None
      | Some race \<Rightarrow> map_option (Pair missing) (run_block_handler e payload
          (s1\<lparr>mo_force := (mo_force s1 \<or> race \<or> backrun_force e accepted)\<rparr>)))))"

end
