(* ===== verification/MystiRecover.thy ===== *)
theory MystiRecover
  imports MystiCore
begin

text \<open>
  Mysticeti: opening a node. \<open>BlockStore::open\<close> (block_store.rs) replays the write-ahead wal into
  the index and into the builder of the recovered state (state.rs); \<open>Core::open\<close> (core.rs) starts
  from it, or from the genesis blocks when the wal is empty. The wal is the list of its entries in
  the order of \<open>WalIterator\<close>; an unknown tag cannot occur in it. \<open>None\<close> is a panic.
\<close>

section \<open>The builder of the recovered state\<close>

text \<open>
  A payload is kept as its statements: the builder decodes at the end what the log holds encoded.
\<close>

record state_builder =
  sb_pending :: "(nat, meta_statement) btree_map"
  sb_last_own :: "own_block_data option"
  sb_state :: "bytes option"
  sb_unprocessed :: "statement_block list"
  sb_last_leader :: "block_reference option"
  sb_sub_dags :: "commit_data list"
  sb_committed_state :: "bytes option"

definition sb_new :: state_builder where
  "sb_new = \<lparr>sb_pending = [], sb_last_own = None, sb_state = None, sb_unprocessed = [],
     sb_last_leader = None, sb_sub_dags = [], sb_committed_state = None\<rparr>"

definition sb_block :: "nat \<Rightarrow> statement_block \<Rightarrow> state_builder \<Rightarrow> state_builder" where
  "sb_block pos b r = r\<lparr>sb_pending := bt_insert pos (Include (reference b)) (sb_pending r),
     sb_unprocessed := sb_unprocessed r @ [b]\<rparr>"

definition sb_payload :: "nat \<Rightarrow> base_statement list \<Rightarrow> state_builder \<Rightarrow> state_builder" where
  "sb_payload pos payload r = r\<lparr>sb_pending := bt_insert pos (Payload payload) (sb_pending r)\<rparr>"

text \<open>\<open>split_off\<close> gives the entries from its argument on.\<close>

definition sb_own_block :: "own_block_data \<Rightarrow> state_builder \<Rightarrow> state_builder" where
  "sb_own_block d r = r\<lparr>sb_pending := filter (\<lambda>(pos, _). ob_next_entry d \<le> pos) (sb_pending r),
     sb_unprocessed := sb_unprocessed r @ [ob_block d], sb_last_own := Some d\<rparr>"

definition sb_state_entry :: "bytes \<Rightarrow> state_builder \<Rightarrow> state_builder" where
  "sb_state_entry state r = r\<lparr>sb_state := Some state, sb_unprocessed := []\<rparr>"

fun sb_commit_loop :: "commit_data list \<Rightarrow> state_builder \<Rightarrow> state_builder option" where
  "sb_commit_loop [] r = Some r"
| "sb_commit_loop (cd # cds) r =
     (if sb_sub_dags r \<noteq> [] \<and> cd_height cd \<le> cd_height (last (sb_sub_dags r)) then None
      else sb_commit_loop cds (r\<lparr>sb_last_leader := Some (cd_leader cd), sb_sub_dags := sb_sub_dags r @ [cd]\<rparr>))"

definition sb_commit_data :: "commit_data list \<Rightarrow> bytes \<Rightarrow> state_builder \<Rightarrow> state_builder option" where
  "sb_commit_data cds committed r =
     map_option (\<lambda>r'. r'\<lparr>sb_committed_state := Some committed\<rparr>) (sb_commit_loop cds r)"

record core_recovered =
  cr_store :: block_store
  cr_last_own :: "own_block_data option"
  cr_pending :: "(nat \<times> meta_statement) list"
  cr_state :: "bytes option"
  cr_unprocessed :: "statement_block list"
  cr_last_leader :: "block_reference option"

definition sb_build :: "block_store \<Rightarrow> state_builder \<Rightarrow> core_recovered" where
  "sb_build st r = \<lparr>cr_store = st, cr_last_own = sb_last_own r, cr_pending = sb_pending r, cr_state = sb_state r,
     cr_unprocessed = sb_unprocessed r, cr_last_leader = sb_last_leader r\<rparr>"

section \<open>Replaying the log\<close>

definition log_block :: "wal_entry \<Rightarrow> statement_block option" where
  "log_block e = (case e of BlockEntry b \<Rightarrow> Some b | OwnBlockEntry d \<Rightarrow> Some (ob_block d) | _ \<Rightarrow> None)"

text \<open>What reading the log at a position gives the store.\<close>

definition log_read :: "(nat \<times> wal_entry) list \<Rightarrow> nat \<Rightarrow> statement_block option" where
  "log_read wal pos = (case map_of wal pos of None \<Rightarrow> None | Some e \<Rightarrow> log_block e)"

definition replay_entry :: "nat \<Rightarrow> wal_entry \<Rightarrow> block_store \<times> state_builder \<Rightarrow> (block_store \<times> state_builder) option" where
  "replay_entry pos e = (\<lambda>(st, r). case e of
     BlockEntry b \<Rightarrow> map_option (\<lambda>st'. (st', sb_block pos b r)) (add_unloaded (reference b) pos st)
   | PayloadEntry payload \<Rightarrow> Some (st, sb_payload pos payload r)
   | OwnBlockEntry d \<Rightarrow> map_option (\<lambda>st'. (st', sb_own_block d r)) (add_unloaded (reference (ob_block d)) pos st)
   | StateEntry state \<Rightarrow> Some (st, sb_state_entry state r)
   | CommitEntry cds committed \<Rightarrow> map_option (Pair st) (sb_commit_data cds committed r))"

fun replay_log :: "(nat \<times> wal_entry) list \<Rightarrow> block_store \<times> state_builder \<Rightarrow> (block_store \<times> state_builder) option" where
  "replay_log [] s = Some s"
| "replay_log ((pos, e) # wal) s = (case replay_entry pos e s of None \<Rightarrow> None | Some s' \<Rightarrow> replay_log wal s')"

definition store_open :: "mcommittee \<Rightarrow> nat \<Rightarrow> (nat \<times> wal_entry) list \<Rightarrow> core_recovered option" where
  "store_open c authority wal =
     map_option (\<lambda>(st, r). sb_build st r) (replay_log wal (bs_new c authority (log_read wal), sb_new))"

section \<open>Opening the core\<close>

text \<open>The clock after a restart counts the pending includes only.\<close>

fun clock_of_pending :: "mcommittee \<Rightarrow> nat \<Rightarrow> (nat \<times> meta_statement) list \<Rightarrow> threshold_clock \<Rightarrow> threshold_clock option" where
  "clock_of_pending c now [] t = Some t"
| "clock_of_pending c now ((_, Include r) # ps) t =
     (case tc_add_block c now r t of None \<Rightarrow> None | Some t' \<Rightarrow> clock_of_pending c now ps t')"
| "clock_of_pending c now ((_, Payload _) # ps) t = clock_of_pending c now ps t"

text \<open>The loop over the genesis blocks of the others.\<close>

fun open_genesis :: "mcore_env \<Rightarrow> nat \<Rightarrow> statement_block list \<Rightarrow> mcore \<Rightarrow> mcore option" where
  "open_genesis e now [] s = Some s"
| "open_genesis e now (b # bs) s =
     (case tc_add_block (me_committee e) now (reference b) (mo_clock s) of
        None \<Rightarrow> None
      | Some clock \<Rightarrow>
     (case wal_write (me_len e b) (mo_end s) of
        None \<Rightarrow> None
      | Some (pos, end') \<Rightarrow>
     (case writer_insert_block pos b (mo_store s) of
        None \<Rightarrow> None
      | Some st \<Rightarrow> open_genesis e now bs (s\<lparr>mo_clock := clock, mo_store := st,
          mo_wal := mo_wal s @ [(pos, BlockEntry b)], mo_end := end',
          mo_pending := mo_pending s @ [(pos, Include (reference b))]\<rparr>))))"

definition open_empty :: "mcore_env \<Rightarrow> nat \<Rightarrow> mcore \<Rightarrow> mcore option" where
  "open_empty e now s =
     (let (own, others) = mc_genesis_blocks (me_crypto e) (me_committee e) (me_authority e)
      in case open_genesis e now others s of
        None \<Rightarrow> None
      | Some s1 \<Rightarrow>
     (case tc_add_block (me_committee e) now (reference own) (mo_clock s1) of
        None \<Rightarrow> None
      | Some clock \<Rightarrow>
     (let d = \<lparr>ob_next_entry = wal_position_max, ob_block = own\<rparr>
      in map_option (\<lambda>(st, wal, end'). s1\<lparr>mo_clock := clock, mo_store := st, mo_wal := wal, mo_end := end',
            mo_last_own := d\<rparr>)
          (insert_own_block (me_len e) d (mo_store s1, mo_wal s1, mo_end s1)))))"

text \<open>
  \<open>Core::open\<close>; \<open>payload\<close> is what the block handler returns for the unprocessed blocks, \<open>wal\<close> and
  \<open>end'\<close> the file of the writer. The value given to \<open>mo_last_own\<close> before the genesis branch sets it
  is not read.
\<close>

definition mcore_open :: "mcore_env \<Rightarrow> nat \<Rightarrow> base_statement list \<Rightarrow> core_recovered \<Rightarrow>
    (nat \<times> wal_entry) list \<Rightarrow> nat \<Rightarrow> mcore option" where
  "mcore_open e now payload rec wal end' =
     (let c = me_committee e;
          s = \<lparr>mo_manager = bk_new c, mo_store = cr_store rec, mo_wal = wal, mo_end = end',
            mo_pending = cr_pending rec,
            mo_last_own = \<lparr>ob_next_entry = 0, ob_block = new_genesis (me_crypto e) (me_authority e) (mc_epoch c)\<rparr>,
            mo_clock = tc_new 0 now,
            mo_commit = (commit_state_new (me_rounds_in_epoch e))\<lparr>cs_last_decided :=
              (case cr_last_leader rec of None \<Rightarrow> genesis_slot | Some r \<Rightarrow> reference_to_slot r)\<rparr>,
            mo_force = False\<rparr>
      in case (case cr_last_own rec of
            Some d \<Rightarrow> map_option (\<lambda>t. s\<lparr>mo_clock := t, mo_last_own := d\<rparr>)
              (clock_of_pending c now (cr_pending rec) (tc_new 0 now))
          | None \<Rightarrow> if cr_pending rec \<noteq> [] then None else open_empty e now s) of
        None \<Rightarrow> None
      | Some s' \<Rightarrow> if cr_unprocessed rec = [] then Some s' else run_block_handler e payload s')"

text \<open>A node that starts on an empty log, and one that restarts on the log it has written.\<close>

definition mcore_start :: "mcore_env \<Rightarrow> nat \<Rightarrow> mcore option" where
  "mcore_start e now = (case store_open (me_committee e) (me_authority e) [] of
     None \<Rightarrow> None | Some rec \<Rightarrow> mcore_open e now [] rec [] 0)"

definition mcore_restart :: "mcore_env \<Rightarrow> nat \<Rightarrow> base_statement list \<Rightarrow> mcore \<Rightarrow> mcore option" where
  "mcore_restart e now payload s = (case store_open (me_committee e) (me_authority e) (mo_wal s) of
     None \<Rightarrow> None | Some rec \<Rightarrow> mcore_open e now payload rec (mo_wal s) (mo_end s))"

end
