(* ===== verification/MystiPropose.thy ===== *)
theory MystiPropose
  imports MystiCore
begin

text \<open>
  Mysticeti: proposing a block (\<open>Core::try_new_block\<close>), with the fissure attack, the compression of
  the includes and the certification race, and the rest of core.rs: commits, cleanup, readiness.
  The coins of the fissure attack are a stream of results of \<open>gen_bool\<close> (true excludes a block).
  Stakes are added with the wrap-around of \<open>u64\<close>.
\<close>

section \<open>What a proposal takes from the pending statements\<close>

fun include_of :: "meta_statement \<Rightarrow> block_reference option" where
  "include_of (Include r) = Some r"
| "include_of (Payload _) = None"

fun payload_of :: "meta_statement \<Rightarrow> base_statement list" where
  "payload_of (Include _) = []"
| "payload_of (Payload ss) = ss"

definition before_round :: "nat \<Rightarrow> nat \<times> meta_statement \<Rightarrow> bool" where
  "before_round n = (\<lambda>(_, m). case m of Include r \<Rightarrow> br_round r < n | Payload _ \<Rightarrow> True)"

definition split_pending :: "nat \<Rightarrow> (nat \<times> meta_statement) list \<Rightarrow>
    (nat \<times> meta_statement) list \<times> (nat \<times> meta_statement) list" where
  "split_pending n ps = (takeWhile (before_round n) ps, dropWhile (before_round n) ps)"

definition pending_includes :: "(nat \<times> meta_statement) list \<Rightarrow> block_reference list" where
  "pending_includes ps = List.map_filter (include_of \<circ> snd) ps"

definition stake_or_zero :: "mcommittee \<Rightarrow> nat \<Rightarrow> 64 word" where
  "stake_or_zero c a = (case mc_get_stake c a of None \<Rightarrow> 0 | Some s \<Rightarrow> s)"

section \<open>The fissure attack\<close>

text \<open>Whether a victim's block of round \<open>rnd\<close> is a target at round \<open>clock\<close>, in waves of \<open>wl\<close> rounds.\<close>

definition wave_target :: "nat \<Rightarrow> nat \<Rightarrow> nat \<Rightarrow> bool" where
  "wave_target wl clock rnd \<longleftrightarrow>
     rnd div wl = clock div wl \<or>
     (rnd div wl = clock div wl - 1 \<and> rnd mod wl = 2) \<or>
     (clock - rnd \<le> 1 \<and> 3 \<le> rnd) \<or>
     ((rnd mod wl = 2 \<or> rnd mod wl = 0) \<and> 3 \<le> rnd)"

definition slot_target :: "mcore_env \<Rightarrow> block_store \<Rightarrow> nat \<Rightarrow> nat \<times> nat \<Rightarrow> block_reference option option" where
  "slot_target e st clock = (\<lambda>(rnd, a).
     if role_of e a \<noteq> Victim then Some None
     else map_option (\<lambda>ob. case ob of None \<Rightarrow> None
         | Some b \<Rightarrow> if wave_target (me_wave_length e) clock rnd then Some (reference b) else None)
       (get_block_at_authority_round st a rnd))"

definition fissure_targets :: "mcore_env \<Rightarrow> block_store \<Rightarrow> nat \<Rightarrow> block_reference list option" where
  "fissure_targets e st clock =
     (if me_wave_length e = 0 then None
      else map_option (List.map_filter id) (those (map (slot_target e st clock)
        (List.product [clock - me_wave_length e * 2 ..< Suc clock] [0 ..< mc_len (me_committee e)]))))"

record fissure_sets =
  fi_attackers :: "block_reference list"
  fi_clean :: "block_reference list"
  fi_dirty :: "block_reference list"
  fi_targets :: "block_reference list"
  fi_others :: "block_reference list"
  fi_stake :: "64 word"

definition includes_target :: "block_store \<Rightarrow> block_reference list \<Rightarrow> block_reference \<Rightarrow> bool option" where
  "includes_target st targets i = map_option
     (\<lambda>ob. case ob of None \<Rightarrow> False | Some b \<Rightarrow> list_ex (\<lambda>p. p \<in> set targets) (block_includes b)) (get_block st i)"

text \<open>The first pass; \<open>q\<close> is the round of the parents.\<close>

fun fissure_sort :: "mcore_env \<Rightarrow> block_store \<Rightarrow> block_reference \<Rightarrow> nat \<Rightarrow> block_reference list \<Rightarrow>
    block_reference list \<Rightarrow> fissure_sets \<Rightarrow> fissure_sets option" where
  "fissure_sort e st own q targets [] f = Some f"
| "fissure_sort e st own q targets (i # is) f =
     (let counted = (if br_round i = q then fi_stake f + stake_or_zero (me_committee e) (br_authority i) else fi_stake f);
          role = role_of e (br_authority i)
      in if i = own then fissure_sort e st own q targets is f
         else if br_round i \<le> 2 then
           fissure_sort e st own q targets is (f\<lparr>fi_clean := fi_clean f @ [i], fi_stake := counted\<rparr>)
         else if role = FrontAttacker \<or> role = BackAttacker then
           fissure_sort e st own q targets is (f\<lparr>fi_attackers := fi_attackers f @ [i], fi_stake := counted\<rparr>)
         else if role \<noteq> Victim then
           (case includes_target st targets i of
              None \<Rightarrow> None
            | Some True \<Rightarrow> fissure_sort e st own q targets is (f\<lparr>fi_dirty := fi_dirty f @ [i]\<rparr>)
            | Some False \<Rightarrow>
                fissure_sort e st own q targets is (f\<lparr>fi_clean := fi_clean f @ [i], fi_stake := counted\<rparr>))
         else if i \<in> set targets then fissure_sort e st own q targets is (f\<lparr>fi_targets := fi_targets f @ [i]\<rparr>)
         else fissure_sort e st own q targets is (f\<lparr>fi_others := fi_others f @ [i]\<rparr>))"

text \<open>The third pass: blocks are taken until the parents carry the threshold.\<close>

fun fill_quorum :: "mcommittee \<Rightarrow> nat \<Rightarrow> block_reference list \<Rightarrow> block_reference list \<times> 64 word \<Rightarrow>
    block_reference list \<times> 64 word" where
  "fill_quorum c q [] s = s"
| "fill_quorum c q (i # is) (taken, stake) =
     (if mc_quorum c \<le> stake then (taken, stake)
      else fill_quorum c q is (taken @ [i],
        if br_round i = q then stake + stake_or_zero c (br_authority i) else stake))"

fun fissure_others :: "mcommittee \<Rightarrow> nat \<Rightarrow> (nat \<Rightarrow> bool) \<Rightarrow> nat \<Rightarrow> block_reference list \<Rightarrow>
    block_reference list \<times> 64 word \<Rightarrow> block_reference list \<times> 64 word" where
  "fissure_others c q coins k [] s = s"
| "fissure_others c q coins k (i # is) (taken, stake) =
     (let stake' = (if br_round i = q then stake + stake_or_zero c (br_authority i) else stake)
      in if br_round i = q \<and> stake < mc_quorum c then fissure_others c q coins k is (taken @ [i], stake')
         else if coins k then fissure_others c q coins (Suc k) is (taken, stake)
         else fissure_others c q coins (Suc k) is (taken @ [i], stake'))"

definition fissure_includes :: "mcore_env \<Rightarrow> (nat \<Rightarrow> bool) \<Rightarrow> block_store \<Rightarrow> block_reference \<Rightarrow> nat \<Rightarrow>
    block_reference list \<Rightarrow> block_reference list option" where
  "fissure_includes e coins st own clock all_includes =
     (let c = me_committee e; q = clock - 1
      in case fissure_targets e st clock of
        None \<Rightarrow> None
      | Some targets \<Rightarrow>
     (case fissure_sort e st own q targets all_includes
            \<lparr>fi_attackers = [], fi_clean = [], fi_dirty = [], fi_targets = [], fi_others = [],
             fi_stake = stake_or_zero c (me_authority e)\<rparr> of
        None \<Rightarrow> None
      | Some f \<Rightarrow> Some (fst (fissure_others c q coins 0 (fi_others f)
          (fill_quorum c q (fi_targets f)
            (fill_quorum c q (fi_dirty f) ([own] @ fi_clean f @ fi_attackers f, fi_stake f)))))))"

section \<open>Compression and the certification race\<close>

definition covered_references :: "block_store \<Rightarrow> block_reference list \<Rightarrow> block_reference list option" where
  "covered_references st incs = map_option concat (those (map (\<lambda>i. map_option
     (\<lambda>ob. case ob of None \<Rightarrow> [] | Some b \<Rightarrow> block_includes b) (get_block st i)) incs))"

definition race_seed :: "block_reference \<Rightarrow> 64 word" where
  "race_seed r = fold (\<lambda>(i, b) s. s XOR push_bit (i * 8) (ucast b)) (List.enumerate 0 (take 8 (br_digest r))) 0 +
     of_nat (br_round r) * 31 + of_nat (br_authority r) * 17"

definition race_excludes :: "f64 \<Rightarrow> block_reference \<Rightarrow> bool" where
  "race_excludes p r \<longleftrightarrow> f64_div (of_nat (unat (race_seed r mod 10000))) 10000 < p"

fun race_filter :: "mcore_env \<Rightarrow> block_reference \<Rightarrow> nat \<Rightarrow> block_reference list \<Rightarrow>
    block_reference list \<times> 64 word \<Rightarrow> block_reference list \<times> 64 word" where
  "race_filter e own q [] s = s"
| "race_filter e own q (i # is) (taken, stake) =
     (let c = me_committee e;
          keep = (taken @ [i], if br_round i = q then stake + stake_or_zero c (br_authority i) else stake)
      in if i = own then race_filter e own q is (taken, stake)
         else if br_round i \<le> 2 \<or> race_attacker e (br_authority i) \<or> \<not> race_victim e (br_authority i)
         then race_filter e own q is keep
         else if br_round i = q then
           (if mc_quorum c \<le> stake \<and> race_excludes (f64_of (60 / 100)) i
            then race_filter e own q is (taken, stake) else race_filter e own q is keep)
         else if race_excludes (f64_of (75 / 100)) i then race_filter e own q is (taken, stake)
         else race_filter e own q is keep)"

text \<open>The order of the includes: the own block, then attackers, then by round and authority.\<close>

definition race_key :: "mcore_env \<Rightarrow> block_reference \<Rightarrow> block_reference \<Rightarrow> bool \<times> bool \<times> nat \<times> nat" where
  "race_key e own i = (i \<noteq> own, \<not> race_attacker e (br_authority i), br_round i, br_authority i)"

definition race_includes :: "mcore_env \<Rightarrow> block_reference \<Rightarrow> nat \<Rightarrow> block_reference list \<Rightarrow> block_reference list" where
  "race_includes e own clock incs =
     (if me_attack_mode e \<noteq> ''certification_race'' then incs
      else if race_attacker e (me_authority e)
      then sort_key (race_key e own) (fst (race_filter e own (clock - 1) incs ([own], 0)))
      else sort_key (race_key e own) incs)"

definition compress :: "block_reference \<Rightarrow> block_reference list \<Rightarrow> block_reference list \<Rightarrow> block_reference list" where
  "compress own covered incs = filter (\<lambda>i. i = own \<or> i \<notin> set covered) incs"

section \<open>The proposal\<close>

definition proposal_includes :: "mcore_env \<Rightarrow> (nat \<Rightarrow> bool) \<Rightarrow> mcore \<Rightarrow> block_reference list option" where
  "proposal_includes e coins s =
     (let clock = tc_round (mo_clock s); own = own_prev s;
          all_includes = own # pending_includes (fst (split_pending clock (mo_pending s)))
      in case (if role_of e (me_authority e) = FrontAttacker \<and> me_attack_mode e = ''fissure''
               then fissure_includes e coins (mo_store s) own clock all_includes else Some all_includes) of
        None \<Rightarrow> None
      | Some incs \<Rightarrow>
          map_option (\<lambda>covered. compress own covered (race_includes e own clock incs))
            (covered_references (mo_store s) incs))"

definition proposal_statements :: "mcore \<Rightarrow> base_statement list" where
  "proposal_statements s =
     (if epoch_changing s then []
      else concat (map (payload_of \<circ> snd) (fst (split_pending (tc_round (mo_clock s)) (mo_pending s)))))"

definition max_entry_size :: nat where
  "max_entry_size = map_size - header_len_bytes"

text \<open>
  The panics: no include, a first include of another authority, an oversized block. \<open>time\<close> is the
  creation time in nanoseconds, \<open>now\<close> the time for the clock.
\<close>

definition mcore_try_new_block :: "mcore_env \<Rightarrow> nat \<Rightarrow> nat \<Rightarrow> (nat \<Rightarrow> bool) \<Rightarrow> mcore \<Rightarrow>
    (statement_block option \<times> mcore) option" where
  "mcore_try_new_block e now time coins s =
     (let clock = tc_round (mo_clock s)
      in if clock \<le> last_proposed s then Some (None, s)
      else case proposal_includes e coins s of
        None \<Rightarrow> None
      | Some [] \<Rightarrow> None
      | Some (i # is) \<Rightarrow>
     (let pending = snd (split_pending clock (mo_pending s));
          b = statement_block_with_signer (me_crypto e) (me_sign e) (me_authority e) clock (i # is)
            (proposal_statements s) time (epoch_changing s) (mc_epoch (me_committee e))
      in if br_authority i \<noteq> me_authority e \<or> max_entry_size div 2 < me_len e b then None
      else case tc_add_block (me_committee e) now (reference b) (mo_clock s) of
        None \<Rightarrow> None
      | Some clock' \<Rightarrow>
     (let d = \<lparr>ob_next_entry = (case pending of [] \<Rightarrow> wal_position_max | (pos, _) # _ \<Rightarrow> pos), ob_block = b\<rparr>
      in map_option (\<lambda>(st, wal, end'). (Some b, s\<lparr>mo_store := st, mo_wal := wal, mo_end := end',
            mo_pending := pending, mo_last_own := d, mo_clock := clock'\<rparr>))
          (insert_own_block (me_len e) d (mo_store s, mo_wal s, mo_end s)))))"

section \<open>Commits, cleanup and readiness\<close>

definition mcore_try_commit :: "mcore_env \<Rightarrow> mcore \<Rightarrow> (statement_block list \<times> mcore) option" where
  "mcore_try_commit e s = map_option (\<lambda>(bs, k). (bs, s\<lparr>mo_commit := k\<rparr>))
     (core_try_commit (me_weighted e) (me_committers e) (mo_store s) (mo_commit s))"

text \<open>
  \<open>state\<close> is the block handler's state, \<open>committed\<close> that of the commit observer; \<open>commits_len\<close> is the
  length of the encoded commits.
\<close>

definition mcore_handle_committed :: "mcore_env \<Rightarrow> nat \<Rightarrow> bytes \<Rightarrow> bytes \<Rightarrow> (commit_data list \<Rightarrow> bytes \<Rightarrow> nat) \<Rightarrow>
    committed_sub_dag list \<Rightarrow> mcore \<Rightarrow> (commit_data list \<times> mcore) option" where
  "mcore_handle_committed e now state committed commits_len ds s =
     (let cds = map commit_data_of ds
      in case em_observe_all (me_committee e) now (concat (map sd_blocks ds)) (cs_epoch_manager (mo_commit s)) of
        None \<Rightarrow> None
      | Some em \<Rightarrow>
     (case wal_write (length state) (mo_end s) of
        None \<Rightarrow> None
      | Some (pos1, end1) \<Rightarrow>
     (case wal_write (commits_len cds committed) end1 of
        None \<Rightarrow> None
      | Some (pos2, end2) \<Rightarrow> Some (cds, s\<lparr>mo_commit := (mo_commit s)\<lparr>cs_epoch_manager := em\<rparr>,
          mo_wal := mo_wal s @ [(pos1, StateEntry state), (pos2, CommitEntry cds committed)], mo_end := end2\<rparr>))))"

definition mcore_cleanup :: "mcore_env \<Rightarrow> mcore \<Rightarrow> mcore" where
  "mcore_cleanup e s = s\<lparr>mo_store :=
     bs_cleanup (ar_round (cs_last_decided (mo_commit s)) - me_store_retain_rounds e) (mo_store s)\<rparr>"

definition mcore_leaders :: "mcore_env \<Rightarrow> nat \<Rightarrow> validator list option" where
  "mcore_leaders e rnd = (case uc_get_leaders (me_weighted e) (me_committers e) rnd of
     None \<Rightarrow> None | Some as \<Rightarrow> those (map (mc_authority_safe (me_committee e)) as))"

text \<open>
  Whether the node has seen what it needs of the last round: \<open>period - 1\<close> wraps at zero in a release
  build, and then no round is large enough.
\<close>

definition mcore_ready :: "mcore_env \<Rightarrow> nat \<Rightarrow> authority_set \<Rightarrow> mcore \<Rightarrow> bool option" where
  "mcore_ready e period links s =
     (let quorum_round = tc_round (mo_clock s)
      in if quorum_round \<le> max (ar_round (cs_last_decided (mo_commit s))) (u64_sub period 1) then Some False
      else case uc_get_leaders (me_weighted e) (me_committers e) (quorum_round - 1) of
        None \<Rightarrow> None
      | Some leaders \<Rightarrow>
     (case those (map (\<lambda>a. as_contains a links) leaders) of
        None \<Rightarrow> None
      | Some flags \<Rightarrow>
     (let present = map fst (filter snd (zip leaders flags))
      in Some (leaders = [] \<or> present = [] \<or>
          all_blocks_exists_at_authority_round (mo_store s) present (quorum_round - 1)))))"

definition mcore_take_force :: "mcore \<Rightarrow> bool \<times> mcore" where
  "mcore_take_force s = (mo_force s, s\<lparr>mo_force := False\<rparr>)"

end
