(* ===== verification/MystiCoreInv.thy ===== *)
theory MystiCoreInv
  imports MystiRecover MystiPropose
begin

text \<open>
  Mysticeti: the invariant of a core. Its store holds what its log holds, in causal order; every
  block of its last round or later that its own last block does not reach is pending; its clock
  counts stored blocks, the pending ones among them; and the log replays to the pending statements.
\<close>

section \<open>Blocks of the log\<close>

definition wal_blocks :: "(nat \<times> wal_entry) list \<Rightarrow> (nat \<times> statement_block) list" where
  "wal_blocks wal = List.map_filter (\<lambda>(pos, en). map_option (Pair pos) (log_block en)) wal"

lemma wal_blocks_simps [simp]:
  "wal_blocks [] = []"
  "wal_blocks ((pos, en) # wal) = (case log_block en of None \<Rightarrow> [] | Some b \<Rightarrow> [(pos, b)]) @ wal_blocks wal"
  "wal_blocks (xs @ ys) = wal_blocks xs @ wal_blocks ys"
  by (simp_all add: wal_blocks_def List.map_filter_simps List.map_filter_def split: option.splits)

lemma log_block_simps [simp]:
  "log_block (BlockEntry b) = Some b" "log_block (PayloadEntry p) = None"
  "log_block (OwnBlockEntry d) = Some (ob_block d)" "log_block (StateEntry t) = None"
  "log_block (CommitEntry cds t) = None"
  by (simp_all add: log_block_def)

lemma wal_blocks_batch [simp]: "wal_blocks (map (\<lambda>(pos, b). (pos, BlockEntry b)) new) = new"
  by (induction new) auto

lemma set_wal_blocks: "(pos, b) \<in> set (wal_blocks wal) \<longleftrightarrow> (\<exists>en. (pos, en) \<in> set wal \<and> log_block en = Some b)"
  by (induction wal) (auto split: option.splits)

lemma wal_blocks_order: "sorted_wrt (<) (map fst wal) \<Longrightarrow> sorted_wrt (<) (map fst (wal_blocks wal))"
proof (induction wal)
  case (Cons x wal)
  obtain pos en where x: "x = (pos, en)" by (cases x)
  have "\<forall>y \<in> set (wal_blocks wal). pos < fst y"
    using Cons.prems by (fastforce simp: x set_wal_blocks)
  then show ?case using Cons by (auto simp: x split: option.splits)
qed simp

definition wal_ordered :: "(nat \<times> wal_entry) list \<Rightarrow> nat \<Rightarrow> bool" where
  "wal_ordered wal end' \<longleftrightarrow> sorted_wrt (<) (map fst wal) \<and> (\<forall>x \<in> set wal. fst x < end')"

lemma wal_ordered_empty [simp]: "wal_ordered [] n"
  by (simp add: wal_ordered_def)

lemma wal_ordered_write:
  assumes "wal_ordered wal end'" "wal_write k end' = Some (pos, end2)"
  shows "wal_ordered (wal @ [(pos, en)]) end2"
  using assms(1) wal_write_later [OF assms(2)] by (fastforce simp: wal_ordered_def sorted_wrt_append)

lemma wal_ordered_batch:
  assumes "wal_ordered wal end'" "end' \<le> end2" "sorted_wrt (<) (map fst new)"
    and "\<forall>x \<in> set new. end' \<le> fst x \<and> fst x < end2" "map fst es = map fst new"
  shows "wal_ordered (wal @ es) end2"
proof -
  have "fst ` set es = fst ` set new" using assms(5) by (metis list.set_map)
  then have es: "end' \<le> fst x \<and> fst x < end2" if "x \<in> set es" for x using assms(4) that by (metis image_iff)
  have wal: "sorted_wrt (<) (map fst wal)" "\<And>x. x \<in> set wal \<Longrightarrow> fst x < end'"
    using assms(1) by (auto simp: wal_ordered_def)
  show ?thesis
    unfolding wal_ordered_def
  proof (intro conjI ballI)
    have "fst x < fst y" if "x \<in> set wal" "y \<in> set es" for x y
      using wal(2) [OF that(1)] es [OF that(2)] by linarith
    moreover have "sorted_wrt (<) (map fst es)" using assms(3,5) by simp
    ultimately show "sorted_wrt (<) (map fst (wal @ es))"
      using wal(1) by (fastforce simp: sorted_wrt_append)
    fix x assume "x \<in> set (wal @ es)"
    then show "fst x < end2" using wal(2) [of x] es [of x] assms(2) by auto
  qed
qed

lemma wal_ordered_distinct: "wal_ordered wal n \<Longrightarrow> distinct (map fst wal)"
  using strict_sorted_distinct [of "map fst wal"] by (simp add: wal_ordered_def)

lemma wal_ordered_unique:
  assumes "wal_ordered wal n" "(pos, x) \<in> set wal" "(pos, y) \<in> set wal"
  shows "x = y"
  using wal_ordered_distinct [OF assms(1)] assms(2,3) by (meson eq_key_imp_eq_value)

lemma dom_put_blocks: "dom (put_blocks bs f) = dom f \<union> reference ` set bs"
  by (induction bs arbitrary: f) (auto simp: put_blocks_def)

lemma put_blocks_Some:
  assumes "distinct (map reference bs)" "b \<in> set bs"
  shows "put_blocks bs f (reference b) = Some b"
  using assms
proof (induction bs rule: rev_induct)
  case (snoc x bs)
  then show ?case by (cases "b = x") (auto simp: image_iff)
qed simp

lemma put_blocks_range:
  "put_blocks bs f r = Some b \<Longrightarrow> b \<in> set bs \<or> f r = Some b"
  by (induction bs arbitrary: f rule: rev_induct) (auto simp: put_blocks_def split: if_splits)

lemma put_blocks_nil [simp]: "put_blocks [] f = f"
  by (simp add: put_blocks_def)

text \<open>The store holds the blocks of the log, each written after those it includes.\<close>

definition wal_store :: "(nat \<times> wal_entry) list \<Rightarrow> block_store \<Rightarrow> bool" where
  "wal_store wal st \<longleftrightarrow> store_wf st \<and> causal_from {} (map snd (wal_blocks wal)) \<and>
     block_at st = put_blocks (map snd (wal_blocks wal)) Map.empty"

lemma wal_store_stored:
  assumes "wal_store wal st"
  shows "stored st = reference ` snd ` set (wal_blocks wal)"
proof -
  have "stored st = dom (block_at st)"
    using assms by (auto simp: stored_def wal_store_def block_exists_iff)
  then show ?thesis using assms by (simp add: wal_store_def dom_put_blocks)
qed

lemma wal_store_holds:
  assumes "wal_store wal st"
  shows "bs_holds st b \<longleftrightarrow> b \<in> snd ` set (wal_blocks wal)"
proof -
  have d: "distinct (map reference (map snd (wal_blocks wal)))"
    using assms causal_from_distinct unfolding wal_store_def by blast
  have "block_at st = put_blocks (map snd (wal_blocks wal)) Map.empty" using assms by (simp add: wal_store_def)
  then show ?thesis
    using put_blocks_Some [OF d, of b Map.empty] put_blocks_range [of "map snd (wal_blocks wal)" Map.empty "reference b" b]
    by (auto simp: bs_holds_def)
qed

lemma causal_from_includes:
  assumes "causal_from S (xs @ b # ys)"
  shows "set (block_includes b) \<subseteq> S \<union> reference ` set xs"
  using assms by (simp add: causal_from_append)

text \<open>An included block lies at a lower position.\<close>

lemma wal_included_before:
  assumes st: "wal_store wal st" and o: "sorted_wrt (<) (map fst wal)"
    and b: "(p, b) \<in> set (wal_blocks wal)" and i: "i \<in> set (block_includes b)"
  shows "\<exists>q x. (q, x) \<in> set (wal_blocks wal) \<and> reference x = i \<and> q < p"
proof -
  from b obtain xs ys where s: "wal_blocks wal = xs @ (p, b) # ys" by (auto simp: in_set_conv_decomp)
  have "causal_from {} (map snd xs @ b # map snd ys)"
    using st by (simp add: wal_store_def s)
  from causal_from_includes [OF this] i obtain q x where x: "(q, x) \<in> set xs" "reference x = i" by auto
  have "sorted_wrt (<) (map fst xs @ p # map fst ys)"
    using wal_blocks_order [OF o] by (simp add: s)
  then have "q < p" using x(1) by (force simp: sorted_wrt_append)
  then show ?thesis using x s by auto
qed

lemma wal_reference_unique:
  assumes "wal_store wal st" "(p, b) \<in> set (wal_blocks wal)" "(q, x) \<in> set (wal_blocks wal)" "reference b = reference x"
  shows "p = q" "b = x"
proof -
  have "distinct (map reference (map snd (wal_blocks wal)))"
    using assms(1) causal_from_distinct unfolding wal_store_def by blast
  then have d: "distinct (map (reference \<circ> snd) (wal_blocks wal))" by simp
  then have "inj_on (reference \<circ> snd) (set (wal_blocks wal))" by (simp add: distinct_map)
  from inj_onD [OF this _ assms(2,3)] assms(4) have "(p, b) = (q, x)" by simp
  then show "p = q" "b = x" by simp_all
qed

section \<open>The blocks a core may hold\<close>

definition well_referenced :: "mcommittee \<Rightarrow> statement_block \<Rightarrow> bool" where
  "well_referenced c b \<longleftrightarrow> block_author b < mc_len c \<and>
     (\<forall>i \<in> set (block_includes b). br_authority i < mc_len c \<and> br_round i < block_round b) \<and>
     (0 < block_round b \<longrightarrow> mc_has_quorum c (parent_authorities b))"

lemma verified_well_referenced: "verified cr c b \<Longrightarrow> well_referenced c b"
  by (simp add: verified_def well_referenced_def)

lemma wal_store_dag:
  assumes st: "wal_store wal st" and ok: "\<forall>x \<in> set (wal_blocks wal). well_referenced c (snd x)"
  shows "dag_ok c st"
  unfolding dag_ok_def list_all_iff
proof (intro conjI ballI)
  show wf: "store_wf st" using st by (simp add: wal_store_def)
  fix b assume "b \<in> set (all_blocks st)"
  then have "bs_holds st b" by (simp add: set_all_blocks [OF wf])
  then obtain p where p: "(p, b) \<in> set (wal_blocks wal)" using wal_store_holds [OF st] by auto
  from p obtain xs ys where s: "wal_blocks wal = xs @ (p, b) # ys" by (auto simp: in_set_conv_decomp)
  have "causal_from {} (map snd xs @ b # map snd ys)"
    using st by (simp add: wal_store_def s)
  from causal_from_includes [OF this] have "set (block_includes b) \<subseteq> stored st"
    unfolding wal_store_stored [OF st] by (auto simp: s)
  moreover have "well_referenced c b" using ok p by force
  ultimately show "dag_block_ok c st b"
    using block_exists_iff [OF wf] by (auto simp: dag_block_ok_def well_referenced_def list_all_iff stored_def)
qed

section \<open>The store\<close>

definition core_store_inv :: "mcore_env \<Rightarrow> mcore \<Rightarrow> bool" where
  "core_store_inv e s \<longleftrightarrow> bs_authority (mo_store s) = me_authority e \<and>
     manager_inv (me_len e) (mc_len (me_committee e)) (mo_manager s) (mo_store s) (mo_end s) [] \<and>
     wal_ordered (mo_wal s) (mo_end s) \<and> wal_store (mo_wal s) (mo_store s) \<and>
     (\<forall>b \<in> snd ` set (bk_pending (mo_manager s)). well_referenced (me_committee e) b \<and> 0 < block_round b) \<and>
     (\<forall>x \<in> set (wal_blocks (mo_wal s)). well_referenced (me_committee e) (snd x)) \<and>
     bs_holds (mo_store s) (ob_block (mo_last_own s)) \<and> br_authority (own_prev s) = me_authority e \<and>
     (\<forall>r \<in> stored (mo_store s). br_authority r = me_authority e \<longrightarrow> br_round r \<le> last_proposed s)"

lemma core_store_invD:
  assumes "core_store_inv e s"
  shows "bs_authority (mo_store s) = me_authority e"
    "manager_inv (me_len e) (mc_len (me_committee e)) (mo_manager s) (mo_store s) (mo_end s) []"
    "wal_ordered (mo_wal s) (mo_end s)" "wal_store (mo_wal s) (mo_store s)"
    "\<And>b. b \<in> snd ` set (bk_pending (mo_manager s)) \<Longrightarrow> well_referenced (me_committee e) b \<and> 0 < block_round b"
    "\<forall>x \<in> set (wal_blocks (mo_wal s)). well_referenced (me_committee e) (snd x)"
    "bs_holds (mo_store s) (ob_block (mo_last_own s))" "br_authority (own_prev s) = me_authority e"
    "\<And>r. r \<in> stored (mo_store s) \<Longrightarrow> br_authority r = me_authority e \<Longrightarrow> br_round r \<le> last_proposed s"
    "store_wf (mo_store s)" "log_ok (mo_store s) (mo_end s)"
    "length (bs_last_seen (mo_store s)) = mc_len (me_committee e)"
    "dag_ok (me_committee e) (mo_store s)"
  using assms wal_store_dag [of "mo_wal s" "mo_store s" "me_committee e"]
  unfolding core_store_inv_def manager_inv_def sized_def by blast+

lemma stored_iff: "store_wf st \<Longrightarrow> r \<in> stored st \<longleftrightarrow> block_at st r \<noteq> None"
  by (simp add: stored_def block_exists_iff)

lemma holds_stored: "store_wf st \<Longrightarrow> bs_holds st b \<Longrightarrow> reference b \<in> stored st"
  by (simp add: stored_iff bs_holds_def)

lemma stored_holds:
  assumes "store_wf st" "r \<in> stored st"
  obtains b where "bs_holds st b" "reference b = r" "block_at st r = Some b"
proof -
  from assms obtain b where b: "block_at st r = Some b" by (auto simp: stored_iff)
  from bs_holds_lookup [OF assms(1) b] b that show ?thesis by blast
qed

lemma own_prev_stored: "core_store_inv e s \<Longrightarrow> own_prev s \<in> stored (mo_store s)"
  using core_store_invD(7,10) by (simp add: own_prev_def holds_stored)

lemma stored_authority:
  assumes "core_store_inv e s" "r \<in> stored (mo_store s)"
  shows "br_authority r < mc_len (me_committee e)"
proof -
  obtain b where "bs_holds (mo_store s) b" "reference b = r"
    using stored_holds [OF core_store_invD(10) [OF assms(1)] assms(2)] by metis
  then show ?thesis
    using dag_ok_block [OF core_store_invD(13) [OF assms(1)]] by (auto simp: dag_block_ok_def block_author_def)
qed

lemma own_round_free:
  assumes inv: "core_store_inv e s" and n: "last_proposed s < n"
  shows "map_of (bs_own_blocks (mo_store s)) n = None"
proof (cases "map_of (bs_own_blocks (mo_store s)) n")
  case (Some d)
  then have "own_entry_ok (mo_store s) (n, d)"
    using core_store_invD(10) [OF inv] unfolding store_wf_alt by blast
  then have "\<lparr>br_authority = me_authority e, br_round = n, br_digest = d\<rparr> \<in> stored (mo_store s)"
    using core_store_invD(1) [OF inv] by (simp add: own_entry_ok_def stored_def)
  from core_store_invD(9) [OF inv this] n show ?thesis by simp
qed

text \<open>An own block, which no pending block waits for, does not concern the manager.\<close>

lemma manager_inv_own_block:
  assumes inv: "manager_inv len n m st end' []" and own: "block_author b = bs_authority st"
    and st': "store_wf st'" "log_ok st' end2" "block_at st' = (block_at st)(reference b \<mapsto> b)"
      "bs_authority st' = bs_authority st" "length (bs_last_seen st') = length (bs_last_seen st)"
    and none: "map_of (bk_waiting m) (reference b) = None"
  shows "manager_inv len n m st' end2 []"
proof -
  note i = inv [unfolded manager_inv_def]
  have wf: "store_wf st" and po: "pending_ok len n m st []" and wo: "waiting_ok m st" using i by auto
  note ex = exists_block_at [OF wf st'(3,1)]
  have "pending_ok len n m st' []"
    unfolding pending_ok_def
  proof (intro allI impI)
    fix r p assume p: "map_of (bk_pending m) r = Some p"
    note d = pending_okD [OF po p]
    have other: "r \<noteq> reference b" using d(4) own by (auto simp: block_author_def)
    obtain i where i: "i \<in> set (block_includes p)" "\<not> block_exists st i" using d(6) by blast
    have "i \<noteq> reference b" using pending_waits [OF po wo p i(1)] i(2) none by auto
    then have "\<exists>i \<in> set (block_includes p). \<not> block_exists st' i" using i ex by blast
    then show "reference p = r \<and> \<not> block_exists st' r \<and> admissible len n p \<and> br_authority r \<noteq> bs_authority st' \<and>
        r \<notin> reference ` set [] \<and> (\<exists>i \<in> set (block_includes p). \<not> block_exists st' i) \<and>
        (\<forall>i \<in> set (block_includes p). \<not> block_exists st' i \<longrightarrow> r \<in> set (waiters m i))"
      using d other ex by (auto simp: st'(4))
  qed
  moreover have "waiting_ok m st'"
    unfolding waiting_ok_def
  proof (intro allI impI)
    fix k ws assume k: "map_of (bk_waiting m) k = Some ws"
    note d = waiting_okD [OF wo k]
    have "k \<noteq> reference b" using k none by auto
    then show "\<not> block_exists st' k \<and> ws \<noteq> [] \<and> distinct ws \<and>
        (\<forall>w \<in> set ws. \<exists>b. map_of (bk_pending m) w = Some b \<and> k \<in> set (block_includes b))"
      using d ex by blast
  qed
  ultimately show ?thesis
    using i st' by (simp add: manager_inv_def sized_def released_ok_def)
qed

lemma insert_own_spec:
  assumes inv: "core_store_inv e s" and own: "block_author (ob_block d) = me_authority e"
    and n: "last_proposed s < block_round (ob_block d)" and ok: "well_referenced (me_committee e) (ob_block d)"
    and inc: "set (block_includes (ob_block d)) \<subseteq> stored (mo_store s)"
    and none: "map_of (bk_waiting (mo_manager s)) (reference (ob_block d)) = None"
    and size: "8 + me_len e (ob_block d) + header_len_bytes \<le> map_size"
  shows "\<exists>st' pos end2. insert_own_block (me_len e) d (mo_store s, mo_wal s, mo_end s) =
      Some (st', mo_wal s @ [(pos, OwnBlockEntry d)], end2) \<and> mo_end s \<le> pos \<and> pos < end2 \<and>
      stored st' = insert (reference (ob_block d)) (stored (mo_store s)) \<and>
      core_store_inv e (s\<lparr>mo_store := st', mo_wal := mo_wal s @ [(pos, OwnBlockEntry d)], mo_end := end2,
        mo_last_own := d\<rparr>)"
proof -
  let ?b = "ob_block d" and ?st = "mo_store s"
  note D = core_store_invD [OF inv]
  obtain pos end2 where w: "wal_write (8 + me_len e ?b) (mo_end s) = Some (pos, end2)"
    using size wal_write_Some [of "8 + me_len e ?b" "mo_end s"] by auto
  note pos = wal_write_later [OF w]
  have a: "block_author ?b < length (bs_last_seen ?st)"
    using ok D(12) by (simp add: well_referenced_def)
  have "map_of (bs_own_blocks ?st) (block_round ?b) = None" by (rule own_round_free [OF inv n])
  from writer_insert_spec [OF D(10,11) w a this] obtain st' where
    st': "writer_insert_block pos ?b ?st = Some st'" "store_wf st'" "log_ok st' end2"
    "block_at st' = (block_at ?st)(reference ?b \<mapsto> ?b)" "bs_authority st' = bs_authority ?st"
    "length (bs_last_seen st') = length (bs_last_seen ?st)" by blast
  let ?wal = "mo_wal s @ [(pos, OwnBlockEntry d)]"
  have stored': "stored st' = insert (reference ?b) (stored ?st)"
    using exists_block_at [OF D(10) st'(4,2)] by (auto simp: stored_def)
  have new: "reference ?b \<notin> stored ?st"
    using D(9) [of "reference ?b"] own n by (auto simp: block_author_def block_round_def)
  have "wal_store ?wal st'"
    using D(4) st'(2,4) new inc wal_store_stored [OF D(4)]
    by (auto simp: wal_store_def causal_from_append)
  moreover have "manager_inv (me_len e) (mc_len (me_committee e)) (mo_manager s) st' end2 []"
    by (rule manager_inv_own_block [OF D(2) _ st'(2-6) none]) (simp add: own D(1))
  moreover have "bs_holds st' ?b" by (simp add: bs_holds_def st'(4))
  moreover have "br_round r \<le> block_round ?b" if "r \<in> stored st'" "br_authority r = me_authority e" for r
    using that D(9) [of r] n by (auto simp: stored' block_round_def)
  ultimately have "core_store_inv e (s\<lparr>mo_store := st', mo_wal := ?wal, mo_end := end2, mo_last_own := d\<rparr>)"
    using D(1,5,6) st'(5) own ok wal_ordered_write [OF D(3) w, of "OwnBlockEntry d"]
    by (auto simp: core_store_inv_def own_prev_def last_proposed_def block_author_def)
  then show ?thesis
    using w st'(1) pos stored' by (simp add: insert_own_block_def)
qed

section \<open>The pending statements and the clock\<close>

text \<open>What an entry of the log adds to the pending statements.\<close>

fun entry_meta :: "wal_entry \<Rightarrow> meta_statement option" where
  "entry_meta (BlockEntry b) = Some (Include (reference b))"
| "entry_meta (PayloadEntry payload) = Some (Payload payload)"
| "entry_meta _ = None"

definition pending_in_wal :: "(nat \<times> wal_entry) list \<Rightarrow> (nat \<times> meta_statement) list \<Rightarrow> bool" where
  "pending_in_wal wal ps \<longleftrightarrow> (\<forall>x \<in> set ps. \<exists>en. (fst x, en) \<in> set wal \<and> entry_meta en = Some (snd x))"

lemma entry_meta_Include: "entry_meta en = Some (Include r) \<longleftrightarrow> (\<exists>b. en = BlockEntry b \<and> reference b = r)"
  by (cases en) auto

lemma entry_meta_Payload: "entry_meta en = Some (Payload x) \<longleftrightarrow> en = PayloadEntry x"
  by (cases en) auto

definition pend_before :: "nat \<times> meta_statement \<Rightarrow> nat \<times> meta_statement \<Rightarrow> bool" where
  "pend_before x y \<longleftrightarrow> fst x < fst y \<or>
     (\<exists>r q. snd x = Include r \<and> snd y = Include q \<and> br_round r < br_round q)"

definition genesis_include :: "nat \<times> meta_statement \<Rightarrow> bool" where
  "genesis_include x \<longleftrightarrow> (\<exists>r. snd x = Include r \<and> br_round r = 0)"

text \<open>
  The order of the pending statements: by position, but the includes of one call by round; the
  genesis blocks come first.
\<close>

definition pending_sorted :: "(nat \<times> meta_statement) list \<Rightarrow> bool" where
  "pending_sorted = sorted_wrt (\<lambda>x y. pend_before x y \<and> (genesis_include y \<longrightarrow> genesis_include x))"

definition core_pending_inv :: "mcore_env \<Rightarrow> mcore \<Rightarrow> bool" where
  "core_pending_inv e s \<longleftrightarrow> pending_in_wal (mo_wal s) (mo_pending s) \<and> pending_sorted (mo_pending s) \<and>
     (\<forall>r \<in> stored (mo_store s). last_proposed s \<le> br_round r \<longrightarrow> r \<noteq> own_prev s \<longrightarrow>
        r \<in> set (pending_includes (mo_pending s))) \<and>
     (\<forall>x \<in> set (mo_pending s). ranges_ok (payload_of (snd x))) \<and>
     (\<exists>B. set (pending_includes (mo_pending s)) \<subseteq> B \<and> B \<subseteq> stored (mo_store s) \<and>
        clock_inv (me_committee e) B (mo_clock s))"

lemma core_pending_invD:
  assumes "core_pending_inv e s"
  shows "pending_in_wal (mo_wal s) (mo_pending s)" "pending_sorted (mo_pending s)"
    "\<And>r. r \<in> stored (mo_store s) \<Longrightarrow> last_proposed s \<le> br_round r \<Longrightarrow> r \<noteq> own_prev s \<Longrightarrow>
       r \<in> set (pending_includes (mo_pending s))"
    "\<And>x. x \<in> set (mo_pending s) \<Longrightarrow> ranges_ok (payload_of (snd x))"
    "\<exists>B. set (pending_includes (mo_pending s)) \<subseteq> B \<and> B \<subseteq> stored (mo_store s) \<and>
        clock_inv (me_committee e) B (mo_clock s)"
  using assms unfolding core_pending_inv_def by blast+

lemma pending_includes_simps [simp]:
  "pending_includes [] = []"
  "pending_includes ((p, Include r) # ps) = r # pending_includes ps"
  "pending_includes ((p, Payload ss) # ps) = pending_includes ps"
  "pending_includes (xs @ ys) = pending_includes xs @ pending_includes ys"
  by (simp_all add: pending_includes_def List.map_filter_simps List.map_filter_def)

lemma set_pending_includes: "r \<in> set (pending_includes ps) \<longleftrightarrow> (\<exists>p. (p, Include r) \<in> set ps)"
proof (induction ps)
  case (Cons x ps)
  then show ?case by (cases x; cases "snd x") auto
qed simp

definition include_entries :: "(nat \<times> statement_block) list \<Rightarrow> (nat \<times> meta_statement) list" where
  "include_entries new = map (\<lambda>(pos, b). (pos, Include (reference b))) new"

lemma pending_include_entries [simp]: "pending_includes (include_entries new) = map (reference \<circ> snd) new"
  by (induction new) (auto simp: include_entries_def)

lemma pending_in_wal_mono: "pending_in_wal wal ps \<Longrightarrow> set wal \<subseteq> set wal' \<Longrightarrow> pending_in_wal wal' ps"
  unfolding pending_in_wal_def by blast

lemma pending_in_wal_append [simp]:
  "pending_in_wal wal (xs @ ys) \<longleftrightarrow> pending_in_wal wal xs \<and> pending_in_wal wal ys"
  by (auto simp: pending_in_wal_def)

lemma pending_in_wal_subset: "pending_in_wal wal ys \<Longrightarrow> set xs \<subseteq> set ys \<Longrightarrow> pending_in_wal wal xs"
  by (auto simp: pending_in_wal_def)

lemma pending_in_wal_position:
  assumes "pending_in_wal wal ps" "wal_ordered wal n" "x \<in> set ps"
  shows "fst x < n"
  using assms by (fastforce simp: pending_in_wal_def wal_ordered_def)

lemma accept_includes_run:
  assumes "\<forall>x \<in> set bs. block_author (snd x) < mc_len c"
  shows "accept_includes c now bs (t, ps) = map_option (\<lambda>t'. (t', ps @ include_entries bs))
    (tc_run c (map (\<lambda>x. (now, reference (snd x))) bs) t)"
  using assms
proof (induction bs arbitrary: t ps)
  case (Cons x bs)
  then show ?case
    by (cases x) (auto simp: include_entries_def mc_authority_safe_def split: option.splits)
qed (simp add: include_entries_def)

lemma clock_of_pending_run:
  "clock_of_pending c now ps t = tc_run c (map (Pair now) (pending_includes ps)) t"
  by (induction c now ps t rule: clock_of_pending.induct) (auto split: option.splits)

text \<open>A stable sort orders equal keys as before.\<close>

lemma insort_key_stable_wrt:
  assumes "sorted_wrt (\<lambda>x y. f x < f y \<or> f x = f y \<and> R x y) ys" "\<forall>y \<in> set ys. R x y"
  shows "sorted_wrt (\<lambda>x y. f x < (f y :: 'k :: linorder) \<or> f x = f y \<and> R x y) (insort_key f x ys)"
  using assms
proof (induction ys)
  case (Cons y ys)
  then show ?case by (cases "f x \<le> f y") (auto simp: set_insort_key)
qed simp

lemma sort_key_stable_wrt:
  "sorted_wrt R xs \<Longrightarrow> sorted_wrt (\<lambda>x y. f x < (f y :: 'k :: linorder) \<or> f x = f y \<and> R x y) (sort_key f xs)"
  by (induction xs) (auto intro: insort_key_stable_wrt)

text \<open>Accepting a batch: its includes sorted by round, then a payload.\<close>

lemma pending_sorted_batch:
  assumes ps: "pending_sorted ps" "\<forall>x \<in> set ps. fst x < n" and new: "sorted_wrt (<) (map fst new)"
    and low: "\<forall>x \<in> set new. n \<le> fst x \<and> fst x < p" and pos: "\<forall>x \<in> set new. 0 < block_round (snd x)" and np: "n \<le> p"
  shows "pending_sorted (ps @ include_entries (sort_key (block_round \<circ> snd) new) @ [(p, Payload payload)])"
proof -
  let ?es = "include_entries (sort_key (block_round \<circ> snd) new)"
  have es: "\<exists>b. x = (fst x, Include (reference b)) \<and> (fst x, b) \<in> set new" if "x \<in> set ?es" for x
    using that by (auto simp: include_entries_def)
  have e1: "n \<le> fst x" "fst x < p" "\<not> genesis_include x" if x: "x \<in> set ?es" for x
  proof -
    obtain b where b: "x = (fst x, Include (reference b))" "(fst x, b) \<in> set new" using es [OF x] by blast
    show "n \<le> fst x" "fst x < p" using low b(2) by auto
    have "0 < block_round b" using pos b(2) by force
    moreover have "snd x = Include (reference b)" using b(1) by (metis snd_conv)
    ultimately show "\<not> genesis_include x" by (simp add: genesis_include_def block_round_def)
  qed
  have "sorted_wrt (\<lambda>x y. fst x < fst y) new" using new by (simp add: sorted_wrt_map)
  from sort_key_stable_wrt [OF this, of "block_round \<circ> snd"]
  have "sorted_wrt pend_before ?es"
    unfolding include_entries_def sorted_wrt_map
    by (rule sorted_wrt_mono_rel [rotated]) (auto simp: pend_before_def block_round_def split_beta)
  then have "sorted_wrt (\<lambda>x y. pend_before x y \<and> (genesis_include y \<longrightarrow> genesis_include x)) ?es"
    by (rule sorted_wrt_mono_rel [rotated]) (simp add: e1(3))
  moreover have "pend_before x y" if "x \<in> set ps" "y \<in> set ?es" for x y
    using ps(2) that(1) e1(1) [OF that(2)] by (fastforce simp: pend_before_def)
  moreover have "pend_before x (p, Payload payload)" if "x \<in> set ps \<union> set ?es" for x
    using ps(2) that e1(2) [of x] np by (fastforce simp: pend_before_def)
  moreover have "\<not> genesis_include (p, Payload payload)" by (simp add: genesis_include_def)
  ultimately show ?thesis
    using ps(1) e1(3) by (auto simp: pending_sorted_def sorted_wrt_append)
qed

section \<open>Accepting blocks\<close>

definition core_env_ok :: "mcore_env \<Rightarrow> bool" where
  "core_env_ok e \<longleftrightarrow> mc_ok (me_committee e) \<and> no_single_quorum (me_committee e) \<and>
     me_authority e < mc_len (me_committee e) \<and> (\<forall>xs. mset (me_order e xs) = mset xs)"

text \<open>No attack that drops includes: neither the fissure attack nor the certification race.\<close>

definition keeps_includes :: "mcore_env \<Rightarrow> bool" where
  "keeps_includes e \<longleftrightarrow> \<not> (role_of e (me_authority e) = FrontAttacker \<and> me_attack_mode e = ''fissure'') \<and>
     \<not> (me_attack_mode e = ''certification_race'' \<and> race_attacker e (me_authority e))"

text \<open>A block the synchronizer may hand to a core: verified, of a size the log takes, not a new own one.\<close>

definition acceptable :: "mcore_env \<Rightarrow> mcore \<Rightarrow> statement_block \<Rightarrow> bool" where
  "acceptable e s b \<longleftrightarrow> verify (me_crypto e) (me_committee e) b = Ok () \<and>
     me_len e b + header_len_bytes \<le> map_size \<and>
     (block_author b = me_authority e \<longrightarrow> block_exists (mo_store s) (reference b))"

lemma clock_known:
  assumes "core_store_inv e s" "B \<subseteq> stored (mo_store s)"
  shows "\<forall>i \<in> B. br_authority i < mc_len (me_committee e)"
  using stored_authority [OF assms(1)] assms(2) by blast

lemma mcore_add_stores:
  assumes env: "core_env_ok e" and inv: "core_store_inv e s" and bs: "\<forall>b \<in> set bs. acceptable e s b"
  shows "\<exists>new missing m st end2. bk_add_blocks (me_order e) (me_len e) bs (mo_manager s, mo_store s, mo_end s) =
      Some ((new, missing), m, st, end2) \<and> mo_end s \<le> end2 \<and> sorted_wrt (<) (map fst new) \<and>
      (\<forall>x \<in> set new. mo_end s \<le> fst x \<and> fst x < end2) \<and>
      (\<forall>x \<in> set new. 0 < block_round (snd x) \<and> block_author (snd x) \<noteq> me_authority e) \<and>
      stored st = stored (mo_store s) \<union> (reference \<circ> snd) ` set new \<and>
      core_store_inv e (s\<lparr>mo_manager := m, mo_store := st,
        mo_wal := mo_wal s @ map (\<lambda>(pos, b). (pos, BlockEntry b)) new, mo_end := end2\<rparr>)"
proof -
  let ?c = "me_committee e" and ?n = "mc_len (me_committee e)"
  let ?wal = "\<lambda>new. mo_wal s @ map (\<lambda>(pos, b). (pos, BlockEntry b)) new"
  note D = core_store_invD [OF inv]
  have ver: "verified (me_crypto e) ?c b" if "b \<in> set bs" for b
    using bs that env verify_Ok_iff [of ?c "me_crypto e" b] by (auto simp: acceptable_def core_env_ok_def)
  have off: "\<forall>b \<in> set bs. offered (me_len e) ?n (mo_store s) b"
    using bs ver D(1) by (fastforce simp: offered_def admissible_def acceptable_def verified_def)
  have order: "\<forall>xs. mset (me_order e xs) = mset xs" using env by (simp add: core_env_ok_def)
  from bk_add_blocks_spec [OF D(2) off order] obtain new missing m st end2 where
    r: "bk_add_blocks (me_order e) (me_len e) bs (mo_manager s, mo_store s, mo_end s) = Some ((new, missing), m, st, end2)"
    "manager_inv (me_len e) ?n m st end2 []" "bs_authority st = bs_authority (mo_store s)"
    "stored st = stored (mo_store s) \<union> reference ` set (map snd new)"
    "block_at st = put_blocks (map snd new) (block_at (mo_store s))"
    "causal_from (stored (mo_store s)) (map snd new)" by (elim exE conjE) (rule that)
  define B where "B = set bs \<union> snd ` set (bk_pending (mo_manager s))"
  have B: "well_referenced ?c b \<and> 0 < block_round b" if "b \<in> B" for b
    using that D(5) verified_well_referenced [OF ver] ver by (auto simp: B_def verified_def)
  note w = bk_add_blocks_writes [OF r(1), of B, unfolded B_def, OF subset_refl, folded B_def]
  have new: "well_referenced ?c (snd x)" "0 < block_round (snd x)" if "x \<in> set new" for x
    using B [of "snd x"] w(4) that by auto
  have pend: "well_referenced ?c b \<and> 0 < block_round b" if "b \<in> snd ` set (bk_pending m)" for b
    using B [of b] w(4) that by blast
  have refs: "stored (mo_store s) = reference ` snd ` set (wal_blocks (mo_wal s))" by (rule wal_store_stored [OF D(4)])
  have store: "wal_store (?wal new) st"
  proof -
    have "store_wf st" using r(2) by (simp add: manager_inv_def)
    moreover have "causal_from {} (map snd (wal_blocks (?wal new)))"
      using D(4) r(6) by (simp add: wal_store_def causal_from_append refs image_image)
    moreover have "block_at st = put_blocks (map snd (wal_blocks (?wal new))) Map.empty"
      using D(4) r(5) by (simp add: wal_store_def put_blocks_app)
    ultimately show ?thesis by (simp add: wal_store_def)
  qed
  have holds: "bs_holds st (ob_block (mo_last_own s))"
    using D(7) by (auto simp: wal_store_holds [OF store] wal_store_holds [OF D(4)])
  have other: "block_author (snd x) \<noteq> me_authority e" if x: "x \<in> set new" for x
  proof
    assume a: "block_author (snd x) = me_authority e"
    have "snd x \<in> set bs \<or> snd x \<in> snd ` set (bk_pending (mo_manager s))"
      using w(4) x by (auto simp: B_def)
    then show False
    proof
      assume "snd x \<in> set bs"
      then have "reference (snd x) \<in> stored (mo_store s)" using bs a by (auto simp: acceptable_def stored_def)
      then show False using causal_from_distinct [OF r(6)] x by auto
    next
      assume "snd x \<in> snd ` set (bk_pending (mo_manager s))"
      then obtain k where k: "(k, snd x) \<in> set (bk_pending (mo_manager s))" by auto
      have "hm_wf (bk_pending (mo_manager s))" and po: "pending_ok (me_len e) ?n (mo_manager s) (mo_store s) []"
        using D(2) by (auto simp: manager_inv_def sized_def)
      then have "map_of (bk_pending (mo_manager s)) k = Some (snd x)" using k by (simp add: map_of_in_set)
      from pending_okD(1,4) [OF po this] a D(1) show False by (simp add: block_author_def)
    qed
  qed
  have own: "br_round i \<le> last_proposed s" if i: "i \<in> stored st" "br_authority i = me_authority e" for i
    using i other D(9) [of i] by (auto simp: r(4) block_author_def)
  have ordered: "wal_ordered (?wal new) end2"
    by (rule wal_ordered_batch [OF D(3) w(1-3)]) (simp add: split_beta comp_def)
  have "core_store_inv e (s\<lparr>mo_manager := m, mo_store := st, mo_wal := ?wal new, mo_end := end2\<rparr>)"
    using D(1,6,8) r(2,3) store holds own ordered pend new(1)
    by (auto simp: core_store_inv_def own_prev_def last_proposed_def)
  moreover have "stored st = stored (mo_store s) \<union> (reference \<circ> snd) ` set new"
    using r(4) by (simp add: image_comp)
  ultimately show ?thesis using r(1) w(1-3) new(2) other by blast
qed

lemma manager_inv_end:
  assumes "manager_inv len n m st end' us" "end' \<le> end2"
  shows "manager_inv len n m st end2 us"
proof -
  have "log_ok st end2" if "log_ok st end'"
    using that assms(2) by (fastforce simp: log_ok_def split: index_entry.splits)
  then show ?thesis using assms(1) by (simp add: manager_inv_def)
qed

lemma store_inv_write:
  assumes inv: "core_store_inv e s" and w: "wal_write k (mo_end s) = Some (pos, end2)" and en: "log_block en = None"
  shows "core_store_inv e (s\<lparr>mo_wal := mo_wal s @ [(pos, en)], mo_end := end2\<rparr>)"
proof -
  note D = core_store_invD [OF inv]
  have "manager_inv (me_len e) (mc_len (me_committee e)) (mo_manager s) (mo_store s) end2 []"
    by (rule manager_inv_end [OF D(2)]) (use wal_write_later [OF w] in simp)
  then show ?thesis
    using D(1,4-9) wal_ordered_write [OF D(3) w, of en] en
    by (auto simp: core_store_inv_def wal_store_def own_prev_def last_proposed_def)
qed

lemma core_store_inv_other [simp]:
  "core_store_inv e (mo_pending_update f s) = core_store_inv e s"
  "core_store_inv e (mo_clock_update g s) = core_store_inv e s"
  "core_store_inv e (mo_commit_update h s) = core_store_inv e s"
  "core_store_inv e (mo_force_update k s) = core_store_inv e s"
  by (simp_all add: core_store_inv_def own_prev_def last_proposed_def)

lemma stable_includes: "set (include_entries (sort_key f new)) = set (include_entries new)"
  by (simp add: include_entries_def)

lemma core_add_spec:
  assumes env: "core_env_ok e" "keeps_includes e" and inv: "core_store_inv e s" "core_pending_inv e s"
    and bs: "\<forall>b \<in> set bs. acceptable e s b"
    and payload: "me_payload_len e payload + header_len_bytes \<le> map_size" "ranges_ok payload"
  shows "\<exists>missing s' new pos. mcore_add_blocks e now payload bs s = Some (missing, s') \<and>
      core_store_inv e s' \<and> core_pending_inv e s' \<and> mo_last_own s' = mo_last_own s \<and>
      mo_wal s' = (mo_wal s @ map (\<lambda>(p, b). (p, BlockEntry b)) new) @ [(pos, PayloadEntry payload)] \<and>
      mo_pending s' = mo_pending s @ include_entries (sort_key (block_round \<circ> snd) new) @ [(pos, Payload payload)] \<and>
      (\<forall>x \<in> set new. 0 < block_round (snd x) \<and> block_author (snd x) \<noteq> me_authority e)"
proof -
  let ?c = "me_committee e"
  from mcore_add_stores [OF env(1) inv(1) bs] obtain new missing m st end2 where
    a: "bk_add_blocks (me_order e) (me_len e) bs (mo_manager s, mo_store s, mo_end s) = Some ((new, missing), m, st, end2)"
    "mo_end s \<le> end2" "sorted_wrt (<) (map fst new)" "\<forall>x \<in> set new. mo_end s \<le> fst x \<and> fst x < end2"
    "\<forall>x \<in> set new. 0 < block_round (snd x) \<and> block_author (snd x) \<noteq> me_authority e"
    "stored st = stored (mo_store s) \<union> (reference \<circ> snd) ` set new"
    "core_store_inv e (s\<lparr>mo_manager := m, mo_store := st,
        mo_wal := mo_wal s @ map (\<lambda>(pos, b). (pos, BlockEntry b)) new, mo_end := end2\<rparr>)"
    by (elim exE conjE) (rule that)
  let ?wal = "mo_wal s @ map (\<lambda>(pos, b). (pos, BlockEntry b)) new" and ?new = "sort_key (block_round \<circ> snd) new"
  let ?s1 = "s\<lparr>mo_manager := m, mo_store := st, mo_wal := ?wal, mo_end := end2\<rparr>"
  note P = core_pending_invD [OF inv(2)] and D1 = core_store_invD [OF a(7), simplified]
  obtain pos end3 where w: "wal_write (me_payload_len e payload) end2 = Some (pos, end3)"
    using payload(1) wal_write_Some [of "me_payload_len e payload" end2] by auto
  obtain B where B: "set (pending_includes (mo_pending s)) \<subseteq> B" "B \<subseteq> stored (mo_store s)" "clock_inv ?c B (mo_clock s)"
    using P(5) by blast
  have known: "\<forall>i \<in> stored st. br_authority i < mc_len ?c"
    using clock_known [OF a(7), of "stored st"] by simp
  have auth: "\<forall>x \<in> set ?new. block_author (snd x) < mc_len ?c"
    using known by (auto simp: a(6) block_author_def)
  have refs: "snd ` set (map (\<lambda>x. (now, reference (snd x))) ?new) = (reference \<circ> snd) ` set new"
    by (simp add: image_image comp_def)
  have "\<forall>i \<in> B \<union> snd ` set (map (\<lambda>x. (now, reference (snd x))) ?new). br_authority i < mc_len ?c"
    using known B(2) unfolding refs a(6) by blast
  from clock_inv_run [OF _ _ B(3) this] env(1) obtain t where
    t: "tc_run ?c (map (\<lambda>x. (now, reference (snd x))) ?new) (mo_clock s) = Some t"
    "clock_inv ?c (B \<union> (reference \<circ> snd) ` set new) t"
    unfolding refs by (auto simp: core_env_ok_def)
  define force where "force = (mo_force s \<or> backrun_force e (map snd ?new))"
  define s' where "s' = s\<lparr>mo_manager := m, mo_store := st, mo_clock := t, mo_force := force,
    mo_wal := ?wal @ [(pos, PayloadEntry payload)], mo_end := end3,
    mo_pending := mo_pending s @ include_entries ?new @ [(pos, Payload payload)]\<rparr>"
  have "race_force e acc x = Some False" for acc x
    using env(2) by (auto simp: race_force_def keeps_includes_def)
  then have run: "mcore_add_blocks e now payload bs s = Some (missing, s')"
    using a(1) t(1) w by (simp add: mcore_add_blocks_def accept_includes_run [OF auth] run_block_handler_def s'_def force_def Let_def)
  have store: "core_store_inv e s'"
    using store_inv_write [OF a(7), of "me_payload_len e payload" pos end3 "PayloadEntry payload"] w
    by (simp add: s'_def core_store_inv_def own_prev_def last_proposed_def)
  have in_wal: "pending_in_wal (mo_wal s') (mo_pending s')"
  proof -
    have "pending_in_wal (mo_wal s') (mo_pending s)"
      by (rule pending_in_wal_mono [OF P(1)]) (auto simp: s'_def)
    moreover have "pending_in_wal (mo_wal s') (include_entries new)"
      by (fastforce simp: pending_in_wal_def include_entries_def s'_def)
    moreover have "pending_in_wal (mo_wal s') [(pos, Payload payload)]"
      by (auto simp: pending_in_wal_def s'_def intro!: exI [of _ "PayloadEntry payload"])
    ultimately show ?thesis
      using pending_in_wal_subset [of "mo_wal s'" "include_entries new" "include_entries ?new"]
      by (simp add: s'_def stable_includes)
  qed
  have sorted: "pending_sorted (mo_pending s')"
  proof -
    have "\<forall>x \<in> set (mo_pending s). fst x < mo_end s"
      using pending_in_wal_position [OF P(1) core_store_invD(3) [OF inv(1)]] by blast
    moreover have "\<forall>x \<in> set new. mo_end s \<le> fst x \<and> fst x < pos" "mo_end s \<le> pos" "\<forall>x \<in> set new. 0 < block_round (snd x)"
      using a(2,4,5) wal_write_later [OF w] by auto
    ultimately show ?thesis
      using pending_sorted_batch [OF P(2) _ a(3), of "mo_end s" pos payload] by (simp add: s'_def)
  qed
  have "core_pending_inv e s'"
    unfolding core_pending_inv_def
  proof (intro conjI)
    show "\<forall>r \<in> stored (mo_store s'). last_proposed s' \<le> br_round r \<longrightarrow> r \<noteq> own_prev s' \<longrightarrow>
        r \<in> set (pending_includes (mo_pending s'))"
      using P(3) by (auto simp: s'_def a(6) last_proposed_def own_prev_def)
    show "\<forall>x \<in> set (mo_pending s'). ranges_ok (payload_of (snd x))"
      using P(4) payload(2) by (auto simp: s'_def include_entries_def ranges_ok_def)
    have "set (pending_includes (mo_pending s')) \<subseteq> B \<union> (reference \<circ> snd) ` set new"
      using B(1) by (auto simp: s'_def)
    moreover have "B \<union> (reference \<circ> snd) ` set new \<subseteq> stored (mo_store s')"
      using B(2) by (auto simp: s'_def a(6))
    ultimately show "\<exists>B. set (pending_includes (mo_pending s')) \<subseteq> B \<and> B \<subseteq> stored (mo_store s') \<and> clock_inv ?c B (mo_clock s')"
      using t(2) by (intro exI [of _ "B \<union> (reference \<circ> snd) ` set new"]) (simp add: s'_def)
  qed (rule in_wal, rule sorted)
  then show ?thesis
    using run store a(5) by (intro exI [of _ missing] exI [of _ s'] exI [of _ new] exI [of _ pos]) (simp add: s'_def)
qed

end
