(* ===== verification/MystiProposals.thy ===== *)
theory MystiProposals
  imports MystiCoreInv
begin

text \<open>
  Mysticeti: what a core that drops no includes proposes. The parents it needs are among the
  statements it takes, compression leaves them in, and the block passes verification.
\<close>

section \<open>The includes of a proposal\<close>

definition taken_refs :: "mcore \<Rightarrow> block_reference list" where
  "taken_refs s = pending_includes (fst (split_pending (tc_round (mo_clock s)) (mo_pending s)))"

definition offered_refs :: "mcore \<Rightarrow> block_reference list" where
  "offered_refs s = own_prev s # taken_refs s"

lemma split_pending_append: "fst (split_pending n ps) @ snd (split_pending n ps) = ps"
  by (simp add: split_pending_def)

lemma taken_below: "r \<in> set (taken_refs s) \<Longrightarrow> br_round r < tc_round (mo_clock s)"
  by (auto simp: taken_refs_def split_pending_def set_pending_includes before_round_def dest!: set_takeWhileD)

lemma rest_first:
  "snd (split_pending n ps) = x # xs \<Longrightarrow> \<exists>r. snd x = Include r \<and> n \<le> br_round r"
  by (cases x; cases "snd x") (auto simp: split_pending_def before_round_def dropWhile_eq_Cons_conv)

lemma pending_split_refs:
  "set (pending_includes (mo_pending s)) =
     set (taken_refs s) \<union> set (pending_includes (snd (split_pending (tc_round (mo_clock s)) (mo_pending s))))"
  using arg_cong [OF split_pending_append [of "tc_round (mo_clock s)" "mo_pending s"], of "\<lambda>ps. set (pending_includes ps)"]
  by (simp add: taken_refs_def)

lemma pending_stored:
  assumes "core_pending_inv e s" "r \<in> set (pending_includes (mo_pending s))"
  shows "r \<in> stored (mo_store s)"
  using core_pending_invD(5) [OF assms(1)] assms(2) by blast

lemma taken_stored: "core_pending_inv e s \<Longrightarrow> r \<in> set (taken_refs s) \<Longrightarrow> r \<in> stored (mo_store s)"
  by (rule pending_stored) (simp_all add: pending_split_refs)

lemma pending_position:
  assumes "core_pending_inv e s" "(p, Include r) \<in> set (mo_pending s)"
  shows "\<exists>b. (p, b) \<in> set (wal_blocks (mo_wal s)) \<and> reference b = r"
  using core_pending_invD(1) [OF assms(1)] assms(2)
  by (force simp: pending_in_wal_def set_wal_blocks entry_meta_Include)

text \<open>An included block that is pending is taken before the first block that is not.\<close>

lemma included_taken:
  assumes inv: "core_store_inv e s" "core_pending_inv e s"
    and rest: "snd (split_pending (tc_round (mo_clock s)) (mo_pending s)) = (p, Include x) # ps"
    and bx: "bs_holds (mo_store s) bx" "reference bx = x" and i: "i \<in> set (block_includes bx)"
    and pend: "i \<in> set (pending_includes (mo_pending s))"
  shows "i \<in> set (taken_refs s)"
proof (rule ccontr)
  let ?rest = "(p, Include x) # ps"
  note D = core_store_invD [OF inv(1)]
  assume "i \<notin> set (taken_refs s)"
  then have "i \<in> set (pending_includes ?rest)"
    using pend unfolding pending_split_refs rest by blast
  then obtain q where q: "(q, Include i) \<in> set ?rest" by (auto simp: set_pending_includes)
  have less: "br_round i < br_round x"
    using dag_ok_block [OF D(13) bx(1)] i bx(2) by (auto simp: dag_block_ok_def list_all_iff block_round_def)
  obtain taken where all: "mo_pending s = taken @ ?rest"
    using split_pending_append [of "tc_round (mo_clock s)" "mo_pending s"] rest by metis
  have sorted: "pending_sorted (mo_pending s)" by (rule core_pending_invD(2) [OF inv(2)])
  have "\<forall>y \<in> set ps. pend_before (p, Include x) y"
    using sorted [unfolded all] by (simp add: pending_sorted_def sorted_wrt_append)
  moreover have "(q, Include i) \<in> set ps" using q less by auto
  ultimately have pq: "p < q" using less by (fastforce simp: pend_before_def)
  have "set ?rest \<subseteq> set (mo_pending s)" by (auto simp: all)
  then have "(p, Include x) \<in> set (mo_pending s)" "(q, Include i) \<in> set (mo_pending s)"
    using q by auto
  from pending_position [OF inv(2) this(1)] pending_position [OF inv(2) this(2)] obtain b1 b2 where
    b: "(p, b1) \<in> set (wal_blocks (mo_wal s))" "reference b1 = x"
    "(q, b2) \<in> set (wal_blocks (mo_wal s))" "reference b2 = i" by blast
  have "b1 \<in> snd ` set (wal_blocks (mo_wal s))" using b(1) by (rule rev_image_eqI) simp
  then have "bs_holds (mo_store s) b1" by (simp add: wal_store_holds [OF D(4)])
  from bs_holds_unique [OF this bx(1)] have "b1 = bx" using b(2) bx(2) by simp
  then have "i \<in> set (block_includes b1)" using i by simp
  moreover have "sorted_wrt (<) (map fst (mo_wal s))" using D(3) by (simp add: wal_ordered_def)
  ultimately obtain k y where k: "(k, y) \<in> set (wal_blocks (mo_wal s))" "reference y = i" "k < p"
    using wal_included_before [OF D(4) _ b(1)] by blast
  have "k = q" by (rule wal_reference_unique(1) [OF D(4) k(1) b(3)]) (simp add: k b)
  with k(3) pq show False by simp
qed

text \<open>The parents: a quorum of the round before is offered.\<close>

definition parents_in :: "block_reference list \<Rightarrow> nat \<Rightarrow> nat set" where
  "parents_in rs n = br_authority ` {i \<in> set rs. br_round i = n - 1}"

lemma offered_stored:
  assumes "core_store_inv e s" "core_pending_inv e s" "r \<in> set (offered_refs s)"
  shows "r \<in> stored (mo_store s)"
  using assms own_prev_stored taken_stored by (auto simp: offered_refs_def)

lemma offered_below:
  "last_proposed s < tc_round (mo_clock s) \<Longrightarrow> r \<in> set (offered_refs s) \<Longrightarrow> br_round r < tc_round (mo_clock s)"
  using taken_below by (auto simp: offered_refs_def own_prev_def last_proposed_def block_round_def)

lemma offered_quorum:
  assumes env: "core_env_ok e" and inv: "core_store_inv e s" "core_pending_inv e s"
    and ahead: "last_proposed s < tc_round (mo_clock s)"
  shows "mc_has_quorum (me_committee e) (parents_in (offered_refs s) (tc_round (mo_clock s)))"
proof -
  let ?c = "me_committee e" and ?R = "tc_round (mo_clock s)"
  note D = core_store_invD [OF inv(1)] and P = core_pending_invD [OF inv(2)]
  obtain B where B: "set (pending_includes (mo_pending s)) \<subseteq> B" "B \<subseteq> stored (mo_store s)"
    "clock_inv ?c B (mo_clock s)" using P(5) by blast
  have members: "parents_in (offered_refs s) ?R \<subseteq> mc_members ?c"
    using stored_authority [OF inv(1) offered_stored [OF inv]] by (auto simp: parents_in_def mc_members_def)
  have lp: "br_round (own_prev s) = last_proposed s" by (simp add: own_prev_def last_proposed_def block_round_def)
  show ?thesis
  proof (cases "snd (split_pending ?R (mo_pending s))")
    case Nil
    then have all: "set (pending_includes (mo_pending s)) = set (taken_refs s)" by (simp add: pending_split_refs)
    have offered: "i \<in> set (offered_refs s)" if "i \<in> stored (mo_store s)" "last_proposed s \<le> br_round i" for i
      using P(3) [OF that] all by (auto simp: offered_refs_def)
    have "?R \<notin> br_round ` B"
    proof
      assume "?R \<in> br_round ` B"
      then obtain i where i: "i \<in> B" "br_round i = ?R" by auto
      have "i \<in> set (offered_refs s)" by (rule offered) (use i B(2) ahead in auto)
      from offered_below [OF ahead this] i(2) show False by simp
    qed
    moreover have "?R \<in> justified_rounds ?c B" using B(3) by (simp add: clock_inv_def)
    ultimately obtain n where n: "?R = Suc n" "mc_has_quorum ?c (authors_at B n)"
      using ahead by (auto simp: justified_rounds_def)
    have "authors_at B n \<subseteq> parents_in (offered_refs s) ?R"
      using offered B(2) ahead n(1) by (auto simp: authors_at_def parents_in_def)
    with n(2) members show ?thesis by (metis mc_has_quorum_mono)
  next
    case (Cons h ps)
    from rest_first [OF Cons] obtain p x where h: "h = (p, Include x)" "?R \<le> br_round x" by (cases h) auto
    have pend: "x \<in> set (pending_includes (mo_pending s))"
      by (simp add: pending_split_refs Cons h)
    then have "br_round x \<le> ?R" using B(1,3) by (auto simp: clock_inv_def)
    with h(2) have rx: "br_round x = ?R" by simp
    obtain bx where bx: "bs_holds (mo_store s) bx" "reference bx = x"
      using stored_holds [OF D(10) pending_stored [OF inv(2) pend]] by metis
    have dag: "dag_block_ok ?c (mo_store s) bx" by (rule dag_ok_block [OF D(13) bx(1)])
    then have q: "mc_has_quorum ?c (parent_authorities bx)"
      using rx bx(2) ahead by (auto simp: dag_block_ok_def block_round_def)
    have "parent_authorities bx \<subseteq> parents_in (offered_refs s) ?R"
    proof
      fix a assume "a \<in> parent_authorities bx"
      then obtain i where i: "i \<in> set (block_includes bx)" "br_round i = ?R - 1" "a = br_authority i"
        using rx bx(2) by (auto simp: parent_authorities_def block_round_def)
      have st: "i \<in> stored (mo_store s)"
        using dag i(1) by (auto simp: dag_block_ok_def list_all_iff stored_iff [OF D(10)])
      have "i \<in> set (offered_refs s)"
      proof (cases "i = own_prev s")
        case False
        have "i \<in> set (pending_includes (mo_pending s))" by (rule P(3) [OF st _ False]) (use i(2) ahead in simp)
        from included_taken [OF inv Cons [unfolded h] bx i(1) this] show ?thesis by (simp add: offered_refs_def)
      qed (simp add: offered_refs_def)
      with i show "a \<in> parents_in (offered_refs s) ?R" by (auto simp: parents_in_def)
    qed
    with q members show ?thesis by (metis mc_has_quorum_mono)
  qed
qed

section \<open>Compression\<close>

definition includes_at :: "block_store \<Rightarrow> block_reference \<Rightarrow> block_reference list" where
  "includes_at st i = (case block_at st i of None \<Rightarrow> [] | Some b \<Rightarrow> block_includes b)"

lemma covered_references_wf:
  assumes "store_wf st"
  shows "covered_references st incs = Some (concat (map (includes_at st) incs))"
proof -
  have "those (map (\<lambda>i. map_option (\<lambda>ob. case ob of None \<Rightarrow> [] | Some b \<Rightarrow> block_includes b) (get_block st i)) incs) =
      Some (map (includes_at st) incs)"
    by (induction incs) (auto simp: get_block_wf [OF assms] includes_at_def split: option.splits)
  then show ?thesis by (simp add: covered_references_def)
qed

lemma race_includes_kept:
  assumes "keeps_includes e"
  shows "\<exists>is. race_includes e own n (own # rs) = own # is \<and> set (own # is) = set (own # rs)"
proof (cases "me_attack_mode e = ''certification_race''")
  case True
  then have eq: "race_includes e own n (own # rs) = sort_key (race_key e own) (own # rs)"
    using assms by (simp add: race_includes_def keeps_includes_def)
  define xs where "xs = sort_key (race_key e own) (own # rs)"
  have sx: "set xs = set (own # rs)" unfolding xs_def by (rule set_sort)
  then obtain x ys where xs: "xs = x # ys" by (cases xs) auto
  have "sorted (map (race_key e own) xs)" unfolding xs_def by (rule sorted_sort_key)
  then have "race_key e own x \<le> race_key e own own" using sx by (auto simp: xs)
  then have "x = own" by (auto simp: race_key_def split: if_splits)
  then show ?thesis using eq sx xs by (auto simp: xs_def)
qed (auto simp: race_includes_def)

lemma proposal_includes_kept:
  assumes "keeps_includes e" and wf: "store_wf (mo_store s)"
  shows "\<exists>is. proposal_includes e coins s = Some (own_prev s # is) \<and>
    set (own_prev s # is) = {i \<in> set (offered_refs s). i = own_prev s \<or> (\<forall>k \<in> set (offered_refs s). i \<notin> set (includes_at (mo_store s) k))}"
proof -
  obtain rs where rs: "race_includes e (own_prev s) (tc_round (mo_clock s)) (offered_refs s) = own_prev s # rs"
    "set (own_prev s # rs) = set (offered_refs s)"
    using race_includes_kept [OF assms(1), of "own_prev s"] unfolding offered_refs_def by blast
  have "\<not> (role_of e (me_authority e) = FrontAttacker \<and> me_attack_mode e = ''fissure'')"
    using assms(1) unfolding keeps_includes_def by blast
  then have "proposal_includes e coins s = Some (compress (own_prev s)
      (concat (map (includes_at (mo_store s)) (offered_refs s))) (own_prev s # rs))"
    using rs(1) covered_references_wf [OF wf, of "offered_refs s"]
    unfolding proposal_includes_def Let_def offered_refs_def taken_refs_def by (simp only: if_False option.case option.map)
  then show ?thesis using rs(2) by (auto simp: compress_def)
qed

text \<open>Only blocks of lower rounds are covered, so the parents stay.\<close>

lemma covered_below:
  assumes "core_store_inv e s" "k \<in> stored (mo_store s)" "i \<in> set (includes_at (mo_store s) k)"
  shows "br_round i < br_round k" "i \<in> stored (mo_store s)"
proof -
  note D = core_store_invD [OF assms(1)]
  obtain b where b: "bs_holds (mo_store s) b" "reference b = k" "block_at (mo_store s) k = Some b"
    by (rule stored_holds [OF D(10) assms(2)])
  then have "i \<in> set (block_includes b)" using assms(3) by (simp add: includes_at_def)
  with dag_ok_block [OF D(13) b(1)] b(2) show "br_round i < br_round k" "i \<in> stored (mo_store s)"
    by (auto simp: dag_block_ok_def list_all_iff block_round_def stored_iff [OF D(10)])
qed

lemma proposal_parents:
  assumes env: "core_env_ok e" "keeps_includes e" and inv: "core_store_inv e s" "core_pending_inv e s"
    and ahead: "last_proposed s < tc_round (mo_clock s)"
    and incs: "proposal_includes e coins s = Some incs"
  shows "parents_in incs (tc_round (mo_clock s)) = parents_in (offered_refs s) (tc_round (mo_clock s))"
    "set incs \<subseteq> set (offered_refs s)" "\<exists>is. incs = own_prev s # is"
proof -
  let ?R = "tc_round (mo_clock s)"
  note D = core_store_invD [OF inv(1)]
  obtain rs where rs: "incs = own_prev s # rs" "set (own_prev s # rs) = {i \<in> set (offered_refs s).
      i = own_prev s \<or> (\<forall>k \<in> set (offered_refs s). i \<notin> set (includes_at (mo_store s) k))}"
    using proposal_includes_kept [OF env(2) D(10), of coins] incs by auto
  show "set incs \<subseteq> set (offered_refs s)" "\<exists>is. incs = own_prev s # is" using rs by auto
  have "i \<in> set incs" if i: "i \<in> set (offered_refs s)" "br_round i = ?R - 1" for i
  proof -
    have "i \<notin> set (includes_at (mo_store s) k)" if k: "k \<in> set (offered_refs s)" for k
    proof
      assume "i \<in> set (includes_at (mo_store s) k)"
      from covered_below(1) [OF inv(1) offered_stored [OF inv k] this] offered_below [OF ahead k] i(2)
      show False by simp
    qed
    then show ?thesis using i(1) rs by auto
  qed
  then show "parents_in incs ?R = parents_in (offered_refs s) ?R"
    using \<open>set incs \<subseteq> _\<close> by (auto simp: parents_in_def)
qed

section \<open>A proposal\<close>

definition proposed_block :: "mcore_env \<Rightarrow> nat \<Rightarrow> mcore \<Rightarrow> block_reference list \<Rightarrow> statement_block" where
  "proposed_block e time s incs = statement_block_with_signer (me_crypto e) (me_sign e) (me_authority e)
     (tc_round (mo_clock s)) incs (proposal_statements s) time (epoch_changing s) (mc_epoch (me_committee e))"

lemma proposed_block_simps [simp]:
  "block_author (proposed_block e time s incs) = me_authority e"
  "block_round (proposed_block e time s incs) = tc_round (mo_clock s)"
  "block_includes (proposed_block e time s incs) = incs"
  "statements (proposed_block e time s incs) = proposal_statements s"
  by (simp_all add: proposed_block_def statement_block_with_signer_def statement_block_new_def
      block_author_def block_round_def)

definition next_entry :: "(nat \<times> meta_statement) list \<Rightarrow> nat" where
  "next_entry ps = (case ps of [] \<Rightarrow> wal_position_max | (pos, _) # _ \<Rightarrow> pos)"

text \<open>Documented: a signature made with the own key verifies under it.\<close>

definition signs :: "mcore_env \<Rightarrow> bool" where
  "signs e \<longleftrightarrow> (\<forall>m. ed_verify (me_crypto e)
     (v_public_key (mc_authorities (me_committee e) ! me_authority e)) (me_sign e m) m)"

lemma ranges_ok_concat: "ranges_ok (concat xss) \<longleftrightarrow> (\<forall>xs \<in> set xss. ranges_ok xs)"
  by (auto simp: ranges_ok_def)

lemma ranges_ok_nil [simp]: "ranges_ok []"
  by (simp add: ranges_ok_def)

lemma proposal_statements_ok: "core_pending_inv e s \<Longrightarrow> ranges_ok (proposal_statements s)"
  using core_pending_invD(4)
  by (fastforce simp: proposal_statements_def ranges_ok_concat split_pending_def dest: set_takeWhileD)

text \<open>The block a core would propose, whether or not it fits the log.\<close>

definition next_proposal :: "mcore_env \<Rightarrow> nat \<Rightarrow> (nat \<Rightarrow> bool) \<Rightarrow> mcore \<Rightarrow> statement_block option" where
  "next_proposal e time coins s = (if tc_round (mo_clock s) \<le> last_proposed s then None
     else map_option (proposed_block e time s) (proposal_includes e coins s))"

lemma proposal_well_referenced:
  assumes env: "core_env_ok e" "keeps_includes e" and inv: "core_store_inv e s" "core_pending_inv e s"
    and b: "next_proposal e time coins s = Some b"
  shows "well_referenced (me_committee e) b" "set (block_includes b) \<subseteq> stored (mo_store s)"
proof -
  from b obtain incs where incs: "proposal_includes e coins s = Some incs" "b = proposed_block e time s incs"
    and ahead: "last_proposed s < tc_round (mo_clock s)"
    by (auto simp: next_proposal_def split: if_splits)
  note p = proposal_parents [OF env inv ahead incs(1)]
  show sub: "set (block_includes b) \<subseteq> stored (mo_store s)"
    using p(2) offered_stored [OF inv] incs(2) by auto
  have "br_authority i < mc_len (me_committee e) \<and> br_round i < block_round b" if "i \<in> set (block_includes b)" for i
    using that sub stored_authority [OF inv(1)] offered_below [OF ahead] p(2) incs(2) by auto
  moreover have "mc_has_quorum (me_committee e) (parent_authorities b)"
    using offered_quorum [OF env(1) inv ahead] p(1) incs(2) by (simp add: parent_authorities_def parents_in_def)
  moreover have "block_author b < mc_len (me_committee e)"
    using env(1) incs(2) by (simp add: core_env_ok_def)
  ultimately show "well_referenced (me_committee e) b" by (simp add: well_referenced_def)
qed

lemma proposal_verifies:
  assumes env: "core_env_ok e" "keeps_includes e" "signs e" and inv: "core_store_inv e s" "core_pending_inv e s"
    and b: "next_proposal e time coins s = Some b"
  shows "verify (me_crypto e) (me_committee e) b = Ok ()"
proof -
  from b obtain incs where incs: "b = proposed_block e time s incs" and ahead: "0 < tc_round (mo_clock s)"
    by (auto simp: next_proposal_def split: if_splits)
  have w: "well_referenced (me_committee e) b" by (rule proposal_well_referenced [OF env(1,2) inv b])
  have "verified (me_crypto e) (me_committee e) b"
    unfolding verified_def
  proof (intro conjI)
    show "block_epoch b = mc_epoch (me_committee e)"
      by (simp add: incs proposed_block_def statement_block_with_signer_def statement_block_new_def)
    show "block_digest_new (me_crypto e) (block_author b) (block_round b) (block_includes b) (statements b)
        (meta_creation_time_ns b) (epoch_marker b) (block_epoch b) (block_signature b) = block_digest_of b"
      by (simp add: incs proposed_block_def statement_block_with_signer_def statement_block_new_def
          block_author_def block_round_def block_digest_of_def)
    show "verify_block (me_crypto e) (v_public_key (mc_authorities (me_committee e) ! block_author b)) b"
      using env(3)
      by (simp add: incs proposed_block_def statement_block_with_signer_def statement_block_new_def
          block_author_def block_round_def verify_block_def signs_def)
    show "0 < block_round b" "ranges_ok (statements b)"
      using ahead proposal_statements_ok [OF inv(2)] by (simp_all add: incs)
  qed (use w ahead in \<open>auto simp: well_referenced_def incs\<close>)
  then show ?thesis using verify_Ok_iff env(1) by (simp add: core_env_ok_def)
qed

lemma core_propose_spec:
  assumes env: "core_env_ok e" "keeps_includes e" and inv: "core_store_inv e s" "core_pending_inv e s"
    and b: "next_proposal e time coins s = Some b" and size: "me_len e b \<le> max_entry_size div 2"
    and fresh: "map_of (bk_waiting (mo_manager s)) (reference b) = None"
  shows "\<exists>s' pos. mcore_try_new_block e now time coins s = Some (Some b, s') \<and> core_store_inv e s' \<and> core_pending_inv e s' \<and>
      mo_last_own s' = \<lparr>ob_next_entry = next_entry (mo_pending s'), ob_block = b\<rparr> \<and>
      mo_wal s' = mo_wal s @ [(pos, OwnBlockEntry (mo_last_own s'))] \<and>
      mo_pending s' = snd (split_pending (tc_round (mo_clock s)) (mo_pending s)) \<and>
      stored (mo_store s') = insert (reference b) (stored (mo_store s))"
proof -
  let ?c = "me_committee e" and ?R = "tc_round (mo_clock s)"
  let ?rest = "snd (split_pending ?R (mo_pending s))"
  let ?d = "\<lparr>ob_next_entry = next_entry ?rest, ob_block = b\<rparr>"
  from b obtain incs where incs: "proposal_includes e coins s = Some incs" "b = proposed_block e time s incs"
    and ahead: "last_proposed s < ?R"
    by (auto simp: next_proposal_def split: if_splits)
  obtain ps where ps: "incs = own_prev s # ps" using proposal_parents(3) [OF env inv ahead incs(1)] by blast
  note D = core_store_invD [OF inv(1)] and P = core_pending_invD [OF inv(2)]
  note w = proposal_well_referenced [OF env inv b]
  obtain B where B: "set (pending_includes (mo_pending s)) \<subseteq> B" "B \<subseteq> stored (mo_store s)"
    "clock_inv ?c B (mo_clock s)" using P(5) by blast
  have "8 + me_len e b + header_len_bytes \<le> map_size"
    using size by (simp add: max_entry_size_def map_size_def header_len_bytes_def)
  from insert_own_spec [OF inv(1), of ?d, simplified, OF _ _ w fresh this] ahead incs(2) obtain st' pos end2 where
    st': "insert_own_block (me_len e) ?d (mo_store s, mo_wal s, mo_end s) = Some (st', mo_wal s @ [(pos, OwnBlockEntry ?d)], end2)"
    "stored st' = insert (reference b) (stored (mo_store s))"
    "core_store_inv e (s\<lparr>mo_store := st', mo_wal := mo_wal s @ [(pos, OwnBlockEntry ?d)], mo_end := end2, mo_last_own := ?d\<rparr>)"
    by (auto simp: proposed_block_simps)
  have "\<forall>i \<in> insert (reference b) B. br_authority i < mc_len ?c"
    using clock_known [OF inv(1) B(2)] w(1) by (auto simp: well_referenced_def block_author_def)
  from clock_inv_step [OF _ _ B(3) this, of now] env(1) obtain t where
    t: "tc_add_block ?c now (reference b) (mo_clock s) = Some t" "clock_inv ?c (insert (reference b) B) t"
    by (auto simp: core_env_ok_def)
  define s' where "s' = s\<lparr>mo_store := st', mo_wal := mo_wal s @ [(pos, OwnBlockEntry ?d)], mo_end := end2,
    mo_pending := ?rest, mo_last_own := ?d, mo_clock := t\<rparr>"
  have "br_authority (own_prev s) = me_authority e" by (rule D(8))
  then have run: "mcore_try_new_block e now time coins s = Some (Some b, s')"
    using ahead incs ps size st'(1) t(1)
    by (simp add: mcore_try_new_block_def proposed_block_def [symmetric] Let_def next_entry_def [symmetric] s'_def not_le)
  have store: "core_store_inv e s'"
    using st'(3) by (simp add: s'_def core_store_inv_def own_prev_def last_proposed_def)
  have suffix: "set ?rest \<subseteq> set (mo_pending s)"
    using split_pending_append [of ?R "mo_pending s"] by (metis set_append sup.cobounded2)
  have "core_pending_inv e s'"
    unfolding core_pending_inv_def
  proof (intro conjI)
    show "pending_in_wal (mo_wal s') (mo_pending s')"
      by (rule pending_in_wal_subset [OF pending_in_wal_mono [OF P(1)]]) (use suffix in \<open>auto simp: s'_def\<close>)
    have "pending_sorted (fst (split_pending ?R (mo_pending s)) @ ?rest)" using P(2) by (simp only: split_pending_append)
    then show "pending_sorted (mo_pending s')" by (simp add: s'_def pending_sorted_def sorted_wrt_append)
    show "\<forall>r \<in> stored (mo_store s'). last_proposed s' \<le> br_round r \<longrightarrow> r \<noteq> own_prev s' \<longrightarrow>
        r \<in> set (pending_includes (mo_pending s'))"
    proof (intro ballI impI)
      fix r assume r: "r \<in> stored (mo_store s')" "last_proposed s' \<le> br_round r" "r \<noteq> own_prev s'"
      have R: "?R \<le> br_round r" using r(2) incs(2) by (simp add: s'_def last_proposed_def)
      have "r \<in> stored (mo_store s)" using r(1,3) st'(2) by (auto simp: s'_def own_prev_def)
      moreover have "r \<noteq> own_prev s" using R ahead by (auto simp: own_prev_def last_proposed_def block_round_def)
      ultimately have "r \<in> set (pending_includes (mo_pending s))" using P(3) R ahead by simp
      then show "r \<in> set (pending_includes (mo_pending s'))"
        using R taken_below [of r s] by (auto simp: pending_split_refs s'_def)
    qed
    show "\<forall>x \<in> set (mo_pending s'). ranges_ok (payload_of (snd x))"
      using P(4) suffix by (auto simp: s'_def)
    have "set (pending_includes (mo_pending s')) \<subseteq> insert (reference b) B"
      using B(1) by (auto simp: s'_def pending_split_refs)
    then show "\<exists>B. set (pending_includes (mo_pending s')) \<subseteq> B \<and> B \<subseteq> stored (mo_store s') \<and> clock_inv ?c B (mo_clock s')"
      using t(2) B(2) st'(2) by (intro exI [of _ "insert (reference b) B"]) (auto simp: s'_def)
  qed
  then show ?thesis
    using run store st'(2) by (intro exI [of _ s'] exI [of _ pos]) (simp add: s'_def)
qed

text \<open>Nothing that was offered is lost by the compression.\<close>

lemma compression_history:
  assumes env: "core_env_ok e" "keeps_includes e" and inv: "core_store_inv e s" "core_pending_inv e s"
    and b: "next_proposal e time coins s = Some b" "bs_holds (mo_store s') b"
    and grows: "\<forall>r \<in> stored (mo_store s). block_at (mo_store s') r = block_at (mo_store s) r"
    and i: "i \<in> set (offered_refs s)"
  shows "i \<in> history (mo_store s') (reference b)"
proof -
  from b obtain incs where incs: "proposal_includes e coins s = Some incs" "b = proposed_block e time s incs"
    and ahead: "last_proposed s < tc_round (mo_clock s)"
    by (auto simp: next_proposal_def split: if_splits)
  note D = core_store_invD [OF inv(1)]
  obtain rs where rs: "proposal_includes e coins s = Some (own_prev s # rs)" "set (own_prev s # rs) =
      {i \<in> set (offered_refs s). i = own_prev s \<or> (\<forall>k \<in> set (offered_refs s). i \<notin> set (includes_at (mo_store s) k))}"
    using proposal_includes_kept [OF env(2) D(10), of coins] by (elim exE conjE) (rule that)
  have set_incs: "set incs = {i \<in> set (offered_refs s). i = own_prev s \<or>
      (\<forall>k \<in> set (offered_refs s). i \<notin> set (includes_at (mo_store s) k))}"
    using rs incs(1) by simp
  have bb: "block_at (mo_store s') (reference b) = Some b" using b(2) by (simp add: bs_holds_def)
  show ?thesis using i
  proof (induction "tc_round (mo_clock s) - br_round i" arbitrary: i rule: less_induct)
    case less
    show ?case
    proof (cases "i \<in> set incs")
      case True
      then have "i \<in> set (block_includes b)" using incs(2) by simp
      from history_step [OF history_self bb this] show ?thesis .
    next
      case False
      then obtain k where k: "k \<in> set (offered_refs s)" "i \<in> set (includes_at (mo_store s) k)"
        using less.prems set_incs by blast
      have st: "k \<in> stored (mo_store s)" by (rule offered_stored [OF inv k(1)])
      obtain x where x: "block_at (mo_store s) k = Some x" "i \<in> set (block_includes x)"
        using k(2) by (cases "block_at (mo_store s) k") (auto simp: includes_at_def)
      have "br_round i < br_round k" by (rule covered_below(1) [OF inv(1) st k(2)])
      then have "k \<in> history (mo_store s') (reference b)"
        using less.hyps [OF _ k(1)] offered_below [OF ahead k(1)] by simp
      moreover have "block_at (mo_store s') k = Some x" using grows st x(1) by simp
      ultimately show ?thesis by (rule history_step [OF _ _ x(2)])
    qed
  qed
qed

end
