(* ===== verification/MystiRestart.thy ===== *)
theory MystiRestart
  imports MystiProposals
begin

text \<open>
  Mysticeti: what a core gets back from its log. The store is restored exactly; the payloads that no
  own block carried yet are restored exactly; the pending includes are restored, with possibly some
  that the last own block already includes.
\<close>

section \<open>The two halves of the replay\<close>

definition sb_step :: "nat \<Rightarrow> wal_entry \<Rightarrow> state_builder \<Rightarrow> state_builder option" where
  "sb_step pos en r = (case en of
     BlockEntry b \<Rightarrow> Some (sb_block pos b r)
   | PayloadEntry payload \<Rightarrow> Some (sb_payload pos payload r)
   | OwnBlockEntry d \<Rightarrow> Some (sb_own_block d r)
   | StateEntry state \<Rightarrow> Some (sb_state_entry state r)
   | CommitEntry cds committed \<Rightarrow> sb_commit_data cds committed r)"

fun replay_sb :: "(nat \<times> wal_entry) list \<Rightarrow> state_builder \<Rightarrow> state_builder option" where
  "replay_sb [] r = Some r"
| "replay_sb ((pos, en) # wal) r = (case sb_step pos en r of None \<Rightarrow> None | Some r' \<Rightarrow> replay_sb wal r')"

fun replay_store :: "(nat \<times> statement_block) list \<Rightarrow> block_store \<Rightarrow> block_store option" where
  "replay_store [] st = Some st"
| "replay_store ((pos, b) # bs) st =
     (case add_unloaded (reference b) pos st of None \<Rightarrow> None | Some st' \<Rightarrow> replay_store bs st')"

lemma replay_log_split:
  "replay_store (wal_blocks wal) st = Some st' \<Longrightarrow> replay_sb wal r = Some r' \<Longrightarrow>
     replay_log wal (st, r) = Some (st', r')"
proof (induction wal arbitrary: st r)
  case (Cons x wal)
  obtain pos en where x: "x = (pos, en)" by (cases x)
  show ?case
    using Cons by (cases en) (auto simp: x replay_entry_def sb_step_def split: option.splits)
qed simp

lemma replay_sb_append:
  "replay_sb (xs @ ys) r = (case replay_sb xs r of None \<Rightarrow> None | Some r' \<Rightarrow> replay_sb ys r')"
proof (induction xs arbitrary: r)
  case (Cons x xs)
  then show ?case by (cases x) (simp split: option.splits)
qed simp

section \<open>The store\<close>

lemma own_reference_unique:
  assumes "store_wf st" "r1 \<in> stored st" "r2 \<in> stored st" "br_authority r1 = bs_authority st"
    "br_authority r2 = bs_authority st" "br_round r1 = br_round r2"
  shows "r1 = r2"
proof -
  have own: "map_of (bs_own_blocks st) (br_round r) = Some (br_digest r)"
    if r: "r \<in> stored st" "br_authority r = bs_authority st" for r
  proof -
    from r(1) obtain m en where m: "map_of (bs_index st) (br_round r) = Some m" "map_of m (author_digest r) = Some en"
      by (auto simp: stored_def block_exists_def split: option.splits)
    then have "entry_ok st (br_round r) (author_digest r, en)"
      using store_wf_index(2) [OF assms(1) m(1)] map_of_SomeD [OF m(2)] by blast
    then show ?thesis using r(2) by (simp add: entry_ok_def author_digest_def)
  qed
  have "br_digest r1 = br_digest r2" using own [OF assms(2,4)] own [OF assms(3,5)] assms(6) by simp
  then show ?thesis using assms(4-6) by (intro block_reference_eqI) simp_all
qed

lemma replay_store_spec:
  assumes "store_wf st" "log_ok st n" "\<And>p b. (p, b) \<in> set bs \<Longrightarrow> bs_wal st p = Some b \<and> p < n \<and>
      block_author b < length (bs_last_seen st)"
    and "distinct (map (reference \<circ> snd) bs)" "\<And>p b. (p, b) \<in> set bs \<Longrightarrow> reference b \<notin> stored st"
    and "\<And>r1 r2. r1 \<in> stored st \<union> (reference \<circ> snd) ` set bs \<Longrightarrow> r2 \<in> stored st \<union> (reference \<circ> snd) ` set bs \<Longrightarrow>
      br_authority r1 = bs_authority st \<Longrightarrow> br_authority r2 = bs_authority st \<Longrightarrow> br_round r1 = br_round r2 \<Longrightarrow> r1 = r2"
  shows "\<exists>st'. replay_store bs st = Some st' \<and> store_wf st' \<and> log_ok st' n \<and> bs_authority st' = bs_authority st \<and>
      length (bs_last_seen st') = length (bs_last_seen st) \<and> block_at st' = put_blocks (map snd bs) (block_at st)"
  using assms
proof (induction bs arbitrary: st)
  case (Cons x bs)
  obtain p b where x: "x = (p, b)" by (cases x)
  let ?r = "reference b"
  have b: "bs_wal st p = Some b" "p < n" "block_author b < length (bs_last_seen st)" "?r \<notin> stored st"
    using Cons.prems(3,5) by (auto simp: x)
  have "map_of (bs_own_blocks st) (br_round ?r) = None" if own: "br_authority ?r = bs_authority st"
  proof (cases "map_of (bs_own_blocks st) (br_round ?r)")
    case (Some d)
    let ?q = "\<lparr>br_authority = bs_authority st, br_round = br_round ?r, br_digest = d\<rparr>"
    have "own_entry_ok st (br_round ?r, d)" using Cons.prems(1) Some unfolding store_wf_alt by blast
    then have q: "?q \<in> stored st" by (simp add: own_entry_ok_def stored_def)
    have "?q = ?r" by (rule Cons.prems(6)) (use q own in \<open>simp_all add: x\<close>)
    with q b(4) show ?thesis by simp
  qed
  from add_entry_succeeds [OF Cons.prems(1), of ?r "WalPosition p"] this b(3) obtain st1 where
    st1: "add_entry ?r (WalPosition p) st = Some st1" by (auto simp: block_author_def)
  have read: "read_index st (WalPosition p) = Some b" by (simp add: read_index_def b(1))
  note f = add_entry_facts [OF st1]
  have wf1: "store_wf st1" by (rule add_entry_wf [OF Cons.prems(1) st1 read refl])
  have at1: "block_at st1 = (block_at st)(?r \<mapsto> b)" by (rule add_entry_block_at [OF Cons.prems(1) st1 read refl])
  have stored1: "stored st1 = insert ?r (stored st)"
    using exists_block_at [OF Cons.prems(1) at1 wf1] by (auto simp: stored_def)
  have log1: "log_ok st1 n"
    unfolding log_ok_def
  proof (intro allI impI)
    fix r en assume "inner_get_block st1 r = Some en"
    then have "en = WalPosition p \<and> r = ?r \<or> inner_get_block st r = Some en"
      by (auto simp: add_entry_inner [OF st1] split: if_splits)
    then show "case en of WalPosition p \<Rightarrow> p < n | Loaded p b \<Rightarrow> p < n \<and> bs_wal st1 p = Some b"
      using Cons.prems(2) b(2) by (fastforce simp: log_ok_def f(2) split: index_entry.splits)
  qed
  have "\<exists>st'. replay_store bs st1 = Some st' \<and> store_wf st' \<and> log_ok st' n \<and> bs_authority st' = bs_authority st1 \<and>
      length (bs_last_seen st') = length (bs_last_seen st1) \<and> block_at st' = put_blocks (map snd bs) (block_at st1)"
  proof (rule Cons.IH [OF wf1 log1])
    fix q y assume "(q, y) \<in> set bs"
    then show "bs_wal st1 q = Some y \<and> q < n \<and> block_author y < length (bs_last_seen st1)"
      using Cons.prems(3) [of q y] by (simp add: x f(2,6))
  next
    show "distinct (map (reference \<circ> snd) bs)" using Cons.prems(4) by (simp add: comp_def)
  next
    fix q y assume "(q, y) \<in> set bs"
    then show "reference y \<notin> stored st1"
      using Cons.prems(4) Cons.prems(5) [of q y] by (force simp: x stored1)
  next
    fix r1 r2
    assume "r1 \<in> stored st1 \<union> (reference \<circ> snd) ` set bs" "r2 \<in> stored st1 \<union> (reference \<circ> snd) ` set bs"
      "br_authority r1 = bs_authority st1" "br_authority r2 = bs_authority st1" "br_round r1 = br_round r2"
    then show "r1 = r2" by (intro Cons.prems(6)) (auto simp: x stored1 f(3))
  qed
  then show ?case
    using st1 at1 f(3,6) by (auto simp: x add_unloaded_def put_blocks_def)
qed simp

lemma log_read_block:
  assumes "wal_ordered wal n" "(p, b) \<in> set (wal_blocks wal)"
  shows "log_read wal p = Some b"
proof -
  from assms(2) obtain en where en: "(p, en) \<in> set wal" "log_block en = Some b" by (auto simp: set_wal_blocks)
  have "map_of wal p = Some en" using wal_ordered_distinct [OF assms(1)] en(1) by (simp add: map_of_in_set)
  then show ?thesis using en(2) by (simp add: log_read_def)
qed

lemma store_restored:
  assumes inv: "core_store_inv e s" and a: "me_authority e < mc_len (me_committee e)"
  shows "\<exists>st. replay_store (wal_blocks (mo_wal s)) (bs_new (me_committee e) (me_authority e) (log_read (mo_wal s))) = Some st \<and>
     store_wf st \<and> log_ok st (mo_end s) \<and> bs_authority st = me_authority e \<and>
     length (bs_last_seen st) = mc_len (me_committee e) \<and> block_at st = block_at (mo_store s)"
proof -
  let ?st0 = "bs_new (me_committee e) (me_authority e) (log_read (mo_wal s))"
  note D = core_store_invD [OF inv]
  have new: "store_wf ?st0" "block_at ?st0 = Map.empty" by (simp_all add: store_wf_new fun_eq_iff)
  have fields: "bs_wal ?st0 = log_read (mo_wal s)" "length (bs_last_seen ?st0) = mc_len (me_committee e)"
    "bs_authority ?st0 = me_authority e" by (simp_all add: bs_new_def mc_authority_range_def)
  have none: "stored ?st0 = {}" by (simp add: stored_def block_exists_iff [OF new(1)] new(2))
  have refs: "stored (mo_store s) = (reference \<circ> snd) ` set (wal_blocks (mo_wal s))"
    using wal_store_stored [OF D(4)] by (simp add: image_comp)
  have "distinct (map (reference \<circ> snd) (wal_blocks (mo_wal s)))"
    using D(4) causal_from_distinct [of "{}" "map snd (wal_blocks (mo_wal s))"] by (simp add: wal_store_def)
  moreover have "bs_wal ?st0 p = Some b \<and> p < mo_end s \<and> block_author b < length (bs_last_seen ?st0)"
    if pb: "(p, b) \<in> set (wal_blocks (mo_wal s))" for p b
  proof -
    have "p < mo_end s" using pb D(3) by (auto simp: set_wal_blocks wal_ordered_def)
    moreover have "well_referenced (me_committee e) b" using D(6) pb by force
    ultimately show ?thesis
      using log_read_block [OF D(3) pb] by (simp add: fields well_referenced_def)
  qed
  moreover have "log_ok ?st0 (mo_end s)" by (simp add: log_ok_def inner_get_block_def bs_new_def)
  moreover have "r1 = r2" if "r1 \<in> stored ?st0 \<union> (reference \<circ> snd) ` set (wal_blocks (mo_wal s))"
    "r2 \<in> stored ?st0 \<union> (reference \<circ> snd) ` set (wal_blocks (mo_wal s))"
    "br_authority r1 = bs_authority ?st0" "br_authority r2 = bs_authority ?st0" "br_round r1 = br_round r2" for r1 r2
    using own_reference_unique [OF D(10), of r1 r2] that
    unfolding none refs [symmetric] fields D(1) Un_empty_left by blast
  moreover have "reference b \<notin> stored ?st0" for b by (simp add: none)
  ultimately have "\<exists>st'. replay_store (wal_blocks (mo_wal s)) ?st0 = Some st' \<and> store_wf st' \<and> log_ok st' (mo_end s) \<and>
      bs_authority st' = bs_authority ?st0 \<and> length (bs_last_seen st') = length (bs_last_seen ?st0) \<and>
      block_at st' = put_blocks (map snd (wal_blocks (mo_wal s))) (block_at ?st0)"
    by (intro replay_store_spec [OF new(1)])
  then show ?thesis
    using D(4) by (simp add: fields new(2) wal_store_def)
qed

section \<open>The pending statements\<close>

definition is_payload :: "nat \<times> meta_statement \<Rightarrow> bool" where
  "is_payload x \<longleftrightarrow> include_of (snd x) = None"

fun commit_heights :: "(nat \<times> wal_entry) list \<Rightarrow> nat list" where
  "commit_heights [] = []"
| "commit_heights ((_, CommitEntry cds _) # wal) = map cd_height cds @ commit_heights wal"
| "commit_heights (_ # wal) = commit_heights wal"

text \<open>
  What the builder has after the log of a core, against what the core has. Before the first proposal
  the genesis blocks are pending but not in the builder.
\<close>

definition recovers :: "mcore \<Rightarrow> state_builder \<Rightarrow> bool" where
  "recovers s r \<longleftrightarrow> sb_last_own r = Some (mo_last_own s) \<and>
     sorted_wrt (<) (map fst (sb_pending r)) \<and> pending_in_wal (mo_wal s) (sb_pending r) \<and>
     (\<forall>x \<in> set (mo_pending s). x \<in> set (sb_pending r) \<or> last_proposed s = 0 \<and> genesis_include x) \<and>
     filter is_payload (sb_pending r) = filter is_payload (mo_pending s) \<and>
     (\<forall>p q. (p, Include q) \<in> set (sb_pending r) \<longrightarrow>
        0 < br_round q \<and> ((p, Include q) \<in> set (mo_pending s) \<or> br_round q < last_proposed s)) \<and>
     map cd_height (sb_sub_dags r) = commit_heights (mo_wal s)"

definition core_replay_inv :: "mcore \<Rightarrow> bool" where
  "core_replay_inv s \<longleftrightarrow> (\<exists>r. replay_sb (mo_wal s) sb_new = Some r \<and> recovers s r)"

lemma recoversD:
  assumes "recovers s r"
  shows "sb_last_own r = Some (mo_last_own s)" "sorted_wrt (<) (map fst (sb_pending r))"
    "pending_in_wal (mo_wal s) (sb_pending r)"
    "\<And>x. x \<in> set (mo_pending s) \<Longrightarrow> x \<in> set (sb_pending r) \<or> last_proposed s = 0 \<and> genesis_include x"
    "filter is_payload (sb_pending r) = filter is_payload (mo_pending s)"
    "\<And>p q. (p, Include q) \<in> set (sb_pending r) \<Longrightarrow>
        0 < br_round q \<and> ((p, Include q) \<in> set (mo_pending s) \<or> br_round q < last_proposed s)"
    "map cd_height (sb_sub_dags r) = commit_heights (mo_wal s)"
  using assms unfolding recovers_def by blast+

lemma commit_heights_append [simp]: "commit_heights (xs @ ys) = commit_heights xs @ commit_heights ys"
  by (induction xs rule: commit_heights.induct) simp_all

lemma commit_heights_blocks [simp]: "commit_heights (map (\<lambda>(p, b). (p, BlockEntry b)) new) = []"
  by (induction new) auto

lemma is_payload_simps [simp]: "\<not> is_payload (p, Include r)" "is_payload (p, Payload ss)"
  by (simp_all add: is_payload_def)

lemma filter_payload_entries [simp]: "filter is_payload (include_entries new) = []"
  by (auto simp: include_entries_def filter_empty_conv)

lemma bt_insert_last: "\<forall>x \<in> set m. fst x < k \<Longrightarrow> bt_insert k v m = m @ [(k, v)]"
  by (induction m) auto

lemma replay_blocks:
  assumes "\<forall>x \<in> set (sb_pending r). \<forall>y \<in> set new. fst x < fst y" "sorted_wrt (<) (map fst new)"
  shows "\<exists>r'. replay_sb (map (\<lambda>(p, b). (p, BlockEntry b)) new) r = Some r' \<and>
     sb_pending r' = sb_pending r @ include_entries new \<and> sb_last_own r' = sb_last_own r \<and> sb_sub_dags r' = sb_sub_dags r"
  using assms
proof (induction new arbitrary: r)
  case (Cons x new)
  obtain p b where x: "x = (p, b)" by (cases x)
  let ?r = "sb_block p b r"
  have pend: "sb_pending ?r = sb_pending r @ [(p, Include (reference b))]"
    using Cons.prems(1) by (simp add: sb_block_def bt_insert_last x)
  have "\<forall>y \<in> set (sb_pending ?r). \<forall>z \<in> set new. fst y < fst z" "sorted_wrt (<) (map fst new)"
    using Cons.prems by (auto simp: pend x)
  from Cons.IH [OF this] show ?case
    by (auto simp: x sb_step_def pend include_entries_def) (auto simp: sb_block_def)
qed (simp add: include_entries_def)

text \<open>After accepting a batch.\<close>

lemma core_replay_add:
  assumes rep: "core_replay_inv s" and ord: "wal_ordered (mo_wal s) n" "wal_ordered (mo_wal s') n'"
    and own: "mo_last_own s' = mo_last_own s"
    and wal: "mo_wal s' = (mo_wal s @ map (\<lambda>(p, b). (p, BlockEntry b)) new) @ [(pos, PayloadEntry payload)]"
    and pend: "mo_pending s' = mo_pending s @ include_entries (sort_key (block_round \<circ> snd) new) @ [(pos, Payload payload)]"
    and new: "\<forall>x \<in> set new. 0 < block_round (snd x)"
  shows "core_replay_inv s'"
proof -
  let ?es = "map (\<lambda>(p, b). (p, BlockEntry b)) new"
  obtain r where r: "replay_sb (mo_wal s) sb_new = Some r" "recovers s r" using rep by (auto simp: core_replay_inv_def)
  note R = recoversD [OF r(2)]
  have srt: "sorted_wrt (<) (map fst (mo_wal s) @ map fst new @ [pos])"
    using ord(2) by (simp add: wal_ordered_def wal split_beta comp_def)
  have old: "fst x \<in> fst ` set (mo_wal s)" if "x \<in> set (sb_pending r)" for x
    using R(3) that by (force simp: pending_in_wal_def)
  have low: "\<forall>x \<in> set (sb_pending r). \<forall>y \<in> set new. fst x < fst y" "sorted_wrt (<) (map fst new)"
    "\<forall>x \<in> set (sb_pending r). fst x < pos" "\<forall>x \<in> set new. fst x < pos"
    using srt old by (fastforce simp: sorted_wrt_append)+
  obtain r1 where r1: "replay_sb ?es r = Some r1" "sb_pending r1 = sb_pending r @ include_entries new"
    "sb_last_own r1 = sb_last_own r" "sb_sub_dags r1 = sb_sub_dags r"
    using replay_blocks [OF low(1,2)] by blast
  have "\<forall>x \<in> set (sb_pending r1). fst x < pos"
    using low(3,4) by (auto simp: r1(2) include_entries_def)
  then have pend1: "sb_pending (sb_payload pos payload r1) = sb_pending r @ include_entries new @ [(pos, Payload payload)]"
    by (simp add: sb_payload_def bt_insert_last r1(2))
  have "recovers s' (sb_payload pos payload r1)"
    unfolding recovers_def
  proof (intro conjI)
    show "sb_last_own (sb_payload pos payload r1) = Some (mo_last_own s')"
      by (simp add: sb_payload_def r1(3) R(1) own)
    have "map fst (include_entries new) = map fst new" by (simp add: include_entries_def split_beta comp_def)
    then show "sorted_wrt (<) (map fst (sb_pending (sb_payload pos payload r1)))"
      using R(2) low by (auto simp: pend1 sorted_wrt_append)
    have "pending_in_wal (mo_wal s') (include_entries new)"
      by (fastforce simp: pending_in_wal_def include_entries_def wal)
    moreover have "pending_in_wal (mo_wal s') (sb_pending r)"
      by (rule pending_in_wal_mono [OF R(3)]) (auto simp: wal)
    moreover have "pending_in_wal (mo_wal s') [(pos, Payload payload)]"
      by (auto simp: pending_in_wal_def wal intro!: exI [of _ "PayloadEntry payload"])
    ultimately show "pending_in_wal (mo_wal s') (sb_pending (sb_payload pos payload r1))"
      by (simp add: pend1)
    show "\<forall>x \<in> set (mo_pending s'). x \<in> set (sb_pending (sb_payload pos payload r1)) \<or>
        last_proposed s' = 0 \<and> genesis_include x"
      using R(4) by (auto simp: pend pend1 stable_includes last_proposed_def own)
    show "filter is_payload (sb_pending (sb_payload pos payload r1)) = filter is_payload (mo_pending s')"
      by (simp add: pend pend1 R(5))
    show "\<forall>p q. (p, Include q) \<in> set (sb_pending (sb_payload pos payload r1)) \<longrightarrow>
        0 < br_round q \<and> ((p, Include q) \<in> set (mo_pending s') \<or> br_round q < last_proposed s')"
    proof (intro allI impI)
      fix p q assume "(p, Include q) \<in> set (sb_pending (sb_payload pos payload r1))"
      then consider "(p, Include q) \<in> set (sb_pending r)" | "(p, Include q) \<in> set (include_entries new)"
        by (auto simp: pend1)
      then show "0 < br_round q \<and> ((p, Include q) \<in> set (mo_pending s') \<or> br_round q < last_proposed s')"
      proof cases
        case 1
        then show ?thesis using R(6) by (auto simp: pend last_proposed_def own)
      next
        case 2
        then have "0 < br_round q" using new by (auto simp: include_entries_def block_round_def)
        with 2 show ?thesis by (simp add: pend stable_includes)
      qed
    qed
    show "map cd_height (sb_sub_dags (sb_payload pos payload r1)) = commit_heights (mo_wal s')"
      by (simp add: sb_payload_def r1(4) R(7) wal)
  qed
  moreover have "replay_sb (mo_wal s') sb_new = Some (sb_payload pos payload r1)"
    by (simp add: wal replay_sb_append r(1) r1(1) sb_step_def)
  ultimately show ?thesis unfolding core_replay_inv_def by blast
qed

text \<open>
  After a proposal: the builder drops what lies below the first statement that was not taken. No
  statement that stays pending lies there, since the clock has no block of a later round.
\<close>

lemma pending_rest:
  assumes inv: "core_pending_inv e s" and ps: "mo_pending s = taken @ (h, Include x) # ps"
    and R: "0 < tc_round (mo_clock s)" "tc_round (mo_clock s) \<le> br_round x"
    and y: "y \<in> set ((h, Include x) # ps)"
  shows "h \<le> fst y" "\<not> genesis_include y"
proof -
  have "pending_sorted (mo_pending s)" by (rule core_pending_invD(2) [OF inv])
  then have srt: "y = (h, Include x) \<or> pend_before (h, Include x) y \<and> (genesis_include y \<longrightarrow> genesis_include (h, Include x))"
    using y by (auto simp: ps pending_sorted_def sorted_wrt_append)
  have nh: "\<not> genesis_include (h, Include x)" using R by (auto simp: genesis_include_def)
  then show "\<not> genesis_include y" using srt by blast
  have "br_round r \<le> br_round x" if "snd y = Include r" for r
  proof -
    have "(fst y, Include r) \<in> set (mo_pending s)" using y that by (metis ps UnI2 prod.collapse set_append)
    then have "r \<in> set (pending_includes (mo_pending s))" by (auto simp: set_pending_includes)
    then have "br_round r \<le> tc_round (mo_clock s)"
      using core_pending_invD(5) [OF inv] by (auto simp: clock_inv_def)
    with R(2) show ?thesis by simp
  qed
  then show "h \<le> fst y" using srt by (fastforce simp: pend_before_def)
qed

lemma payload_before:
  assumes "pending_sorted (taken @ (h, Include x) # ps)" "y \<in> set taken" "is_payload y"
  shows "fst y < h"
  using assms by (auto simp: pending_sorted_def sorted_wrt_append pend_before_def is_payload_def)

lemma core_replay_propose:
  assumes rep: "core_replay_inv s" and inv: "core_store_inv e s" "core_pending_inv e s"
    and ahead: "last_proposed s < tc_round (mo_clock s)" and last: "last_proposed s' = tc_round (mo_clock s)"
    and len: "mo_end s < 2 ^ 64"
    and wal: "mo_wal s' = mo_wal s @ [(pos, OwnBlockEntry (mo_last_own s'))]"
    and pend: "mo_pending s' = snd (split_pending (tc_round (mo_clock s)) (mo_pending s))"
    and d: "ob_next_entry (mo_last_own s') = next_entry (mo_pending s')"
  shows "core_replay_inv s'"
proof -
  let ?R = "tc_round (mo_clock s)" and ?next = "next_entry (mo_pending s')"
  obtain r where r: "replay_sb (mo_wal s) sb_new = Some r" "recovers s r" using rep by (auto simp: core_replay_inv_def)
  note R = recoversD [OF r(2)]
  let ?r = "sb_own_block (mo_last_own s') r"
  have pend': "sb_pending ?r = filter (\<lambda>x. ?next \<le> fst x) (sb_pending r)"
    by (simp add: sb_own_block_def d case_prod_unfold)
  have sub: "set (sb_pending ?r) \<subseteq> set (sb_pending r)" by (auto simp: pend')
  have all: "mo_pending s = fst (split_pending ?R (mo_pending s)) @ mo_pending s'"
    by (simp add: pend split_pending_append)
  have same: "filter is_payload (sb_pending ?r) = filter is_payload (mo_pending s')"
  proof (cases "mo_pending s'")
    case Nil
    have "fst x < mo_end s" if "x \<in> set (sb_pending r)" for x
      by (rule pending_in_wal_position [OF R(3) core_store_invD(3) [OF inv(1)] that])
    then have "sb_pending ?r = []"
      using len Nil by (fastforce simp: pend' next_entry_def wal_position_max_def filter_empty_conv)
    with Nil show ?thesis by simp
  next
    case (Cons y ps)
    from rest_first [OF Cons [unfolded pend]] obtain h u where y: "y = (h, Include u)" "?R \<le> br_round u"
      by (cases y) auto
    obtain taken where ps: "mo_pending s = taken @ (h, Include u) # ps" using all Cons y(1) by metis
    have "pending_sorted (mo_pending s)" by (rule core_pending_invD(2) [OF inv(2)])
    then have "\<forall>z \<in> set taken. is_payload z \<longrightarrow> \<not> h \<le> fst z"
      using payload_before unfolding ps by (metis not_le)
    then have 1: "filter (\<lambda>x. is_payload x \<and> h \<le> fst x) taken = []" by (auto simp: filter_empty_conv)
    have 2: "filter (\<lambda>x. is_payload x \<and> h \<le> fst x) ((h, Include u) # ps) = filter is_payload ((h, Include u) # ps)"
      by (rule filter_cong) (use pending_rest(1) [OF inv(2) ps _ y(2)] ahead in auto)
    have "filter is_payload (sb_pending ?r) = filter (\<lambda>x. h \<le> fst x) (filter is_payload (mo_pending s))"
      unfolding R(5) [symmetric] by (simp add: pend' Cons y(1) next_entry_def conj_commute)
    also have "\<dots> = filter is_payload ((h, Include u) # ps)"
      using 1 2 by (simp add: ps conj_commute)
    finally show ?thesis by (simp add: Cons y(1))
  qed
  have kept: "x \<in> set (sb_pending ?r)" if x: "x \<in> set (mo_pending s')" for x
  proof -
    from x obtain y ps where ys: "mo_pending s' = y # ps" by (cases "mo_pending s'") auto
    from rest_first [OF ys [unfolded pend]] obtain h u where y: "y = (h, Include u)" "?R \<le> br_round u"
      by (cases y) auto
    obtain taken where ps: "mo_pending s = taken @ (h, Include u) # ps" using all ys y(1) by metis
    note p = pending_rest [OF inv(2) ps _ y(2), of x]
    have m: "x \<in> set (mo_pending s)" using x by (subst all) simp
    have "x \<in> set (sb_pending r)" using R(4) [OF m] p(2) x ahead unfolding ys y(1) by auto
    then show "x \<in> set (sb_pending ?r)" using p(1) x ahead by (auto simp: pend' ys y(1) next_entry_def)
  qed
  have "recovers s' ?r"
    unfolding recovers_def
  proof (intro conjI)
    show "sb_last_own ?r = Some (mo_last_own s')" by (simp add: sb_own_block_def)
    show "sorted_wrt (<) (map fst (sb_pending ?r))"
      using R(2) by (simp add: pend' sorted_wrt_map sorted_wrt_filter)
    show "pending_in_wal (mo_wal s') (sb_pending ?r)"
      by (rule pending_in_wal_subset [OF pending_in_wal_mono [OF R(3)] sub]) (auto simp: wal)
    show "\<forall>x \<in> set (mo_pending s'). x \<in> set (sb_pending ?r) \<or> last_proposed s' = 0 \<and> genesis_include x"
      using kept by blast
    show "filter is_payload (sb_pending ?r) = filter is_payload (mo_pending s')" by (rule same)
    show "\<forall>p q. (p, Include q) \<in> set (sb_pending ?r) \<longrightarrow>
        0 < br_round q \<and> ((p, Include q) \<in> set (mo_pending s') \<or> br_round q < last_proposed s')"
    proof (intro allI impI)
      fix p q assume "(p, Include q) \<in> set (sb_pending ?r)"
      then have q: "0 < br_round q" "(p, Include q) \<in> set (mo_pending s) \<or> br_round q < last_proposed s"
        using R(6) sub by blast+
      have "br_round q < ?R" if "(p, Include q) \<in> set (fst (split_pending ?R (mo_pending s)))"
        using that by (auto simp: split_pending_def before_round_def dest!: set_takeWhileD)
      moreover have "(p, Include q) \<in> set (fst (split_pending ?R (mo_pending s))) \<or> (p, Include q) \<in> set (mo_pending s')"
        if "(p, Include q) \<in> set (mo_pending s)"
        using that by (subst (asm) all) simp
      ultimately show "0 < br_round q \<and> ((p, Include q) \<in> set (mo_pending s') \<or> br_round q < last_proposed s')"
        using q ahead by (auto simp: last)
    qed
    show "map cd_height (sb_sub_dags ?r) = commit_heights (mo_wal s')"
      by (simp add: sb_own_block_def R(7) wal)
  qed
  moreover have "replay_sb (mo_wal s') sb_new = Some ?r"
    by (simp add: wal replay_sb_append r(1) sb_step_def)
  ultimately show ?thesis unfolding core_replay_inv_def by blast
qed

end
