(* ===== verification/MystiCoreRuns.thy ===== *)
theory MystiCoreRuns
  imports MystiRestart
begin

text \<open>
  Mysticeti: the runs of a core, from the genesis blocks through accepted blocks, proposals, commits,
  cleanups and restarts, and what every run keeps.
\<close>

section \<open>Writing to the log\<close>

definition core_inv :: "mcore_env \<Rightarrow> mcore \<Rightarrow> bool" where
  "core_inv e s \<longleftrightarrow> core_store_inv e s \<and> core_pending_inv e s \<and> core_replay_inv s"

lemma core_invD:
  assumes "core_inv e s"
  shows "core_store_inv e s" "core_pending_inv e s" "core_replay_inv s"
  using assms by (simp_all add: core_inv_def)

text \<open>The statements of the block handler.\<close>

lemma handler_spec:
  assumes inv: "core_inv e s" and payload: "me_payload_len e payload + header_len_bytes \<le> map_size" "ranges_ok payload"
  shows "\<exists>s' pos. run_block_handler e payload s = Some s' \<and> core_inv e s' \<and> mo_last_own s' = mo_last_own s \<and>
    mo_store s' = mo_store s \<and> mo_pending s' = mo_pending s @ [(pos, Payload payload)] \<and> mo_clock s' = mo_clock s"
proof -
  note I = core_invD [OF inv] and P = core_pending_invD [OF core_invD(2) [OF inv]]
  obtain pos end2 where w: "wal_write (me_payload_len e payload) (mo_end s) = Some (pos, end2)"
    using payload(1) wal_write_Some [of "me_payload_len e payload" "mo_end s"] by auto
  define s' where "s' = s\<lparr>mo_wal := mo_wal s @ [(pos, PayloadEntry payload)], mo_end := end2,
    mo_pending := mo_pending s @ [(pos, Payload payload)]\<rparr>"
  have run: "run_block_handler e payload s = Some s'" using w by (simp add: run_block_handler_def s'_def)
  have store: "core_store_inv e s'"
    using store_inv_write [OF I(1) w, of "PayloadEntry payload"] by (simp add: s'_def core_store_inv_def own_prev_def last_proposed_def)
  have low: "\<forall>x \<in> set (mo_pending s). fst x < mo_end s"
    using pending_in_wal_position [OF P(1) core_store_invD(3) [OF I(1)]] by blast
  have "core_pending_inv e s'"
    unfolding core_pending_inv_def
  proof (intro conjI)
    have "pending_in_wal (mo_wal s') (mo_pending s)"
      by (rule pending_in_wal_mono [OF P(1)]) (auto simp: s'_def)
    moreover have "pending_in_wal (mo_wal s') [(pos, Payload payload)]"
      by (auto simp: pending_in_wal_def s'_def intro!: exI [of _ "PayloadEntry payload"])
    ultimately show "pending_in_wal (mo_wal s') (mo_pending s')" by (simp add: s'_def)
    show "pending_sorted (mo_pending s')"
      using pending_sorted_batch [OF P(2) low, of "[]" pos payload] wal_write_later(1) [OF w]
      by (simp add: s'_def include_entries_def)
    show "\<forall>r \<in> stored (mo_store s'). last_proposed s' \<le> br_round r \<longrightarrow> r \<noteq> own_prev s' \<longrightarrow>
        r \<in> set (pending_includes (mo_pending s'))"
      using P(3) by (simp add: s'_def last_proposed_def own_prev_def)
    show "\<forall>x \<in> set (mo_pending s'). ranges_ok (payload_of (snd x))"
      using P(4) payload(2) by (auto simp: s'_def)
    show "\<exists>B. set (pending_includes (mo_pending s')) \<subseteq> B \<and> B \<subseteq> stored (mo_store s') \<and>
        clock_inv (me_committee e) B (mo_clock s')"
      using P(5) by (simp add: s'_def)
  qed
  moreover have "core_replay_inv s'"
    by (rule core_replay_add [OF I(3) core_store_invD(3) [OF I(1)] core_store_invD(3) [OF store], of "[]" pos payload])
      (simp_all add: s'_def include_entries_def)
  ultimately show ?thesis
    using run store by (intro exI [of _ s'] exI [of _ pos]) (simp add: core_inv_def s'_def)
qed

section \<open>Restarting\<close>

lemma store_open_spec:
  assumes env: "core_env_ok e" and inv: "core_inv e s" and later: "0 < last_proposed s"
  shows "\<exists>rec. store_open (me_committee e) (me_authority e) (mo_wal s) = Some rec \<and>
     store_wf (cr_store rec) \<and> log_ok (cr_store rec) (mo_end s) \<and> bs_authority (cr_store rec) = me_authority e \<and>
     length (bs_last_seen (cr_store rec)) = mc_len (me_committee e) \<and>
     block_at (cr_store rec) = block_at (mo_store s) \<and> cr_last_own rec = Some (mo_last_own s) \<and>
     sorted_wrt (<) (map fst (cr_pending rec)) \<and> pending_in_wal (mo_wal s) (cr_pending rec) \<and>
     set (mo_pending s) \<subseteq> set (cr_pending rec) \<and>
     filter is_payload (cr_pending rec) = filter is_payload (mo_pending s) \<and>
     (\<forall>p q. (p, Include q) \<in> set (cr_pending rec) \<longrightarrow>
        0 < br_round q \<and> ((p, Include q) \<in> set (mo_pending s) \<or> br_round q < last_proposed s)) \<and>
     (\<exists>r. replay_sb (mo_wal s) sb_new = Some r \<and> recovers s r \<and> cr_pending rec = sb_pending r)"
proof -
  have a: "me_authority e < mc_len (me_committee e)" using env by (simp add: core_env_ok_def)
  from store_restored [OF core_invD(1) [OF inv] a] obtain st where
    st: "replay_store (wal_blocks (mo_wal s)) (bs_new (me_committee e) (me_authority e) (log_read (mo_wal s))) = Some st"
    "store_wf st" "log_ok st (mo_end s)" "bs_authority st = me_authority e"
    "length (bs_last_seen st) = mc_len (me_committee e)" "block_at st = block_at (mo_store s)" by blast
  obtain r where r: "replay_sb (mo_wal s) sb_new = Some r" "recovers s r"
    using core_invD(3) [OF inv] by (auto simp: core_replay_inv_def)
  note R = recoversD [OF r(2)]
  have "set (mo_pending s) \<subseteq> set (sb_pending r)"
  proof
    fix x assume "x \<in> set (mo_pending s)"
    from R(4) [OF this] later show "x \<in> set (sb_pending r)" by simp
  qed
  moreover have "store_open (me_committee e) (me_authority e) (mo_wal s) = Some (sb_build st r)"
    using replay_log_split [OF st(1) r(1)] by (simp add: store_open_def)
  ultimately show ?thesis
  proof (intro exI [of _ "sb_build st r"] conjI exI [of _ r])
    show "\<forall>p q. (p, Include q) \<in> set (cr_pending (sb_build st r)) \<longrightarrow>
        0 < br_round q \<and> ((p, Include q) \<in> set (mo_pending s) \<or> br_round q < last_proposed s)"
      using R(6) by (auto simp: sb_build_def)
  qed (use st r R(1-3,5) in \<open>simp_all add: sb_build_def\<close>)
qed

lemma restart_spec:
  assumes env: "core_env_ok e" and inv: "core_inv e s" and later: "0 < last_proposed s"
    and payload: "me_payload_len e payload + header_len_bytes \<le> map_size" "ranges_ok payload"
  shows "\<exists>s'. mcore_restart e now payload s = Some s' \<and> core_inv e s' \<and> mo_last_own s' = mo_last_own s \<and>
    block_at (mo_store s') = block_at (mo_store s) \<and>
    clock_inv (me_committee e) (set (pending_includes (mo_pending s'))) (mo_clock s') \<and>
    (\<forall>r \<in> set (pending_includes (mo_pending s')). r \<in> set (pending_includes (mo_pending s)) \<or> br_round r < last_proposed s)"
proof -
  let ?c = "me_committee e"
  note I = core_invD [OF inv] and P = core_pending_invD [OF core_invD(2) [OF inv]] and D = core_store_invD [OF core_invD(1) [OF inv]]
  from store_open_spec [OF env inv later] obtain rec r where
    rec: "store_open ?c (me_authority e) (mo_wal s) = Some rec" "store_wf (cr_store rec)" "log_ok (cr_store rec) (mo_end s)"
    "bs_authority (cr_store rec) = me_authority e" "length (bs_last_seen (cr_store rec)) = mc_len ?c"
    "block_at (cr_store rec) = block_at (mo_store s)" "cr_last_own rec = Some (mo_last_own s)"
    "sorted_wrt (<) (map fst (cr_pending rec))" "pending_in_wal (mo_wal s) (cr_pending rec)"
    "set (mo_pending s) \<subseteq> set (cr_pending rec)" "filter is_payload (cr_pending rec) = filter is_payload (mo_pending s)"
    "\<forall>p q. (p, Include q) \<in> set (cr_pending rec) \<longrightarrow>
        0 < br_round q \<and> ((p, Include q) \<in> set (mo_pending s) \<or> br_round q < last_proposed s)"
    and r: "replay_sb (mo_wal s) sb_new = Some r" "recovers s r" "cr_pending rec = sb_pending r"
    by (elim exE conjE) (rule that)
  have same: "stored (cr_store rec) = stored (mo_store s)"
    by (simp add: set_eq_iff stored_iff [OF rec(2)] stored_iff [OF D(10)] rec(6))
  have refs: "set (pending_includes (cr_pending rec)) \<subseteq> stored (mo_store s)"
  proof
    fix q assume "q \<in> set (pending_includes (cr_pending rec))"
    then obtain p where "(p, Include q) \<in> set (cr_pending rec)" by (auto simp: set_pending_includes)
    then obtain b where "(p, BlockEntry b) \<in> set (mo_wal s)" "reference b = q"
      using rec(9) by (force simp: pending_in_wal_def entry_meta_Include)
    then have "(p, b) \<in> set (wal_blocks (mo_wal s))" "reference b = q" by (auto simp: set_wal_blocks)
    then show "q \<in> stored (mo_store s)" unfolding wal_store_stored [OF D(4)] by force
  qed
  have "\<forall>i \<in> {} \<union> snd ` set (map (Pair now) (pending_includes (cr_pending rec))). br_authority i < mc_len ?c"
    using clock_known [OF I(1) refs] by (auto simp: image_image)
  from clock_inv_run [OF _ _ clock_inv_new this, of now] env obtain t where
    t: "clock_of_pending ?c now (cr_pending rec) (tc_new 0 now) = Some t"
    "clock_inv ?c (set (pending_includes (cr_pending rec))) t"
    by (auto simp: core_env_ok_def clock_of_pending_run image_image)
  define s1 where "s1 = \<lparr>mo_manager = bk_new ?c, mo_store = cr_store rec, mo_wal = mo_wal s, mo_end = mo_end s,
    mo_pending = cr_pending rec, mo_last_own = mo_last_own s, mo_clock = t,
    mo_commit = (commit_state_new (me_rounds_in_epoch e))\<lparr>cs_last_decided :=
      (case cr_last_leader rec of None \<Rightarrow> genesis_slot | Some r \<Rightarrow> reference_to_slot r)\<rparr>, mo_force = False\<rparr>"
  have open1: "mcore_restart e now payload s =
      (if cr_unprocessed rec = [] then Some s1 else run_block_handler e payload s1)"
    using rec(1,7) t(1) by (simp add: mcore_restart_def mcore_open_def Let_def s1_def)
  have "core_store_inv e s1"
    unfolding core_store_inv_def
  proof (intro conjI)
    show "manager_inv (me_len e) (mc_len ?c) (mo_manager s1) (mo_store s1) (mo_end s1) []"
      using manager_inv_new [OF rec(2,3,5)] by (simp add: s1_def)
    show "wal_store (mo_wal s1) (mo_store s1)" using D(4) rec(2,6) by (simp add: wal_store_def s1_def)
    show "bs_holds (mo_store s1) (ob_block (mo_last_own s1))" using D(7) by (simp add: bs_holds_def s1_def rec(6))
    show "\<forall>b \<in> snd ` set (bk_pending (mo_manager s1)). well_referenced ?c b \<and> 0 < block_round b"
      by (simp add: s1_def bk_new_def)
    show "\<forall>q \<in> stored (mo_store s1). br_authority q = me_authority e \<longrightarrow> br_round q \<le> last_proposed s1"
      using D(9) by (simp add: s1_def same last_proposed_def)
    show "br_authority (own_prev s1) = me_authority e" using D(8) by (simp add: s1_def own_prev_def)
  qed (use D(3,6) rec(4) in \<open>simp_all add: s1_def\<close>)
  moreover have "core_pending_inv e s1"
    unfolding core_pending_inv_def
  proof (intro conjI)
    show "pending_in_wal (mo_wal s1) (mo_pending s1)" using rec(9) by (simp add: s1_def)
    have "sorted_wrt (\<lambda>x y. fst x < fst y) (cr_pending rec)" using rec(8) by (simp add: sorted_wrt_map)
    then have "pending_sorted (cr_pending rec)"
      unfolding pending_sorted_def
    proof (rule sorted_wrt_mono_rel [rotated])
      fix x y :: "nat \<times> meta_statement" assume y: "y \<in> set (cr_pending rec)" "fst x < fst y"
      have "\<not> genesis_include y"
      proof
        assume "genesis_include y"
        then obtain q where "snd y = Include q" "br_round q = 0" by (auto simp: genesis_include_def)
        with y(1) rec(12) show False by (metis less_irrefl prod.collapse)
      qed
      with y(2) show "pend_before x y \<and> (genesis_include y \<longrightarrow> genesis_include x)" by (simp add: pend_before_def)
    qed
    then show "pending_sorted (mo_pending s1)" by (simp add: s1_def)
    show "\<forall>q \<in> stored (mo_store s1). last_proposed s1 \<le> br_round q \<longrightarrow> q \<noteq> own_prev s1 \<longrightarrow>
        q \<in> set (pending_includes (mo_pending s1))"
      using P(3) rec(10) by (force simp: s1_def same last_proposed_def own_prev_def set_pending_includes)
    show "\<forall>x \<in> set (mo_pending s1). ranges_ok (payload_of (snd x))"
    proof
      fix x assume x: "x \<in> set (mo_pending s1)"
      show "ranges_ok (payload_of (snd x))"
      proof (cases "is_payload x")
        case True
        then have "x \<in> set (filter is_payload (mo_pending s))" using x by (simp add: s1_def rec(11) [symmetric])
        then show ?thesis using P(4) by simp
      next
        case False
        then show ?thesis by (cases "snd x") (auto simp: is_payload_def)
      qed
    qed
    show "\<exists>B. set (pending_includes (mo_pending s1)) \<subseteq> B \<and> B \<subseteq> stored (mo_store s1) \<and> clock_inv ?c B (mo_clock s1)"
      using t(2) refs by (intro exI [of _ "set (pending_includes (cr_pending rec))"]) (simp add: s1_def same)
  qed
  moreover have "core_replay_inv s1"
  proof -
    have "recovers s1 r"
      using r(2) later by (simp add: recovers_def s1_def r(3) [symmetric] last_proposed_def)
    then show ?thesis using r(1) by (auto simp: core_replay_inv_def s1_def)
  qed
  ultimately have inv1: "core_inv e s1" by (simp add: core_inv_def)
  have extra: "\<forall>r \<in> set (pending_includes (cr_pending rec)).
      r \<in> set (pending_includes (mo_pending s)) \<or> br_round r < last_proposed s"
    using rec(12) by (fastforce simp: set_pending_includes)
  show ?thesis
  proof (cases "cr_unprocessed rec = []")
    case True
    then show ?thesis using open1 inv1 t(2) extra by (simp add: s1_def rec(6))
  next
    case False
    from handler_spec [OF inv1 payload] obtain s' pos where
      "run_block_handler e payload s1 = Some s'" "core_inv e s'" "mo_last_own s' = mo_last_own s1" "mo_store s' = mo_store s1"
      "mo_pending s' = mo_pending s1 @ [(pos, Payload payload)]" "mo_clock s' = mo_clock s1"
      by blast
    then show ?thesis using open1 False t(2) extra by (simp add: s1_def rec(6))
  qed
qed

section \<open>Starting\<close>

text \<open>The loop over the genesis blocks of the others.\<close>

definition genesis_inv :: "mcore_env \<Rightarrow> mcore \<Rightarrow> bool" where
  "genesis_inv e s \<longleftrightarrow> bs_authority (mo_store s) = me_authority e \<and> log_ok (mo_store s) (mo_end s) \<and>
     length (bs_last_seen (mo_store s)) = mc_len (me_committee e) \<and> wal_ordered (mo_wal s) (mo_end s) \<and>
     wal_store (mo_wal s) (mo_store s) \<and>
     (\<forall>x \<in> set (wal_blocks (mo_wal s)). block_includes (snd x) = [] \<and> block_round (snd x) = 0 \<and>
        block_author (snd x) < mc_len (me_committee e) \<and> block_author (snd x) \<noteq> me_authority e) \<and>
     (\<forall>x \<in> set (mo_wal s). \<exists>b. snd x = BlockEntry b) \<and>
     mo_pending s = include_entries (wal_blocks (mo_wal s)) \<and>
     clock_inv (me_committee e) (stored (mo_store s)) (mo_clock s)"

lemma genesis_simps [simp]:
  "block_author (new_genesis cr a epoch) = a" "block_round (new_genesis cr a epoch) = 0"
  "block_includes (new_genesis cr a epoch) = []" "br_authority (reference (new_genesis cr a epoch)) = a"
  "br_round (reference (new_genesis cr a epoch)) = 0"
  by (simp_all add: new_genesis_def statement_block_new_def block_author_def block_round_def)

lemma genesis_free:
  assumes wf: "store_wf st" and none: "\<forall>r \<in> stored st. br_authority r \<noteq> bs_authority st"
  shows "map_of (bs_own_blocks st) n = None"
proof (cases "map_of (bs_own_blocks st) n")
  case (Some d)
  then have "own_entry_ok st (n, d)" using wf unfolding store_wf_alt by blast
  then have "\<lparr>br_authority = bs_authority st, br_round = n, br_digest = d\<rparr> \<in> stored st"
    by (simp add: own_entry_ok_def stored_def)
  with none show ?thesis by fastforce
qed

lemma genesis_invD:
  assumes "genesis_inv e s"
  shows "bs_authority (mo_store s) = me_authority e" "log_ok (mo_store s) (mo_end s)"
    "length (bs_last_seen (mo_store s)) = mc_len (me_committee e)" "wal_ordered (mo_wal s) (mo_end s)"
    "wal_store (mo_wal s) (mo_store s)"
    "\<And>x. x \<in> set (wal_blocks (mo_wal s)) \<Longrightarrow> block_includes (snd x) = [] \<and> block_round (snd x) = 0 \<and>
        block_author (snd x) < mc_len (me_committee e) \<and> block_author (snd x) \<noteq> me_authority e"
    "\<forall>x \<in> set (mo_wal s). \<exists>b. snd x = BlockEntry b"
    "mo_pending s = include_entries (wal_blocks (mo_wal s))"
    "clock_inv (me_committee e) (stored (mo_store s)) (mo_clock s)" "store_wf (mo_store s)"
    "stored (mo_store s) = (reference \<circ> snd) ` set (wal_blocks (mo_wal s))"
  using assms wal_store_stored [of "mo_wal s" "mo_store s"]
  by (simp_all add: genesis_inv_def image_comp wal_store_def)

text \<open>One more genesis block in the store.\<close>

lemma genesis_insert:
  assumes env: "core_env_ok e" and inv: "genesis_inv e s" and a: "a < mc_len (me_committee e)"
    and b: "b = new_genesis (me_crypto e) a (mc_epoch (me_committee e))"
    and new: "\<forall>x \<in> set (wal_blocks (mo_wal s)). block_author (snd x) \<noteq> a"
    and clock: "tc_add_block (me_committee e) now (reference b) (mo_clock s) = Some clock"
    and w: "wal_write k (mo_end s) = Some (pos, end2)"
    and st: "writer_insert_block pos b (mo_store s) = Some st" and en: "log_block en = Some b"
  shows "bs_authority st = me_authority e" "log_ok st end2" "length (bs_last_seen st) = mc_len (me_committee e)"
    "wal_ordered (mo_wal s @ [(pos, en)]) end2" "wal_store (mo_wal s @ [(pos, en)]) st"
    "stored st = insert (reference b) (stored (mo_store s))"
    "clock_inv (me_committee e) (stored st) clock"
proof -
  note G = genesis_invD [OF inv]
  have free: "map_of (bs_own_blocks (mo_store s)) (block_round b) = None"
    by (rule genesis_free [OF G(10)]) (use G(6) in \<open>fastforce simp: G(1,11) block_author_def\<close>)
  have "block_author b < length (bs_last_seen (mo_store s))" using a b G(3) by simp
  from writer_insert_spec [OF G(10,2) w this free] st have st':
    "store_wf st" "log_ok st end2" "block_at st = (block_at (mo_store s))(reference b \<mapsto> b)"
    "bs_authority st = bs_authority (mo_store s)" "length (bs_last_seen st) = length (bs_last_seen (mo_store s))"
    by auto
  show "bs_authority st = me_authority e" "log_ok st end2" "length (bs_last_seen st) = mc_len (me_committee e)"
    using st' G(1,3) by simp_all
  show "wal_ordered (mo_wal s @ [(pos, en)]) end2" by (rule wal_ordered_write [OF G(4) w])
  have "reference b \<notin> stored (mo_store s)"
  proof
    assume "reference b \<in> stored (mo_store s)"
    then obtain x where x: "x \<in> set (wal_blocks (mo_wal s))" "reference b = reference (snd x)" by (auto simp: G(11))
    then have "block_author (snd x) = a" using b by (metis block_author_def genesis_simps(4))
    with new x(1) show False by blast
  qed
  then show "wal_store (mo_wal s @ [(pos, en)]) st"
    using G(5) st'(1,3) en b wal_store_stored [OF G(5)] by (simp add: wal_store_def causal_from_append)
  show refs: "stored st = insert (reference b) (stored (mo_store s))"
    using exists_block_at [OF G(10) st'(3,1)] by (auto simp: stored_def)
  have "\<forall>i \<in> insert (reference b) (stored (mo_store s)). br_authority i < mc_len (me_committee e)"
    using G(6) a b by (fastforce simp: G(11) block_author_def)
  from clock_inv_step [OF _ _ G(9) this, of now] env clock show "clock_inv (me_committee e) (stored st) clock"
    by (simp add: core_env_ok_def refs)
qed

lemma open_genesis_spec:
  assumes env: "core_env_ok e"
    and as: "\<forall>a \<in> set as. a < mc_len (me_committee e) \<and> a \<noteq> me_authority e" "distinct as"
    and inv: "genesis_inv e s" "\<forall>x \<in> set (wal_blocks (mo_wal s)). block_author (snd x) \<notin> set as"
    and run: "open_genesis e now (map (\<lambda>a. new_genesis (me_crypto e) a (mc_epoch (me_committee e))) as) s = Some s'"
  shows "genesis_inv e s' \<and> mo_manager s' = mo_manager s"
  using as inv run
proof (induction as arbitrary: s)
  case (Cons a as)
  let ?b = "new_genesis (me_crypto e) a (mc_epoch (me_committee e))"
  note G = genesis_invD [OF Cons.prems(3)]
  from Cons.prems(5) obtain clock pos end2 st where
    step: "tc_add_block (me_committee e) now (reference ?b) (mo_clock s) = Some clock"
    "wal_write (me_len e ?b) (mo_end s) = Some (pos, end2)" "writer_insert_block pos ?b (mo_store s) = Some st"
    and rest: "open_genesis e now (map (\<lambda>a. new_genesis (me_crypto e) a (mc_epoch (me_committee e))) as)
      (s\<lparr>mo_clock := clock, mo_store := st, mo_wal := mo_wal s @ [(pos, BlockEntry ?b)], mo_end := end2,
        mo_pending := mo_pending s @ [(pos, Include (reference ?b))]\<rparr>) = Some s'"
    by (auto split: option.splits prod.splits)
  let ?s = "s\<lparr>mo_clock := clock, mo_store := st, mo_wal := mo_wal s @ [(pos, BlockEntry ?b)], mo_end := end2,
      mo_pending := mo_pending s @ [(pos, Include (reference ?b))]\<rparr>"
  have a: "a < mc_len (me_committee e)" "a \<noteq> me_authority e" using Cons.prems(1) by auto
  have fresh: "\<forall>x \<in> set (wal_blocks (mo_wal s)). block_author (snd x) \<noteq> a" using Cons.prems(4) by auto
  note ins = genesis_insert [OF env Cons.prems(3) a(1) refl fresh step(1,2,3), of "BlockEntry ?b", simplified]
  have "genesis_inv e ?s"
    unfolding genesis_inv_def
  proof (intro conjI)
    show "\<forall>x \<in> set (mo_wal ?s). \<exists>b. snd x = BlockEntry b" using G(7) by auto
    show "mo_pending ?s = include_entries (wal_blocks (mo_wal ?s))" using G(8) by (simp add: include_entries_def)
  qed (use ins G(6) a in auto)
  moreover have "\<forall>x \<in> set (wal_blocks (mo_wal ?s)). block_author (snd x) \<notin> set as"
    using Cons.prems(2,4) by auto
  ultimately have "genesis_inv e s' \<and> mo_manager s' = mo_manager ?s"
    using Cons.prems(1,2) by (intro Cons.IH [OF _ _ _ _ rest]) auto
  then show ?case by simp
qed simp

lemma only_blocks: "\<forall>x \<in> set wal. \<exists>b. snd x = BlockEntry b \<Longrightarrow> wal = map (\<lambda>(p, b). (p, BlockEntry b)) (wal_blocks wal)"
  by (induction wal) auto

lemma genesis_others:
  "snd (mc_genesis_blocks cr c a) = map (\<lambda>x. new_genesis cr x (mc_epoch c)) (filter (\<lambda>x. x \<noteq> a) [0..<mc_len c])"
proof -
  have "List.map_filter (\<lambda>x. if x = a then None else Some (f x)) xs = map f (filter (\<lambda>x. x \<noteq> a) xs)" for f :: "nat \<Rightarrow> statement_block" and xs
    by (induction xs) (auto simp: List.map_filter_simps)
  then show ?thesis by (simp add: mc_genesis_blocks_def mc_authority_range_def)
qed

lemma start_spec:
  assumes env: "core_env_ok e" and start: "mcore_start e now = Some s" and len: "mo_end s < 2 ^ 64"
  shows "core_inv e s \<and> ob_block (mo_last_own s) = new_genesis (me_crypto e) (me_authority e) (mc_epoch (me_committee e))"
proof -
  let ?c = "me_committee e" and ?a = "me_authority e"
  let ?own = "new_genesis (me_crypto e) ?a (mc_epoch ?c)" and ?d = "\<lparr>ob_next_entry = wal_position_max, ob_block =
      new_genesis (me_crypto e) (me_authority e) (mc_epoch (me_committee e))\<rparr>"
  let ?others = "map (\<lambda>a. new_genesis (me_crypto e) a (mc_epoch ?c)) (filter (\<lambda>x. x \<noteq> ?a) [0..<mc_len ?c])"
  have a: "?a < mc_len ?c" using env by (simp add: core_env_ok_def)
  have gen: "mc_genesis_blocks (me_crypto e) ?c ?a = (?own, ?others)"
    using genesis_others [of "me_crypto e" ?c ?a] by (simp add: mc_genesis_blocks_def prod_eq_iff)
  define s0 where "s0 = \<lparr>mo_manager = bk_new ?c, mo_store = bs_new ?c ?a (log_read []), mo_wal = [], mo_end = 0,
      mo_pending = [], mo_last_own = \<lparr>ob_next_entry = 0, ob_block = ?own\<rparr>, mo_clock = tc_new 0 now,
      mo_commit = (commit_state_new (me_rounds_in_epoch e))\<lparr>cs_last_decided := genesis_slot\<rparr>, mo_force = False\<rparr>"
  have "open_empty e now s0 = Some s"
    using start by (simp add: mcore_start_def store_open_def sb_build_def sb_new_def mcore_open_def Let_def s0_def split: option.splits)
  then obtain s1 clock pos end2 st where
    s1: "open_genesis e now ?others s0 = Some s1" "tc_add_block ?c now (reference ?own) (mo_clock s1) = Some clock"
    "wal_write (8 + me_len e ?own) (mo_end s1) = Some (pos, end2)" "writer_insert_block pos ?own (mo_store s1) = Some st"
    and s: "s = s1\<lparr>mo_clock := clock, mo_store := st, mo_wal := mo_wal s1 @ [(pos, OwnBlockEntry ?d)], mo_end := end2,
      mo_last_own := ?d\<rparr>"
    by (auto simp: open_empty_def gen insert_own_block_def Let_def split: option.splits)
  have g0: "genesis_inv e s0"
  proof -
    have st0: "store_wf (mo_store s0)" "stored (mo_store s0) = {}" "block_at (mo_store s0) = Map.empty"
      by (auto simp: s0_def store_wf_new stored_def block_exists_iff [OF store_wf_new])
    have "clock_inv ?c {} (mo_clock s0)" using env by (simp add: core_env_ok_def clock_inv_new s0_def)
    then show ?thesis
      using st0 by (simp add: genesis_inv_def wal_store_def)
        (simp add: s0_def bs_new_def mc_authority_range_def log_ok_def inner_get_block_def include_entries_def)
  qed
  have "genesis_inv e s1 \<and> mo_manager s1 = mo_manager s0"
    by (rule open_genesis_spec [OF env _ _ g0 _ s1(1)]) (simp_all add: s0_def)
  then have inv1: "genesis_inv e s1" and man: "mo_manager s1 = bk_new ?c" by (simp_all add: s0_def)
  note G = genesis_invD [OF inv1]
  have fresh: "\<forall>x \<in> set (wal_blocks (mo_wal s1)). block_author (snd x) \<noteq> ?a" using G(6) by blast
  note ins = genesis_insert [OF env inv1 a refl fresh s1(2-4), of "OwnBlockEntry ?d", simplified]
  have wf: "store_wf st" using ins(5) by (simp add: wal_store_def)
  have lp: "last_proposed s = 0" "own_prev s = reference ?own" by (simp_all add: s last_proposed_def own_prev_def)
  have rounds: "br_round r = 0" if "r \<in> stored st" for r
    using that G(6) by (auto simp: ins(6) G(11) block_round_def)
  have store: "core_store_inv e s"
    unfolding core_store_inv_def
  proof (intro conjI)
    show "manager_inv (me_len e) (mc_len ?c) (mo_manager s) (mo_store s) (mo_end s) []"
      using manager_inv_new [OF wf ins(2,3)] by (simp add: s man)
    show "\<forall>x \<in> set (wal_blocks (mo_wal s)). well_referenced ?c (snd x)"
      using G(6) a by (auto simp: s well_referenced_def)
    show "bs_holds (mo_store s) (ob_block (mo_last_own s))" using wal_store_holds [OF ins(5)] by (simp add: s)
    show "\<forall>r \<in> stored (mo_store s). br_authority r = ?a \<longrightarrow> br_round r \<le> last_proposed s"
      using rounds by (simp add: s)
    show "\<forall>b \<in> snd ` set (bk_pending (mo_manager s)). well_referenced ?c b \<and> 0 < block_round b"
      by (simp add: s man bk_new_def)
  qed (use ins(1,4,5) lp in \<open>simp_all add: s\<close>)
  have bl: "mo_wal s1 = map (\<lambda>(p, b). (p, BlockEntry b)) (wal_blocks (mo_wal s1))" by (rule only_blocks [OF G(7)])
  have gens: "genesis_include x" if "x \<in> set (mo_pending s1)" for x
    using that G(6) by (auto simp: G(8) include_entries_def genesis_include_def block_round_def)
  have srt: "sorted_wrt (\<lambda>x y. fst x < fst y) (wal_blocks (mo_wal s1))"
    using wal_blocks_order G(4) by (auto simp: wal_ordered_def sorted_wrt_map)
  have pend: "core_pending_inv e s"
    unfolding core_pending_inv_def
  proof (intro conjI)
    show "pending_in_wal (mo_wal s) (mo_pending s)"
      unfolding pending_in_wal_def
    proof
      fix x assume "x \<in> set (mo_pending s)"
      then obtain p b where x: "x = (p, Include (reference b))" "(p, b) \<in> set (wal_blocks (mo_wal s1))"
        by (auto simp: s G(8) include_entries_def)
      then obtain en where "(p, en) \<in> set (mo_wal s1)" "log_block en = Some b" by (auto simp: set_wal_blocks)
      then have "(p, BlockEntry b) \<in> set (mo_wal s)" using G(7) by (fastforce simp: s)
      then show "\<exists>en. (fst x, en) \<in> set (mo_wal s) \<and> entry_meta en = Some (snd x)" using x(1) by force
    qed
    have "sorted_wrt (\<lambda>x y. fst x < fst y) (mo_pending s1)"
      unfolding G(8) include_entries_def sorted_wrt_map
      by (rule sorted_wrt_mono_rel [OF _ srt]) (simp add: split_beta)
    then have "pending_sorted (mo_pending s1)"
      unfolding pending_sorted_def by (rule sorted_wrt_mono_rel [rotated]) (simp add: gens pend_before_def)
    then show "pending_sorted (mo_pending s)" by (simp add: s)
    show "\<forall>r \<in> stored (mo_store s). last_proposed s \<le> br_round r \<longrightarrow> r \<noteq> own_prev s \<longrightarrow>
        r \<in> set (pending_includes (mo_pending s))"
      by (simp add: lp(2)) (auto simp: s ins(6) G(8,11))
    show "\<forall>x \<in> set (mo_pending s). ranges_ok (payload_of (snd x))"
      by (auto simp: s G(8) include_entries_def)
    show "\<exists>B. set (pending_includes (mo_pending s)) \<subseteq> B \<and> B \<subseteq> stored (mo_store s) \<and> clock_inv ?c B (mo_clock s)"
      using ins(6,7) by (intro exI [of _ "stored st"]) (auto simp: s G(8,11))
  qed
  have "core_replay_inv s"
  proof -
    have new: "sorted_wrt (<) (map fst (wal_blocks (mo_wal s1)))" using srt by (simp add: sorted_wrt_map)
    obtain r where r: "replay_sb (mo_wal s1) sb_new = Some r" "sb_pending r = include_entries (wal_blocks (mo_wal s1))"
      "sb_sub_dags r = []"
      using replay_blocks [of sb_new, OF _ new] unfolding bl [symmetric] by (auto simp: sb_new_def)
    have low: "fst x < wal_position_max" if x: "x \<in> set (wal_blocks (mo_wal s1))" for x
    proof -
      have "(fst x, snd x) \<in> set (wal_blocks (mo_wal s1))" using x by simp
      then obtain en where "(fst x, en) \<in> set (mo_wal s1)" unfolding set_wal_blocks by blast
      then have "fst x < pos" using ins(4) by (force simp: wal_ordered_def sorted_wrt_append)
      moreover have "pos < end2" using ins(4) by (simp add: wal_ordered_def)
      ultimately show ?thesis using len by (simp add: s wal_position_max_def)
    qed
    have none: "sb_pending (sb_own_block ?d r) = []"
      using low by (fastforce simp: sb_own_block_def r(2) include_entries_def filter_empty_conv)
    have heights: "commit_heights (mo_wal s1) = []" using commit_heights_blocks [of "wal_blocks (mo_wal s1)"] by (simp only: bl [symmetric])
    have "recovers s (sb_own_block ?d r)"
      using gens lp(1) heights r(3)
      by (simp add: recovers_def none pending_in_wal_def)
        (simp add: sb_own_block_def s G(8))
    moreover have "replay_sb (mo_wal s) sb_new = Some (sb_own_block ?d r)"
      by (simp add: s replay_sb_append r(1) sb_step_def)
    ultimately show ?thesis unfolding core_replay_inv_def by blast
  qed
  then show ?thesis using store pend by (simp add: core_inv_def s)
qed

section \<open>Cleaning up and committing\<close>

lemma unload_wf:
  assumes wf: "store_wf st" and l: "log_ok st n"
  shows "store_wf (unload_below_round t st)" "log_ok (unload_below_round t st) n"
proof -
  let ?st = "unload_below_round t st"
  have wal: "wal_ok st" by (rule log_ok_wal_ok [OF wf l])
  have fields: "bs_own_blocks ?st = bs_own_blocks st" "bs_authority ?st = bs_authority st" "bs_wal ?st = bs_wal st"
    "bs_highest_round ?st = bs_highest_round st" "bs_last_seen ?st = bs_last_seen st"
    by (simp_all add: unload_below_round_def)
  have ex: "block_exists ?st r = block_exists st r" for r by (simp add: exists_inner inner_unload)
  show "store_wf ?st"
    unfolding store_wf_alt
  proof (intro conjI allI impI)
    have "map fst (bs_index ?st) = map fst (bs_index st)"
      by (simp add: unload_below_round_def comp_def split_beta if_distrib cong: if_cong)
    then show "bt_wf (bs_index ?st)" using wf by (simp add: store_wf_def)
    show "bt_wf (bs_own_blocks ?st)" using wf by (simp add: fields store_wf_def)
    fix k d assume "map_of (bs_own_blocks ?st) k = Some d"
    then have "own_entry_ok st (k, d)" using wf unfolding store_wf_alt fields by blast
    then show "own_entry_ok ?st (k, d)" by (simp add: own_entry_ok_def fields ex)
  next
    fix k m assume m: "map_of (bs_index ?st) k = Some m"
    then obtain m0 where m0: "map_of (bs_index st) k = Some m0"
      "m = (if t < k then m0 else map (\<lambda>(x, en). (x, unload_entry en)) m0)"
      by (auto simp: map_of_unload)
    have ok: "hm_wf m0" "\<And>x. x \<in> set m0 \<Longrightarrow> entry_ok st k x" using store_wf_index [OF wf m0(1)] by auto
    have old: "entry_ok ?st k x" if "entry_ok st k x" for x
      using that by (simp add: entry_ok_def fields split_beta)
    have un: "entry_ok ?st k (y, unload_entry en)" if x: "(y, en) \<in> set m0" for y en
    proof -
      have "inner_get_block st \<lparr>br_authority = fst y, br_round = k, br_digest = snd y\<rparr> = Some en"
        using m0(1) ok(1) x by (simp add: inner_get_block_def author_digest_def map_of_in_set)
      from wal_ok_read [OF wal this] have "read_index st (unload_entry en) = read_index st en" by simp
      then show ?thesis using ok(2) [OF x] by (simp add: entry_ok_def fields split_beta)
    qed
    show "hm_wf m" using ok(1) by (simp add: m0(2) comp_def split_beta)
    show "\<forall>x \<in> set m. entry_ok ?st k x" using old ok(2) un by (auto simp: m0(2))
  qed
  show "log_ok ?st n"
    unfolding log_ok_def
  proof (intro allI impI)
    fix r en assume "inner_get_block ?st r = Some en"
    then obtain e0 where e0: "inner_get_block st r = Some e0" "en = e0 \<or> en = unload_entry e0"
      by (auto simp: inner_unload split: if_splits)
    then show "case en of WalPosition p \<Rightarrow> p < n | Loaded p b \<Rightarrow> p < n \<and> bs_wal ?st p = Some b"
      using l by (cases e0) (fastforce simp: log_ok_def fields)+
  qed
qed

lemma cleanup_spec:
  assumes inv: "core_inv e s"
  shows "core_inv e (mcore_cleanup e s)"
proof -
  let ?t = "ar_round (cs_last_decided (mo_commit s)) - me_store_retain_rounds e"
  note I = core_invD [OF inv] and D = core_store_invD [OF core_invD(1) [OF inv]]
  show ?thesis
  proof (cases "?t = 0")
    case True
    then have "mcore_cleanup e s = s" by (simp add: mcore_cleanup_def bs_cleanup_def)
    then show ?thesis using inv by simp
  next
    case False
    define st where "st = unload_below_round ?t (mo_store s)"
    have s': "mcore_cleanup e s = s\<lparr>mo_store := st\<rparr>" using False by (simp add: mcore_cleanup_def bs_cleanup_def st_def)
    note u = unload_wf [OF D(10,11), of ?t, folded st_def]
    have ex: "block_exists st = block_exists (mo_store s)" by (simp add: fun_eq_iff exists_inner inner_unload st_def)
    have at: "block_at st = block_at (mo_store s)"
      by (simp add: fun_eq_iff block_at_def st_def unload_get_block [OF log_ok_wal_ok [OF D(10,11)]])
    have fields: "bs_authority st = bs_authority (mo_store s)" "bs_last_seen st = bs_last_seen (mo_store s)"
      by (simp_all add: st_def unload_below_round_def)
    have "sized n m st = sized n m (mo_store s)" "pending_ok len n m st [] = pending_ok len n m (mo_store s) []"
      "waiting_ok m st = waiting_ok m (mo_store s)" for n m len
      by (simp_all only: sized_def pending_ok_def waiting_ok_def fields ex)
    then have "manager_inv (me_len e) (mc_len (me_committee e)) (mo_manager s) st (mo_end s) []"
      using D(2) u by (simp add: manager_inv_def released_ok_def)
    moreover have same: "stored st = stored (mo_store s)" "bs_holds st = bs_holds (mo_store s)"
      by (simp_all add: stored_def ex fun_eq_iff bs_holds_def at)
    moreover have "wal_store (mo_wal s) st" using D(4) u(1) at by (simp add: wal_store_def)
    ultimately have "core_store_inv e (s\<lparr>mo_store := st\<rparr>)"
      using I(1) by (simp add: core_store_inv_def own_prev_def last_proposed_def fields)
    then show ?thesis
      using I(2,3) same
      by (simp add: s' core_inv_def core_pending_inv_def core_replay_inv_def recovers_def own_prev_def last_proposed_def)
  qed
qed

lemma commit_loop_spec:
  assumes "sorted_wrt (<) (map cd_height (sb_sub_dags r @ cds))"
  shows "\<exists>r'. sb_commit_loop cds r = Some r' \<and> sb_sub_dags r' = sb_sub_dags r @ cds \<and> sb_pending r' = sb_pending r \<and>
     sb_last_own r' = sb_last_own r"
  using assms
proof (induction cds arbitrary: r)
  case (Cons cd cds)
  have ok: "\<not> (sb_sub_dags r \<noteq> [] \<and> cd_height cd \<le> cd_height (last (sb_sub_dags r)))"
    using Cons.prems by (cases "sb_sub_dags r" rule: rev_cases) (auto simp: sorted_wrt_append)
  let ?r = "r\<lparr>sb_last_leader := Some (cd_leader cd), sb_sub_dags := sb_sub_dags r @ [cd]\<rparr>"
  have "sorted_wrt (<) (map cd_height (sb_sub_dags ?r @ cds))" using Cons.prems by simp
  from Cons.IH [OF this] show ?case using ok by simp
qed simp

text \<open>Committed sub-dags come with ascending heights, as the linearizer gives them.\<close>

lemma committed_spec:
  assumes inv: "core_inv e s"
    and run: "mcore_handle_committed e now state committed commits_len ds s = Some (cds, s')"
    and heights: "sorted_wrt (<) (commit_heights (mo_wal s) @ map sd_height ds)"
  shows "core_inv e s' \<and> mo_last_own s' = mo_last_own s"
proof -
  note I = core_invD [OF inv] and P = core_pending_invD [OF core_invD(2) [OF inv]]
  from run obtain em pos1 end1 pos2 end2 where
    w: "wal_write (length state) (mo_end s) = Some (pos1, end1)" "wal_write (commits_len cds committed) end1 = Some (pos2, end2)"
    and cds: "cds = map commit_data_of ds"
    and s': "s' = s\<lparr>mo_commit := (mo_commit s)\<lparr>cs_epoch_manager := em\<rparr>,
      mo_wal := mo_wal s @ [(pos1, StateEntry state), (pos2, CommitEntry cds committed)], mo_end := end2\<rparr>"
    by (auto simp: mcore_handle_committed_def Let_def split: option.splits prod.splits)
  let ?s1 = "s\<lparr>mo_wal := mo_wal s @ [(pos1, StateEntry state)], mo_end := end1\<rparr>"
  have "core_store_inv e ?s1" by (rule store_inv_write [OF I(1) w(1)]) simp
  from store_inv_write [OF this, of "commits_len cds committed" pos2 end2 "CommitEntry cds committed"] w(2)
  have store: "core_store_inv e s'" by (simp add: s' core_store_inv_def own_prev_def last_proposed_def)
  have "pending_in_wal (mo_wal s') (mo_pending s')"
    using pending_in_wal_mono [OF P(1), of "mo_wal s'"] by (simp add: s' subset_insertI2)
  then have pend: "core_pending_inv e s'"
    using I(2) by (simp add: core_pending_inv_def s' own_prev_def last_proposed_def)
  obtain r where r: "replay_sb (mo_wal s) sb_new = Some r" "recovers s r" using I(3) by (auto simp: core_replay_inv_def)
  note R = recoversD [OF r(2)]
  let ?r1 = "sb_state_entry state r"
  have "sorted_wrt (<) (map cd_height (sb_sub_dags ?r1 @ cds))"
    using heights by (simp add: sb_state_entry_def R(7) cds commit_data_of_def comp_def)
  from commit_loop_spec [OF this] obtain r2 where
    r2: "sb_commit_loop cds ?r1 = Some r2" "sb_sub_dags r2 = sb_sub_dags r @ cds" "sb_pending r2 = sb_pending r"
    "sb_last_own r2 = sb_last_own r" by (auto simp: sb_state_entry_def)
  let ?r3 = "r2\<lparr>sb_committed_state := Some committed\<rparr>"
  have "pending_in_wal (mo_wal s') (sb_pending r)"
    by (rule pending_in_wal_mono [OF R(3)]) (auto simp: s')
  then have "recovers s' ?r3"
    using r(2) r2(2-4) R(7) by (simp add: recovers_def s' last_proposed_def)
  moreover have "replay_sb (mo_wal s') sb_new = Some ?r3"
    by (simp add: s' replay_sb_append r(1) sb_step_def sb_commit_data_def r2(1))
  ultimately have "core_replay_inv s'" unfolding core_replay_inv_def by blast
  then show ?thesis using store pend by (simp add: core_inv_def s')
qed

lemma core_inv_other:
  assumes "core_inv e s"
  shows "core_inv e (s\<lparr>mo_commit := k\<rparr>)" "core_inv e (s\<lparr>mo_force := f\<rparr>)"
  using assms
  by (simp_all add: core_inv_def core_pending_inv_def core_replay_inv_def recovers_def own_prev_def last_proposed_def)

section \<open>Runs\<close>

definition payload_ok :: "mcore_env \<Rightarrow> base_statement list \<Rightarrow> bool" where
  "payload_ok e payload \<longleftrightarrow> me_payload_len e payload + header_len_bytes \<le> map_size \<and> ranges_ok payload"

text \<open>
  No block the core has seen refers to the one it is about to make. A reference holds the hash of
  the signed block.
\<close>

definition unforeseen :: "mcore \<Rightarrow> statement_block \<Rightarrow> bool" where
  "unforeseen s b \<longleftrightarrow> map_of (bk_waiting (mo_manager s)) (reference b) = None"

text \<open>
  The states of a core and the blocks it has made, its genesis block first. Accepted blocks have
  passed \<open>verify\<close>; positions of the log fit 64 bits; a restart comes between two calls and after the
  first proposal.
\<close>

inductive mcore_run :: "mcore_env \<Rightarrow> statement_block list \<Rightarrow> mcore \<Rightarrow> bool" for e where
  started: "mcore_start e now = Some s \<Longrightarrow> mo_end s < 2 ^ 64 \<Longrightarrow> mcore_run e [ob_block (mo_last_own s)] s"
| added: "mcore_run e out s \<Longrightarrow> \<forall>b \<in> set bs. acceptable e s b \<Longrightarrow> payload_ok e payload \<Longrightarrow>
    mcore_add_blocks e now payload bs s = Some (missing, s') \<Longrightarrow> mcore_run e out s'"
| proposed: "mcore_run e out s \<Longrightarrow> mo_end s < 2 ^ 64 \<Longrightarrow> mcore_try_new_block e now time coins s = Some (Some b, s') \<Longrightarrow>
    unforeseen s b \<Longrightarrow> mcore_run e (out @ [b]) s'"
| tried: "mcore_run e out s \<Longrightarrow> mcore_try_commit e s = Some (bs, s') \<Longrightarrow> mcore_run e out s'"
| committed: "mcore_run e out s \<Longrightarrow> sorted_wrt (<) (commit_heights (mo_wal s) @ map sd_height ds) \<Longrightarrow>
    mcore_handle_committed e now state committed commits_len ds s = Some (cds, s') \<Longrightarrow> mcore_run e out s'"
| cleaned: "mcore_run e out s \<Longrightarrow> mcore_run e out (mcore_cleanup e s)"
| forced: "mcore_run e out s \<Longrightarrow> mcore_run e out (snd (mcore_take_force s))"
| restarted: "mcore_run e out s \<Longrightarrow> 0 < last_proposed s \<Longrightarrow> payload_ok e payload \<Longrightarrow>
    mcore_restart e now payload s = Some s' \<Longrightarrow> mcore_run e out s'"

inductive_cases mcore_run_cases: "mcore_run e out s"

lemma try_new_block_Some:
  assumes "mcore_try_new_block e now time coins s = Some (Some b, s')"
  shows "next_proposal e time coins s = Some b" "me_len e b \<le> max_entry_size div 2"
  using assms
  by (auto simp: mcore_try_new_block_def next_proposal_def proposed_block_def Let_def
      split: if_splits option.splits list.splits)

text \<open>The own blocks of the store are the blocks made.\<close>

definition own_blocks_in :: "mcore_env \<Rightarrow> mcore \<Rightarrow> statement_block set" where
  "own_blocks_in e s = {b. bs_holds (mo_store s) b \<and> block_author b = me_authority e}"

definition run_inv :: "mcore_env \<Rightarrow> statement_block list \<Rightarrow> mcore \<Rightarrow> bool" where
  "run_inv e out s \<longleftrightarrow> core_inv e s \<and> out \<noteq> [] \<and> last out = ob_block (mo_last_own s) \<and>
     sorted_wrt (<) (map block_round out) \<and> own_blocks_in e s = set out"

lemma own_blocks_wal:
  "core_inv e s \<Longrightarrow> own_blocks_in e s = {b \<in> snd ` set (wal_blocks (mo_wal s)). block_author b = me_authority e}"
  using wal_store_holds [OF core_store_invD(4) [OF core_invD(1)]] by (auto simp: own_blocks_in_def)

lemma mcore_run_inv:
  assumes env: "core_env_ok e" "keeps_includes e"
  shows "mcore_run e out s \<Longrightarrow> run_inv e out s"
proof (induction rule: mcore_run.induct)
  case (started now s)
  from start_spec [OF env(1) started] have inv: "core_inv e s"
    and own: "ob_block (mo_last_own s) = new_genesis (me_crypto e) (me_authority e) (mc_epoch (me_committee e))" by auto
  note D = core_store_invD [OF core_invD(1) [OF inv]]
  have mem: "ob_block (mo_last_own s) \<in> own_blocks_in e s"
    using D(7,8) by (simp add: own_blocks_in_def own_prev_def block_author_def)
  have "b = ob_block (mo_last_own s)" if b: "b \<in> own_blocks_in e s" for b
  proof -
    have h: "bs_holds (mo_store s) b" "block_author b = me_authority e" using b by (simp_all add: own_blocks_in_def)
    have "block_round b = 0"
      using D(9) [OF holds_stored [OF D(10) h(1)]] h(2) own by (simp add: last_proposed_def block_author_def block_round_def)
    then have "reference b = reference (ob_block (mo_last_own s))"
      using own_reference_unique [OF D(10) holds_stored [OF D(10) h(1)] holds_stored [OF D(10) D(7)]] h(2) own D(1)
      by (simp add: block_author_def block_round_def)
    then show ?thesis using bs_holds_unique [OF h(1) D(7)] by simp
  qed
  then have "own_blocks_in e s = {ob_block (mo_last_own s)}" using mem by blast
  then show ?case using inv by (simp add: run_inv_def)
next
  case (added out s bs payload now missing s')
  have inv: "core_inv e s" using added.IH by (simp add: run_inv_def)
  note I = core_invD [OF inv]
  from core_add_spec [OF env I(1,2) added.hyps(2), of payload now] added.hyps(3,4) obtain new pos where
    s': "core_store_inv e s'" "core_pending_inv e s'" "mo_last_own s' = mo_last_own s"
    "mo_wal s' = (mo_wal s @ map (\<lambda>(p, b). (p, BlockEntry b)) new) @ [(pos, PayloadEntry payload)]"
    "mo_pending s' = mo_pending s @ include_entries (sort_key (block_round \<circ> snd) new) @ [(pos, Payload payload)]"
    "\<forall>x \<in> set new. 0 < block_round (snd x) \<and> block_author (snd x) \<noteq> me_authority e"
    by (auto simp: payload_ok_def)
  have "core_replay_inv s'"
    by (rule core_replay_add [OF I(3) core_store_invD(3) [OF I(1)] core_store_invD(3) [OF s'(1)] s'(3-5)])
      (use s'(6) in blast)
  then have inv': "core_inv e s'" using s' by (simp add: core_inv_def)
  have "own_blocks_in e s' = own_blocks_in e s"
    unfolding own_blocks_wal [OF inv] own_blocks_wal [OF inv'] using s'(6) by (auto simp: s'(4))
  then show ?case using added.IH inv' s'(3) by (simp add: run_inv_def)
next
  case (proposed out s now time coins b s')
  have inv: "core_inv e s" using proposed.IH by (simp add: run_inv_def)
  note I = core_invD [OF inv] and b = try_new_block_Some [OF proposed.hyps(3)]
  have ahead: "last_proposed s < tc_round (mo_clock s)" "block_round b = tc_round (mo_clock s)" "block_author b = me_authority e"
    using b(1) by (auto simp: next_proposal_def split: if_splits)
  from core_propose_spec [OF env I(1,2) b, of now] proposed.hyps(3,4) obtain pos where
    s': "core_store_inv e s'" "core_pending_inv e s'"
    "mo_last_own s' = \<lparr>ob_next_entry = next_entry (mo_pending s'), ob_block = b\<rparr>"
    "mo_wal s' = mo_wal s @ [(pos, OwnBlockEntry (mo_last_own s'))]"
    "mo_pending s' = snd (split_pending (tc_round (mo_clock s)) (mo_pending s))"
    by (auto simp: unforeseen_def)
  have "last_proposed s' = tc_round (mo_clock s)" using s'(3) ahead(2) by (simp add: last_proposed_def)
  from core_replay_propose [OF I(3) I(1,2) ahead(1) this proposed.hyps(2) s'(4,5)] s'(3)
  have inv': "core_inv e s'" using s' by (simp add: core_inv_def)
  have own: "own_blocks_in e s' = insert b (own_blocks_in e s)"
    unfolding own_blocks_wal [OF inv] own_blocks_wal [OF inv'] using s'(3) ahead(3) by (auto simp: s'(4))
  have "block_round x < block_round b" if "x \<in> set out" for x
  proof -
    have "bs_holds (mo_store s) x" "block_author x = me_authority e"
      using that proposed.IH by (auto simp: run_inv_def own_blocks_in_def)
    then have "block_round x \<le> last_proposed s"
      using core_store_invD(9,10) [OF I(1)] holds_stored by (fastforce simp: block_author_def block_round_def)
    then show ?thesis using ahead by simp
  qed
  then show ?case
    using proposed.IH inv' s'(3) own by (auto simp: run_inv_def sorted_wrt_append)
next
  case (tried out s bs s')
  then show ?case
    using core_inv_other(1) [of e s] by (auto simp: run_inv_def mcore_try_commit_def own_blocks_in_def)
next
  case (committed out s ds now state committed commits_len cds s')
  have inv: "core_inv e s" using committed.IH by (simp add: run_inv_def)
  from committed_spec [OF inv committed.hyps(3,2)] have s': "core_inv e s'" "mo_last_own s' = mo_last_own s" by auto
  have "mo_store s' = mo_store s"
    using committed.hyps(3) by (auto simp: mcore_handle_committed_def Let_def split: option.splits prod.splits)
  then show ?case using committed.IH s' by (simp add: run_inv_def own_blocks_in_def)
next
  case (cleaned out s)
  have inv: "core_inv e s" using cleaned.IH by (simp add: run_inv_def)
  have s': "core_inv e (mcore_cleanup e s)" by (rule cleanup_spec [OF inv])
  have "own_blocks_in e (mcore_cleanup e s) = own_blocks_in e s"
    unfolding own_blocks_wal [OF inv] own_blocks_wal [OF s'] by (simp add: mcore_cleanup_def)
  then show ?case using cleaned.IH s' by (simp add: run_inv_def mcore_cleanup_def)
next
  case (forced out s)
  then show ?case
    using core_inv_other(2) [of e s False] by (simp add: run_inv_def mcore_take_force_def own_blocks_in_def)
next
  case (restarted out s payload now s')
  have inv: "core_inv e s" using restarted.IH by (simp add: run_inv_def)
  from restart_spec [OF env(1) inv restarted.hyps(2), of payload now] restarted.hyps(3,4)
  have s': "core_inv e s'" "mo_last_own s' = mo_last_own s" "block_at (mo_store s') = block_at (mo_store s)"
    by (auto simp: payload_ok_def)
  then show ?case using restarted.IH by (simp add: run_inv_def own_blocks_in_def bs_holds_def)
qed

section \<open>Honest cores\<close>

text \<open>A core of the committee that runs no attack which drops includes.\<close>

definition honest_core :: "mcommittee \<Rightarrow> mcore_env \<Rightarrow> bool" where
  "honest_core c e \<longleftrightarrow> core_env_ok e \<and> keeps_includes e \<and> me_committee e = c"

lemma honest_coreD:
  assumes "honest_core c e"
  shows "core_env_ok e" "keeps_includes e" "me_committee e = c" "me_authority e < mc_len c" "mc_ok c"
  using assms by (auto simp: honest_core_def core_env_ok_def)

lemma run_facts:
  assumes "honest_core c e" "mcore_run e out s"
  shows "core_store_inv e s" "core_pending_inv e s" "core_inv e s" "run_inv e out s"
proof -
  show r: "run_inv e out s" using mcore_run_inv [OF honest_coreD(1,2) [OF assms(1)] assms(2)] .
  then show i: "core_inv e s" by (simp add: run_inv_def)
  show "core_store_inv e s" "core_pending_inv e s" using core_invD [OF i] by auto
qed

end
