(* ===== verification/MystiChecks.thy ===== *)
theory MystiChecks
  imports MystiSamples MystiManagerRuns
begin

text \<open>
  Mysticeti: the properties of the committee, of the checks of blocks, of the threshold clock,
  the epoch manager, the block store and the block manager, with their witnesses.
\<close>

section \<open>The block store\<close>

text \<open>
  when the writer stores a block at the place the log gives it, the store
  stays well formed (sorted and duplicate-free indexes, every entry readable and under the block's
  own reference, the last seen and highest rounds and the own blocks in step with the index), its
  entries lie in the log, and the block is the only change seen.
\<close>

theorem insert_keeps_store:
  assumes "store_wf st" "log_ok st n" "wal_write k n = Some (pos, n')" "writer_insert_block pos b st = Some st'"
  shows "store_wf st' \<and> log_ok st' n' \<and> block_at st' = (block_at st)(reference b \<mapsto> b)"
proof -
  note f = add_entry_facts [OF assms(4) [unfolded writer_insert_block_def add_loaded_def]]
  have "block_author b < length (bs_last_seen st)" using f(5) by (simp add: block_author_def)
  moreover have "block_author b = bs_authority st \<Longrightarrow> map_of (bs_own_blocks st) (block_round b) = None"
    using f(9) by (simp add: block_author_def block_round_def)
  ultimately show ?thesis
    using writer_insert_spec [OF assms(1-3), of b] assms(4) by auto
qed

lemma empty_store_ok: "store_wf (bs_new four 0 (\<lambda>_. None))" "log_ok (bs_new four 0 (\<lambda>_. None)) 0"
  by (simp add: store_wf_new) (simp add: log_ok_def bs_new_def inner_get_block_def)

lemma insert_keeps_store_witness:
  "\<exists>st'. writer_insert_block 0 (block_of 1 0 []) (bs_new four 0 (\<lambda>_. None)) = Some st' \<and> store_wf st' \<and>
     log_ok st' 116 \<and> block_at st' = (block_at (bs_new four 0 (\<lambda>_. None)))(ref_of 1 0 \<mapsto> block_of 1 0 [])"
proof -
  have w: "wal_write 100 0 = Some (0, 116)"
    by (simp add: wal_write_def wal_offset_def map_size_def header_len_bytes_def)
  obtain st' where st': "writer_insert_block 0 (block_of 1 0 []) (bs_new four 0 (\<lambda>_. None)) = Some st'"
    by (simp add: writer_insert_block_def add_loaded_def add_entry_def add_own_index_def update_last_seen_def
        bs_new_def block_of_def ref_of_def mc_authority_range_def mc_len_def four_def)
  from insert_keeps_store [OF empty_store_ok w st'] st' show ?thesis
    by (simp add: block_of_def)
qed

text \<open>
  dropping cached blocks up to a round changes no answer of \<open>get_block\<close>.
\<close>

theorem cleanup_invisible:
  assumes "store_wf st" "log_ok st n"
  shows "get_block (bs_cleanup threshold st) r = get_block st r"
  using unload_get_block [OF log_ok_wal_ok [OF assms]] by (simp add: bs_cleanup_def)

lemma cleanup_invisible_witness:
  "get_block (bs_cleanup 5 (bs_new four 0 (\<lambda>_. None))) (ref_of 1 0) = get_block (bs_new four 0 (\<lambda>_. None)) (ref_of 1 0)"
  by (rule cleanup_invisible [OF empty_store_ok])

section \<open>The threshold clock and the epoch\<close>

text \<open>
  C35: whatever blocks are added in whatever order, the round of the threshold
  clock is the highest round that is 0, or the round of a block seen, or one more than a round in
  which the authors of the blocks seen are a quorum (when no authority alone is a quorum).
\<close>

theorem clock_round_exact:
  assumes "mc_ok c" "no_single_quorum c" "\<forall>i \<in> snd ` set bs. br_authority i < mc_len c"
  shows "\<exists>t. tc_run c bs (tc_new 0 now) = Some t \<and> tc_round t = Max (justified_rounds c (snd ` set bs))"
  using clock_inv_run [OF assms(1,2) clock_inv_new [OF assms(1)], of bs now] assms(3) clock_inv_Max by auto

lemma four_no_single: "no_single_quorum four"
  by (auto simp: no_single_quorum_def mc_has_quorum_def mc_weight_def mc_len_def four_def validator10_def
      mc_members_def mc_quorum_def less_Suc_eq)

lemma clock_round_exact_witness:
  "\<exists>t. tc_run four [(7, ref_of 0 1), (8, ref_of 2 1), (9, ref_of 1 1)] (tc_new 0 5) = Some t \<and>
     tc_round t = Max (justified_rounds four (snd ` set [(7 :: nat, ref_of 0 1), (8, ref_of 2 1), (9, ref_of 1 1)]))"
  by (rule clock_round_exact [OF four_ok four_no_single]) (simp add: ref_of_def mc_len_def four_def)

text \<open>
  Once the change of epoch has begun, the epoch is closed exactly when the
  authors of the committed blocks that carry the epoch marker are a quorum, and no \<open>assert\<close> fails.
\<close>

theorem epoch_closes_at_quorum:
  assumes "mc_ok c" "\<forall>b \<in> set bs. block_author b < mc_len c"
  shows "\<exists>e. em_observe_all c now bs (em_epoch_change_begun em_new) = Some e \<and>
     (em_closed e \<longleftrightarrow> mc_has_quorum c (block_author ` {b \<in> set bs. epoch_marker b}))"
proof -
  have "em_inv c {} (em_epoch_change_begun em_new)"
    using assms(1) by (simp add: em_inv_def em_epoch_change_begun_def em_new_def em_closed_def)
  from em_inv_run [OF assms(1) this, of bs now] assms(2) show ?thesis
    by (auto simp: em_inv_def)
qed

lemma epoch_closes_at_quorum_witness:
  "\<exists>e. em_observe_all four 3 (full [0, 1, 2] [] 1) (em_epoch_change_begun em_new) = Some e \<and>
     (em_closed e \<longleftrightarrow> mc_has_quorum four (block_author ` {b \<in> set (full [0, 1, 2] [] 1). epoch_marker b}))"
  by (rule epoch_closes_at_quorum [OF four_ok])
    (simp add: full_def block_of_def ref_of_def block_author_def mc_len_def four_def)

section \<open>Blocks\<close>

text \<open>
  C36: \<open>StatementBlock::verify\<close> never panics, and accepts a block exactly when its digest,
  epoch, author and signature are right, it is not of round 0, its includes are of known authorities
  and lower rounds, its vote ranges are small enough, and its parents in the round before are a quorum.
\<close>

theorem verify_exact:
  assumes "mc_ok c"
  shows "verify cr c b \<noteq> Panic \<and> (verify cr c b = Ok () \<longleftrightarrow> verified cr c b)"
  using verify_not_Panic [OF assms] verify_Ok_iff [OF assms] by blast

lemma verify_exact_witness:
  "verify \<lparr>blake2b = (\<lambda>_. []), ed_verify = (\<lambda>_ _ _. True)\<rparr> four (block_of 0 1 [ref_of 0 0, ref_of 1 0, ref_of 2 0]) \<noteq> Panic \<and>
   (verify \<lparr>blake2b = (\<lambda>_. []), ed_verify = (\<lambda>_ _ _. True)\<rparr> four (block_of 0 1 [ref_of 0 0, ref_of 1 0, ref_of 2 0]) = Ok () \<longleftrightarrow>
    verified \<lparr>blake2b = (\<lambda>_. []), ed_verify = (\<lambda>_ _ _. True)\<rparr> four (block_of 0 1 [ref_of 0 0, ref_of 1 0, ref_of 2 0]))"
  by (rule verify_exact [OF four_ok])

text \<open>
  C37: anybody can turn a verified block whose parents without the last include
  are still a quorum into another verified block of the same reference and signature, by moving
  the last include into a transaction: the signed bytes do not say where the includes end.
\<close>

theorem include_reencoded_verifies:
  assumes "mc_ok c" "verify cr c b = Ok ()" "block_includes b \<noteq> []"
    and "mc_has_quorum c (parent_authorities (b\<lparr>block_includes := butlast (block_includes b)\<rparr>))"
  shows "verify cr c (include_as_share b) = Ok () \<and> reference (include_as_share b) = reference b \<and>
     block_signature (include_as_share b) = block_signature b \<and> include_as_share b \<noteq> b"
proof -
  note v = verify_Ok_iff [OF assms(1), THEN iffD1, OF assms(2), unfolded verified_def]
  have "br_authority (last (block_includes b)) < 512"
    using v assms(1,3) last_in_set [of "block_includes b"] by (fastforce simp: mc_ok_def)
  note same = include_as_share_same_bytes [OF assms(3) this]
  have "parent_authorities (include_as_share b) = parent_authorities (b\<lparr>block_includes := butlast (block_includes b)\<rparr>)"
    by (simp add: parent_authorities_def include_as_share_def block_round_def)
  moreover have "set (butlast (block_includes b)) \<subseteq> set (block_includes b)"
    by (auto dest: in_set_butlastD)
  ultimately have "verified cr c (include_as_share b)"
    using v assms(4) same
    by (auto simp: verified_def verify_block_def block_digest_new_def block_simps include_as_share_def ranges_ok_def)
  moreover have "include_as_share b \<noteq> b"
  proof
    assume "include_as_share b = b"
    then have "length (statements (include_as_share b)) = length (statements b)" by simp
    then show False by (simp add: include_as_share_def)
  qed
  ultimately show ?thesis
    using verify_Ok_iff [OF assms(1)] by (simp add: include_as_share_def)
qed

definition trivial_crypto :: mcrypto where
  "trivial_crypto = \<lparr>blake2b = (\<lambda>_. []), ed_verify = (\<lambda>_ _ _. True)\<rparr>"

definition four_parents :: statement_block where
  "four_parents = block_of 0 1 [ref_of 0 0, ref_of 1 0, ref_of 2 0, ref_of 3 0]"

lemma include_reencoded_verifies_witness:
  "verify trivial_crypto four (include_as_share four_parents) = Ok () \<and>
   reference (include_as_share four_parents) = reference four_parents \<and>
   block_signature (include_as_share four_parents) = block_signature four_parents \<and>
   include_as_share four_parents \<noteq> four_parents"
proof (rule include_reencoded_verifies [OF four_ok])
  show "verify trivial_crypto four four_parents = Ok ()" by code_simp
  show "block_includes four_parents \<noteq> []" by code_simp
  have "parent_authorities (four_parents\<lparr>block_includes := butlast (block_includes four_parents)\<rparr>) = {0, 1, 2}"
    by (auto simp: parent_authorities_def four_parents_def block_of_def ref_of_def block_round_def image_iff
        conj_disj_distribR ex_disj_distrib)
  then show "mc_has_quorum four (parent_authorities (four_parents\<lparr>block_includes := butlast (block_includes four_parents)\<rparr>))"
    by (simp add: mc_has_quorum_def mc_weight_def mc_len_def four_def validator10_def mc_members_def mc_quorum_def)
qed

text \<open>
  The order of references compares the digest of one of them with itself, so
  two references compare as equal exactly when they are of one author and round, whatever their digests.
\<close>

theorem references_equal_by_slot:
  "block_reference_cmp a b = Equal \<longleftrightarrow> br_authority a = br_authority b \<and> br_round a = br_round b"
  by (auto simp: block_reference_cmp_def cmp_of_def)

section \<open>The committee\<close>

text \<open>
  The bit set of authorities behaves as a set of indices below 512:
  inserting says whether the index was new, removing whether it was there, and \<open>present\<close> lists it.
\<close>

theorem authority_set_refines_set:
  assumes "as_wf s" "i < 512"
  shows "map_option (apsnd as_members) (as_insert i s) = Some (i \<notin> as_members s, insert i (as_members s)) \<and>
     map_option (apsnd as_members) (as_remove i s) = Some (i \<in> as_members s, as_members s - {i}) \<and>
     as_contains i s = Some (i \<in> as_members s) \<and> set (as_present s) = as_members s"
  using as_insert_spec [OF assms] as_remove_spec [OF assms] as_contains_spec [OF assms] set_as_present [OF assms(1)]
  by auto

lemma authority_set_refines_set_witness:
  "map_option (apsnd as_members) (as_insert 70 as_empty) = Some (70 \<notin> as_members as_empty, insert 70 (as_members as_empty)) \<and>
   map_option (apsnd as_members) (as_remove 70 as_empty) = Some (70 \<in> as_members as_empty, as_members as_empty - {70}) \<and>
   as_contains 70 as_empty = Some (70 \<in> as_members as_empty) \<and> set (as_present as_empty) = as_members as_empty"
  by (rule authority_set_refines_set) simp_all

definition staked :: "64 word \<Rightarrow> validator" where
  "staked s = \<lparr>v_stake = s, v_public_key = [], v_hostname = []\<rparr>"

text \<open>
  \<open>Committee::new\<close> checks that the total stake does not overflow, but twice the
  total does from \<open>2 ^ 63\<close> on: it builds a committee in which two different authorities are each a
  quorum alone.
\<close>

theorem quorum_wraps:
  "\<exists>c. mc_new [staked 0x4000000000000000, staked 0x4000000000000000, staked 0x2000000000000000] 0 = Some c \<and>
     mc_is_quorum c (v_stake (mc_authorities c ! 0)) \<and> mc_is_quorum c (v_stake (mc_authorities c ! 1))"
  by (simp add: mc_new_def staked_def mc_is_quorum_def)

text \<open>
  The leaders of different offsets in a round after 0 are different authorities
  of the committee.
\<close>

theorem leaders_of_round_distinct:
  assumes "weighted_shuffles w c r" "0 < r" "i < mc_len c" "j < mc_len c" "i \<noteq> j"
  shows "\<exists>a b. elect_leader_stake_based w c r i = Some a \<and> elect_leader_stake_based w c r j = Some b \<and>
     a < mc_len c \<and> b < mc_len c \<and> a \<noteq> b"
proof -
  let ?ws = "w (leader_seed r) (leader_choices c) (mc_len c)"
  have m: "mset ?ws = mset [0..<mc_len c]" using assms(1) by (simp add: weighted_shuffles_def)
  then have len: "length ?ws = mc_len c" and d: "distinct ?ws" and s: "set ?ws = {..<mc_len c}"
    by (metis diff_zero length_upt mset_eq_length, metis distinct_upt mset_eq_imp_distinct_iff,
        metis atLeast_upt mset_eq_setD)
  have el: "elect_leader_stake_based w c r k = Some (?ws ! k)" if "k < mc_len c" for k
    using that assms(2) len by (simp add: elect_leader_stake_based_def Cons_nth_drop_Suc [symmetric])
  have "?ws ! i < mc_len c" "?ws ! j < mc_len c" "?ws ! i \<noteq> ?ws ! j"
    using s len d assms(3-5) nth_mem [of i ?ws] nth_mem [of j ?ws] by (auto simp: nth_eq_iff_index_eq)
  then show ?thesis using el assms(3,4) by blast
qed

lemma leaders_of_round_distinct_witness:
  "\<exists>a b. elect_leader_stake_based in_order four 3 0 = Some a \<and> elect_leader_stake_based in_order four 3 2 = Some b \<and>
     a < mc_len four \<and> b < mc_len four \<and> a \<noteq> b"
  by (rule leaders_of_round_distinct [OF in_order_shuffles]) (simp_all add: mc_len_def four_def)

section \<open>The block manager on a sample\<close>

text \<open>Blocks of the authorities 1 to 3, offered to authority 0 in the reverse of their causal order.\<close>

definition late_parents :: "statement_block list list" where
  "late_parents = [[block_of 3 2 [ref_of 2 1]], [block_of 2 1 [ref_of 1 0]], [block_of 1 0 []]]"

definition blank_store :: block_store where
  "blank_store = bs_new four 0 (\<lambda>_. None)"

lemma sample_store: "store_wf blank_store" "log_ok blank_store 0" "length (bs_last_seen blank_store) = mc_len four"
  using empty_store_ok by (simp_all add: blank_store_def bs_new_def mc_authority_range_def)

lemma sample_offered: "\<forall>b \<in> set (concat late_parents). offered (\<lambda>_. 100) (mc_len four) blank_store b"
  by (simp add: late_parents_def offered_def admissible_def block_of_def ref_of_def block_author_def mc_len_def four_def
      blank_store_def bs_new_def header_len_bytes_def map_size_def)

lemma causal_acceptance_witness:
  "\<exists>new m' st' end2. bk_run id (\<lambda>_. 100) late_parents (bk_new four, blank_store, 0) = Some (new, m', st', end2) \<and>
     store_wf st' \<and> block_at st' = put_blocks (map snd new) (block_at blank_store) \<and>
     causal_from (stored blank_store) (map snd new)"
  by (rule causal_acceptance [OF sample_store sample_offered]) simp

lemma delivery_order_irrelevant_witness:
  "\<exists>new m' st' end2. bk_run id (\<lambda>_. 100) late_parents (bk_new four, blank_store, 0) = Some (new, m', st', end2) \<and>
     stored st' = stored blank_store \<union> reference ` set (concat late_parents)"
  by (rule delivery_order_irrelevant [OF sample_store sample_offered])
    (simp_all add: late_parents_def includes_below_def block_of_def ref_of_def block_round_def)

text \<open>The first block alone is held back.\<close>

definition held_back :: block_manager where
  "held_back = \<lparr>bk_pending = [(ref_of 3 2, block_of 3 2 [ref_of 2 1])], bk_waiting = [(ref_of 2 1, [ref_of 3 2])],
     bk_missing = [[], [], [ref_of 2 1], []]\<rparr>"

lemma held_back_run:
  "bk_run id (\<lambda>_. 100) [[block_of 3 2 [ref_of 2 1]]] (bk_new four, blank_store, 0) = Some ([], held_back, blank_store, 0)"
  by (simp add: bk_add_blocks_def manager_start_def manager_loop.simps manager_step_def Let_def held_back_def
      bk_new_def blank_store_def bs_new_def block_exists_def block_of_def ref_of_def hm_entry_def mc_authority_range_def
      mc_len_def four_def)

lemma missing_blocks_exact_witness:
  "set (bk_missing held_back ! 2) = {k. br_authority k = 2 \<and> \<not> exists_or_pending held_back blank_store k \<and>
     (\<exists>r b. map_of (bk_pending held_back) r = Some b \<and> k \<in> set (block_includes b))}"
proof (rule missing_blocks_exact [OF sample_store _ _ held_back_run])
  show "\<forall>b \<in> set (concat [[block_of 3 2 [ref_of 2 1]]]). offered (\<lambda>_. 100) (mc_len four) blank_store b"
    using sample_offered by (simp add: late_parents_def)
qed (simp_all add: mc_len_def four_def)

end
