(* ===== verification/MystiCoreSamples.thy ===== *)
theory MystiCoreSamples
  imports MystiCoreRuns MystiChecks
begin

text \<open>
  Mysticeti: concrete runs of the core on a committee of four, evaluated for the witnesses:
  starting, proposing the first block and accepting the first blocks of two peers.
\<close>

section \<open>A concrete node\<close>

text \<open>
  The hash is empty and every signature passes; every block takes 100 bytes of the log.
\<close>

definition env_of :: "nat \<Rightarrow> mcore_env" where
  "env_of a = \<lparr>me_committee = four, me_authority = a, me_crypto = trivial_crypto, me_sign = (\<lambda>_. []),
     me_len = (\<lambda>_. 100), me_payload_len = (\<lambda>_. 10), me_order = (\<lambda>xs. xs), me_weighted = in_order,
     me_committers = two_leaders, me_wave_length = 3, me_store_retain_rounds = 10, me_rounds_in_epoch = 100,
     me_attack_mode = '''', me_attack_type = None, me_attacker_ratio = None, me_victim_ratio = None\<rparr>"

lemma env_of_sel:
  "me_committee (env_of a) = four" "me_authority (env_of a) = a" "me_crypto (env_of a) = trivial_crypto"
  "me_len (env_of a) = (\<lambda>_. 100)" "me_payload_len (env_of a) = (\<lambda>_. 10)" "me_order (env_of a) = (\<lambda>xs. xs)"
  "me_sign (env_of a) = (\<lambda>_. [])" "me_attack_mode (env_of a) = ''''" "me_attack_type (env_of a) = None"
  "me_rounds_in_epoch (env_of a) = 100" "me_weighted (env_of a) = in_order" "me_committers (env_of a) = two_leaders"
  by (simp_all add: env_of_def)

lemma honest_env: "a < 4 \<Longrightarrow> honest_core four (env_of a)"
  by (simp add: honest_core_def core_env_ok_def keeps_includes_def env_of_sel four_ok four_no_single)
    (simp add: mc_len_def four_def)

lemma env_signs: "signs (env_of a)"
  by (simp add: signs_def env_of_sel trivial_crypto_def)

section \<open>Starting\<close>

definition genesis_of :: "nat \<Rightarrow> statement_block" where
  "genesis_of a = (block_of a 0 [])\<lparr>block_signature := replicate 64 0\<rparr>"

lemma range4: "[0..<4] = [0, 1, 2, 3 :: nat]"
  by (simp add: upt_rec)

lemma four_sel:
  "mc_len four = 4" "mc_quorum_threshold four = 26" "mc_epoch four = 0" "v_stake validator10 = 10"
  "mc_authorities four = [validator10, validator10, validator10, validator10]"
  by (simp_all add: mc_len_def four_def validator10_def)

lemma new_genesis_plain: "new_genesis trivial_crypto a 0 = genesis_of a"
  by (simp add: genesis_of_def new_genesis_def statement_block_new_def block_of_def ref_of_def
      block_digest_new_def trivial_crypto_def)

lemma ref_of_sel [simp]:
  "br_authority (ref_of a n) = a" "br_round (ref_of a n) = n" "br_digest (ref_of a n) = []"
  "ref_of a n = ref_of b k \<longleftrightarrow> a = b \<and> n = k"
  by (simp_all add: ref_of_def)

lemma genesis_of_sel [simp]: "reference (genesis_of a) = ref_of a 0" "block_includes (genesis_of a) = []"
  by (simp_all add: genesis_of_def block_of_def)

lemma wal_write_low:
  "k + 16 \<le> 16777216 \<Longrightarrow> pos + k + 15 < 16777216 \<Longrightarrow> wal_write k pos = Some (pos, pos + k + 16)"
  by (simp add: wal_write_def Let_def wal_offset_def map_size_def header_len_bytes_def)

lemmas clock_eval = tc_add_block_def tc_new_def cmp_of_def agg_add_def agg_new_def agg_clear_def as_clear_def
  as_insert_def as_empty_def mc_get_stake_def mc_is_quorum_def four_sel Let_def

lemmas store_eval = writer_insert_block_def add_loaded_def add_entry_def add_own_index_def update_last_seen_def
  index_insert_def author_digest_def block_author_def block_round_def

lemmas open_eval = mcore_start_def store_open_def sb_build_def sb_new_def mcore_open_def Let_def open_empty_def
  mc_genesis_blocks_def mc_authority_range_def range4 env_of_def List.map_filter_simps four_sel bs_new_def

definition store0 :: block_store where
  "store0 = \<lparr>bs_index = [(0, [((1, []), Loaded 0 (genesis_of 1)), ((2, []), Loaded 116 (genesis_of 2)),
       ((3, []), Loaded 232 (genesis_of 3)), ((0, []), Loaded 348 (genesis_of 0))])],
     bs_own_blocks = [(0, [])], bs_highest_round = 0, bs_authority = 0, bs_last_seen = [0, 0, 0, 0],
     bs_last_own_block = None, bs_wal = (log_read [])(0 \<mapsto> genesis_of 1, 116 \<mapsto> genesis_of 2,
       232 \<mapsto> genesis_of 3, 348 \<mapsto> genesis_of 0)\<rparr>"

definition core0 :: mcore where
  "core0 = (let d = \<lparr>ob_next_entry = wal_position_max, ob_block = genesis_of 0\<rparr> in
     \<lparr>mo_manager = bk_new four, mo_store = store0,
      mo_wal = [(0, BlockEntry (genesis_of 1)), (116, BlockEntry (genesis_of 2)), (232, BlockEntry (genesis_of 3)),
        (348, OwnBlockEntry d)], mo_end = 472,
      mo_pending = [(0, Include (ref_of 1 0)), (116, Include (ref_of 2 0)), (232, Include (ref_of 3 0))],
      mo_last_own = d, mo_clock = \<lparr>tc_aggregator = agg_new, tc_round = 1, tc_last_quorum_ts = 0\<rparr>,
      mo_commit = (commit_state_new 100)\<lparr>cs_last_decided := genesis_slot\<rparr>, mo_force = False\<rparr>)"

lemma core0_started: "mcore_start (env_of 0) 0 = Some core0"
  apply (simp add: open_eval numeral_nat(7))
  apply (simp add: new_genesis_plain clock_eval store_eval wal_write_low insert_own_block_def)
  apply (simp add: core0_def store0_def clock_eval numeral_eq_Suc)
  done

lemma core0_sel:
  "mo_last_own core0 = \<lparr>ob_next_entry = wal_position_max, ob_block = genesis_of 0\<rparr>"
  "mo_clock core0 = \<lparr>tc_aggregator = agg_new, tc_round = 1, tc_last_quorum_ts = 0\<rparr>"
  "mo_pending core0 = [(0, Include (ref_of 1 0)), (116, Include (ref_of 2 0)), (232, Include (ref_of 3 0))]"
  "mo_end core0 = 472" "mo_manager core0 = bk_new four" "mo_store core0 = store0"
  by (simp_all add: core0_def Let_def)

lemma run0: "mcore_run (env_of 0) [genesis_of 0] core0"
  using mcore_run.started [OF core0_started] by (simp add: core0_sel)

section \<open>The first proposal\<close>

definition peers0 :: "block_reference list" where
  "peers0 = [ref_of 1 0, ref_of 2 0, ref_of 3 0]"

definition own1 :: statement_block where
  "own1 = block_of 0 1 (ref_of 0 0 # peers0)"

lemma own1_sel [simp]: "reference own1 = ref_of 0 1" "block_includes own1 = ref_of 0 0 # peers0"
  by (simp_all add: own1_def block_of_def)

lemma get_block0:
  "get_block store0 (ref_of 0 0) = Some (Some (genesis_of 0))"
  "get_block store0 (ref_of (Suc 0) 0) = Some (Some (genesis_of 1))"
  "get_block store0 (ref_of 2 0) = Some (Some (genesis_of 2))"
  "get_block store0 (ref_of 3 0) = Some (Some (genesis_of 3))"
  by (simp_all add: store0_def get_block_def inner_get_block_def read_index_def author_digest_def)

lemma epoch0: "epoch_changing core0 = False"
  by (simp add: epoch_changing_def core0_def Let_def commit_state_new_def em_new_def em_changing_def)

lemma split0: "split_pending (Suc 0) (mo_pending core0) = (mo_pending core0, [])"
  by (simp add: core0_sel split_pending_def before_round_def)

lemma includes0: "proposal_includes (env_of 0) (\<lambda>_. False) core0 = Some (ref_of 0 0 # peers0)"
  by (simp add: peers0_def proposal_includes_def core0_sel split_pending_def before_round_def
      own_prev_def pending_includes_def List.map_filter_simps env_of_sel race_includes_def covered_references_def get_block0 compress_def Let_def)

lemma proposal0:
  "statement_block_with_signer trivial_crypto (\<lambda>_. []) 0 (Suc 0) (ref_of 0 0 # peers0) (proposal_statements core0) 0
     (epoch_changing core0) 0 = own1"
  by (simp add: own1_def proposal_statements_def core0_sel split_pending_def before_round_def epoch0
      statement_block_with_signer_def statement_block_new_def block_digest_new_def trivial_crypto_def
      block_of_def ref_of_def)

definition store1 :: block_store where
  "store1 = store0\<lparr>bs_index := bs_index store0 @ [(1, [((0, []), Loaded 472 own1)])], bs_own_blocks := [(0, []), (1, [])],
     bs_highest_round := 1, bs_last_seen := [1, 0, 0, 0], bs_last_own_block := Some (ref_of 0 1),
     bs_wal := (bs_wal store0)(472 \<mapsto> own1)\<rparr>"

definition core1 :: mcore where
  "core1 = (let d = \<lparr>ob_next_entry = wal_position_max, ob_block = own1\<rparr> in
     core0\<lparr>mo_store := store1, mo_wal := mo_wal core0 @ [(472, OwnBlockEntry d)], mo_end := 596, mo_pending := [],
       mo_last_own := d, mo_clock := \<lparr>tc_aggregator = \<lparr>agg_votes = as_empty[0 := 1], agg_stake = 10\<rparr>,
         tc_round = 1, tc_last_quorum_ts = 0\<rparr>\<rparr>)"

lemma core1_proposed: "mcore_try_new_block (env_of 0) 0 0 (\<lambda>_. False) core0 = Some (Some own1, core1)"
  apply (simp add: mcore_try_new_block_def includes0 proposal0 core0_sel(1,2) split0 last_proposed_def env_of_sel
      Let_def block_round_def clock_eval max_entry_size_def map_size_def header_len_bytes_def)
  apply (simp add: core1_def core0_def store1_def store0_def insert_own_block_def wal_write_low store_eval env_of_sel as_empty_def Let_def)
  done

lemma core1_sel:
  "mo_last_own core1 = \<lparr>ob_next_entry = wal_position_max, ob_block = own1\<rparr>" "mo_pending core1 = []"
  "mo_clock core1 = \<lparr>tc_aggregator = \<lparr>agg_votes = as_empty[0 := 1], agg_stake = 10\<rparr>, tc_round = 1, tc_last_quorum_ts = 0\<rparr>"
  "mo_end core1 = 596" "mo_manager core1 = bk_new four" "mo_store core1 = store1"
  by (simp_all add: core1_def Let_def core0_sel)

lemma unforeseen0: "unforeseen core0 own1"
  by (simp add: unforeseen_def core0_sel bk_new_def)

lemma run1: "mcore_run (env_of 0) [genesis_of 0, own1] core1"
  using mcore_run.proposed [OF run0 _ core1_proposed unforeseen0] by (simp add: core0_sel)

section \<open>Blocks of two peers\<close>

definition peer1 :: "nat \<Rightarrow> statement_block" where
  "peer1 a = block_of a 1 [ref_of 0 0, ref_of 1 0, ref_of 2 0, ref_of 3 0]"

lemma peer1_sel [simp]:
  "reference (peer1 a) = ref_of a 1" "block_includes (peer1 a) = [ref_of 0 0, ref_of 1 0, ref_of 2 0, ref_of 3 0]"
  by (simp_all add: peer1_def block_of_def)

lemma peer1_verifies:
  assumes "a < 4"
  shows "verify trivial_crypto four (peer1 a) = Ok ()"
proof -
  have "parent_authorities (peer1 a) = {0, 1, 2, 3}"
    by (auto simp: parent_authorities_def block_round_def image_iff conj_disj_distribR ex_disj_distrib)
  moreover have "mc_has_quorum four {0, 1, 2, 3}" by code_simp
  ultimately have "verified trivial_crypto four (peer1 a)"
    using assms
    by (simp add: verified_def block_author_def block_round_def four_sel)
      (simp add: peer1_def block_of_def ref_of_def block_digest_new_def trivial_crypto_def block_digest_of_def
        verify_block_def ranges_ok_def)
  then show ?thesis using verify_Ok_iff [OF four_ok] by blast
qed

lemma peers_acceptable: "\<forall>b \<in> set [peer1 1, peer1 2]. acceptable (env_of 0) core1 b"
  by (simp add: acceptable_def env_of_sel peer1_verifies map_size_def header_len_bytes_def block_author_def)

definition store2 :: block_store where
  "store2 = store1\<lparr>bs_index := bs_index store0 @ [(1, [((0, []), Loaded 472 own1), ((1, []), Loaded 596 (peer1 1)),
       ((2, []), Loaded 712 (peer1 2))])], bs_last_seen := [1, 1, 1, 0],
     bs_wal := (bs_wal store1)(596 \<mapsto> peer1 1, 712 \<mapsto> peer1 2)\<rparr>"

lemma blocks_added:
  "bk_add_blocks (\<lambda>xs. xs) (\<lambda>_. 100) [peer1 1, peer1 2] (bk_new four, store1, 596) =
     Some (([(596, peer1 1), (712, peer1 2)], []), bk_new four, store2, 828)"
  apply (simp add: bk_add_blocks_def manager_start_def manager_loop.simps manager_step_def Let_def bk_new_def
   mc_authority_range_def four_sel range4 accept_block_def wal_write_low block_round_def store_eval store1_def store0_def block_exists_def)
  apply (simp add: store2_def store1_def store0_def)
  done

definition core2 :: mcore where
  "core2 = core1\<lparr>mo_store := store2,
     mo_wal := mo_wal core1 @ [(596, BlockEntry (peer1 1)), (712, BlockEntry (peer1 2)), (828, PayloadEntry [])],
     mo_end := 854, mo_pending := [(596, Include (ref_of 1 1)), (712, Include (ref_of 2 1)), (828, Payload [])],
     mo_clock := \<lparr>tc_aggregator = agg_new, tc_round = 2, tc_last_quorum_ts = 1\<rparr>\<rparr>"

lemma core2_added: "mcore_add_blocks (env_of 0) 1 [] [peer1 1, peer1 2] core1 = Some ([], core2)"
  apply (simp add: mcore_add_blocks_def env_of_sel core1_sel blocks_added [unfolded One_nat_def] Let_def mc_authority_safe_def block_author_def block_round_def)
  apply (simp add: clock_eval as_empty_def)
  apply (simp add: race_force_def backrun_force_def run_block_handler_def attack_type_from_env_def wal_write_low env_of_sel)
  apply (simp add: core2_def core1_def core0_def clock_eval Let_def as_empty_def mc_authority_safe_def block_author_def
      numeral_eq_Suc)
  done

lemma core2_sel:
  "mo_last_own core2 = mo_last_own core1" "mo_store core2 = store2" "mo_end core2 = 854"
  "mo_pending core2 = [(596, Include (ref_of 1 1)), (712, Include (ref_of 2 1)), (828, Payload [])]"
  "mo_clock core2 = \<lparr>tc_aggregator = agg_new, tc_round = 2, tc_last_quorum_ts = 1\<rparr>"
  by (simp_all add: core2_def core1_sel)

lemma payload_empty: "payload_ok (env_of a) []"
  by (simp add: payload_ok_def env_of_sel map_size_def header_len_bytes_def)

lemma run2: "mcore_run (env_of 0) [genesis_of 0, own1] core2"
  by (rule mcore_run.added [OF run1 peers_acceptable payload_empty core2_added])

section \<open>The starts of the peers\<close>

definition store_one :: block_store where
  "store_one = \<lparr>bs_index = [(0, [((0, []), Loaded 0 (genesis_of 0)), ((2, []), Loaded 116 (genesis_of 2)),
       ((3, []), Loaded 232 (genesis_of 3)), ((1, []), Loaded 348 (genesis_of 1))])],
     bs_own_blocks = [(0, [])], bs_highest_round = 0, bs_authority = 1, bs_last_seen = [0, 0, 0, 0],
     bs_last_own_block = None, bs_wal = (log_read [])(0 \<mapsto> genesis_of 0, 116 \<mapsto> genesis_of 2,
       232 \<mapsto> genesis_of 3, 348 \<mapsto> genesis_of 1)\<rparr>"

lemma start1: "\<exists>s. mcore_start (env_of 1) 0 = Some s \<and> mo_end s < 2 ^ 64 \<and> ob_block (mo_last_own s) = genesis_of 1 \<and>
    mo_store s = store_one"
  apply (simp add: open_eval numeral_nat(7))
  apply (simp add: new_genesis_plain clock_eval store_eval wal_write_low insert_own_block_def)
  apply (simp add: store_one_def)
  done

lemma start2: "\<exists>s. mcore_start (env_of 2) 0 = Some s \<and> mo_end s < 2 ^ 64 \<and> ob_block (mo_last_own s) = genesis_of 2"
  apply (simp add: open_eval numeral_nat(7))
  apply (simp add: new_genesis_plain clock_eval store_eval wal_write_low insert_own_block_def)
  done

definition run_of :: "nat \<Rightarrow> statement_block list" where
  "run_of a = (if a = 0 then [genesis_of 0, own1] else [genesis_of a])"

lemma runs_honest: "honest_core four (env_of a) \<and> (\<exists>s. mcore_run (env_of a) (run_of a) s)" if "a \<in> {0, 1, 2}"
proof -
  have "\<exists>s. mcore_run (env_of a) (run_of a) s"
    using that run1 start1 start2 mcore_run.started [of "env_of a" 0] by (auto simp: run_of_def)
  then show ?thesis using that honest_env by auto
qed

lemma commits_none:
  "core_commits in_order two_leaders [store0, store1] (commit_state_new 100) = Some []"
  "core_commits in_order two_leaders [store_one] (commit_state_new 100) = Some []"
  by code_simp+

text \<open>The blocks of the stores.\<close>

lemma block_at_samples:
  "block_at store0 r = Some b \<Longrightarrow> b \<in> genesis_of ` {0, 1, 2, 3}"
  "block_at store1 r = Some b \<Longrightarrow> b \<in> insert own1 (genesis_of ` {0, 1, 2, 3})"
  "block_at store_one r = Some b \<Longrightarrow> b \<in> genesis_of ` {0, 1, 2, 3}"
  by (auto simp: block_at_def get_block_def inner_get_block_def read_index_def store0_def store1_def store_one_def
      split: if_splits option.splits)

end
