(* ===== verification/MystiCoreProps.thy ===== *)
theory MystiCoreProps
  imports MystiCoreSamples
begin

text \<open>
  Mysticeti: the properties of the core of a node (core.rs, state.rs) over its runs, with their
  instances on the cores of MystiCoreSamples.
\<close>

section \<open>The properties\<close>





text \<open>
  C6: an honest core never equivocates: the rounds of the blocks it makes strictly
  ascend, also across restarts.
\<close>

theorem one_block_per_round:
  assumes "honest_core c e" "mcore_run e out s"
  shows "sorted_wrt (<) (map block_round out) \<and> (\<forall>b \<in> set out. block_author b = me_authority e)"
  using run_facts(4) [OF assms] by (auto simp: run_inv_def own_blocks_in_def)

lemma one_block_per_round_witness:
  "sorted_wrt (<) (map block_round [genesis_of 0, own1]) \<and> block_author (genesis_of 0) = 0 \<and> block_author own1 = 0"
  using one_block_per_round [OF honest_env run2] by (simp add: env_of_sel)





text \<open>
  C13: the compression of the includes loses nothing: every block that is
  pending for the proposal, and the own previous one, is in the causal history of the block proposed.
\<close>

theorem compression_keeps_history:
  assumes "honest_core c e" "mcore_run e out s" "mcore_try_new_block e now time coins s = Some (Some b, s')"
    and "unforeseen s b"
  shows "own_prev s \<in> history (mo_store s') (reference b) \<and>
    set (pending_includes (fst (split_pending (tc_round (mo_clock s)) (mo_pending s)))) \<subseteq> history (mo_store s') (reference b)"
proof -
  note F = run_facts [OF assms(1,2)] and env = honest_coreD(1,2) [OF assms(1)] and b = try_new_block_Some [OF assms(3)]
  from core_propose_spec [OF env F(1,2) b, of now] assms(3,4) obtain pos where
    s': "core_store_inv e s'" "mo_last_own s' = \<lparr>ob_next_entry = next_entry (mo_pending s'), ob_block = b\<rparr>"
    "mo_wal s' = mo_wal s @ [(pos, OwnBlockEntry (mo_last_own s'))]"
    by (auto simp: unforeseen_def)
  have st: "wal_store (mo_wal s) (mo_store s)" "wal_store (mo_wal s') (mo_store s')"
    using core_store_invD(4) F(1) s'(1) by auto
  have "block_at (mo_store s') = (block_at (mo_store s))(reference b \<mapsto> b)"
    using st by (simp add: wal_store_def s'(2,3) put_blocks_def)
  moreover have "reference b \<notin> stored (mo_store s)"
    using st(2) by (simp add: wal_store_def s'(2,3) causal_from_append wal_store_stored [OF st(1)])
  ultimately have grows: "\<forall>r \<in> stored (mo_store s). block_at (mo_store s') r = block_at (mo_store s) r" by auto
  have "bs_holds (mo_store s') b" using core_store_invD(7) [OF s'(1)] by (simp add: s'(2))
  from compression_history [OF env F(1,2) b(1) this grows] show ?thesis
    by (auto simp: offered_refs_def taken_refs_def)
qed

lemma compression_keeps_history_witness:
  "ref_of 0 0 \<in> history store1 (ref_of 0 1) \<and> {ref_of 1 0, ref_of 2 0, ref_of 3 0} \<subseteq> history store1 (ref_of 0 1)"
  using compression_keeps_history [OF honest_env run0 core1_proposed unforeseen0]
  by (simp add: core1_sel core0_sel own_prev_def split_pending_def before_round_def)

text \<open>
  The outputs \<open>outs a\<close> of the honest authorities come from runs of cores, and a store is that of a
  core in some run, whose blocks by honest authorities are among their outputs, as signatures give.
\<close>

definition honest_outputs :: "mcommittee \<Rightarrow> nat list \<Rightarrow> (nat \<Rightarrow> statement_block list) \<Rightarrow> bool" where
  "honest_outputs c byz outs \<longleftrightarrow> (\<forall>a < mc_len c. a \<notin> set byz \<longrightarrow>
     (\<exists>e s. honest_core c e \<and> me_authority e = a \<and> mcore_run e (outs a) s))"

definition core_view :: "mcommittee \<Rightarrow> nat list \<Rightarrow> (nat \<Rightarrow> statement_block list) \<Rightarrow> block_store \<Rightarrow> bool" where
  "core_view c byz outs st \<longleftrightarrow> (\<exists>e out s. honest_core c e \<and> mcore_run e out s \<and> st = mo_store s) \<and>
     (\<forall>b. bs_holds st b \<longrightarrow> block_author b \<notin> set byz \<longrightarrow> b \<in> set (outs (block_author b)))"

text \<open>Collision resistance of the hash over the stores at hand.\<close>

definition references_unique :: "block_store set \<Rightarrow> bool" where
  "references_unique S \<longleftrightarrow> (\<forall>s1 \<in> S. \<forall>s2 \<in> S. \<forall>r b1 b2. block_at s1 r = Some b1 \<longrightarrow> block_at s2 r = Some b2 \<longrightarrow> b1 = b2)"

lemma core_views_agree:
  assumes bound: "byz_bound c byz" and outs: "honest_outputs c byz outs"
    and views: "core_view c byz outs s1" "core_view c byz outs s2"
    and unique: "references_unique S" "s1 \<in> S" "s2 \<in> S"
  shows "two_views c byz s1 s2"
proof -
  have dag: "dag_ok c st" "mc_ok c" if "core_view c byz outs st" for st
    using that core_store_invD(13) [OF run_facts(1)] honest_coreD(3,5) by (auto simp: core_view_def)
  have "views_agree byz x y" if v: "core_view c byz outs x" "core_view c byz outs y" and S: "x \<in> S" "y \<in> S" for x y
    unfolding views_agree_def list_all_iff
  proof (intro ballI impI)
    fix b1 b2 assume b: "b1 \<in> set (all_blocks x)" "b2 \<in> set (all_blocks y)"
      and same: "reference b1 = reference b2 \<or>
        (block_author b1 = block_author b2 \<and> block_author b1 \<notin> set byz \<and> block_round b1 = block_round b2)"
    have h: "bs_holds x b1" "bs_holds y b2" using b dag(1) [OF v(1)] dag(1) [OF v(2)] by (auto simp: set_all_blocks)
    show "b1 = b2"
    proof (cases "reference b1 = reference b2")
      case True
      then show ?thesis using unique(1) S h by (simp add: references_unique_def bs_holds_def)
    next
      case False
      let ?a = "block_author b1"
      have a: "?a \<notin> set byz" "block_author b2 = ?a" "block_round b1 = block_round b2" using same False by auto
      then have mem: "b1 \<in> set (outs ?a)" "b2 \<in> set (outs ?a)" using v h by (auto simp: core_view_def)
      have "?a < mc_len c" using dag_ok_block [OF dag(1) [OF v(1)] h(1)] by (simp add: dag_block_ok_def)
      then obtain e s where "honest_core c e" "mcore_run e (outs ?a) s" using outs a(1) by (auto simp: honest_outputs_def)
      then have "sorted_wrt (<) (map block_round (outs ?a))" using run_facts(4) by (auto simp: run_inv_def)
      then have "inj_on block_round (set (outs ?a))"
        using strict_sorted_distinct [of "map block_round (outs ?a)"] by (simp add: distinct_map)
      then show ?thesis using mem a(3) by (simp add: inj_on_def)
    qed
  qed
  then show ?thesis using dag [OF views(1)] dag [OF views(2)] bound views unique by (simp add: two_views_def)
qed


lemma sample_outputs: "honest_outputs four [3] run_of"
proof -
  have "a \<in> {0, 1, 2}" if "a < mc_len four" "a \<notin> set [3]" for a using that by (auto simp: four_sel)
  then show ?thesis
    unfolding honest_outputs_def using runs_honest by (metis env_of_sel(2))
qed

lemma sample_block:
  assumes "st \<in> set [store0, store1] \<union> set [store_one]" "block_at st r = Some b"
  shows "b = own1 \<or> b \<in> range genesis_of"
proof -
  consider "st = store0" | "st = store1" | "st = store_one" using assms(1) by auto
  then show ?thesis
    using assms(2) block_at_samples [of r b] by cases auto
qed

lemma sample_views: "\<forall>st \<in> set [store0, store1] \<union> set [store_one]. core_view four [3] run_of st"
proof -
  have authored: "block_author (genesis_of a) = a" "block_author own1 = 0" for a by (simp_all add: block_author_def)
  have "b \<in> set (run_of (block_author b))"
    if "st \<in> set [store0, store1] \<union> set [store_one]" "bs_holds st b" for st b
    using sample_block [OF that(1), of "reference b" b] that(2) by (auto simp: bs_holds_def run_of_def authored)
  moreover
  obtain s where s: "mcore_run (env_of 1) [genesis_of 1] s" "mo_store s = store_one"
    using start1 mcore_run.started by metis
  have view: "\<exists>e out s. honest_core four e \<and> mcore_run e out s \<and> st = mo_store s"
    if "mcore_run (env_of a) out s" "a < 4" "mo_store s = st" for a out s st
    using that honest_env by blast
  have "\<exists>e out s. honest_core four e \<and> mcore_run e out s \<and> st = mo_store s"
    if "st \<in> set [store0, store1] \<union> set [store_one]" for st
    using that view [OF run0 _ core0_sel(6)] view [OF run1 _ core1_sel(6)] view [OF s(1) _ s(2)] by auto
  ultimately show ?thesis unfolding core_view_def by blast
qed

lemma sample_references: "references_unique (set [store0, store1] \<union> set [store_one])"
proof -
  have one: "b1 = b2" if "b1 = own1 \<or> b1 \<in> range genesis_of" "b2 = own1 \<or> b2 \<in> range genesis_of"
    "reference b1 = reference b2" for b1 b2
    using that by auto
  have same: "(b = own1 \<or> b \<in> range genesis_of) \<and> reference b = r"
    if "st \<in> set [store0, store1] \<union> set [store_one]" "block_at st r = Some b" for st r b
  proof
    show "b = own1 \<or> b \<in> range genesis_of" by (rule sample_block [OF that])
    have "core_view four [3] run_of st" using that(1) sample_views by blast
    then obtain e out s where "honest_core four e" "mcore_run e out s" "st = mo_store s" unfolding core_view_def by blast
    then have "store_wf st" using core_store_invD(10) [OF run_facts(1)] by simp
    from bs_holds_lookup [OF this that(2)] show "reference b = r" by (simp add: bs_holds_def)
  qed
  show ?thesis
    unfolding references_unique_def
  proof (intro ballI allI impI)
    fix s1 s2 r b1 b2
    assume s: "s1 \<in> set [store0, store1] \<union> set [store_one]" "s2 \<in> set [store0, store1] \<union> set [store_one]"
      and b: "block_at s1 r = Some b1" "block_at s2 r = Some b2"
    note x = same [OF s(1) b(1)] same [OF s(2) b(2)]
    have "reference b1 = reference b2" by (simp only: conjunct2 [OF x(1)] conjunct2 [OF x(2)])
    then show "b1 = b2" by (rule one [OF conjunct1 [OF x(1)] conjunct1 [OF x(2)]])
  qed
qed


text \<open>
  C14: the clock of a restarted core counts the pending includes and not the
  own last block: when no pending block is of a later round and those of the round of the own last
  block are no quorum without it, the core proposes nothing, though with the own block they may be one.
\<close>

theorem restart_forgets_own_block:
  assumes "honest_core c e" "mcore_run e out s" "0 < last_proposed s" "payload_ok e payload"
    and "mcore_restart e now payload s = Some s'"
    and "\<forall>r \<in> set (pending_includes (mo_pending s)). br_round r \<le> last_proposed s"
    and "\<not> mc_has_quorum c (authors_at (set (pending_includes (mo_pending s))) (last_proposed s))"
  shows "mcore_try_new_block e now' time coins s' = Some (None, s')"
proof -
  note F = run_facts [OF assms(1,2)]
  let ?P = "set (pending_includes (mo_pending s))" and ?B = "set (pending_includes (mo_pending s'))"
  from restart_spec [OF honest_coreD(1) [OF assms(1)] F(3) assms(3), of payload now] assms(4,5)
  have s': "core_inv e s'" "mo_last_own s' = mo_last_own s" "clock_inv c ?B (mo_clock s')"
    "\<forall>r \<in> ?B. r \<in> ?P \<or> br_round r < last_proposed s"
    using honest_coreD(3) [OF assms(1)] by (auto simp: payload_ok_def)
  have below: "br_round r \<le> last_proposed s" if "r \<in> ?B" for r
    using s'(4) assms(6) that by fastforce
  have P: "?P \<subseteq> stored (mo_store s)" using core_pending_invD(5) [OF F(2)] by blast
  have "tc_round (mo_clock s') \<le> last_proposed s"
  proof (rule ccontr)
    assume ahead: "\<not> tc_round (mo_clock s') \<le> last_proposed s"
    then have "tc_round (mo_clock s') \<notin> br_round ` ?B" "tc_round (mo_clock s') \<noteq> 0" using below by auto
    then obtain n where n: "tc_round (mo_clock s') = Suc n" "n \<in> br_round ` ?B" "mc_has_quorum c (authors_at ?B n)"
      using s'(3) by (auto simp: clock_inv_def justified_rounds_def)
    have "n = last_proposed s" using n(1,2) below ahead by fastforce
    moreover have "authors_at ?B (last_proposed s) \<subseteq> authors_at ?P (last_proposed s)"
      using s'(4) by (auto simp: authors_at_def)
    moreover have "authors_at ?P (last_proposed s) \<subseteq> mc_members c"
      using authors_at_members [of ?P c] stored_authority [OF F(1)] P honest_coreD(3) [OF assms(1)] by blast
    ultimately show False using n(3) mc_has_quorum_mono assms(7) by blast
  qed
  then show ?thesis using s'(2) by (simp add: mcore_try_new_block_def last_proposed_def)
qed

lemma restart_forgets_own_block_witness:
  "\<exists>s'. mcore_restart (env_of 0) 5 [] core2 = Some s' \<and>
     mcore_try_new_block (env_of 0) 6 7 (\<lambda>_. False) s' = Some (None, s') \<and>
     next_proposal (env_of 0) 7 (\<lambda>_. False) core2 \<noteq> None"
proof -
  have h0: "honest_core four (env_of 0)" by (rule honest_env) simp
  note F = run_facts [OF h0 run2]
  have later: "last_proposed core2 = 1" by (simp add: last_proposed_def core2_sel core1_sel block_round_def)
  have p: "me_payload_len (env_of 0) [] + header_len_bytes \<le> map_size" "ranges_ok []"
    using payload_empty by (simp_all add: payload_ok_def)
  obtain s' where s': "mcore_restart (env_of 0) 5 [] core2 = Some s'"
    using restart_spec [OF honest_coreD(1) [OF honest_env] F(3) _ p, of 5] later by auto
  have P: "set (pending_includes (mo_pending core2)) = {ref_of 1 1, ref_of 2 1}" by (simp add: core2_sel)
  have "authors_at {ref_of 1 1, ref_of 2 1} 1 = {1, 2}" by (auto simp: authors_at_insert) (auto simp: authors_at_def)
  moreover have "\<not> mc_has_quorum four {1, 2}" by code_simp
  ultimately have "mcore_try_new_block (env_of 0) 6 7 (\<lambda>_. False) s' = Some (None, s')"
    using restart_forgets_own_block [OF honest_env run2 _ payload_empty s'] later P by simp
  moreover obtain incs where "proposal_includes (env_of 0) (\<lambda>_. False) core2 = Some incs"
    using proposal_includes_kept [OF honest_coreD(2) [OF h0] core_store_invD(10) [OF F(1)]] by blast
  ultimately show ?thesis using s' later by (simp add: next_proposal_def core2_sel)
qed

end
