(* ===== verification/MystiRange.thy ===== *)
theory MystiRange
  imports Prelude
begin

text \<open>
  Mysticeti: the range map (range_map.rs), which keeps one value per range of consecutive keys, with
  the proof that it behaves as a map from the keys. A key of \<open>u64\<close> is a \<open>nat\<close>; \<open>None\<close> is
  a panic or, for ranges that hold no key, a loop that does not end.
\<close>

section \<open>The map\<close>

record 'v range_item =
  ri_start :: nat
  ri_end :: nat
  ri_v :: "'v option"

type_synonym 'v range_map = "(nat, 'v range_item) btree_map"

text \<open>\<open>range(..=k).last()\<close> and \<open>range(a..b).next()\<close>; the latter panics when \<open>b < a\<close>.\<close>

definition lower_bound :: "nat \<Rightarrow> 'v range_map \<Rightarrow> (nat \<times> 'v range_item) option" where
  "lower_bound k m = (case filter (\<lambda>(k', _). k' \<le> k) m of [] \<Rightarrow> None | xs \<Rightarrow> Some (last xs))"

definition upper_bound :: "nat \<Rightarrow> nat \<Rightarrow> 'v range_map \<Rightarrow> (nat \<times> 'v range_item) option option" where
  "upper_bound a b m = (if b < a then None else Some (List.find (\<lambda>(k, _). a \<le> k \<and> k < b) m))"

text \<open>The item that starts with \<open>k\<close>, if a range contains \<open>k\<close>; this range is split before \<open>k\<close>.\<close>

definition rm_split :: "nat \<Rightarrow> 'v range_map \<Rightarrow> ('v range_map \<times> 'v range_item option) option" where
  "rm_split k m = (case lower_bound k m of
     None \<Rightarrow> Some (m, None)
   | Some (lk, item) \<Rightarrow>
       if lk = k then Some (m, Some item)
       else if k < ri_end item then
         (let m' = bt_insert lk (item\<lparr>ri_end := k\<rparr>) m; new = \<lparr>ri_start = k, ri_end = ri_end item, ri_v = ri_v item\<rparr>
          in if map_of m' k \<noteq> None then None else Some (bt_insert k new m', Some new))
       else Some (m, None))"

definition rm_vacant :: "nat \<Rightarrow> 'v range_item \<Rightarrow> 'v range_map \<Rightarrow> 'v range_map option" where
  "rm_vacant k item m = (if map_of m k \<noteq> None then None else Some (bt_insert k item m))"

text \<open>
  The item to mutate, which lies at the key \<open>a\<close>, and the part of the range that is left.
\<close>

definition rm_overlap :: "nat \<Rightarrow> nat \<Rightarrow> 'v range_map \<Rightarrow> ('v range_map \<times> 'v range_item \<times> (nat \<times> nat) option) option" where
  "rm_overlap a b m = (case rm_split a m of
     None \<Rightarrow> None
   | Some (m1, Some start) \<Rightarrow>
       if ri_end start = b then Some (m1, start, None)
       else if b < ri_end start then
         (let m2 = bt_insert b \<lparr>ri_start = b, ri_end = ri_end start, ri_v = ri_v start\<rparr>
               (bt_insert a (start\<lparr>ri_end := b\<rparr>) m1)
          in case map_of m2 a of None \<Rightarrow> None | Some item \<Rightarrow> Some (m2, item, None))
       else Some (m1, start, Some (ri_end start, b))
   | Some (m1, None) \<Rightarrow> (case upper_bound a b m1 of
       None \<Rightarrow> None
     | Some (Some (u, _)) \<Rightarrow> (let item = \<lparr>ri_start = a, ri_end = u, ri_v = None\<rparr>
         in map_option (\<lambda>m2. (m2, item, Some (u, b))) (rm_vacant a item m1))
     | Some None \<Rightarrow> (let item = \<lparr>ri_start = a, ri_end = b, ri_v = None\<rparr>
         in map_option (\<lambda>m2. (m2, item, None)) (rm_vacant a item m1))))"

text \<open>
  The loop. The mutation function gets the sub-range, its value and a state, and may panic.
\<close>

type_synonym ('v, 's) mutation = "nat \<times> nat \<Rightarrow> 'v option \<Rightarrow> 's \<Rightarrow> ('v option \<times> 's) option"

definition rm_store :: "nat \<Rightarrow> 'v range_item \<Rightarrow> 'v option \<Rightarrow> 'v range_map \<Rightarrow> 'v range_map option" where
  "rm_store a item v m = (let m' = bt_insert a (item\<lparr>ri_v := v\<rparr>) m
     in if v \<noteq> None then Some m'
        else if map_of m' (ri_start item) = None then None
        else Some (filter (\<lambda>(k, _). k \<noteq> ri_start item) m'))"

partial_function (option) mutate_range ::
  "('v, 's) mutation \<Rightarrow> nat \<Rightarrow> nat \<Rightarrow> 'v range_map \<Rightarrow> 's \<Rightarrow> ('v range_map \<times> 's) option" where
  "mutate_range f a b m s = (case rm_overlap a b m of
     None \<Rightarrow> None
   | Some (m1, item, next_range) \<Rightarrow> (case f (ri_start item, ri_end item) (ri_v item) s of
       None \<Rightarrow> None
     | Some (v, s') \<Rightarrow> (case rm_store a item v m1 of
         None \<Rightarrow> None
       | Some m2 \<Rightarrow> (case next_range of None \<Rightarrow> Some (m2, s') | Some (a', b') \<Rightarrow> mutate_range f a' b' m2 s'))))"

definition rm_lookup :: "'v range_map \<Rightarrow> nat \<Rightarrow> 'v option" where
  "rm_lookup m k = (case lower_bound k m of
     None \<Rightarrow> None | Some (_, item) \<Rightarrow> if k < ri_end item then ri_v item else None)"

section \<open>Its invariant\<close>

definition covers :: "'v range_map \<Rightarrow> nat \<Rightarrow> 'v range_item \<Rightarrow> nat \<Rightarrow> bool" where
  "covers m k item x \<longleftrightarrow> map_of m k = Some item \<and> k \<le> x \<and> x < ri_end item"

text \<open>The ranges are not empty and do not overlap.\<close>

definition rm_shape :: "'v range_map \<Rightarrow> bool" where
  "rm_shape m \<longleftrightarrow> bt_wf m \<and> (\<forall>k item. map_of m k = Some item \<longrightarrow> ri_start item = k \<and> k < ri_end item \<and>
     (\<forall>k'. map_of m k' \<noteq> None \<longrightarrow> k < k' \<longrightarrow> ri_end item \<le> k'))"

definition rm_ok :: "'v range_map \<Rightarrow> bool" where
  "rm_ok m \<longleftrightarrow> rm_shape m \<and> (\<forall>k item. map_of m k = Some item \<longrightarrow> ri_v item \<noteq> None)"

lemma rm_ok_empty [simp]: "rm_ok []"
  by (simp add: rm_ok_def rm_shape_def)

lemma rm_shapeD:
  assumes "rm_shape m"
  shows "bt_wf m" "\<And>k item. map_of m k = Some item \<Longrightarrow> ri_start item = k"
    "\<And>k item. map_of m k = Some item \<Longrightarrow> k < ri_end item"
    "\<And>k item k'. map_of m k = Some item \<Longrightarrow> map_of m k' \<noteq> None \<Longrightarrow> k < k' \<Longrightarrow> ri_end item \<le> k'"
  using assms unfolding rm_shape_def by blast+

lemma bt_distinct: "bt_wf m \<Longrightarrow> distinct (map fst m)"
  by (rule strict_sorted_distinct)

lemma bt_map_of: "bt_wf m \<Longrightarrow> map_of m k = Some v \<longleftrightarrow> (k, v) \<in> set m"
  by (rule map_of_eq_Some_iff [OF bt_distinct])

lemma bt_wf_filter: "bt_wf m \<Longrightarrow> bt_wf (filter P m)"
  by (simp add: sorted_wrt_map sorted_wrt_filter)

lemma lower_bound_None: "lower_bound k m = None \<longleftrightarrow> (\<forall>x \<in> set m. k < fst x)"
proof -
  have "lower_bound k m = None \<longleftrightarrow> filter (\<lambda>(k', _). k' \<le> k) m = []"
    by (simp add: lower_bound_def split: list.splits)
  then show ?thesis by (auto simp: filter_empty_conv not_le)
qed

lemma lower_bound_Some:
  assumes "bt_wf m" "lower_bound k m = Some (lk, item)"
  shows "map_of m lk = Some item" "lk \<le> k" "\<And>k'. map_of m k' \<noteq> None \<Longrightarrow> k' \<le> k \<Longrightarrow> k' \<le> lk"
proof -
  let ?xs = "filter (\<lambda>(k', _). k' \<le> k) m"
  have ne: "?xs \<noteq> []" and l: "last ?xs = (lk, item)"
    using assms(2) by (auto simp: lower_bound_def split: list.splits)
  have "(lk, item) \<in> set ?xs" using ne l by (metis last_in_set)
  then show "map_of m lk = Some item" "lk \<le> k" using assms(1) by (auto simp: bt_distinct)
  fix k' assume k': "map_of m k' \<noteq> None" "k' \<le> k"
  then obtain v where "(k', v) \<in> set ?xs" using map_of_SomeD by fastforce
  moreover have "bt_wf (butlast ?xs @ [(lk, item)])"
    using bt_wf_filter [OF assms(1)] ne l by (metis append_butlast_last_id)
  then have "\<forall>x \<in> set (butlast ?xs). fst x < lk" by (simp add: sorted_wrt_append)
  moreover have "set ?xs = insert (lk, item) (set (butlast ?xs))"
    using ne l by (metis append_butlast_last_id list.simps(15) rotate1.simps(2) set_rotate1)
  ultimately show "k' \<le> lk" by fastforce
qed

lemma covers_lookup:
  assumes s: "rm_shape m" and c: "covers m k item x"
  shows "rm_lookup m x = ri_v item"
proof -
  have k: "map_of m k = Some item" "k \<le> x" "x < ri_end item" using c by (auto simp: covers_def)
  have "lower_bound x m \<noteq> None"
  proof
    assume "lower_bound x m = None"
    then have "x < fst (k, item)" using map_of_SomeD [OF k(1)] unfolding lower_bound_None by blast
    then show False using k(2) by simp
  qed
  then obtain lk it where l: "lower_bound x m = Some (lk, it)" by auto
  note L = lower_bound_Some [OF rm_shapeD(1) [OF s] l]
  have "k \<le> lk" using L(3) [of k] k by simp
  moreover have "\<not> k < lk" using rm_shapeD(4) [OF s k(1), of lk] L(1,2) k(3) by auto
  ultimately have "it = item" using L(1) k(1) by simp
  then show ?thesis using l k(3) by (simp add: rm_lookup_def)
qed

lemma uncovered_lookup:
  assumes s: "rm_shape m" and n: "\<And>k item. \<not> covers m k item x"
  shows "rm_lookup m x = None"
proof (cases "lower_bound x m")
  case (Some y)
  then obtain lk it where l: "lower_bound x m = Some (lk, it)" by (cases y) auto
  note L = lower_bound_Some [OF rm_shapeD(1) [OF s] l]
  show ?thesis using n [of lk it] L(1,2) l by (simp add: rm_lookup_def covers_def)
qed (simp add: rm_lookup_def)

lemma lookup_cong:
  assumes "rm_shape m" "rm_shape m'"
    and "\<And>k item. covers m k item x \<Longrightarrow> \<exists>k' item'. covers m' k' item' x \<and> ri_v item' = ri_v item"
    and "\<And>k item. covers m' k item x \<Longrightarrow> ri_v item \<noteq> None \<Longrightarrow> \<exists>k' item'. covers m k' item' x"
  shows "rm_lookup m' x = rm_lookup m x"
proof (cases "\<exists>k item. covers m k item x")
  case True
  then show ?thesis using covers_lookup [OF assms(1)] covers_lookup [OF assms(2)] assms(3) by metis
next
  case False
  then have "rm_lookup m x = None" using uncovered_lookup [OF assms(1)] by blast
  moreover have "rm_lookup m' x = None"
    using False assms(4) covers_lookup [OF assms(2)] uncovered_lookup [OF assms(2)] by metis
  ultimately show ?thesis by simp
qed

text \<open>Splitting an item, filling a gap, and storing a value.\<close>

lemma split_item:
  assumes s: "rm_shape m" and k: "map_of m k = Some item" "k < p" "p < ri_end item"
  defines "m' \<equiv> bt_insert p \<lparr>ri_start = p, ri_end = ri_end item, ri_v = ri_v item\<rparr> (bt_insert k (item\<lparr>ri_end := p\<rparr>) m)"
  shows "rm_shape m'" "rm_lookup m' x = rm_lookup m x"
proof -
  note S = rm_shapeD [OF s]
  let ?new = "\<lparr>ri_start = p, ri_end = ri_end item, ri_v = ri_v item\<rparr>"
  have M: "map_of m' = (map_of m)(k \<mapsto> item\<lparr>ri_end := p\<rparr>, p \<mapsto> ?new)" by (simp add: m'_def map_of_bt_insert)
  have p: "map_of m p = None" using S(4) [OF k(1), of p] k(2,3) by (cases "map_of m p") auto
  have before: "ri_end it \<le> k" if "map_of m j = Some it" "j < p" "j \<noteq> k" for j it
  proof (cases "j < k")
    case True
    then show ?thesis using S(4) [OF that(1), of k] k(1) by simp
  next
    case False
    then have "ri_end item \<le> j" using S(4) [OF k(1), of j] that by simp
    then show ?thesis using that(2) k(3) by simp
  qed
  have after: "ri_end item \<le> j" if "map_of m j \<noteq> None" "k < j" for j using S(4) [OF k(1) that] .
  show shape: "rm_shape m'"
    unfolding rm_shape_def
  proof (intro conjI allI impI)
    show "bt_wf m'" using S(1) by (simp add: m'_def bt_wf_insert)
    fix j it assume j: "map_of m' j = Some it"
    show "ri_start it = j" using j S(2) k(1) by (auto simp: M split: if_splits)
    show "j < ri_end it" using j S(3) k by (auto simp: M split: if_splits)
    fix j' assume j': "map_of m' j' \<noteq> None" "j < j'"
    consider "j = p" | "j = k" "j \<noteq> p" | "j \<noteq> p" "j \<noteq> k" by blast
    then show "ri_end it \<le> j'"
    proof cases
      case 1
      then have it: "it = ?new" and "k < j'" using j j'(2) k(2) by (auto simp: M)
      then have "map_of m j' \<noteq> None" using j' 1 by (auto simp: M split: if_splits)
      then show ?thesis using after \<open>k < j'\<close> it by simp
    next
      case 2
      then have it: "it = item\<lparr>ri_end := p\<rparr>" using j by (simp add: M)
      show ?thesis
      proof (cases "j' = p")
        case False
        then have "map_of m j' \<noteq> None" using j' 2 by (auto simp: M split: if_splits)
        then show ?thesis using after [of j'] j'(2) 2 k(3) it by simp
      qed (simp add: it)
    next
      case 3
      then have mj: "map_of m j = Some it" using j by (simp add: M)
      show ?thesis
      proof (cases "j' = p")
        case True
        then show ?thesis using before [OF mj _ 3(2)] j'(2) k(2) by simp
      next
        case False
        then have "map_of m j' \<noteq> None" using j'(1) k(1) by (auto simp: M split: if_splits)
        then show ?thesis using S(4) [OF mj _ j'(2)] by simp
      qed
    qed
  qed
  show "rm_lookup m' x = rm_lookup m x"
  proof (rule lookup_cong [OF s shape])
    fix j it assume c: "covers m j it x"
    show "\<exists>k' item'. covers m' k' item' x \<and> ri_v item' = ri_v it"
    proof (cases "j = k")
      case True
      then have "it = item" using c k(1) by (simp add: covers_def)
      then have "covers m' k (item\<lparr>ri_end := p\<rparr>) x \<or> covers m' p ?new x"
        using c True k by (auto simp: covers_def M)
      moreover have "ri_v (item\<lparr>ri_end := p\<rparr>) = ri_v it" "ri_v ?new = ri_v it" using \<open>it = item\<close> by simp_all
      ultimately show ?thesis by blast
    next
      case False
      then have "j \<noteq> p" using c p by (auto simp: covers_def)
      then have "covers m' j it x" using c False by (simp add: covers_def M)
      then show ?thesis by blast
    qed
  next
    fix j it assume c: "covers m' j it x"
    show "\<exists>k' item'. covers m k' item' x"
    proof (cases "j = k \<or> j = p")
      case True
      then have "covers m k item x" using c k by (auto simp: covers_def M split: if_splits)
      then show ?thesis by blast
    next
      case False
      then have "covers m j it x" using c by (auto simp: covers_def M split: if_splits)
      then show ?thesis by blast
    qed
  qed
qed


lemma key_covers: "rm_shape m \<Longrightarrow> map_of m k = Some item \<Longrightarrow> covers m k item k"
  using rm_shapeD(3) by (simp add: covers_def)

lemma fill_gap:
  assumes s: "rm_shape m" and u: "a < u" and gap: "\<And>k item x. a \<le> x \<Longrightarrow> x < u \<Longrightarrow> \<not> covers m k item x"
  defines "m' \<equiv> bt_insert a \<lparr>ri_start = a, ri_end = u, ri_v = None\<rparr> m"
  shows "map_of m a = None" "rm_shape m'" "rm_lookup m' x = rm_lookup m x"
proof -
  note S = rm_shapeD [OF s]
  have M: "map_of m' = (map_of m)(a \<mapsto> \<lparr>ri_start = a, ri_end = u, ri_v = None\<rparr>)" by (simp add: m'_def map_of_bt_insert)
  have none: "map_of m j = None" if "a \<le> j" "j < u" for j
    using gap [OF that] key_covers [OF s, of j] by (cases "map_of m j") blast+
  then show free: "map_of m a = None" using u by simp
  show shape: "rm_shape m'"
    unfolding rm_shape_def
  proof (intro conjI allI impI)
    show "bt_wf m'" using S(1) by (simp add: m'_def bt_wf_insert)
    fix j it assume j: "map_of m' j = Some it"
    show "ri_start it = j" "j < ri_end it" using j S(2,3) u by (auto simp: M split: if_splits)
    fix j' assume j': "map_of m' j' \<noteq> None" "j < j'"
    show "ri_end it \<le> j'"
    proof (cases "j = a")
      case True
      then have "it = \<lparr>ri_start = a, ri_end = u, ri_v = None\<rparr>" using j by (simp add: M)
      moreover have "u \<le> j'" using j' True none [of j'] by (cases "j' < u") (auto simp: M)
      ultimately show ?thesis by simp
    next
      case False
      then have mj: "map_of m j = Some it" using j by (simp add: M)
      show ?thesis
      proof (cases "j' = a")
        case True
        then have "\<not> covers m j it a" using gap [of a] u by simp
        then show ?thesis using mj True j'(2) by (simp add: covers_def)
      next
        case False
        then show ?thesis using S(4) [OF mj _ j'(2)] j'(1) by (simp add: M)
      qed
    qed
  qed
  show "rm_lookup m' x = rm_lookup m x"
  proof (rule lookup_cong [OF s shape])
    fix j it assume c: "covers m j it x"
    then have "j \<noteq> a" using free by (auto simp: covers_def)
    then have "covers m' j it x" using c by (simp add: covers_def M)
    then show "\<exists>k' item'. covers m' k' item' x \<and> ri_v item' = ri_v it" by blast
  next
    fix j it assume c: "covers m' j it x" "ri_v it \<noteq> None"
    then have "j \<noteq> a" by (auto simp: covers_def M)
    then have "covers m j it x" using c by (simp add: covers_def M)
    then show "\<exists>k' item'. covers m k' item' x" by blast
  qed
qed

lemma rm_store_spec:
  assumes s: "rm_shape m" and a: "map_of m a = Some item"
  shows "\<exists>m'. rm_store a item v m = Some m' \<and> rm_shape m' \<and>
     (\<forall>k. k \<noteq> a \<longrightarrow> map_of m' k = map_of m k) \<and> map_of m' a = (if v = None then None else Some (item\<lparr>ri_v := v\<rparr>)) \<and>
     (\<forall>x. rm_lookup m' x = (if a \<le> x \<and> x < ri_end item then v else rm_lookup m x))"
proof -
  note S = rm_shapeD [OF s]
  have start: "ri_start item = a" by (rule S(2) [OF a])
  let ?m1 = "bt_insert a (item\<lparr>ri_v := v\<rparr>) m"
  define m' where "m' = (if v \<noteq> None then ?m1 else filter (\<lambda>(k, _). k \<noteq> a) ?m1)"
  have wf: "bt_wf (bt_insert a it m)" for it using S(1) by (simp add: bt_wf_insert)
  have store: "rm_store a item v m = Some m'"
    by (simp add: rm_store_def Let_def m'_def start map_of_bt_insert)
  have M: "map_of m' k = (if k \<noteq> a then map_of m k else if v = None then None else Some (item\<lparr>ri_v := v\<rparr>))" for k
  proof (cases "v = None")
    case True
    have "map_of (filter (\<lambda>(k, _). k \<noteq> a) ?m1) k = (if k \<noteq> a then map_of ?m1 k else None)"
      using map_of_filter_distinct [OF bt_distinct [OF wf [of "item\<lparr>ri_v := v\<rparr>"]], of "\<lambda>(k, _). k \<noteq> a" k]
      by (auto simp: map_of_bt_insert split: option.splits)
    then show ?thesis using True by (simp add: m'_def map_of_bt_insert)
  qed (auto simp: m'_def map_of_bt_insert)
  have shape: "rm_shape m'"
    unfolding rm_shape_def
  proof (intro conjI allI impI)
    show "bt_wf m'" using wf by (simp add: m'_def bt_wf_filter)
    fix j it assume j: "map_of m' j = Some it"
    then obtain it0 where it0: "map_of m j = Some it0" "ri_start it = ri_start it0" "ri_end it = ri_end it0"
      using a by (auto simp: M split: if_splits)
    show "ri_start it = j" "j < ri_end it" using S(2,3) it0 by auto
    fix j' assume j': "map_of m' j' \<noteq> None" "j < j'"
    then have "map_of m j' \<noteq> None" using a by (auto simp: M split: if_splits)
    then show "ri_end it \<le> j'" using S(4) [OF it0(1) _ j'(2)] it0(3) by simp
  qed
  have own: "j = a" if "covers m j it x" "a \<le> x" "x < ri_end item" for j it x
  proof -
    have j: "map_of m j = Some it" "j \<le> x" "x < ri_end it" using that(1) by (auto simp: covers_def)
    have "\<not> j < a" using S(4) [OF j(1), of a] a j(3) that(2) by auto
    moreover have "\<not> a < j" using S(4) [OF a, of j] j(1,2) that(3) by auto
    ultimately show ?thesis by simp
  qed
  have "rm_lookup m' x = (if a \<le> x \<and> x < ri_end item then v else rm_lookup m x)" for x
  proof (cases "a \<le> x \<and> x < ri_end item")
    case True
    show ?thesis
    proof (cases v)
      case None
      have "\<not> covers m' k it x" for k it
      proof
        assume "covers m' k it x"
        then have "covers m k it x" "k \<noteq> a" using None by (auto simp: covers_def M split: if_splits)
        with own True show False by blast
      qed
      then show ?thesis using uncovered_lookup [OF shape] True None by simp
    next
      case (Some y)
      then have "covers m' a (item\<lparr>ri_v := v\<rparr>) x" using True by (simp add: covers_def M)
      from covers_lookup [OF shape this] show ?thesis using True by simp
    qed
  next
    case False
    have "rm_lookup m' x = rm_lookup m x"
    proof (rule lookup_cong [OF s shape])
      fix j it assume c: "covers m j it x"
      then have "j \<noteq> a" using a False by (auto simp: covers_def)
      then have "covers m' j it x" using c by (simp add: covers_def M)
      then show "\<exists>k' item'. covers m' k' item' x \<and> ri_v item' = ri_v it" by blast
    next
      fix j it assume c: "covers m' j it x"
      then have "j \<noteq> a" using False by (auto simp: covers_def M split: if_splits)
      then have "covers m j it x" using c by (simp add: covers_def M)
      then show "\<exists>k' item'. covers m k' item' x" by blast
    qed
    then show ?thesis using False by (simp only: if_False)
  qed
  then show ?thesis using store shape M by (intro exI [of _ m']) simp
qed

lemma rm_split_spec:
  assumes s: "rm_ok m"
  shows "(\<exists>m1 item. rm_split a m = Some (m1, Some item) \<and> rm_ok m1 \<and> map_of m1 a = Some item \<and>
      (\<forall>x. rm_lookup m1 x = rm_lookup m x)) \<or>
    (rm_split a m = Some (m, None) \<and> (\<forall>k item. \<not> covers m k item a))"
proof -
  have sh: "rm_shape m" and v: "\<And>k it. map_of m k = Some it \<Longrightarrow> ri_v it \<noteq> None" using s by (auto simp: rm_ok_def)
  note S = rm_shapeD [OF sh]
  show ?thesis
  proof (cases "lower_bound a m")
    case None
    then have "\<not> covers m k it a" for k it
      using map_of_SomeD by (fastforce simp: lower_bound_None covers_def)
    then show ?thesis using None by (simp add: rm_split_def)
  next
    case (Some y)
    then obtain lk it where l: "lower_bound a m = Some (lk, it)" by (cases y) auto
    note L = lower_bound_Some [OF S(1) l]
    consider "lk = a" | "lk \<noteq> a" "a < ri_end it" | "lk \<noteq> a" "\<not> a < ri_end it" by blast
    then show ?thesis
    proof cases
      case 1
      then show ?thesis using l L(1) s by (simp add: rm_split_def)
    next
      case 2
      then have lt: "lk < a" using L(2) by simp
      let ?new = "\<lparr>ri_start = a, ri_end = ri_end it, ri_v = ri_v it\<rparr>"
      let ?m1 = "bt_insert lk (it\<lparr>ri_end := a\<rparr>) m"
      note sp = split_item [OF sh L(1) lt 2(2)]
      have "map_of m a = None" using L(3) [of a] lt by (cases "map_of m a") auto
      then have "map_of ?m1 a = None" using lt by (simp add: map_of_bt_insert)
      then have "rm_split a m = Some (bt_insert a ?new ?m1, Some ?new)"
        using l 2 by (simp add: rm_split_def Let_def)
      moreover have "rm_ok (bt_insert a ?new ?m1)"
        using sp(1) v L(1) by (auto simp: rm_ok_def map_of_bt_insert)
      ultimately show ?thesis using sp(2) by (simp add: map_of_bt_insert)
    next
      case 3
      have "\<not> covers m k it' a" for k it'
      proof
        assume "covers m k it' a"
        then have k: "map_of m k = Some it'" "k \<le> a" "a < ri_end it'" by (auto simp: covers_def)
        then have "k \<le> lk" using L(3) by simp
        moreover have "\<not> k < lk" using S(4) [OF k(1), of lk] L(1,2) k(3) by auto
        ultimately show False using L(1) k 3(2) by simp
      qed
      then show ?thesis using l 3 by (simp add: rm_split_def)
    qed
  qed
qed

lemma find_first:
  assumes "bt_wf m" "List.find (\<lambda>(k, _). a \<le> k \<and> k < b) m = Some (u, item)"
  shows "map_of m u = Some item" "a \<le> u" "u < b" "\<And>j. map_of m j \<noteq> None \<Longrightarrow> a \<le> j \<Longrightarrow> u \<le> j"
proof -
  from assms(2) obtain i where i: "i < length m" "m ! i = (u, item)" "a \<le> u" "u < b"
    "\<forall>j < i. \<not> (a \<le> fst (m ! j) \<and> fst (m ! j) < b)"
    unfolding find_Some_iff split_beta by (metis fst_conv)
  then show "map_of m u = Some item" "a \<le> u" "u < b" using bt_map_of [OF assms(1)] by (metis nth_mem)+
  fix j assume j: "map_of m j \<noteq> None" "a \<le> j"
  then obtain v where "(j, v) \<in> set m" using map_of_SomeD by fastforce
  then obtain n where n: "n < length m" "m ! n = (j, v)" by (auto simp: in_set_conv_nth)
  show "u \<le> j"
  proof (cases "n < i")
    case True
    then show ?thesis using i n j(2) by (metis fst_conv not_less order.trans less_imp_le)
  next
    case False
    then show ?thesis
      using sorted_wrt_nth_less [OF assms(1), of i n] i n by (cases "n = i") auto
  qed
qed


lemma find_none:
  fixes b :: nat
  assumes "List.find (\<lambda>(k, _). a \<le> k \<and> k < b) m = None" "map_of m j \<noteq> None" "a \<le> j"
  shows "b \<le> j"
proof -
  obtain v where "(j, v) \<in> set m" using assms(2) map_of_SomeD by fastforce
  with assms(1) have "\<not> (a \<le> j \<and> j < b)" by (auto simp: find_None_iff)
  then show ?thesis using assms(3) by (simp add: not_less)
qed

lemma rm_overlap_spec:
  assumes ok: "rm_ok m" and ab: "a < b"
  shows "\<exists>m1 item. rm_overlap a b m = Some (m1, item, if ri_end item = b then None else Some (ri_end item, b)) \<and>
     rm_shape m1 \<and> map_of m1 a = Some item \<and> a < ri_end item \<and> ri_end item \<le> b \<and>
     (\<forall>k it. map_of m1 k = Some it \<longrightarrow> k \<noteq> a \<longrightarrow> ri_v it \<noteq> None) \<and> (\<forall>x. rm_lookup m1 x = rm_lookup m x)"
proof -
  from rm_split_spec [OF ok, of a] consider
    (start) m1 item where "rm_split a m = Some (m1, Some item)" "rm_ok m1" "map_of m1 a = Some item"
      "\<forall>x. rm_lookup m1 x = rm_lookup m x"
  | (gap) "rm_split a m = Some (m, None)" "\<forall>k item. \<not> covers m k item a" by blast
  then show ?thesis
  proof cases
    case start
    have sh: "rm_shape m1" and v: "\<And>k it. map_of m1 k = Some it \<Longrightarrow> ri_v it \<noteq> None"
      using start(2) by (auto simp: rm_ok_def)
    have end_: "a < ri_end item" by (rule rm_shapeD(3) [OF sh start(3)])
    show ?thesis
    proof (cases "ri_end item \<le> b")
      case True
      then have "rm_overlap a b m = Some (m1, item, if ri_end item = b then None else Some (ri_end item, b))"
        using start(1) by (simp add: rm_overlap_def)
      then show ?thesis using sh start(3,4) end_ True v by blast
    next
      case False
      let ?m2 = "bt_insert b \<lparr>ri_start = b, ri_end = ri_end item, ri_v = ri_v item\<rparr> (bt_insert a (item\<lparr>ri_end := b\<rparr>) m1)"
      have lt: "b < ri_end item" using False by simp
      note sp = split_item [OF sh start(3) ab lt]
      have M: "map_of ?m2 a = Some (item\<lparr>ri_end := b\<rparr>)" using ab by (simp add: map_of_bt_insert)
      then have "rm_overlap a b m = Some (?m2, item\<lparr>ri_end := b\<rparr>, None)"
        using start(1) False by (simp add: rm_overlap_def Let_def)
      moreover have "\<forall>k it. map_of ?m2 k = Some it \<longrightarrow> k \<noteq> a \<longrightarrow> ri_v it \<noteq> None"
        using v start(3) by (auto simp: map_of_bt_insert)
      ultimately show ?thesis
        using sp M ab start(4) by (intro exI [of _ ?m2] exI [of _ "item\<lparr>ri_end := b\<rparr>"]) simp
    qed
  next
    case gap
    have sh: "rm_shape m" and v: "\<And>k it. map_of m k = Some it \<Longrightarrow> ri_v it \<noteq> None"
      using ok by (auto simp: rm_ok_def)
    note S = rm_shapeD [OF sh]
    have low: "\<not> covers m k it x" if "k \<le> a" "a \<le> x" for k it x
      using gap(2) that by (auto simp: covers_def)
    have fill: ?thesis if u: "a < u" "u \<le> b" and free: "\<And>j. map_of m j \<noteq> None \<Longrightarrow> a \<le> j \<Longrightarrow> u \<le> j"
      and upper: "upper_bound a b m = Some (if u = b then None else map_option (Pair u) (map_of m u))"
        "u = b \<or> map_of m u \<noteq> None" for u
    proof -
      let ?item = "\<lparr>ri_start = a, ri_end = u, ri_v = None\<rparr>"
      have none: "\<not> covers m k it x" if "a \<le> x" "x < u" for k it x
        using low [of k x it] that free [of k] by (cases "k \<le> a") (auto simp: covers_def)
      note g = fill_gap [OF sh u(1) none]
      have "rm_overlap a b m = Some (bt_insert a ?item m, ?item, if u = b then None else Some (u, b))"
        using gap(1) upper g(1) by (auto simp: rm_overlap_def rm_vacant_def Let_def)
      moreover have "\<forall>k it. map_of (bt_insert a ?item m) k = Some it \<longrightarrow> k \<noteq> a \<longrightarrow> ri_v it \<noteq> None"
        using v by (auto simp: map_of_bt_insert)
      ultimately show ?thesis
        using g(2,3) u by (intro exI [of _ "bt_insert a ?item m"] exI [of _ ?item]) (simp add: map_of_bt_insert)
    qed
    show ?thesis
    proof (cases "List.find (\<lambda>(k, _). a \<le> k \<and> k < b) m")
      case None
      show ?thesis
        by (rule fill [of b]) (use ab find_none [OF None] None in \<open>auto simp: upper_bound_def\<close>)
    next
      case (Some y)
      then obtain u it where f: "List.find (\<lambda>(k, _). a \<le> k \<and> k < b) m = Some (u, it)" by (cases y) auto
      note F = find_first [OF S(1) f]
      have "u \<noteq> a" using gap(2) key_covers [OF sh F(1)] by auto
      show ?thesis
        by (rule fill [of u]) (use \<open>u \<noteq> a\<close> F ab f in \<open>auto simp: upper_bound_def\<close>)
    qed
  qed
qed

section \<open>The loop acts on every key alone\<close>

text \<open>
  The calls of the mutation function cover the range in order, each with the value its keys have.
  The new value of a key depends on its old value only.
\<close>

definition calls_keys :: "(nat \<times> nat \<times> 'v option) list \<Rightarrow> (nat \<times> 'v option) list" where
  "calls_keys cs = concat (map (\<lambda>(lo, hi, v). map (\<lambda>k. (k, v)) [lo..<hi]) cs)"

theorem mutate_range_spec:
  assumes ok: "rm_ok m" and ab: "a < b"
    and f: "\<And>lo hi v s. P v \<Longrightarrow> f (lo, hi) v s = Some (g v, h (lo, hi) v s)"
    and P: "\<forall>x. a \<le> x \<and> x < b \<longrightarrow> P (rm_lookup m x)"
  shows "\<exists>m' cs. mutate_range f a b m s = Some (m', fold (\<lambda>(lo, hi, v). h (lo, hi) v) cs s) \<and> rm_ok m' \<and>
     calls_keys cs = map (\<lambda>k. (k, rm_lookup m k)) [a..<b] \<and> (\<forall>(lo, hi, v) \<in> set cs. lo < hi) \<and>
     (\<forall>x. rm_lookup m' x = (if a \<le> x \<and> x < b then g (rm_lookup m x) else rm_lookup m x))"
  using ok ab P
proof (induction "b - a" arbitrary: a m s rule: less_induct)
  case less
  from rm_overlap_spec [OF less.prems(1,2)] obtain m1 item where
    o: "rm_overlap a b m = Some (m1, item, if ri_end item = b then None else Some (ri_end item, b))"
    "rm_shape m1" "map_of m1 a = Some item" "a < ri_end item" "ri_end item \<le> b"
    "\<forall>k it. map_of m1 k = Some it \<longrightarrow> k \<noteq> a \<longrightarrow> ri_v it \<noteq> None" "\<forall>x. rm_lookup m1 x = rm_lookup m x" by blast
  have start: "ri_start item = a" by (rule rm_shapeD(2) [OF o(2,3)])
  have val: "rm_lookup m x = ri_v item" if "a \<le> x" "x < ri_end item" for x
    using covers_lookup [OF o(2), of a item x] o(3,7) that by (simp add: covers_def)
  have "P (rm_lookup m a)" using less.prems(2,3) by simp
  then have "P (ri_v item)" using val [of a] o(4) by simp
  note call = f [OF this, of "ri_start item" "ri_end item" s]
  from rm_store_spec [OF o(2,3), of "g (ri_v item)"] obtain m2 where
    m2: "rm_store a item (g (ri_v item)) m1 = Some m2" "rm_shape m2" "\<forall>k. k \<noteq> a \<longrightarrow> map_of m2 k = map_of m1 k"
    "map_of m2 a = (if g (ri_v item) = None then None else Some (item\<lparr>ri_v := g (ri_v item)\<rparr>))"
    "\<forall>x. rm_lookup m2 x = (if a \<le> x \<and> x < ri_end item then g (ri_v item) else rm_lookup m1 x)" by blast
  have ok2: "rm_ok m2"
    unfolding rm_ok_def
  proof (intro conjI allI impI)
    fix k it assume k: "map_of m2 k = Some it"
    show "ri_v it \<noteq> None"
    proof (cases "k = a")
      case True
      then show ?thesis using k m2(4) by (auto split: if_splits)
    next
      case False
      then show ?thesis using k m2(3) o(6) by simp
    qed
  qed (rule m2(2))
  let ?call = "(a, ri_end item, ri_v item)"
  have keys: "map (\<lambda>k. (k, ri_v item)) [a..<ri_end item] = map (\<lambda>k. (k, rm_lookup m k)) [a..<ri_end item]"
    using val by simp
  have split: "[a..<b] = [a..<ri_end item] @ [ri_end item..<b]"
    using upt_add_eq_append [of a "ri_end item" "b - ri_end item"] o(4,5) by simp
  have look: "rm_lookup m2 x = (if a \<le> x \<and> x < ri_end item then g (rm_lookup m x) else rm_lookup m x)" for x
    using m2(5) o(7) val [of x] by auto
  show ?case
  proof (cases "ri_end item = b")
    case True
    then have "mutate_range f a b m s = Some (m2, h (a, b) (ri_v item) s)"
      using o(1) call m2(1) start by (subst mutate_range.simps) simp
    then show ?thesis
      using ok2 keys look True o(4) by (intro exI [of _ m2] exI [of _ "[?call]"]) (simp add: calls_keys_def)
  next
    case False
    then have lt: "ri_end item < b" using o(5) by simp
    have P2: "\<forall>x. ri_end item \<le> x \<and> x < b \<longrightarrow> P (rm_lookup m2 x)"
      using less.prems(3) look o(4) by simp
    have dec: "b - ri_end item < b - a" using lt o(4) by linarith
    obtain m' cs where
      r: "mutate_range f (ri_end item) b m2 (h (a, ri_end item) (ri_v item) s) =
          Some (m', fold (\<lambda>(lo, hi, v). h (lo, hi) v) cs (h (a, ri_end item) (ri_v item) s))" "rm_ok m'"
      "calls_keys cs = map (\<lambda>k. (k, rm_lookup m2 k)) [ri_end item..<b]" "\<forall>(lo, hi, v) \<in> set cs. lo < hi"
      "\<forall>x. rm_lookup m' x = (if ri_end item \<le> x \<and> x < b then g (rm_lookup m2 x) else rm_lookup m2 x)"
      using less.hyps [OF dec ok2 lt P2, of "h (a, ri_end item) (ri_v item) s"] by (elim exE conjE) (rule that)
    have "mutate_range f a b m s = mutate_range f (ri_end item) b m2 (h (a, ri_end item) (ri_v item) s)"
      using o(1) call m2(1) start False by (subst mutate_range.simps) simp
    moreover have "map (\<lambda>k. (k, rm_lookup m2 k)) [ri_end item..<b] = map (\<lambda>k. (k, rm_lookup m k)) [ri_end item..<b]"
      using look by simp
    then have "calls_keys (?call # cs) = map (\<lambda>k. (k, rm_lookup m k)) [a..<b]"
      using r(3) keys by (simp add: calls_keys_def split)
    moreover have "rm_lookup m' x = (if a \<le> x \<and> x < b then g (rm_lookup m x) else rm_lookup m x)" for x
      using r(5) look [of x] o(4) lt by auto
    ultimately show ?thesis
      using r(1,2,4) o(4) by (intro exI [of _ m'] exI [of _ "?call # cs"]) simp
  qed
qed

section \<open>One item\<close>

lemma mutate_fresh:
  assumes "f (lo, hi) None h = Some (Some v, h')" "lo < hi"
  shows "mutate_range f lo hi [] h = Some ([(lo, \<lparr>ri_start = lo, ri_end = hi, ri_v = Some v\<rparr>)], h')"
proof -
  have "rm_overlap lo hi [] = Some ([(lo, \<lparr>ri_start = lo, ri_end = hi, ri_v = None\<rparr>)], \<lparr>ri_start = lo, ri_end = hi, ri_v = None :: 'a option\<rparr>, None)"
    using assms(2) by (simp add: rm_overlap_def rm_split_def lower_bound_def upper_bound_def rm_vacant_def Let_def)
  then show ?thesis
    using assms(1) by (subst mutate_range.simps) (simp add: rm_store_def Let_def)
qed

text \<open>A range without keys takes the rest of the item it lies in.\<close>

lemma mutate_empty_range:
  assumes "lo < k" "k < hi" "f (k, hi) (Some v) h = Some (Some v', h')"
  shows "mutate_range f k k [(lo, \<lparr>ri_start = lo, ri_end = hi, ri_v = Some v\<rparr>)] h =
    Some ([(lo, \<lparr>ri_start = lo, ri_end = k, ri_v = Some v\<rparr>), (k, \<lparr>ri_start = k, ri_end = hi, ri_v = Some v'\<rparr>)], h')"
proof -
  let ?m = "[(lo, \<lparr>ri_start = lo, ri_end = k, ri_v = Some v\<rparr>), (k, \<lparr>ri_start = k, ri_end = hi, ri_v = Some v\<rparr>)]"
  have "rm_split k [(lo, \<lparr>ri_start = lo, ri_end = hi, ri_v = Some v\<rparr>)] = Some (?m, Some \<lparr>ri_start = k, ri_end = hi, ri_v = Some v\<rparr>)"
    using assms(1,2) by (simp add: rm_split_def lower_bound_def Let_def)
  then have "rm_overlap k k [(lo, \<lparr>ri_start = lo, ri_end = hi, ri_v = Some v\<rparr>)] =
      Some (?m, \<lparr>ri_start = k, ri_end = hi, ri_v = Some v\<rparr>, None)"
    using assms(1,2) by (simp add: rm_overlap_def Let_def)
  then show ?thesis
    using assms by (subst mutate_range.simps) (simp add: rm_store_def Let_def)
qed

end
