(* ===== verification/MystiTransactions.thy ===== *)
theory MystiTransactions
  imports MystiRange MystiClock
begin

text \<open>
  Mysticeti: the votes on transactions (\<open>TransactionAggregator\<close> of committee.rs). The pending
  transactions of a block are a range map from their offsets to the votes; a vote for a range acts on
  all of it at once. The proof compares this with one set of voters per transaction. \<open>None\<close> is a
  panic.
\<close>

section \<open>The handlers\<close>

record 'h tx_handler =
  th_processed :: "transaction_locator \<Rightarrow> 'h \<Rightarrow> 'h"
  th_duplicate :: "transaction_locator \<Rightarrow> nat \<Rightarrow> 'h \<Rightarrow> 'h option"
  th_unknown :: "transaction_locator \<Rightarrow> nat \<Rightarrow> 'h \<Rightarrow> 'h option"

text \<open>The log of certified transactions (log.rs), with the methods the trait provides.\<close>

definition transaction_log :: "transaction_locator list tx_handler" where
  "transaction_log = \<lparr>th_processed = (\<lambda>k h. h @ [k]), th_duplicate = (\<lambda>_ _. Some), th_unknown = (\<lambda>_ _. Some)\<rparr>"

text \<open>The set of the tests, which panics on what it does not know.\<close>

definition hash_set_handler :: "transaction_locator list tx_handler" where
  "hash_set_handler = \<lparr>th_processed = List.insert,
     th_duplicate = (\<lambda>k _ h. if k \<in> set h then Some h else None),
     th_unknown = (\<lambda>k _ h. if k \<in> set h then Some h else None)\<rparr>"

fun try_each :: "('a \<Rightarrow> 's \<Rightarrow> 's option) \<Rightarrow> 'a list \<Rightarrow> 's \<Rightarrow> 's option" where
  "try_each f [] s = Some s"
| "try_each f (x # xs) s = (case f x s of None \<Rightarrow> None | Some s' \<Rightarrow> try_each f xs s')"

lemma try_each_append:
  "try_each f (xs @ ys) s = (case try_each f xs s of None \<Rightarrow> None | Some s' \<Rightarrow> try_each f ys s')"
  by (induction xs arbitrary: s) (auto split: option.splits)

section \<open>The aggregator\<close>

record 'h transaction_aggregator =
  ta_pending :: "(block_reference, stake_aggregator range_map) hash_map"
  ta_handler :: 'h

definition ta_with_handler :: "'h \<Rightarrow> 'h transaction_aggregator" where
  "ta_with_handler h = \<lparr>ta_pending = [], ta_handler = h\<rparr>"

definition locators_in :: "block_reference \<Rightarrow> nat \<Rightarrow> nat \<Rightarrow> transaction_locator list" where
  "locators_in r lo hi = map (\<lambda>k. \<lparr>tl_block = r, tl_offset = k\<rparr>) [lo..<hi]"

definition register_range :: "threshold_kind \<Rightarrow> 'h tx_handler \<Rightarrow> mcommittee \<Rightarrow> block_reference \<Rightarrow> nat \<Rightarrow>
    (stake_aggregator, 'h) mutation" where
  "register_range th H c r vote = (\<lambda>(lo, hi) v h. case v of
     Some agg \<Rightarrow> map_option (Pair (Some agg)) (try_each (\<lambda>k. th_duplicate H k vote) (locators_in r lo hi) h)
   | None \<Rightarrow> map_option (\<lambda>(_, agg). (Some agg, h)) (agg_add th c vote agg_new))"

definition ta_register :: "threshold_kind \<Rightarrow> 'h tx_handler \<Rightarrow> mcommittee \<Rightarrow> locator_range \<Rightarrow> nat \<Rightarrow>
    'h transaction_aggregator \<Rightarrow> 'h transaction_aggregator option" where
  "ta_register th H c rng vote s =
     (let r = lr_block rng; m = (case map_of (ta_pending s) r of None \<Rightarrow> [] | Some m \<Rightarrow> m)
      in map_option (\<lambda>(m', h). \<lparr>ta_pending = AList.update r m' (ta_pending s), ta_handler = h\<rparr>)
           (mutate_range (register_range th H c r vote) (offset_start_inclusive rng) (offset_end_exclusive rng)
             m (ta_handler s)))"

text \<open>The state of the second loop is the handler with the list \<open>processed\<close>.\<close>

definition vote_range :: "threshold_kind \<Rightarrow> 'h tx_handler \<Rightarrow> mcommittee \<Rightarrow> block_reference \<Rightarrow> nat \<Rightarrow>
    (stake_aggregator, 'h \<times> transaction_locator list) mutation" where
  "vote_range th H c r vote = (\<lambda>(lo, hi) v (h, processed). case v of
     None \<Rightarrow> map_option (\<lambda>h'. (None, h', processed)) (try_each (\<lambda>k. th_unknown H k vote) (locators_in r lo hi) h)
   | Some agg \<Rightarrow> (case agg_add th c vote agg of
       None \<Rightarrow> None
     | Some (True, _) \<Rightarrow>
         Some (None, fold (th_processed H) (locators_in r lo hi) h, processed @ locators_in r lo hi)
     | Some (False, agg') \<Rightarrow> Some (Some agg', h, processed)))"

definition ta_vote :: "threshold_kind \<Rightarrow> 'h tx_handler \<Rightarrow> mcommittee \<Rightarrow> locator_range \<Rightarrow> nat \<Rightarrow>
    'h transaction_aggregator \<times> transaction_locator list \<Rightarrow>
    ('h transaction_aggregator \<times> transaction_locator list) option" where
  "ta_vote th H c rng vote = (\<lambda>(s, processed). case map_of (ta_pending s) (lr_block rng) of
     None \<Rightarrow> map_option (\<lambda>h. (s\<lparr>ta_handler := h\<rparr>, processed))
       (try_each (\<lambda>k. th_unknown H k vote) (range_locators rng) (ta_handler s))
   | Some m \<Rightarrow> map_option (\<lambda>(m', h, processed').
         (\<lparr>ta_pending = (if m' = [] then AList.delete (lr_block rng) (ta_pending s)
             else AList.update (lr_block rng) m' (ta_pending s)), ta_handler = h\<rparr>, processed'))
       (mutate_range (vote_range th H c (lr_block rng) vote) (offset_start_inclusive rng)
         (offset_end_exclusive rng) m (ta_handler s, processed)))"

definition ta_statement :: "threshold_kind \<Rightarrow> 'h tx_handler \<Rightarrow> mcommittee \<Rightarrow> nat \<Rightarrow> base_statement \<Rightarrow>
    'h transaction_aggregator \<times> transaction_locator list \<Rightarrow>
    ('h transaction_aggregator \<times> transaction_locator list) option" where
  "ta_statement th H c author st s = (case st of
     Share tx \<Rightarrow> Some s
   | Vote l Accept \<Rightarrow> ta_vote th H c (locator_range_one l) author s
   | Vote l (Reject _) \<Rightarrow> None
   | VoteRange rng \<Rightarrow> ta_vote th H c rng author s)"

text \<open>
  \<open>process_block\<close>: what is registered is also the response, when one is wanted. The results are the
  transactions processed, the response and the new state.
\<close>

definition ta_process_block :: "threshold_kind \<Rightarrow> 'h tx_handler \<Rightarrow> mcommittee \<Rightarrow> statement_block \<Rightarrow>
    base_statement list option \<Rightarrow> 'h transaction_aggregator \<Rightarrow>
    (transaction_locator list \<times> base_statement list option \<times> 'h transaction_aggregator) option" where
  "ta_process_block th H c b response s =
     (case try_each (\<lambda>rng. ta_register th H c rng (block_author b)) (shared_ranges b) s of
        None \<Rightarrow> None
      | Some s1 \<Rightarrow> map_option
          (\<lambda>(s2, processed). (processed, map_option (\<lambda>rs. rs @ map VoteRange (shared_ranges b)) response, s2))
          (try_each (ta_statement th H c (block_author b)) (statements b) (s1, [])))"

section \<open>One set of voters per transaction\<close>

definition in_range :: "transaction_locator \<Rightarrow> locator_range \<Rightarrow> bool" where
  "in_range l rng \<longleftrightarrow> tl_block l = lr_block rng \<and>
     offset_start_inclusive rng \<le> tl_offset l \<and> tl_offset l < offset_end_exclusive rng"

lemma set_range_locators: "l \<in> set (range_locators rng) \<longleftrightarrow> in_range l rng"
  by (cases l) (auto simp: range_locators_def in_range_def)

definition tx_pending :: "'h transaction_aggregator \<Rightarrow> transaction_locator \<Rightarrow> stake_aggregator option" where
  "tx_pending s l = (case map_of (ta_pending s) (tl_block l) of None \<Rightarrow> None | Some m \<Rightarrow> rm_lookup m (tl_offset l))"

definition tx_voters :: "'h transaction_aggregator \<Rightarrow> transaction_locator \<Rightarrow> nat set option" where
  "tx_voters s l = map_option agg_members (tx_pending s l)"

definition ta_ok :: "mcommittee \<Rightarrow> 'h transaction_aggregator \<Rightarrow> bool" where
  "ta_ok c s \<longleftrightarrow> hm_wf (ta_pending s) \<and> (\<forall>r m. map_of (ta_pending s) r = Some m \<longrightarrow> rm_ok m) \<and>
     (\<forall>l agg. tx_pending s l = Some agg \<longrightarrow> agg_ok c agg)"

lemma ta_ok_start [simp]: "ta_ok c (ta_with_handler h)"
  by (simp add: ta_ok_def ta_with_handler_def tx_pending_def)

lemma tx_voters_start [simp]: "tx_voters (ta_with_handler h) l = None"
  by (simp add: tx_voters_def tx_pending_def ta_with_handler_def)

lemma rm_lookup_empty [simp]: "rm_lookup [] k = None"
  by (simp add: rm_lookup_def lower_bound_def)

text \<open>The mutations of the log, by the votes of one range.\<close>

lemma try_each_Some [simp]: "try_each (\<lambda>_. Some) xs s = Some s"
  by (induction xs) auto

lemma fold_log: "fold (th_processed transaction_log) ks h = h @ ks"
  by (induction ks arbitrary: h) (auto simp: transaction_log_def)

definition quorum_with :: "mcommittee \<Rightarrow> nat \<Rightarrow> nat set option \<Rightarrow> bool" where
  "quorum_with c a V \<longleftrightarrow> (\<exists>W. V = Some W \<and> mc_has_quorum c (insert a W))"

fun register_voters :: "nat \<Rightarrow> nat set option \<Rightarrow> nat set option" where
  "register_voters a None = Some {a}"
| "register_voters a (Some W) = Some W"

fun vote_voters :: "mcommittee \<Rightarrow> nat \<Rightarrow> nat set option \<Rightarrow> nat set option" where
  "vote_voters c a None = None"
| "vote_voters c a (Some W) = (if mc_has_quorum c (insert a W) then None else Some (insert a W))"


lemma tx_pending_update:
  assumes "\<And>k. rm_lookup m' k = (if lo \<le> k \<and> k < hi then g (rm_lookup m k) else rm_lookup m k)"
    and "\<And>k. rm_lookup m k = tx_pending s \<lparr>tl_block = r, tl_offset = k\<rparr>"
    and "\<And>r'. map_of p' r' = (if r' = r then if m' = [] \<and> dropped then None else Some m' else map_of (ta_pending s) r')"
  shows "tx_pending \<lparr>ta_pending = p', ta_handler = h\<rparr> l =
    (if tl_block l = r \<and> lo \<le> tl_offset l \<and> tl_offset l < hi then g (tx_pending s l) else tx_pending s l)"
proof (cases "tl_block l = r")
  case True
  then have l: "l = \<lparr>tl_block = r, tl_offset = tl_offset l\<rparr>" by simp
  have "tx_pending \<lparr>ta_pending = p', ta_handler = h\<rparr> l = rm_lookup m' (tl_offset l)"
    using True assms(3) by (simp add: tx_pending_def)
  moreover have "rm_lookup m (tl_offset l) = tx_pending s l" using assms(2) l by metis
  ultimately show ?thesis using assms(1) True by simp
next
  case False
  then show ?thesis using assms(3) by (simp add: tx_pending_def)
qed

lemma ta_okI:
  assumes ok: "ta_ok c s" and m': "rm_ok m'" and wf: "hm_wf p'"
    and "\<And>r'. map_of p' r' = (if r' = r then if m' = [] \<and> dropped then None else Some m' else map_of (ta_pending s) r')"
    and "\<And>l agg. tx_pending \<lparr>ta_pending = p', ta_handler = h\<rparr> l = Some agg \<Longrightarrow> agg_ok c agg"
  shows "ta_ok c \<lparr>ta_pending = p', ta_handler = h\<rparr>"
  using assms by (auto simp: ta_ok_def split: if_splits)

lemma register_spec:
  assumes c: "mc_ok c" and ok: "ta_ok c s" and a: "a < mc_len c"
    and rng: "offset_start_inclusive rng < offset_end_exclusive rng"
  shows "\<exists>s'. ta_register QuorumThreshold transaction_log c rng a s = Some s' \<and> ta_ok c s' \<and>
     ta_handler s' = ta_handler s \<and>
     (\<forall>l. tx_voters s' l = (if in_range l rng then register_voters a (tx_voters s l) else tx_voters s l))"
proof -
  let ?r = "lr_block rng" and ?f = "register_range QuorumThreshold transaction_log c (lr_block rng) a"
  define m where "m = (case map_of (ta_pending s) ?r of None \<Rightarrow> [] | Some m \<Rightarrow> m)"
  have m: "rm_ok m" using ok by (auto simp: m_def ta_ok_def split: option.splits)
  have lookup: "rm_lookup m k = tx_pending s \<lparr>tl_block = ?r, tl_offset = k\<rparr>" for k
    by (simp add: m_def tx_pending_def split: option.splits)
  from agg_add_quorum [OF c agg_new_ok(1) a] obtain agg where
    agg: "agg_add QuorumThreshold c a agg_new = Some (mc_has_quorum c (agg_members agg), agg)" "agg_ok c agg"
    "agg_members agg = insert a (agg_members agg_new)" .
  let ?g = "\<lambda>v. case v of None \<Rightarrow> Some agg | Some x \<Rightarrow> Some x"
  have f: "?f (lo, hi) v h = Some (?g v, h)" for lo hi v h
    using agg(1) by (simp add: register_range_def transaction_log_def split: option.splits)
  from mutate_range_spec [where f = ?f and g = ?g and h = "\<lambda>_ _ h. h" and P = "\<lambda>_. True", OF m rng f allI [OF impI [OF TrueI]], of "ta_handler s"] obtain m' cs where
    m': "mutate_range ?f (offset_start_inclusive rng) (offset_end_exclusive rng) m (ta_handler s) =
      Some (m', fold (\<lambda>(lo, hi, v). \<lambda>h. h) cs (ta_handler s))" "rm_ok m'"
    "calls_keys cs = map (\<lambda>k. (k, rm_lookup m k)) [offset_start_inclusive rng..<offset_end_exclusive rng]"
    "\<forall>(lo, hi, v) \<in> set cs. lo < hi"
    "\<forall>x. rm_lookup m' x = (if offset_start_inclusive rng \<le> x \<and> x < offset_end_exclusive rng
       then ?g (rm_lookup m x) else rm_lookup m x)" by (elim exE conjE) (rule that)
  have same: "fold (\<lambda>(lo, hi, v). \<lambda>h. h) cs h = h" for h :: "transaction_locator list"
    by (induction cs arbitrary: h) (auto simp: split_beta)
  let ?s' = "\<lparr>ta_pending = AList.update ?r m' (ta_pending s), ta_handler = ta_handler s\<rparr>"
  have run: "ta_register QuorumThreshold transaction_log c rng a s = Some ?s'"
    using m'(1) by (simp add: ta_register_def Let_def m_def [symmetric] same)
  have up: "map_of (AList.update ?r m' (ta_pending s)) r' = (if r' = ?r then if m' = [] \<and> False then None else Some m'
      else map_of (ta_pending s) r')" for r' by (simp add: map_of_update)
  note pend = tx_pending_update [OF m'(5) [rule_format] lookup up, of "ta_handler s"]
  have "ta_ok c ?s'"
    by (rule ta_okI [OF ok m'(2) _ up])
      (use ok agg(2) in \<open>auto simp: ta_ok_def hm_wf_update pend split: if_splits option.splits\<close>)
  moreover have "agg_members agg = {a}" using agg(3) by simp
  then have "tx_voters ?s' l = (if in_range l rng then register_voters a (tx_voters s l) else tx_voters s l)" for l
    by (auto simp: tx_voters_def pend in_range_def split: option.splits)
  ultimately show ?thesis using run by (intro exI [of _ ?s']) simp
qed

lemma fold_called:
  assumes "\<forall>(lo, hi, v) \<in> set cs. lo < hi"
  shows "fold (\<lambda>(lo, hi, v) (h, p). if q v then (h @ locators_in r lo hi, p @ locators_in r lo hi) else (h, p)) cs (h, p) =
    (h @ map (\<lambda>(k, v). \<lparr>tl_block = r, tl_offset = k\<rparr>) (filter (\<lambda>(k, v). q v) (calls_keys cs)),
     p @ map (\<lambda>(k, v). \<lparr>tl_block = r, tl_offset = k\<rparr>) (filter (\<lambda>(k, v). q v) (calls_keys cs)))"
  using assms
proof (induction cs arbitrary: h p)
  case (Cons x cs)
  obtain lo hi v where x: "x = (lo, hi, v)" by (cases x)
  have "map (\<lambda>(k, v). \<lparr>tl_block = r, tl_offset = k\<rparr>) (filter (\<lambda>(k, v). q v) (map (\<lambda>k. (k, v)) [lo..<hi])) =
      (if q v then locators_in r lo hi else [])"
    by (induction "[lo..<hi]") (auto simp: locators_in_def filter_map comp_def)
  then show ?case using Cons by (simp add: x calls_keys_def)
qed (simp add: calls_keys_def)

lemma vote_spec:
  assumes c: "mc_ok c" and ok: "ta_ok c s" and a: "a < mc_len c"
    and rng: "offset_start_inclusive rng < offset_end_exclusive rng"
  defines "ps \<equiv> filter (\<lambda>l. quorum_with c a (tx_voters s l)) (range_locators rng)"
  shows "\<exists>s'. ta_vote QuorumThreshold transaction_log c rng a (s, p) = Some (s', p @ ps) \<and> ta_ok c s' \<and>
     ta_handler s' = ta_handler s @ ps \<and>
     (\<forall>l. tx_voters s' l = (if in_range l rng then vote_voters c a (tx_voters s l) else tx_voters s l))"
proof (cases "map_of (ta_pending s) (lr_block rng)")
  case None
  have none: "tx_voters s l = None" if "in_range l rng" for l
    using that None by (simp add: tx_voters_def tx_pending_def in_range_def)
  then have "ps = []" by (auto simp: ps_def filter_empty_conv set_range_locators quorum_with_def)
  moreover have "ta_vote QuorumThreshold transaction_log c rng a (s, p) = Some (s\<lparr>ta_handler := ta_handler s\<rparr>, p)"
    using None by (simp add: ta_vote_def transaction_log_def)
  moreover have "tx_voters s l = (if in_range l rng then vote_voters c a (tx_voters s l) else tx_voters s l)" for l
    using none by simp
  ultimately show ?thesis using ok by simp
next
  case (Some m)
  let ?r = "lr_block rng" and ?f = "vote_range QuorumThreshold transaction_log c (lr_block rng) a"
  have m: "rm_ok m" using ok Some by (simp add: ta_ok_def)
  have lookup: "rm_lookup m k = tx_pending s \<lparr>tl_block = ?r, tl_offset = k\<rparr>" for k
    using Some by (simp add: tx_pending_def)
  let ?P = "\<lambda>v. \<forall>agg. v = Some agg \<longrightarrow> agg_ok c agg"
  have P: "\<forall>x. offset_start_inclusive rng \<le> x \<and> x < offset_end_exclusive rng \<longrightarrow> ?P (rm_lookup m x)" using ok by (simp add: lookup ta_ok_def)
  let ?q = "\<lambda>v. quorum_with c a (map_option agg_members v)"
  let ?g = "\<lambda>v. case v of None \<Rightarrow> None
    | Some agg \<Rightarrow> if ?q v then None else map_option snd (agg_add QuorumThreshold c a agg)"
  let ?h = "\<lambda>(lo, hi) v (h, p). if ?q v then (h @ locators_in ?r lo hi, p @ locators_in ?r lo hi) else (h, p)"
  have f: "?f (lo, hi) v x = Some (?g v, ?h (lo, hi) v x)" if v: "?P v" for lo hi v x
  proof (cases v)
    case None
    then show ?thesis by (cases x) (simp add: vote_range_def transaction_log_def quorum_with_def)
  next
    case (Some agg)
    then have "agg_ok c agg" using v by simp
    from agg_add_quorum [OF c this a] obtain agg' where
      agg': "agg_add QuorumThreshold c a agg = Some (mc_has_quorum c (agg_members agg'), agg')"
      "agg_members agg' = insert a (agg_members agg)" .
    then show ?thesis
      using Some by (cases x) (simp add: vote_range_def quorum_with_def fold_log split: bool.splits)
  qed
  have "\<exists>m' cs. mutate_range ?f (offset_start_inclusive rng) (offset_end_exclusive rng) m (ta_handler s, p) =
      Some (m', fold (\<lambda>(lo, hi, v). ?h (lo, hi) v) cs (ta_handler s, p)) \<and> rm_ok m' \<and>
    calls_keys cs = map (\<lambda>k. (k, rm_lookup m k)) [offset_start_inclusive rng..<offset_end_exclusive rng] \<and>
    (\<forall>(lo, hi, v) \<in> set cs. lo < hi) \<and>
    (\<forall>x. rm_lookup m' x = (if offset_start_inclusive rng \<le> x \<and> x < offset_end_exclusive rng
       then ?g (rm_lookup m x) else rm_lookup m x))"
    by (rule mutate_range_spec [where f = ?f and g = ?g and h = ?h and P = ?P, OF m rng _ P]) (rule f)
  then obtain m' cs where
    m': "mutate_range ?f (offset_start_inclusive rng) (offset_end_exclusive rng) m (ta_handler s, p) =
      Some (m', fold (\<lambda>(lo, hi, v). ?h (lo, hi) v) cs (ta_handler s, p))" "rm_ok m'"
    "calls_keys cs = map (\<lambda>k. (k, rm_lookup m k)) [offset_start_inclusive rng..<offset_end_exclusive rng]"
    "\<forall>(lo, hi, v) \<in> set cs. lo < hi"
    "\<forall>x. rm_lookup m' x = (if offset_start_inclusive rng \<le> x \<and> x < offset_end_exclusive rng
       then ?g (rm_lookup m x) else rm_lookup m x)" by blast
  have "map (\<lambda>(k, v). \<lparr>tl_block = ?r, tl_offset = k\<rparr>) (filter (\<lambda>(k, v). ?q v) (calls_keys cs)) = ps"
    unfolding m'(3) ps_def range_locators_def filter_map
    by (simp add: comp_def lookup tx_voters_def)
  with fold_called [OF m'(4), of ?q ?r "ta_handler s" p] have
    fold: "fold (\<lambda>(lo, hi, v). ?h (lo, hi) v) cs (ta_handler s, p) = (ta_handler s @ ps, p @ ps)" by simp
  let ?p' = "if m' = [] then AList.delete ?r (ta_pending s) else AList.update ?r m' (ta_pending s)"
  let ?s' = "\<lparr>ta_pending = ?p', ta_handler = ta_handler s @ ps\<rparr>"
  have run: "ta_vote QuorumThreshold transaction_log c rng a (s, p) = Some (?s', p @ ps)"
    using Some m'(1) fold by (simp add: ta_vote_def)
  have wf: "hm_wf (ta_pending s)" using ok by (simp add: ta_ok_def)
  have up: "map_of ?p' r' = (if r' = ?r then if m' = [] \<and> True then None else Some m'
      else map_of (ta_pending s) r')" for r' by (simp add: map_of_update map_of_delete wf)
  note pend = tx_pending_update [OF m'(5) [rule_format] lookup up, of "ta_handler s @ ps"]
  have step: "?g v = None \<or> (\<exists>agg'. ?g v = Some agg' \<and> agg_ok c agg')" "map_option agg_members (?g v) = vote_voters c a (map_option agg_members v)"
    if v: "?P v" for v
  proof -
    have "(?g v = None \<or> (\<exists>agg'. ?g v = Some agg' \<and> agg_ok c agg')) \<and>
        map_option agg_members (?g v) = vote_voters c a (map_option agg_members v)"
    proof (cases v)
      case (Some agg)
      then have "agg_ok c agg" using v by simp
      from agg_add_quorum [OF c this a] obtain agg' where
        agg': "agg_add QuorumThreshold c a agg = Some (mc_has_quorum c (agg_members agg'), agg')" "agg_ok c agg'"
        "agg_members agg' = insert a (agg_members agg)" .
      then show ?thesis using Some by (simp add: quorum_with_def)
    qed simp
    then show "?g v = None \<or> (\<exists>agg'. ?g v = Some agg' \<and> agg_ok c agg')"
      "map_option agg_members (?g v) = vote_voters c a (map_option agg_members v)" by blast+
  qed
  have P': "?P (tx_pending s l)" for l using ok by (simp add: ta_ok_def)
  have "ta_ok c ?s'"
  proof (rule ta_okI [OF ok m'(2) _ up])
    show "hm_wf ?p'" using wf by (simp add: hm_wf_update hm_wf_delete)
    fix l agg assume "tx_pending ?s' l = Some agg"
    then show "agg_ok c agg" using step(1) [OF P' [of l]] P' [of l] unfolding pend by (auto split: if_splits)
  qed
  moreover have "tx_voters ?s' l = (if in_range l rng then vote_voters c a (tx_voters s l) else tx_voters s l)" for l
    using step(2) [OF P' [of l]] by (simp add: tx_voters_def pend in_range_def)
  ultimately show ?thesis using run by (intro exI [of _ ?s']) simp
qed


section \<open>A block\<close>

text \<open>The ranges of shared transactions are not empty and hold exactly the positions of the shares.\<close>

lemma shared_loop_spec:
  assumes "off + length ss < 2 ^ 64" "\<forall>r. b = Some r \<longrightarrow> fst r < snd r \<and> snd r \<le> off"
  shows "(\<forall>r \<in> set (shared_loop off b ss). fst r < snd r) \<and>
     (\<forall>k. (\<exists>r \<in> set (shared_loop off b ss). fst r \<le> k \<and> k < snd r) \<longleftrightarrow>
        (\<exists>r. b = Some r \<and> fst r \<le> k \<and> k < snd r) \<or> (\<exists>i < length ss. is_share (ss ! i) \<and> k = off + i))"
  using assms
proof (induction ss arbitrary: off b)
  case Nil
  then show ?case by (cases b) (auto simp: vrb_finish_def)
next
  case (Cons s ss)
  have shift: "(\<exists>i < length (s # ss). is_share ((s # ss) ! i) \<and> k = off + i) \<longleftrightarrow>
      is_share s \<and> k = off \<or> (\<exists>i < length ss. is_share (ss ! i) \<and> k = Suc off + i)" for k
    by (auto simp: less_Suc_eq_0_disj)
  have small: "Suc off + length ss < 2 ^ 64" "u64_add off 1 = Suc off"
    using Cons.prems(1) by (auto simp: u64_add_def)
  have one: "fst r \<le> k \<and> k < snd r \<longleftrightarrow> k = off" if "r = (off, Suc off)" for k r using that by auto
  show ?case
  proof (cases "is_share s")
    case False
    have ih: "\<forall>r. b = Some r \<longrightarrow> fst r < snd r \<and> snd r \<le> Suc off" using Cons.prems(2) by auto
    have skip: "shared_loop off b (s # ss) = shared_loop (Suc off) b ss" using False small(2) by simp
    show ?thesis using Cons.IH [OF small(1) ih] False unfolding shift skip by blast
  next
    case True
    show ?thesis
    proof (cases b)
      case None
      have "shared_loop off b (s # ss) = shared_loop (Suc off) (Some (off, Suc off)) ss"
        using True None small(2) by simp
      then show ?thesis
        using Cons.IH [OF small(1), of "Some (off, Suc off)"] True None unfolding shift by (auto simp: one)
    next
      case (Some r)
      obtain lo hi where r: "r = (lo, hi)" by (cases r)
      have lh: "lo < hi" "hi \<le> off" using Cons.prems(2) Some r by auto
      show ?thesis
      proof (cases "hi = off")
        case True
        have "shared_loop off b (s # ss) = shared_loop (Suc off) (Some (lo, Suc off)) ss"
          using \<open>is_share s\<close> Some r True small(2) by simp
        then show ?thesis
          using Cons.IH [OF small(1), of "Some (lo, Suc off)"] lh True Some r \<open>is_share s\<close> unfolding shift
          by (auto simp: less_Suc_eq_le le_less)
      next
        case False
        have "shared_loop off b (s # ss) = r # shared_loop (Suc off) (Some (off, Suc off)) ss"
          using \<open>is_share s\<close> Some r False small(2) by simp
        then show ?thesis
          using Cons.IH [OF small(1), of "Some (off, Suc off)"] lh False Some r \<open>is_share s\<close> unfolding shift
          by (auto simp: one)
      qed
    qed
  qed
qed

definition shares :: "statement_block \<Rightarrow> transaction_locator \<Rightarrow> bool" where
  "shares b l \<longleftrightarrow> tl_block l = reference b \<and> tl_offset l < length (statements b) \<and> is_share (statements b ! tl_offset l)"

definition statement_range :: "base_statement \<Rightarrow> locator_range option" where
  "statement_range st = (case st of Vote l Accept \<Rightarrow> Some (locator_range_one l) | VoteRange r \<Rightarrow> Some r | _ \<Rightarrow> None)"

definition votes_on :: "statement_block \<Rightarrow> transaction_locator \<Rightarrow> bool" where
  "votes_on b l \<longleftrightarrow> (\<exists>st \<in> set (statements b). \<exists>rng. statement_range st = Some rng \<and> in_range l rng)"

text \<open>No rejecting vote, and no range that holds nothing.\<close>

definition statement_counts :: "base_statement \<Rightarrow> bool" where
  "statement_counts st = (case st of Share tx \<Rightarrow> True | Vote l (Reject _) \<Rightarrow> False
     | _ \<Rightarrow> (case statement_range st of None \<Rightarrow> True
         | Some r \<Rightarrow> offset_start_inclusive r < offset_end_exclusive r))"

definition countable_block :: "mcommittee \<Rightarrow> statement_block \<Rightarrow> bool" where
  "countable_block c b \<longleftrightarrow> block_author b < mc_len c \<and> length (statements b) < 2 ^ 64 \<and>
     list_all statement_counts (statements b)"

lemma shared_ranges_spec:
  assumes "length (statements b) < 2 ^ 64"
  shows "\<forall>rng \<in> set (shared_ranges b). offset_start_inclusive rng < offset_end_exclusive rng"
    "(\<exists>rng \<in> set (shared_ranges b). in_range l rng) \<longleftrightarrow> shares b l"
proof -
  note sp = shared_loop_spec [of 0 "statements b" None, simplified, OF assms [simplified]]
  show "\<forall>rng \<in> set (shared_ranges b). offset_start_inclusive rng < offset_end_exclusive rng"
    using sp by (auto simp: shared_ranges_def split_beta)
  have "(\<exists>rng \<in> set (shared_ranges b). in_range l rng) \<longleftrightarrow> tl_block l = reference b \<and>
      (\<exists>r \<in> set (shared_loop 0 None (statements b)). fst r \<le> tl_offset l \<and> tl_offset l < snd r)"
    by (auto simp: shared_ranges_def in_range_def split_beta)
  then show "(\<exists>rng \<in> set (shared_ranges b). in_range l rng) \<longleftrightarrow> shares b l"
    using sp by (auto simp: shares_def)
qed

lemma register_all_spec:
  assumes c: "mc_ok c" and a: "a < mc_len c" and ok: "ta_ok c s"
    and rngs: "\<forall>rng \<in> set rngs. offset_start_inclusive rng < offset_end_exclusive rng"
  shows "\<exists>s'. try_each (\<lambda>rng. ta_register QuorumThreshold transaction_log c rng a) rngs s = Some s' \<and> ta_ok c s' \<and>
     ta_handler s' = ta_handler s \<and>
     (\<forall>l. tx_voters s' l = (if \<exists>rng \<in> set rngs. in_range l rng then register_voters a (tx_voters s l) else tx_voters s l))"
  using ok rngs
proof (induction rngs arbitrary: s)
  case (Cons rng rngs)
  from register_spec [OF c Cons.prems(1) a, of rng] Cons.prems(2) obtain s1 where
    s1: "ta_register QuorumThreshold transaction_log c rng a s = Some s1" "ta_ok c s1" "ta_handler s1 = ta_handler s"
    "\<forall>l. tx_voters s1 l = (if in_range l rng then register_voters a (tx_voters s l) else tx_voters s l)" by auto
  have twice: "register_voters a (register_voters a V) = register_voters a V" for V by (cases V) auto
  from Cons.IH [OF s1(2)] Cons.prems(2) obtain s' where
    s': "try_each (\<lambda>rng. ta_register QuorumThreshold transaction_log c rng a) rngs s1 = Some s'" "ta_ok c s'"
    "ta_handler s' = ta_handler s1"
    "\<forall>l. tx_voters s' l = (if \<exists>rng \<in> set rngs. in_range l rng then register_voters a (tx_voters s1 l) else tx_voters s1 l)"
    by auto
  then show ?case using s1 twice by (intro exI [of _ s']) auto
qed simp

lemma range_locators_distinct: "distinct (range_locators rng)"
  by (auto simp: range_locators_def distinct_map inj_on_def)

lemma statement_spec:
  assumes c: "mc_ok c" and a: "a < mc_len c" and ok: "ta_ok c s" and st: "statement_counts st"
  defines "hit \<equiv> \<lambda>l. \<exists>rng. statement_range st = Some rng \<and> in_range l rng"
  shows "\<exists>s' ps. ta_statement QuorumThreshold transaction_log c a st (s, p) = Some (s', p @ ps) \<and> ta_ok c s' \<and>
     ta_handler s' = ta_handler s @ ps \<and> distinct ps \<and>
     (\<forall>l. l \<in> set ps \<longleftrightarrow> hit l \<and> quorum_with c a (tx_voters s l)) \<and>
     (\<forall>l. tx_voters s' l = (if hit l then vote_voters c a (tx_voters s l) else tx_voters s l))"
proof (cases "statement_range st")
  case None
  then have "ta_statement QuorumThreshold transaction_log c a st (s, p) = Some (s, p)"
    using st by (auto simp: statement_range_def statement_counts_def ta_statement_def split: base_statement.splits tx_vote.splits)
  then show ?thesis using None ok by (intro exI [of _ s] exI [of _ "[]"]) (simp add: hit_def)
next
  case (Some rng)
  then have run: "ta_statement QuorumThreshold transaction_log c a st (s, p) = ta_vote QuorumThreshold transaction_log c rng a (s, p)"
    by (auto simp: statement_range_def ta_statement_def split: base_statement.splits tx_vote.splits)
  have "offset_start_inclusive rng < offset_end_exclusive rng"
    using st Some by (auto simp: statement_counts_def statement_range_def split: base_statement.splits tx_vote.splits)
  from vote_spec [OF c ok a this, of p] obtain s' where
    s': "ta_vote QuorumThreshold transaction_log c rng a (s, p) =
      Some (s', p @ filter (\<lambda>l. quorum_with c a (tx_voters s l)) (range_locators rng))" "ta_ok c s'"
    "ta_handler s' = ta_handler s @ filter (\<lambda>l. quorum_with c a (tx_voters s l)) (range_locators rng)"
    "\<forall>l. tx_voters s' l = (if in_range l rng then vote_voters c a (tx_voters s l) else tx_voters s l)" by blast
  then show ?thesis
    using Some run range_locators_distinct [of rng] set_range_locators [of _ rng]
    by (intro exI [of _ s'] exI [of _ "filter (\<lambda>l. quorum_with c a (tx_voters s l)) (range_locators rng)"])
      (auto simp: hit_def)
qed

lemma vote_voters_twice:
  assumes "vote_voters c a V = W"
  shows "vote_voters c a W = W" "\<not> quorum_with c a W"
  using assms by (cases V; auto simp: quorum_with_def split: if_splits)+

lemma statements_spec:
  assumes c: "mc_ok c" and a: "a < mc_len c" and ok: "ta_ok c s" and sts: "list_all statement_counts sts"
  shows "\<exists>s' ps. try_each (ta_statement QuorumThreshold transaction_log c a) sts (s, p) = Some (s', p @ ps) \<and> ta_ok c s' \<and>
     ta_handler s' = ta_handler s @ ps \<and> distinct ps \<and>
     (\<forall>l. l \<in> set ps \<longleftrightarrow> (\<exists>st \<in> set sts. \<exists>rng. statement_range st = Some rng \<and> in_range l rng) \<and> quorum_with c a (tx_voters s l)) \<and>
     (\<forall>l. tx_voters s' l = (if \<exists>st \<in> set sts. \<exists>rng. statement_range st = Some rng \<and> in_range l rng
        then vote_voters c a (tx_voters s l) else tx_voters s l))"
  using ok sts
proof (induction sts arbitrary: s p)
  case (Cons st sts)
  let ?hit = "\<lambda>st l. \<exists>rng. statement_range st = Some rng \<and> in_range l rng"
  from statement_spec [OF c a Cons.prems(1), of st p] Cons.prems(2) obtain s1 p1 where
    s1: "ta_statement QuorumThreshold transaction_log c a st (s, p) = Some (s1, p @ p1)" "ta_ok c s1"
    "ta_handler s1 = ta_handler s @ p1" "distinct p1" "\<forall>l. l \<in> set p1 \<longleftrightarrow> ?hit st l \<and> quorum_with c a (tx_voters s l)"
    "\<forall>l. tx_voters s1 l = (if ?hit st l then vote_voters c a (tx_voters s l) else tx_voters s l)" by auto
  from Cons.IH [OF s1(2), of "p @ p1"] Cons.prems(2) obtain s' p2 where
    s': "try_each (ta_statement QuorumThreshold transaction_log c a) sts (s1, p @ p1) = Some (s', (p @ p1) @ p2)"
    "ta_ok c s'" "ta_handler s' = ta_handler s1 @ p2" "distinct p2"
    "\<forall>l. l \<in> set p2 \<longleftrightarrow> (\<exists>st \<in> set sts. ?hit st l) \<and> quorum_with c a (tx_voters s1 l)"
    "\<forall>l. tx_voters s' l = (if \<exists>st \<in> set sts. ?hit st l then vote_voters c a (tx_voters s1 l) else tx_voters s1 l)" by auto
  note twice = vote_voters_twice [OF refl, of c a]
  have "tx_voters s' l = (if \<exists>st \<in> set (st # sts). ?hit st l then vote_voters c a (tx_voters s l) else tx_voters s l)" for l
  proof (cases "?hit st l")
    case True
    then have "tx_voters s1 l = vote_voters c a (tx_voters s l)" using s1(6) by simp
    then show ?thesis using True s'(6) twice(1) by (metis list.set_intros(1))
  next
    case False
    have "tx_voters s1 l = tx_voters s l" using s1(6) [rule_format, of l] unfolding if_not_P [OF False] .
    then show ?thesis using False s'(6) by (metis set_ConsD list.set_intros(2))
  qed
  moreover have "l \<in> set (p1 @ p2) \<longleftrightarrow> (\<exists>st \<in> set (st # sts). ?hit st l) \<and> quorum_with c a (tx_voters s l)" for l
    using s1(5,6) s'(5) twice(2) by (cases "?hit st l") (auto simp del: vote_voters.simps)
  moreover have "distinct (p1 @ p2)"
  proof -
    have "l \<notin> set p2" if "l \<in> set p1" for l
    proof -
      have "tx_voters s1 l = vote_voters c a (tx_voters s l)" using s1(5,6) that by simp
      then show ?thesis using s'(5) twice(2) by simp
    qed
    then show ?thesis using s1(4) s'(4) by auto
  qed
  moreover have "try_each (ta_statement QuorumThreshold transaction_log c a) (st # sts) (s, p) = Some (s', p @ (p1 @ p2))"
    using s1(1) s'(1) by simp
  moreover have "ta_handler s' = ta_handler s @ (p1 @ p2)" using s1(3) s'(3) by simp
  ultimately show ?case using s'(2) by (intro exI [of _ s'] exI [of _ "p1 @ p2"]) blast
qed simp


text \<open>A block: its shares are registered, then its votes are counted.\<close>

definition block_voters :: "mcommittee \<Rightarrow> statement_block \<Rightarrow> transaction_locator \<Rightarrow> nat set option \<Rightarrow> nat set option" where
  "block_voters c b l V = (if shares b l then register_voters (block_author b) V else V)"

lemma process_block_spec:
  assumes c: "mc_ok c" and ok: "ta_ok c s" and b: "countable_block c b"
  shows "\<exists>s' ps. ta_process_block QuorumThreshold transaction_log c b response s =
       Some (ps, map_option (\<lambda>rs. rs @ map VoteRange (shared_ranges b)) response, s') \<and> ta_ok c s' \<and>
     ta_handler s' = ta_handler s @ ps \<and> distinct ps \<and>
     (\<forall>l. l \<in> set ps \<longleftrightarrow> votes_on b l \<and> quorum_with c (block_author b) (block_voters c b l (tx_voters s l))) \<and>
     (\<forall>l. tx_voters s' l = (if votes_on b l then vote_voters c (block_author b) (block_voters c b l (tx_voters s l))
        else block_voters c b l (tx_voters s l)))"
proof -
  have a: "block_author b < mc_len c" and len: "length (statements b) < 2 ^ 64"
    and sts: "list_all statement_counts (statements b)" using b by (simp_all add: countable_block_def)
  from register_all_spec [OF c a ok shared_ranges_spec(1) [OF len]] obtain s1 where
    s1: "try_each (\<lambda>rng. ta_register QuorumThreshold transaction_log c rng (block_author b)) (shared_ranges b) s = Some s1"
    "ta_ok c s1" "ta_handler s1 = ta_handler s"
    "\<forall>l. tx_voters s1 l = (if \<exists>rng \<in> set (shared_ranges b). in_range l rng
       then register_voters (block_author b) (tx_voters s l) else tx_voters s l)" by blast
  have s1': "tx_voters s1 l = block_voters c b l (tx_voters s l)" for l
    using s1(4) [rule_format, of l] unfolding shared_ranges_spec(2) [OF len] block_voters_def .
  from statements_spec [OF c a s1(2) sts, of "[]"] obtain s' ps where
    s': "try_each (ta_statement QuorumThreshold transaction_log c (block_author b)) (statements b) (s1, []) = Some (s', [] @ ps)"
    "ta_ok c s'" "ta_handler s' = ta_handler s1 @ ps" "distinct ps"
    "\<forall>l. l \<in> set ps \<longleftrightarrow> (\<exists>st \<in> set (statements b). \<exists>rng. statement_range st = Some rng \<and> in_range l rng) \<and>
       quorum_with c (block_author b) (tx_voters s1 l)"
    "\<forall>l. tx_voters s' l = (if \<exists>st \<in> set (statements b). \<exists>rng. statement_range st = Some rng \<and> in_range l rng
       then vote_voters c (block_author b) (tx_voters s1 l) else tx_voters s1 l)" by blast
  have "ta_process_block QuorumThreshold transaction_log c b response s =
      Some (ps, map_option (\<lambda>rs. rs @ map VoteRange (shared_ranges b)) response, s')"
    using s1(1) s'(1) by (simp add: ta_process_block_def)
  then show ?thesis
    using s'(2,3,4) s1(3) s'(5) [folded votes_on_def, unfolded s1'] s'(6) [folded votes_on_def, unfolded s1']
    by (intro exI [of _ s'] exI [of _ ps]) simp
qed

section \<open>Runs\<close>

text \<open>
  What reaches the aggregator of a node: blocks it processes, and its own proposals, of which it
  registers the shares only (\<open>handle_proposal\<close> of block_handler.rs).
\<close>

datatype ta_event = ProcessBlock statement_block | Proposal statement_block

fun event_block :: "ta_event \<Rightarrow> statement_block" where
  "event_block (ProcessBlock b) = b"
| "event_block (Proposal b) = b"

definition ta_propose :: "threshold_kind \<Rightarrow> 'h tx_handler \<Rightarrow> mcommittee \<Rightarrow> nat \<Rightarrow> statement_block \<Rightarrow>
    'h transaction_aggregator \<Rightarrow> 'h transaction_aggregator option" where
  "ta_propose th H c authority b = try_each (\<lambda>rng. ta_register th H c rng authority) (shared_ranges b)"

definition ta_event_step :: "threshold_kind \<Rightarrow> 'h tx_handler \<Rightarrow> mcommittee \<Rightarrow> nat \<Rightarrow> ta_event \<Rightarrow>
    'h transaction_aggregator \<Rightarrow> 'h transaction_aggregator option" where
  "ta_event_step th H c authority e s = (case e of
     ProcessBlock b \<Rightarrow> map_option (\<lambda>(_, _, s'). s') (ta_process_block th H c b None s)
   | Proposal b \<Rightarrow> ta_propose th H c authority b s)"

definition ta_run :: "mcommittee \<Rightarrow> nat \<Rightarrow> ta_event list \<Rightarrow> transaction_locator list transaction_aggregator option" where
  "ta_run c authority es = try_each (ta_event_step QuorumThreshold transaction_log c authority) es (ta_with_handler [])"

text \<open>Which authorities back a transaction, and when their stake makes it certified.\<close>

definition event_votes :: "ta_event \<Rightarrow> transaction_locator \<Rightarrow> bool" where
  "event_votes e l = (case e of ProcessBlock b \<Rightarrow> votes_on b l | Proposal _ \<Rightarrow> False)"

definition backers :: "ta_event list \<Rightarrow> transaction_locator \<Rightarrow> nat set" where
  "backers es l = {block_author (event_block e) | e. e \<in> set es \<and> event_votes e l}"

definition certified :: "mcommittee \<Rightarrow> ta_event list \<Rightarrow> transaction_locator \<Rightarrow> bool" where
  "certified c es l \<longleftrightarrow> (\<exists>xs e0 ys. es = xs @ e0 # ys \<and> shares (event_block e0) l \<and> backers (e0 # ys) l \<noteq> {} \<and>
     mc_has_quorum c (insert (block_author (event_block e0)) (backers (e0 # ys) l)))"

definition countable_events :: "mcommittee \<Rightarrow> nat \<Rightarrow> ta_event list \<Rightarrow> bool" where
  "countable_events c authority es \<longleftrightarrow> distinct (map (reference \<circ> event_block) es) \<and>
     list_all (\<lambda>e. countable_block c (event_block e)) es \<and>
     list_all (\<lambda>e. case e of Proposal b \<Rightarrow> block_author b = authority | _ \<Rightarrow> True) es"

lemma backers_simps [simp]:
  "backers [] l = {}"
  "backers (e # es) l = (if event_votes e l then insert (block_author (event_block e)) (backers es l) else backers es l)"
  "backers (xs @ ys) l = backers xs l \<union> backers ys l"
  by (auto simp: backers_def)

lemma backers_sub: "list_all (\<lambda>e. countable_block c (event_block e)) es \<Longrightarrow> backers es l \<subseteq> mc_members c"
  by (auto simp: backers_def list_all_iff countable_block_def mc_members_def)

text \<open>One event, seen from one transaction.\<close>

definition event_voters :: "mcommittee \<Rightarrow> ta_event \<Rightarrow> transaction_locator \<Rightarrow> nat set option \<Rightarrow> nat set option" where
  "event_voters c e l V = (if event_votes e l then vote_voters c (block_author (event_block e)) (block_voters c (event_block e) l V)
     else block_voters c (event_block e) l V)"

lemma event_step_spec:
  assumes c: "mc_ok c" and ok: "ta_ok c s" and b: "countable_block c (event_block e)"
    and own: "case e of Proposal b \<Rightarrow> block_author b = authority | _ \<Rightarrow> True"
  shows "\<exists>s' ps. ta_event_step QuorumThreshold transaction_log c authority e s = Some s' \<and> ta_ok c s' \<and>
     ta_handler s' = ta_handler s @ ps \<and> distinct ps \<and>
     (\<forall>l. l \<in> set ps \<longleftrightarrow> event_votes e l \<and>
        quorum_with c (block_author (event_block e)) (block_voters c (event_block e) l (tx_voters s l))) \<and>
     (\<forall>l. tx_voters s' l = event_voters c e l (tx_voters s l))"
proof (cases e)
  case (ProcessBlock b)
  from process_block_spec [OF c ok, of b None] b ProcessBlock obtain s' ps where
    "ta_process_block QuorumThreshold transaction_log c b None s = Some (ps, None, s')" "ta_ok c s'"
    "ta_handler s' = ta_handler s @ ps" "distinct ps"
    "\<forall>l. l \<in> set ps \<longleftrightarrow> votes_on b l \<and> quorum_with c (block_author b) (block_voters c b l (tx_voters s l))"
    "\<forall>l. tx_voters s' l = (if votes_on b l then vote_voters c (block_author b) (block_voters c b l (tx_voters s l))
        else block_voters c b l (tx_voters s l))" by auto
  then show ?thesis using ProcessBlock
    by (intro exI [of _ s'] exI [of _ ps]) (simp add: ta_event_step_def event_votes_def event_voters_def)
next
  case (Proposal b)
  have a: "block_author b < mc_len c" "block_author b = authority" and len: "length (statements b) < 2 ^ 64"
    using b own Proposal by (simp_all add: countable_block_def)
  from register_all_spec [OF c a(1) ok shared_ranges_spec(1) [OF len]] obtain s1 where
    s1: "ta_propose QuorumThreshold transaction_log c authority b s = Some s1"
    "ta_ok c s1" "ta_handler s1 = ta_handler s"
    "\<forall>l. tx_voters s1 l = (if \<exists>rng \<in> set (shared_ranges b). in_range l rng
       then register_voters (block_author b) (tx_voters s l) else tx_voters s l)"
    unfolding ta_propose_def a(2) by blast
  have "tx_voters s1 l = event_voters c e l (tx_voters s l)" for l
    using s1(4) [rule_format, of l] Proposal unfolding shared_ranges_spec(2) [OF len]
    by (simp add: event_voters_def event_votes_def block_voters_def)
  then show ?thesis using s1(1,2,3) Proposal
    by (intro exI [of _ s1] exI [of _ "[]"]) (simp add: ta_event_step_def event_votes_def)
qed


definition nobody_shares :: "ta_event list \<Rightarrow> transaction_locator \<Rightarrow> bool" where
  "nobody_shares es l \<longleftrightarrow> (\<forall>e \<in> set es. \<not> shares (event_block e) l)"

text \<open>What the aggregator has at a transaction after a run.\<close>

definition tally :: "mcommittee \<Rightarrow> ta_event list \<Rightarrow> transaction_locator \<Rightarrow> bool \<Rightarrow> nat set option \<Rightarrow> bool" where
  "tally c es l logged V \<longleftrightarrow> (nobody_shares es l \<and> \<not> logged \<and> V = None) \<or>
     (\<exists>xs e0 ys. es = xs @ e0 # ys \<and> shares (event_block e0) l \<and> nobody_shares xs l \<and> nobody_shares ys l \<and>
        (let W = insert (block_author (event_block e0)) (backers (e0 # ys) l);
             q = (backers (e0 # ys) l \<noteq> {} \<and> mc_has_quorum c W)
         in logged = q \<and> V = (if q then None else Some W)))"

lemma shared_once:
  assumes "es = xs @ e0 # ys" "nobody_shares xs l" "nobody_shares ys l" "es = xs' @ e' # ys'" "shares (event_block e') l"
  shows "xs' = xs \<and> e' = e0 \<and> ys' = ys"
proof -
  have "takeWhile (\<lambda>e. \<not> shares (event_block e) l) es = xs" if "shares (event_block e0) l"
    using assms(1,2) that by (simp add: nobody_shares_def takeWhile_append2)
  moreover have "e' \<in> set (xs @ e0 # ys)" using assms(1,4) by (metis in_set_conv_decomp)
  then have e': "e' = e0" "shares (event_block e0) l" using assms(2,3,5) by (auto simp: nobody_shares_def)
  have "e0 \<notin> set xs" "e0 \<notin> set ys" using e'(2) assms(2,3) by (auto simp: nobody_shares_def)
  then show ?thesis using assms(1,4) e'(1) by (metis append_Cons_eq_iff)
qed

lemma tally_certified:
  assumes "tally c es l logged V"
  shows "logged \<longleftrightarrow> certified c es l"
  using assms unfolding tally_def
proof (elim disjE conjE exE)
  assume "nobody_shares es l" "\<not> logged"
  then show ?thesis by (fastforce simp: certified_def nobody_shares_def)
next
  fix xs e0 ys
  assume es: "es = xs @ e0 # ys" "shares (event_block e0) l" "nobody_shares xs l" "nobody_shares ys l"
    and l: "let W = insert (block_author (event_block e0)) (backers (e0 # ys) l);
             q = (backers (e0 # ys) l \<noteq> {} \<and> mc_has_quorum c W)
         in logged = q \<and> V = (if q then None else Some W)"
  have "certified c es l \<longleftrightarrow> backers (e0 # ys) l \<noteq> {} \<and>
      mc_has_quorum c (insert (block_author (event_block e0)) (backers (e0 # ys) l))"
    unfolding certified_def using shared_once [OF es(1,3,4)] es(1,2) by metis
  then show ?thesis using l by (simp add: Let_def)
qed

lemma tally_step:
  assumes c: "mc_ok c" and t: "tally c es l logged V" and ok: "list_all (\<lambda>e. countable_block c (event_block e)) (es @ [e])"
    and fresh: "shares (event_block e) l \<Longrightarrow> nobody_shares es l"
  shows "tally c (es @ [e]) l
    (logged \<or> (event_votes e l \<and> quorum_with c (block_author (event_block e)) (block_voters c (event_block e) l V)))
    (event_voters c e l V)"
proof (cases "shares (event_block e) l")
  case True
  let ?a = "block_author (event_block e)"
  have no: "nobody_shares es l" using fresh [OF True] .
  with t have "\<not> logged" "V = None" by (auto simp: tally_def nobody_shares_def)
  with True no show ?thesis unfolding tally_def
    by (intro disjI2 exI [of _ es] exI [of _ e] exI [of _ "[]"])
      (auto simp: nobody_shares_def Let_def block_voters_def event_voters_def quorum_with_def)
next
  case False
  let ?a = "block_author (event_block e)"
  have bv: "block_voters c (event_block e) l W = W" for W using False by (simp add: block_voters_def)
  from t show ?thesis unfolding tally_def [of c es]
  proof (elim disjE conjE exE)
    assume "nobody_shares es l" "\<not> logged" "V = None"
    then show ?thesis using False
      by (auto simp: tally_def nobody_shares_def event_voters_def bv quorum_with_def)
  next
    fix xs e0 ys
    assume es: "es = xs @ e0 # ys" "shares (event_block e0) l" "nobody_shares xs l" "nobody_shares ys l"
      and l: "let W = insert (block_author (event_block e0)) (backers (e0 # ys) l);
             q = (backers (e0 # ys) l \<noteq> {} \<and> mc_has_quorum c W)
         in logged = q \<and> V = (if q then None else Some W)"
    define B where "B = backers (e0 # ys) l"
    define W where "W = insert (block_author (event_block e0)) B"
    define B' where "B' = backers (e0 # ys @ [e]) l"
    have B': "B' = (if event_votes e l then insert ?a B else B)" by (auto simp: B_def B'_def)
    have "insert ?a W \<subseteq> mc_members c"
      using ok backers_sub [of c "e0 # ys" l] unfolding es(1) W_def B_def
      by (auto simp: countable_block_def mc_members_def)
    then have mono: "mc_has_quorum c W \<Longrightarrow> mc_has_quorum c (insert ?a W)"
      using mc_has_quorum_mono [of c W "insert ?a W"] by blast
    have ne: "nobody_shares (ys @ [e]) l" using es(4) False by (auto simp: nobody_shares_def)
    have W': "insert (block_author (event_block e0)) B' = (if event_votes e l then insert ?a W else W)"
      unfolding B' W_def by auto
    have l': "logged \<longleftrightarrow> B \<noteq> {} \<and> mc_has_quorum c W" "V = (if logged then None else Some W)"
      using l unfolding Let_def B_def [symmetric] W_def [symmetric] by simp_all
    let ?q = "B' \<noteq> {} \<and> mc_has_quorum c (insert (block_author (event_block e0)) B')"
    have "(logged \<or> event_votes e l \<and> quorum_with c ?a V) = ?q"
      using l' mono unfolding W' unfolding B' by (auto simp: quorum_with_def)
    moreover have "event_voters c e l V = (if ?q then None else Some (insert (block_author (event_block e0)) B'))"
      using l' mono unfolding W' unfolding B' by (auto simp: event_voters_def bv)
    ultimately show ?thesis unfolding tally_def bv Let_def B'_def
      using es ne by (intro disjI2 exI [of _ xs] exI [of _ e0] exI [of _ "ys @ [e]"]) simp
  qed
qed


lemma run_tally:
  assumes c: "mc_ok c" and es: "countable_events c authority es"
  shows "\<exists>s. ta_run c authority es = Some s \<and> ta_ok c s \<and> distinct (ta_handler s) \<and>
     (\<forall>l. tally c es l (l \<in> set (ta_handler s)) (tx_voters s l))"
  using es
proof (induction es rule: rev_induct)
  case Nil
  show ?case by (auto simp: ta_run_def tally_def nobody_shares_def ta_with_handler_def [of "[]"]
      tx_voters_def tx_pending_def ta_ok_start [unfolded ta_with_handler_def])
next
  case (snoc e es)
  from snoc.prems have pre: "countable_events c authority es" and b: "countable_block c (event_block e)"
    and own: "case e of Proposal b \<Rightarrow> block_author b = authority | _ \<Rightarrow> True"
    and all: "list_all (\<lambda>e. countable_block c (event_block e)) (es @ [e])"
    by (auto simp: countable_events_def)
  have fresh: "nobody_shares es l" if "shares (event_block e) l" for l
  proof -
    have "reference (event_block e') \<noteq> reference (event_block e)" if "e' \<in> set es" for e'
      using snoc.prems that by (auto simp: countable_events_def image_iff)
    then show ?thesis using that unfolding nobody_shares_def shares_def by metis
  qed
  from snoc.IH [OF pre] obtain s where s: "ta_run c authority es = Some s" "ta_ok c s" "distinct (ta_handler s)"
    "\<forall>l. tally c es l (l \<in> set (ta_handler s)) (tx_voters s l)" by blast
  from event_step_spec [OF c s(2) b own] obtain s' ps where
    s': "ta_event_step QuorumThreshold transaction_log c authority e s = Some s'" "ta_ok c s'"
    "ta_handler s' = ta_handler s @ ps" "distinct ps"
    "\<forall>l. l \<in> set ps \<longleftrightarrow> event_votes e l \<and>
        quorum_with c (block_author (event_block e)) (block_voters c (event_block e) l (tx_voters s l))"
    "\<forall>l. tx_voters s' l = event_voters c e l (tx_voters s l)" by blast
  have run: "ta_run c authority (es @ [e]) = Some s'"
    using s(1) s'(1) by (simp add: ta_run_def try_each_append)
  have "tally c (es @ [e]) l (l \<in> set (ta_handler s')) (tx_voters s' l)" for l
    using tally_step [OF c s(4) [rule_format, of l] all fresh] unfolding s'(3,6) [rule_format]
    using s'(5) s'(6) by simp
  moreover have "distinct (ta_handler s')"
  proof -
    have "l \<notin> set (ta_handler s)" if "l \<in> set ps" for l
    proof
      assume "l \<in> set (ta_handler s)"
      then have "tx_voters s l = None" "\<not> shares (event_block e) l"
        using s(4) [rule_format, of l] fresh [of l] by (auto simp: tally_def nobody_shares_def Let_def split: if_splits)
      then show False using s'(5) that by (simp add: block_voters_def quorum_with_def)
    qed
    then show ?thesis using s(3) s'(3,4) by auto
  qed
  ultimately show ?case using run s'(2) by blast
qed

end
