(* ===== verification/MystiHandler.thy ===== *)
theory MystiHandler
  imports MystiTransactions MystiStore
begin

text \<open>
  Mysticeti: the block handlers of a validator (block_handler.rs). They feed client transactions into
  the core and count the votes on the transactions of blocks. The queue of the channel, the block
  store, the clock and the environment variable \<open>CONSENSUS_ONLY\<close> are arguments. \<open>None\<close> is a panic;
  the arithmetic is that of a release build.
\<close>

section \<open>The fast path\<close>

definition SOFT_MAX_PROPOSED_PER_BLOCK :: nat where
  "SOFT_MAX_PROPOSED_PER_BLOCK = 10 * 1000"

record fast_path_handler =
  fp_votes :: "transaction_locator list transaction_aggregator"
  fp_time :: "(transaction_locator, nat) hash_map"
  fp_receiver :: "mtransaction list list"
  fp_pending_transactions :: nat

record fast_path_env =
  fe_committee :: mcommittee
  fe_authority :: nat
  fe_consensus_only :: bool

definition fp_new :: fast_path_handler where
  "fp_new = \<lparr>fp_votes = ta_with_handler [], fp_time = [], fp_receiver = [], fp_pending_transactions = 0\<rparr>"

definition receive_with_limit :: "fast_path_handler \<Rightarrow> (mtransaction list \<times> fast_path_handler) option" where
  "receive_with_limit s =
     (if SOFT_MAX_PROPOSED_PER_BLOCK \<le> fp_pending_transactions s then None
      else case fp_receiver s of
        [] \<Rightarrow> None
      | received # rest \<Rightarrow> Some (received, s\<lparr>fp_receiver := rest,
          fp_pending_transactions := u64_add (fp_pending_transactions s) (length received)\<rparr>))"

function receive_all :: "base_statement list \<Rightarrow> fast_path_handler \<Rightarrow> base_statement list \<times> fast_path_handler" where
  "receive_all response s = (case receive_with_limit s of
     None \<Rightarrow> (response, s)
   | Some (data, s') \<Rightarrow> receive_all (response @ map Share data) s')"
  by pat_completeness auto

termination
  by (relation "measure (length \<circ> fp_receiver \<circ> snd)")
    (auto simp: receive_with_limit_def split: if_splits list.splits)

text \<open>\<open>update_metrics\<close> only panics: on a transaction that is too short for a time stamp.\<close>

definition certified_metrics :: "block_store \<Rightarrow> transaction_locator \<Rightarrow> unit option" where
  "certified_metrics st l = (case get_transaction st l of
     Some (Some tx) \<Rightarrow> if 8 \<le> length (tx_data tx) then Some () else None
   | _ \<Rightarrow> None)"

fun fp_blocks :: "fast_path_env \<Rightarrow> block_store \<Rightarrow> statement_block list \<Rightarrow> base_statement list option \<Rightarrow>
    transaction_locator list transaction_aggregator \<Rightarrow>
    (base_statement list option \<times> transaction_locator list transaction_aggregator) option" where
  "fp_blocks e st [] response votes = Some (response, votes)"
| "fp_blocks e st (b # bs) response votes =
     (if fe_consensus_only e then fp_blocks e st bs response votes
      else case ta_process_block QuorumThreshold transaction_log (fe_committee e) b response votes of
        None \<Rightarrow> None
      | Some (processed, response', votes') \<Rightarrow>
          (case try_each (\<lambda>l _. certified_metrics st l) processed () of
             None \<Rightarrow> None
           | Some _ \<Rightarrow> fp_blocks e st bs response' votes'))"

definition fp_handle_blocks :: "fast_path_env \<Rightarrow> block_store \<Rightarrow> statement_block list \<Rightarrow> bool \<Rightarrow> fast_path_handler \<Rightarrow>
    (base_statement list \<times> fast_path_handler) option" where
  "fp_handle_blocks e st blocks require_response s =
     (let (response, s1) = (if require_response then receive_all [] s else ([], s))
      in map_option (\<lambda>(response', votes). (case response' of None \<Rightarrow> response | Some r \<Rightarrow> r, s1\<lparr>fp_votes := votes\<rparr>))
           (fp_blocks e st blocks (if require_response then Some response else None) (fp_votes s1)))"

definition fp_handle_proposal :: "fast_path_env \<Rightarrow> nat \<Rightarrow> statement_block \<Rightarrow> fast_path_handler \<Rightarrow> fast_path_handler option" where
  "fp_handle_proposal e now b s =
     (let s1 = s\<lparr>fp_pending_transactions := u64_sub (fp_pending_transactions s) (length (shared_transactions b)),
          fp_time := fold (\<lambda>(l, _). AList.update l now) (shared_transactions b) (fp_time s)\<rparr>
      in if fe_consensus_only e then Some s1
         else map_option (\<lambda>votes. s1\<lparr>fp_votes := votes\<rparr>)
           (ta_propose QuorumThreshold transaction_log (fe_committee e) (fe_authority e) b (fp_votes s1)))"

text \<open>\<open>state\<close> and \<open>recover_state\<close>, for the decoded content of the bytes.\<close>

definition fp_state :: "fast_path_handler \<Rightarrow> (block_reference, stake_aggregator range_map) hash_map" where
  "fp_state s = ta_pending (fp_votes s)"

definition fp_recover_state :: "(block_reference, stake_aggregator range_map) hash_map \<Rightarrow> fast_path_handler \<Rightarrow>
    fast_path_handler option" where
  "fp_recover_state state s =
     (if ta_pending (fp_votes s) = [] then Some (s\<lparr>fp_votes := (fp_votes s)\<lparr>ta_pending := state\<rparr>\<rparr>) else None)"

definition fp_cleanup :: "nat \<Rightarrow> fast_path_handler \<Rightarrow> fast_path_handler" where
  "fp_cleanup now s = s\<lparr>fp_time := hm_retain (\<lambda>_ t. now - t < 10 * 10 ^ 9) (fp_time s)\<rparr>"

section \<open>The handler without votes\<close>

definition MAX_PROPOSED_PER_BLOCK :: nat where
  "MAX_PROPOSED_PER_BLOCK = 10000"

text \<open>The queue holds the transactions of clients; the result is the response and what stays queued.\<close>

fun simple_receive :: "base_statement list \<Rightarrow> bytes list \<Rightarrow> base_statement list \<times> bytes list" where
  "simple_receive response [] = (response, [])"
| "simple_receive response (tx_bytes # queue) =
     (let response' = response @ [Share (Transaction tx_bytes)]
      in if MAX_PROPOSED_PER_BLOCK \<le> length response' then (response', queue)
         else simple_receive response' queue)"

definition simple_handle_blocks :: "bool \<Rightarrow> bytes list \<Rightarrow> base_statement list \<times> bytes list" where
  "simple_handle_blocks require_response queue = (if require_response then simple_receive [] queue else ([], queue))"

lemma simple_receive_spec:
  "length response < MAX_PROPOSED_PER_BLOCK \<Longrightarrow> simple_receive response queue =
     (response @ map (Share \<circ> Transaction) (take (MAX_PROPOSED_PER_BLOCK - length response) queue),
      List.drop (MAX_PROPOSED_PER_BLOCK - length response) queue)"
proof (induction response queue rule: simple_receive.induct)
  case (2 response tx_bytes queue)
  show ?case
  proof (cases "MAX_PROPOSED_PER_BLOCK \<le> length (response @ [Share (Transaction tx_bytes)])")
    case True
    then have "MAX_PROPOSED_PER_BLOCK - length response = 1" using 2(2) by simp
    then show ?thesis using True by (simp add: Let_def)
  next
    case False
    then have "MAX_PROPOSED_PER_BLOCK - length response = Suc (MAX_PROPOSED_PER_BLOCK - Suc (length response))" by simp
    then show ?thesis using 2(1) [OF refl False] False by (simp add: Let_def)
  qed
qed simp

section \<open>Runs of the fast path\<close>

datatype fp_event =
    Arrive "mtransaction list"
  | HandleBlocks block_store "statement_block list" bool
  | HandleProposal nat statement_block
  | Cleanup nat

text \<open>The state of a run is the handler with the statements it has answered so far.\<close>

definition fp_step :: "fast_path_env \<Rightarrow> fp_event \<Rightarrow> base_statement list \<times> fast_path_handler \<Rightarrow>
    (base_statement list \<times> fast_path_handler) option" where
  "fp_step e ev = (\<lambda>(out, s). case ev of
     Arrive txs \<Rightarrow> Some (out, s\<lparr>fp_receiver := fp_receiver s @ [txs]\<rparr>)
   | HandleBlocks st bs require \<Rightarrow> map_option (\<lambda>(response, s'). (out @ response, s')) (fp_handle_blocks e st bs require s)
   | HandleProposal now b \<Rightarrow> map_option (Pair out) (fp_handle_proposal e now b s)
   | Cleanup now \<Rightarrow> Some (out, fp_cleanup now s))"

definition fp_run :: "fast_path_env \<Rightarrow> fp_event list \<Rightarrow> base_statement list \<times> fast_path_handler \<Rightarrow>
    (base_statement list \<times> fast_path_handler) option" where
  "fp_run e = try_each (fp_step e)"

definition arrivals :: "fp_event list \<Rightarrow> mtransaction list list" where
  "arrivals evs = List.map_filter (\<lambda>ev. case ev of Arrive txs \<Rightarrow> Some txs | _ \<Rightarrow> None) evs"

definition proposed_count :: "fp_event list \<Rightarrow> nat" where
  "proposed_count evs = sum_list (map (\<lambda>ev. case ev of HandleProposal _ b \<Rightarrow> length (shared_transactions b) | _ \<Rightarrow> 0) evs)"

text \<open>What the intake takes: whole batches from the front, only while the bound is not reached.\<close>

lemma receive_all_spec:
  assumes "receive_all response s = (response', s')"
  shows "\<exists>k. fp_receiver s' = List.drop k (fp_receiver s) \<and> response' = response @ map Share (concat (take k (fp_receiver s))) \<and>
     fp_votes s' = fp_votes s \<and> (fp_pending_transactions s' \<ge> SOFT_MAX_PROPOSED_PER_BLOCK \<or> fp_receiver s' = [])"
  using assms
proof (induction response s rule: receive_all.induct)
  case (1 response s)
  show ?case
  proof (cases "receive_with_limit s")
    case None
    then have "fp_pending_transactions s \<ge> SOFT_MAX_PROPOSED_PER_BLOCK \<or> fp_receiver s = []"
      by (auto simp: receive_with_limit_def split: if_splits list.splits)
    then show ?thesis using None 1(2) by (intro exI [of _ 0]) simp
  next
    case (Some p)
    then obtain data s1 where p: "receive_with_limit s = Some (data, s1)" by (cases p) auto
    then have s1: "fp_receiver s = data # fp_receiver s1" "fp_votes s1 = fp_votes s"
      by (auto simp: receive_with_limit_def split: if_splits list.splits)
    have "receive_all (response @ map Share data) s1 = (response', s')" using 1(2) p by simp
    from 1(1) [OF p refl this] obtain k where
      "fp_receiver s' = List.drop k (fp_receiver s1)"
      "response' = (response @ map Share data) @ map Share (concat (take k (fp_receiver s1)))"
      "fp_votes s' = fp_votes s1"
      "fp_pending_transactions s' \<ge> SOFT_MAX_PROPOSED_PER_BLOCK \<or> fp_receiver s' = []" by blast
    then show ?thesis using s1 by (intro exI [of _ "Suc k"]) simp
  qed
qed


lemma arrivals_simps [simp]:
  "arrivals [] = []" "arrivals (Arrive txs # evs) = txs # arrivals evs"
  "arrivals (HandleBlocks st bs req # evs) = arrivals evs" "arrivals (HandleProposal now b # evs) = arrivals evs"
  "arrivals (Cleanup now # evs) = arrivals evs"
  by (simp_all add: arrivals_def List.map_filter_simps)

lemma proposed_count_simps [simp]:
  "proposed_count [] = 0" "proposed_count (Arrive txs # evs) = proposed_count evs"
  "proposed_count (HandleBlocks st bs req # evs) = proposed_count evs"
  "proposed_count (HandleProposal now b # evs) = length (shared_transactions b) + proposed_count evs"
  "proposed_count (Cleanup now # evs) = proposed_count evs"
  by (simp_all add: proposed_count_def)

definition shared_of :: "base_statement list \<Rightarrow> mtransaction list" where
  "shared_of ss = List.map_filter (\<lambda>st. case st of Share tx \<Rightarrow> Some tx | _ \<Rightarrow> None) ss"

lemma shared_of_simps [simp]:
  "shared_of [] = []" "shared_of (xs @ ys) = shared_of xs @ shared_of ys"
  "shared_of (map Share txs) = txs" "shared_of (map VoteRange rs) = []"
proof -
  show "shared_of (map Share txs) = txs" "shared_of (map VoteRange rs) = []"
    by (induction txs; simp add: shared_of_def List.map_filter_simps) (induction rs; simp add: shared_of_def List.map_filter_simps)
qed (simp_all add: shared_of_def List.map_filter_def)

lemma fp_blocks_response:
  assumes "fp_blocks e st bs response votes = Some (response', votes')"
  shows "case response of None \<Rightarrow> response' = None
    | Some r \<Rightarrow> \<exists>r'. response' = Some r' \<and> shared_of r' = shared_of r"
  using assms
proof (induction bs arbitrary: response votes)
  case Nil
  then show ?case by (auto split: option.splits)
next
  case (Cons b bs)
  show ?case
  proof (cases "fe_consensus_only e")
    case True
    then show ?thesis using Cons by simp
  next
    case False
    with Cons.prems obtain processed response1 votes1 where
      p: "ta_process_block QuorumThreshold transaction_log (fe_committee e) b response votes = Some (processed, response1, votes1)"
      "fp_blocks e st bs response1 votes1 = Some (response', votes')"
      by (auto split: option.splits)
    have "response1 = map_option (\<lambda>rs. rs @ map VoteRange (shared_ranges b)) response"
      using p(1) by (auto simp: ta_process_block_def split: option.splits)
    then show ?thesis using Cons.IH [OF p(2)] by (cases response) auto
  qed
qed

lemma fp_handle_proposal_sel:
  assumes "fp_handle_proposal e now b s = Some s'"
  shows "fp_receiver s' = fp_receiver s"
    "fp_pending_transactions s' = u64_sub (fp_pending_transactions s) (length (shared_transactions b))"
  using assms by (auto simp: fp_handle_proposal_def Let_def split: if_splits)

lemma fp_handle_blocks_sel:
  assumes "fp_handle_blocks e st bs require s = Some (response, s')"
  shows "\<exists>k. fp_receiver s' = List.drop k (fp_receiver s) \<and> shared_of response = concat (take k (fp_receiver s))"
proof (cases require)
  case True
  obtain r1 s1 where r1: "receive_all [] s = (r1, s1)" by (cases "receive_all [] s")
  with assms True obtain response' votes where
    f: "fp_blocks e st bs (Some r1) (fp_votes s1) = Some (response', votes)" "s' = s1\<lparr>fp_votes := votes\<rparr>"
    "response = (case response' of None \<Rightarrow> r1 | Some r \<Rightarrow> r)"
    by (auto simp: fp_handle_blocks_def simp del: receive_all.simps)
  from receive_all_spec [OF r1] obtain k where
    k: "fp_receiver s1 = List.drop k (fp_receiver s)" "r1 = map Share (concat (take k (fp_receiver s)))" by auto
  then show ?thesis using fp_blocks_response [OF f(1)] f(2,3) by (intro exI [of _ k]) auto
next
  case False
  then obtain response' votes where
    f: "fp_blocks e st bs None (fp_votes s) = Some (response', votes)" "s' = s\<lparr>fp_votes := votes\<rparr>"
    "response = (case response' of None \<Rightarrow> [] | Some r \<Rightarrow> r)"
    using assms by (auto simp: fp_handle_blocks_def)
  then show ?thesis using fp_blocks_response [OF f(1)] by (intro exI [of _ 0]) simp
qed

text \<open>The transactions of clients go out in the order they came, each once.\<close>

lemma intake_fifo:
  assumes "fp_run e evs (out, s) = Some (out', s')"
  shows "\<exists>taken. shared_of out' = shared_of out @ taken \<and>
     taken @ concat (fp_receiver s') = concat (fp_receiver s) @ concat (arrivals evs)"
  using assms
proof (induction evs arbitrary: out s)
  case (Cons ev evs)
  from Cons.prems obtain out1 s1 where
    s1: "fp_step e ev (out, s) = Some (out1, s1)" "fp_run e evs (out1, s1) = Some (out', s')"
    by (auto simp: fp_run_def split: option.splits)
  from Cons.IH [OF s1(2)] obtain taken where
    t: "shared_of out' = shared_of out1 @ taken"
    "taken @ concat (fp_receiver s') = concat (fp_receiver s1) @ concat (arrivals evs)" by blast
  show ?case
  proof (cases ev)
    case (HandleBlocks st bs req)
    then obtain response where r: "fp_handle_blocks e st bs req s = Some (response, s1)" "out1 = out @ response"
      using s1(1) by (auto simp: fp_step_def)
    from fp_handle_blocks_sel [OF r(1)] obtain k where
      k: "fp_receiver s1 = List.drop k (fp_receiver s)" "shared_of response = concat (take k (fp_receiver s))" by blast
    have "concat (fp_receiver s) = concat (take k (fp_receiver s)) @ concat (List.drop k (fp_receiver s))"
      by (metis append_take_drop_id concat_append)
    then show ?thesis using t k r(2) HandleBlocks by (intro exI [of _ "shared_of response @ taken"]) simp
  qed (use s1(1) t in \<open>auto simp: fp_step_def fp_cleanup_def dest: fp_handle_proposal_sel\<close>)
qed (simp add: fp_run_def)

text \<open>With the counter at its bound or above nothing is taken.\<close>

lemma receive_all_stuck:
  "SOFT_MAX_PROPOSED_PER_BLOCK \<le> fp_pending_transactions s \<Longrightarrow> receive_all response s = (response, s)"
  by (simp add: receive_with_limit_def)

lemma fp_step_stuck:
  assumes "fp_step e ev (out, s) = Some (out', s')" "fp_pending_transactions s < 2 ^ 64"
    "proposed_count [ev] + SOFT_MAX_PROPOSED_PER_BLOCK \<le> fp_pending_transactions s"
  shows "fp_receiver s' = fp_receiver s @ arrivals [ev]"
    "fp_pending_transactions s' = fp_pending_transactions s - proposed_count [ev]"
proof -
  have "fp_receiver s' = fp_receiver s @ arrivals [ev] \<and>
      fp_pending_transactions s' = fp_pending_transactions s - proposed_count [ev]"
  proof (cases ev)
    case (HandleBlocks st bs req)
    then show ?thesis using assms receive_all_stuck [of s]
      by (auto simp: fp_step_def fp_handle_blocks_def simp del: receive_all.simps split: if_splits)
  next
    case (HandleProposal now b)
    then show ?thesis using assms
      by (auto simp: fp_step_def u64_sub_small dest: fp_handle_proposal_sel)
  qed (use assms(1) in \<open>auto simp: fp_step_def fp_cleanup_def\<close>)
  then show "fp_receiver s' = fp_receiver s @ arrivals [ev]"
    "fp_pending_transactions s' = fp_pending_transactions s - proposed_count [ev]" by simp_all
qed

lemma arrivals_Cons: "arrivals (ev # evs) = arrivals [ev] @ arrivals evs"
  by (cases ev) simp_all

lemma proposed_count_Cons: "proposed_count (ev # evs) = proposed_count [ev] + proposed_count evs"
  by (cases ev) simp_all

lemma fp_run_stuck:
  assumes "fp_run e evs (out, s) = Some (out', s')" "fp_pending_transactions s < 2 ^ 64"
    "proposed_count evs + SOFT_MAX_PROPOSED_PER_BLOCK \<le> fp_pending_transactions s"
  shows "fp_receiver s' = fp_receiver s @ arrivals evs"
  using assms
proof (induction evs arbitrary: out s)
  case (Cons ev evs)
  from Cons.prems(1) obtain out1 s1 where
    s1: "fp_step e ev (out, s) = Some (out1, s1)" "fp_run e evs (out1, s1) = Some (out', s')"
    by (auto simp: fp_run_def split: option.splits)
  have "proposed_count [ev] + SOFT_MAX_PROPOSED_PER_BLOCK \<le> fp_pending_transactions s"
    using Cons.prems(3) by (simp only: proposed_count_Cons [of ev evs])
  note st = fp_step_stuck [OF s1(1) Cons.prems(2) this]
  have "fp_receiver s' = fp_receiver s1 @ arrivals evs"
    using Cons.IH [OF s1(2)] st(2) Cons.prems(2,3) proposed_count_Cons [of ev evs] by linarith
  then show ?case unfolding st(1) arrivals_Cons [of ev evs] by simp
qed (simp add: fp_run_def)

end
