(* ===== verification/MystiHandlerProps.thy ===== *)
theory MystiHandlerProps
  imports MystiHandler MystiCoreSamples
begin

text \<open>
  Mysticeti: what the votes on transactions certify, what a rejecting vote and an empty range do, and
  what a restart does to the intake of client transactions, with concrete runs.
\<close>

section \<open>Certification\<close>

text \<open>
  C15: The aggregator works on ranges that it splits, registers and removes. In
  every run over blocks with distinct references and counted votes it never panics, and it certifies
  each transaction at most once, and exactly those whose sharing block and the later blocks that
  vote on it come from a quorum of authorities, at least one of them by a vote.
\<close>

theorem certified_exactly:
  assumes "mc_ok c" "countable_events c authority es"
  shows "\<exists>s. ta_run c authority es = Some s \<and> distinct (ta_handler s) \<and>
    (\<forall>l. l \<in> set (ta_handler s) \<longleftrightarrow> certified c es l)"
proof -
  from run_tally [OF assms] obtain s where "ta_run c authority es = Some s" "distinct (ta_handler s)"
    "\<forall>l. tally c es l (l \<in> set (ta_handler s)) (tx_voters s l)" by blast
  then show ?thesis using tally_certified by blast
qed

text \<open>Three transactions, a range of votes on all of them and one vote on the second.\<close>

definition plain_tx :: mtransaction where
  "plain_tx = Transaction (replicate 8 0)"

definition locator_of :: "nat \<Rightarrow> nat \<Rightarrow> transaction_locator" where
  "locator_of a k = \<lparr>tl_block = ref_of a 1, tl_offset = k\<rparr>"

definition range_of :: "nat \<Rightarrow> nat \<Rightarrow> nat \<Rightarrow> locator_range" where
  "range_of a lo hi = \<lparr>lr_block = ref_of a 1, offset_start_inclusive = lo, offset_end_exclusive = hi\<rparr>"

definition saying :: "nat \<Rightarrow> base_statement list \<Rightarrow> statement_block" where
  "saying a ss = (block_of a 1 [])\<lparr>statements := ss\<rparr>"

lemma saying_sel [simp]:
  "reference (saying a ss) = ref_of a 1" "block_author (saying a ss) = a" "statements (saying a ss) = ss"
  "block_includes (saying a ss) = []"
  by (simp_all add: saying_def block_of_def block_author_def)

definition fast_events :: "ta_event list" where
  "fast_events = [Proposal (saying 0 [Share plain_tx, Share plain_tx, Share plain_tx]),
     ProcessBlock (saying 1 [VoteRange (range_of 0 0 3)]), ProcessBlock (saying 2 [Vote (locator_of 0 1) Accept])]"

lemma fast_events_countable: "countable_events four 0 fast_events"
  by (simp add: countable_events_def fast_events_def countable_block_def four_sel statement_counts_def
      statement_range_def range_of_def locator_range_one_def locator_of_def u64_add_def)

lemma fast_events_certified: "certified four fast_events (locator_of 0 1)"
proof -
  have "mc_has_quorum four {0, 1, 2}" by code_simp
  moreover have "backers fast_events (locator_of 0 1) = {1, 2}"
    by (auto simp: fast_events_def event_votes_def votes_on_def statement_range_def in_range_def
        locator_of_def range_of_def locator_range_one_def u64_add_def)
  ultimately show ?thesis unfolding certified_def
    by (intro exI [of _ "[]"] exI [of _ "hd fast_events"] exI [of _ "tl fast_events"])
      (simp add: fast_events_def shares_def locator_of_def is_share_def)
qed

theorem certified_exactly_witness:
  "\<exists>s. ta_run four 0 fast_events = Some s \<and> distinct (ta_handler s) \<and> locator_of 0 1 \<in> set (ta_handler s)"
  using certified_exactly [OF four_ok fast_events_countable] fast_events_certified by blast

section \<open>Rejecting votes and empty ranges\<close>

text \<open>
  C16: A block with a vote that rejects a transaction passes \<open>verify\<close> when its
  includes and its signature do, so any authority can make one; the fast path handler of every node
  panics when it processes it, whatever its state.
\<close>

theorem rejecting_vote_panics:
  assumes "mc_ok c" "a < mc_len c" "0 < rnd" "\<not> fe_consensus_only e"
    and "\<forall>m. ed_verify cr (v_public_key (mc_authorities c ! a)) (sign m) m"
    and "\<forall>i \<in> set incs. br_authority i < mc_len c \<and> br_round i < rnd"
    and "mc_has_quorum c (br_authority ` {i \<in> set incs. br_round i = rnd - 1})"
    and "b = statement_block_with_signer cr sign a rnd incs [Vote l (Reject other)] time marker (mc_epoch c)"
  shows "verify cr c b = Ok () \<and> fp_handle_blocks e st [b] req s = None"
proof
  have "verified cr c b"
    using assms by (simp add: verified_def statement_block_with_signer_def statement_block_new_def block_author_def
        block_round_def block_digest_of_def verify_block_def ranges_ok_def parent_authorities_def)
  then show "verify cr c b = Ok ()" using verify_Ok_iff [OF assms(1)] by blast
  have "ta_process_block QuorumThreshold transaction_log (fe_committee e) b response votes = None" for response votes
    using assms(8) by (simp add: ta_process_block_def statement_block_with_signer_def statement_block_new_def
        ta_statement_def split: option.splits)
  then show "fp_handle_blocks e st [b] req s = None"
    using assms(4) by (simp add: fp_handle_blocks_def split_beta del: receive_all.simps)
qed

definition fast_env :: fast_path_env where
  "fast_env = \<lparr>fe_committee = four, fe_authority = 0, fe_consensus_only = False\<rparr>"

theorem rejecting_vote_panics_witness:
  "\<exists>b. verify trivial_crypto four b = Ok () \<and> fp_handle_blocks fast_env view_a [b] True fp_new = None"
proof -
  let ?incs = "[ref_of 0 0, ref_of 1 0, ref_of 2 0, ref_of 3 0]"
  have "br_authority ` {i \<in> set ?incs. br_round i = 1 - 1} = {0, 1, 2, 3}"
    by (auto simp: image_iff conj_disj_distribR ex_disj_distrib)
  moreover have "mc_has_quorum four {0, 1, 2, 3}" by code_simp
  ultimately have "mc_has_quorum four (br_authority ` {i \<in> set ?incs. br_round i = 1 - 1})" by simp
  from rejecting_vote_panics [OF four_ok, of 3 1 fast_env trivial_crypto "\<lambda>_. []" ?incs _ "locator_of 0 0" None 0 False,
      OF _ _ _ _ _ this refl]
  show ?thesis by (auto simp: fast_env_def trivial_crypto_def four_sel)
qed

text \<open>
  A range that holds no transaction passes \<open>verify\<close> too, but \<open>mutate_range\<close> takes the rest of the item
  it lies in: here authority 1 votes on the empty range from 1 to 1 of three transactions and counts for
  two of them.
\<close>

lemma no_quorum_3: "\<not> mc_has_quorum four {3}" "\<not> mc_has_quorum four {1, 3}"
  by code_simp+

lemma shares3: "shared_ranges (saying a [Share x, Share y, Share z]) = [range_of a 0 3]"
  by (simp add: shared_ranges_def is_share_def vrb_finish_def u64_add_def range_of_def)

lemma empty_range_votes:
  "range_verify (range_of 0 1 1) = Ok () \<and>
   (\<exists>s. ta_run four 3 [Proposal (saying 3 [Share plain_tx, Share plain_tx, Share plain_tx]),
       ProcessBlock (saying 1 [VoteRange (range_of 3 1 1)])] = Some s \<and>
     tx_voters s (locator_of 3 0) = Some {3} \<and> tx_voters s (locator_of 3 1) = Some {1, 3} \<and>
     tx_voters s (locator_of 3 2) = Some {1, 3})"
proof
  show "range_verify (range_of 0 1 1) = Ok ()"
    by (simp add: range_verify_def range_of_def range_len_def max_transactions_def u64_sub_def)
  have a: "3 < mc_len four" "1 < mc_len four" by (simp_all add: four_sel)
  from agg_add_quorum [OF four_ok agg_new_ok(1) a(1)] no_quorum_3 obtain x where
    x: "agg_add QuorumThreshold four 3 agg_new = Some (False, x)" "agg_ok four x" "agg_members x = {3}" by auto
  from agg_add_quorum [OF four_ok x(2) a(2)] obtain y where
    y': "agg_add QuorumThreshold four 1 x = Some (mc_has_quorum four (agg_members y), y)" "agg_members y = insert 1 (agg_members x)" .
  have y: "agg_add QuorumThreshold four 1 x = Some (False, y)" "agg_members y = {1, 3}"
    using y' x(3) no_quorum_3(2) by simp_all
  let ?r = "ref_of 3 1" and ?item = "\<lambda>lo hi v. (lo, \<lparr>ri_start = lo, ri_end = hi, ri_v = Some v\<rparr>)"
  have "mutate_range (register_range QuorumThreshold transaction_log four ?r 3) 0 3 [] [] = Some ([?item 0 3 x], [])"
    by (rule mutate_fresh) (simp_all add: register_range_def x(1))
  then have p: "ta_event_step QuorumThreshold transaction_log four 3
      (Proposal (saying 3 [Share plain_tx, Share plain_tx, Share plain_tx])) (ta_with_handler []) =
      Some \<lparr>ta_pending = [(?r, [?item 0 3 x])], ta_handler = []\<rparr>"
    by (simp add: ta_event_step_def ta_propose_def shares3 ta_register_def range_of_def ta_with_handler_def)
  have "mutate_range (vote_range QuorumThreshold transaction_log four ?r 1) 1 1 [?item 0 3 x] ([], []) =
      Some ([?item 0 1 x, ?item 1 3 y], ([], []))"
    by (rule mutate_empty_range) (simp_all add: vote_range_def y(1) [simplified])
  then have v: "ta_event_step QuorumThreshold transaction_log four 3 (ProcessBlock (saying 1 [VoteRange (range_of 3 1 1)]))
      \<lparr>ta_pending = [(?r, [?item 0 3 x])], ta_handler = []\<rparr> =
      Some \<lparr>ta_pending = [(?r, [?item 0 1 x, ?item 1 3 y])], ta_handler = []\<rparr>"
    by (simp add: ta_event_step_def ta_process_block_def shared_ranges_def is_share_def vrb_finish_def
        ta_statement_def ta_vote_def range_of_def)
  let ?s = "\<lparr>ta_pending = [(?r, [?item 0 1 x, ?item 1 3 y])], ta_handler = []\<rparr>"
  have "tx_voters ?s (locator_of 3 0) = Some {3}" "tx_voters ?s (locator_of 3 1) = Some {1, 3}"
    "tx_voters ?s (locator_of 3 2) = Some {1, 3}"
    using x(3) y(2) by (simp_all add: tx_voters_def tx_pending_def locator_of_def rm_lookup_def lower_bound_def)
  then show "\<exists>s. ta_run four 3 [Proposal (saying 3 [Share plain_tx, Share plain_tx, Share plain_tx]),
       ProcessBlock (saying 1 [VoteRange (range_of 3 1 1)])] = Some s \<and>
     tx_voters s (locator_of 3 0) = Some {3} \<and> tx_voters s (locator_of 3 1) = Some {1, 3} \<and>
     tx_voters s (locator_of 3 2) = Some {1, 3}"
    using p v by (simp add: ta_run_def)
qed

section \<open>The intake of client transactions\<close>

text \<open>
  C17: The handler counts the transactions it took from its clients and not yet
  proposed, but starts at 0 when it is created. If a proposal shares more than it counted, as the first
  one after a restart does with the payload restored from the log, the counter wraps and the handler
  takes nothing more: in every later run, until about \<open>2 ^ 64\<close> transactions are proposed, each batch
  that arrives stays in the queue.
\<close>

theorem restart_stops_intake:
  assumes "fp_handle_proposal e now b s = Some s1"
    and "fp_pending_transactions s < length (shared_transactions b)"
    and "length (shared_transactions b) + proposed_count evs \<le> 2 ^ 64 - SOFT_MAX_PROPOSED_PER_BLOCK"
    and "fp_run e evs (out, s1) = Some (out', s2)"
  shows "fp_receiver s2 = fp_receiver s @ arrivals evs"
proof -
  note sel = fp_handle_proposal_sel [OF assms(1)]
  have "fp_pending_transactions s1 < 2 ^ 64" "proposed_count evs + SOFT_MAX_PROPOSED_PER_BLOCK \<le> fp_pending_transactions s1"
    using assms(2,3) unfolding sel(2) u64_sub_def by (simp_all add: SOFT_MAX_PROPOSED_PER_BLOCK_def)
  from fp_run_stuck [OF assms(4) this] sel(1) show ?thesis by simp
qed

theorem restart_stops_intake_witness:
  "\<exists>s1 s2. fp_handle_proposal fast_env 0 (saying 0 [Share plain_tx, Share plain_tx, Share plain_tx]) fp_new = Some s1 \<and>
     fp_run fast_env [Arrive [plain_tx], HandleBlocks (bs_new four 0 (\<lambda>_. None)) [] True] ([], s1) = Some ([], s2) \<and>
     fp_receiver s2 = [[plain_tx]]"
proof -
  let ?b = "saying 0 [Share plain_tx, Share plain_tx, Share plain_tx]"
  have a: "0 < mc_len four" by (simp add: four_sel)
  from register_spec [OF four_ok ta_ok_start a, of "range_of 0 0 3" "[]"] obtain votes where
    "ta_register QuorumThreshold transaction_log four (range_of 0 0 3) 0 (ta_with_handler []) = Some votes"
    by (auto simp: range_of_def)
  then obtain s1 where s1: "fp_handle_proposal fast_env 0 ?b fp_new = Some s1"
    by (simp add: fp_handle_proposal_def fast_env_def Let_def ta_propose_def shares3 fp_new_def)
  have n: "length (shared_transactions ?b) = 3"
    by (simp add: shared_transactions_def List.map_filter_simps)
  then have wrap: "fp_pending_transactions s1 = 2 ^ 64 - 3"
    using fp_handle_proposal_sel(2) [OF s1] by (simp add: fp_new_def u64_sub_def)
  let ?evs = "[Arrive [plain_tx], HandleBlocks (bs_new four 0 (\<lambda>_. None)) [] True]"
  have run: "fp_run fast_env ?evs ([], s1) = Some ([], s1\<lparr>fp_receiver := fp_receiver s1 @ [[plain_tx]]\<rparr>)"
    using wrap by (simp add: fp_run_def fp_step_def fp_handle_blocks_def receive_all_stuck SOFT_MAX_PROPOSED_PER_BLOCK_def
        del: receive_all.simps)
  have "fp_receiver (s1\<lparr>fp_receiver := fp_receiver s1 @ [[plain_tx]]\<rparr>) = fp_receiver fp_new @ arrivals ?evs"
    by (rule restart_stops_intake [OF s1 _ _ run]) (simp_all add: n fp_new_def SOFT_MAX_PROPOSED_PER_BLOCK_def)
  then show ?thesis using s1 run by (auto simp: fp_new_def)
qed

end
