(* ===== verification/MystiSyncer.thy ===== *)
theory MystiSyncer
  imports MystiCoreRuns
begin

text \<open>
  Mysticeti: the syncer (syncer.rs), which drives the core, and the observer that sends the committed
  sub-dags to the application (\<open>SimpleCommitObserver\<close> of commit_observer.rs). The signals and the channel
  to the application are logs. \<open>None\<close> is a panic; sleeping, as the sluggish attack does, changes
  nothing here.
\<close>

section \<open>The commit observer\<close>

record commit_observer =
  co_interpreter :: linearizer
  co_sent :: "committed_sub_dag list"

definition observer_handle_commit :: "64 word \<Rightarrow> block_store \<Rightarrow> statement_block list \<Rightarrow> commit_observer \<Rightarrow>
    (committed_sub_dag list \<times> commit_observer) option" where
  "observer_handle_commit pid st leaders o' =
     map_option (\<lambda>(ds, lz). (ds, o'\<lparr>co_interpreter := lz, co_sent := co_sent o' @ ds\<rparr>))
       (lz_handle_commit pid st leaders (co_interpreter o'))"

text \<open>\<open>new\<close> with \<open>recover_committed\<close>.\<close>

definition observer_new :: "block_store \<Rightarrow> nat \<Rightarrow> commit_data list \<Rightarrow> commit_observer option" where
  "observer_new st last_sent_height sub_dags = (case lz_recover_state sub_dags lz_new of
     None \<Rightarrow> None
   | Some lz \<Rightarrow> map_option (\<lambda>ds. \<lparr>co_interpreter = lz, co_sent = ds\<rparr>)
       (those (map (sub_dag_from_commit_data st) (filter (\<lambda>cd. last_sent_height < cd_height cd) sub_dags))))"

section \<open>The syncer\<close>

datatype sync_signal = NewRound nat | NewBlockReady

record sync_env =
  se_core :: mcore_env
  se_commit_period :: nat
  se_process_id :: "64 word"
  se_commits_len :: "commit_data list \<Rightarrow> bytes \<Rightarrow> nat"

record syncer =
  sy_core :: mcore
  sy_force_new_block :: bool
  sy_observer :: commit_observer
  sy_signals :: "sync_signal list"

text \<open>
  What one call reads from outside: the clock, the creation time, the coins, what the block handler
  answers and its state, and the connected authorities.
\<close>

record sync_inputs =
  si_now :: nat
  si_time :: nat
  si_coins :: "nat \<Rightarrow> bool"
  si_payload :: "base_statement list"
  si_state :: bytes
  si_links :: authority_set

definition take_trigger :: "syncer \<Rightarrow> syncer" where
  "take_trigger s = (let (triggered, core) = mcore_take_force (sy_core s)
     in s\<lparr>sy_core := core, sy_force_new_block := (triggered \<or> sy_force_new_block s)\<rparr>)"

text \<open>The attackers of the certification race and the back-running attackers hurry.\<close>

definition attack_force :: "mcore_env \<Rightarrow> syncer \<Rightarrow> syncer" where
  "attack_force e s =
     (let role = role_of e (me_authority e);
          s1 = (if me_attack_mode e = ''certification_race'' \<and> role = FrontAttacker then take_trigger s else s)
      in if attack_type_from_env (me_attack_type e) \<in> {Backrun, Sandwich} \<and> role = BackAttacker
         then take_trigger s1 else s1)"

definition syncer_commit :: "sync_env \<Rightarrow> sync_inputs \<Rightarrow> syncer \<Rightarrow> syncer option" where
  "syncer_commit e i s =
     (case mcore_try_commit (se_core e) (sy_core s) of
        None \<Rightarrow> None
      | Some (leaders, core1) \<Rightarrow>
     (case observer_handle_commit (se_process_id e) (mo_store core1) leaders (sy_observer s) of
        None \<Rightarrow> None
      | Some (ds, obs) \<Rightarrow> map_option (\<lambda>(_, core2). s\<lparr>sy_core := core2, sy_observer := obs\<rparr>)
          (mcore_handle_committed (se_core e) (si_now i) (si_state i) [] (se_commits_len e) ds core1)))"

definition syncer_try_new_block :: "sync_env \<Rightarrow> sync_inputs \<Rightarrow> syncer \<Rightarrow> syncer option" where
  "syncer_try_new_block e i s0 =
     (let s = attack_force (se_core e) s0
      in case (if sy_force_new_block s then Some True
               else mcore_ready (se_core e) (se_commit_period e) (si_links i) (sy_core s)) of
        None \<Rightarrow> None
      | Some False \<Rightarrow> Some s
      | Some True \<Rightarrow>
     (case mcore_try_new_block (se_core e) (si_now i) (si_time i) (si_coins i) (sy_core s) of
        None \<Rightarrow> None
      | Some (None, core) \<Rightarrow> Some (s\<lparr>sy_core := core\<rparr>)
      | Some (Some b, core) \<Rightarrow>
          if sy_force_new_block s \<and> mcore_leaders (se_core e) (last_proposed core - 1) = None then None
          else (let s1 = s\<lparr>sy_core := core, sy_signals := sy_signals s @ [NewBlockReady], sy_force_new_block := False\<rparr>
                in if em_closed (cs_epoch_manager (mo_commit core)) then Some s1 else syncer_commit e i s1)))"

text \<open>\<open>add_blocks\<close>: what happens before \<open>try_new_block\<close>, and the whole.\<close>

definition syncer_receive :: "sync_env \<Rightarrow> sync_inputs \<Rightarrow> statement_block list \<Rightarrow> syncer \<Rightarrow>
    (block_reference list \<times> syncer) option" where
  "syncer_receive e i bs s = map_option (\<lambda>(missing, core). (missing, s\<lparr>sy_core := core,
       sy_signals := (if tc_round (mo_clock (sy_core s)) < tc_round (mo_clock core)
         then sy_signals s @ [NewRound (tc_round (mo_clock core))] else sy_signals s)\<rparr>))
     (mcore_add_blocks (se_core e) (si_now i) (si_payload i) bs (sy_core s))"

definition syncer_add_blocks :: "sync_env \<Rightarrow> sync_inputs \<Rightarrow> statement_block list \<Rightarrow> syncer \<Rightarrow>
    (block_reference list \<times> syncer) option" where
  "syncer_add_blocks e i bs s = (case syncer_receive e i bs s of
     None \<Rightarrow> None | Some (missing, s1) \<Rightarrow> map_option (Pair missing) (syncer_try_new_block e i s1))"

definition syncer_force_new_block :: "sync_env \<Rightarrow> sync_inputs \<Rightarrow> nat \<Rightarrow> syncer \<Rightarrow> (bool \<times> syncer) option" where
  "syncer_force_new_block e i rnd s =
     (if last_proposed (sy_core s) < rnd
      then map_option (Pair True) (syncer_try_new_block e i (s\<lparr>sy_force_new_block := True\<rparr>))
      else Some (False, s))"

text \<open>
  Starting on an empty log, and restarting on the log written: \<open>BlockStore::open\<close> gives the core and
  the observer what they recover.
\<close>

definition recovered_sub_dags :: "mcore_env \<Rightarrow> (nat \<times> wal_entry) list \<Rightarrow> commit_data list option" where
  "recovered_sub_dags e wal = map_option (\<lambda>(_, r). sb_sub_dags r)
     (replay_log wal (bs_new (me_committee e) (me_authority e) (log_read wal), sb_new))"

definition syncer_new :: "mcore \<Rightarrow> commit_observer \<Rightarrow> syncer" where
  "syncer_new core obs = \<lparr>sy_core = core, sy_force_new_block = False, sy_observer = obs, sy_signals = []\<rparr>"

definition syncer_open :: "mcore_env \<Rightarrow> (nat \<times> wal_entry) list \<Rightarrow> nat \<Rightarrow> mcore option \<Rightarrow> syncer option" where
  "syncer_open e wal last_sent_height opened = (case opened of
     None \<Rightarrow> None
   | Some core \<Rightarrow> (case recovered_sub_dags e wal of
       None \<Rightarrow> None
     | Some sub_dags \<Rightarrow> map_option (syncer_new core) (observer_new (mo_store core) last_sent_height sub_dags)))"

definition syncer_start :: "sync_env \<Rightarrow> sync_inputs \<Rightarrow> syncer option" where
  "syncer_start e i = syncer_open (se_core e) [] 0 (mcore_start (se_core e) (si_now i))"

definition syncer_restart :: "sync_env \<Rightarrow> sync_inputs \<Rightarrow> nat \<Rightarrow> syncer \<Rightarrow> syncer option" where
  "syncer_restart e i last_sent_height s = syncer_open (se_core e) (mo_wal (sy_core s)) last_sent_height
     (mcore_restart (se_core e) (si_now i) (si_payload i) (sy_core s))"

section \<open>What the log says of the commits\<close>

fun logged_commits :: "(nat \<times> wal_entry) list \<Rightarrow> commit_data list" where
  "logged_commits [] = []"
| "logged_commits ((_, CommitEntry cds _) # wal) = cds @ logged_commits wal"
| "logged_commits (_ # wal) = logged_commits wal"

lemma logged_commits_append [simp]: "logged_commits (xs @ ys) = logged_commits xs @ logged_commits ys"
  by (induction xs rule: logged_commits.induct) simp_all

lemma commit_heights_logged: "commit_heights wal = map cd_height (logged_commits wal)"
  by (induction wal rule: logged_commits.induct) simp_all

lemma sb_commit_loop_sub_dags: "sb_commit_loop cds r = Some r' \<Longrightarrow> sb_sub_dags r' = sb_sub_dags r @ cds"
  by (induction cds arbitrary: r) (auto split: if_splits)

lemma replay_sub_dags: "replay_sb wal r = Some r' \<Longrightarrow> sb_sub_dags r' = sb_sub_dags r @ logged_commits wal"
proof (induction wal arbitrary: r)
  case (Cons x wal)
  obtain pos en where x: "x = (pos, en)" by (cases x)
  from Cons.prems obtain r1 where r1: "sb_step pos en r = Some r1" "replay_sb wal r1 = Some r'"
    by (auto simp: x split: option.splits)
  from Cons.IH [OF r1(2)] r1(1) show ?case
    by (cases en) (auto simp: x sb_step_def sb_block_def sb_payload_def sb_own_block_def sb_state_entry_def
        sb_commit_data_def dest: sb_commit_loop_sub_dags)
qed simp

text \<open>The heights are 1, 2, 3 and so on.\<close>

lemma upt_join: "i \<le> j \<Longrightarrow> j \<le> k \<Longrightarrow> [i..<j] @ [j..<k] = [i..<k]"
  using upt_add_eq_append [of i j "k - j"] by simp

lemma handle_commit_heights:
  "lz_handle_commit pid st ls lz = Some (ds, lz') \<Longrightarrow>
     map sd_height ds = [Suc (lz_last_height lz) ..< Suc (lz_last_height lz')] \<and> lz_last_height lz \<le> lz_last_height lz'"
proof (induction ls arbitrary: lz ds)
  case (Cons l ls)
  from Cons.prems obtain d lz1 ds1 where
    d: "collect_sub_dag st l lz = Some (d, lz1)" "lz_handle_commit pid st ls lz1 = Some (ds1, lz')"
    "ds = sub_dag_sort pid d # ds1" by (auto split: option.splits)
  have h: "sd_height d = Suc (lz_last_height lz)" "lz_last_height lz1 = Suc (lz_last_height lz)"
    using d(1) by (auto simp: collect_sub_dag_def Let_def split: if_splits option.splits)
  from Cons.IH [OF d(2)] h d(3) show ?case by (simp add: upt_conv_Cons)
qed simp

text \<open>What the log holds of the commits, against the height the linearizer has reached.\<close>

definition commit_data_ok :: "(nat \<times> wal_entry) list \<Rightarrow> commit_data \<Rightarrow> bool" where
  "commit_data_ok wal cd \<longleftrightarrow> cd_leader cd \<in> set (cd_sub_dag cd) \<and>
     set (cd_sub_dag cd) \<subseteq> (reference \<circ> snd) ` set (wal_blocks wal)"

definition commits_logged :: "(nat \<times> wal_entry) list \<Rightarrow> nat \<Rightarrow> bool" where
  "commits_logged wal n \<longleftrightarrow> map cd_height (logged_commits wal) = [1..<Suc n] \<and>
     (\<forall>cd \<in> set (logged_commits wal). commit_data_ok wal cd)"

lemma commit_data_ok_mono: "commit_data_ok wal cd \<Longrightarrow> commit_data_ok (wal @ rest) cd"
  by (auto simp: commit_data_ok_def)

lemma commits_logged_more: "commits_logged wal n \<Longrightarrow> logged_commits rest = [] \<Longrightarrow> commits_logged (wal @ rest) n"
  by (simp add: commits_logged_def commit_data_ok_mono)

text \<open>The blocks of a sub-dag are in the store, the leader among them.\<close>

lemma push_includes_holds:
  "store_wf st \<Longrightarrow> push_includes st C buf rs = Some (C', buf') \<Longrightarrow> \<forall>b \<in> set buf. bs_holds st b \<Longrightarrow>
     set buf \<subseteq> set buf' \<and> (\<forall>b \<in> set buf'. bs_holds st b)"
proof (induction st C buf rs rule: push_includes.induct)
  case (2 st C buf r rs)
  then obtain b where b: "get_block st r = Some (Some b)" by (auto split: option.splits)
  have "bs_holds st b" using get_block_wf [OF 2(3)] b bs_holds_lookup [OF 2(3)] by auto
  then show ?case using 2 b by (auto split: if_splits)
qed simp

lemma collect_loop_holds:
  "store_wf st \<Longrightarrow> collect_loop st C buf acc = Some (acc', C') \<Longrightarrow> \<forall>b \<in> set (buf @ acc). bs_holds st b \<Longrightarrow>
     set (buf @ acc) \<subseteq> set acc' \<and> (\<forall>b \<in> set acc'. bs_holds st b)"
proof (induction st C buf acc rule: collect_loop.induct)
  case (2 st C x buf acc)
  from 2(3) obtain C1 buf1 where p: "push_includes st C buf (block_includes x) = Some (C1, buf1)"
    "collect_loop st C1 buf1 (acc @ [x]) = Some (acc', C')" by (auto split: option.splits)
  have "set buf \<subseteq> set buf1 \<and> (\<forall>b \<in> set buf1. bs_holds st b)"
    using push_includes_holds [OF 2(2) p(1)] 2(4) by auto
  then have pre: "\<forall>b \<in> set (buf1 @ acc @ [x]). bs_holds st b" using 2(4) by auto
  have "set (x # buf @ acc) \<subseteq> set (buf1 @ acc @ [x])" using \<open>set buf \<subseteq> set buf1 \<and> _\<close> by auto
  then show ?case using 2(1) [OF p(1) refl 2(2) p(2) pre] by (simp only: append_Cons) blast
qed simp

lemma handle_commit_holds:
  "store_wf st \<Longrightarrow> lz_handle_commit pid st ls lz = Some (ds, lz') \<Longrightarrow> \<forall>l \<in> set ls. bs_holds st l \<Longrightarrow>
     \<forall>d \<in> set ds. sd_anchor d \<in> reference ` set (sd_blocks d) \<and> (\<forall>b \<in> set (sd_blocks d). bs_holds st b)"
proof (induction ls arbitrary: lz ds)
  case (Cons l ls)
  from Cons.prems(2) obtain d lz1 ds1 where
    d: "collect_sub_dag st l lz = Some (d, lz1)" "lz_handle_commit pid st ls lz1 = Some (ds1, lz')"
    "ds = sub_dag_sort pid d # ds1" by (auto split: option.splits)
  from d(1) obtain C' where c: "collect_loop st (insert (reference l) (lz_committed lz)) [l] [] = Some (sd_blocks d, C')"
    "sd_anchor d = reference l"
    by (auto simp: collect_sub_dag_def Let_def split: if_splits option.splits)
  from collect_loop_holds [OF Cons.prems(1) c(1)] Cons.prems(3)
  have "l \<in> set (sd_blocks d)" "\<forall>b \<in> set (sd_blocks d). bs_holds st b" by auto
  then show ?case using Cons.IH [OF Cons.prems(1) d(2)] Cons.prems(3) c(2) d(3) by auto
qed simp

text \<open>Committed leaders are in the store.\<close>

lemma filter_opt_sub: "filter_opt P xs = Some ys \<Longrightarrow> set ys \<subseteq> set xs"
  by (induction xs arbitrary: ys) (auto split: option.splits if_splits)

lemma slot_holds:
  assumes "store_wf st" "get_blocks_at_authority_round st a n = Some bs" "b \<in> set bs"
  shows "bs_holds st b"
  using get_blocks_at_slot_spec [OF assms(1), of a n] assms(2,3) by (auto simp: bs_holds_def)

lemma decided_holds:
  assumes wf: "store_wf st"
  shows "decide_leader_from_anchor bc st anchor leader = Some (Commit b) \<Longrightarrow> bs_holds st b"
    "try_direct_decide bc st leader = Some (Commit b) \<Longrightarrow> bs_holds st b"
  by (auto simp: decide_leader_from_anchor_def try_direct_decide_def
      split: option.splits if_splits list.splits bool.splits dest!: filter_opt_sub intro: slot_holds [OF wf])

lemma anchor_loop_holds: "store_wf st \<Longrightarrow> anchor_loop bc st leader as = Some (Commit b) \<Longrightarrow> bs_holds st b"
  by (induction bc st leader as rule: anchor_loop.induct) (auto intro: decided_holds)

lemma decide_one_holds:
  assumes "store_wf st" "decide_one bc st leader leaders = Some (Commit b, d)"
  shows "bs_holds st b"
  using assms decided_holds(2) [OF assms(1)] anchor_loop_holds [OF assms(1)]
  by (auto simp: decide_one_def try_indirect_decide_def split: option.splits if_splits)

lemma decide_slots_holds:
  "store_wf st \<Longrightarrow> decide_slots w st last_decided slots leaders = Some leaders' \<Longrightarrow>
     \<forall>b d. (Commit b, d) \<in> set leaders \<longrightarrow> bs_holds st b \<Longrightarrow> \<forall>b d. (Commit b, d) \<in> set leaders' \<longrightarrow> bs_holds st b"
proof (induction w st last_decided slots leaders rule: decide_slots.induct)
  case (2 w st last_decided rnd bc rest leaders)
  show ?case
  proof (cases "bc_elect_leader w bc rnd")
    case (Some l)
    show ?thesis
    proof (cases l)
      case None
      then show ?thesis using 2(1) [OF Some None 2(3)] 2(4,5) Some by simp
    next
      case (Some leader)
      note el = \<open>bc_elect_leader w bc rnd = Some l\<close> Some
      show ?thesis
      proof (cases "leader = last_decided")
        case True
        then show ?thesis using 2(4,5) el by simp
      next
        case False
        then obtain x where x: "decide_one bc st leader leaders = Some x"
          "decide_slots w st last_decided rest (x # leaders) = Some leaders'"
          using 2(4) el by (auto split: option.splits)
        have "\<forall>b d. (Commit b, d) \<in> set (x # leaders) \<longrightarrow> bs_holds st b"
          using 2(5) decide_one_holds [OF 2(3)] x(1) by auto
        then show ?thesis using 2(2) [OF el False x(1) 2(3) x(2)] by blast
      qed
    qed
  qed (use 2 in simp)
qed simp

lemma try_commit_holds:
  assumes wf: "store_wf st" and run: "core_try_commit w cs st k = Some (bs, k')"
  shows "\<forall>b \<in> set bs. bs_holds st b"
proof
  fix b assume b: "b \<in> set bs"
  from run obtain sequence where seq: "uc_try_commit w cs st (cs_last_decided k) = Some sequence"
    by (auto simp: core_try_commit_def split: option.splits)
  from core_try_commit_spec [OF seq] run have "bs = List.map_filter commit_of sequence" by auto
  then have "Commit b \<in> set sequence"
    using b by (auto simp: List.map_filter_def elim!: commit_of.elims)
  moreover obtain leaders where
    l: "decide_slots w st (cs_last_decided k) (uc_slots cs (ar_round (cs_last_decided k)) (bs_highest_round st - 2)) [] = Some leaders"
    "sequence = takeWhile is_decided (filter (\<lambda>s. 0 < ls_round s) (map fst leaders))"
    using seq by (auto simp: uc_try_commit_def)
  ultimately have "Commit b \<in> fst ` set leaders" by (auto dest: set_takeWhileD)
  then show "bs_holds st b" using decide_slots_holds [OF wf l(1)] by force
qed

section \<open>Recovering the observer\<close>

lemma recover_loop_returns:
  "map cd_height cds = [Suc (lz_last_height lz)..<Suc n] \<Longrightarrow> lz_last_height lz \<le> n \<Longrightarrow>
     \<forall>cd \<in> set cds. cd_leader cd \<in> set (cd_sub_dag cd) \<Longrightarrow>
     \<exists>lz'. recover_loop cds lz = Some lz' \<and> lz_last_height lz' = n"
proof (induction cds arbitrary: lz)
  case Nil
  then have "lz_last_height lz = n" by (cases "lz_last_height lz < n") auto
  then show ?case by simp
next
  case (Cons cd cds)
  have less: "lz_last_height lz < n"
  proof (rule ccontr)
    assume "\<not> lz_last_height lz < n"
    then show False using Cons.prems(1,2) by simp
  qed
  then have "[Suc (lz_last_height lz)..<Suc n] = Suc (lz_last_height lz) # [Suc (Suc (lz_last_height lz))..<Suc n]"
    by (simp add: upt_conv_Cons)
  with Cons.prems(1) have h: "cd_height cd = Suc (lz_last_height lz)"
    "map cd_height cds = [Suc (Suc (lz_last_height lz))..<Suc n]" by simp_all
  let ?lz = "\<lparr>lz_committed = lz_committed lz \<union> set (cd_sub_dag cd), lz_last_height = cd_height cd\<rparr>"
  from Cons.IH [of ?lz] h less Cons.prems(3) obtain lz' where
    "recover_loop cds ?lz = Some lz'" "lz_last_height lz' = n" by auto
  then show ?case using h(1) Cons.prems(3) by (simp add: Let_def)
qed

lemma those_map_Some: "\<forall>x \<in> set xs. f x = Some (g x) \<Longrightarrow> those (map f xs) = Some (map g xs)"
  by (induction xs) auto

text \<open>What is sent again is what was sent.\<close>

lemma sub_dag_restored:
  assumes wf: "store_wf st" and l: "cd_leader cd \<in> set (cd_sub_dag cd)" and sub: "set (cd_sub_dag cd) \<subseteq> stored st"
  shows "\<exists>d. sub_dag_from_commit_data st cd = Some d \<and> commit_data_of d = cd"
proof -
  have "\<forall>r \<in> set (cd_sub_dag cd). \<exists>b. block_at st r = Some b \<and> reference b = r"
  proof
    fix r assume "r \<in> set (cd_sub_dag cd)"
    then obtain b where "block_at st r = Some b" using sub stored_iff [OF wf] by blast
    then show "\<exists>b. block_at st r = Some b \<and> reference b = r" using bs_holds_lookup [OF wf, of r b] by simp
  qed
  then obtain g where at: "\<forall>r \<in> set (cd_sub_dag cd). block_at st r = Some (g r) \<and> reference (g r) = r"
    using bchoice by metis
  have blocks: "those (map (\<lambda>r. case get_block st r of Some (Some b) \<Rightarrow> Some b | _ \<Rightarrow> None) (cd_sub_dag cd)) =
      Some (map g (cd_sub_dag cd))"
    by (rule those_map_Some) (simp add: at get_block_wf [OF wf])
  let ?ls = "filter (\<lambda>(r, b). r = cd_leader cd) (zip (cd_sub_dag cd) (map g (cd_sub_dag cd)))"
  have mem: "(r, b) \<in> set ?ls \<longleftrightarrow> r = cd_leader cd \<and> b = g r \<and> r \<in> set (cd_sub_dag cd)" for r b
    by (auto simp: zip_map2 zip_same_conv_map)
  then have ne: "?ls \<noteq> []" using l by (metis emptyE set_empty)
  then have "last ?ls \<in> set ?ls" by (rule last_in_set)
  then have last: "snd (last ?ls) = g (cd_leader cd)" using mem by (metis prod.collapse)
  obtain x xs where xs: "?ls = x # xs" using ne by (cases ?ls) auto
  have "map (\<lambda>r. reference (g r)) (cd_sub_dag cd) = cd_sub_dag cd"
    using at by (simp add: map_idI)
  then show ?thesis
    using blocks xs last at l
    by (simp add: sub_dag_from_commit_data_def commit_data_of_def Let_def comp_def)
qed

lemma observer_new_spec:
  assumes wf: "store_wf st" and heights: "map cd_height cds = [1..<Suc n]"
    and ok: "\<forall>cd \<in> set cds. cd_leader cd \<in> set (cd_sub_dag cd) \<and> set (cd_sub_dag cd) \<subseteq> stored st"
  shows "\<exists>obs. observer_new st h cds = Some obs \<and> lz_last_height (co_interpreter obs) = n \<and>
     map commit_data_of (co_sent obs) = filter (\<lambda>cd. h < cd_height cd) cds"
proof -
  have "map cd_height cds = [Suc (lz_last_height lz_new)..<Suc n]" using heights by (simp add: lz_new_def)
  from recover_loop_returns [OF this] ok obtain lz where lz: "recover_loop cds lz_new = Some lz" "lz_last_height lz = n"
    by (auto simp: lz_new_def)
  let ?cds = "filter (\<lambda>cd. h < cd_height cd) cds" and ?g = "\<lambda>cd. the (sub_dag_from_commit_data st cd)"
  have g: "\<forall>cd \<in> set ?cds. sub_dag_from_commit_data st cd = Some (?g cd) \<and> commit_data_of (?g cd) = cd"
    using ok sub_dag_restored [OF wf] by fastforce
  then have "those (map (sub_dag_from_commit_data st) ?cds) = Some (map ?g ?cds)"
    by (intro those_map_Some) blast
  moreover have "map commit_data_of (map ?g ?cds) = ?cds" unfolding map_map comp_def by (rule map_idI) (use g in blast)
  ultimately show ?thesis using lz
    by (simp add: observer_new_def lz_recover_state_def lz_new_def del: map_map)
qed


section \<open>Runs\<close>

text \<open>
  A proposal fits when the positions of the log fit 64 bits and no block seen refers to it. A run
  knows up to which height the application had received sub-dags at the last restart, and the blocks
  made. The application has received no more than was sent.
\<close>

definition proposal_fits :: "sync_env \<Rightarrow> sync_inputs \<Rightarrow> syncer \<Rightarrow> bool" where
  "proposal_fits e i s \<longleftrightarrow> (let core = sy_core (attack_force (se_core e) s) in mo_end core < 2 ^ 64 \<and>
     (\<forall>b core'. mcore_try_new_block (se_core e) (si_now i) (si_time i) (si_coins i) core = Some (Some b, core') \<longrightarrow>
        unforeseen core b))"

definition own_block :: "syncer \<Rightarrow> statement_block" where
  "own_block s = ob_block (mo_last_own (sy_core s))"

definition made :: "statement_block list \<Rightarrow> syncer \<Rightarrow> statement_block list" where
  "made out s = (if last out = own_block s then out else out @ [own_block s])"

inductive syncer_run :: "sync_env \<Rightarrow> nat \<Rightarrow> statement_block list \<Rightarrow> syncer \<Rightarrow> bool" for e where
  started: "syncer_start e i = Some s \<Longrightarrow> mo_end (sy_core s) < 2 ^ 64 \<Longrightarrow> syncer_run e 0 [own_block s] s"
| added: "syncer_run e h out s \<Longrightarrow> \<forall>b \<in> set bs. acceptable (se_core e) (sy_core s) b \<Longrightarrow>
    payload_ok (se_core e) (si_payload i) \<Longrightarrow> syncer_receive e i bs s = Some (missing, s1) \<Longrightarrow> proposal_fits e i s1 \<Longrightarrow>
    syncer_try_new_block e i s1 = Some s' \<Longrightarrow> syncer_run e h (made out s') s'"
| forced: "syncer_run e h out s \<Longrightarrow> proposal_fits e i s \<Longrightarrow> syncer_force_new_block e i rnd s = Some (b, s') \<Longrightarrow>
    syncer_run e h (made out s') s'"
| cleaned: "syncer_run e h out s \<Longrightarrow> syncer_run e h out (s\<lparr>sy_core := mcore_cleanup (se_core e) (sy_core s)\<rparr>)"
| restarted: "syncer_run e h out s \<Longrightarrow> 0 < last_proposed (sy_core s) \<Longrightarrow> payload_ok (se_core e) (si_payload i) \<Longrightarrow>
    h' \<le> lz_last_height (co_interpreter (sy_observer s)) \<Longrightarrow> syncer_restart e i h' s = Some s' \<Longrightarrow> syncer_run e h' out s'"

definition sync_inv :: "sync_env \<Rightarrow> nat \<Rightarrow> statement_block list \<Rightarrow> syncer \<Rightarrow> bool" where
  "sync_inv e h out s \<longleftrightarrow> mcore_run (se_core e) out (sy_core s) \<and>
     commits_logged (mo_wal (sy_core s)) (lz_last_height (co_interpreter (sy_observer s))) \<and>
     h \<le> lz_last_height (co_interpreter (sy_observer s)) \<and>
     map commit_data_of (co_sent (sy_observer s)) = filter (\<lambda>cd. h < cd_height cd) (logged_commits (mo_wal (sy_core s)))"

lemma sync_inv_more:
  assumes inv: "sync_inv e h out s" and run: "mcore_run (se_core e) out' (sy_core s')"
    and wal: "mo_wal (sy_core s') = mo_wal (sy_core s) @ rest" "logged_commits rest = []"
    and obs: "sy_observer s' = sy_observer s"
  shows "sync_inv e h out' s'"
  using assms commits_logged_more by (simp add: sync_inv_def)

lemma logged_commits_blocks [simp]: "logged_commits (map (\<lambda>(p, b). (p, BlockEntry b)) new) = []"
  by (induction new) auto

lemma add_blocks_wal:
  assumes "mcore_add_blocks e now payload bs s = Some (missing, s')"
  shows "\<exists>rest. mo_wal s' = mo_wal s @ rest \<and> logged_commits rest = []" "mo_last_own s' = mo_last_own s"
  using assms by (auto simp: mcore_add_blocks_def run_block_handler_def Let_def split: option.splits prod.splits)

lemma try_new_block_wal:
  assumes "mcore_try_new_block e now time coins s = Some (b, s')"
  shows "\<exists>rest. mo_wal s' = mo_wal s @ rest \<and> logged_commits rest = []" "b = None \<Longrightarrow> s' = s"
    "b = Some x \<Longrightarrow> ob_block (mo_last_own s') = x"
  using assms
  by (auto simp: mcore_try_new_block_def insert_own_block_def Let_def split: option.splits prod.splits if_splits list.splits)

lemma attack_force_sel:
  "sy_observer (attack_force e s) = sy_observer s"
  "sy_core (attack_force e s) = sy_core s \<or> sy_core (attack_force e s) = (sy_core s)\<lparr>mo_force := False\<rparr>"
  "sy_core (attack_force e (s\<lparr>sy_force_new_block := f\<rparr>)) = sy_core (attack_force e s)"
  by (auto simp: attack_force_def take_trigger_def mcore_take_force_def Let_def)

lemma attack_force_inv:
  assumes "sync_inv e h out s"
  shows "sync_inv e h out (attack_force (se_core e) s)"
proof -
  have run: "mcore_run (se_core e) out (sy_core s)" using assms by (simp add: sync_inv_def)
  from mcore_run.forced [OF run] have "mcore_run (se_core e) out ((sy_core s)\<lparr>mo_force := False\<rparr>)"
    by (simp add: mcore_take_force_def)
  with run have "mcore_run (se_core e) out (sy_core (attack_force (se_core e) s))"
    using attack_force_sel(2) [of "se_core e" s] by metis
  moreover have "mo_wal (sy_core (attack_force (se_core e) s)) = mo_wal (sy_core s) @ []"
    using attack_force_sel(2) [of "se_core e" s] by auto
  ultimately show ?thesis using sync_inv_more [OF assms] attack_force_sel(1) by simp
qed

lemma commit_step:
  assumes honest: "honest_core c (se_core e)" and inv: "sync_inv e h out s" and run: "syncer_commit e i s = Some s'"
  shows "sync_inv e h out s' \<and> own_block s' = own_block s"
proof -
  let ?e = "se_core e" and ?lz = "co_interpreter (sy_observer s)" and ?wal = "mo_wal (sy_core s)"
  note I = inv [unfolded sync_inv_def]
  from run obtain leaders core1 ds obs cds core2 where
    r: "mcore_try_commit ?e (sy_core s) = Some (leaders, core1)"
    "observer_handle_commit (se_process_id e) (mo_store core1) leaders (sy_observer s) = Some (ds, obs)"
    "mcore_handle_committed ?e (si_now i) (si_state i) [] (se_commits_len e) ds core1 = Some (cds, core2)"
    and s': "s' = s\<lparr>sy_core := core2, sy_observer := obs\<rparr>"
    by (auto simp: syncer_commit_def split: option.splits prod.splits)
  from r(1) obtain k where k: "core_try_commit (me_weighted ?e) (me_committers ?e) (mo_store (sy_core s)) (mo_commit (sy_core s)) =
      Some (leaders, k)" "core1 = (sy_core s)\<lparr>mo_commit := k\<rparr>" by (auto simp: mcore_try_commit_def)
  from r(2) obtain lz' where lz: "lz_handle_commit (se_process_id e) (mo_store core1) leaders ?lz = Some (ds, lz')"
    "obs = (sy_observer s)\<lparr>co_interpreter := lz', co_sent := co_sent (sy_observer s) @ ds\<rparr>"
    by (auto simp: observer_handle_commit_def)
  from r(3) obtain p1 p2 where w: "mo_wal core2 = ?wal @ [(p1, StateEntry (si_state i)), (p2, CommitEntry (map commit_data_of ds) [])]"
    "mo_last_own core2 = mo_last_own (sy_core s)"
    using k(2) by (auto simp: mcore_handle_committed_def Let_def split: option.splits prod.splits)
  have core: "mcore_run ?e out (sy_core s)" using I by blast
  note D = core_store_invD [OF run_facts(1) [OF honest core]]
  from handle_commit_heights [OF lz(1)] have h: "map sd_height ds = [Suc (lz_last_height ?lz) ..< Suc (lz_last_height lz')]"
    "lz_last_height ?lz \<le> lz_last_height lz'" by auto
  have all: "commit_heights ?wal @ map sd_height ds = [1..<Suc (lz_last_height lz')]"
    using I h upt_join [of 1 "Suc (lz_last_height ?lz)" "Suc (lz_last_height lz')"]
    by (simp add: commit_heights_logged commits_logged_def del: upt_Suc)
  have run2: "mcore_run ?e out core2"
  proof (rule mcore_run.committed [OF mcore_run.tried [OF core r(1)] _ r(3)])
    show "sorted_wrt (<) (commit_heights (mo_wal core1) @ map sd_height ds)"
      using all k(2) sorted_wrt_upt by (metis mcore.surjective mcore.update_convs(8) mcore.simps(3))
  qed
  have "\<forall>d \<in> set ds. sd_anchor d \<in> reference ` set (sd_blocks d) \<and> (\<forall>b \<in> set (sd_blocks d). bs_holds (mo_store (sy_core s)) b)"
    using handle_commit_holds [OF _ lz(1)] try_commit_holds [OF D(10) k(1)] D(10) k(2) by simp
  then have new: "\<forall>cd \<in> set (map commit_data_of ds). commit_data_ok (mo_wal core2) cd"
    using wal_store_holds [OF D(4)] by (fastforce simp: commit_data_ok_def commit_data_of_def w(1))
  have "commits_logged (mo_wal core2) (lz_last_height lz')"
    unfolding commits_logged_def
  proof
    have "map cd_height (map commit_data_of ds) = map sd_height ds" by (simp add: commit_data_of_def)
    then show "map cd_height (logged_commits (mo_wal core2)) = [1..<Suc (lz_last_height lz')]"
      using all by (simp add: w(1) commit_heights_logged del: map_map)
    show "\<forall>cd \<in> set (logged_commits (mo_wal core2)). commit_data_ok (mo_wal core2) cd"
      using new I commit_data_ok_mono by (auto simp: w(1) commits_logged_def)
  qed
  moreover have "\<forall>d \<in> set ds. h < sd_height d"
  proof
    fix d assume "d \<in> set ds"
    then have "sd_height d \<in> set (map sd_height ds)" by simp
    then show "h < sd_height d" unfolding h(1) using I by auto
  qed
  then have "filter (\<lambda>cd. h < cd_height cd) (map commit_data_of ds) = map commit_data_of ds"
    by (auto simp: commit_data_of_def filter_id_conv)
  ultimately have "sync_inv e h out s'"
    using I h(2) run2 by (simp add: sync_inv_def s' lz(2) w(1))
  then show ?thesis by (simp add: s' own_block_def w(2))
qed


lemma run_last:
  assumes "honest_core c e" "mcore_run e out s"
  shows "last out = ob_block (mo_last_own s)" "sorted_wrt (<) (map block_round out)" "out \<noteq> []"
  using run_facts(4) [OF assms] by (auto simp: run_inv_def)

lemma try_step:
  assumes honest: "honest_core c (se_core e)" and inv: "sync_inv e h out s" and fits: "proposal_fits e i s"
    and run: "syncer_try_new_block e i s = Some s'"
  shows "sync_inv e h (made out s') s'"
proof -
  let ?e = "se_core e" and ?s = "attack_force (se_core e) s"
  have inv1: "sync_inv e h out ?s" by (rule attack_force_inv [OF inv])
  then have core: "mcore_run ?e out (sy_core ?s)" by (simp add: sync_inv_def)
  have same: "made out ?s = out" using run_last(1) [OF honest core] by (simp add: made_def own_block_def)
  define r where "r = (if sy_force_new_block ?s then Some True
               else mcore_ready ?e (se_commit_period e) (si_links i) (sy_core ?s))"
  note run' = run [unfolded syncer_try_new_block_def Let_def, folded r_def]
  show ?thesis
  proof (cases "r = Some True")
    case False
    then have "s' = ?s" using run' by (auto split: option.splits bool.splits)
    then show ?thesis using inv1 same by simp
  next
    case True
    then obtain ob core1 where p: "mcore_try_new_block ?e (si_now i) (si_time i) (si_coins i) (sy_core ?s) = Some (ob, core1)"
      using run' by (auto split: option.splits)
    note w = try_new_block_wal [OF p]
    show ?thesis
    proof (cases ob)
      case None
      then have "s' = ?s" using run' True p w(2) by simp
      then show ?thesis using inv1 same by simp
    next
      case (Some b)
      let ?s1 = "?s\<lparr>sy_core := core1, sy_signals := sy_signals ?s @ [NewBlockReady], sy_force_new_block := False\<rparr>"
      have s': "s' = ?s1 \<or> syncer_commit e i ?s1 = Some s'"
        using run' True p Some by (auto split: if_splits)
      have fit: "mo_end (sy_core ?s) < 2 ^ 64" "unforeseen (sy_core ?s) b"
        using fits p Some by (auto simp: proposal_fits_def Let_def)
      have core1: "mcore_run ?e (out @ [b]) core1"
        using mcore_run.proposed [OF core fit(1) _ fit(2)] p Some by blast
      obtain xs where xs: "mo_wal core1 = mo_wal (sy_core ?s) @ xs" "logged_commits xs = []" using w(1) by blast
      have inv2: "sync_inv e h (out @ [b]) ?s1"
        by (rule sync_inv_more [OF inv1 _ _ xs(2)]) (simp_all add: core1 xs(1))
      have "last out \<noteq> b"
        using run_last(2) [OF honest core1] run_last(3) [OF honest core] by (auto simp: sorted_wrt_append)
      moreover have "own_block ?s1 = b" using w(3) [OF Some] by (simp add: own_block_def)
      ultimately have out: "own_block s' = own_block ?s1 \<Longrightarrow> made out s' = out @ [b]" by (simp add: made_def)
      from s' show ?thesis
      proof
        assume "s' = ?s1"
        then show ?thesis using inv2 out by simp
      next
        assume "syncer_commit e i ?s1 = Some s'"
        from commit_step [OF honest inv2 this] out show ?thesis by simp
      qed
    qed
  qed
qed

lemma restarted_sub_dags:
  assumes env: "core_env_ok e" and inv: "core_inv e s" and later: "0 < last_proposed s"
  shows "recovered_sub_dags e (mo_wal s) = Some (logged_commits (mo_wal s))"
proof -
  have a: "me_authority e < mc_len (me_committee e)" using env by (simp add: core_env_ok_def)
  from store_restored [OF core_invD(1) [OF inv] a] obtain st where
    st: "replay_store (wal_blocks (mo_wal s)) (bs_new (me_committee e) (me_authority e) (log_read (mo_wal s))) = Some st" by blast
  obtain r where r: "replay_sb (mo_wal s) sb_new = Some r" using core_invD(3) [OF inv] by (auto simp: core_replay_inv_def)
  from replay_sub_dags [OF r] have "sb_sub_dags r = logged_commits (mo_wal s)" by (simp add: sb_new_def)
  then show ?thesis using replay_log_split [OF st r] by (simp add: recovered_sub_dags_def)
qed

lemma restarted_wal:
  assumes "core_env_ok e" "core_inv e s" "0 < last_proposed s" "mcore_restart e now payload s = Some s'"
  shows "\<exists>xs. mo_wal s' = mo_wal s @ xs \<and> logged_commits xs = []"
proof -
  from store_open_spec [OF assms(1-3)] obtain rec where
    rec: "store_open (me_committee e) (me_authority e) (mo_wal s) = Some rec" "cr_last_own rec = Some (mo_last_own s)" by blast
  then show ?thesis using assms(4)
    by (auto simp: mcore_restart_def mcore_open_def Let_def run_block_handler_def split: option.splits if_splits)
qed

text \<open>A restart returns and sends again what the application had not received.\<close>

lemma restart_step:
  assumes honest: "honest_core c (se_core e)" and inv: "sync_inv e h out s" and later: "0 < last_proposed (sy_core s)"
    and payload: "payload_ok (se_core e) (si_payload i)"
  shows "\<exists>s'. syncer_restart e i h' s = Some s' \<and>
    map commit_data_of (co_sent (sy_observer s')) = filter (\<lambda>cd. h' < cd_height cd) (logged_commits (mo_wal (sy_core s))) \<and>
    (h' \<le> lz_last_height (co_interpreter (sy_observer s)) \<longrightarrow> sync_inv e h' out s')"
proof -
  let ?e = "se_core e" and ?wal = "mo_wal (sy_core s)" and ?n = "lz_last_height (co_interpreter (sy_observer s))"
  note I = inv [unfolded sync_inv_def] and env = honest_coreD(1) [OF honest]
  have core: "mcore_run ?e out (sy_core s)" using I by blast
  note F = run_facts [OF honest core]
  from restart_spec [OF env F(3) later, of "si_payload i" "si_now i"] payload obtain core' where
    r: "mcore_restart ?e (si_now i) (si_payload i) (sy_core s) = Some core'" "core_inv ?e core'"
    "block_at (mo_store core') = block_at (mo_store (sy_core s))" by (auto simp: payload_ok_def)
  have run': "mcore_run ?e out core'" by (rule mcore_run.restarted [OF core later payload r(1)])
  obtain xs where xs: "mo_wal core' = ?wal @ xs" "logged_commits xs = []"
    using restarted_wal [OF env F(3) later r(1)] by blast
  note D = core_store_invD [OF core_invD(1) [OF r(2)]] and D0 = core_store_invD [OF F(1)]
  have "\<forall>cd \<in> set (logged_commits ?wal). cd_leader cd \<in> set (cd_sub_dag cd) \<and> set (cd_sub_dag cd) \<subseteq> stored (mo_store core')"
  proof
    fix cd assume "cd \<in> set (logged_commits ?wal)"
    then have cd: "commit_data_ok ?wal cd" using I by (simp add: commits_logged_def)
    have "r \<in> stored (mo_store core')" if "r \<in> set (cd_sub_dag cd)" for r
    proof -
      from cd that obtain b where "b \<in> snd ` set (wal_blocks ?wal)" "reference b = r"
        by (fastforce simp: commit_data_ok_def)
      then have "bs_holds (mo_store (sy_core s)) b" using wal_store_holds [OF D0(4)] by blast
      then have "bs_holds (mo_store core') b" using r(3) by (simp add: bs_holds_def)
      then show ?thesis using holds_stored [OF D(10)] \<open>reference b = r\<close> by blast
    qed
    then show "cd_leader cd \<in> set (cd_sub_dag cd) \<and> set (cd_sub_dag cd) \<subseteq> stored (mo_store core')"
      using cd by (auto simp: commit_data_ok_def)
  qed
  from observer_new_spec [OF D(10) _ this, of ?n h'] I obtain obs where
    obs: "observer_new (mo_store core') h' (logged_commits ?wal) = Some obs" "lz_last_height (co_interpreter obs) = ?n"
    "map commit_data_of (co_sent obs) = filter (\<lambda>cd. h' < cd_height cd) (logged_commits ?wal)"
    by (auto simp: commits_logged_def)
  have s': "syncer_restart e i h' s = Some (syncer_new core' obs)"
    using r(1) restarted_sub_dags [OF env F(3) later] obs(1) by (simp add: syncer_restart_def syncer_open_def)
  have "commits_logged (mo_wal core') ?n" using commits_logged_more [OF _ xs(2)] I xs(1) by simp
  then have "h' \<le> ?n \<longrightarrow> sync_inv e h' out (syncer_new core' obs)"
    using run' obs(2,3) xs by (simp add: sync_inv_def syncer_new_def)
  then show ?thesis using s' obs(3) by (intro exI [of _ "syncer_new core' obs"]) (simp add: syncer_new_def)
qed

lemma open_genesis_logged:
  "open_genesis e now bs s = Some s' \<Longrightarrow> logged_commits (mo_wal s) = [] \<Longrightarrow> logged_commits (mo_wal s') = []"
  by (induction e now bs s rule: open_genesis.induct) (auto split: option.splits prod.splits)

lemma start_logs_no_commits:
  assumes "mcore_start e now = Some s"
  shows "logged_commits (mo_wal s) = []"
  using assms
  by (auto simp: mcore_start_def store_open_def sb_build_def sb_new_def mcore_open_def open_empty_def insert_own_block_def
      Let_def split: option.splits prod.splits dest: open_genesis_logged)

lemma started_inv:
  assumes "honest_core c (se_core e)" "syncer_start e i = Some s" "mo_end (sy_core s) < 2 ^ 64"
  shows "sync_inv e 0 [own_block s] s"
proof -
  from assms(2) obtain core obs where s: "mcore_start (se_core e) (si_now i) = Some core" "s = syncer_new core obs"
    "observer_new (mo_store core) 0 [] = Some obs"
    by (auto simp: syncer_start_def syncer_open_def recovered_sub_dags_def sb_new_def split: option.splits)
  have obs: "obs = \<lparr>co_interpreter = lz_new, co_sent = []\<rparr>"
    using s(3) by (simp add: observer_new_def lz_recover_state_def lz_new_def)
  have run: "mcore_run (se_core e) [ob_block (mo_last_own core)] core"
    by (rule mcore_run.started [OF s(1)]) (use assms(3) in \<open>simp add: s(2) syncer_new_def\<close>)
  have "logged_commits (mo_wal core) = []"
    using start_logs_no_commits [OF s(1)] by (simp add: s(2) syncer_new_def)
  then show ?thesis using run
    by (simp add: sync_inv_def s(2) obs syncer_new_def own_block_def lz_new_def commits_logged_def)
qed

lemma syncer_run_inv:
  assumes honest: "honest_core c (se_core e)"
  shows "syncer_run e h out s \<Longrightarrow> sync_inv e h out s"
proof (induction rule: syncer_run.induct)
  case (started i s)
  then show ?case by (rule started_inv [OF honest])
next
  case (added h out s bs i missing s1 s')
  from added.hyps(4) obtain core where c: "mcore_add_blocks (se_core e) (si_now i) (si_payload i) bs (sy_core s) = Some (missing, core)"
    "sy_core s1 = core" "sy_observer s1 = sy_observer s" by (auto simp: syncer_receive_def)
  obtain xs where xs: "mo_wal core = mo_wal (sy_core s) @ xs" "logged_commits xs = []" using add_blocks_wal(1) [OF c(1)] by blast
  have "mcore_run (se_core e) out core"
    using mcore_run.added [OF _ added.hyps(2,3) c(1)] added.IH by (simp add: sync_inv_def)
  then have "sync_inv e h out s1" using sync_inv_more [OF added.IH _ _ xs(2)] xs(1) c(2,3) by simp
  from try_step [OF honest this added.hyps(5,6)] show ?case .
next
  case (forced h out s i rnd b s')
  have "made out s = out"
    using run_last(1) [OF honest] forced.IH by (simp add: made_def own_block_def sync_inv_def)
  moreover have "sync_inv e h out (s\<lparr>sy_force_new_block := True\<rparr>)" using forced.IH by (simp add: sync_inv_def)
  from try_step [OF honest this] have
    "syncer_try_new_block e i (s\<lparr>sy_force_new_block := True\<rparr>) = Some s' \<Longrightarrow> sync_inv e h (made out s') s'"
    using forced.hyps(2) by (simp add: proposal_fits_def attack_force_sel(3))
  ultimately show ?case using forced.hyps(3) forced.IH by (auto simp: syncer_force_new_block_def split: if_splits)
next
  case (cleaned h out s)
  then show ?case using mcore_run.cleaned by (simp add: sync_inv_def mcore_cleanup_def)
next
  case (restarted h out s i h' s')
  from restart_step [OF honest restarted.IH restarted.hyps(2,3), of h'] restarted.hyps(4,5) show ?case by auto
qed

end
