(* ===== verification/MystiSyncerProps.thy ===== *)
theory MystiSyncerProps
  imports MystiSyncer MystiCoreSamples
begin

text \<open>
  Mysticeti: the properties of the syncer and its commit observer over whole runs with restarts, and
  a concrete run.
\<close>

section \<open>The properties\<close>

text \<open>
  C11: The syncer uses the core as its contract demands: every run of the
  syncer, with its attacks, forced proposals, commits and restarts, is a run of the core that makes the
  same blocks. In particular the sub-dags it has the core log come with ascending heights. So
  what holds of the runs of a core holds of the node.
\<close>

theorem syncer_refines_core:
  assumes "honest_core c (se_core e)" "syncer_run e h out s"
  shows "mcore_run (se_core e) out (sy_core s)"
  using syncer_run_inv [OF assms] by (simp add: sync_inv_def)

text \<open>
  C12: In every run the committed sub-dags in the log have the heights 1, 2, 3 and so
  on, and the observer has sent, in this order and each once since the last restart, exactly those above
  the height \<open>h\<close> which the application had received then. A restart after the first proposal
  returns: no assertion of the recovery fails, and for any height \<open>h'\<close> it sends exactly the logged
  sub-dags above \<open>h'\<close>, with the same leaders, blocks and heights.
\<close>

theorem output_matches_log:
  assumes "honest_core c (se_core e)" "syncer_run e h out s"
  shows "(\<exists>n. map cd_height (logged_commits (mo_wal (sy_core s))) = [1..<Suc n]) \<and>
    map commit_data_of (co_sent (sy_observer s)) =
      filter (\<lambda>cd. h < cd_height cd) (logged_commits (mo_wal (sy_core s))) \<and>
    (0 < last_proposed (sy_core s) \<and> payload_ok (se_core e) (si_payload i) \<longrightarrow>
      (\<exists>s'. syncer_restart e i h' s = Some s' \<and> map commit_data_of (co_sent (sy_observer s')) =
        filter (\<lambda>cd. h' < cd_height cd) (logged_commits (mo_wal (sy_core s)))))"
proof -
  have inv: "sync_inv e h out s" by (rule syncer_run_inv [OF assms])
  then show ?thesis
    using restart_step [OF assms(1) inv, of i h'] by (auto simp: sync_inv_def commits_logged_def simp del: upt_Suc)
qed

section \<open>A concrete run\<close>

text \<open>A node that starts, is forced to propose by a timeout, tries to commit, and restarts.\<close>

definition sync_env0 :: sync_env where
  "sync_env0 = \<lparr>se_core = env_of 0, se_commit_period = 1, se_process_id = 7, se_commits_len = (\<lambda>_ _. 8)\<rparr>"

definition inputs0 :: sync_inputs where
  "inputs0 = \<lparr>si_now = 0, si_time = 0, si_coins = (\<lambda>_. False), si_payload = [], si_state = [], si_links = as_empty\<rparr>"

definition syncer0 :: syncer where
  "syncer0 = syncer_new core0 \<lparr>co_interpreter = lz_new, co_sent = []\<rparr>"

definition syncer1 :: syncer where
  "syncer1 = \<lparr>sy_core = core1\<lparr>mo_wal := mo_wal core1 @ [(596, StateEntry []), (612, CommitEntry [] [])], mo_end := 636\<rparr>,
     sy_force_new_block = False, sy_observer = \<lparr>co_interpreter = lz_new, co_sent = []\<rparr>, sy_signals = [NewBlockReady]\<rparr>"

lemma sync_env0_sel: "se_core sync_env0 = env_of 0" "se_commits_len sync_env0 = (\<lambda>_ _. 8)"
  by (simp_all add: sync_env0_def)

lemma syncer0_started: "syncer_start sync_env0 inputs0 = Some syncer0"
  by (simp add: syncer_start_def sync_env0_def inputs0_def core0_started syncer_open_def recovered_sub_dags_def
      sb_new_def observer_new_def lz_recover_state_def lz_new_def syncer0_def)

lemma attack_none: "attack_force (env_of 0) s = s"
  by (simp add: attack_force_def env_of_sel attack_type_from_env_def Let_def)

lemma fits0: "proposal_fits sync_env0 inputs0 syncer0"
  by (simp add: proposal_fits_def sync_env0_sel attack_none Let_def syncer0_def syncer_new_def core0_sel inputs0_def
      core1_proposed unforeseen0)

lemma commit_none1: "mcore_try_commit (env_of 0) core1 = Some ([], core1)"
proof -
  have "mo_commit core1 = commit_state_new 100"
    by (simp add: core1_def core0_def Let_def commit_state_new_def)
  moreover have "core_try_commit in_order two_leaders store1 (commit_state_new 100) = Some ([], commit_state_new 100)"
    by code_simp
  ultimately have "mcore_try_commit (env_of 0) core1 = Some ([], core1\<lparr>mo_commit := mo_commit core1\<rparr>)"
    by (simp add: mcore_try_commit_def env_of_sel core1_sel)
  then show ?thesis by simp
qed

lemma leaders1: "mcore_leaders (env_of 0) 0 \<noteq> None"
proof -
  have "case uc_get_leaders in_order two_leaders 0 of None \<Rightarrow> False
      | Some as \<Rightarrow> those (map (mc_authority_safe four) as) \<noteq> None" by code_simp
  then show ?thesis by (simp add: mcore_leaders_def env_of_sel split: option.splits)
qed

lemma syncer1_forced: "syncer_force_new_block sync_env0 inputs0 1 syncer0 = Some (True, syncer1)"
proof -
  have new: "last_proposed core0 = 0" "last_proposed core1 = 1"
    by (simp_all add: last_proposed_def core0_sel core1_sel block_round_def)
  have closed: "\<not> em_closed (cs_epoch_manager (mo_commit core1))"
    by (simp add: core1_def core0_def Let_def commit_state_new_def em_new_def em_closed_def)
  show ?thesis
    using leaders1 closed
    by (simp add: syncer_force_new_block_def syncer_try_new_block_def sync_env0_sel attack_none syncer0_def syncer_new_def
      new inputs0_def core1_proposed syncer_commit_def commit_none1 observer_handle_commit_def Let_def
      mcore_handle_committed_def core1_sel wal_write_low syncer1_def)
qed

lemma run_forced: "syncer_run sync_env0 0 [genesis_of 0, own1] syncer1"
proof -
  have "syncer_run sync_env0 0 [own_block syncer0] syncer0"
    by (rule syncer_run.started [OF syncer0_started]) (simp add: syncer0_def syncer_new_def core0_sel)
  from syncer_run.forced [OF this fits0 syncer1_forced]
  have run: "syncer_run sync_env0 0 (made [own_block syncer0] syncer1) syncer1" .
  have own: "own_block syncer0 = genesis_of 0" "own_block syncer1 = own1"
    by (simp_all add: own_block_def syncer0_def syncer_new_def syncer1_def core0_sel core1_sel)
  have "reference (genesis_of 0) \<noteq> reference own1" by simp
  then have "genesis_of 0 \<noteq> own1" by metis
  then have "made [own_block syncer0] syncer1 = [genesis_of 0, own1]" by (simp add: made_def own)
  then show ?thesis using run by simp
qed

theorem syncer_refines_core_witness: "mcore_run (env_of 0) [genesis_of 0, own1] (sy_core syncer1)"
  using syncer_refines_core [OF _ run_forced] honest_env [of 0] by (simp add: sync_env0_sel)

theorem output_matches_log_witness:
  "logged_commits (mo_wal (sy_core syncer1)) = [] \<and> (\<exists>s'. syncer_restart sync_env0 inputs0 0 syncer1 = Some s')"
proof -
  have "0 < last_proposed (sy_core syncer1)" by (simp add: syncer1_def last_proposed_def core1_sel block_round_def)
  moreover have "honest_core four (se_core sync_env0)" by (simp add: sync_env0_sel honest_env)
  moreover have "payload_ok (se_core sync_env0) (si_payload inputs0)" by (simp add: sync_env0_sel inputs0_def payload_empty)
  ultimately have "\<exists>s'. syncer_restart sync_env0 inputs0 0 syncer1 = Some s'"
    using output_matches_log [OF _ run_forced, of four inputs0 0] by blast
  then show ?thesis by (simp add: syncer1_def core1_def core0_def Let_def)
qed

end
