(* ===== verification/Spec2Isabelle.thy ===== *)
theory Spec2Isabelle
  imports ProposerRuns WorkerRuns MystiProps MystiCoreProps MystiHandlerProps MystiSyncerProps
begin

text \<open>
  A verification library for two of the consensus systems of this repository: the Narwhal mempool
  with the Tusk consensus (src/code/narwhal-tusk), with the attack modes (fissure, speculative,
  sluggish) that the repository adds to it, and the Mysticeti consensus (src/code/mysticeti).

  \<^bold>\<open>Narwhal and Tusk.\<close> A node is a primary and its workers. A worker batches transactions,
  sends each batch to the workers of the other authorities, and tells its primary the digest once a
  quorum has acknowledged it. The proposer of the primary puts batch digests and the digests of the
  certificates of the previous round into a header; the core broadcasts it, votes for the headers of
  others, turns votes into certificates and hands every certificate, after its parents, to the
  consensus, which orders them without further messages. The tasks share a store of bytes and talk
  over channels; what a node lacks is fetched by the synchronisers, the waiters and the helpers.

  \<^bold>\<open>Mysticeti.\<close> Nodes exchange signed blocks that include blocks of earlier rounds; there are no
  certificates. The block manager holds a received block back until its includes are stored; the
  block store indexes blocks by round, author and digest over a write-ahead log; the threshold
  clock says when a node may propose. The committers decide the leaders of each round from the
  blocks of the next rounds, directly or through a later leader, and the linearizer turns the
  sequence of leaders into sub-dags of their causal histories. The epoch manager closes the epoch.
  The core ties these together: it accepts blocks, proposes its own with what is pending, or as one of
  the attacks demands, logs all it needs for a restart, and commits. Its block handler takes
  transactions of clients and counts the votes on the transactions in blocks.

  \<^bold>\<open>Theories and sources.\<close>
    \<^item> \<open>Prelude\<close>: outcomes (\<open>Result\<close> with panics), little-endian bytes, wrapping arithmetic, hash maps
      and B-trees as association lists, and their lemmas.
    \<^item> \<open>Crypto\<close>, \<open>Config\<close>, \<open>Messages\<close>, \<open>Store\<close>: crypto/src/lib.rs, config/src/lib.rs,
      primary/src/messages.rs with error.rs, store/src/lib.rs. \<open>Samples\<close> holds concrete inputs.
    \<^item> \<open>Aggregators\<close>, \<open>Synchronizer\<close>, \<open>Roles\<close> (with the floating point of \<open>F64\<close>), \<open>Core\<close>:
      primary/src/aggregators.rs, synchronizer.rs, the choice of attackers and victims in
      core.rs, proposer.rs and consensus/src/lib.rs, and core.rs. \<open>CoreRules\<close> is a calculus for the
      handlers of the core, \<open>CoreProps\<close> what they guarantee, \<open>CoreRuns\<close> concrete runs.
    \<^item> \<open>Proposer\<close>, \<open>ProposerProps\<close>, \<open>ProposerRuns\<close>: primary/src/proposer.rs.
    \<^item> \<open>Pool\<close>, \<open>Waiters\<close>, \<open>WaiterProps\<close>: header_waiter.rs, certificate_waiter.rs,
      garbage_collector.rs, payload_receiver.rs, helper.rs and the handlers of primary.rs.
    \<^item> \<open>Network\<close>: the crate network. \<open>Worker\<close>, \<open>WorkerProps\<close>, \<open>WorkerQuorum\<close>, \<open>WorkerRuns\<close>: the crate
      worker, with all its tasks composed into one state (\<open>worker_step\<close>).
    \<^item> \<open>Consensus\<close>, \<open>Leaders\<close>, \<open>Runs\<close>: consensus/src/lib.rs.
    \<^item> \<open>MystiTypes\<close>, \<open>MystiCommittee\<close>, \<open>MystiClock\<close> (mysticeti-core/src): types.rs and crypto.rs;
      committee.rs with the bit set of authorities; threshold_clock.rs, \<open>verify\<close> of types.rs and
      epoch_close.rs.
    \<^item> \<open>MystiStore\<close>: block_store.rs. \<open>MystiManager\<close>, \<open>MystiCausal\<close>, \<open>MystiManagerRuns\<close>:
      block_manager.rs with the placement of entries of wal.rs, its invariant, and runs.
    \<^item> \<open>MystiCommitter\<close>, \<open>MystiVotes\<close>, \<open>MystiSafety\<close>: consensus/base_committer.rs and mod.rs, what its
      loops decide, and the agreement of two views on one leader. \<open>MystiUniversal\<close>, \<open>MystiOrder\<close>,
      \<open>MystiCommits\<close>: consensus/universal_committer.rs and \<open>try_commit\<close> of core.rs, over whole
      executions. \<open>MystiLinear\<close>: consensus/linearizer.rs.
    \<^item> \<open>MystiCore\<close>, \<open>MystiRecover\<close>, \<open>MystiPropose\<close>: core.rs (accepting blocks; starting and restarting
      with \<open>BlockStore::open\<close> and state.rs; proposing, with the attacks). \<open>MystiCoreInv\<close>, \<open>MystiProposals\<close>,
      \<open>MystiRestart\<close>: its invariant, what a proposal contains, what the log restores. \<open>MystiCoreRuns\<close>,
      \<open>MystiCoreSamples\<close>, \<open>MystiCoreProps\<close>: runs with restarts, concrete runs, and the properties.
    \<^item> \<open>MystiRange\<close>, \<open>MystiTransactions\<close>, \<open>MystiHandler\<close>, \<open>MystiHandlerProps\<close>: range_map.rs,
      \<open>TransactionAggregator\<close> of committee.rs, block_handler.rs, and their properties.
    \<^item> \<open>MystiSyncer\<close>, \<open>MystiSyncerProps\<close>: syncer.rs and \<open>SimpleCommitObserver\<close> of commit_observer.rs, which
      compose the core, the linearizer and the log into a node that starts, runs and restarts.
    \<^item> \<open>MystiSamples\<close>, \<open>MystiProps\<close>, \<open>MystiChecks\<close>: concrete dags and the properties of the parts
      below the core.

  \<^bold>\<open>State and operations.\<close> A struct is a record, an enum a datatype, a \<open>u32\<close> stake a 32-bit word;
  rounds and sizes are naturals with the wrap-around written out (\<open>u64_add\<close>) where it can matter. A
  \<open>HashMap\<close> is an association list with distinct keys whose order stands for the unspecified
  iteration order. A task whose loop is a \<open>select!\<close> is a step function on one event, and a run is
  a fold over events; the clock, random shuffles and failures of the operating system are part of
  the event. What a task sends is logged in its state. \<open>expect\<close> and \<open>unwrap\<close> are the outcome
  \<open>Panic\<close>, or \<open>None\<close> where nothing else can fail, which ends a run. The handlers of the Narwhal core
  are state transformers with an outcome. The Mysticeti core is the record \<open>mcore\<close>, with its log as
  the list of entries at their positions; what it reads from outside is the record \<open>mcore_env\<close>.

  \<^bold>\<open>Interfaces.\<close> \<open>key_value\<close> (Store) is what clients assume of the store; \<open>waiter_pool\<close> (Pool) is the
  contract of the tasks that wait for keys of the store, and gives that each request has one live
  future; \<open>core_invariant\<close> (CoreRules) closes a property of the state of the core under all its
  handlers and runs; \<open>quorum_system\<close> (Config) is the arithmetic of quorums that both systems share;
  \<open>block_index\<close> (MystiStore) is what committers, linearizer and block manager assume of the block
  store. Each is interpreted on the model's own definitions.

  \<^bold>\<open>What is shown.\<close>
    \<^item> Messages and votes: valid certificates of one round share voters, a certificate assembled from
      votes is valid, what the digests bind and where the header id is ambiguous.
    \<^item> Core: every event is handled; one vote per author and round; votes only for headers with a
      quorum of known parents and stored payload; certificates are forwarded after their parents.
    \<^item> Consensus: it never panics on what a core hands it, orders exactly the uncommitted causal
      history, commits nothing twice, and a supported leader is linked from all later
      certificates; but nodes that skip a leader may diverge, since past leaders are looked up in odd rounds.
    \<^item> Proposer: one header per round in every mode; what the attacks keep and what they lose.
    \<^item> Waiters and helper: no header is stuck, none returns early; a request can kill the helper.
    \<^item> Network and worker: reliable delivery in order; transactions are neither lost nor reordered;
      own batches have a quorum of acknowledgements; stored batches hash to their keys; requests for
      missing batches go to the wrong worker; without peers no batch is ever reported.
    \<^item> Mysticeti, agreement: in waves of three rounds the leaders that two nodes commit are prefixes
      of one sequence, for views that agree on blocks and on the block of an honest authority and
      round (\<open>two_views\<close>), and no panic is reached; in waves of four rounds this is false. The
      linearizer delivers each block of the histories once, and the same sub-dags at both nodes, though
      their inner order depends on the process id.
    \<^item> Mysticeti, core: in every run with restarts an honest core proposes at most one block per round,
      its proposals pass \<open>verify\<close> and keep all that is pending in their history, its store is a dag, it
      does not panic, and the log restores store, last own block and pending statements; so cores
      commit prefixes of one sequence. But a restarted core does not count its own last block.
    \<^item> Mysticeti, node: every run of the syncer is a run of the core, and the application is sent exactly
      the logged sub-dags above the height it had, also after a restart.
    \<^item> Mysticeti, transactions: the votes counted by ranges certify exactly the transactions that a
      quorum backs. But a rejecting vote stops every validator, an empty range counts, and the intake of
      client transactions stops after a restart.
    \<^item> Mysticeti, blocks: the block manager accepts exactly what is causally complete, in whatever
      order it comes, and asks for exactly what is missing; the store stays well formed and its cache
      is invisible; the threshold clock and the epoch manager compute what their quorums justify;
      \<open>verify\<close> is exact, but the signed bytes leave the border between includes and
      transactions open; the quorum threshold wraps for huge stakes.

  \<^bold>\<open>Fuel and bounds.\<close> The three mutually recursive handlers of the core take fuel; \<open>core_fuel\<close> (eight
  calls) always suffices, by \<open>core_handle_returns\<close>. \<open>mutate_range\<close> is a partial function, which returns
  on every range that holds a key (\<open>mutate_range_spec\<close>). All other functions are total. Thresholds are
  exact for committees with less than \<open>2 ^ 31\<close> stake (\<open>committee_ok\<close>); rounds are assumed below the
  wrap-around only where a statement says so.

  \<^bold>\<open>Parameters.\<close> SHA-512, ed25519 and base64 are the record \<open>crypto\<close>; bincode is \<open>codec\<close> and
  \<open>worker_codec\<close>; \<open>f64::powi\<close> is a field of the proposer's environment. Hypotheses on them
  (\<open>sha512_size\<close>, \<open>codec_ok\<close>, injectivity of an encoding) are satisfied by the samples. For Mysticeti,
  BLAKE2b and ed25519 are the record \<open>mcrypto\<close>, the weighted shuffle of rand is \<open>weighted_choice\<close>
  with the hypothesis that it permutes the authorities, and the length of a serialised block and
  the iteration order of a hash set are arguments of the block manager. For the core the environment
  variables of the attacks, the signer and the committers are fields of \<open>mcore_env\<close>; the clock, the
  coins of the attacks and the statements that the block handler answers are arguments.

  \<^bold>\<open>Not modelled.\<close> Sockets below frames, the capacity of channels, logging, metrics, command line,
  files, key generation and the benchmark clients. Of Mysticeti: the network
  tasks, the synchroniser, the observer of the benchmark, the memory maps, headers and CRC of the
  log, and bincode: a payload and the state of the handler stand decoded. The other code bases under src/code: mahi-mahi-consensus is a variant of
  mysticeti; alephbft and autobahn-artifact are separate systems; bullshark and mevsui are forks of
  Sui with the consensus as a small part.
\<close>

end
